(* ===== verification/Prelude.thy ===== *)
theory Prelude
  imports Main "HOL-Library.Word" "HOL-Library.Monad_Syntax"
begin

text \<open>
  Shared vocabulary of the development: the collections of rewrite rules the component proofs
  use, the machine integers of the 32-bit Intel build, the error numbers of
  \<^verbatim>\<open>include/errno.h\<close>, and generic lemmas on options, words and lists.

  Computations that may have no defined outcome in C (a loop that does not end, a panic, an access
  outside a table) return an \<open>option\<close>; \<open>None\<close> is the absence of a defined outcome.
  Error returns of the C code are its own integers, values of the result.
\<close>

unbundle bit_operations_syntax

named_theorems frame_simps \<open>fields that an operation leaves alone\<close>
named_theorems inv_intros \<open>operations that keep an invariant\<close>
named_theorems chain_simps \<open>pointer chains under updates of the heap\<close>

subsection \<open>Machine integers\<close>

type_synonym u8 = "8 word"
type_synonym u16 = "16 word"
type_synonym u32 = "32 word"

text \<open>
  A \<^verbatim>\<open>char\<close> is signed in this build (\<^verbatim>\<open>CHAR_MIN\<close> is -128 in \<^verbatim>\<open>include/limits.h\<close>), a
  \<^verbatim>\<open>short\<close> has 16 bits, an \<^verbatim>\<open>int\<close> and a \<^verbatim>\<open>long\<close> have 32 bits. Storing an integer into such a variable truncates it.
\<close>

definition schar :: "int \<Rightarrow> int" where
  "schar x = sint (word_of_int x :: u8)"

definition sshort :: "int \<Rightarrow> int" where
  "sshort x = sint (word_of_int x :: u16)"

definition slong :: "int \<Rightarrow> int" where
  "slong x = sint (word_of_int x :: u32)"

lemma schar_id [simp]: "-128 \<le> x \<Longrightarrow> x < 128 \<Longrightarrow> schar x = x"
  unfolding schar_def by (simp add: signed_of_int signed_take_bit_int_eq_self)

lemma sshort_id [simp]: "-32768 \<le> x \<Longrightarrow> x < 32768 \<Longrightarrow> sshort x = x"
  unfolding sshort_def by (simp add: signed_of_int signed_take_bit_int_eq_self)

lemma slong_id [simp]: "-(2^31) \<le> x \<Longrightarrow> x < 2^31 \<Longrightarrow> slong x = x"
  unfolding slong_def by (simp add: signed_of_int signed_take_bit_int_eq_self)

lemma schar_lower: "-128 \<le> schar x"
  unfolding schar_def using sint_ge [of "word_of_int x :: u8"] by simp

lemma schar_upper: "schar x < 128"
  unfolding schar_def using sint_lt [of "word_of_int x :: u8"] by simp

text \<open>C's division truncates towards zero.\<close>

definition cdiv :: "int \<Rightarrow> int \<Rightarrow> int" where
  "cdiv a b = (if a < 0 then - ((- a) div b) else a div b)"

lemma cdiv_nonneg [simp]: "0 \<le> a \<Longrightarrow> cdiv a b = a div b"
  by (simp add: cdiv_def)

subsection \<open>Error numbers (include/errno.h, with \<^verbatim>\<open>_SYSTEM\<close>: negative)\<close>

abbreviation (input) OK :: int where "OK \<equiv> 0"
abbreviation (input) EPERM :: int where "EPERM \<equiv> - 1"
abbreviation (input) ENOENT :: int where "ENOENT \<equiv> - 2"
abbreviation (input) ESRCH :: int where "ESRCH \<equiv> - 3"
abbreviation (input) EINTR :: int where "EINTR \<equiv> - 4"
abbreviation (input) EIO :: int where "EIO \<equiv> - 5"
abbreviation (input) E2BIG :: int where "E2BIG \<equiv> - 7"
abbreviation (input) EBADF :: int where "EBADF \<equiv> - 9"
abbreviation (input) ECHILD :: int where "ECHILD \<equiv> - 10"
abbreviation (input) EAGAIN :: int where "EAGAIN \<equiv> - 11"
abbreviation (input) ENOMEM :: int where "ENOMEM \<equiv> - 12"
abbreviation (input) EACCES :: int where "EACCES \<equiv> - 13"
abbreviation (input) EFAULT :: int where "EFAULT \<equiv> - 14"
abbreviation (input) EINVAL :: int where "EINVAL \<equiv> - 22"
abbreviation (input) ENFILE :: int where "ENFILE \<equiv> - 23"
abbreviation (input) EMFILE :: int where "EMFILE \<equiv> - 24"
abbreviation (input) ENOSPC :: int where "ENOSPC \<equiv> - 28"
abbreviation (input) EDOM :: int where "EDOM \<equiv> - 33"
abbreviation (input) ENOLCK :: int where "ENOLCK \<equiv> - 37"
abbreviation (input) ENXIO :: int where "ENXIO \<equiv> - 6"
abbreviation (input) ENOEXEC :: int where "ENOEXEC \<equiv> - 8"
abbreviation (input) EBUSY :: int where "EBUSY \<equiv> - 16"
abbreviation (input) EEXIST :: int where "EEXIST \<equiv> - 17"
abbreviation (input) EXDEV :: int where "EXDEV \<equiv> - 18"
abbreviation (input) ENODEV :: int where "ENODEV \<equiv> - 19"
abbreviation (input) ENOTDIR :: int where "ENOTDIR \<equiv> - 20"
abbreviation (input) EISDIR :: int where "EISDIR \<equiv> - 21"
abbreviation (input) EFBIG :: int where "EFBIG \<equiv> - 27"
abbreviation (input) ESPIPE :: int where "ESPIPE \<equiv> - 29"
abbreviation (input) EROFS :: int where "EROFS \<equiv> - 30"
abbreviation (input) EMLINK :: int where "EMLINK \<equiv> - 31"
abbreviation (input) EPIPE :: int where "EPIPE \<equiv> - 32"
abbreviation (input) EDEADLK :: int where "EDEADLK \<equiv> - 35"
abbreviation (input) ENAMETOOLONG :: int where "ENAMETOOLONG \<equiv> - 36"
abbreviation (input) ENOSYS :: int where "ENOSYS \<equiv> - 38"
abbreviation (input) ENOTEMPTY :: int where "ENOTEMPTY \<equiv> - 39"
abbreviation (input) SUSPEND :: int where "SUSPEND \<equiv> - 998"
abbreviation (input) ELOCKED :: int where "ELOCKED \<equiv> - 101"
abbreviation (input) EBADCALL :: int where "EBADCALL \<equiv> - 102"
abbreviation (input) EBADSRCDST :: int where "EBADSRCDST \<equiv> - 103"
abbreviation (input) ECALLDENIED :: int where "ECALLDENIED \<equiv> - 104"
abbreviation (input) EDEADDST :: int where "EDEADDST \<equiv> - 105"
abbreviation (input) ENOTREADY :: int where "ENOTREADY \<equiv> - 106"
abbreviation (input) EBADREQUEST :: int where "EBADREQUEST \<equiv> - 107"
abbreviation (input) EDONTREPLY :: int where "EDONTREPLY \<equiv> - 201"

subsection \<open>Options\<close>

lemma bind_Some_iff [simp]:
  "(Option.bind m f = Some y) \<longleftrightarrow> (\<exists>x. m = Some x \<and> f x = Some y)"
  by (rule Option.bind_eq_Some_conv)

text \<open>An outcome that is defined only if a condition holds.\<close>

definition guard :: "bool \<Rightarrow> unit option" where
  "guard b = (if b then Some () else None)"

lemma guard_Some [simp]: "guard b = Some u \<longleftrightarrow> b"
  by (simp add: guard_def)

lemma guard_bind [simp]: "b \<Longrightarrow> Option.bind (guard b) f = f ()"
  by (simp add: guard_def)

subsection \<open>Lists\<close>

lemma takeWhile_neq_not_in: "x \<notin> set (takeWhile (\<lambda>y. y \<noteq> x) xs)"
  using set_takeWhileD [of x "\<lambda>y. y \<noteq> x" xs] by blast

lemma split_at_first:
  "x \<in> set xs \<Longrightarrow> xs = takeWhile (\<lambda>y. y \<noteq> x) xs @ x # tl (dropWhile (\<lambda>y. y \<noteq> x) xs)"
  by (induction xs) auto

lemma remove1_eq_take_drop:
  "x \<in> set xs \<Longrightarrow>
   remove1 x xs = takeWhile (\<lambda>y. y \<noteq> x) xs @ tl (dropWhile (\<lambda>y. y \<noteq> x) xs)"
  by (induction xs) auto

lemma sorted_split_filter:
  fixes k :: "'a \<Rightarrow> int"
  assumes "sorted (map k xs)"
  shows "takeWhile (\<lambda>x. k x \<le> n) xs = filter (\<lambda>x. k x \<le> n) xs"
    and "dropWhile (\<lambda>x. k x \<le> n) xs = filter (\<lambda>x. n < k x) xs"
proof -
  have "takeWhile (\<lambda>x. k x \<le> n) xs = filter (\<lambda>x. k x \<le> n) xs \<and>
      dropWhile (\<lambda>x. k x \<le> n) xs = filter (\<lambda>x. n < k x) xs"
    using assms
  proof (induction xs)
    case (Cons a xs)
    show ?case
    proof (cases "k a \<le> n")
      case False
      with Cons.prems have "\<forall>x\<in>set xs. n < k x" by fastforce
      then have "filter (\<lambda>x. k x \<le> n) xs = []" "filter (\<lambda>x. n < k x) xs = xs"
        by (auto simp: filter_empty_conv)
      with False show ?thesis by simp
    qed (use Cons in auto)
  qed simp
  then show "takeWhile (\<lambda>x. k x \<le> n) xs = filter (\<lambda>x. k x \<le> n) xs"
    and "dropWhile (\<lambda>x. k x \<le> n) xs = filter (\<lambda>x. n < k x) xs" by auto
qed

end
