(* ===== verification/Chain.thy ===== *)
theory Chain
  imports Prelude
begin

text \<open>
  Linked lists as the kernel, the timer library and the process manager manipulate them. A list is
  a head pointer and a \<open>next\<close> field per node; \<open>NIL\<close> is \<open>None\<close>. The C code walks a list
  with a pointer to a pointer (\<^verbatim>\<open>xpp\<close>, \<^verbatim>\<open>atp\<close>, \<^verbatim>\<open>pmp\<close>, \<^verbatim>\<open>line\<close>), which addresses
  either the head or the \<open>next\<close> field of a node: a \<open>slot\<close>. All its loops over lists have one
  shape, \<^verbatim>\<open>for (xpp = &head; *xpp != NIL; xpp = &(*xpp)->next) if (P) ...\<close>, which is
  \<open>chain_find\<close>. A corrupted, cyclic list makes such a loop run forever, so \<open>chain_find\<close> is a
  partial function.

  The relation \<open>chain next head xs\<close> says that the list is well formed and holds the nodes
  \<open>xs\<close>; the lemmas describe the loops and the pointer assignments in terms of \<open>xs\<close>.
\<close>

datatype 'a slot = Head | Link 'a

definition rd :: "'a option \<Rightarrow> ('a \<Rightarrow> 'a option) \<Rightarrow> 'a slot \<Rightarrow> 'a option" where
  "rd h nx s = (case s of Head \<Rightarrow> h | Link a \<Rightarrow> nx a)"

definition wr_hd :: "'a slot \<Rightarrow> 'a option \<Rightarrow> 'a option \<Rightarrow> 'a option" where
  "wr_hd s v h = (case s of Head \<Rightarrow> v | Link a \<Rightarrow> h)"

definition wr_nx :: "'a slot \<Rightarrow> 'a option \<Rightarrow> ('a \<Rightarrow> 'a option) \<Rightarrow> ('a \<Rightarrow> 'a option)" where
  "wr_nx s v nx = (case s of Head \<Rightarrow> nx | Link a \<Rightarrow> nx(a := v))"

partial_function (option) chain_find ::
  "('a \<Rightarrow> bool) \<Rightarrow> 'a option \<Rightarrow> ('a \<Rightarrow> 'a option) \<Rightarrow> 'a slot \<Rightarrow> 'a slot option" where
  "chain_find P h nx s =
     (case rd h nx s of
        None \<Rightarrow> Some s
      | Some x \<Rightarrow> if P x then Some s else chain_find P h nx (Link x))"

primrec chain :: "('a \<Rightarrow> 'a option) \<Rightarrow> 'a option \<Rightarrow> 'a list \<Rightarrow> bool" where
  "chain nx p [] \<longleftrightarrow> p = None"
| "chain nx p (x # xs) \<longleftrightarrow> p = Some x \<and> chain nx (nx x) xs"

text \<open>The slot reached after walking over the nodes of a prefix.\<close>

definition slot_after :: "'a list \<Rightarrow> 'a slot" where
  "slot_after xs = (if xs = [] then Head else Link (last xs))"

subsection \<open>Basic facts\<close>

lemma rd_simps [simp]: "rd h nx Head = h" "rd h nx (Link a) = nx a"
  by (simp_all add: rd_def)

lemma wr_simps [simp]:
  "wr_hd Head v h = v" "wr_hd (Link a) v h = h"
  "wr_nx Head v nx = nx" "wr_nx (Link a) v nx = nx(a := v)"
  by (simp_all add: wr_hd_def wr_nx_def)

lemma slot_after_simps [simp]:
  "slot_after [] = Head" "slot_after (xs @ [x]) = Link x" "slot_after [x] = Link x"
  by (simp_all add: slot_after_def)

lemma slot_after_Cons [simp]: "xs \<noteq> [] \<Longrightarrow> slot_after (x # xs) = slot_after xs"
  by (simp add: slot_after_def)

lemma chain_NilD: "chain nx None xs \<Longrightarrow> xs = []"
  by (cases xs) auto

lemma chain_None [simp]: "chain nx None xs \<longleftrightarrow> xs = []"
  by (cases xs) auto

lemma chain_SomeE:
  assumes "chain nx (Some a) xs"
  obtains ys where "xs = a # ys" "chain nx (nx a) ys"
  using assms by (cases xs) auto

lemma chain_unique: "chain nx p xs \<Longrightarrow> chain nx p ys \<Longrightarrow> xs = ys"
proof (induction xs arbitrary: p ys)
  case Nil
  then show ?case by simp
next
  case (Cons x xs)
  then show ?case by (cases ys) auto
qed

lemma chain_suffix: "chain nx p (xs @ ys) \<Longrightarrow> \<exists>q. chain nx q ys"
  by (induction xs arbitrary: p) auto

lemma chain_head_not_tail:
  assumes "chain nx p (x # xs)"
  shows "x \<notin> set xs"
proof
  assume "x \<in> set xs"
  then obtain us vs where xs: "xs = us @ x # vs"
    by (meson split_list)
  from assms xs have "\<exists>q. chain nx q (x # vs)"
    by (auto dest: chain_suffix)
  then have "chain nx (nx x) vs" by auto
  moreover from assms xs have "chain nx (nx x) (us @ x # vs)" by simp
  ultimately have "vs = us @ x # vs" by (rule chain_unique)
  then have "length vs = length us + Suc (length vs)"
    by (metis length_append length_Cons)
  then show False by simp
qed

lemma chain_distinct: "chain nx p xs \<Longrightarrow> distinct xs"
proof (induction xs arbitrary: p)
  case Nil
  then show ?case by simp
next
  case (Cons x xs)
  then show ?case using chain_head_not_tail [OF Cons.prems] by auto
qed

lemma chain_cong:
  "(\<And>x. x \<in> set xs \<Longrightarrow> nx x = nx' x) \<Longrightarrow> chain nx p xs \<longleftrightarrow> chain nx' p xs"
  by (induction xs arbitrary: p) auto

lemma chain_upd [chain_simps]: "a \<notin> set xs \<Longrightarrow> chain (nx(a := v)) p xs \<longleftrightarrow> chain nx p xs"
  by (rule chain_cong) auto

lemma chain_snd_conv: "chain nx p (xs @ [x]) \<Longrightarrow> nx x = None"
  by (induction xs arbitrary: p) auto

subsection \<open>Reading and writing through a slot\<close>

lemma rd_slot_after:
  "chain nx p (xs @ ys) \<Longrightarrow> rd p nx (slot_after xs) = (case ys of [] \<Rightarrow> None | y # _ \<Rightarrow> Some y)"
proof (induction xs arbitrary: p)
  case Nil
  then show ?case by (cases ys) auto
next
  case (Cons x xs)
  then have "rd (nx x) nx (slot_after xs) = (case ys of [] \<Rightarrow> None | y # _ \<Rightarrow> Some y)"
    by simp
  then show ?case by (cases xs) (simp_all add: slot_after_def)
qed

lemma chain_find_from:
  "chain nx p ys \<Longrightarrow> rd h nx s = p \<Longrightarrow>
   chain_find P h nx s =
     Some (let us = takeWhile (\<lambda>x. \<not> P x) ys in if us = [] then s else Link (last us))"
proof (induction ys arbitrary: p s)
  case Nil
  then show ?case by (simp add: chain_find.simps [of P h nx s])
next
  case (Cons y ys)
  then have "chain_find P h nx (Link y) =
      Some (let us = takeWhile (\<lambda>x. \<not> P x) ys in if us = [] then Link y else Link (last us))"
    using Cons.IH [of "nx y" "Link y"] by simp
  with Cons.prems show ?case
    by (simp add: chain_find.simps [of P h nx s] Let_def)
qed

text \<open>On a well-formed list the search loop ends, at the first node that satisfies \<open>P\<close>.\<close>

lemma chain_find_chain:
  assumes "chain nx h xs"
  shows "chain_find P h nx Head = Some (slot_after (takeWhile (\<lambda>x. \<not> P x) xs))"
  using chain_find_from [OF assms, of h Head P] by (simp add: slot_after_def Let_def)

lemma chain_find_end:
  assumes "chain nx h xs"
  shows "chain_find (\<lambda>_. False) h nx Head = Some (slot_after xs)"
  using chain_find_chain [OF assms, of "\<lambda>_. False"] by (simp add: takeWhile_eq_all_conv [THEN iffD2])

text \<open>Assigning through a slot replaces the rest of the list.\<close>

lemma chain_wr:
  assumes "chain nx h (xs @ ys)" and "chain nx v zs" and "set xs \<inter> set zs = {}"
  shows "chain (wr_nx (slot_after xs) v nx) (wr_hd (slot_after xs) v h) (xs @ zs)"
proof (cases xs rule: rev_cases)
  case Nil
  with assms(2) show ?thesis by simp
next
  case (snoc us u)
  from chain_distinct [OF assms(1)] snoc have u: "u \<notin> set us" by simp
  from assms(3) snoc have z: "u \<notin> set zs" by auto
  have "chain nx h (us @ u # ys) \<Longrightarrow> chain (nx(u := v)) h (us @ u # zs)"
    using u
  proof (induction us arbitrary: h)
    case Nil
    with z assms(2) show ?case by (simp add: chain_upd del: fun_upd_apply) simp
  next
    case (Cons a us)
    then show ?case by auto
  qed
  with assms(1) snoc show ?thesis by simp
qed

text \<open>Unlinking the first node after a prefix.\<close>

lemma chain_unlink:
  assumes "chain nx h (xs @ y # ys)"
  shows "chain (wr_nx (slot_after xs) (nx y) nx) (wr_hd (slot_after xs) (nx y) h) (xs @ ys)"
proof (rule chain_wr [OF assms])
  from assms obtain q where "chain nx q (y # ys)" by (auto dest: chain_suffix)
  then show "chain nx (nx y) ys" by simp
  from chain_distinct [OF assms] show "set xs \<inter> set ys = {}" by auto
qed

text \<open>Linking a new node \<open>n\<close> whose \<open>next\<close> field already points to the rest.\<close>

lemma chain_link:
  assumes "chain nx h (xs @ ys)" and "n \<notin> set (xs @ ys)"
    and "r = rd h nx (slot_after xs)"
  shows "chain (wr_nx (slot_after xs) (Some n) (nx(n := r)))
           (wr_hd (slot_after xs) (Some n) h) (xs @ n # ys)"
proof (rule chain_wr)
  from assms(1,2) show "chain (nx(n := r)) h (xs @ ys)" by (simp add: chain_upd)
  from assms(1) obtain q where q: "chain nx q ys" by (auto dest: chain_suffix)
  from assms(3) rd_slot_after [OF assms(1)] have "r = (case ys of [] \<Rightarrow> None | y # _ \<Rightarrow> Some y)"
    by simp
  with q have "chain nx r ys" by (cases ys) auto
  with assms(2) show "chain (nx(n := r)) (Some n) (n # ys)" by (simp add: chain_upd)
  from chain_distinct [OF assms(1)] assms(2) show "set xs \<inter> set (n # ys) = {}" by auto
qed

lemma rd_wr_same [simp]: "rd (wr_hd s v h) (wr_nx s v nx) s = v"
  by (cases s) auto

text \<open>Removing a node found by its address.\<close>

lemma chain_remove:
  assumes "chain nx h xs" and "r \<in> set xs"
  defines "us \<equiv> takeWhile (\<lambda>x. x \<noteq> r) xs"
  shows "chain (wr_nx (slot_after us) (nx r) nx) (wr_hd (slot_after us) (nx r) h) (remove1 r xs)"
    and "rd h nx (slot_after us) = Some r"
    and "chain_find (\<lambda>x. x = r) h nx Head = Some (slot_after us)"
proof -
  from assms(2) have xs: "xs = us @ r # tl (dropWhile (\<lambda>y. y \<noteq> r) xs)"
    unfolding us_def by (rule split_at_first)
  then have c: "chain nx h (us @ r # tl (dropWhile (\<lambda>y. y \<noteq> r) xs))"
    using assms(1) by simp
  from chain_unlink [OF c] assms(2)
  show "chain (wr_nx (slot_after us) (nx r) nx) (wr_hd (slot_after us) (nx r) h) (remove1 r xs)"
    by (simp add: remove1_eq_take_drop us_def)
  from rd_slot_after [OF c] show "rd h nx (slot_after us) = Some r" by simp
  from chain_find_chain [OF assms(1), of "\<lambda>x. x = r"]
  show "chain_find (\<lambda>x. x = r) h nx Head = Some (slot_after us)"
    by (simp add: us_def)
qed

lemma chain_find_absent:
  assumes "chain nx h xs" and "\<And>x. x \<in> set xs \<Longrightarrow> \<not> P x"
  shows "chain_find P h nx Head = Some (slot_after xs)"
    and "rd h nx (slot_after xs) = None"
proof -
  from assms(2) have "takeWhile (\<lambda>x. \<not> P x) xs = xs" by (simp add: takeWhile_eq_all_conv)
  with chain_find_chain [OF assms(1), of P]
  show "chain_find P h nx Head = Some (slot_after xs)" by simp
  from rd_slot_after [of nx h xs "[]"] assms(1) show "rd h nx (slot_after xs) = None" by simp
qed

end
