(* ===== verification/Timers.thy ===== *)
theory Timers
  imports Chain
begin

text \<open>
  The watchdog timer library, \<^verbatim>\<open>lib/timers\<close>, which the kernel's clock, the process manager and
  the file system share. A timer is a node of a heap; its address is a natural number. A timer
  queue is the heap together with the queue's head pointer (\<^verbatim>\<open>*tmrs\<close>).

  Shown here: the queue stays a well-formed list sorted by expiration time; setting a timer puts
  it behind every timer that expires no later and in front of the others; clearing removes exactly
  that timer; \<open>tmrs_exptimers\<close> ends and runs the watchdogs of exactly the expired timers, in
  order, provided the watchdogs leave the queue alone (locale \<open>timer_client\<close>).
\<close>

subsection \<open>Model\<close>

abbreviation (input) TMR_NEVER :: int where "TMR_NEVER \<equiv> 2147483647"

record 'f timer =
  tmr_next :: "nat option"
  tmr_exp_time :: int
  tmr_func :: 'f
  tmr_arg :: int

type_synonym 'f tmrs = "(nat \<Rightarrow> 'f timer) \<times> nat option"

text \<open>The \<open>next\<close> field and the expiration time as functions of the address.\<close>

definition tnext :: "(nat \<Rightarrow> 'f timer) \<Rightarrow> nat \<Rightarrow> nat option" where
  "tnext h t = tmr_next (h t)"

definition texp :: "(nat \<Rightarrow> 'f timer) \<Rightarrow> nat \<Rightarrow> int" where
  "texp h t = tmr_exp_time (h t)"

text \<open>\<^verbatim>\<open>*atp = v\<close>\<close>

fun tmr_assign :: "nat slot \<Rightarrow> nat option \<Rightarrow> 'f tmrs \<Rightarrow> 'f tmrs" where
  "tmr_assign Head v (h, p) = (h, v)"
| "tmr_assign (Link a) v (h, p) = (h(a := (h a)\<lparr>tmr_next := v\<rparr>), p)"

text \<open>The expiration time of the first timer, 0 for an empty queue.\<close>

definition tmr_head_time :: "'f tmrs \<Rightarrow> int" where
  "tmr_head_time q = (case q of (h, p) \<Rightarrow> case p of None \<Rightarrow> 0 | Some t \<Rightarrow> tmr_exp_time (h t))"

definition tmr_inittimer :: "nat \<Rightarrow> (nat \<Rightarrow> 'f timer) \<Rightarrow> (nat \<Rightarrow> 'f timer)" where
  "tmr_inittimer t h = h(t := (h t)\<lparr>tmr_exp_time := TMR_NEVER, tmr_next := None\<rparr>)"

text \<open>Result: the new queue, the old head's time, and what is stored through \<^verbatim>\<open>next_time\<close>.\<close>

definition tmrs_clrtimer :: "'f tmrs \<Rightarrow> nat \<Rightarrow> ('f tmrs \<times> int \<times> int) option" where
  "tmrs_clrtimer q tp =
     (case q of (h, p) \<Rightarrow>
        let prev_time = tmr_head_time (h, p);
            h1 = h(tp := (h tp)\<lparr>tmr_exp_time := TMR_NEVER\<rparr>)
        in do {
          atp \<leftarrow> chain_find (\<lambda>x. x = tp) p (tnext h1) Head;
          let q1 = (case rd p (tnext h1) atp of
                      None \<Rightarrow> (h1, p)
                    | Some _ \<Rightarrow> tmr_assign atp (tmr_next (h1 tp)) (h1, p));
          Some (q1, prev_time, tmr_head_time q1)
        })"

definition tmrs_settimer ::
  "'f tmrs \<Rightarrow> nat \<Rightarrow> int \<Rightarrow> 'f \<Rightarrow> ('f tmrs \<times> int \<times> int) option" where
  "tmrs_settimer q tp exp_time watchdog =
     (let old_head = tmr_head_time q in do {
        ((h, p), _, _) \<leftarrow> tmrs_clrtimer q tp;
        let h1 = h(tp := (h tp)\<lparr>tmr_exp_time := exp_time, tmr_func := watchdog\<rparr>);
        atp \<leftarrow> chain_find (\<lambda>x. exp_time < texp h1 x) p (tnext h1) Head;
        let h2 = h1(tp := (h1 tp)\<lparr>tmr_next := rd p (tnext h1) atp\<rparr>);
        let q2 = tmr_assign atp (Some tp) (h2, p);
        Some (q2, old_head, tmr_head_time q2)
      })"

text \<open>
  The queue lives in a larger state that the watchdogs change: \<open>getq\<close> and \<open>putq\<close> access it,
  \<open>run f t\<close> is the call \<^verbatim>\<open>(*tp->tmr_func)(tp)\<close>. The loop may be endless if a watchdog keeps
  inserting expired timers.
\<close>

partial_function (option) tmrs_exptimers ::
  "('s \<Rightarrow> 'f tmrs) \<Rightarrow> ('f tmrs \<Rightarrow> 's \<Rightarrow> 's) \<Rightarrow> ('f \<Rightarrow> nat \<Rightarrow> 's \<Rightarrow> 's option) \<Rightarrow>
   int \<Rightarrow> 's \<Rightarrow> 's option" where
  "tmrs_exptimers getq putq run now s =
     (case getq s of (h, p) \<Rightarrow>
        (case p of
           None \<Rightarrow> Some s
         | Some tp \<Rightarrow>
             if tmr_exp_time (h tp) \<le> now then
               Option.bind
                 (run (tmr_func (h tp)) tp
                    (putq (h(tp := (h tp)\<lparr>tmr_exp_time := TMR_NEVER\<rparr>), tmr_next (h tp)) s))
                 (\<lambda>s'. tmrs_exptimers getq putq run now s')
             else Some s))"

subsection \<open>The queue as a list\<close>

definition tmr_list :: "'f tmrs \<Rightarrow> nat list \<Rightarrow> bool" where
  "tmr_list q ts = (case q of (h, p) \<Rightarrow> chain (tnext h) p ts)"

definition tmr_sorted :: "'f tmrs \<Rightarrow> nat list \<Rightarrow> bool" where
  "tmr_sorted q ts \<longleftrightarrow> sorted (map (texp (fst q)) ts)"

lemma tmr_list_pair [simp]: "tmr_list (h, p) ts \<longleftrightarrow> chain (tnext h) p ts"
  by (simp add: tmr_list_def)

lemma tnext_upd [simp]:
  "tnext (h(t := (h t)\<lparr>tmr_exp_time := e\<rparr>)) = tnext h"
  "tnext (h(t := (h t)\<lparr>tmr_exp_time := e, tmr_func := f\<rparr>)) = tnext h"
  "tnext (h(t := (h t)\<lparr>tmr_next := v\<rparr>)) = (tnext h)(t := v)"
  by (auto simp: tnext_def)

lemma texp_upd [simp]:
  "texp (h(t := (h t)\<lparr>tmr_exp_time := e\<rparr>)) = (texp h)(t := e)"
  "texp (h(t := (h t)\<lparr>tmr_exp_time := e, tmr_func := f\<rparr>)) = (texp h)(t := e)"
  "texp (h(t := (h t)\<lparr>tmr_next := v\<rparr>)) = texp h"
  by (auto simp: texp_def)

lemma tmr_assign_eq:
  "tmr_assign s v (h, p) = (fst (tmr_assign s v (h, p)), wr_hd s v p)"
  by (cases s) auto

lemma tnext_assign: "tnext (fst (tmr_assign s v (h, p))) = wr_nx s v (tnext h)"
  by (cases s) auto

lemma texp_assign: "texp (fst (tmr_assign s v (h, p))) = texp h"
  by (cases s) auto

lemma tmr_list_assign:
  "tmr_list (tmr_assign s v (h, p)) ts \<longleftrightarrow> chain (wr_nx s v (tnext h)) (wr_hd s v p) ts"
  by (subst tmr_assign_eq) (simp add: tnext_assign)

lemma tmr_head_time_list:
  "tmr_list q ts \<Longrightarrow> tmr_head_time q = (case ts of [] \<Rightarrow> 0 | t # _ \<Rightarrow> texp (fst q) t)"
  by (cases q; cases ts) (auto simp: tmr_head_time_def texp_def)

subsection \<open>Clearing and setting\<close>

text \<open>What an assignment through a slot leaves alone.\<close>

lemma tmr_assign_frame [simp]:
  "tmr_func (fst (tmr_assign s v (h, p)) t) = tmr_func (h t)"
  "tmr_arg (fst (tmr_assign s v (h, p)) t) = tmr_arg (h t)"
  by (cases s; simp)+

text \<open>Clearing removes exactly the given timer and marks it inactive.\<close>

lemma clrtimer_list:
  assumes "tmr_list q ts"
  obtains q' where "tmrs_clrtimer q tp = Some (q', tmr_head_time q, tmr_head_time q')"
    and "tmr_list q' (remove1 tp ts)"
    and "texp (fst q') = (texp (fst q))(tp := TMR_NEVER)"
    and "\<And>t. tmr_func (fst q' t) = tmr_func (fst q t)"
    and "\<And>t. tmr_arg (fst q' t) = tmr_arg (fst q t)"
proof -
  obtain h p where q: "q = (h, p)" by (cases q)
  define h1 where "h1 = h(tp := (h tp)\<lparr>tmr_exp_time := TMR_NEVER\<rparr>)"
  have h1: "tnext h1 = tnext h" "texp h1 = (texp h)(tp := TMR_NEVER)"
    "tmr_func (h1 t) = tmr_func (h t)" "tmr_arg (h1 t) = tmr_arg (h t)" for t
    unfolding h1_def by (simp_all add: tnext_upd texp_upd)
  from assms q h1 have c: "chain (tnext h1) p ts" by simp
  show thesis
  proof (cases "tp \<in> set ts")
    case True
    define us where "us = takeWhile (\<lambda>x. x \<noteq> tp) ts"
    define q' where "q' = tmr_assign (slot_after us) (tmr_next (h1 tp)) (h1, p)"
    note rem = chain_remove [OF c True, folded us_def]
    show thesis
    proof (rule that)
      show "tmrs_clrtimer q tp = Some (q', tmr_head_time q, tmr_head_time q')"
        using rem(2,3) unfolding tmrs_clrtimer_def q Let_def prod.case h1_def [symmetric]
        by (simp add: q'_def)
      show "tmr_list q' (remove1 tp ts)"
        using rem(1) by (simp add: q'_def tmr_list_assign tnext_def)
    qed (simp_all add: q'_def texp_assign q h1)
  next
    case False
    then have n: "\<And>x. x \<in> set ts \<Longrightarrow> x \<noteq> tp" by auto
    show thesis
    proof (rule that)
      show "tmrs_clrtimer q tp = Some ((h1, p), tmr_head_time q, tmr_head_time (h1, p))"
        using chain_find_absent [OF c n]
        unfolding tmrs_clrtimer_def q Let_def prod.case h1_def [symmetric] by simp
      show "tmr_list (h1, p) (remove1 tp ts)"
        using c False by (simp add: remove1_idem)
    qed (simp_all add: q h1)
  qed
qed

text \<open>
  Setting puts the timer behind all timers that expire no later and before the others. The order
  of the others is what matters: the caller may already have changed the timer's own time.
\<close>

lemma settimer_list:
  fixes e :: int
  assumes "tmr_list q ts" and "tmr_sorted q (remove1 tp ts)"
  defines "us \<equiv> takeWhile (\<lambda>t. texp (fst q) t \<le> e) (remove1 tp ts)"
    and "vs \<equiv> dropWhile (\<lambda>t. texp (fst q) t \<le> e) (remove1 tp ts)"
  obtains q' where "tmrs_settimer q tp e f = Some (q', tmr_head_time q, tmr_head_time q')"
    and "tmr_list q' (us @ tp # vs)"
    and "texp (fst q') = (texp (fst q))(tp := e)"
    and "tmr_func (fst q' tp) = f"
proof -
  from assms(1) obtain q1 where
    clr: "tmrs_clrtimer q tp = Some (q1, tmr_head_time q, tmr_head_time q1)"
    and l1: "tmr_list q1 (remove1 tp ts)"
    and e1: "texp (fst q1) = (texp (fst q))(tp := TMR_NEVER)"
    by (rule clrtimer_list)
  obtain h p where q1: "q1 = (h, p)" by (cases q1)
  define h1 where "h1 = h(tp := (h tp)\<lparr>tmr_exp_time := e, tmr_func := f\<rparr>)"
  have nx: "tnext h1 = tnext h" and ex: "texp h1 = (texp (fst q))(tp := e)"
    using e1 unfolding h1_def by (simp_all add: q1)
  from l1 q1 nx have c: "chain (tnext h1) p (remove1 tp ts)" by simp
  have tp: "tp \<notin> set (remove1 tp ts)"
    using assms(1) by (cases q) (auto dest: chain_distinct)
  have us: "takeWhile (\<lambda>x. \<not> e < texp h1 x) (remove1 tp ts) = us"
    unfolding us_def using tp by (intro takeWhile_cong) (auto simp: ex)
  define h2 where "h2 = h1(tp := (h1 tp)\<lparr>tmr_next := rd p (tnext h1) (slot_after us)\<rparr>)"
  define q2 where "q2 = tmr_assign (slot_after us) (Some tp) (h2, p)"
  have n2: "tnext h2 = (tnext h1)(tp := rd p (tnext h1) (slot_after us))"
    and x2: "texp h2 = texp h1"
    unfolding h2_def by simp_all
  have uv: "us @ vs = remove1 tp ts" by (simp add: us_def vs_def)
  have unfold: "tmrs_settimer q tp e f =
      Option.bind (chain_find (\<lambda>x. e < texp h1 x) p (tnext h1) Head)
        (\<lambda>atp. let q2 = tmr_assign atp (Some tp) (h1(tp := (h1 tp)\<lparr>tmr_next := rd p (tnext h1) atp\<rparr>), p)
               in Some (q2, tmr_head_time q, tmr_head_time q2))"
    unfolding tmrs_settimer_def clr q1 h1_def Let_def by simp
  show thesis
  proof (rule that)
    show "tmrs_settimer q tp e f = Some (q2, tmr_head_time q, tmr_head_time q2)"
      using chain_find_chain [OF c, of "\<lambda>x. e < texp h1 x"] us
      by (simp add: unfold q2_def h2_def Let_def del: tnext_upd texp_upd)
    show "tmr_list q2 (us @ tp # vs)"
      unfolding q2_def tmr_list_assign n2
      using c tp by (intro chain_link) (simp_all add: uv)
    show "texp (fst q2) = (texp (fst q))(tp := e)"
      by (simp add: q2_def texp_assign x2 ex)
    show "tmr_func (fst q2 tp) = f"
      by (simp add: q2_def h2_def h1_def)
  qed
qed

lemma sorted_insert_point:
  assumes "sorted (map k xs)" and "t \<notin> set xs"
  shows "sorted (map (k(t := e)) (takeWhile (\<lambda>x. k x \<le> e) xs @ t # dropWhile (\<lambda>x. k x \<le> e) xs))"
proof -
  let ?us = "takeWhile (\<lambda>x. k x \<le> e) xs" and ?vs = "dropWhile (\<lambda>x. k x \<le> e) xs"
  have uv: "xs = ?us @ ?vs" by simp
  have nu: "t \<notin> set ?us" "t \<notin> set ?vs"
    using assms(2) by (auto dest: set_takeWhileD set_dropWhileD)
  have s: "sorted (map k ?us @ map k ?vs)"
    using assms(1) by (metis uv map_append)
  have "\<forall>x\<in>set ?us. k x \<le> e" by (auto dest: set_takeWhileD)
  moreover have "\<forall>x\<in>set ?vs. e \<le> k x"
  proof (cases ?vs)
    case (Cons v vs)
    then have "\<not> k v \<le> e" using hd_dropWhile [of "\<lambda>x. k x \<le> e" xs] by simp
    moreover have "\<forall>x\<in>set (v # vs). k v \<le> k x"
      using s Cons by (auto simp: sorted_append)
    ultimately show ?thesis using Cons by fastforce
  next
    case Nil
    then show ?thesis by (simp only: list.set ball_empty)
  qed
  ultimately show ?thesis
    using s nu by (auto simp: sorted_append map_fun_upd)
qed

subsection \<open>Expiry\<close>

text \<open>What \<open>tmrs_exptimers\<close> has to do: deactivate and run each timer of a list, in order.\<close>

primrec tmrs_run ::
  "('s \<Rightarrow> 'f tmrs) \<Rightarrow> ('f tmrs \<Rightarrow> 's \<Rightarrow> 's) \<Rightarrow> ('f \<Rightarrow> nat \<Rightarrow> 's \<Rightarrow> 's option) \<Rightarrow>
   nat list \<Rightarrow> 's \<Rightarrow> 's option" where
  "tmrs_run getq putq run [] s = Some s"
| "tmrs_run getq putq run (t # ts) s =
     (let h = fst (getq s) in
      Option.bind
        (run (tmr_func (h t)) t (putq (h(t := (h t)\<lparr>tmr_exp_time := TMR_NEVER\<rparr>), tmr_next (h t)) s))
        (tmrs_run getq putq run ts))"

text \<open>
  The contract between the library and its clients: the queue is a component of the client's
  state, and a watchdog does not touch it.
\<close>

locale timer_client =
  fixes getq :: "'s \<Rightarrow> 'f tmrs"
    and putq :: "'f tmrs \<Rightarrow> 's \<Rightarrow> 's"
    and run :: "'f \<Rightarrow> nat \<Rightarrow> 's \<Rightarrow> 's option"
  assumes get_put [simp]: "getq (putq q s) = q"
    and run_get: "run f t s = Some s' \<Longrightarrow> getq s' = getq s"
begin

lemma exptimers_prefix:
  "tmr_list (getq s) ts \<Longrightarrow>
   tmrs_exptimers getq putq run now s =
     tmrs_run getq putq run (takeWhile (\<lambda>t. texp (fst (getq s)) t \<le> now) ts) s"
proof (induction ts arbitrary: s)
  case Nil
  then show ?case
    by (cases "getq s") (simp add: tmrs_exptimers.simps)
next
  case (Cons t ts)
  obtain h p where q: "getq s = (h, p)" by (cases "getq s")
  let ?h' = "h(t := (h t)\<lparr>tmr_exp_time := TMR_NEVER\<rparr>)"
  let ?s' = "putq (?h', tmr_next (h t)) s"
  from Cons.prems q have c: "chain (tnext h) (tmr_next (h t)) ts" and p: "p = Some t"
    by (simp_all add: tnext_def)
  have t: "t \<notin> set ts"
    using Cons.prems q chain_head_not_tail [of "tnext h" p t ts] by simp
  show ?case
  proof (cases "tmr_exp_time (h t) \<le> now \<and> run (tmr_func (h t)) t ?s' \<noteq> None")
    case True
    then obtain s2 where r: "run (tmr_func (h t)) t ?s' = Some s2" by auto
    then have g: "getq s2 = (?h', tmr_next (h t))" by (simp add: run_get)
    with c have "tmr_list (getq s2) ts" by simp
    from Cons.IH [OF this] have "tmrs_exptimers getq putq run now s2 =
        tmrs_run getq putq run (takeWhile (\<lambda>t. texp (fst (getq s2)) t \<le> now) ts) s2" .
    moreover have "takeWhile (\<lambda>x. texp ?h' x \<le> now) ts = takeWhile (\<lambda>x. texp h x \<le> now) ts"
      using t by (intro takeWhile_cong) auto
    ultimately show ?thesis
      using True r g by (simp add: tmrs_exptimers.simps [of _ _ _ _ s] q p texp_def [of h])
  next
    case False
    then show ?thesis
      by (auto simp: tmrs_exptimers.simps [of _ _ _ _ s] q p texp_def [of h])
  qed
qed

text \<open>After a run over a prefix of the queue, the rest is still queued, with its times.\<close>

lemma run_list:
  "tmr_list (getq s) (us @ vs) \<Longrightarrow> tmrs_run getq putq run us s = Some s' \<Longrightarrow>
   tmr_list (getq s') vs \<and> (\<forall>t. t \<notin> set us \<longrightarrow> texp (fst (getq s')) t = texp (fst (getq s)) t)
   \<and> (\<forall>t\<in>set us. texp (fst (getq s')) t = TMR_NEVER)"
proof (induction us arbitrary: s)
  case Nil
  then show ?case by simp
next
  case (Cons t us)
  obtain h p where q: "getq s = (h, p)" by (cases "getq s")
  define h' where "h' = h(t := (h t)\<lparr>tmr_exp_time := TMR_NEVER\<rparr>)"
  have h': "tnext h' = tnext h" "texp h' = (texp h)(t := TMR_NEVER)"
    unfolding h'_def by simp_all
  from Cons.prems(2) q obtain s2 where
    r: "run (tmr_func (h t)) t (putq (h', tmr_next (h t)) s) = Some s2"
    and u: "tmrs_run getq putq run us s2 = Some s'" by (auto simp: h'_def)
  from r have g: "getq s2 = (h', tmr_next (h t))" by (simp add: run_get)
  from Cons.prems(1) q have "chain (tnext h) (tmr_next (h t)) (us @ vs)"
    by (simp add: tnext_def)
  with g have l: "tmr_list (getq s2) (us @ vs)" by (simp add: h')
  have t: "t \<notin> set us"
    using Cons.prems(1) q chain_head_not_tail [of "tnext h" p t "us @ vs"] by simp
  show ?case
    using Cons.IH [OF l u] t by (auto simp: g q h')
qed

theorem exptimers_correct:
  assumes "tmr_list (getq s) ts" and "tmr_sorted (getq s) ts"
  shows "tmrs_exptimers getq putq run now s =
      tmrs_run getq putq run (filter (\<lambda>t. texp (fst (getq s)) t \<le> now) ts) s"
    and "tmrs_exptimers getq putq run now s = Some s' \<Longrightarrow>
      tmr_list (getq s') (filter (\<lambda>t. now < texp (fst (getq s)) t) ts) \<and>
      tmr_sorted (getq s') (filter (\<lambda>t. now < texp (fst (getq s)) t) ts)"
proof -
  let ?k = "texp (fst (getq s))"
  have srt: "sorted (map ?k ts)" using assms(2) by (simp add: tmr_sorted_def)
  have tw: "takeWhile (\<lambda>t. ?k t \<le> now) ts = filter (\<lambda>t. ?k t \<le> now) ts"
    and dw: "dropWhile (\<lambda>t. ?k t \<le> now) ts = filter (\<lambda>t. now < ?k t) ts"
    using sorted_split_filter [OF srt] by simp_all
  show 1: "tmrs_exptimers getq putq run now s =
      tmrs_run getq putq run (filter (\<lambda>t. ?k t \<le> now) ts) s"
    using exptimers_prefix [OF assms(1), of now] by (simp add: tw)
  assume "tmrs_exptimers getq putq run now s = Some s'"
  with 1 have r: "tmrs_run getq putq run (takeWhile (\<lambda>t. ?k t \<le> now) ts) s = Some s'"
    by (simp add: tw)
  from assms(1) have "tmr_list (getq s)
      (takeWhile (\<lambda>t. ?k t \<le> now) ts @ dropWhile (\<lambda>t. ?k t \<le> now) ts)" by simp
  from run_list [OF this r]
  have l: "tmr_list (getq s') (filter (\<lambda>t. now < ?k t) ts)"
    and k: "\<And>t. t \<notin> set (takeWhile (\<lambda>t. ?k t \<le> now) ts) \<Longrightarrow> texp (fst (getq s')) t = ?k t"
    by (auto simp: dw)
  have "map (texp (fst (getq s'))) (filter (\<lambda>t. now < ?k t) ts) = map ?k (filter (\<lambda>t. now < ?k t) ts)"
    using k by (intro map_cong) (auto simp: tw)
  then have "tmr_sorted (getq s') (filter (\<lambda>t. now < ?k t) ts)"
    unfolding tmr_sorted_def using sorted_filter [OF srt] by (simp only:)
  with l show "tmr_list (getq s') (filter (\<lambda>t. now < ?k t) ts) \<and>
      tmr_sorted (getq s') (filter (\<lambda>t. now < ?k t) ts)" by simp
qed

end

subsection \<open>Properties of setting and clearing\<close>

text \<open>A queue of three timers: 5 expires at 10, 2 at 20, 9 at 20.\<close>

definition demo_timers :: "unit tmrs" where
  "demo_timers = ((\<lambda>t. \<lparr>tmr_next = (if t = 5 then Some 2 else if t = 2 then Some 9 else None),
     tmr_exp_time = (if t = 5 then 10 else if t = 2 \<or> t = 9 then 20 else TMR_NEVER),
     tmr_func = (), tmr_arg = 0\<rparr>), Some 5)"

text \<open>
  C31. \<^verbatim>\<open>tmrs_settimer\<close> on a well-formed, sorted queue returns, and leaves a well-formed, sorted
  queue: the timer stands behind every other timer that expires no later and before the rest; it
  has the requested time and watchdog, the other timers keep theirs. The two results are the times
  of the old and the new first timer.
\<close>

theorem settimer_inserts_sorted:
  assumes "tmr_list q ts" "tmr_sorted q ts"
  shows "\<exists>q'. tmrs_settimer q tp e f = Some (q', tmr_head_time q, tmr_head_time q') \<and>
    (let others = remove1 tp ts;
         ts' = filter (\<lambda>t. texp (fst q) t \<le> e) others @ tp # filter (\<lambda>t. e < texp (fst q) t) others
     in tmr_list q' ts' \<and> tmr_sorted q' ts') \<and>
    texp (fst q') = (texp (fst q))(tp := e) \<and> tmr_func (fst q' tp) = f"
proof -
  let ?k = "texp (fst q)" and ?o = "remove1 tp ts"
  have srt: "sorted (map ?k ?o)"
    using assms(2) unfolding tmr_sorted_def by (rule sorted_map_remove1)
  have tp: "tp \<notin> set ?o"
    using assms(1) by (cases q) (auto dest: chain_distinct)
  have so: "tmr_sorted q ?o" using srt by (simp add: tmr_sorted_def)
  obtain q' where q': "tmrs_settimer q tp e f = Some (q', tmr_head_time q, tmr_head_time q')"
    "tmr_list q' (takeWhile (\<lambda>t. ?k t \<le> e) ?o @ tp # dropWhile (\<lambda>t. ?k t \<le> e) ?o)"
    "texp (fst q') = ?k(tp := e)" "tmr_func (fst q' tp) = f"
    by (rule settimer_list [OF assms(1) so, of e f])
  from sorted_insert_point [OF srt tp, of e] q' show ?thesis
    unfolding sorted_split_filter [OF srt] tmr_sorted_def Let_def
    by (intro exI [of _ q']) (simp only: simp_thms)
qed

theorem settimer_inserts_sorted_witness:
  "\<exists>q'. tmrs_settimer demo_timers 7 20 () = Some (q', 10, tmr_head_time q') \<and>
     tmr_list q' [5, 2, 9, 7] \<and> tmr_sorted q' [5, 2, 9, 7]"
  using settimer_inserts_sorted [of demo_timers "[5, 2, 9]" 7 20 "()"]
  by (auto simp: demo_timers_def tmr_sorted_def tnext_def texp_def tmr_head_time_def)

text \<open>
  \<^verbatim>\<open>tmrs_clrtimer\<close> on a well-formed queue returns and removes exactly the given timer, whether or
  not it was queued; it marks it inactive, and every timer keeps its watchdog and argument.
\<close>

theorem clrtimer_removes:
  assumes "tmr_list q ts" "tmr_sorted q ts"
  shows "\<exists>q'. tmrs_clrtimer q tp = Some (q', tmr_head_time q, tmr_head_time q') \<and>
    tmr_list q' (remove1 tp ts) \<and> tmr_sorted q' (remove1 tp ts) \<and>
    texp (fst q') = (texp (fst q))(tp := TMR_NEVER) \<and>
    (\<forall>t. tmr_func (fst q' t) = tmr_func (fst q t) \<and> tmr_arg (fst q' t) = tmr_arg (fst q t))"
proof -
  have srt: "sorted (map (texp (fst q)) (remove1 tp ts))"
    using assms(2) unfolding tmr_sorted_def by (rule sorted_map_remove1)
  have tp: "tp \<notin> set (remove1 tp ts)"
    using assms(1) by (cases q) (auto dest: chain_distinct)
  from assms(1) obtain q' where "tmrs_clrtimer q tp = Some (q', tmr_head_time q, tmr_head_time q')"
    "tmr_list q' (remove1 tp ts)" "texp (fst q') = (texp (fst q))(tp := TMR_NEVER)"
    "\<And>t. tmr_func (fst q' t) = tmr_func (fst q t)" "\<And>t. tmr_arg (fst q' t) = tmr_arg (fst q t)"
    by (rule clrtimer_list [where tp = tp]) blast
  with srt tp show ?thesis by (auto simp: tmr_sorted_def map_fun_upd)
qed

theorem clrtimer_removes_witness:
  "\<exists>q'. tmrs_clrtimer demo_timers 5 = Some (q', 10, tmr_head_time q') \<and> tmr_list q' [2, 9]"
  using clrtimer_removes [of demo_timers "[5, 2, 9]" 5]
  by (auto simp: demo_timers_def tmr_sorted_def tnext_def texp_def tmr_head_time_def)

end
