(* ===== verification/Kernel_Types.thy ===== *)
theory Kernel_Types
  imports Timers
begin

text \<open>
  The kernel's data: the process table (\<^verbatim>\<open>kernel/proc.h\<close>), the privilege table
  (\<^verbatim>\<open>kernel/priv.h\<close>), messages (\<^verbatim>\<open>include/minix/ipc.h\<close>), physical memory, interrupt hooks
  (\<^verbatim>\<open>kernel/type.h\<close>) and the global variables (\<^verbatim>\<open>kernel/glo.h\<close>), for the 32-bit Intel build.

  Representation. A pointer to a process slot is the slot's process number, \<open>None\<close> for
  \<^verbatim>\<open>NIL_PROC\<close>. A pointer to a privilege structure is its index; \<open>NIL_PRIV\<close>, outside the table,
  is the null pointer. A bit mask all of whose bits have a name (\<^verbatim>\<open>p_rts_flags\<close>, \<^verbatim>\<open>s_flags\<close>) is
  the set of the bits that are on: \<^verbatim>\<open>|=\<close> is union, \<^verbatim>\<open>&= ~\<close> is difference, \<^verbatim>\<open>== 0\<close> is
  emptiness. A \<^verbatim>\<open>sys_map_t\<close> is its array of 16-bit chunks. The message union is its seven 32-bit
  words, of which the \<^verbatim>\<open>m1_i1\<close>-style names select one. Memory is a map from physical byte
  addresses to bytes; the copies of \<^verbatim>\<open>kernel/klib386.s\<close> go forward, so a destination that starts
  inside the source gets bytes that the copy itself has written (\<open>apart\<close> excludes it).
\<close>

subsection \<open>Constants\<close>

abbreviation (input) NR_TASKS :: int where "NR_TASKS \<equiv> 4"
abbreviation (input) NR_PROCS :: int where "NR_PROCS \<equiv> 64"
abbreviation (input) NR_SYS_PROCS :: nat where "NR_SYS_PROCS \<equiv> 32"
abbreviation (input) NIL_PRIV :: nat where "NIL_PRIV \<equiv> 32"
abbreviation (input) USER_PRIV_ID :: nat where "USER_PRIV_ID \<equiv> 0"
abbreviation (input) BITCHUNK_BITS :: nat where "BITCHUNK_BITS \<equiv> 16"
abbreviation (input) NR_SYS_CHUNKS :: nat where "NR_SYS_CHUNKS \<equiv> 2"

abbreviation (input) ANY :: int where "ANY \<equiv> 31438"
abbreviation (input) NONE :: int where "NONE \<equiv> 27342"
abbreviation (input) SELF :: int where "SELF \<equiv> 35534"

abbreviation (input) IDLE :: int where "IDLE \<equiv> - 4"
abbreviation (input) CLOCK :: int where "CLOCK \<equiv> - 3"
abbreviation (input) SYSTEM :: int where "SYSTEM \<equiv> - 2"
abbreviation (input) HARDWARE :: int where "HARDWARE \<equiv> - 1"
abbreviation (input) PM_PROC_NR :: int where "PM_PROC_NR \<equiv> 0"
abbreviation (input) LOG_PROC_NR :: int where "LOG_PROC_NR \<equiv> 4"
abbreviation (input) INIT_PROC_NR :: int where "INIT_PROC_NR \<equiv> 7"

abbreviation (input) NR_SCHED_QUEUES :: int where "NR_SCHED_QUEUES \<equiv> 16"
abbreviation (input) MAX_USER_Q :: int where "MAX_USER_Q \<equiv> 0"
abbreviation (input) MIN_USER_Q :: int where "MIN_USER_Q \<equiv> 14"
abbreviation (input) IDLE_Q :: int where "IDLE_Q \<equiv> 15"
abbreviation (input) STACK_GUARD :: u32 where "STACK_GUARD \<equiv> 0xDEADBEEF"
abbreviation (input) CLICK_SHIFT :: nat where "CLICK_SHIFT \<equiv> 10"
abbreviation (input) MESS_SIZE :: nat where "MESS_SIZE \<equiv> 36"

abbreviation (input) SEG_T :: nat where "SEG_T \<equiv> 0"
abbreviation (input) SEG_D :: nat where "SEG_D \<equiv> 1"
abbreviation (input) SEG_S :: nat where "SEG_S \<equiv> 2"

definition isokprocn :: "int \<Rightarrow> bool" where
  "isokprocn n \<longleftrightarrow> 0 \<le> n + NR_TASKS \<and> n + NR_TASKS < NR_PROCS + NR_TASKS"

definition iskerneln :: "int \<Rightarrow> bool" where
  "iskerneln n \<longleftrightarrow> n < 0"

subsection \<open>Physical memory\<close>

type_synonym memory = "u32 \<Rightarrow> u8"

definition load32 :: "u32 \<Rightarrow> memory \<Rightarrow> u32" where
  "load32 a m = ucast (m a) OR push_bit 8 (ucast (m (a + 1)))
     OR push_bit 16 (ucast (m (a + 2))) OR push_bit 24 (ucast (m (a + 3)))"

definition store32 :: "u32 \<Rightarrow> u32 \<Rightarrow> memory \<Rightarrow> memory" where
  "store32 a w m = m(a := ucast w, a + 1 := ucast (drop_bit 8 w),
     a + 2 := ucast (drop_bit 16 w), a + 3 := ucast (drop_bit 24 w))"

text \<open>
  \<^verbatim>\<open>phys_copy\<close> of \<^verbatim>\<open>kernel/klib386.s\<close>: \<^verbatim>\<open>rep movsb\<close> and \<^verbatim>\<open>rep movs\<close> with the direction flag clear,
  so one byte or one double word after the other is read and written, at ascending addresses. From
  ten bytes on, single bytes are copied until the source is aligned, then double words, then the rest.
\<close>

fun rep_movsb :: "nat \<Rightarrow> u32 \<Rightarrow> u32 \<Rightarrow> memory \<Rightarrow> memory" where
  "rep_movsb 0 src dst m = m"
| "rep_movsb (Suc n) src dst m = rep_movsb n (src + 1) (dst + 1) (m(dst := m src))"

fun rep_movs :: "nat \<Rightarrow> u32 \<Rightarrow> u32 \<Rightarrow> memory \<Rightarrow> memory" where
  "rep_movs 0 src dst m = m"
| "rep_movs (Suc n) src dst m = rep_movs n (src + 4) (dst + 4) (store32 dst (load32 src m) m)"

definition phys_copy :: "u32 \<Rightarrow> u32 \<Rightarrow> nat \<Rightarrow> memory \<Rightarrow> memory" where
  "phys_copy src dst n m =
     (if n < 10 then rep_movsb n src dst m
      else let c = unat (- src AND 3);
               w = (n - c) div 4;
               m1 = rep_movsb c src dst m;
               m2 = rep_movs w (src + of_nat c) (dst + of_nat c) m1
        in rep_movsb ((n - c) mod 4) (src + of_nat (c + 4 * w)) (dst + of_nat (c + 4 * w)) m2)"

text \<open>
  \<^verbatim>\<open>phys_memset\<close> stores the count divided by four as whole words in a loop that tests at its end:
  with a count below four the loop counter wraps around and the loop runs over all of memory, the
  kernel included. That has no defined outcome.
\<close>

definition phys_memset :: "u32 \<Rightarrow> u32 \<Rightarrow> nat \<Rightarrow> memory \<Rightarrow> memory option" where
  "phys_memset a pat n m =
     (if n < 4 then None
      else Some (\<lambda>x. if unat (x - a) < n then ucast (drop_bit (8 * (unat (x - a) mod 4)) pat) else m x))"

lemma byte_of_word:
  "ucast (ucast w :: u8) OR push_bit 8 (ucast (ucast (drop_bit 8 w) :: u8))
     OR push_bit 16 (ucast (ucast (drop_bit 16 w) :: u8))
     OR push_bit 24 (ucast (ucast (drop_bit 24 w) :: u8)) = (w :: u32)"
proof (rule bit_word_eqI)
  fix n
  assume "n < LENGTH(32)"
  then show "bit (ucast (ucast w :: u8) OR push_bit 8 (ucast (ucast (drop_bit 8 w) :: u8))
     OR push_bit 16 (ucast (ucast (drop_bit 16 w) :: u8))
     OR push_bit 24 (ucast (ucast (drop_bit 24 w) :: u8)) :: u32) n = bit w n"
    by (cases "n < 8"; cases "n < 16"; cases "n < 24") (auto simp: bit_simps not_less)
qed

lemma load32_store32 [simp]: "load32 a (store32 a w m) = w"
  unfolding load32_def store32_def by (simp add: byte_of_word)

subsection \<open>Messages\<close>

record message =
  m_source :: int
  m_type :: int
  m_w0 :: u32
  m_w1 :: u32
  m_w2 :: u32
  m_w3 :: u32
  m_w4 :: u32
  m_w5 :: u32
  m_w6 :: u32

text \<open>
  The two \<^verbatim>\<open>short\<close> fields of \<^verbatim>\<open>mess_5\<close> share the first word of the union.
\<close>

definition m5_c1 :: "message \<Rightarrow> int" where
  "m5_c1 m = sshort (uint (m_w0 m))"

definition m5_c2 :: "message \<Rightarrow> int" where
  "m5_c2 m = sshort (uint (drop_bit 16 (m_w0 m)))"

definition load_mess :: "u32 \<Rightarrow> memory \<Rightarrow> message" where
  "load_mess a m = \<lparr>m_source = sint (load32 a m), m_type = sint (load32 (a + 4) m),
     m_w0 = load32 (a + 8) m, m_w1 = load32 (a + 12) m, m_w2 = load32 (a + 16) m,
     m_w3 = load32 (a + 20) m, m_w4 = load32 (a + 24) m, m_w5 = load32 (a + 28) m,
     m_w6 = load32 (a + 32) m\<rparr>"

definition store_mess :: "u32 \<Rightarrow> message \<Rightarrow> memory \<Rightarrow> memory" where
  "store_mess a x m =
     store32 a (word_of_int (m_source x)) (store32 (a + 4) (word_of_int (m_type x))
     (store32 (a + 8) (m_w0 x) (store32 (a + 12) (m_w1 x) (store32 (a + 16) (m_w2 x)
     (store32 (a + 20) (m_w3 x) (store32 (a + 24) (m_w4 x) (store32 (a + 28) (m_w5 x)
     (store32 (a + 32) (m_w6 x) m))))))))"

definition apart32 :: "u32 \<Rightarrow> u32 \<Rightarrow> bool" where
  "apart32 k l \<longleftrightarrow> (\<forall>i\<in>{0, 1, 2, 3}. \<forall>j\<in>{0, 1, 2, 3}. k + i \<noteq> l + j)"

lemma load32_store32_apart: "apart32 x y \<Longrightarrow> load32 x (store32 y w m) = load32 x m"
  unfolding load32_def store32_def apart32_def by simp

lemma apart32_offset [simp]:
  "apart32 (a + k) (a + l) \<longleftrightarrow> apart32 k l" "apart32 (a + k) a \<longleftrightarrow> apart32 k 0"
  "apart32 a (a + l) \<longleftrightarrow> apart32 0 l"
  by (simp_all add: apart32_def add.assoc)

lemma load_store_mess:
  assumes "- (2 ^ 31) \<le> m_source x" "m_source x < 2 ^ 31"
    and "- (2 ^ 31) \<le> m_type x" "m_type x < 2 ^ 31"
  shows "load_mess a (store_mess a x m) = x"
proof -
  have "apart32 4 0" "apart32 8 0" "apart32 12 0" "apart32 16 0" "apart32 20 0" "apart32 24 0"
    "apart32 28 0" "apart32 32 0" "apart32 8 4" "apart32 12 4" "apart32 16 4" "apart32 20 4"
    "apart32 24 4" "apart32 28 4" "apart32 32 4" "apart32 12 8" "apart32 16 8" "apart32 20 8"
    "apart32 24 8" "apart32 28 8" "apart32 32 8" "apart32 16 12" "apart32 20 12" "apart32 24 12"
    "apart32 28 12" "apart32 32 12" "apart32 20 16" "apart32 24 16" "apart32 28 16" "apart32 32 16"
    "apart32 24 20" "apart32 28 20" "apart32 32 20" "apart32 28 24" "apart32 32 24" "apart32 32 28"
    by (simp_all add: apart32_def)
  with assms slong_id [of "m_source x"] slong_id [of "m_type x"] show ?thesis
    unfolding load_mess_def store_mess_def
    by (simp add: load32_store32_apart slong_def)
qed

subsection \<open>Copies of memory areas\<close>

text \<open>
  What a copy is meant to do: \<open>move\<close> reads the whole source first. The forward copies do the same
  unless the destination starts inside the source, above its first byte (\<open>apart\<close>); there they read
  bytes they have already overwritten.
\<close>

definition move :: "u32 \<Rightarrow> u32 \<Rightarrow> nat \<Rightarrow> memory \<Rightarrow> memory" where
  "move src dst n m = (\<lambda>a. if unat (a - dst) < n then m (src + (a - dst)) else m a)"

definition apart :: "u32 \<Rightarrow> u32 \<Rightarrow> nat \<Rightarrow> bool" where
  "apart src dst n \<longleftrightarrow> dst = src \<or> n \<le> unat (dst - src)"

lemma move_0 [simp]: "move src dst 0 m = m"
  by (simp add: move_def)

lemma apart_shift [simp]: "apart (src + k) (dst + k) n = apart src dst n"
  by (simp add: apart_def)

lemma apart_le: "apart src dst n \<Longrightarrow> k \<le> n \<Longrightarrow> apart src dst k"
  by (auto simp: apart_def)

lemma unat_lt32: "unat (x :: u32) < 2 ^ 32"
proof -
  have "unat x < 2 ^ LENGTH(32)" by (rule unsigned_less)
  then show ?thesis by simp
qed

lemma unat_minus_cases:
  "unat (x - y :: u32) = (if unat y \<le> unat x then unat x - unat y else 2 ^ 32 + unat x - unat y)"
  unfolding unat_sub_if' by (simp add: add.commute [of "unat x"])

lemma move_move:
  assumes "apart src dst (k + n)" "k + n < 2 ^ 32"
  shows "move (src + of_nat k) (dst + of_nat k) n (move src dst k m) = move src dst (k + n) m"
proof
  fix a
  define x where "x = a - dst"
  define g where "g = dst - src"
  have xlt: "unat x < 2 ^ 32" by (rule unat_lt32)
  have glt: "unat g < 2 ^ 32" by (rule unat_lt32)
  have k: "unat (of_nat k :: u32) = k" using assms(2) by (simp add: unat_of_nat)
  have e1: "a - (dst + of_nat k) = x - of_nat k" and e2: "src + of_nat k + (x - of_nat k) = src + x"
    and e3: "src + x - dst = x - g" by (simp_all add: x_def g_def)
  have g: "g = 0 \<or> k + n \<le> unat g" using assms(1) by (auto simp: apart_def g_def)
  show "move (src + of_nat k) (dst + of_nat k) n (move src dst k m) a = move src dst (k + n) m a"
  proof (cases "unat x < k")
    case True
    then have "\<not> unat (x - of_nat k) < n" using assms(2) by (simp add: unat_minus_cases k)
    with True show ?thesis by (simp add: move_def e1 x_def [symmetric])
  next
    case False
    then have u: "unat (x - of_nat k) = unat x - k" by (simp add: unat_minus_cases k)
    show ?thesis
    proof (cases "unat x < k + n")
      case True
      have "\<not> unat (x - g) < k"
        using g
      proof
        assume "k + n \<le> unat g"
        with True have "unat (x - g) = 2 ^ 32 + unat x - unat g" by (simp add: unat_minus_cases)
        with False glt show ?thesis by linarith
      qed (use False in simp)
      moreover have "unat x - k < n" using True False by arith
      ultimately show ?thesis using True False u by (simp add: move_def e1 e2 e3 x_def [symmetric])
    next
      case f: False
      then have "\<not> unat x - k < n" by arith
      with f u \<open>\<not> unat x < k\<close> show ?thesis by (simp add: move_def e1 x_def [symmetric])
    qed
  qed
qed

lemma move_1: "m(dst := m src) = move src dst 1 m"
proof
  fix a
  have "unat (a - dst) < 1 \<longleftrightarrow> a = dst" by (simp add: unat_eq_0 [symmetric] del: unat_eq_0)
      (metis eq_iff_diff_eq_0 unat_eq_0)
  then show "(m(dst := m src)) a = move src dst 1 m a" by (simp add: move_def)
qed

lemma rep_movsb_move: "apart src dst n \<Longrightarrow> n < 2 ^ 32 \<Longrightarrow> rep_movsb n src dst m = move src dst n m"
proof (induction n arbitrary: src dst m)
  case (Suc n)
  have "rep_movsb (Suc n) src dst m = move (src + of_nat 1) (dst + of_nat 1) n (move src dst 1 m)"
    using Suc.IH [of "src + 1" "dst + 1" "move src dst 1 m"] Suc.prems
    by (simp add: move_1 apart_le [of src dst "Suc n" n] del: One_nat_def)
  also have "\<dots> = move src dst (1 + n) m" using Suc.prems by (intro move_move) simp_all
  finally show ?case by simp
qed simp

lemma store32_load32: "store32 dst (load32 src m) m = move src dst 4 m"
proof
  fix a
  have bytes: "ucast (load32 src m) = m src" "ucast (drop_bit 8 (load32 src m)) = m (src + 1)"
    "ucast (drop_bit 16 (load32 src m)) = m (src + 2)" "ucast (drop_bit 24 (load32 src m)) = m (src + 3)"
    unfolding load32_def by (rule bit_word_eqI; auto simp: bit_simps dest: bit_imp_le_length)+
  define x where "x = a - dst"
  then have a: "a = dst + x" by simp
  have lt: "unat x < 4 \<longleftrightarrow> x = 0 \<or> x = 1 \<or> x = 2 \<or> x = 3"
  proof
    assume "unat x < 4"
    then have "unat x = 0 \<or> unat x = 1 \<or> unat x = 2 \<or> unat x = 3" by arith
    then show "x = 0 \<or> x = 1 \<or> x = 2 \<or> x = 3" by (simp add: word_unat_eq_iff)
  qed auto
  show "store32 dst (load32 src m) m a = move src dst 4 m a"
  proof (cases "unat x < 4")
    case True
    then have "x = 0 \<or> x = 1 \<or> x = 2 \<or> x = 3" by (simp add: lt)
    then show ?thesis by (elim disjE) (simp_all add: store32_def move_def a bytes)
  next
    case False
    then have "x \<noteq> 0 \<and> x \<noteq> 1 \<and> x \<noteq> 2 \<and> x \<noteq> 3" by (simp add: lt)
    with False show ?thesis by (simp add: store32_def move_def a)
  qed
qed

lemma rep_movs_move: "apart src dst (4 * n) \<Longrightarrow> 4 * n < 2 ^ 32 \<Longrightarrow> rep_movs n src dst m = move src dst (4 * n) m"
proof (induction n arbitrary: src dst m)
  case (Suc n)
  have "rep_movs (Suc n) src dst m = move (src + of_nat 4) (dst + of_nat 4) (4 * n) (move src dst 4 m)"
    using Suc.IH [of "src + 4" "dst + 4" "move src dst 4 m"] Suc.prems
    by (simp add: store32_load32 apart_le [of src dst "4 * Suc n" "4 * n"])
  also have "\<dots> = move src dst (4 + 4 * n) m"
    using Suc.prems by (intro move_move) simp_all
  finally show ?case by simp
qed simp

lemma phys_copy_move:
  assumes "apart src dst n" "n < 2 ^ 32"
  shows "phys_copy src dst n m = move src dst n m"
proof (cases "n < 10")
  case True
  with assms show ?thesis by (simp add: phys_copy_def rep_movsb_move)
next
  case False
  define c where "c = unat (- src AND 3)"
  have c3: "c \<le> 3"
  proof -
    have "- src AND 3 \<le> 3" by (rule word_and_le1)
    then show ?thesis by (simp add: c_def word_le_nat_alt)
  qed
  define w where "w = (n - c) div 4"
  define r where "r = (n - c) mod 4"
  have n: "n = c + 4 * w + r" using False c3 by (simp add: w_def r_def)
  have "phys_copy src dst n m = rep_movsb r (src + of_nat (c + 4 * w)) (dst + of_nat (c + 4 * w))
      (rep_movs w (src + of_nat c) (dst + of_nat c) (rep_movsb c src dst m))"
    using False by (simp add: phys_copy_def Let_def c_def w_def r_def)
  also have "\<dots> = move (src + of_nat (c + 4 * w)) (dst + of_nat (c + 4 * w)) r
      (move (src + of_nat c) (dst + of_nat c) (4 * w) (move src dst c m))"
    using assms n by (subst rep_movsb_move rep_movs_move; simp add: apart_le [OF assms(1)])+
  also have "\<dots> = move src dst n m"
    using assms n by (simp add: move_move apart_le [OF assms(1)] del: of_nat_add)
  finally show ?thesis .
qed

text \<open>Whatever overlaps, only the destination changes.\<close>

definition outside :: "u32 \<Rightarrow> nat \<Rightarrow> u32 \<Rightarrow> bool" where
  "outside dst n a \<longleftrightarrow> n \<le> unat (a - dst)"

lemma outside_shift:
  assumes "outside dst (k + n) a" "k + n < 2 ^ 32"
  shows "outside (dst + of_nat k) n a" "outside dst k a"
proof -
  have k: "unat (of_nat k :: u32) = k" using assms(2) by (simp add: unat_of_nat)
  have "unat (a - dst - of_nat k) = unat (a - dst) - k"
    using assms(1) by (simp add: outside_def unat_minus_cases [of "a - dst"] k)
  with assms(1) show "outside (dst + of_nat k) n a" "outside dst k a"
    by (simp_all add: outside_def diff_diff_eq)
qed

lemma move_outside: "outside dst n a \<Longrightarrow> move src dst n m a = m a"
  by (simp add: outside_def move_def)

lemma rep_movsb_outside: "outside dst n a \<Longrightarrow> n < 2 ^ 32 \<Longrightarrow> rep_movsb n src dst m a = m a"
proof (induction n arbitrary: src dst m)
  case (Suc n)
  from outside_shift [of dst 1 n a] Suc.prems
  have "outside (dst + 1) n a" "outside dst 1 a" by simp_all
  with Suc show ?case by (simp add: move_1 move_outside del: One_nat_def)
qed simp

lemma rep_movs_outside: "outside dst (4 * n) a \<Longrightarrow> 4 * n < 2 ^ 32 \<Longrightarrow> rep_movs n src dst m a = m a"
proof (induction n arbitrary: src dst m)
  case (Suc n)
  from outside_shift [of dst 4 "4 * n" a] Suc.prems
  have "outside (dst + 4) (4 * n) a" "outside dst 4 a" by simp_all
  with Suc show ?case by (simp add: store32_load32 move_outside)
qed simp

lemma phys_copy_outside:
  assumes "outside dst n a" "n < 2 ^ 32"
  shows "phys_copy src dst n m a = m a"
proof (cases "n < 10")
  case True
  with assms show ?thesis by (simp add: phys_copy_def rep_movsb_outside)
next
  case False
  define c where "c = unat (- src AND 3)"
  have c3: "c \<le> 3"
  proof -
    have "- src AND 3 \<le> 3" by (rule word_and_le1)
    then show ?thesis by (simp add: c_def word_le_nat_alt)
  qed
  define w where "w = (n - c) div 4"
  define r where "r = (n - c) mod 4"
  have n: "n = c + (4 * w + r)" using False c3 by (simp add: w_def r_def)
  note o1 = outside_shift [OF assms [unfolded n]]
  have lt: "4 * w + r < 2 ^ 32" using assms(2) n by simp
  note o2 = outside_shift [OF o1(1) lt]
  have eq: "phys_copy src dst n m = rep_movsb r (src + of_nat (c + 4 * w)) (dst + of_nat c + of_nat (4 * w))
      (rep_movs w (src + of_nat c) (dst + of_nat c) (rep_movsb c src dst m))"
    using False by (simp add: phys_copy_def Let_def c_def w_def r_def add.assoc)
  show ?thesis unfolding eq
    using o1(2) o2 assms(2) n by (simp add: rep_movsb_outside rep_movs_outside)
qed

lemma load32_move:
  assumes "unat k + 3 < n" "n < 2 ^ 32"
  shows "load32 (dst + k) (move src dst n m) = load32 (src + k) m"
proof -
  have u: "unat (k + of_nat i) = unat k + i" if "i \<le> 3" for i
    using that assms by (simp add: unat_word_ariths unat_of_nat)
  have "unat k < n" "unat (k + 1) < n" "unat (k + 2) < n" "unat (k + 3) < n"
    using u [of 1] u [of 2] u [of 3] assms(1) by simp_all
  moreover have "dst + k + i - dst = k + i" for i by simp
  ultimately show ?thesis
    unfolding load32_def move_def by (simp add: add.assoc)
qed

text \<open>
  \<^verbatim>\<open>cp_mess\<close> stores the sender's number in the first word of the destination and then copies the
  other eight double words of the message.
\<close>

definition cp_mess :: "int \<Rightarrow> u32 \<Rightarrow> u32 \<Rightarrow> memory \<Rightarrow> memory" where
  "cp_mess src from to m = rep_movs 8 (from + 4) (to + 4) (store32 to (word_of_int src) m)"

lemma cp_mess_move:
  assumes "apart from to MESS_SIZE"
  shows "cp_mess src from to m = store32 to (word_of_int src) (move from to MESS_SIZE m)"
proof -
  have w: "store32 to v m a = m a" if "outside to 4 a" for v m a
    using that by (auto simp: store32_def outside_def)
  have "rep_movs 8 (from + 4) (to + 4) (store32 to v m) = move (from + 4) (to + 4) 32 (store32 to v m)" for v
    using rep_movs_move [of "from + 4" "to + 4" 8] apart_le [OF assms, of 32] by simp
  moreover have "move (from + 4) (to + 4) 32 (store32 to v m) a = store32 to v (move from to MESS_SIZE m) a" for v a
  proof -
    define g where "g = to - from"
    define x where "x = a - to"
    have glt: "unat g < 2 ^ 32" by (rule unat_lt32)
    have xlt: "unat x < 2 ^ 32" by (rule unat_lt32)
    have g: "g = 0 \<or> 36 \<le> unat g" using assms by (auto simp: apart_def g_def)
    have e: "a - (to + 4) = x - 4" "from + 4 + (x - 4) = from + x" "from + x - to = x - g"
      by (simp_all add: x_def g_def)
    show ?thesis
    proof (cases "unat x < 4")
      case True
      then have "\<not> unat (x - 4) < 32" by (simp add: unat_minus_cases)
      then have "move (from + 4) (to + 4) 32 (store32 to v m) a = store32 to v m a" by (simp add: move_def e)
      also have "\<dots> = store32 to v (move from to MESS_SIZE m) a"
      proof -
        have "unat x = 0 \<or> unat x = 1 \<or> unat x = 2 \<or> unat x = 3" using True by arith
        then have "x = 0 \<or> x = 1 \<or> x = 2 \<or> x = 3" by (simp add: word_unat_eq_iff)
        moreover have "a = to + x" by (simp add: x_def)
        ultimately show ?thesis by (auto simp: store32_def)
      qed
      finally show ?thesis .
    next
      case False
      then have o: "outside to 4 a" by (simp add: outside_def x_def)
      from False have u: "unat (x - 4) = unat x - 4" by (simp add: unat_minus_cases)
      show ?thesis
      proof (cases "unat x < 36")
        case True
        have "outside to 4 (from + x)" unfolding outside_def e
          using g
        proof
          assume "36 \<le> unat g"
          with True have "unat (x - g) = 2 ^ 32 + unat x - unat g" by (simp add: unat_minus_cases)
          with False glt show "4 \<le> unat (x - g)" by linarith
        qed (use False in simp)
        moreover have "unat x - 4 < 32" using True False by arith
        ultimately show ?thesis using True False u o
          by (simp add: w move_def e x_def [symmetric])
      next
        case f: False
        then have "\<not> unat x - 4 < 32" by arith
        with f u o False show ?thesis by (simp add: w move_def e x_def [symmetric])
      qed
    qed
  qed
  ultimately show ?thesis by (simp add: cp_mess_def fun_eq_iff)
qed

lemma load_cp_mess:
  assumes "- (2 ^ 31) \<le> src" "src < 2 ^ 31" "apart from to MESS_SIZE"
  shows "load_mess to (cp_mess src from to m) = (load_mess from m)\<lparr>m_source := src\<rparr>"
proof -
  have "apart32 4 0" "apart32 8 0" "apart32 12 0" "apart32 16 0" "apart32 20 0" "apart32 24 0"
    "apart32 28 0" "apart32 32 0"
    by (simp_all add: apart32_def)
  with assms slong_id [of src] show ?thesis
    unfolding load_mess_def cp_mess_move [OF assms(3)]
    by (simp add: load32_store32_apart load32_move slong_def)
qed

subsection \<open>Process and privilege structures\<close>

datatype rts_flag =
  SLOT_FREE | NO_MAP | SENDING | RECEIVING | SIGNALED | SIG_PENDING | P_STOP | NO_PRIV

datatype sys_flag = PREEMPTIBLE | BILLABLE | SYS_PROC | SENDREC_BUSY

record mem_map =
  mem_vir :: u32
  mem_phys :: u32
  mem_len :: u32

record far_mem =
  in_use :: bool
  far_phys :: u32
  far_len :: u32

record stackframe =
  reg_gs :: u16
  reg_fs :: u16
  reg_es :: u16
  reg_ds :: u16
  reg_di :: u32
  reg_si :: u32
  reg_fp :: u32
  reg_st :: u32
  reg_bx :: u32
  reg_dx :: u32
  reg_cx :: u32
  reg_retreg :: u32
  reg_retadr :: u32
  reg_pc :: u32
  reg_cs :: u32
  reg_psw :: u32
  reg_sp :: u32
  reg_ss :: u32

record segdesc =
  limit_low :: u16
  base_low :: u16
  base_middle :: u8
  seg_access :: u8
  granularity :: u8
  base_high :: u8

record proc =
  p_reg :: stackframe
  p_ldt_sel :: u32
  p_ldt :: "nat \<Rightarrow> segdesc"
  p_nr :: int
  p_priv :: nat
  p_rts_flags :: "rts_flag set"
  p_priority :: int
  p_max_priority :: int
  p_ticks_left :: int
  p_quantum_size :: int
  p_memmap :: "nat \<Rightarrow> mem_map"
  p_user_time :: int
  p_sys_time :: int
  p_nextready :: "int option"
  p_caller_q :: "int option"
  p_q_link :: "int option"
  p_messbuf :: u32
  p_getfrom :: int
  p_sendto :: int
  p_pending :: u32
  p_name :: string

type_synonym sys_map = "nat \<Rightarrow> u16"

record priv =
  s_proc_nr :: int
  s_id :: nat
  s_flags :: "sys_flag set"
  s_trap_mask :: u16
  s_ipc_from :: sys_map
  s_ipc_to :: sys_map
  s_call_mask :: u32
  s_notify_pending :: sys_map
  s_int_pending :: u32
  s_sig_pending :: u32
  s_farmem :: "nat \<Rightarrow> far_mem"
  s_stack_guard :: u32

text \<open>Bit maps of system indexes (\<^verbatim>\<open>kernel/const.h\<close>).\<close>

definition get_sys_bit :: "sys_map \<Rightarrow> nat \<Rightarrow> bool" where
  "get_sys_bit mp b = bit (mp (b div BITCHUNK_BITS)) (b mod BITCHUNK_BITS)"

definition set_sys_bit :: "nat \<Rightarrow> sys_map \<Rightarrow> sys_map" where
  "set_sys_bit b mp = mp(b div BITCHUNK_BITS := set_bit (b mod BITCHUNK_BITS) (mp (b div BITCHUNK_BITS)))"

definition unset_sys_bit :: "nat \<Rightarrow> sys_map \<Rightarrow> sys_map" where
  "unset_sys_bit b mp = mp(b div BITCHUNK_BITS := unset_bit (b mod BITCHUNK_BITS) (mp (b div BITCHUNK_BITS)))"

lemma get_set_sys_bit: "get_sys_bit (set_sys_bit b mp) c \<longleftrightarrow> c = b \<or> get_sys_bit mp c"
proof -
  have "c = b \<longleftrightarrow> c div 16 = b div 16 \<and> c mod 16 = b mod 16"
    by (metis div_mult_mod_eq)
  then show ?thesis by (auto simp: get_sys_bit_def set_sys_bit_def bit_simps)
qed

lemma get_unset_sys_bit: "get_sys_bit (unset_sys_bit b mp) c \<longleftrightarrow> c \<noteq> b \<and> get_sys_bit mp c"
proof -
  have "c = b \<longleftrightarrow> c div 16 = b div 16 \<and> c mod 16 = b mod 16"
    by (metis div_mult_mod_eq)
  then show ?thesis by (auto simp: get_sys_bit_def unset_sys_bit_def bit_simps)
qed

subsection \<open>Interrupt hooks, diagnostics, the whole kernel state\<close>

text \<open>The handler functions that the kernel registers.\<close>

datatype irq_handler = clock_handler_fn | generic_handler_fn

record irq_hook =
  ih_next :: "nat option"
  ih_handler :: irq_handler
  ih_irq :: int
  ih_id :: u32
  ih_proc_nr :: int
  ih_notify_id :: nat
  ih_policy :: u32

record rand_bin =
  r_next :: nat
  r_size :: nat
  r_buf :: "nat \<Rightarrow> u16"

text \<open>What the boot monitor told about the machine; constant.\<close>

record machine_info =
  mi_processor :: int
  mi_ps_mca :: bool
  mi_protected :: bool

record kmessages =
  km_next :: nat
  km_size :: nat
  km_buf :: "nat \<Rightarrow> char"

text \<open>Watchdog functions of the kernel's timers.\<close>

datatype watchdog = cause_alarm_fn | shutdown_fn

text \<open>
  The alarm timer of privilege structure \<open>i\<close> (\<^verbatim>\<open>&priv[i].s_alarm_timer\<close>) has address \<open>i\<close> in
  \<open>k_timers\<close>. \<open>sched_prev\<close> is the static variable \<^verbatim>\<open>prev_ptr\<close> of \<^verbatim>\<open>sched()\<close>. \<open>k_mess_buf\<close> is
  the address, in the kernel's data segment, of the local variable \<^verbatim>\<open>m\<close> in which \<^verbatim>\<open>mini_notify\<close> and
  \<^verbatim>\<open>mini_receive\<close> build a notification; the words they do not assign keep what memory holds there.
  The devices: \<open>pic_mask\<close> are the mask registers of the two 8259 interrupt controllers, \<open>dev_log\<close>
  is the log of port outputs (port, width in bytes, value), \<open>dev_in\<close> gives the value of each port
  input or counter reading and \<open>dev_rd\<close> counts the readings so far.
\<close>

record kstate =
  procs :: "int \<Rightarrow> proc"
  privs :: "nat \<Rightarrow> priv"
  rdy_head :: "int \<Rightarrow> int option"
  rdy_tail :: "int \<Rightarrow> int option"
  proc_ptr :: "int option"
  next_ptr :: "int option"
  bill_ptr :: "int option"
  prev_ptr :: "int option"
  sched_prev :: "int option"
  k_timers :: "nat \<Rightarrow> watchdog timer"
  clock_timers :: "nat option"
  next_timeout :: int
  realtime :: int
  lost_ticks :: int
  irq_hooks :: "nat \<Rightarrow> irq_hook"
  irq_handlers :: "int \<Rightarrow> nat option"
  irq_actids :: "int \<Rightarrow> u32"
  irq_use :: u32
  kmess :: kmessages
  shutdown_started :: bool
  k_mess_buf :: u32
  k_mem :: memory
  krandom :: "nat \<Rightarrow> rand_bin"
  pic_mask :: u16
  dev_log :: "(u32 \<times> nat \<times> u32) list"
  dev_in :: "nat \<Rightarrow> u32"
  dev_rd :: nat
  machine :: machine_info

text \<open>\<^verbatim>\<open>rp->field = v\<close> and \<^verbatim>\<open>priv(rp)->field = v\<close> for a slot and a privilege index.\<close>

definition upd_proc :: "int \<Rightarrow> (proc \<Rightarrow> proc) \<Rightarrow> kstate \<Rightarrow> kstate" where
  "upd_proc n f s = s\<lparr>procs := (procs s)(n := f (procs s n))\<rparr>"

definition upd_priv :: "nat \<Rightarrow> (priv \<Rightarrow> priv) \<Rightarrow> kstate \<Rightarrow> kstate" where
  "upd_priv i f s = s\<lparr>privs := (privs s)(i := f (privs s i))\<rparr>"

definition priv_of :: "kstate \<Rightarrow> int \<Rightarrow> priv" where
  "priv_of s n = privs s (p_priv (procs s n))"

lemma upd_proc_sel [simp]:
  "procs (upd_proc n f s) = (procs s)(n := f (procs s n))"
  "privs (upd_proc n f s) = privs s"
  "rdy_head (upd_proc n f s) = rdy_head s"
  "rdy_tail (upd_proc n f s) = rdy_tail s"
  "proc_ptr (upd_proc n f s) = proc_ptr s"
  "next_ptr (upd_proc n f s) = next_ptr s"
  "bill_ptr (upd_proc n f s) = bill_ptr s"
  "prev_ptr (upd_proc n f s) = prev_ptr s"
  "sched_prev (upd_proc n f s) = sched_prev s"
  "k_timers (upd_proc n f s) = k_timers s"
  "clock_timers (upd_proc n f s) = clock_timers s"
  "next_timeout (upd_proc n f s) = next_timeout s"
  "realtime (upd_proc n f s) = realtime s"
  "lost_ticks (upd_proc n f s) = lost_ticks s"
  "irq_hooks (upd_proc n f s) = irq_hooks s"
  "irq_handlers (upd_proc n f s) = irq_handlers s"
  "irq_actids (upd_proc n f s) = irq_actids s"
  "irq_use (upd_proc n f s) = irq_use s"
  "kmess (upd_proc n f s) = kmess s"
  "shutdown_started (upd_proc n f s) = shutdown_started s"
  "k_mess_buf (upd_proc n f s) = k_mess_buf s"
  "k_mem (upd_proc n f s) = k_mem s"
  "krandom (upd_proc n f s) = krandom s"
  "pic_mask (upd_proc n f s) = pic_mask s"
  "dev_log (upd_proc n f s) = dev_log s"
  "dev_in (upd_proc n f s) = dev_in s"
  "dev_rd (upd_proc n f s) = dev_rd s"
  "machine (upd_proc n f s) = machine s"
  by (simp_all add: upd_proc_def)

lemma upd_priv_sel [simp]:
  "privs (upd_priv i g s) = (privs s)(i := g (privs s i))"
  "procs (upd_priv i g s) = procs s"
  "rdy_head (upd_priv i g s) = rdy_head s"
  "rdy_tail (upd_priv i g s) = rdy_tail s"
  "proc_ptr (upd_priv i g s) = proc_ptr s"
  "next_ptr (upd_priv i g s) = next_ptr s"
  "bill_ptr (upd_priv i g s) = bill_ptr s"
  "prev_ptr (upd_priv i g s) = prev_ptr s"
  "sched_prev (upd_priv i g s) = sched_prev s"
  "k_timers (upd_priv i g s) = k_timers s"
  "clock_timers (upd_priv i g s) = clock_timers s"
  "next_timeout (upd_priv i g s) = next_timeout s"
  "realtime (upd_priv i g s) = realtime s"
  "lost_ticks (upd_priv i g s) = lost_ticks s"
  "irq_hooks (upd_priv i g s) = irq_hooks s"
  "irq_handlers (upd_priv i g s) = irq_handlers s"
  "irq_actids (upd_priv i g s) = irq_actids s"
  "irq_use (upd_priv i g s) = irq_use s"
  "kmess (upd_priv i g s) = kmess s"
  "shutdown_started (upd_priv i g s) = shutdown_started s"
  "k_mess_buf (upd_priv i g s) = k_mess_buf s"
  "k_mem (upd_priv i g s) = k_mem s"
  "krandom (upd_priv i g s) = krandom s"
  "pic_mask (upd_priv i g s) = pic_mask s"
  "dev_log (upd_priv i g s) = dev_log s"
  "dev_in (upd_priv i g s) = dev_in s"
  "dev_rd (upd_priv i g s) = dev_rd s"
  "machine (upd_priv i g s) = machine s"
  by (simp_all add: upd_priv_def)

end
