(* ===== verification/Kernel_Sched.thy ===== *)
theory Kernel_Sched
  imports Kernel_Types
begin

text \<open>
  The scheduler of \<^verbatim>\<open>kernel/proc.c\<close>: \<^verbatim>\<open>sched\<close>, \<^verbatim>\<open>pick_proc\<close>, \<^verbatim>\<open>enqueue\<close> and
  \<^verbatim>\<open>dequeue\<close>, on the linked ready queues.

  Shown here: the pointer manipulations implement an array of sixteen lists (\<open>rqs\<close>); a priority
  stays between the process's own maximum and the queue above IDLE; \<^verbatim>\<open>pick_proc\<close> selects the
  head of the first non-empty queue, after any sequence of steps (\<open>sched_step\<close>). The locale \<open>run_queues\<close> is what the rest of the kernel
  relies on: a process is on a ready queue iff its run-time flags are empty, and the two idioms
  that clear or set a flag keep it so.
\<close>

subsection \<open>Model\<close>

text \<open>\<^verbatim>\<open>sched(rp, &queue, &front)\<close>: the queue, whether to insert at the front, the new state.\<close>

definition sched :: "int \<Rightarrow> kstate \<Rightarrow> int \<times> bool \<times> kstate" where
  "sched rp s =
     (let p = procs s rp;
          time_left = (p_ticks_left p > 0);
          (s1, penalty) =
            (if \<not> time_left then
               ((upd_proc rp (p_ticks_left_update (\<lambda>_. p_quantum_size p)) s)\<lparr>sched_prev := Some rp\<rparr>,
                if sched_prev s = Some rp then 1 else - 1)
             else (s, 0 :: int));
          s2 =
            (if penalty \<noteq> 0 \<and> \<not> iskerneln (p_nr p) then
               upd_proc rp (\<lambda>p. let pr = schar (p_priority p + penalty) in
                 p\<lparr>p_priority :=
                   (if pr < p_max_priority p then p_max_priority p
                    else if pr > IDLE_Q - 1 then IDLE_Q - 1
                    else pr)\<rparr>) s1
             else s1)
      in (p_priority (procs s2 rp), time_left, s2))"

text \<open>The loop of \<^verbatim>\<open>pick_proc\<close> over the queue numbers.\<close>

fun pick_from :: "int list \<Rightarrow> kstate \<Rightarrow> kstate" where
  "pick_from [] s = s"
| "pick_from (q # qs) s =
     (case rdy_head s q of
        None \<Rightarrow> pick_from qs s
      | Some rp \<Rightarrow>
          (let s1 = s\<lparr>next_ptr := Some rp\<rparr> in
           if BILLABLE \<in> s_flags (priv_of s rp) then s1\<lparr>bill_ptr := Some rp\<rparr> else s1))"

definition pick_proc :: "kstate \<Rightarrow> kstate" where
  "pick_proc s = pick_from [0, 1, 2, 3, 4, 5, 6, 7, 8, 9, 10, 11, 12, 13, 14, 15] s"

definition enqueue :: "int \<Rightarrow> kstate \<Rightarrow> kstate option" where
  "enqueue rp s =
     (case sched rp s of (q, front, s1) \<Rightarrow>
        if rdy_head s1 q = None then
          Some (pick_proc (upd_proc rp (p_nextready_update (\<lambda>_. None))
            (s1\<lparr>rdy_head := (rdy_head s1)(q := Some rp), rdy_tail := (rdy_tail s1)(q := Some rp)\<rparr>)))
        else if front then
          (let s2 = upd_proc rp (p_nextready_update (\<lambda>_. rdy_head s1 q)) s1
           in Some (pick_proc (s2\<lparr>rdy_head := (rdy_head s2)(q := Some rp)\<rparr>)))
        else
          (case rdy_tail s1 q of
             None \<Rightarrow> None
           | Some t \<Rightarrow>
               (let s2 = upd_proc t (p_nextready_update (\<lambda>_. Some rp)) s1;
                    s3 = s2\<lparr>rdy_tail := (rdy_tail s2)(q := Some rp)\<rparr>
                in Some (pick_proc (upd_proc rp (p_nextready_update (\<lambda>_. None)) s3)))))"

definition nextready :: "kstate \<Rightarrow> int \<Rightarrow> int option" where
  "nextready s n = p_nextready (procs s n)"

text \<open>\<^verbatim>\<open>*xpp = v\<close> where \<^verbatim>\<open>xpp\<close> walks ready queue \<open>q\<close>; the node in front of a slot.\<close>

fun rdy_assign :: "int \<Rightarrow> int slot \<Rightarrow> int option \<Rightarrow> kstate \<Rightarrow> kstate" where
  "rdy_assign q Head v s = s\<lparr>rdy_head := (rdy_head s)(q := v)\<rparr>"
| "rdy_assign q (Link a) v s = upd_proc a (p_nextready_update (\<lambda>_. v)) s"

fun slot_prev :: "'a slot \<Rightarrow> 'a option" where
  "slot_prev Head = None"
| "slot_prev (Link a) = Some a"

text \<open>A kernel task whose stack guard was overwritten makes \<^verbatim>\<open>dequeue\<close> panic.\<close>

definition dequeue :: "int \<Rightarrow> kstate \<Rightarrow> kstate option" where
  "dequeue rp s =
     (let q = p_priority (procs s rp) in
      if iskerneln (p_nr (procs s rp)) \<and> s_stack_guard (priv_of s rp) \<noteq> STACK_GUARD then None
      else do {
        xpp \<leftarrow> chain_find (\<lambda>x. x = rp) (rdy_head s q) (nextready s) Head;
        (case rd (rdy_head s q) (nextready s) xpp of
           None \<Rightarrow> Some s
         | Some _ \<Rightarrow>
             (let s1 = rdy_assign q xpp (nextready s rp) s;
                  s2 = (if rdy_tail s1 q = Some rp
                        then s1\<lparr>rdy_tail := (rdy_tail s1)(q := slot_prev xpp)\<rparr> else s1)
              in Some (if proc_ptr s2 = Some rp \<or> next_ptr s2 = Some rp then pick_proc s2 else s2)))
      })"

text \<open>\<^verbatim>\<open>lock_enqueue\<close> and \<^verbatim>\<open>lock_dequeue\<close> only disable interrupts around the calls.\<close>

definition lock_enqueue :: "int \<Rightarrow> kstate \<Rightarrow> kstate option" where
  "lock_enqueue rp s = enqueue rp s"

definition lock_dequeue :: "int \<Rightarrow> kstate \<Rightarrow> kstate option" where
  "lock_dequeue rp s = dequeue rp s"

text \<open>
  The two idioms of the kernel: \<^verbatim>\<open>if ((rp->p_rts_flags &= ~F) == 0) enqueue(rp)\<close> and
  \<^verbatim>\<open>if (rp->p_rts_flags == 0) dequeue(rp); rp->p_rts_flags |= F\<close>.
\<close>

definition rts_unset :: "rts_flag set \<Rightarrow> int \<Rightarrow> kstate \<Rightarrow> kstate option" where
  "rts_unset F rp s =
     (let s1 = upd_proc rp (p_rts_flags_update (\<lambda>f. f - F)) s in
      if p_rts_flags (procs s1 rp) = {} then enqueue rp s1 else Some s1)"

definition rts_set :: "rts_flag set \<Rightarrow> int \<Rightarrow> kstate \<Rightarrow> kstate option" where
  "rts_set F rp s = do {
     s1 \<leftarrow> (if p_rts_flags (procs s rp) = {} then dequeue rp s else Some s);
     Some (upd_proc rp (p_rts_flags_update (\<lambda>f. f \<union> F)) s1)
   }"

subsection \<open>What the operations leave alone\<close>

text \<open>
  The state with the scheduling data blanked out: two states with the same core differ only in the
  queues, \<^verbatim>\<open>next_ptr\<close>, \<^verbatim>\<open>bill_ptr\<close> and the priorities, ticks and links of processes.
\<close>

definition proc_core :: "proc \<Rightarrow> proc" where
  "proc_core p = p\<lparr>p_priority := 0, p_ticks_left := 0, p_nextready := None\<rparr>"

definition sched_core :: "kstate \<Rightarrow> kstate" where
  "sched_core s = s\<lparr>procs := (\<lambda>n. proc_core (procs s n)), rdy_head := (\<lambda>_. None),
     rdy_tail := (\<lambda>_. None), next_ptr := None, bill_ptr := None, sched_prev := None\<rparr>"

definition sched_frame :: "kstate \<Rightarrow> kstate \<Rightarrow> bool" where
  "sched_frame s s' \<longleftrightarrow> sched_core s' = sched_core s"

lemma sched_frame_refl [simp]: "sched_frame s s"
  by (simp add: sched_frame_def)

lemma sched_frame_trans: "sched_frame s t \<Longrightarrow> sched_frame t u \<Longrightarrow> sched_frame s u"
  by (simp add: sched_frame_def)

lemma sched_frame_state:
  assumes "sched_frame s s'"
  shows "privs s' = privs s" "proc_ptr s' = proc_ptr s" "prev_ptr s' = prev_ptr s"
    "k_timers s' = k_timers s" "clock_timers s' = clock_timers s" "next_timeout s' = next_timeout s"
    "realtime s' = realtime s" "k_mem s' = k_mem s" "irq_hooks s' = irq_hooks s"
    "lost_ticks s' = lost_ticks s" "irq_handlers s' = irq_handlers s"
    "irq_actids s' = irq_actids s" "irq_use s' = irq_use s" "kmess s' = kmess s"
    "shutdown_started s' = shutdown_started s" "k_mess_buf s' = k_mess_buf s"
    "krandom s' = krandom s" "pic_mask s' = pic_mask s" "dev_log s' = dev_log s" "dev_in s' = dev_in s"
    "dev_rd s' = dev_rd s" "machine s' = machine s"
  using arg_cong [OF assms [unfolded sched_frame_def], of privs]
    arg_cong [OF assms [unfolded sched_frame_def], of proc_ptr]
    arg_cong [OF assms [unfolded sched_frame_def], of prev_ptr]
    arg_cong [OF assms [unfolded sched_frame_def], of k_timers]
    arg_cong [OF assms [unfolded sched_frame_def], of clock_timers]
    arg_cong [OF assms [unfolded sched_frame_def], of next_timeout]
    arg_cong [OF assms [unfolded sched_frame_def], of realtime]
    arg_cong [OF assms [unfolded sched_frame_def], of k_mem]
    arg_cong [OF assms [unfolded sched_frame_def], of irq_hooks]
    arg_cong [OF assms [unfolded sched_frame_def], of lost_ticks]
    arg_cong [OF assms [unfolded sched_frame_def], of irq_handlers]
    arg_cong [OF assms [unfolded sched_frame_def], of irq_actids]
    arg_cong [OF assms [unfolded sched_frame_def], of irq_use]
    arg_cong [OF assms [unfolded sched_frame_def], of kmess]
    arg_cong [OF assms [unfolded sched_frame_def], of shutdown_started]
    arg_cong [OF assms [unfolded sched_frame_def], of k_mess_buf]
    arg_cong [OF assms [unfolded sched_frame_def], of krandom]
    arg_cong [OF assms [unfolded sched_frame_def], of pic_mask]
    arg_cong [OF assms [unfolded sched_frame_def], of dev_log]
    arg_cong [OF assms [unfolded sched_frame_def], of dev_in]
    arg_cong [OF assms [unfolded sched_frame_def], of dev_rd]
    arg_cong [OF assms [unfolded sched_frame_def], of machine]
  by (simp_all add: sched_core_def)

lemma sched_frame_proc:
  assumes "sched_frame s s'"
  shows "proc_core (procs s' n) = proc_core (procs s n)"
  using arg_cong [OF assms [unfolded sched_frame_def], of "\<lambda>t. procs t n"] by (simp add: sched_core_def)

lemma proc_coreD:
  assumes "proc_core p = proc_core r"
  shows "p_rts_flags p = p_rts_flags r" "p_nr p = p_nr r" "p_priv p = p_priv r"
    "p_memmap p = p_memmap r" "p_q_link p = p_q_link r" "p_caller_q p = p_caller_q r"
    "p_messbuf p = p_messbuf r" "p_getfrom p = p_getfrom r" "p_sendto p = p_sendto r"
    "p_max_priority p = p_max_priority r" "p_quantum_size p = p_quantum_size r"
    "p_pending p = p_pending r" "p_name p = p_name r" "p_reg p = p_reg r"
    "p_ldt_sel p = p_ldt_sel r" "p_user_time p = p_user_time r" "p_sys_time p = p_sys_time r" "p_ldt p = p_ldt r"
  using arg_cong [OF assms, of p_rts_flags]
    arg_cong [OF assms, of p_nr]
    arg_cong [OF assms, of p_priv]
    arg_cong [OF assms, of p_memmap]
    arg_cong [OF assms, of p_q_link]
    arg_cong [OF assms, of p_caller_q]
    arg_cong [OF assms, of p_messbuf]
    arg_cong [OF assms, of p_getfrom]
    arg_cong [OF assms, of p_sendto]
    arg_cong [OF assms, of p_max_priority]
    arg_cong [OF assms, of p_quantum_size]
    arg_cong [OF assms, of p_pending]
    arg_cong [OF assms, of p_name]
    arg_cong [OF assms, of p_reg]
    arg_cong [OF assms, of p_ldt_sel]
    arg_cong [OF assms, of p_user_time]
    arg_cong [OF assms, of p_sys_time]
    arg_cong [OF assms, of p_ldt]
  by (simp_all add: proc_core_def)

lemmas sched_frameD = sched_frame_state proc_coreD [OF sched_frame_proc]

lemma sched_frame_mem: "sched_frame s s' \<Longrightarrow> k_mem s' = k_mem s"
  by (simp add: sched_frameD)

lemma sched_frame_flags: "sched_frame s s' \<Longrightarrow> p_rts_flags (procs s' n) = p_rts_flags (procs s n)"
  by (simp add: sched_frameD)

lemma sched_frame_priv_of: "sched_frame s s' \<Longrightarrow> priv_of s' n = priv_of s n"
  by (simp add: priv_of_def sched_frameD)

lemma proc_core_upd [simp]:
  "proc_core (p\<lparr>p_priority := a\<rparr>) = proc_core p"
  "proc_core (p\<lparr>p_ticks_left := b\<rparr>) = proc_core p"
  "proc_core (p\<lparr>p_nextready := c\<rparr>) = proc_core p"
  by (simp_all add: proc_core_def)

lemma sched_core_upd [simp]:
  "sched_core (s\<lparr>rdy_head := h\<rparr>) = sched_core s" "sched_core (s\<lparr>rdy_tail := t\<rparr>) = sched_core s"
  "sched_core (s\<lparr>next_ptr := n\<rparr>) = sched_core s" "sched_core (s\<lparr>bill_ptr := b\<rparr>) = sched_core s"
  "sched_core (s\<lparr>sched_prev := b\<rparr>) = sched_core s"
  by (simp_all add: sched_core_def)

lemma sched_core_upd_proc:
  "proc_core (f (procs s n)) = proc_core (procs s n) \<Longrightarrow> sched_core (upd_proc n f s) = sched_core s"
  by (simp add: sched_core_def upd_proc_def fun_eq_iff)

subsection \<open>Well-formed ready queues\<close>

abbreviation (input) QUEUES :: "int list" where
  "QUEUES \<equiv> [0, 1, 2, 3, 4, 5, 6, 7, 8, 9, 10, 11, 12, 13, 14, 15]"

text \<open>
  \<open>sched_wf\<close>: the static side conditions of scheduling. Priorities are queue numbers, a slot holds
  its own number, and the stack guards of the kernel tasks are intact.
\<close>

definition prio_ok :: "proc \<Rightarrow> bool" where
  "prio_ok p \<longleftrightarrow> 0 \<le> p_priority p \<and> p_priority p \<le> IDLE_Q \<and>
     0 \<le> p_max_priority p \<and> p_max_priority p \<le> IDLE_Q"

definition sched_wf :: "kstate \<Rightarrow> bool" where
  "sched_wf s \<longleftrightarrow> (\<forall>n. isokprocn n \<longrightarrow> p_nr (procs s n) = n \<and> prio_ok (procs s n) \<and>
     (iskerneln n \<longrightarrow> s_stack_guard (priv_of s n) = STACK_GUARD))"

definition queue_nrs :: "int set" where
  "queue_nrs = {0..IDLE_Q}"

text \<open>
  \<open>rqs s Q\<close>: queue \<open>q\<close> is a well-formed list that holds the processes \<open>Q q\<close>, all of
  priority \<open>q\<close>, with \<^verbatim>\<open>rdy_tail\<close> pointing to the last one.
\<close>

definition rqs :: "kstate \<Rightarrow> (int \<Rightarrow> int list) \<Rightarrow> bool" where
  "rqs s Q \<longleftrightarrow> (\<forall>q \<in> queue_nrs. chain (nextready s) (rdy_head s q) (Q q) \<and>
     (Q q \<noteq> [] \<longrightarrow> rdy_tail s q = Some (last (Q q))) \<and>
     (\<forall>n \<in> set (Q q). p_priority (procs s n) = q))"

definition ready_set :: "(int \<Rightarrow> int list) \<Rightarrow> int set" where
  "ready_set Q = (\<Union>q \<in> queue_nrs. set (Q q))"

text \<open>\<^verbatim>\<open>next_ptr\<close> is the head of the first non-empty queue.\<close>

definition next_ok :: "kstate \<Rightarrow> bool" where
  "next_ok s \<longleftrightarrow> (case find (\<lambda>q. rdy_head s q \<noteq> None) QUEUES of
     None \<Rightarrow> True | Some q \<Rightarrow> next_ptr s = rdy_head s q)"

definition on_ready :: "kstate \<Rightarrow> int set \<Rightarrow> bool" where
  "on_ready s R \<longleftrightarrow> sched_wf s \<and> next_ok s \<and> (\<exists>Q. rqs s Q \<and> R = ready_set Q)"

lemma queue_numbers: "q \<in> queue_nrs \<longleftrightarrow> 0 \<le> q \<and> q \<le> 15"
  by (simp add: queue_nrs_def)

lemma set_QUEUES: "set QUEUES = queue_nrs"
  unfolding queue_nrs_def by (auto; presburger)

lemma find_sorted_first:
  fixes qs :: "int list"
  shows "sorted qs \<Longrightarrow> q \<in> set qs \<Longrightarrow> P q \<Longrightarrow>
    \<exists>r. find P qs = Some r \<and> r \<in> set qs \<and> r \<le> q \<and> P r"
  by (induction qs) auto

lemma find_first_queue:
  assumes "P q" "q \<in> queue_nrs"
  shows "\<exists>r. find P QUEUES = Some r \<and> r \<in> queue_nrs \<and> r \<le> q \<and> P r"
  using find_sorted_first [of QUEUES q P] assms unfolding set_QUEUES by simp

subsection \<open>\<^verbatim>\<open>pick_proc\<close>\<close>

lemma pick_from_sel:
  "procs (pick_from qs s) = procs s \<and> rdy_head (pick_from qs s) = rdy_head s \<and>
   rdy_tail (pick_from qs s) = rdy_tail s \<and> sched_core (pick_from qs s) = sched_core s \<and>
   sched_prev (pick_from qs s) = sched_prev s"
  by (induction qs) (auto simp: Let_def split: option.splits)

lemma pick_from_next:
  "next_ptr (pick_from qs s) =
     (case find (\<lambda>q. rdy_head s q \<noteq> None) qs of None \<Rightarrow> next_ptr s | Some q \<Rightarrow> rdy_head s q)"
  by (induction qs) (auto simp: Let_def split: option.splits)

lemma pick_proc_sel [simp]:
  "procs (pick_proc s) = procs s" "rdy_head (pick_proc s) = rdy_head s"
  "rdy_tail (pick_proc s) = rdy_tail s" "sched_core (pick_proc s) = sched_core s"
  "sched_prev (pick_proc s) = sched_prev s"
  by (simp_all only: pick_proc_def pick_from_sel)

lemma next_ok_pick_proc [simp]: "next_ok (pick_proc s)"
  unfolding next_ok_def pick_proc_sel
  by (simp only: pick_proc_def pick_from_next split: option.split) simp

lemma pick_proc_frame [simp]: "sched_frame s (pick_proc s)"
  by (simp add: sched_frame_def)

subsection \<open>\<^verbatim>\<open>sched\<close>\<close>

text \<open>The priority of a user process whose quantum has expired.\<close>

definition expired_priority :: "int \<Rightarrow> kstate \<Rightarrow> int" where
  "expired_priority rp s =
     (let pr = schar (p_priority (procs s rp) + (if sched_prev s = Some rp then 1 else - 1))
      in if pr < p_max_priority (procs s rp) then p_max_priority (procs s rp)
         else if pr > IDLE_Q - 1 then IDLE_Q - 1 else pr)"

lemma sched_expired_user:
  assumes "\<not> 0 < p_ticks_left (procs s rp)" "\<not> iskerneln (p_nr (procs s rp))"
  shows "sched rp s = (expired_priority rp s, False,
    upd_proc rp (p_priority_update (\<lambda>_. expired_priority rp s))
      ((upd_proc rp (p_ticks_left_update (\<lambda>_. p_quantum_size (procs s rp))) s)\<lparr>sched_prev := Some rp\<rparr>))"
  using assms by (simp add: sched_def Let_def expired_priority_def upd_proc_def)

lemma sched_spec:
  assumes "sched rp s = (q, front, s1)" "prio_ok (procs s rp)"
  obtains t where "procs s1 = (procs s)(rp := (procs s rp)\<lparr>p_priority := q, p_ticks_left := t\<rparr>)"
    "rdy_head s1 = rdy_head s" "rdy_tail s1 = rdy_tail s" "next_ptr s1 = next_ptr s"
    "sched_frame s s1" "0 \<le> q" "q \<le> 15" "front \<longleftrightarrow> 0 < p_ticks_left (procs s rp)"
proof (cases "0 < p_ticks_left (procs s rp)")
  case True
  with assms(1) have "q = p_priority (procs s rp)" "front" "s1 = s"
    by (auto simp add: sched_def)
  with assms(2) True show ?thesis
    by (intro that [of "p_ticks_left (procs s rp)"]) (simp_all add: prio_ok_def)
next
  case False
  define sA where "sA = (upd_proc rp (p_ticks_left_update (\<lambda>_. p_quantum_size (procs s rp))) s)\<lparr>sched_prev := Some rp\<rparr>"
  define c where "c = (if sched_prev s = Some rp then 1 else - 1 :: int)"
  have c: "c \<noteq> 0" by (simp add: c_def)
  have A: "procs sA = (procs s)(rp := (procs s rp)\<lparr>p_ticks_left := p_quantum_size (procs s rp)\<rparr>)"
    "rdy_head sA = rdy_head s" "rdy_tail sA = rdy_tail s" "next_ptr sA = next_ptr s"
    "sched_core sA = sched_core s"
    by (simp_all add: sA_def sched_core_upd_proc)
  show ?thesis
  proof (cases "iskerneln (p_nr (procs s rp))")
    case kern: True
    with False assms(1) c have "s1 = sA" "q = p_priority (procs s rp)" "\<not> front"
      by (simp_all add: sched_def Let_def sA_def c_def)
    with A assms(2) False show ?thesis
      by (intro that [of "p_quantum_size (procs s rp)"]) (simp_all add: prio_ok_def sched_frame_def)
  next
    case user: False
    define q' where "q' = expired_priority rp s"
    have "sched rp s = (q', False, upd_proc rp (p_priority_update (\<lambda>_. q')) sA)"
      using sched_expired_user [OF False user] by (simp add: sA_def q'_def)
    with assms(1) have s1: "s1 = upd_proc rp (p_priority_update (\<lambda>_. q')) sA"
      and q: "q = q'" "\<not> front" by auto
    from assms(2) have "0 \<le> q'" "q' \<le> 15" by (auto simp: q'_def expired_priority_def Let_def prio_ok_def)
    moreover have "procs s1 = (procs s)
        (rp := (procs s rp)\<lparr>p_priority := q, p_ticks_left := p_quantum_size (procs s rp)\<rparr>)"
      by (simp add: s1 q A fun_eq_iff)
    ultimately show ?thesis
      using A s1 q False by (intro that [of "p_quantum_size (procs s rp)"])
        (simp_all add: sched_frame_def sched_core_upd_proc)
  qed
qed

subsection \<open>\<^verbatim>\<open>enqueue\<close>\<close>

lemma nextready_upd:
  "nextready (upd_proc n f s) = (nextready s)(n := p_nextready (f (procs s n)))"
  by (auto simp: nextready_def)

lemma nextready_sel [simp]:
  "nextready (s\<lparr>rdy_head := h\<rparr>) = nextready s" "nextready (s\<lparr>rdy_tail := t\<rparr>) = nextready s"
  "nextready (pick_proc s) = nextready s"
  by (auto simp: nextready_def)

lemma rqsD:
  assumes "rqs s Q" "q \<in> queue_nrs"
  shows "chain (nextready s) (rdy_head s q) (Q q)"
    "Q q \<noteq> [] \<Longrightarrow> rdy_tail s q = Some (last (Q q))"
    "n \<in> set (Q q) \<Longrightarrow> p_priority (procs s n) = q"
  using assms by (simp_all only: rqs_def) blast+

lemma rqs_pick_proc [simp]: "rqs (pick_proc s) Q \<longleftrightarrow> rqs s Q"
  by (simp add: rqs_def)

lemma rqs_disjoint:
  "rqs s Q \<Longrightarrow> q \<in> queue_nrs \<Longrightarrow> r \<in> queue_nrs \<Longrightarrow> n \<in> set (Q q) \<Longrightarrow> n \<in> set (Q r) \<Longrightarrow> q = r"
  by (metis rqsD(3))

lemma ready_setI: "q \<in> queue_nrs \<Longrightarrow> n \<in> set (Q q) \<Longrightarrow> n \<in> ready_set Q"
  unfolding ready_set_def by blast

text \<open>
  Changing only queue \<open>q\<close>: the links of processes outside the other queues may change, the other
  queues stay as they are.
\<close>

lemma rqs_replace:
  assumes R: "rqs s Q" and q: "q \<in> queue_nrs"
    and other: "\<And>r. r \<in> queue_nrs \<Longrightarrow> r \<noteq> q \<Longrightarrow> rdy_head s' r = rdy_head s r \<and> rdy_tail s' r = rdy_tail s r"
    and nx: "\<And>r n. r \<in> queue_nrs \<Longrightarrow> r \<noteq> q \<Longrightarrow> n \<in> set (Q r) \<Longrightarrow>
       nextready s' n = nextready s n \<and> p_priority (procs s' n) = p_priority (procs s n)"
    and new: "chain (nextready s') (rdy_head s' q) xs" "xs \<noteq> [] \<Longrightarrow> rdy_tail s' q = Some (last xs)"
      "\<And>n. n \<in> set xs \<Longrightarrow> p_priority (procs s' n) = q"
  shows "rqs s' (Q(q := xs))"
  unfolding rqs_def
proof (intro ballI conjI impI)
  fix r assume r: "r \<in> queue_nrs"
  show "chain (nextready s') (rdy_head s' r) ((Q(q := xs)) r)"
  proof (cases "r = q")
    case False
    have "chain (nextready s) (rdy_head s r) (Q r) \<longleftrightarrow> chain (nextready s') (rdy_head s r) (Q r)"
      by (rule chain_cong) (use nx [OF r False] in simp)
    with rqsD(1) [OF R r] have "chain (nextready s') (rdy_head s r) (Q r)" by blast
    with False other [OF r] show ?thesis by simp
  qed (use new in simp)
  assume "(Q(q := xs)) r \<noteq> []"
  then show "rdy_tail s' r = Some (last ((Q(q := xs)) r))"
    using new other [OF r] rqsD(2) [OF R r] by (cases "r = q") auto
next
  fix r n assume r: "r \<in> queue_nrs" "n \<in> set ((Q(q := xs)) r)"
  then show "p_priority (procs s' n) = r"
    using new nx [OF r(1)] rqsD(3) [OF R r(1)] by (cases "r = q") auto
qed

lemma ready_set_update:
  assumes "q \<in> queue_nrs" "rqs s Q"
  shows "ready_set (Q(q := xs)) = (ready_set Q - set (Q q)) \<union> set xs"
proof -
  have "x \<notin> set (Q q)" if "r \<in> queue_nrs" "r \<noteq> q" "x \<in> set (Q r)" for r x
    using rqs_disjoint [OF assms(2) that(1) assms(1) that(3)] that(2) by blast
  then have "(\<exists>r\<in>queue_nrs. x \<in> set ((Q(q := xs)) r)) \<longleftrightarrow>
      (\<exists>r\<in>queue_nrs. x \<in> set (Q r)) \<and> x \<notin> set (Q q) \<or> x \<in> set xs" for x
    using assms(1) by (metis fun_upd_apply)
  then show ?thesis unfolding ready_set_def by blast
qed

text \<open>The list that \<^verbatim>\<open>enqueue\<close> leaves in the chosen queue.\<close>

definition enq_list :: "bool \<Rightarrow> int \<Rightarrow> int list \<Rightarrow> int list" where
  "enq_list front rp xs = (if front then rp # xs else xs @ [rp])"

lemma enqueue_spec:
  assumes R: "rqs s Q" and ok: "prio_ok (procs s rp)" and new: "rp \<notin> ready_set Q"
    and sch: "sched rp s = (q, front, s1)"
  obtains s' where "enqueue rp s = Some s'" "rqs s' (Q(q := enq_list front rp (Q q)))"
    "sched_frame s s'" "next_ok s'" "p_priority (procs s' rp) = q"
    "\<And>n. n \<noteq> rp \<Longrightarrow> p_priority (procs s' n) = p_priority (procs s n)"
    "q \<in> queue_nrs"
proof -
  obtain t where s1: "procs s1 = (procs s)(rp := (procs s rp)\<lparr>p_priority := q, p_ticks_left := t\<rparr>)"
    "rdy_head s1 = rdy_head s" "rdy_tail s1 = rdy_tail s" "sched_frame s s1" "0 \<le> q" "q \<le> 15"
    using sched_spec [OF sch ok] by blast
  have q: "q \<in> queue_nrs" unfolding queue_numbers using s1 by simp
  have nr: "rp \<notin> set (Q r)" if "r \<in> queue_nrs" for r
    using new ready_setI [OF that] by blast
  have nx1: "nextready s1 = nextready s" by (auto simp: nextready_def s1)
  have core: "sched_core s1 = sched_core s" using s1(4) by (simp add: sched_frame_def)
  note ch = rqsD(1) [OF R q] and tl = rqsD(2) [OF R q] and pri = rqsD(3) [OF R q]
  consider (empty) "rdy_head s q = None"
    | (atfront) "rdy_head s q \<noteq> None" "front"
    | (atback) "rdy_head s q \<noteq> None" "\<not> front" by blast
  then show thesis
  proof cases
    case empty
    define s2 where "s2 = upd_proc rp (p_nextready_update (\<lambda>_. None))
      (s1\<lparr>rdy_head := (rdy_head s1)(q := Some rp), rdy_tail := (rdy_tail s1)(q := Some rp)\<rparr>)"
    have e: "enqueue rp s = Some (pick_proc s2)"
      by (simp add: enqueue_def sch empty s1 s2_def)
    from empty ch have Qq: "Q q = []" by simp
    have "rqs (pick_proc s2) (Q(q := enq_list front rp (Q q)))"
      by (rule rqs_replace [OF R q])
        (use nr in \<open>auto simp: s2_def s1 nextready_upd nx1 Qq enq_list_def nextready_def split: if_splits\<close>)
    then show ?thesis
      using e q core by (intro that [OF e]) (simp_all add: sched_frame_def s2_def s1 sched_core_upd_proc)
  next
    case atfront
    define s2 where "s2 = (upd_proc rp (p_nextready_update (\<lambda>_. rdy_head s q)) s1)
      \<lparr>rdy_head := (rdy_head s)(q := Some rp)\<rparr>"
    have e: "enqueue rp s = Some (pick_proc s2)"
      using atfront by (auto simp add: enqueue_def sch s1 s2_def Let_def)
    from atfront ch have Qq: "Q q \<noteq> []" by auto
    have nx2: "nextready s2 = (nextready s)(rp := rdy_head s q)"
      by (simp add: s2_def nextready_upd nx1)
    have "rqs (pick_proc s2) (Q(q := rp # Q q))"
    proof (rule rqs_replace [OF R q])
      show "chain (nextready (pick_proc s2)) (rdy_head (pick_proc s2) q) (rp # Q q)"
        using ch nr [OF q] by (simp add: nx2 chain_upd) (simp add: s2_def)
    qed (use nr q Qq tl pri in \<open>auto simp: s2_def s1 nextready_upd nx1\<close>)
    then show ?thesis
      using e q core atfront
      by (intro that [OF e]) (simp_all add: sched_frame_def s2_def s1 sched_core_upd_proc enq_list_def)
  next
    case atback
    from atback ch have Qq: "Q q \<noteq> []" by auto
    define l where "l = last (Q q)"
    define s2 where "s2 = upd_proc rp (p_nextready_update (\<lambda>_. None))
      ((upd_proc l (p_nextready_update (\<lambda>_. Some rp)) s1)\<lparr>rdy_tail := (rdy_tail s)(q := Some rp)\<rparr>)"
    have e: "enqueue rp s = Some (pick_proc s2)"
      using atback tl [OF Qq] by (auto simp add: enqueue_def sch s1 s2_def Let_def l_def)
    have l: "l \<in> set (Q q)" "l \<noteq> rp" using Qq nr [OF q] by (auto simp: l_def)
    have nx2: "nextready s2 = (nextready s)(l := Some rp, rp := None)"
      using l(2) by (simp add: s2_def nextready_upd nx1)
    have "rqs (pick_proc s2) (Q(q := Q q @ [rp]))"
    proof (rule rqs_replace [OF R q])
      from ch Qq nr [OF q] have "chain (wr_nx (slot_after (Q q)) (Some rp) ((nextready s)(rp := None)))
          (wr_hd (slot_after (Q q)) (Some rp) (rdy_head s q)) (Q q @ rp # [])"
        by (intro chain_link) (simp_all add: rd_slot_after [of _ _ "Q q" "[]", simplified])
      with Qq have "chain ((nextready s)(rp := None, l := Some rp)) (rdy_head s q) (Q q @ [rp])"
        by (simp add: slot_after_def l_def)
      then show "chain (nextready (pick_proc s2)) (rdy_head (pick_proc s2) q) (Q q @ [rp])"
        using l(2) by (simp add: nx2 fun_upd_twist) (simp add: s2_def s1)
      show "nextready (pick_proc s2) n = nextready s n \<and>
          p_priority (procs (pick_proc s2) n) = p_priority (procs s n)"
        if "r \<in> queue_nrs" "r \<noteq> q" "n \<in> set (Q r)" for r n
      proof -
        from rqs_disjoint [OF R that(1) q that(3)] that(2) l(1) have "n \<noteq> l" by blast
        with nr [OF that(1)] that(3) show ?thesis by (auto simp: s2_def s1 nextready_upd nx1)
      qed
    qed (use nr q Qq tl pri l in \<open>auto simp: s2_def s1\<close>)
    then show ?thesis
      using e q core atback l(2)
      by (intro that [OF e]) (simp_all add: sched_frame_def s2_def s1 sched_core_upd_proc enq_list_def)
  qed
qed

subsection \<open>\<^verbatim>\<open>dequeue\<close>\<close>

lemma find_stable:
  "find P qs = Some q \<Longrightarrow> (\<And>x. P' x \<Longrightarrow> P x) \<Longrightarrow> P' q \<Longrightarrow> find P' qs = Some q"
  by (induction qs) (auto split: if_splits)

lemma find_none_mono: "find P qs = None \<Longrightarrow> (\<And>x. P' x \<Longrightarrow> P x) \<Longrightarrow> find P' qs = None"
  by (induction qs) (auto split: if_splits)

text \<open>Unlinking a process that is not \<^verbatim>\<open>next_ptr\<close> leaves the choice of \<^verbatim>\<open>next_ptr\<close> right.\<close>

lemma next_ok_unlink:
  assumes "next_ok s" "next_ptr s' = next_ptr s" "next_ptr s \<noteq> Some rp"
    and "\<And>r. rdy_head s' r = rdy_head s r \<or> rdy_head s r = Some rp"
  shows "next_ok s'"
proof (cases "find (\<lambda>q. rdy_head s q \<noteq> None) QUEUES")
  case None
  from None have "find (\<lambda>q. rdy_head s' q \<noteq> None) QUEUES = None"
    by (rule find_none_mono) (metis assms(4) option.distinct(1))
  then show ?thesis unfolding next_ok_def by simp
next
  case (Some q)
  with assms(1) have nq: "next_ptr s = rdy_head s q" unfolding next_ok_def by simp
  with assms(3,4) have hq: "rdy_head s' q = rdy_head s q" by metis
  from Some have "rdy_head s q \<noteq> None" by (simp only: find_Some_iff) blast
  with hq have "rdy_head s' q \<noteq> None" by simp
  with Some have "find (\<lambda>q. rdy_head s' q \<noteq> None) QUEUES = Some q"
    by (intro find_stable [OF Some]) (metis assms(4) option.distinct(1))+
  with nq hq assms(2) show ?thesis unfolding next_ok_def by simp
qed

lemma dequeue_spec:
  assumes R: "rqs s Q" and nx: "next_ok s" and q: "p_priority (procs s rp) = q" "q \<in> queue_nrs"
    and guard: "iskerneln (p_nr (procs s rp)) \<Longrightarrow> s_stack_guard (priv_of s rp) = STACK_GUARD"
  obtains s' where "dequeue rp s = Some s'" "rqs s' (Q(q := remove1 rp (Q q)))"
    "sched_frame s s'" "next_ok s'"
    "\<And>n. p_priority (procs s' n) = p_priority (procs s n)"
    "rp \<notin> set (Q q) \<Longrightarrow> s' = s"
proof -
  note ch = rqsD(1) [OF R q(2)] and tl = rqsD(2) [OF R q(2)] and pri = rqsD(3) [OF R q(2)]
  define us where "us = takeWhile (\<lambda>x. x \<noteq> rp) (Q q)"
  have find: "chain_find (\<lambda>x. x = rp) (rdy_head s q) (nextready s) Head = Some (slot_after us)"
    by (simp add: chain_find_chain [OF ch] us_def)
  show thesis
  proof (cases "rp \<in> set (Q q)")
    case False
    then have us: "us = Q q" by (simp add: us_def takeWhile_eq_all_conv) blast
    with ch have "rd (rdy_head s q) (nextready s) (slot_after us) = None"
      using rd_slot_after [of "nextready s" _ "Q q" "[]"] by simp
    then have "dequeue rp s = Some s"
      using guard find by (auto simp: dequeue_def Let_def q)
    moreover have "Q(q := remove1 rp (Q q)) = Q" using False by (simp add: remove1_idem)
    ultimately show ?thesis using R nx by (intro that) simp_all
  next
    case True
    obtain vs where Qq: "Q q = us @ rp # vs"
      using split_at_first [OF True] by (metis us_def)
    have "rp \<notin> set us" unfolding us_def by (rule takeWhile_neq_not_in)
    then have rm: "remove1 rp (Q q) = us @ vs" by (simp add: Qq remove1_append)
    have hit: "rd (rdy_head s q) (nextready s) (slot_after us) = Some rp"
      using rd_slot_after [OF ch [unfolded Qq]] by simp
    define s1 where "s1 = rdy_assign q (slot_after us) (nextready s rp) s"
    define s2 where "s2 = (if rdy_tail s1 q = Some rp
      then s1\<lparr>rdy_tail := (rdy_tail s1)(q := slot_prev (slot_after us))\<rparr> else s1)"
    define s3 where "s3 = (if proc_ptr s2 = Some rp \<or> next_ptr s2 = Some rp then pick_proc s2 else s2)"
    have d: "dequeue rp s = Some s3"
      using guard find hit by (auto simp: dequeue_def Let_def q s1_def s2_def s3_def)
    have h1: "rdy_head s2 q = wr_hd (slot_after us) (nextready s rp) (rdy_head s q)"
      and h2: "\<And>r. r \<noteq> q \<Longrightarrow> rdy_head s2 r = rdy_head s r"
      and t1: "\<And>r. rdy_tail s1 r = rdy_tail s r"
      and n1: "nextready s2 = wr_nx (slot_after us) (nextready s rp) (nextready s)"
      and p1: "\<And>n. p_priority (procs s2 n) = p_priority (procs s n)"
      and np: "next_ptr s2 = next_ptr s"
      and core: "sched_core s2 = sched_core s"
      by (simp_all add: s2_def s1_def slot_after_def nextready_upd sched_core_upd_proc)
    have R2: "rqs s2 (Q(q := remove1 rp (Q q)))"
    proof (rule rqs_replace [OF R q(2)])
      show "chain (nextready s2) (rdy_head s2 q) (remove1 rp (Q q))"
        using chain_unlink [OF ch [unfolded Qq]] by (simp add: h1 n1 rm)
      show "rdy_head s2 r = rdy_head s r \<and> rdy_tail s2 r = rdy_tail s r" if "r \<noteq> q" for r
        using that by (simp add: h2) (simp add: s2_def t1)
      show "nextready s2 n = nextready s n \<and> p_priority (procs s2 n) = p_priority (procs s n)"
        if "r \<in> queue_nrs" "r \<noteq> q" "n \<in> set (Q r)" for r n
      proof -
        have "n \<notin> set (Q q)" using rqs_disjoint [OF R that(1) q(2) that(3)] that(2) by blast
        then have "us \<noteq> [] \<Longrightarrow> n \<noteq> last us" by (auto simp: Qq)
        then show ?thesis by (simp add: n1 p1 slot_after_def)
      qed
      show "rdy_tail s2 q = Some (last (remove1 rp (Q q)))" if ne: "remove1 rp (Q q) \<noteq> []"
      proof (cases "vs = []")
        case True
        with ne rm Qq tl show ?thesis by (simp add: s2_def t1 slot_after_def)
      next
        case False
        then have "last vs \<noteq> rp" using chain_distinct [OF ch] by (auto simp: Qq)
        with False Qq tl rm show ?thesis by (simp add: s2_def t1)
      qed
      show "p_priority (procs s2 n) = q" if "n \<in> set (remove1 rp (Q q))" for n
        using pri [of n] set_remove1_subset [of rp "Q q"] that p1 by auto
    qed
    have "rdy_head s2 r = rdy_head s r \<or> rdy_head s r = Some rp" for r
      using ch Qq by (cases "r = q"; cases us) (simp_all add: h1 h2 slot_after_def)
    then have "next_ptr s \<noteq> Some rp \<Longrightarrow> next_ok s2"
      using next_ok_unlink [OF nx np] by blast
    with np have "next_ok s3" by (simp add: s3_def)
    moreover from R2 have "rqs s3 (Q(q := remove1 rp (Q q)))" by (simp add: s3_def)
    moreover from core have "sched_frame s s3" by (simp add: s3_def sched_frame_def)
    moreover from p1 have "p_priority (procs s3 n) = p_priority (procs s n)" for n
      by (simp add: s3_def)
    ultimately show ?thesis using True d by (intro that [of s3]) blast+
  qed
qed

subsection \<open>The contract of the run queues\<close>

lemma sched_core_sched:
  assumes "sched rp s = (q, front, s1)" shows "sched_core s1 = sched_core s"
proof (cases "0 < p_ticks_left (procs s rp)")
  case True
  with assms show ?thesis by (simp add: sched_def)
next
  case False
  have c: "sched_core ((upd_proc rp (p_ticks_left_update f) s)\<lparr>sched_prev := a\<rparr>) = sched_core s" for f a
    by (simp add: sched_core_upd_proc proc_core_def)
  show ?thesis
  proof (cases "iskerneln (p_nr (procs s rp))")
    case True
    with False assms have "s1 = (upd_proc rp (p_ticks_left_update (\<lambda>_. p_quantum_size (procs s rp))) s)
        \<lparr>sched_prev := Some rp\<rparr>" by (simp add: sched_def Let_def)
    then show ?thesis by (simp only: c)
  next
    case user: False
    from sched_expired_user [OF False user] assms show ?thesis
      using c by (auto simp: sched_core_upd_proc)
  qed
qed

text \<open>Whatever the queues look like, enqueueing and dequeueing change scheduling data only.\<close>

lemma enqueue_frame:
  assumes "enqueue rp s = Some s'" shows "sched_frame s s'"
proof -
  obtain q front s1 where sch: "sched rp s = (q, front, s1)" by (cases "sched rp s")
  from sched_core_sched [OF sch] assms show ?thesis
    unfolding sched_frame_def enqueue_def sch
    by (auto simp: Let_def sched_core_upd_proc proc_core_def split: if_splits option.splits)
qed

lemma dequeue_frame:
  assumes "dequeue rp s = Some s'" shows "sched_frame s s'"
proof -
  have a: "sched_core (rdy_assign q sl v s) = sched_core s" for q sl v
    by (cases sl) (simp_all add: sched_core_upd_proc proc_core_def)
  from assms show ?thesis
    unfolding sched_frame_def dequeue_def
    by (auto simp: Let_def a split: if_splits option.splits)
qed

lemma rts_unset_frame:
  assumes "rts_unset F n s = Some s'"
  shows "sched_frame (upd_proc n (p_rts_flags_update (\<lambda>f. f - F)) s) s'"
  using assms enqueue_frame by (auto simp: rts_unset_def Let_def split: if_splits)

text \<open>
  What the rest of the kernel relies on: \<open>enq\<close> and \<open>deq\<close> always return, add and remove one
  process, and change nothing but scheduling data; the queues do not depend on the run-time flags.
  The client lemmas are about the two flag idioms, written over \<open>enq\<close> and \<open>deq\<close>.
\<close>

locale run_queues =
  fixes enq deq :: "int \<Rightarrow> kstate \<Rightarrow> kstate option"
    and queued :: "kstate \<Rightarrow> int set \<Rightarrow> bool"
  assumes enq_adds: "queued s R \<Longrightarrow> isokprocn n \<Longrightarrow> n \<notin> R \<Longrightarrow>
      \<exists>s'. enq n s = Some s' \<and> queued s' (insert n R) \<and> sched_frame s s'"
    and deq_removes: "queued s R \<Longrightarrow> isokprocn n \<Longrightarrow>
      \<exists>s'. deq n s = Some s' \<and> queued s' (R - {n}) \<and> sched_frame s s'"
    and flags_irrelevant: "queued (upd_proc n (p_rts_flags_update f) s) R = queued s R"
begin

definition runnable :: "kstate \<Rightarrow> int set" where
  "runnable s = {n. isokprocn n \<and> p_rts_flags (procs s n) = {}}"

definition consistent :: "kstate \<Rightarrow> bool" where
  "consistent s \<longleftrightarrow> queued s (runnable s)"

lemma runnable_frame: "sched_frame s s' \<Longrightarrow> runnable s' = runnable s"
  by (simp add: runnable_def sched_frameD)

lemma unset_consistent:
  assumes "consistent s" "isokprocn n" "p_rts_flags (procs s n) \<noteq> {}"
  shows "\<exists>s'. (let s1 = upd_proc n (p_rts_flags_update (\<lambda>f. f - F)) s in
       if p_rts_flags (procs s1 n) = {} then enq n s1 else Some s1) = Some s' \<and>
     consistent s' \<and> sched_frame (upd_proc n (p_rts_flags_update (\<lambda>f. f - F)) s) s'"
proof -
  define s1 where "s1 = upd_proc n (p_rts_flags_update (\<lambda>f. f - F)) s"
  from assms(1) have q1: "queued s1 (runnable s)"
    by (simp add: consistent_def s1_def flags_irrelevant)
  have n: "n \<notin> runnable s" using assms(3) by (simp add: runnable_def)
  show ?thesis
  proof (cases "p_rts_flags (procs s1 n) = {}")
    case True
    then have "runnable s1 = insert n (runnable s)"
      using assms(2) by (auto simp: runnable_def s1_def)
    moreover obtain s' where "enq n s1 = Some s'" "queued s' (insert n (runnable s))" "sched_frame s1 s'"
      using enq_adds [OF q1 assms(2) n] by blast
    ultimately show ?thesis
      using True by (simp add: s1_def [symmetric] consistent_def runnable_frame)
  next
    case False
    then have "runnable s1 = runnable s"
      using assms(3) by (auto simp: runnable_def s1_def)
    with False q1 show ?thesis by (simp add: s1_def [symmetric] consistent_def)
  qed
qed

lemma set_consistent:
  assumes "consistent s" "isokprocn n" "F \<noteq> {}"
  shows "\<exists>s' s1. (if p_rts_flags (procs s n) = {} then deq n s else Some s) = Some s1 \<and>
     sched_frame s s1 \<and> s' = upd_proc n (p_rts_flags_update (\<lambda>f. f \<union> F)) s1 \<and> consistent s'"
proof (cases "p_rts_flags (procs s n) = {}")
  case True
  obtain s1 where s1: "deq n s = Some s1" "queued s1 (runnable s - {n})" "sched_frame s s1"
    using deq_removes assms(1,2) unfolding consistent_def by blast
  have "runnable (upd_proc n (p_rts_flags_update (\<lambda>f. f \<union> F)) s1) = runnable s - {n}"
    using assms(3) runnable_frame [OF s1(3)] by (auto simp: runnable_def)
  with s1 True show ?thesis by (simp add: consistent_def flags_irrelevant)
next
  case False
  then have "runnable (upd_proc n (p_rts_flags_update (\<lambda>f. f \<union> F)) s) = runnable s"
    by (auto simp: runnable_def)
  with False assms(1) show ?thesis by (simp add: consistent_def flags_irrelevant)
qed

end

lemma sched_wf_mono:
  assumes "sched_wf s" "sched_frame s s'" "\<And>n. isokprocn n \<Longrightarrow> prio_ok (procs s' n)"
  shows "sched_wf s'"
  using assms by (simp add: sched_wf_def sched_frameD sched_frame_priv_of)

lemma enqueue_on_ready:
  assumes "on_ready s R" "isokprocn n" "n \<notin> R"
  shows "\<exists>s'. enqueue n s = Some s' \<and> on_ready s' (insert n R) \<and> sched_frame s s'"
proof -
  from assms(1) obtain Q where Q: "rqs s Q" "R = ready_set Q" and wf: "sched_wf s"
    by (auto simp: on_ready_def)
  obtain q front s1 where sch: "sched n s = (q, front, s1)" by (cases "sched n s")
  from wf assms(2) have ok: "prio_ok (procs s n)" by (simp add: sched_wf_def)
  obtain s' where s': "enqueue n s = Some s'" "rqs s' (Q(q := enq_list front n (Q q)))"
    "sched_frame s s'" "next_ok s'" "p_priority (procs s' n) = q"
    "\<And>m. m \<noteq> n \<Longrightarrow> p_priority (procs s' m) = p_priority (procs s m)" "q \<in> queue_nrs"
    using enqueue_spec [OF Q(1) ok _ sch] assms(3) Q(2) by blast
  have "prio_ok (procs s' m)" if "isokprocn m" for m
    using wf that s'(5-7) ok by (cases "m = n")
      (simp_all add: sched_wf_def prio_ok_def sched_frameD [OF s'(3)] queue_numbers)
  then have "sched_wf s'" by (rule sched_wf_mono [OF wf s'(3)])
  moreover have "ready_set (Q(q := enq_list front n (Q q))) = insert n R"
    using ready_setI [OF s'(7), of _ Q] Q(2)
    by (auto simp: ready_set_update [OF s'(7) Q(1)] enq_list_def)
  ultimately show ?thesis using s' by (auto simp: on_ready_def)
qed

lemma dequeue_on_ready:
  assumes "on_ready s R" "isokprocn n"
  shows "\<exists>s'. dequeue n s = Some s' \<and> on_ready s' (R - {n}) \<and> sched_frame s s'"
proof -
  from assms(1) obtain Q where Q: "rqs s Q" "R = ready_set Q" and wf: "sched_wf s" and nx: "next_ok s"
    by (auto simp: on_ready_def)
  define q where "q = p_priority (procs s n)"
  from wf assms(2) have q: "p_priority (procs s n) = q" "q \<in> queue_nrs"
    and g: "iskerneln (p_nr (procs s n)) \<Longrightarrow> s_stack_guard (priv_of s n) = STACK_GUARD"
    by (auto simp: sched_wf_def prio_ok_def queue_numbers q_def)
  obtain s' where s': "dequeue n s = Some s'" "rqs s' (Q(q := remove1 n (Q q)))"
    "sched_frame s s'" "next_ok s'" "\<And>m. p_priority (procs s' m) = p_priority (procs s m)"
    using dequeue_spec [OF Q(1) nx q g] by blast
  have "prio_ok (procs s' m)" if "isokprocn m" for m
    using wf that s'(5) by (simp add: sched_wf_def prio_ok_def sched_frameD [OF s'(3)])
  then have "sched_wf s'" by (rule sched_wf_mono [OF wf s'(3)])
  moreover have "n \<in> set (Q r) \<Longrightarrow> r = q" if "r \<in> queue_nrs" for r
    using rqsD(3) [OF Q(1) that] q(1) by simp
  then have "n \<in> R \<Longrightarrow> n \<in> set (Q q)" unfolding Q(2) ready_set_def by blast
  then have "ready_set (Q(q := remove1 n (Q q))) = R - {n}"
    using ready_setI [OF q(2), of _ Q] Q(2) chain_distinct [OF rqsD(1) [OF Q(1) q(2)]]
    by (auto simp: ready_set_update [OF q(2) Q(1)])
  ultimately show ?thesis using s' by (auto simp: on_ready_def)
qed

text \<open>The part of the state on which the queues depend.\<close>

definition sched_view :: "proc \<Rightarrow> int \<times> int \<times> int \<times> int option \<times> nat" where
  "sched_view p = (p_nr p, p_priority p, p_max_priority p, p_nextready p, p_priv p)"

lemma on_ready_cong:
  assumes "\<And>n. sched_view (procs s' n) = sched_view (procs s n)" "rdy_head s' = rdy_head s"
    "rdy_tail s' = rdy_tail s" "next_ptr s' = next_ptr s"
    "\<And>i. s_stack_guard (privs s' i) = s_stack_guard (privs s i)"
  shows "on_ready s' R = on_ready s R"
  using assms
  by (simp add: on_ready_def sched_wf_def rqs_def next_ok_def prio_ok_def nextready_def [abs_def]
      sched_view_def priv_of_def)

interpretation rq: run_queues enqueue dequeue on_ready
proof
  show "on_ready (upd_proc n (p_rts_flags_update f) s) R = on_ready s R" for n f s R
    by (rule on_ready_cong) (simp_all add: sched_view_def)
qed (fact enqueue_on_ready dequeue_on_ready)+

text \<open>
  The invariant of the scheduler: the queues are well formed and hold exactly the processes with no
  run-time flag set, and \<^verbatim>\<open>next_ptr\<close> is the first one of the best queue.
\<close>

definition sched_inv :: "kstate \<Rightarrow> bool" where
  "sched_inv s \<longleftrightarrow> on_ready s {n. isokprocn n \<and> p_rts_flags (procs s n) = {}}"

lemma sched_inv_consistent: "rq.consistent s \<longleftrightarrow> sched_inv s"
  by (simp add: sched_inv_def rq.consistent_def rq.runnable_def)

lemma rts_unset_inv:
  assumes "sched_inv s" "isokprocn n" "p_rts_flags (procs s n) \<noteq> {}"
  obtains s' where "rts_unset F n s = Some s'" "sched_inv s'"
    "sched_frame (upd_proc n (p_rts_flags_update (\<lambda>f. f - F)) s) s'"
  using rq.unset_consistent [of s n F] assms
  unfolding sched_inv_consistent rts_unset_def [symmetric] by blast

lemma rts_set_inv:
  assumes "sched_inv s" "isokprocn n" "F \<noteq> {}"
  obtains s1 where "rts_set F n s = Some (upd_proc n (p_rts_flags_update (\<lambda>f. f \<union> F)) s1)"
    "sched_frame s s1" "sched_inv (upd_proc n (p_rts_flags_update (\<lambda>f. f \<union> F)) s1)"
proof -
  obtain s1 where s1: "(if p_rts_flags (procs s n) = {} then dequeue n s else Some s) = Some s1"
    "sched_frame s s1" "sched_inv (upd_proc n (p_rts_flags_update (\<lambda>f. f \<union> F)) s1)"
    using rq.set_consistent [of s n F] assms unfolding sched_inv_consistent by blast
  then have "rts_set F n s = Some (upd_proc n (p_rts_flags_update (\<lambda>f. f \<union> F)) s1)"
    unfolding rts_set_def s1(1) by simp
  with s1 show thesis by (intro that)
qed

text \<open>Updates that do not concern scheduling.\<close>

lemma sched_inv_cong:
  assumes "\<And>n. sched_view (procs s' n) = sched_view (procs s n)" "rdy_head s' = rdy_head s"
    "rdy_tail s' = rdy_tail s" "next_ptr s' = next_ptr s"
    "\<And>i. s_stack_guard (privs s' i) = s_stack_guard (privs s i)"
    "\<And>n. isokprocn n \<Longrightarrow> p_rts_flags (procs s' n) = {} \<longleftrightarrow> p_rts_flags (procs s n) = {}"
  shows "sched_inv s' = sched_inv s"
proof -
  have "{n. isokprocn n \<and> p_rts_flags (procs s' n) = {}} = {n. isokprocn n \<and> p_rts_flags (procs s n) = {}}"
    using assms(6) by blast
  then show ?thesis unfolding sched_inv_def using on_ready_cong [OF assms(1-5)] by simp
qed

text \<open>A process that is on no queue may get a new priority, new links and a new identity.\<close>

lemma on_ready_upd_absent:
  assumes R: "on_ready s R" and n: "n \<notin> R" and p: "prio_ok (f (procs s n))" "p_nr (f (procs s n)) = n"
    and g: "iskerneln n \<Longrightarrow> p_priv (f (procs s n)) = p_priv (procs s n)"
  shows "on_ready (upd_proc n f s) R"
proof -
  from R obtain Q where Q: "rqs s Q" "R = ready_set Q" by (auto simp: on_ready_def)
  have abs: "n \<notin> set (Q q)" if "q \<in> queue_nrs" for q
    using n ready_setI [OF that, of n Q] Q(2) by blast
  have "rqs (upd_proc n f s) Q"
    unfolding rqs_def
  proof (intro ballI conjI)
    fix q assume q: "q \<in> queue_nrs"
    show "chain (nextready (upd_proc n f s)) (rdy_head (upd_proc n f s) q) (Q q)"
      using rqsD(1) [OF Q(1) q] abs [OF q] by (simp add: nextready_upd chain_upd)
    show "Q q \<noteq> [] \<longrightarrow> rdy_tail (upd_proc n f s) q = Some (last (Q q))"
      using rqsD(2) [OF Q(1) q] by simp
    show "p_priority (procs (upd_proc n f s) m) = q" if "m \<in> set (Q q)" for m
      using rqsD(3) [OF Q(1) q that] that abs [OF q] by auto
  qed
  moreover have "sched_wf (upd_proc n f s)"
    using R p g by (auto simp: on_ready_def sched_wf_def priv_of_def)
  moreover from R have "next_ok s" by (simp only: on_ready_def)
  then have "next_ok (upd_proc n f s)" by (simp only: next_ok_def upd_proc_sel)
  ultimately show ?thesis using Q(2) by (auto simp: on_ready_def)
qed

lemma sched_inv_upd_absent:
  assumes "sched_inv s" "isokprocn n" "p_rts_flags (procs s n) \<noteq> {}"
    "prio_ok (f (procs s n))" "p_nr (f (procs s n)) = n" "p_rts_flags (f (procs s n)) \<noteq> {}"
    "iskerneln n \<Longrightarrow> p_priv (f (procs s n)) = p_priv (procs s n)"
  shows "sched_inv (upd_proc n f s)"
proof -
  have "{m. isokprocn m \<and> p_rts_flags (procs (upd_proc n f s) m) = {}} = {m. isokprocn m \<and> p_rts_flags (procs s m) = {}}"
    using assms(3,6) by auto
  moreover have "on_ready (upd_proc n f s) {m. isokprocn m \<and> p_rts_flags (procs s m) = {}}"
    using assms by (intro on_ready_upd_absent) (auto simp: sched_inv_def)
  ultimately show ?thesis by (simp add: sched_inv_def)
qed

subsection \<open>A concrete state\<close>

text \<open>
  A small running system, used to apply the theorems to a concrete input: IDLE in queue 15, PM (0)
  and FS (1) in queue 3; CLOCK, SYSTEM, RS (2) and LOG (4) blocked receiving from ANY; every other slot free.
\<close>

definition demo_frame :: stackframe where
  "demo_frame = \<lparr>reg_gs = 0, reg_fs = 0, reg_es = 0, reg_ds = 0, reg_di = 0, reg_si = 0, reg_fp = 0,
     reg_st = 0, reg_bx = 0, reg_dx = 0, reg_cx = 0, reg_retreg = 0, reg_retadr = 0, reg_pc = 0,
     reg_cs = 0, reg_psw = 0, reg_sp = 0, reg_ss = 0\<rparr>"

definition demo_proc :: "int \<Rightarrow> proc" where
  "demo_proc n = \<lparr>p_reg = demo_frame, p_ldt_sel = 0,
     p_ldt = (\<lambda>_. \<lparr>limit_low = 0, base_low = 0, base_middle = 0, seg_access = 0, granularity = 0, base_high = 0\<rparr>),
     p_nr = n,
     p_priv = (if n = - 4 then 0 else if n = 0 then 1 else if n = 1 then 2 else if n = 2 then 3
               else if n = - 2 then 4 else if n = 4 then 5 else if n = - 3 then 6
               else if n = - 1 then 7 else 32),
     p_rts_flags = (if n = - 4 \<or> n = 0 \<or> n = 1 then {}
                    else if n = - 3 \<or> n = - 2 \<or> n = 2 \<or> n = 4 then {RECEIVING} else {SLOT_FREE}),
     p_priority = (if n = - 4 then 15 else 3), p_max_priority = (if n = - 4 then 15 else 3),
     p_ticks_left = 8, p_quantum_size = 8,
     p_memmap = (\<lambda>_. \<lparr>mem_vir = 0, mem_phys = 4 * word_of_int n, mem_len = 4\<rparr>),
     p_user_time = 0, p_sys_time = 0,
     p_nextready = (if n = 0 then Some 1 else None), p_caller_q = None, p_q_link = None,
     p_messbuf = 0x100, p_getfrom = 31438, p_sendto = 0, p_pending = 0, p_name = ''demo''\<rparr>"

definition demo_priv :: "nat \<Rightarrow> priv" where
  "demo_priv i = \<lparr>s_proc_nr = (if i = 0 then - 4 else if i < 4 then int i - 1
                  else if i = 4 then - 2 else if i = 5 then 4 else if i = 6 then - 3
                  else if i = 7 then - 1 else 27342),
     s_id = i, s_flags = {PREEMPTIBLE, BILLABLE, SYS_PROC}, s_trap_mask = 0xFFFF,
     s_ipc_from = (\<lambda>_. 0xFFFF), s_ipc_to = (\<lambda>_. 0xFFFF), s_call_mask = 0xFFFFFFFF,
     s_notify_pending = (\<lambda>_. 0), s_int_pending = 0, s_sig_pending = 0,
     s_farmem = (\<lambda>_. \<lparr>in_use = False, far_phys = 0, far_len = 0\<rparr>), s_stack_guard = STACK_GUARD\<rparr>"

definition demo_state :: kstate where
  "demo_state = \<lparr>procs = demo_proc, privs = demo_priv,
     rdy_head = (\<lambda>q. if q = 15 then Some (- 4) else if q = 3 then Some 0 else None),
     rdy_tail = (\<lambda>q. if q = 15 then Some (- 4) else if q = 3 then Some 1 else None),
     proc_ptr = Some 0, next_ptr = Some 0, bill_ptr = Some 0, prev_ptr = None, sched_prev = None,
     k_timers = (\<lambda>_. \<lparr>tmr_next = None, tmr_exp_time = TMR_NEVER, tmr_func = cause_alarm_fn, tmr_arg = 0\<rparr>),
     clock_timers = None, next_timeout = TMR_NEVER, realtime = 0, lost_ticks = 0,
     irq_hooks = (\<lambda>_. \<lparr>ih_next = None, ih_handler = generic_handler_fn, ih_irq = 0, ih_id = 0,
        ih_proc_nr = 27342, ih_notify_id = 0, ih_policy = 0\<rparr>),
     irq_handlers = (\<lambda>_. None), irq_actids = (\<lambda>_. 0), irq_use = 0,
     kmess = \<lparr>km_next = 0, km_size = 0, km_buf = (\<lambda>_. CHR 0x00)\<rparr>, shutdown_started = False,
     k_mess_buf = 0x800, k_mem = (\<lambda>_. 0),
     krandom = (\<lambda>_. \<lparr>r_next = 0, r_size = 0, r_buf = (\<lambda>_. 0)\<rparr>), pic_mask = 0xFFFF,
     dev_log = [], dev_in = (\<lambda>_. 0), dev_rd = 0,
     machine = \<lparr>mi_processor = 386, mi_ps_mca = False, mi_protected = True\<rparr>\<rparr>"

lemma demo_sel [simp]:
  "procs demo_state = demo_proc" "privs demo_state = demo_priv" "proc_ptr demo_state = Some 0"
  "next_ptr demo_state = Some 0" "sched_prev demo_state = None" "clock_timers demo_state = None"
  "realtime demo_state = 0" "shutdown_started demo_state = False" "k_mess_buf demo_state = 0x800"
  "k_mem demo_state = (\<lambda>_. 0)"
  by (simp_all add: demo_state_def)

definition demo_queues :: "int \<Rightarrow> int list" where
  "demo_queues q = (if q = 15 then [- 4] else if q = 3 then [0, 1] else [])"

lemma demo_rqs: "rqs demo_state demo_queues"
  by (auto simp: rqs_def queue_numbers demo_queues_def demo_state_def nextready_def demo_proc_def)

lemma demo_ready: "ready_set demo_queues = {- 4, 0, 1}"
proof
  have "15 \<in> queue_nrs" "3 \<in> queue_nrs" by (simp_all add: queue_numbers)
  then show "{- 4, 0, 1} \<subseteq> ready_set demo_queues"
    using ready_setI [of 15 _ demo_queues] ready_setI [of 3 _ demo_queues] by (simp add: demo_queues_def)
qed (auto simp: ready_set_def demo_queues_def split: if_splits)

lemma demo_runnable: "{n. isokprocn n \<and> p_rts_flags (procs demo_state n) = {}} = {- 4, 0, 1}"
  by (auto simp: demo_state_def demo_proc_def isokprocn_def)

lemma demo_next_ok: "next_ok demo_state"
  by (simp add: next_ok_def demo_state_def)

lemma demo_sched_wf: "sched_wf demo_state"
  by (auto simp: sched_wf_def demo_state_def demo_proc_def prio_ok_def priv_of_def demo_priv_def)

lemma demo_sched_inv: "sched_inv demo_state"
  unfolding sched_inv_def on_ready_def demo_runnable
  using demo_rqs demo_ready demo_next_ok demo_sched_wf by blast

subsection \<open>Properties\<close>

text \<open>
  \<^verbatim>\<open>sched\<close>, for a user process: with time left, the process keeps its queue and goes to the
  front; a process that used up its quantum gets a new one and goes to the back, one queue lower
  when it was also the previous process to do so and one queue higher otherwise, but never above
  its own maximum priority nor into the queue of IDLE. The arithmetic in a \<^verbatim>\<open>char\<close> does not wrap.
\<close>

theorem sched_user_process:
  assumes "prio_ok (procs s rp)" "p_max_priority (procs s rp) < IDLE_Q" "0 \<le> p_nr (procs s rp)"
  shows "sched rp s =
    (let p = procs s rp in
     if 0 < p_ticks_left p then (p_priority p, True, s)
     else let q = max (p_max_priority p)
                (min (IDLE_Q - 1) (p_priority p + (if sched_prev s = Some rp then 1 else - 1)))
          in (q, False, s\<lparr>procs := (procs s)(rp := p\<lparr>p_ticks_left := p_quantum_size p, p_priority := q\<rparr>),
                         sched_prev := Some rp\<rparr>))"
proof (cases "0 < p_ticks_left (procs s rp)")
  case False
  have "schar (p_priority (procs s rp) + 1) = p_priority (procs s rp) + 1"
    "schar (p_priority (procs s rp) - 1) = p_priority (procs s rp) - 1"
    using assms(1) by (simp_all add: prio_ok_def)
  with assms(2) have "expired_priority rp s = max (p_max_priority (procs s rp))
      (min (IDLE_Q - 1) (p_priority (procs s rp) + (if sched_prev s = Some rp then 1 else - 1)))"
    by (simp add: expired_priority_def Let_def max_def min_def)
  with False assms(3) show ?thesis
    by (simp add: sched_expired_user iskerneln_def upd_proc_def Let_def split del: if_split)
qed (simp add: sched_def Let_def)

theorem sched_user_process_witness:
  "fst (sched 0 (upd_proc 0 (p_ticks_left_update (\<lambda>_. 0)) demo_state)) = 3 \<and>
   fst (sched 0 ((upd_proc 0 (p_ticks_left_update (\<lambda>_. 0)) demo_state)\<lparr>sched_prev := Some 0\<rparr>)) = 4"
  using sched_user_process [of "upd_proc 0 (p_ticks_left_update (\<lambda>_. 0)) demo_state" 0]
    sched_user_process [of "(upd_proc 0 (p_ticks_left_update (\<lambda>_. 0)) demo_state)\<lparr>sched_prev := Some 0\<rparr>" 0]
  by (simp add: demo_state_def demo_proc_def prio_ok_def Let_def)

text \<open>
  C28. \<^verbatim>\<open>enqueue\<close> refines insertion into one of sixteen lists: it returns, the list that \<^verbatim>\<open>sched\<close>
  selected gets the process at its front or its end, the other lists are unchanged, \<^verbatim>\<open>rdy_tail\<close> and
  the links are right again, and \<^verbatim>\<open>next_ptr\<close> is the head of the first non-empty queue.
\<close>

theorem enqueue_refines:
  assumes "rqs s Q" "prio_ok (procs s rp)" "rp \<notin> ready_set Q" "sched rp s = (q, front, s1)"
  shows "\<exists>s'. enqueue rp s = Some s' \<and>
    rqs s' (Q(q := if front then rp # Q q else Q q @ [rp])) \<and> next_ok s' \<and> sched_frame s s'"
  using enqueue_spec [OF assms] unfolding enq_list_def by metis

theorem enqueue_refines_witness:
  "\<exists>s'. enqueue 2 demo_state = Some s' \<and> rqs s' (demo_queues(3 := [2, 0, 1])) \<and> next_ok s' \<and>
     sched_frame demo_state s'"
  using enqueue_refines [OF demo_rqs, of 2 3 True demo_state] unfolding demo_ready
  by (simp add: demo_state_def demo_proc_def prio_ok_def sched_def demo_queues_def)

text \<open>
  C29. \<^verbatim>\<open>dequeue\<close> refines removal: it returns, the process leaves the list of its priority, the
  other lists are unchanged, and \<^verbatim>\<open>next_ptr\<close> is again the head of the first non-empty queue although
  it is recomputed only when the process was \<^verbatim>\<open>proc_ptr\<close> or \<^verbatim>\<open>next_ptr\<close>.
\<close>

theorem dequeue_refines:
  assumes "rqs s Q" "next_ok s" "p_priority (procs s rp) \<in> {0..IDLE_Q}"
    and "iskerneln (p_nr (procs s rp)) \<Longrightarrow> s_stack_guard (priv_of s rp) = STACK_GUARD"
  shows "\<exists>s'. dequeue rp s = Some s' \<and> next_ok s' \<and> sched_frame s s' \<and>
    rqs s' (Q(p_priority (procs s rp) := remove1 rp (Q (p_priority (procs s rp)))))"
  using dequeue_spec [OF assms(1,2) refl _ assms(4)] assms(3) unfolding queue_nrs_def by metis

theorem dequeue_refines_witness:
  "\<exists>s'. dequeue 0 demo_state = Some s' \<and> next_ok s' \<and> sched_frame demo_state s' \<and>
     rqs s' (demo_queues(3 := [1]))"
  using dequeue_refines [OF demo_rqs demo_next_ok, of 0]
  by (simp add: demo_state_def demo_proc_def iskerneln_def demo_queues_def)

text \<open>
  The steps in which the kernel changes who is ready: it blocks a process, it clears flags of a
  blocked process, and it moves a ready process whose quantum is used up to the end of a queue.
\<close>

definition ready :: "kstate \<Rightarrow> int \<Rightarrow> bool" where
  "ready s n \<longleftrightarrow> isokprocn n \<and> p_rts_flags (procs s n) = {}"

definition requeue :: "int \<Rightarrow> kstate \<Rightarrow> kstate option" where
  "requeue n s = do { s1 \<leftarrow> lock_dequeue n s; lock_enqueue n s1 }"

inductive sched_step :: "kstate \<Rightarrow> kstate \<Rightarrow> bool" where
  block: "isokprocn n \<Longrightarrow> F \<noteq> {} \<Longrightarrow> rts_set F n s = Some t \<Longrightarrow> sched_step s t"
| unblock: "isokprocn n \<Longrightarrow> \<not> ready s n \<Longrightarrow> rts_unset F n s = Some t \<Longrightarrow> sched_step s t"
| preempt: "ready s n \<Longrightarrow> requeue n s = Some t \<Longrightarrow> sched_step s t"

lemma requeue_spec:
  assumes "sched_inv s" "ready s n"
  obtains s1 t where "dequeue n s = Some s1" "enqueue n s1 = Some t" "requeue n s = Some t"
    "sched_inv t" "sched_frame s t"
proof -
  let ?R = "{m. isokprocn m \<and> p_rts_flags (procs s m) = {}}"
  have n: "isokprocn n" "n \<in> ?R" using assms(2) by (simp_all add: ready_def)
  obtain s1 where s1: "dequeue n s = Some s1" "on_ready s1 (?R - {n})" "sched_frame s s1"
    using dequeue_on_ready [of s ?R n] assms(1) n(1) unfolding sched_inv_def by blast
  obtain t where t: "enqueue n s1 = Some t" "on_ready t (insert n (?R - {n}))" "sched_frame s1 t"
    using enqueue_on_ready [OF s1(2) n(1)] by blast
  have "insert n (?R - {n}) = ?R" using n(2) by blast
  moreover have "?R = {m. isokprocn m \<and> p_rts_flags (procs t m) = {}}"
    by (simp add: sched_frameD [OF sched_frame_trans [OF s1(3) t(3)]])
  ultimately have "sched_inv t" using t(2) unfolding sched_inv_def by simp
  with s1(1) t(1) sched_frame_trans [OF s1(3) t(3)] show thesis
    by (intro that [of s1 t]) (simp_all add: requeue_def lock_dequeue_def lock_enqueue_def)
qed

lemma sched_step_inv: "sched_step s t \<Longrightarrow> sched_inv s \<Longrightarrow> sched_inv t"
proof (induction rule: sched_step.induct)
  case (block n F s t)
  then show ?case by (metis rts_set_inv option.inject)
next
  case (unblock n s F t)
  then show ?case by (metis rts_unset_inv option.inject ready_def)
next
  case (preempt s n t)
  then show ?case by (metis requeue_spec option.inject)
qed

lemma sched_steps_inv: "sched_step\<^sup>*\<^sup>* s t \<Longrightarrow> sched_inv s \<Longrightarrow> sched_inv t"
  by (induction rule: rtranclp_induct) (auto intro: sched_step_inv)

lemma sched_inv_best:
  assumes "sched_inv s" "ready s n"
  obtains m where "next_ptr s = Some m" "ready s m" "rdy_head s (p_priority (procs s m)) = Some m"
    "\<And>k. ready s k \<Longrightarrow> p_priority (procs s m) \<le> p_priority (procs s k)"
proof -
  from assms(1) obtain Q where Q: "rqs s Q" and nx: "next_ok s"
    and R: "{n. isokprocn n \<and> p_rts_flags (procs s n) = {}} = ready_set Q"
    by (auto simp: sched_inv_def on_ready_def)
  have rdy: "ready s k \<longleftrightarrow> k \<in> ready_set Q" for k using R unfolding ready_def by blast
  have first: "\<exists>m r. next_ptr s = Some m \<and> m \<in> set (Q r) \<and> rdy_head s r = Some m \<and> r \<in> queue_nrs \<and>
      find (\<lambda>q. rdy_head s q \<noteq> None) QUEUES = Some r \<and> r \<le> p_priority (procs s k)" if k: "ready s k" for k
  proof -
    from k obtain q where q: "q \<in> queue_nrs" "k \<in> set (Q q)" unfolding rdy ready_set_def by blast
    from rqsD(1) [OF Q q(1)] q(2) have "rdy_head s q \<noteq> None" by (cases "Q q") auto
    then obtain r where r: "find (\<lambda>q. rdy_head s q \<noteq> None) QUEUES = Some r" "r \<in> queue_nrs" "r \<le> q"
      and hr: "rdy_head s r \<noteq> None"
      using find_first_queue [of "\<lambda>q. rdy_head s q \<noteq> None", OF _ q(1)] by blast
    from hr obtain m where m: "rdy_head s r = Some m" by blast
    with rqsD(1) [OF Q r(2)] have "m \<in> set (Q r)" by (cases "Q r") auto
    moreover have "next_ptr s = Some m" using nx unfolding next_ok_def r(1) by (simp add: m)
    ultimately show ?thesis using m r rqsD(3) [OF Q q] by auto
  qed
  obtain m r where m: "next_ptr s = Some m" "m \<in> set (Q r)" "rdy_head s r = Some m" "r \<in> queue_nrs"
    "find (\<lambda>q. rdy_head s q \<noteq> None) QUEUES = Some r" using first [OF assms(2)] by blast
  have pm: "p_priority (procs s m) = r" by (rule rqsD(3) [OF Q m(4,2)])
  have "r \<le> p_priority (procs s k)" if "ready s k" for k
    using first [OF that] m(5) by auto
  with m(1-3) pm ready_setI [OF m(4), of m Q] show thesis by (intro that [of m]) (simp_all add: rdy)
qed

text \<open>
  C5. \<^verbatim>\<open>enqueue\<close>, \<^verbatim>\<open>dequeue\<close> and \<^verbatim>\<open>pick_proc\<close> keep the choice of the next process right: from a
  state that satisfies the scheduler's invariant, after any sequence of blocking, unblocking and
  requeueing steps, \<^verbatim>\<open>next_ptr\<close> is a ready process at the head of its queue, and no ready process
  has a better (smaller) priority. Every further such step is possible: it returns.
\<close>

theorem next_ptr_highest_priority:
  assumes "sched_inv s" "sched_step\<^sup>*\<^sup>* s t" "ready t n"
  shows "(\<exists>m. next_ptr t = Some m \<and> ready t m \<and> rdy_head t (p_priority (procs t m)) = Some m \<and>
      (\<forall>k. ready t k \<longrightarrow> p_priority (procs t m) \<le> p_priority (procs t k))) \<and>
    (\<forall>k F. isokprocn k \<longrightarrow> F \<noteq> {} \<longrightarrow> (\<exists>u. rts_set F k t = Some u \<and> sched_step t u)) \<and>
    (\<forall>k F. isokprocn k \<longrightarrow> \<not> ready t k \<longrightarrow> (\<exists>u. rts_unset F k t = Some u \<and> sched_step t u)) \<and>
    (\<exists>u. requeue n t = Some u \<and> sched_step t u)"
proof -
  have T: "sched_inv t" by (rule sched_steps_inv [OF assms(2,1)])
  have "\<exists>u. rts_set F k t = Some u \<and> sched_step t u" if "isokprocn k" "F \<noteq> {}" for k F
    using rts_set_inv [OF T that] sched_step.block [OF that] by metis
  moreover have "\<exists>u. rts_unset F k t = Some u \<and> sched_step t u" if "isokprocn k" "\<not> ready t k" for k F
    using rts_unset_inv [OF T that(1)] sched_step.unblock [OF that] that unfolding ready_def by metis
  moreover have "\<exists>u. requeue n t = Some u \<and> sched_step t u"
    using requeue_spec [OF T assms(3)] sched_step.preempt [OF assms(3)] by metis
  moreover obtain m where "next_ptr t = Some m" "ready t m" "rdy_head t (p_priority (procs t m)) = Some m"
    "\<And>k. ready t k \<Longrightarrow> p_priority (procs t m) \<le> p_priority (procs t k)"
    by (rule sched_inv_best [OF T assms(3)]) blast
  ultimately show ?thesis by blast
qed

theorem next_ptr_highest_priority_witness:
  "\<exists>t m. rts_set {RECEIVING} 0 demo_state = Some t \<and> next_ptr t = Some m \<and> ready t m \<and>
     (\<forall>k. ready t k \<longrightarrow> p_priority (procs t m) \<le> p_priority (procs t k))"
proof -
  obtain s1 where s1: "rts_set {RECEIVING} 0 demo_state =
      Some (upd_proc 0 (p_rts_flags_update (\<lambda>f. f \<union> {RECEIVING})) s1)" "sched_frame demo_state s1"
    by (rule rts_set_inv [OF demo_sched_inv, of 0 "{RECEIVING}"]) (simp_all add: isokprocn_def)
  have r: "sched_step\<^sup>*\<^sup>* demo_state (upd_proc 0 (p_rts_flags_update (\<lambda>f. f \<union> {RECEIVING})) s1)"
    by (rule r_into_rtranclp) (rule sched_step.block [OF _ _ s1(1)], simp_all add: isokprocn_def)
  have "ready (upd_proc 0 (p_rts_flags_update (\<lambda>f. f \<union> {RECEIVING})) s1) 1"
    by (simp add: ready_def isokprocn_def sched_frame_flags [OF s1(2)] demo_proc_def)
  from next_ptr_highest_priority [OF demo_sched_inv r this] s1(1) show ?thesis by blast
qed

end
