(* ===== verification/Kernel_Ipc.thy ===== *)
theory Kernel_Ipc
  imports Kernel_Sched
begin

text \<open>
  Message passing, \<^verbatim>\<open>kernel/proc.c\<close>: \<^verbatim>\<open>mini_send\<close>, \<^verbatim>\<open>mini_receive\<close>, \<^verbatim>\<open>mini_notify\<close> and
  \<^verbatim>\<open>lock_notify\<close>, with the macros \<^verbatim>\<open>BuildMess\<close> and \<^verbatim>\<open>CopyMess\<close>.

  Shown here: the caller queues are well-formed FIFO lists of exactly the processes blocked in a
  send (\<open>callers\<close>); the deadlock check decides reachability in the graph of blocked senders, ends,
  and keeps that graph acyclic; a process never stays blocked in a receive while a matching sender
  is queued on it (\<open>recv_ok\<close>).
\<close>

subsection \<open>Model\<close>

abbreviation (input) NON_BLOCKING :: int where "NON_BLOCKING \<equiv> 0x10"

text \<open>\<^verbatim>\<open>proc_addr(n)\<close> for a number that need not be valid, and a privilege pointer that may be NULL.\<close>

definition has_priv :: "kstate \<Rightarrow> int \<Rightarrow> bool" where
  "has_priv s n \<longleftrightarrow> p_priv (procs s n) < NR_SYS_PROCS"

text \<open>The physical address of an address in the data segment of a process.\<close>

definition data_phys :: "kstate \<Rightarrow> int \<Rightarrow> u32 \<Rightarrow> u32" where
  "data_phys s n a = push_bit CLICK_SHIFT (mem_phys (p_memmap (procs s n) SEG_D)) + a"

definition CopyMess :: "int \<Rightarrow> int \<Rightarrow> u32 \<Rightarrow> int \<Rightarrow> u32 \<Rightarrow> kstate \<Rightarrow> kstate" where
  "CopyMess src sp sm dp dm s =
     s\<lparr>k_mem := cp_mess src (data_phys s sp sm) (data_phys s dp dm) (k_mem s)\<rparr>"

definition NOTIFY_FROM :: "int \<Rightarrow> int" where
  "NOTIFY_FROM p = 0x1000 OR (p + NR_TASKS)"

text \<open>
  \<^verbatim>\<open>BuildMess(&m, src, dst_ptr)\<close>, with \<^verbatim>\<open>m\<close> at \<open>k_mess_buf\<close> in the data segment of the kernel
  (pseudo-process HARDWARE): source, type, timestamp, and for HARDWARE and SYSTEM the pending
  interrupts or signals of the destination, which are cleared.
\<close>

definition BuildMess :: "int \<Rightarrow> int \<Rightarrow> kstate \<Rightarrow> kstate" where
  "BuildMess src dst s =
     (let a = data_phys s HARDWARE (k_mess_buf s);
          s1 = s\<lparr>k_mem := store32 (a + 24) (word_of_int (realtime s))
                 (store32 (a + 4) (word_of_int (NOTIFY_FROM src))
                 (store32 a (word_of_int src) (k_mem s)))\<rparr>;
          i = p_priv (procs s dst)
      in if src = HARDWARE then
           upd_priv i (s_int_pending_update (\<lambda>_. 0))
             (s1\<lparr>k_mem := store32 (a + 20) (s_int_pending (privs s i)) (k_mem s1)\<rparr>)
         else if src = SYSTEM then
           upd_priv i (s_sig_pending_update (\<lambda>_. 0))
             (s1\<lparr>k_mem := store32 (a + 20) (s_sig_pending (privs s i)) (k_mem s1)\<rparr>)
         else s1)"

text \<open>
  The loop at the start of \<^verbatim>\<open>mini_send\<close>: follow the chain of blocked senders from \<^verbatim>\<open>xp\<close>; \<open>True\<close>
  when it leads to the caller.
\<close>

partial_function (option) send_cycle :: "kstate \<Rightarrow> int \<Rightarrow> int \<Rightarrow> bool option" where
  "send_cycle s caller xp =
     (if SENDING \<in> p_rts_flags (procs s xp) then
        (let xp' = p_sendto (procs s xp) in
         if \<not> isokprocn xp' then None
         else if xp' = caller then Some True
         else send_cycle s caller xp')
      else Some False)"

definition qlink :: "kstate \<Rightarrow> int \<Rightarrow> int option" where
  "qlink s n = p_q_link (procs s n)"

definition callq :: "kstate \<Rightarrow> int \<Rightarrow> int option" where
  "callq s n = p_caller_q (procs s n)"

text \<open>\<^verbatim>\<open>*xpp = v\<close> where \<^verbatim>\<open>xpp\<close> walks the caller queue of \<open>d\<close>.\<close>

fun callq_assign :: "int \<Rightarrow> int slot \<Rightarrow> int option \<Rightarrow> kstate \<Rightarrow> kstate" where
  "callq_assign d Head v s = upd_proc d (p_caller_q_update (\<lambda>_. v)) s"
| "callq_assign d (Link a) v s = upd_proc a (p_q_link_update (\<lambda>_. v)) s"

text \<open>Is \<open>d\<close> blocked in a receive that accepts a message from \<open>n\<close>?\<close>

definition waiting_for :: "kstate \<Rightarrow> int \<Rightarrow> int \<Rightarrow> bool" where
  "waiting_for s d n \<longleftrightarrow> RECEIVING \<in> p_rts_flags (procs s d) \<and> SENDING \<notin> p_rts_flags (procs s d) \<and>
     (p_getfrom (procs s d) = ANY \<or> p_getfrom (procs s d) = n)"

definition mini_send :: "int \<Rightarrow> int \<Rightarrow> u32 \<Rightarrow> int \<Rightarrow> kstate \<Rightarrow> (int \<times> kstate) option" where
  "mini_send caller dst m_ptr flags s = do {
     guard (isokprocn dst);
     locked \<leftarrow> send_cycle s caller dst;
     if locked then Some (ELOCKED, s)
     else if waiting_for s dst (p_nr (procs s caller)) then do {
       let s1 = CopyMess (p_nr (procs s caller)) caller m_ptr dst (p_messbuf (procs s dst)) s;
       s2 \<leftarrow> rts_unset {RECEIVING} dst s1;
       Some (OK, s2)
     }
     else if flags AND NON_BLOCKING = 0 then do {
       let s1 = upd_proc caller (p_messbuf_update (\<lambda>_. m_ptr)) s;
       s2 \<leftarrow> rts_set {SENDING} caller s1;
       let s3 = upd_proc caller (p_sendto_update (\<lambda>_. dst)) s2;
       xpp \<leftarrow> chain_find (\<lambda>_. False) (callq s3 dst) (qlink s3) Head;
       let s4 = callq_assign dst xpp (Some caller) s3;
       let s5 = upd_proc caller (p_q_link_update (\<lambda>_. None)) s4;
       Some (OK, s5)
     }
     else Some (ENOTREADY, s)
   }"

text \<open>\<^verbatim>\<open>for (i=0; !(*chunk & (1<<i)); ++i)\<close>: the lowest bit of a non-zero chunk.\<close>

function low_bit :: "u16 \<Rightarrow> nat \<Rightarrow> nat" where
  "low_bit c i = (if bit c i \<or> 16 \<le> i then i else low_bit c (Suc i))"
  by auto
termination by (relation "measure (\<lambda>(c, i). 16 - i)") auto

declare low_bit.simps [simp del]

text \<open>
  The loop over the chunks of pending notifications: the source number and its system index of the
  first one that \<^verbatim>\<open>mini_receive\<close> accepts. It looks at one bit per chunk only.
\<close>

fun find_notify :: "(nat \<Rightarrow> priv) \<Rightarrow> int \<Rightarrow> sys_map \<Rightarrow> nat list \<Rightarrow> (nat \<times> int) option" where
  "find_notify pv src mp [] = None"
| "find_notify pv src mp (c # cs) =
     (if mp c = 0 then find_notify pv src mp cs
      else let src_id = c * BITCHUNK_BITS + low_bit (mp c) 0 in
        if NR_SYS_PROCS \<le> src_id then None
        else let src_proc_nr = s_proc_nr (pv src_id) in
          if src \<noteq> ANY \<and> src \<noteq> src_proc_nr then find_notify pv src mp cs
          else Some (src_id, src_proc_nr))"

declare find_notify.simps [simp del]

definition mini_receive :: "int \<Rightarrow> int \<Rightarrow> u32 \<Rightarrow> int \<Rightarrow> kstate \<Rightarrow> (int \<times> kstate) option" where
  "mini_receive caller src m_ptr flags s =
     (let pi = p_priv (procs s caller);
          sending = (SENDING \<in> p_rts_flags (procs s caller));
          ntf = (if sending \<or> SENDREC_BUSY \<in> s_flags (privs s pi) then None
                 else find_notify (privs s) src (s_notify_pending (privs s pi)) [0, 1]);
          block = (if flags AND NON_BLOCKING = 0 then do {
                     let s1 = upd_proc caller (\<lambda>p. p\<lparr>p_getfrom := src, p_messbuf := m_ptr\<rparr>) s;
                     s2 \<leftarrow> rts_set {RECEIVING} caller s1;
                     Some (OK, s2)
                   } else Some (ENOTREADY, s))
      in do {
        guard (sending \<or> has_priv s caller);
        case ntf of
          Some (src_id, src_proc_nr) \<Rightarrow> do {
            let s1 = upd_priv pi (s_notify_pending_update (unset_sys_bit src_id)) s;
            let s2 = BuildMess src_proc_nr caller s1;
            Some (OK, CopyMess src_proc_nr HARDWARE (k_mess_buf s) caller m_ptr s2)
          }
        | None \<Rightarrow>
            if sending then block
            else do {
              xpp \<leftarrow> chain_find (\<lambda>x. src = ANY \<or> src = p_nr (procs s x)) (callq s caller) (qlink s) Head;
              case rd (callq s caller) (qlink s) xpp of
                None \<Rightarrow> block
              | Some x \<Rightarrow> do {
                  let s1 = CopyMess (p_nr (procs s x)) x (p_messbuf (procs s x)) caller m_ptr s;
                  s2 \<leftarrow> rts_unset {SENDING} x s1;
                  Some (OK, callq_assign caller xpp (qlink s2 x) s2)
                }
            }
      })"

definition mini_notify :: "int \<Rightarrow> int \<Rightarrow> kstate \<Rightarrow> (int \<times> kstate) option" where
  "mini_notify caller dst s = do {
     guard (isokprocn dst \<and> has_priv s dst);
     if waiting_for s dst (p_nr (procs s caller)) \<and> SENDREC_BUSY \<notin> s_flags (priv_of s dst) then do {
       let s1 = BuildMess (p_nr (procs s caller)) dst s;
       let s2 = CopyMess (p_nr (procs s caller)) HARDWARE (k_mess_buf s) dst (p_messbuf (procs s dst)) s1;
       s3 \<leftarrow> rts_unset {RECEIVING} dst s2;
       Some (OK, s3)
     }
     else do {
       guard (has_priv s caller);
       let src_id = s_id (priv_of s caller);
       Some (OK, upd_priv (p_priv (procs s dst)) (s_notify_pending_update (set_sys_bit src_id)) s)
     }
   }"

text \<open>\<^verbatim>\<open>lock_notify\<close> calls \<^verbatim>\<open>mini_notify\<close> with interrupts disabled, whatever \<^verbatim>\<open>k_reenter\<close> is.\<close>

definition lock_notify :: "int \<Rightarrow> int \<Rightarrow> kstate \<Rightarrow> (int \<times> kstate) option" where
  "lock_notify src dst s = do {
     guard (isokprocn src);
     mini_notify src dst s
   }"

definition lock_send :: "int \<Rightarrow> u32 \<Rightarrow> kstate \<Rightarrow> (int \<times> kstate) option" where
  "lock_send dst m_ptr s = do {
     caller \<leftarrow> proc_ptr s;
     mini_send caller dst m_ptr NON_BLOCKING s
   }"

subsection \<open>The state of the rendezvous\<close>

definition sending :: "kstate \<Rightarrow> int \<Rightarrow> bool" where
  "sending s n \<longleftrightarrow> SENDING \<in> p_rts_flags (procs s n)"

definition receiving :: "kstate \<Rightarrow> int \<Rightarrow> bool" where
  "receiving s n \<longleftrightarrow> RECEIVING \<in> p_rts_flags (procs s n)"

definition sendto :: "kstate \<Rightarrow> int \<Rightarrow> int" where
  "sendto s n = p_sendto (procs s n)"

definition getfrom :: "kstate \<Rightarrow> int \<Rightarrow> int" where
  "getfrom s n = p_getfrom (procs s n)"

lemmas view_defs = sending_def receiving_def sendto_def getfrom_def qlink_def callq_def

text \<open>The graph of blocked senders.\<close>

definition sends :: "kstate \<Rightarrow> (int \<times> int) set" where
  "sends s = {(n, d). isokprocn n \<and> sending s n \<and> d = sendto s n}"

text \<open>
  \<open>callers s C\<close>: the caller queue of \<open>d\<close> is a well-formed list that holds the processes \<open>C d\<close>,
  which are exactly those blocked in a send to \<open>d\<close>. \<open>send_ok\<close>: blocked senders have valid
  destinations and do not wait for each other in a cycle. \<open>recv_ok\<close>: no process is blocked in a
  receive that a queued sender could satisfy; one blocked in both halves of a SENDREC waits for
  the process it sends to.
\<close>

definition callers :: "kstate \<Rightarrow> (int \<Rightarrow> int list) \<Rightarrow> bool" where
  "callers s C \<longleftrightarrow> (\<forall>d. isokprocn d \<longrightarrow> chain (qlink s) (callq s d) (C d) \<and>
     set (C d) = {n. (n, d) \<in> sends s})"

definition send_ok :: "kstate \<Rightarrow> bool" where
  "send_ok s \<longleftrightarrow> (\<forall>(n, d) \<in> sends s. isokprocn d) \<and> acyclic (sends s)"

definition recv_ok :: "kstate \<Rightarrow> bool" where
  "recv_ok s \<longleftrightarrow>
     (\<forall>d n. isokprocn d \<longrightarrow> receiving s d \<longrightarrow> \<not> sending s d \<longrightarrow> (n, d) \<in> sends s \<longrightarrow>
        getfrom s d \<noteq> ANY \<and> getfrom s d \<noteq> n) \<and>
     (\<forall>d. isokprocn d \<longrightarrow> receiving s d \<longrightarrow> sending s d \<longrightarrow> getfrom s d = sendto s d)"

definition ipc_links :: "kstate \<Rightarrow> (int \<Rightarrow> int list) \<Rightarrow> bool" where
  "ipc_links s C \<longleftrightarrow> callers s C \<and> send_ok s \<and> recv_ok s"

definition ipc_inv :: "kstate \<Rightarrow> bool" where
  "ipc_inv s \<longleftrightarrow> sched_inv s \<and> (\<exists>C. ipc_links s C)"

text \<open>Two states with the same rendezvous.\<close>

definition same_ipc :: "kstate \<Rightarrow> kstate \<Rightarrow> bool" where
  "same_ipc s s' \<longleftrightarrow> sending s' = sending s \<and> receiving s' = receiving s \<and> sendto s' = sendto s \<and>
     getfrom s' = getfrom s \<and> qlink s' = qlink s \<and> callq s' = callq s"

lemma ipc_links_cong: "same_ipc s s' \<Longrightarrow> ipc_links s' C = ipc_links s C"
  by (simp add: same_ipc_def ipc_links_def callers_def send_ok_def recv_ok_def sends_def)

lemma same_ipc_frame: "sched_frame s s' \<Longrightarrow> same_ipc s s'"
  by (simp add: same_ipc_def view_defs fun_eq_iff sched_frameD)

lemma same_ipc_refl [simp]: "same_ipc s s"
  by (simp add: same_ipc_def)

lemma same_ipc_trans: "same_ipc s t \<Longrightarrow> same_ipc t u \<Longrightarrow> same_ipc s u"
  by (simp add: same_ipc_def)

lemma view_upd_proc:
  "sending (upd_proc n f s) = (sending s)(n := SENDING \<in> p_rts_flags (f (procs s n)))"
  "receiving (upd_proc n f s) = (receiving s)(n := RECEIVING \<in> p_rts_flags (f (procs s n)))"
  "sendto (upd_proc n f s) = (sendto s)(n := p_sendto (f (procs s n)))"
  "getfrom (upd_proc n f s) = (getfrom s)(n := p_getfrom (f (procs s n)))"
  "qlink (upd_proc n f s) = (qlink s)(n := p_q_link (f (procs s n)))"
  "callq (upd_proc n f s) = (callq s)(n := p_caller_q (f (procs s n)))"
  by (auto simp: view_defs fun_eq_iff)

lemma view_fold:
  "SENDING \<in> p_rts_flags (procs s n) \<longleftrightarrow> sending s n"
  "RECEIVING \<in> p_rts_flags (procs s n) \<longleftrightarrow> receiving s n"
  "p_sendto (procs s n) = sendto s n" "p_getfrom (procs s n) = getfrom s n"
  "p_q_link (procs s n) = qlink s n" "p_caller_q (procs s n) = callq s n"
  by (simp_all add: view_defs)

lemma ipc_linksD:
  assumes "ipc_links s C" "isokprocn d"
  shows "chain (qlink s) (callq s d) (C d)" "n \<in> set (C d) \<longleftrightarrow> isokprocn n \<and> sending s n \<and> d = sendto s n"
  using assms by (auto simp: ipc_links_def callers_def sends_def)

subsection \<open>The deadlock check\<close>

lemma finite_sends: "finite (sends s)"
proof (rule finite_subset)
  show "sends s \<subseteq> (\<lambda>n. (n, sendto s n)) ` {- 4..<64}"
    by (auto simp: sends_def isokprocn_def)
qed simp

lemma sends_trancl_step:
  assumes "isokprocn xp" "sending s xp"
  shows "(xp, c) \<in> (sends s)\<^sup>+ \<longleftrightarrow> sendto s xp = c \<or> (sendto s xp, c) \<in> (sends s)\<^sup>+"
proof
  assume "(xp, c) \<in> (sends s)\<^sup>+"
  then obtain d where "(xp, d) \<in> sends s" "(d, c) \<in> (sends s)\<^sup>*" by (meson tranclD)
  then have "(sendto s xp, c) \<in> (sends s)\<^sup>*" by (simp add: sends_def)
  then show "sendto s xp = c \<or> (sendto s xp, c) \<in> (sends s)\<^sup>+" by (auto simp: rtrancl_eq_or_trancl)
next
  assume r: "sendto s xp = c \<or> (sendto s xp, c) \<in> (sends s)\<^sup>+"
  from assms have "(xp, sendto s xp) \<in> sends s" by (simp add: sends_def)
  with r show "(xp, c) \<in> (sends s)\<^sup>+" by (auto intro: trancl_into_trancl2)
qed

text \<open>On an acyclic graph the loop ends and decides whether the caller is reachable.\<close>

lemma send_cycle_decides:
  assumes ok: "send_ok s" and xp: "isokprocn xp"
  shows "send_cycle s caller xp = Some ((xp, caller) \<in> (sends s)\<^sup>+)"
proof -
  have "wf ((sends s)\<inverse>)"
    using ok finite_sends [of s] by (simp add: send_ok_def finite_acyclic_wf_converse)
  then show ?thesis using xp
  proof (induction xp rule: wf_induct_rule)
    case (less xp)
    show ?case
    proof (cases "sending s xp")
      case True
      with less.prems have e: "(xp, sendto s xp) \<in> sends s" by (simp add: sends_def)
      with ok have k: "isokprocn (sendto s xp)" by (auto simp: send_ok_def)
      with less.IH [of "sendto s xp"] e
      have "send_cycle s caller (sendto s xp) = Some ((sendto s xp, caller) \<in> (sends s)\<^sup>+)" by simp
      with True k show ?thesis
        by (simp add: send_cycle.simps [of s caller xp] view_fold Let_def
            sends_trancl_step [OF less.prems True])
    next
      case False
      then have "(xp, caller) \<notin> (sends s)\<^sup>+" by (auto simp: sends_def dest: tranclD)
      with False show ?thesis by (simp add: send_cycle.simps [of s caller xp] view_fold)
    qed
  qed
qed

text \<open>On a process that sends to itself the loop of any other caller never ends.\<close>

lemma send_cycle_self:
  assumes "sending s n" "sendto s n = n" "caller \<noteq> n"
  shows "send_cycle s caller n = None"
proof (rule ccontr)
  assume "send_cycle s caller n \<noteq> None"
  then obtain b where "send_cycle s caller n = Some b" by blast
  moreover have "sending s n \<and> sendto s n = n \<and> c \<noteq> n \<longrightarrow> x \<noteq> n"
    if "send_cycle s c x = Some b" for s c x b
    by (rule send_cycle.raw_induct
        [where P = "\<lambda>s c x b. sending s n \<and> sendto s n = n \<and> c \<noteq> n \<longrightarrow> x \<noteq> n", OF _ that])
      (auto simp: Let_def view_fold split: if_splits)
  ultimately show False using assms by blast
qed

subsection \<open>Blocking and unblocking\<close>

text \<open>A process joins the end of a caller queue.\<close>

lemma ipc_links_block:
  assumes I: "ipc_links s C" and ok: "isokprocn caller" "isokprocn dst"
    and idle: "\<not> sending s caller" "\<not> receiving s caller"
    and nocycle: "(dst, caller) \<notin> (sends s)\<^sup>+" "dst \<noteq> caller"
    and nowait: "\<not> (receiving s dst \<and> \<not> sending s dst \<and> (getfrom s dst = ANY \<or> getfrom s dst = caller))"
    and s': "sending s' = (sending s)(caller := True)" "receiving s' = receiving s"
      "sendto s' = (sendto s)(caller := dst)" "getfrom s' = getfrom s"
      "qlink s' = (wr_nx (slot_after (C dst)) (Some caller) (qlink s))(caller := None)"
      "callq s' = (callq s)(dst := wr_hd (slot_after (C dst)) (Some caller) (callq s dst))"
  shows "ipc_links s' (C(dst := C dst @ [caller]))"
proof -
  have sends': "sends s' = insert (caller, dst) (sends s)"
    using ok idle by (auto simp: sends_def s' split: if_splits)
  have "acyclic (sends s')"
    using I nocycle by (auto simp: ipc_links_def send_ok_def sends' acyclic_insert rtrancl_eq_or_trancl)
  then have "send_ok s'" using I ok by (auto simp: ipc_links_def send_ok_def sends')
  moreover have "recv_ok s'"
    using I ok idle nowait unfolding ipc_links_def recv_ok_def sends' s' by auto
  moreover have "callers s' (C(dst := C dst @ [caller]))"
    unfolding callers_def
  proof (intro allI impI conjI)
    fix d assume d: "isokprocn d"
    have c: "caller \<notin> set (C d)" using ipc_linksD(2) [OF I d] idle by simp
    have c': "caller \<notin> set (C dst)" using ipc_linksD(2) [OF I ok(2)] idle by simp
    show "chain (qlink s') (callq s' d) ((C(dst := C dst @ [caller])) d)"
    proof (cases "d = dst")
      case True
      have "chain (wr_nx (slot_after (C dst)) (Some caller) ((qlink s)(caller := None)))
          (wr_hd (slot_after (C dst)) (Some caller) (callq s dst)) (C dst @ caller # [])"
        using ipc_linksD(1) [OF I ok(2)] c' rd_slot_after [of "qlink s" "callq s dst" "C dst" "[]"]
        by (intro chain_link) simp_all
      moreover have "wr_nx (slot_after (C dst)) (Some caller) ((qlink s)(caller := None)) = qlink s'"
        using c' last_in_set [of "C dst"] by (cases "C dst = []") (auto simp: s' slot_after_def fun_eq_iff)
      ultimately show ?thesis using True by (simp add: s')
    next
      case False
      have "n \<noteq> last (C dst)" if "n \<in> set (C d)" "C dst \<noteq> []" for n
        using that False ipc_linksD(2) [OF I d] ipc_linksD(2) [OF I ok(2)] by (metis last_in_set)
      then have "chain (qlink s') (callq s d) (C d) \<longleftrightarrow> chain (qlink s) (callq s d) (C d)"
        using c by (intro chain_cong) (auto simp: s' slot_after_def)
      with False ipc_linksD(1) [OF I d] show ?thesis by (simp add: s')
    qed
    have "set (C d) = {n. (n, d) \<in> sends s}" using I d by (simp add: ipc_links_def callers_def)
    then show "set ((C(dst := C dst @ [caller])) d) = {n. (n, d) \<in> sends s'}"
      using idle by (auto simp: sends')
  qed
  ultimately show ?thesis by (simp add: ipc_links_def)
qed

text \<open>A sender leaves the caller queue of its destination.\<close>

lemma callers_unlink:
  assumes I: "callers s C" and ok: "isokprocn caller" and x: "C caller = us @ x # vs"
    and s': "sending s' = (sending s)(x := False)" "sendto s' = sendto s"
      "qlink s' = wr_nx (slot_after us) (qlink s x) (qlink s)"
      "callq s' = (callq s)(caller := wr_hd (slot_after us) (qlink s x) (callq s caller))"
  shows "callers s' (C(caller := us @ vs))" "sends s' = sends s - {(x, caller)}"
proof -
  have ch: "chain (qlink s) (callq s d) (C d)" and mem: "n \<in> set (C d) \<longleftrightarrow> isokprocn n \<and> sending s n \<and> d = sendto s n"
    if "isokprocn d" for d n
    using I that by (auto simp: callers_def sends_def)
  have x1: "isokprocn x" "sending s x" "sendto s x = caller" using mem [OF ok, of x] x by auto
  show sends': "sends s' = sends s - {(x, caller)}"
    using x1 by (auto simp: sends_def s' split: if_splits)
  show "callers s' (C(caller := us @ vs))"
    unfolding callers_def
  proof (intro allI impI conjI)
    fix d assume d: "isokprocn d"
    show "chain (qlink s') (callq s' d) ((C(caller := us @ vs)) d)"
    proof (cases "d = caller")
      case True
      with chain_unlink [OF ch [OF ok, unfolded x]] show ?thesis by (simp add: s')
    next
      case False
      have "n \<noteq> last us" if "n \<in> set (C d)" "us \<noteq> []" for n
        using that False mem [OF d, of n] mem [OF ok, of n] x by auto
      then have "chain (qlink s') (callq s d) (C d) \<longleftrightarrow> chain (qlink s) (callq s d) (C d)"
        by (intro chain_cong) (auto simp: s' slot_after_def)
      with False ch [OF d] show ?thesis by (simp add: s')
    qed
    have "set (C d) = {n. (n, d) \<in> sends s}" using I d by (simp add: callers_def)
    moreover have "distinct (us @ x # vs)" using chain_distinct [OF ch [OF ok]] x by simp
    ultimately show "set ((C(caller := us @ vs)) d) = {n. (n, d) \<in> sends s'}"
      using x by (auto simp: sends')
  qed
qed

text \<open>The first suitable sender leaves the caller queue of the receiver.\<close>

lemma ipc_links_unblock:
  assumes I: "ipc_links s C" and ok: "isokprocn caller" and x: "C caller = us @ x # vs"
    and idle: "\<not> sending s caller"
    and s': "sending s' = (sending s)(x := False)" "receiving s' = receiving s"
      "sendto s' = sendto s" "getfrom s' = getfrom s"
      "qlink s' = wr_nx (slot_after us) (qlink s x) (qlink s)"
      "callq s' = (callq s)(caller := wr_hd (slot_after us) (qlink s x) (callq s caller))"
  shows "ipc_links s' (C(caller := us @ vs))"
proof -
  note ch = ipc_linksD(1) [OF I ok] and mem = ipc_linksD(2) [OF I ok]
  have x1: "isokprocn x" "sending s x" "sendto s x = caller" using mem [of x] x by auto
  note un = callers_unlink [of s C caller us x vs s', OF _ ok x s'(1,3,5,6)]
  have c: "callers s C" using I by (simp add: ipc_links_def)
  note sends' = un(2) [OF c]
  have "acyclic (sends s')"
    using I by (auto simp: ipc_links_def send_ok_def sends' intro: acyclic_subset)
  then have "send_ok s'" using I by (auto simp: ipc_links_def send_ok_def sends')
  moreover have "recv_ok s'"
  proof -
    have R: "isokprocn d \<Longrightarrow> receiving s d \<Longrightarrow> \<not> sending s d \<Longrightarrow> (n, d) \<in> sends s \<Longrightarrow>
        getfrom s d \<noteq> ANY \<and> getfrom s d \<noteq> n"
      and S: "isokprocn d \<Longrightarrow> receiving s d \<Longrightarrow> sending s d \<Longrightarrow> getfrom s d = sendto s d" for d n
      using I unfolding ipc_links_def recv_ok_def by blast+
    have "getfrom s x \<noteq> ANY \<and> getfrom s x \<noteq> n" if "receiving s x" "(n, x) \<in> sends s" for n
    proof -
      have "getfrom s x = caller" using S [OF x1(1) that(1) x1(2)] x1(3) by simp
      with ok idle that(2) show ?thesis by (auto simp: sends_def isokprocn_def)
    qed
    with R S show ?thesis unfolding recv_ok_def sends' s' by auto
  qed
  moreover have "callers s' (C(caller := us @ vs))" using un(1) [OF c] .
  ultimately show ?thesis by (simp add: ipc_links_def)
qed

text \<open>A blocked sender gives up: it stops sending and receiving at once.\<close>

lemma ipc_links_leave:
  assumes I: "ipc_links s C" and ok: "isokprocn d" and x: "C d = us @ x # vs"
    and s': "sending s' = (sending s)(x := False)" "receiving s' = (receiving s)(x := False)"
      "sendto s' = sendto s" "getfrom s' = getfrom s"
      "qlink s' = wr_nx (slot_after us) (qlink s x) (qlink s)"
      "callq s' = (callq s)(d := wr_hd (slot_after us) (qlink s x) (callq s d))"
  shows "ipc_links s' (C(d := us @ vs))"
proof -
  have c: "callers s C" using I by (simp add: ipc_links_def)
  note un = callers_unlink [of s C d us x vs s', OF c ok x s'(1,3,5,6)]
  have "acyclic (sends s')"
    using I by (auto simp: ipc_links_def send_ok_def un(2) intro: acyclic_subset)
  then have "send_ok s'" using I by (auto simp: ipc_links_def send_ok_def un(2))
  moreover have "recv_ok s'" using I unfolding ipc_links_def recv_ok_def un(2) s' by auto
  ultimately show ?thesis using un(1) by (simp add: ipc_links_def)
qed

text \<open>A process starts to wait for a message, or stops doing so.\<close>

lemma ipc_links_wait:
  assumes I: "ipc_links s C" and ok: "isokprocn caller"
    and none: "\<not> sending s caller \<Longrightarrow> (\<And>n. n \<in> set (C caller) \<Longrightarrow> src \<noteq> ANY \<and> src \<noteq> n)"
    and sr: "sending s caller \<Longrightarrow> src = sendto s caller"
    and s': "sending s' = sending s" "receiving s' = (receiving s)(caller := True)"
      "sendto s' = sendto s" "getfrom s' = (getfrom s)(caller := src)" "qlink s' = qlink s" "callq s' = callq s"
  shows "ipc_links s' C"
proof -
  have sends': "sends s' = sends s" by (simp add: sends_def s')
  have "(n, caller) \<in> sends s \<Longrightarrow> n \<in> set (C caller)" for n
    using ipc_linksD(2) [OF I ok] by (simp add: sends_def)
  then have "recv_ok s'"
    using I none sr unfolding ipc_links_def recv_ok_def sends' s' by auto
  with I show ?thesis by (simp add: ipc_links_def callers_def send_ok_def sends' s')
qed

lemma ipc_links_wake:
  assumes I: "ipc_links s C"
    and s': "sending s' = sending s" "receiving s' = (receiving s)(d := False)"
      "sendto s' = sendto s" "getfrom s' = getfrom s" "qlink s' = qlink s" "callq s' = callq s"
  shows "ipc_links s' C"
proof -
  have sends': "sends s' = sends s" by (simp add: sends_def s')
  have "recv_ok s'" using I unfolding ipc_links_def recv_ok_def sends' s' by auto
  with I show ?thesis by (simp add: ipc_links_def callers_def send_ok_def sends' s')
qed

subsection \<open>\<^verbatim>\<open>mini_send\<close>, \<^verbatim>\<open>mini_receive\<close>, \<^verbatim>\<open>mini_notify\<close> keep the invariant\<close>

lemma sched_inv_mem [simp]: "sched_inv (s\<lparr>k_mem := m\<rparr>) = sched_inv s"
  by (rule sched_inv_cong) simp_all

lemma CopyMess_sel [simp]:
  "procs (CopyMess src sp sm dp dm s) = procs s" "privs (CopyMess src sp sm dp dm s) = privs s"
  "sched_inv (CopyMess src sp sm dp dm s) = sched_inv s"
  "priv_of (CopyMess src sp sm dp dm s) n = priv_of s n"
  by (simp_all add: CopyMess_def priv_of_def)

lemma same_ipc_procs: "procs s' = procs s \<Longrightarrow> same_ipc s s'"
  by (simp add: same_ipc_def view_defs fun_eq_iff)

lemma CopyMess_same [simp]: "same_ipc s (CopyMess src sp sm dp dm s)"
  by (rule same_ipc_procs) simp

lemma sched_inv_upd_priv:
  "(\<And>p. s_stack_guard (f p) = s_stack_guard p) \<Longrightarrow> sched_inv (upd_priv i f s) = sched_inv s"
  by (rule sched_inv_cong) (auto simp: sched_view_def)

lemma BuildMess_sel [simp]:
  "procs (BuildMess src dst s) = procs s" "sched_inv (BuildMess src dst s) = sched_inv s"
  by (simp_all add: BuildMess_def Let_def sched_inv_upd_priv)

lemma BuildMess_same [simp]: "same_ipc s (BuildMess src d s)"
  by (rule same_ipc_procs) simp

lemma upd_priv_same [simp]: "same_ipc s (upd_priv i f s)"
  by (rule same_ipc_procs) simp

lemma sched_inv_upd_proc:
  assumes "sched_view (f (procs s n)) = sched_view (procs s n)"
    "p_rts_flags (f (procs s n)) = {} \<longleftrightarrow> p_rts_flags (procs s n) = {}"
  shows "sched_inv (upd_proc n f s) = sched_inv s"
  by (rule sched_inv_cong) (use assms in auto)

lemma sched_inv_nr: "sched_inv s \<Longrightarrow> isokprocn n \<Longrightarrow> p_nr (procs s n) = n"
  by (simp add: sched_inv_def on_ready_def sched_wf_def)

text \<open>The two idioms on the rendezvous part of the state.\<close>

lemma unset_flag:
  assumes "sched_inv s" "isokprocn n" "F \<subseteq> p_rts_flags (procs s n)" "F \<noteq> {}"
  obtains s' where "rts_unset F n s = Some s'" "sched_inv s'"
    "sending s' = (sending s)(n := sending s n \<and> SENDING \<notin> F)"
    "receiving s' = (receiving s)(n := receiving s n \<and> RECEIVING \<notin> F)"
    "sendto s' = sendto s" "getfrom s' = getfrom s" "qlink s' = qlink s" "callq s' = callq s"
    "sched_frame (upd_proc n (p_rts_flags_update (\<lambda>f. f - F)) s) s'"
proof -
  define s1 where "s1 = upd_proc n (p_rts_flags_update (\<lambda>f. f - F)) s"
  from assms have "p_rts_flags (procs s n) \<noteq> {}" by auto
  from rts_unset_inv [OF assms(1,2) this, of F] obtain s' where
    s': "rts_unset F n s = Some s'" "sched_inv s'" "sched_frame s1 s'" unfolding s1_def by blast
  from same_ipc_frame [OF s'(3)] show thesis
    by (intro that [OF s'(1,2)] s'(3) [unfolded s1_def])
      (simp_all add: same_ipc_def s1_def view_upd_proc view_fold)
qed

lemma set_flag:
  assumes "sched_inv s" "isokprocn n" "F \<noteq> {}"
  obtains s' where "rts_set F n s = Some s'" "sched_inv s'"
    "sending s' = (sending s)(n := sending s n \<or> SENDING \<in> F)"
    "receiving s' = (receiving s)(n := receiving s n \<or> RECEIVING \<in> F)"
    "sendto s' = sendto s" "getfrom s' = getfrom s" "qlink s' = qlink s" "callq s' = callq s"
    "privs s' = privs s" "k_mem s' = k_mem s" "\<And>m. p_nr (procs s' m) = p_nr (procs s m)"
    "\<And>m. p_priv (procs s' m) = p_priv (procs s m)" "p_rts_flags (procs s' n) = p_rts_flags (procs s n) \<union> F"
proof -
  from rts_set_inv [OF assms] obtain s1 where
    s1: "rts_set F n s = Some (upd_proc n (p_rts_flags_update (\<lambda>f. f \<union> F)) s1)"
    "sched_frame s s1" "sched_inv (upd_proc n (p_rts_flags_update (\<lambda>f. f \<union> F)) s1)" by blast
  from same_ipc_frame [OF s1(2)] show thesis
    using assms(3)
    by (intro that [OF s1(1,3)])
      (simp_all add: same_ipc_def view_upd_proc view_fold sched_frameD [OF s1(2)])
qed

lemma callq_assign_view:
  "sending (callq_assign d sl v s) = sending s" "receiving (callq_assign d sl v s) = receiving s"
  "sendto (callq_assign d sl v s) = sendto s" "getfrom (callq_assign d sl v s) = getfrom s"
  "qlink (callq_assign d sl v s) = wr_nx sl v (qlink s)"
  "callq (callq_assign d sl v s) = (callq s)(d := wr_hd sl v (callq s d))"
  by (cases sl; simp add: view_upd_proc; simp add: view_fold)+

lemma callq_assign_inv [simp]: "sched_inv (callq_assign d sl v s) = sched_inv s"
  by (cases sl) (simp_all add: sched_inv_upd_proc sched_view_def)

text \<open>
  \<^verbatim>\<open>mini_send\<close>, case by case. \<open>C\<close> are the caller queues before.
\<close>

lemma mini_send_cases:
  assumes S: "sched_inv s" and I: "ipc_links s C" and ok: "isokprocn caller" "isokprocn dst"
    and run: "p_rts_flags (procs s caller) = {}" and ne: "dst \<noteq> caller"
  obtains
    (locked) "(dst, caller) \<in> (sends s)\<^sup>+" "mini_send caller dst m_ptr flags s = Some (ELOCKED, s)"
  | (delivered) s' where "waiting_for s dst caller" "mini_send caller dst m_ptr flags s = Some (OK, s')"
      "sched_inv s'" "ipc_links s' C" "\<not> receiving s' dst" "p_rts_flags (procs s' caller) = {}"
      "sched_frame (upd_proc dst (p_rts_flags_update (\<lambda>f. f - {RECEIVING}))
         (CopyMess caller caller m_ptr dst (p_messbuf (procs s dst)) s)) s'"
  | (blocked) s' where "\<not> waiting_for s dst caller" "(dst, caller) \<notin> (sends s)\<^sup>+" "flags AND NON_BLOCKING = 0"
      "mini_send caller dst m_ptr flags s = Some (OK, s')"
      "sched_inv s'" "ipc_links s' (C(dst := C dst @ [caller]))"
      "sending s' caller" "sendto s' caller = dst" "p_rts_flags (procs s' caller) = {SENDING}" "privs s' = privs s"
      "k_mem s' = k_mem s" "\<And>m. p_priv (procs s' m) = p_priv (procs s m)"
  | (notready) "\<not> waiting_for s dst caller" "(dst, caller) \<notin> (sends s)\<^sup>+" "flags AND NON_BLOCKING \<noteq> 0"
      "mini_send caller dst m_ptr flags s = Some (ENOTREADY, s)"
proof -
  from I have so: "send_ok s" by (simp add: ipc_links_def)
  note cyc = send_cycle_decides [OF so ok(2), of caller]
  note nr = sched_inv_nr [OF S ok(1)]
  have w: "waiting_for s dst n \<longleftrightarrow> receiving s dst \<and> \<not> sending s dst \<and> (getfrom s dst = ANY \<or> getfrom s dst = n)" for n
    by (simp add: waiting_for_def view_fold)
  show thesis
  proof (cases "(dst, caller) \<in> (sends s)\<^sup>+")
    case True
    then show ?thesis using locked cyc ok by (simp add: mini_send_def)
  next
    case nocyc: False
    show ?thesis
    proof (cases "waiting_for s dst caller")
      case True
      define s1 where "s1 = CopyMess caller caller m_ptr dst (p_messbuf (procs s dst)) s"
      have fl: "{RECEIVING} \<subseteq> p_rts_flags (procs s1 dst)"
        using True by (simp add: s1_def waiting_for_def)
      have S1: "sched_inv s1" and C1: "same_ipc s s1" using S by (simp_all add: s1_def)
      obtain s' where s': "rts_unset {RECEIVING} dst s1 = Some s'" "sched_inv s'"
        "sending s' = (sending s1)(dst := sending s1 dst \<and> SENDING \<notin> {RECEIVING})"
        "receiving s' = (receiving s1)(dst := receiving s1 dst \<and> RECEIVING \<notin> {RECEIVING})"
        "sendto s' = sendto s1" "getfrom s' = getfrom s1" "qlink s' = qlink s1" "callq s' = callq s1"
        "sched_frame (upd_proc dst (p_rts_flags_update (\<lambda>f. f - {RECEIVING})) s1) s'"
        by (rule unset_flag [OF S1 ok(2) fl]) blast+
      have "ipc_links s' C"
        by (rule ipc_links_wake [OF I, of s' dst]) (use s' C1 in \<open>simp_all add: same_ipc_def\<close>)
      moreover have "mini_send caller dst m_ptr flags s = Some (OK, s')"
        using cyc nocyc True ok nr s'(1) by (simp add: mini_send_def s1_def)
      moreover have "p_rts_flags (procs s' caller) = {}"
        using run ne by (simp add: sched_frameD [OF s'(9)] s1_def)
      ultimately show ?thesis using delivered True s' by (simp add: s1_def)
    next
      case nowait: False
      show ?thesis
      proof (cases "flags AND NON_BLOCKING = 0")
        case True
        define s1 where "s1 = upd_proc caller (p_messbuf_update (\<lambda>_. m_ptr)) s"
        have S1: "sched_inv s1" using S by (simp add: s1_def sched_inv_upd_proc sched_view_def)
        have V1: "same_ipc s s1" by (simp add: s1_def same_ipc_def view_upd_proc; simp add: view_fold)
        obtain s2 where s2: "rts_set {SENDING} caller s1 = Some s2" "sched_inv s2"
          "sending s2 = (sending s1)(caller := sending s1 caller \<or> SENDING \<in> {SENDING})"
          "receiving s2 = (receiving s1)(caller := receiving s1 caller \<or> RECEIVING \<in> {SENDING})"
          "sendto s2 = sendto s1" "getfrom s2 = getfrom s1" "qlink s2 = qlink s1" "callq s2 = callq s1"
          "privs s2 = privs s1" "k_mem s2 = k_mem s1" "\<And>m. p_nr (procs s2 m) = p_nr (procs s1 m)"
          "\<And>m. p_priv (procs s2 m) = p_priv (procs s1 m)"
          "p_rts_flags (procs s2 caller) = p_rts_flags (procs s1 caller) \<union> {SENDING}"
          by (rule set_flag [where F = "{SENDING}", OF S1 ok(1)]) blast+
        define s3 where "s3 = upd_proc caller (p_sendto_update (\<lambda>_. dst)) s2"
        have idle: "\<not> sending s caller" "\<not> receiving s caller" using run by (simp_all add: view_defs)
        have V2: "sending s2 = (sending s)(caller := True)" "receiving s2 = receiving s"
          "sendto s2 = sendto s" "getfrom s2 = getfrom s" "qlink s2 = qlink s" "callq s2 = callq s"
          using s2 V1 idle by (auto simp: same_ipc_def)
        have V3: "sending s3 = (sending s)(caller := True)" "receiving s3 = receiving s"
          "sendto s3 = (sendto s)(caller := dst)" "getfrom s3 = getfrom s" "qlink s3 = qlink s"
          "callq s3 = callq s"
          by (simp_all add: s3_def view_upd_proc) (simp_all add: view_fold V2)
        have find: "chain_find (\<lambda>_. False) (callq s3 dst) (qlink s3) Head = Some (slot_after (C dst))"
          unfolding V3 by (rule chain_find_end) (rule ipc_linksD(1) [OF I ok(2)])
        define s' where "s' = upd_proc caller (p_q_link_update (\<lambda>_. None))
          (callq_assign dst (slot_after (C dst)) (Some caller) s3)"
        have V': "sending s' = (sending s)(caller := True)" "receiving s' = receiving s"
          "sendto s' = (sendto s)(caller := dst)" "getfrom s' = getfrom s"
          "qlink s' = (wr_nx (slot_after (C dst)) (Some caller) (qlink s))(caller := None)"
          "callq s' = (callq s)(dst := wr_hd (slot_after (C dst)) (Some caller) (callq s dst))"
          by (simp_all add: s'_def view_upd_proc)
            (simp_all add: view_fold callq_assign_view V3 fun_eq_iff)
        have L: "ipc_links s' (C(dst := C dst @ [caller]))"
          by (rule ipc_links_block [OF I ok idle nocyc ne _ V']) (use nowait w in blast)
        have "mini_send caller dst m_ptr flags s = Some (OK, s')"
          using cyc nocyc nowait True ok nr s2(1) find
          by (simp add: mini_send_def s1_def s3_def s'_def)
        moreover have "sched_inv s'"
          using s2(2) by (simp add: s'_def s3_def sched_inv_upd_proc sched_view_def)
        moreover have "p_rts_flags (procs s' caller) = {SENDING}"
          using s2(13) run by (cases "C dst = []"; auto simp: s'_def s3_def s1_def slot_after_def)
        moreover have "privs s' = privs s" "k_mem s' = k_mem s" "p_priv (procs s' m) = p_priv (procs s m)" for m
          using s2 by (cases "C dst = []"; simp add: s'_def s3_def s1_def slot_after_def)+
        ultimately show ?thesis using blocked nowait nocyc True L V' idle by simp
      next
        case False
        then show ?thesis using notready nowait nocyc cyc ok nr by (simp add: mini_send_def)
      qed
    qed
  qed
qed

lemma receive_block:
  assumes S: "sched_inv s" and I: "ipc_links s C" and ok: "isokprocn caller"
    and none: "\<not> sending s caller \<Longrightarrow> (\<And>n. n \<in> set (C caller) \<Longrightarrow> src \<noteq> ANY \<and> src \<noteq> n)"
    and sr: "sending s caller \<Longrightarrow> src = sendto s caller"
  obtains s' where
    "rts_set {RECEIVING} caller (upd_proc caller (\<lambda>p. p\<lparr>p_getfrom := src, p_messbuf := m_ptr\<rparr>) s) = Some s'"
    "sched_inv s'" "ipc_links s' C" "receiving s' caller" "getfrom s' caller = src"
    "sending s' = sending s" "k_mem s' = k_mem s" "privs s' = privs s"
proof -
  define s1 where "s1 = upd_proc caller (\<lambda>p. p\<lparr>p_getfrom := src, p_messbuf := m_ptr\<rparr>) s"
  have S1: "sched_inv s1" using S by (simp add: s1_def sched_inv_upd_proc sched_view_def)
  have V1: "sending s1 = sending s" "receiving s1 = receiving s" "sendto s1 = sendto s"
    "getfrom s1 = (getfrom s)(caller := src)" "qlink s1 = qlink s" "callq s1 = callq s"
    by (simp_all add: s1_def view_upd_proc) (simp_all add: view_fold)
  obtain s' where s': "rts_set {RECEIVING} caller s1 = Some s'" "sched_inv s'"
    "sending s' = (sending s1)(caller := sending s1 caller \<or> SENDING \<in> {RECEIVING})"
    "receiving s' = (receiving s1)(caller := receiving s1 caller \<or> RECEIVING \<in> {RECEIVING})"
    "sendto s' = sendto s1" "getfrom s' = getfrom s1" "qlink s' = qlink s1" "callq s' = callq s1"
    "privs s' = privs s1" "k_mem s' = k_mem s1"
    by (rule set_flag [where F = "{RECEIVING}", OF S1 ok]) blast+
  have "ipc_links s' C"
    by (rule ipc_links_wait [OF I ok none sr]) (simp_all add: s' V1 fun_upd_idem)
  with s' V1 show thesis by (intro that [OF s'(1) [unfolded s1_def]]) (simp_all add: s1_def)
qed

lemma mini_receive_cases:
  assumes S: "sched_inv s" and I: "ipc_links s C" and ok: "isokprocn caller"
    and fl: "p_rts_flags (procs s caller) \<subseteq> {SENDING}" and pv: "has_priv s caller"
    and sr: "sending s caller \<longrightarrow> src = sendto s caller"
  obtains
    (notified) src_id n where "\<not> sending s caller" "SENDREC_BUSY \<notin> s_flags (priv_of s caller)"
      "find_notify (privs s) src (s_notify_pending (priv_of s caller)) [0, 1] = Some (src_id, n)"
      "mini_receive caller src m_ptr flags s = Some (OK, CopyMess n HARDWARE (k_mess_buf s) caller m_ptr
         (BuildMess n caller (upd_priv (p_priv (procs s caller)) (s_notify_pending_update (unset_sys_bit src_id)) s)))"
  | (taken) us x vs s' where "\<not> sending s caller" "C caller = us @ x # vs"
      "src = ANY \<or> src = x" "\<And>y. y \<in> set us \<Longrightarrow> src \<noteq> ANY \<and> src \<noteq> y"
      "mini_receive caller src m_ptr flags s = Some (OK, s')" "sched_inv s'"
      "ipc_links s' (C(caller := us @ vs))" "\<not> sending s' x"
      "k_mem s' = cp_mess x (data_phys s x (p_messbuf (procs s x))) (data_phys s caller m_ptr) (k_mem s)"
      "p_rts_flags (procs s' x) = p_rts_flags (procs s x) - {SENDING}"
  | (blocked) s' where "flags AND NON_BLOCKING = 0" "mini_receive caller src m_ptr flags s = Some (OK, s')"
      "sched_inv s'" "ipc_links s' C" "receiving s' caller" "getfrom s' caller = src"
      "sending s' = sending s" "k_mem s' = k_mem s"
      "sending s caller \<or> (\<forall>y \<in> set (C caller). src \<noteq> ANY \<and> src \<noteq> y)"
  | (notready) "flags AND NON_BLOCKING \<noteq> 0" "mini_receive caller src m_ptr flags s = Some (ENOTREADY, s)"
      "sending s caller \<or> (\<forall>y \<in> set (C caller). src \<noteq> ANY \<and> src \<noteq> y)"
proof -
  let ?pi = "p_priv (procs s caller)"
  let ?ntf = "if sending s caller \<or> SENDREC_BUSY \<in> s_flags (privs s ?pi) then None
    else find_notify (privs s) src (s_notify_pending (privs s ?pi)) [0, 1]"
  define P where "P = (\<lambda>x. src = ANY \<or> src = p_nr (procs s x))"
  define us where "us = takeWhile (\<lambda>x. \<not> P x) (C caller)"
  note ch = ipc_linksD(1) [OF I ok] and mem = ipc_linksD(2) [OF I ok]
  have find: "chain_find P (callq s caller) (qlink s) Head = Some (slot_after us)"
    unfolding us_def by (rule chain_find_chain [OF ch])
  have Pm: "P x \<longleftrightarrow> src = ANY \<or> src = x" if "x \<in> set (C caller)" for x
    using mem [of x] that sched_inv_nr [OF S] by (auto simp: P_def)
  have P': "(\<lambda>x. src = ANY \<or> src = p_nr (procs s x)) = P" by (simp add: P_def)
  show thesis
  proof (cases ?ntf)
    case (Some a)
    then obtain src_id n where a: "a = (src_id, n)" by (cases a)
    from Some a have nt: "\<not> sending s caller" "SENDREC_BUSY \<notin> s_flags (privs s ?pi)"
      "find_notify (privs s) src (s_notify_pending (privs s ?pi)) [0, 1] = Some (src_id, n)"
      by (simp_all split: if_splits)
    then show ?thesis
      by (intro notified [of src_id n])
        (use pv in \<open>simp_all add: mini_receive_def view_fold priv_of_def Let_def\<close>)
  next
    case none: None
    consider (stop) "sending s caller \<or> (\<forall>y \<in> set (C caller). \<not> P y)"
      | (hit) "\<not> sending s caller" "\<exists>y \<in> set (C caller). P y" by blast
    then show ?thesis
    proof cases
      case stop
      then have stop': "sending s caller \<or> (\<forall>y \<in> set (C caller). src \<noteq> ANY \<and> src \<noteq> y)"
        using Pm by blast
      have end_: "rd (callq s caller) (qlink s) (slot_after us) = None" if "\<not> sending s caller"
      proof -
        from that stop have "us = C caller" by (simp add: us_def takeWhile_eq_all_conv)
        with ch show ?thesis using rd_slot_after [of "qlink s" _ "C caller" "[]"] by simp
      qed
      show ?thesis
      proof (cases "flags AND NON_BLOCKING = 0")
        case True
        obtain s' where s':
          "rts_set {RECEIVING} caller (upd_proc caller (\<lambda>p. p\<lparr>p_getfrom := src, p_messbuf := m_ptr\<rparr>) s) = Some s'"
          "sched_inv s'" "ipc_links s' C" "receiving s' caller" "getfrom s' caller = src"
          "sending s' = sending s" "k_mem s' = k_mem s" "privs s' = privs s"
          by (rule receive_block [OF S I ok _ sr [rule_format], of m_ptr]) (use stop' in blast)+
        have "mini_receive caller src m_ptr flags s = Some (OK, s')"
          using none pv True s'(1) find end_
          by (cases "sending s caller") (simp_all add: mini_receive_def view_fold Let_def P')
        with s' True stop' show ?thesis by (intro blocked [of s']) simp_all
      next
        case False
        have "mini_receive caller src m_ptr flags s = Some (ENOTREADY, s)"
          using none pv False find end_
          by (cases "sending s caller") (simp_all add: mini_receive_def view_fold Let_def P')
        with False stop' show ?thesis by (intro notready) simp_all
      qed
    next
      case hit
      define x where "x = hd (dropWhile (\<lambda>x. \<not> P x) (C caller))"
      define vs where "vs = tl (dropWhile (\<lambda>x. \<not> P x) (C caller))"
      from hit(2) have dw: "dropWhile (\<lambda>x. \<not> P x) (C caller) \<noteq> []" by (auto simp: dropWhile_eq_Nil_conv)
      then have xs: "C caller = us @ x # vs" by (simp add: us_def x_def vs_def)
      have px: "P x" using hd_dropWhile [OF dw] by (simp add: x_def)
      have xm: "x \<in> set (C caller)" by (simp add: xs)
      with mem have x: "isokprocn x" "sending s x" "sendto s x = caller" by auto
      have hitx: "rd (callq s caller) (qlink s) (slot_after us) = Some x"
        using rd_slot_after [OF ch [unfolded xs]] by simp
      define s1 where "s1 = CopyMess x x (p_messbuf (procs s x)) caller m_ptr s"
      have S1: "sched_inv s1" and V1: "same_ipc s s1" using S by (simp_all add: s1_def)
      have f1: "{SENDING} \<subseteq> p_rts_flags (procs s1 x)" using x(2) by (simp add: s1_def sending_def)
      obtain s2 where s2: "rts_unset {SENDING} x s1 = Some s2" "sched_inv s2"
        "sending s2 = (sending s1)(x := sending s1 x \<and> SENDING \<notin> {SENDING})"
        "receiving s2 = (receiving s1)(x := receiving s1 x \<and> RECEIVING \<notin> {SENDING})"
        "sendto s2 = sendto s1" "getfrom s2 = getfrom s1" "qlink s2 = qlink s1" "callq s2 = callq s1"
        "sched_frame (upd_proc x (p_rts_flags_update (\<lambda>f. f - {SENDING})) s1) s2"
        by (rule unset_flag [OF S1 x(1) f1]) blast+
      define s' where "s' = callq_assign caller (slot_after us) (qlink s2 x) s2"
      have V': "sending s' = (sending s)(x := False)" "receiving s' = receiving s"
        "sendto s' = sendto s" "getfrom s' = getfrom s"
        "qlink s' = wr_nx (slot_after us) (qlink s x) (qlink s)"
        "callq s' = (callq s)(caller := wr_hd (slot_after us) (qlink s x) (callq s caller))"
        using s2 V1 by (simp_all add: s'_def callq_assign_view same_ipc_def fun_upd_idem)
      have L: "ipc_links s' (C(caller := us @ vs))"
        by (rule ipc_links_unblock [OF I ok xs _ V']) (use hit in blast)
      have r: "mini_receive caller src m_ptr flags s = Some (OK, s')"
        using none pv hit(1) find hitx s2(1) sched_inv_nr [OF S x(1)]
        by (simp add: mini_receive_def view_fold Let_def P' s1_def s'_def)
      have mem': "k_mem s' = cp_mess x (data_phys s x (p_messbuf (procs s x))) (data_phys s caller m_ptr) (k_mem s)"
        using sched_frame_mem [OF s2(9)]
        by (cases "slot_after us") (simp_all add: s'_def s1_def CopyMess_def)
      have flx: "p_rts_flags (procs s' x) = p_rts_flags (procs s x) - {SENDING}"
        using sched_frame_flags [OF s2(9), of x]
        by (cases "slot_after us") (auto simp: s'_def s1_def)
      have nP: "src \<noteq> ANY \<and> src \<noteq> y" if "y \<in> set us" for y
        using set_takeWhileD [of y "\<lambda>x. \<not> P x" "C caller"] that Pm [of y] unfolding us_def by blast
      have S': "sched_inv s'" using s2(2) by (simp add: s'_def)
      have "\<not> sending s' x" by (simp add: V')
      with hit(1) px Pm [OF xm] r L mem' flx S' nP show ?thesis
        by (intro taken [OF _ xs, of s']) simp_all
    qed
  qed
qed

lemma ipc_inv_cong: "sched_inv s' = sched_inv s \<Longrightarrow> same_ipc s s' \<Longrightarrow> ipc_inv s' = ipc_inv s"
  by (simp add: ipc_inv_def ipc_links_cong)

text \<open>Two privilege tables that agree up to pending work and flags.\<close>

definition priv_core :: "priv \<Rightarrow> priv" where
  "priv_core p = p\<lparr>s_notify_pending := (\<lambda>_. 0), s_int_pending := 0, s_sig_pending := 0, s_flags := {}\<rparr>"

lemma priv_core_upd [simp]:
  "priv_core (s_notify_pending_update a p) = priv_core p"
  "priv_core (s_int_pending_update b p) = priv_core p"
  "priv_core (s_sig_pending_update c p) = priv_core p" "priv_core (s_flags_update d p) = priv_core p"
  by (simp_all add: priv_core_def)

lemma mini_notify_cases:
  assumes S: "sched_inv s" and I: "ipc_links s C" and ok: "isokprocn caller" "isokprocn dst"
    and pv: "has_priv s dst" "has_priv s caller"
  obtains
    (delivered) s' where "waiting_for s dst caller" "SENDREC_BUSY \<notin> s_flags (priv_of s dst)"
      "mini_notify caller dst s = Some (OK, s')" "sched_inv s'" "ipc_links s' C" "\<not> receiving s' dst"
      "sched_frame (upd_proc dst (p_rts_flags_update (\<lambda>f. f - {RECEIVING}))
         (CopyMess caller HARDWARE (k_mess_buf s) dst (p_messbuf (procs s dst)) (BuildMess caller dst s))) s'"
  | (pending) "\<not> waiting_for s dst caller \<or> SENDREC_BUSY \<in> s_flags (priv_of s dst)"
      "mini_notify caller dst s = Some (OK,
         upd_priv (p_priv (procs s dst)) (s_notify_pending_update (set_sys_bit (s_id (priv_of s caller)))) s)"
proof (cases "waiting_for s dst caller \<and> SENDREC_BUSY \<notin> s_flags (priv_of s dst)")
  case True
  define s1 where "s1 = CopyMess caller HARDWARE (k_mess_buf s) dst (p_messbuf (procs s dst)) (BuildMess caller dst s)"
  have S1: "sched_inv s1" and V1: "same_ipc s s1" using S
    by (auto simp: s1_def intro: same_ipc_trans [OF BuildMess_same CopyMess_same])
  have f1: "{RECEIVING} \<subseteq> p_rts_flags (procs s1 dst)" using True by (simp add: s1_def waiting_for_def)
  obtain s' where s': "rts_unset {RECEIVING} dst s1 = Some s'" "sched_inv s'"
    "sending s' = (sending s1)(dst := sending s1 dst \<and> SENDING \<notin> {RECEIVING})"
    "receiving s' = (receiving s1)(dst := receiving s1 dst \<and> RECEIVING \<notin> {RECEIVING})"
    "sendto s' = sendto s1" "getfrom s' = getfrom s1" "qlink s' = qlink s1" "callq s' = callq s1"
    "sched_frame (upd_proc dst (p_rts_flags_update (\<lambda>f. f - {RECEIVING})) s1) s'"
    by (rule unset_flag [OF S1 ok(2) f1]) blast+
  have "ipc_links s' C"
    by (rule ipc_links_wake [OF I, of s' dst]) (use s' V1 in \<open>simp_all add: same_ipc_def\<close>)
  moreover have "mini_notify caller dst s = Some (OK, s')"
    using True ok pv s'(1) sched_inv_nr [OF S ok(1)] by (simp add: mini_notify_def s1_def)
  ultimately show ?thesis using True s' by (intro delivered [of s']) (simp_all add: s1_def)
next
  case False
  then show ?thesis using ok pv sched_inv_nr [OF S ok(1)] by (intro pending) (auto simp: mini_notify_def)
qed

lemma mini_notify_inv:
  assumes "ipc_inv s" "isokprocn caller" "isokprocn dst" "has_priv s dst" "has_priv s caller"
  obtains s' where "mini_notify caller dst s = Some (OK, s')" "ipc_inv s'"
    "\<And>n. n \<noteq> dst \<Longrightarrow> p_rts_flags (procs s' n) = p_rts_flags (procs s n)"
    "\<And>n. p_priv (procs s' n) = p_priv (procs s n)"
    "\<And>i. priv_core (privs s' i) = priv_core (privs s i)"
proof -
  from assms(1) obtain C where S: "sched_inv s" and I: "ipc_links s C" by (auto simp: ipc_inv_def)
  have pc: "priv_core (privs (BuildMess a b s) i) = priv_core (privs s i)" for a b i
    by (simp add: BuildMess_def Let_def)
  from S I assms(2-5) show thesis
  proof (cases rule: mini_notify_cases)
    case (delivered s')
    from delivered(4,5) have "ipc_inv s'" unfolding ipc_inv_def by blast
    then show ?thesis
      by (intro that [OF delivered(3)]) (simp_all add: sched_frameD [OF delivered(7)] pc)
  next
    case pending
    have "ipc_inv (upd_priv i (s_notify_pending_update f) s)" for i f
      using assms(1) by (subst ipc_inv_cong) (simp_all add: sched_inv_upd_priv)
    then show ?thesis by (intro that [OF pending(2)]) simp_all
  qed
qed

text \<open>The words of a notification message to \<open>dst\<close> that the code sets.\<close>

definition notification :: "int \<Rightarrow> int \<Rightarrow> kstate \<Rightarrow> message \<Rightarrow> bool" where
  "notification src dst s m \<longleftrightarrow> m_source m = src \<and> m_type m = NOTIFY_FROM src \<and>
     m_w4 m = word_of_int (realtime s) \<and>
     (src = HARDWARE \<longrightarrow> m_w3 m = s_int_pending (priv_of s dst)) \<and>
     (src = SYSTEM \<longrightarrow> m_w3 m = s_sig_pending (priv_of s dst))"

lemma ok_word: "isokprocn n \<Longrightarrow> - (2 ^ 31) \<le> n \<and> n < 2 ^ 31"
  by (simp add: isokprocn_def)

lemma NOTIFY_FROM_word:
  assumes "isokprocn n"
  shows "- (2 ^ 31) \<le> NOTIFY_FROM n" "NOTIFY_FROM n < 2 ^ 31"
proof -
  have "0 \<le> n + 4" "n + 4 < 2 ^ 31" using assms by (simp_all add: isokprocn_def)
  then have "0 \<le> NOTIFY_FROM n \<and> NOTIFY_FROM n < 2 ^ 31"
    using OR_upper [of "0x1000" 31 "n + 4"] by (simp add: NOTIFY_FROM_def)
  then show "- (2 ^ 31) \<le> NOTIFY_FROM n" "NOTIFY_FROM n < 2 ^ 31" by simp_all
qed

lemma BuildMess_notification:
  assumes "isokprocn src"
  shows "notification src dst s (load_mess (data_phys s HARDWARE (k_mess_buf s)) (k_mem (BuildMess src dst s)))"
proof -
  have ap: "apart32 4 0" "apart32 0 4" "apart32 0 24" "apart32 4 24" "apart32 0 20" "apart32 4 20" "apart32 24 20"
    "apart32 24 0" "apart32 24 4" "apart32 20 24" "apart32 20 0" "apart32 20 4"
    by (simp_all add: apart32_def)
  have "sint (word_of_int src :: u32) = src" "sint (word_of_int (NOTIFY_FROM src) :: u32) = NOTIFY_FROM src"
    using ok_word [OF assms] NOTIFY_FROM_word [OF assms] slong_id [of src] slong_id [of "NOTIFY_FROM src"]
    by (simp_all add: slong_def)
  then show ?thesis
    by (auto simp: notification_def BuildMess_def load_mess_def Let_def priv_of_def load32_store32_apart ap)
qed

lemma notify_delivered:
  assumes "sched_frame (upd_proc dst (p_rts_flags_update (\<lambda>f. f - {RECEIVING}))
      (CopyMess caller HARDWARE (k_mess_buf s) dst (p_messbuf (procs s dst)) (BuildMess caller dst s))) s'"
    and "isokprocn caller"
  shows "apart (data_phys s HARDWARE (k_mess_buf s)) (data_phys s dst (p_messbuf (procs s dst))) MESS_SIZE \<Longrightarrow>
      notification caller dst s (load_mess (data_phys s dst (p_messbuf (procs s dst))) (k_mem s'))"
    "s_int_pending (priv_of s' dst) = (if caller = HARDWARE then 0 else s_int_pending (priv_of s dst))"
    "s_sig_pending (priv_of s' dst) = (if caller = SYSTEM then 0 else s_sig_pending (priv_of s dst))"
    "s_notify_pending (priv_of s' dst) = s_notify_pending (priv_of s dst)"
proof -
  have d: "data_phys (BuildMess caller dst s) n a = data_phys s n a" for n a
    by (simp add: BuildMess_def Let_def data_phys_def)
  have "k_mem s' = cp_mess caller (data_phys s HARDWARE (k_mess_buf s))
      (data_phys s dst (p_messbuf (procs s dst))) (k_mem (BuildMess caller dst s))"
    using sched_frame_mem [OF assms(1)] by (simp add: CopyMess_def d)
  then show "notification caller dst s (load_mess (data_phys s dst (p_messbuf (procs s dst))) (k_mem s'))"
    if "apart (data_phys s HARDWARE (k_mess_buf s)) (data_phys s dst (p_messbuf (procs s dst))) MESS_SIZE"
    using BuildMess_notification [OF assms(2), of dst s] ok_word [OF assms(2)] that
    by (simp add: load_cp_mess notification_def)
  have p: "priv_of s' dst = privs (BuildMess caller dst s) (p_priv (procs s dst))"
    using sched_frameD [OF assms(1)] by (simp add: priv_of_def)
  show "s_int_pending (priv_of s' dst) = (if caller = HARDWARE then 0 else s_int_pending (priv_of s dst))"
    "s_sig_pending (priv_of s' dst) = (if caller = SYSTEM then 0 else s_sig_pending (priv_of s dst))"
    "s_notify_pending (priv_of s' dst) = s_notify_pending (priv_of s dst)"
    unfolding p by (simp_all add: BuildMess_def Let_def priv_of_def)
qed

text \<open>
  A notification reaches its destination in one of two ways: \<open>wakes\<close> tells whether \<open>dst\<close> is blocked in
  a receive that takes it at once. \<open>told\<close> states of a later state that it did.
\<close>

definition wakes :: "kstate \<Rightarrow> int \<Rightarrow> int \<Rightarrow> bool" where
  "wakes s dst src \<longleftrightarrow> waiting_for s dst src \<and> SENDREC_BUSY \<notin> s_flags (priv_of s dst)"

definition told :: "int \<Rightarrow> int \<Rightarrow> kstate \<Rightarrow> kstate \<Rightarrow> bool" where
  "told src dst s s' \<longleftrightarrow>
     (if wakes s dst src then RECEIVING \<notin> p_rts_flags (procs s' dst)
      else get_sys_bit (s_notify_pending (priv_of s' dst)) (s_id (priv_of s src)))"

lemma mini_notify_effect:
  assumes "ipc_inv s" "isokprocn caller" "isokprocn dst" "has_priv s dst" "has_priv s caller"
  obtains s' where "mini_notify caller dst s = Some (OK, s')" "ipc_inv s'"
    "\<And>n. p_rts_flags (procs s' n) = p_rts_flags (procs s n) - (if wakes s dst caller \<and> n = dst then {RECEIVING} else {})"
    "\<And>n. p_getfrom (procs s' n) = p_getfrom (procs s n)" "\<And>n. p_priv (procs s' n) = p_priv (procs s n)"
    "\<And>i. s_id (privs s' i) = s_id (privs s i)" "\<And>i. s_flags (privs s' i) = s_flags (privs s i)"
    "\<And>i. s_notify_pending (privs s' i) = (if \<not> wakes s dst caller \<and> i = p_priv (procs s dst)
       then set_sys_bit (s_id (priv_of s caller)) (s_notify_pending (privs s i)) else s_notify_pending (privs s i))"
    "s_sig_pending (priv_of s' dst) =
       (if wakes s dst caller \<and> caller = SYSTEM then 0 else s_sig_pending (priv_of s dst))"
    "wakes s dst caller \<Longrightarrow>
       apart (data_phys s HARDWARE (k_mess_buf s)) (data_phys s dst (p_messbuf (procs s dst))) MESS_SIZE \<Longrightarrow>
       notification caller dst s (load_mess (data_phys s dst (p_messbuf (procs s dst))) (k_mem s'))"
proof -
  from assms(1) obtain C where S: "sched_inv s" and I: "ipc_links s C" by (auto simp: ipc_inv_def)
  have b: "s_id (privs (BuildMess c d s) i) = s_id (privs s i)"
    "s_flags (privs (BuildMess c d s) i) = s_flags (privs s i)"
    "s_notify_pending (privs (BuildMess c d s) i) = s_notify_pending (privs s i)" for c d i
    by (simp_all add: BuildMess_def Let_def)
  from S I assms(2-5) show thesis
  proof (cases rule: mini_notify_cases)
    case (delivered s')
    from delivered(4,5) have "ipc_inv s'" unfolding ipc_inv_def by blast
    moreover note nd = notify_delivered [OF delivered(7) assms(2)] and fr = sched_frameD [OF delivered(7)]
    ultimately show ?thesis using delivered(1,2)
      by (intro that [OF delivered(3)]) (simp_all add: fr b nd wakes_def)
  next
    case pending
    have "ipc_inv (upd_priv i (s_notify_pending_update f) s)" for i f
      using assms(1) by (subst ipc_inv_cong) (simp_all add: sched_inv_upd_priv)
    with pending(1) show ?thesis by (intro that [OF pending(2)]) (auto simp: wakes_def priv_of_def)
  qed
qed

text \<open>What later notifications leave of an earlier one.\<close>

definition notify_mono :: "kstate \<Rightarrow> kstate \<Rightarrow> bool" where
  "notify_mono s s' \<longleftrightarrow>
     (\<forall>n. p_rts_flags (procs s' n) = p_rts_flags (procs s n) \<or>
          p_rts_flags (procs s' n) = p_rts_flags (procs s n) - {RECEIVING}) \<and>
     (\<forall>n. p_getfrom (procs s' n) = p_getfrom (procs s n) \<and> p_priv (procs s' n) = p_priv (procs s n)) \<and>
     (\<forall>i. s_id (privs s' i) = s_id (privs s i) \<and> s_flags (privs s' i) = s_flags (privs s i)) \<and>
     (\<forall>i b. get_sys_bit (s_notify_pending (privs s i)) b \<longrightarrow> get_sys_bit (s_notify_pending (privs s' i)) b)"

lemma notify_mono_refl [simp]: "notify_mono s s"
  by (simp add: notify_mono_def)

lemma notify_mono_trans:
  assumes "notify_mono s t" "notify_mono t u"
  shows "notify_mono s u"
proof -
  have "p_rts_flags (procs u n) = p_rts_flags (procs s n) \<or> p_rts_flags (procs u n) = p_rts_flags (procs s n) - {RECEIVING}" for n
    using assms unfolding notify_mono_def by (metis Diff_idemp)
  with assms show ?thesis by (simp add: notify_mono_def)
qed

lemma told_later: "told src dst s t \<Longrightarrow> notify_mono t u \<Longrightarrow> told src dst s u"
  unfolding told_def notify_mono_def priv_of_def by (metis DiffE)

lemma told_earlier:
  assumes "notify_mono s t" "told src dst t u" "notify_mono t u"
  shows "told src dst s u"
proof (cases "RECEIVING \<in> p_rts_flags (procs t dst)")
  case True
  then have f: "p_rts_flags (procs t dst) = p_rts_flags (procs s dst)" using assms(1) by (auto simp: notify_mono_def)
  with assms(1) have "wakes t dst src = wakes s dst src" "s_id (priv_of t src) = s_id (priv_of s src)"
    by (simp_all add: wakes_def waiting_for_def notify_mono_def priv_of_def)
  with assms(2) show ?thesis by (auto simp: told_def split: if_splits)
next
  case False
  then have "\<not> wakes t dst src" by (simp add: wakes_def waiting_for_def)
  moreover have "RECEIVING \<notin> p_rts_flags (procs u dst)" using False assms(3) unfolding notify_mono_def by (metis DiffE)
  moreover have "s_id (priv_of t src) = s_id (priv_of s src)" using assms(1) by (simp add: notify_mono_def priv_of_def)
  ultimately show ?thesis using assms(2) by (simp add: told_def)
qed

lemma first_match_unique:
  assumes "us @ x # vs = us' @ x' # vs'" "P x" "P x'" "\<forall>y \<in> set us. \<not> P y" "\<forall>y \<in> set us'. \<not> P y"
  shows "us = us' \<and> x = x' \<and> vs = vs'"
proof -
  have "takeWhile (\<lambda>y. \<not> P y) (us @ x # vs) = us" "takeWhile (\<lambda>y. \<not> P y) (us' @ x' # vs') = us'"
    using assms(2-5) by (simp_all add: takeWhile_append)
  then have "us = us'" using assms(1) by metis
  with assms(1) show ?thesis by simp
qed

lemma mini_receive_inv:
  assumes "ipc_inv s" "isokprocn caller" "p_rts_flags (procs s caller) \<subseteq> {SENDING}" "has_priv s caller"
    "sending s caller \<longrightarrow> src = sendto s caller"
  obtains r s' where "mini_receive caller src m_ptr flags s = Some (r, s')" "ipc_inv s'"
    "r = OK \<or> r = ENOTREADY \<and> s' = s"
proof -
  from assms(1) obtain C where S: "sched_inv s" and I: "ipc_links s C" by (auto simp: ipc_inv_def)
  from S I assms(2-5) show thesis
  proof (cases rule: mini_receive_cases [where m_ptr = m_ptr and flags = flags])
    case (notified src_id n)
    have "ipc_inv (CopyMess n HARDWARE (k_mess_buf s) caller m_ptr (BuildMess n caller
        (upd_priv (p_priv (procs s caller)) (s_notify_pending_update (unset_sys_bit src_id)) s)))"
      using assms(1)
      by (subst ipc_inv_cong) (auto simp: sched_inv_upd_priv intro: same_ipc_procs)
    then show ?thesis by (intro that [OF notified(4)]) simp_all
  next
    case (taken us x vs s')
    then show ?thesis by (intro that [of OK s']) (auto simp: ipc_inv_def)
  next
    case (blocked s')
    then show ?thesis by (intro that [of OK s']) (auto simp: ipc_inv_def)
  next
    case notready
    then show ?thesis using assms(1) by (intro that [OF notready(2)]) simp_all
  qed
qed

lemma mini_send_inv:
  assumes "ipc_inv s" "isokprocn caller" "isokprocn dst" "p_rts_flags (procs s caller) = {}" "dst \<noteq> caller"
  obtains r s' where "mini_send caller dst m_ptr flags s = Some (r, s')" "ipc_inv s'"
    "r = (if (dst, caller) \<in> (sends s)\<^sup>+ then ELOCKED
          else if waiting_for s dst caller \<or> flags AND NON_BLOCKING = 0 then OK else ENOTREADY)"
    "r \<noteq> OK \<longrightarrow> s' = s" "p_rts_flags (procs s' caller) \<subseteq> {SENDING}"
    "sending s' caller \<longrightarrow> sendto s' caller = dst"
    "\<And>m. p_priv (procs s' m) = p_priv (procs s m)" "privs s' = privs s"
proof -
  from assms(1) obtain C where S: "sched_inv s" and I: "ipc_links s C" by (auto simp: ipc_inv_def)
  have ns: "\<not> sending s caller" using assms(4) by (simp add: sending_def)
  have lk: "(dst, caller) \<in> (sends s)\<^sup>+ \<Longrightarrow> \<not> waiting_for s dst caller"
    by (auto dest!: tranclD simp: sends_def waiting_for_def view_fold)
  from S I assms(2-5) show thesis
  proof (cases rule: mini_send_cases [where m_ptr = m_ptr and flags = flags])
    case locked
    with assms ns show ?thesis by (intro that [OF locked(2)]) simp_all
  next
    case (delivered s')
    moreover from delivered have "ipc_inv s'" unfolding ipc_inv_def by blast
    moreover from delivered(6) have "\<not> sending s' caller" by (simp add: sending_def)
    ultimately show ?thesis using lk
      by (intro that [OF delivered(2)]) (auto simp: sched_frameD [OF delivered(7)])
  next
    case (blocked s')
    moreover from blocked have "ipc_inv s'" unfolding ipc_inv_def by blast
    ultimately show ?thesis using assms(4)
      by (intro that [OF blocked(4)]) simp_all
  next
    case notready
    with assms ns show ?thesis by (intro that [OF notready(4)]) simp_all
  qed
qed

text \<open>What a notification leaves alone, whatever the state.\<close>

lemma mini_notify_frame:
  assumes "mini_notify a b s = Some (r, s')"
  shows "k_timers s' = k_timers s" "clock_timers s' = clock_timers s" "realtime s' = realtime s"
    "next_timeout s' = next_timeout s" "irq_hooks s' = irq_hooks s" "irq_handlers s' = irq_handlers s"
    "prev_ptr s' = prev_ptr s" "p_priv (procs s' n) = p_priv (procs s n)"
    "lost_ticks s' = lost_ticks s" "p_user_time (procs s' n) = p_user_time (procs s n)"
    "p_sys_time (procs s' n) = p_sys_time (procs s n)" "p_pending (procs s' n) = p_pending (procs s n)"
proof -
  have b: "k_timers (BuildMess c d s) = k_timers s" "clock_timers (BuildMess c d s) = clock_timers s"
    "realtime (BuildMess c d s) = realtime s" "next_timeout (BuildMess c d s) = next_timeout s"
    "irq_hooks (BuildMess c d s) = irq_hooks s" "irq_handlers (BuildMess c d s) = irq_handlers s"
    "prev_ptr (BuildMess c d s) = prev_ptr s" "lost_ticks (BuildMess c d s) = lost_ticks s" for c d
    by (simp_all add: BuildMess_def Let_def)
  have c: "k_timers (CopyMess c d e f g t) = k_timers t" "clock_timers (CopyMess c d e f g t) = clock_timers t"
    "realtime (CopyMess c d e f g t) = realtime t" "next_timeout (CopyMess c d e f g t) = next_timeout t"
    "irq_hooks (CopyMess c d e f g t) = irq_hooks t" "irq_handlers (CopyMess c d e f g t) = irq_handlers t"
    "prev_ptr (CopyMess c d e f g t) = prev_ptr t" "lost_ticks (CopyMess c d e f g t) = lost_ticks t" for c d e f g t
    by (simp_all add: CopyMess_def)
  have "k_timers s' = k_timers s \<and> clock_timers s' = clock_timers s \<and> realtime s' = realtime s \<and>
    next_timeout s' = next_timeout s \<and> irq_hooks s' = irq_hooks s \<and> irq_handlers s' = irq_handlers s \<and>
    prev_ptr s' = prev_ptr s \<and> p_priv (procs s' n) = p_priv (procs s n) \<and>
    lost_ticks s' = lost_ticks s \<and> p_user_time (procs s' n) = p_user_time (procs s n) \<and>
    p_sys_time (procs s' n) = p_sys_time (procs s n) \<and> p_pending (procs s' n) = p_pending (procs s n)"
  proof (cases "waiting_for s b (p_nr (procs s a)) \<and> SENDREC_BUSY \<notin> s_flags (priv_of s b)")
    case True
    with assms have "rts_unset {RECEIVING} b (CopyMess (p_nr (procs s a)) HARDWARE (k_mess_buf s) b
        (p_messbuf (procs s b)) (BuildMess (p_nr (procs s a)) b s)) = Some s'"
      by (auto simp: mini_notify_def Let_def)
    from sched_frameD [OF rts_unset_frame [OF this]] show ?thesis by (simp add: b c)
  next
    case False
    with assms show ?thesis by (auto simp: mini_notify_def Let_def)
  qed
  then show "k_timers s' = k_timers s" "clock_timers s' = clock_timers s" "realtime s' = realtime s"
    "next_timeout s' = next_timeout s" "irq_hooks s' = irq_hooks s" "irq_handlers s' = irq_handlers s"
    "prev_ptr s' = prev_ptr s" "p_priv (procs s' n) = p_priv (procs s n)"
    "lost_ticks s' = lost_ticks s" "p_user_time (procs s' n) = p_user_time (procs s n)"
    "p_sys_time (procs s' n) = p_sys_time (procs s n)" "p_pending (procs s' n) = p_pending (procs s n)"
    by simp_all
qed

subsection \<open>The concrete state\<close>

lemma demo_sends: "sends demo_state = {}"
  by (auto simp: sends_def sending_def demo_proc_def split: if_splits)

lemma demo_ipc_links: "ipc_links demo_state (\<lambda>_. [])"
proof -
  have "callers demo_state (\<lambda>_. [])"
    by (simp add: callers_def demo_sends callq_def) (simp add: demo_proc_def)
  moreover have "recv_ok demo_state"
    unfolding recv_ok_def demo_sends by (simp add: sending_def demo_proc_def)
  ultimately show ?thesis by (simp add: ipc_links_def send_ok_def demo_sends wf_acyclic)
qed

lemma demo_ipc_inv: "ipc_inv demo_state"
  unfolding ipc_inv_def using demo_sched_inv demo_ipc_links by blast

text \<open>The same system with PM blocked in a send to FS, which runs.\<close>

definition demo_blocked :: kstate where
  "demo_blocked = (upd_proc 0 (\<lambda>p. p\<lparr>p_rts_flags := {SENDING}, p_sendto := 1, p_nextready := None\<rparr>)
     (upd_proc 1 (p_caller_q_update (\<lambda>_. Some 0)) demo_state))
     \<lparr>rdy_head := (rdy_head demo_state)(3 := Some 1), proc_ptr := Some 1, next_ptr := Some 1\<rparr>"

lemma demo_blocked_procs:
  "procs demo_blocked 0 = (demo_proc 0)\<lparr>p_rts_flags := {SENDING}, p_sendto := 1, p_nextready := None\<rparr>"
  "procs demo_blocked 1 = (demo_proc 1)\<lparr>p_caller_q := Some 0\<rparr>"
  "n \<noteq> 0 \<Longrightarrow> n \<noteq> 1 \<Longrightarrow> procs demo_blocked n = demo_proc n"
  "privs demo_blocked = demo_priv" "k_mem demo_blocked = (\<lambda>_. 0)" "k_mess_buf demo_blocked = 0x800"
  by (simp_all add: demo_blocked_def)

lemma demo_blocked_sched_inv: "sched_inv demo_blocked"
proof -
  have "rqs demo_blocked (demo_queues(3 := [1]))"
    by (auto simp: rqs_def queue_numbers demo_queues_def demo_blocked_def nextready_def demo_proc_def)
      (simp_all add: demo_state_def)
  moreover have "ready_set (demo_queues(3 := [1])) = {- 4, 1}"
  proof -
    have "3 \<in> queue_nrs" "demo_queues 3 = [0, 1]" by (simp_all add: queue_numbers demo_queues_def)
    then show ?thesis using demo_rqs demo_ready by (auto simp: ready_set_update)
  qed
  moreover have "{n. isokprocn n \<and> p_rts_flags (procs demo_blocked n) = {}} = {- 4, 1}"
    by (auto simp: demo_blocked_def demo_proc_def isokprocn_def split: if_splits)
  moreover have "next_ok demo_blocked"
    by (simp add: next_ok_def demo_blocked_def) (simp add: demo_state_def)
  moreover have "sched_wf demo_blocked"
    by (auto simp: sched_wf_def demo_blocked_def demo_proc_def prio_ok_def priv_of_def demo_priv_def)
  ultimately show ?thesis unfolding sched_inv_def on_ready_def by metis
qed

lemma demo_blocked_sends: "sends demo_blocked = {(0, 1)}"
  by (auto simp: sends_def sending_def sendto_def demo_blocked_def demo_proc_def isokprocn_def split: if_splits)

lemma demo_blocked_ipc_links: "ipc_links demo_blocked ((\<lambda>_. [])(1 := [0]))"
proof -
  have "callers demo_blocked ((\<lambda>_. [])(1 := [0]))"
    by (auto simp: callers_def demo_blocked_sends callq_def qlink_def)
      (simp_all add: demo_blocked_def demo_proc_def)
  moreover have "recv_ok demo_blocked"
    unfolding recv_ok_def demo_blocked_sends
    by (auto simp: sending_def receiving_def demo_blocked_def demo_proc_def)
  moreover have "acyclic {(0 :: int, 1 :: int)}" by (simp add: acyclic_insert wf_acyclic)
  ultimately show ?thesis by (simp add: ipc_links_def send_ok_def demo_blocked_sends isokprocn_def)
qed

subsection \<open>Properties\<close>

text \<open>
  C1. \<^verbatim>\<open>mini_send\<close> by a running process to another process always returns (the deadlock check ends)
  and keeps the invariant of message passing: the blocked senders stay acyclic, the caller queues
  are right, and nobody is left blocked in a receive that a queued sender could satisfy. The result
  is ELOCKED exactly when the destination already waits, over a chain of blocked senders, for the
  caller; otherwise OK if the message was delivered or the caller may block, else ENOTREADY. On
  an error nothing changes. A send to oneself is excluded: it closes a cycle that the check does not
  see (\<open>mini_send_self_loops\<close> below).
\<close>

theorem mini_send_safe:
  assumes "ipc_inv s" "isokprocn caller" "isokprocn dst" "p_rts_flags (procs s caller) = {}" "dst \<noteq> caller"
  shows "\<exists>r s'. mini_send caller dst m_ptr flags s = Some (r, s') \<and> ipc_inv s' \<and>
    r = (if (dst, caller) \<in> (sends s)\<^sup>+ then ELOCKED
         else if waiting_for s dst caller \<or> flags AND NON_BLOCKING = 0 then OK else ENOTREADY) \<and>
    (r \<noteq> OK \<longrightarrow> s' = s)"
  by (rule mini_send_inv [OF assms, of m_ptr flags]) blast

theorem mini_send_safe_witness:
  "(\<exists>s'. mini_send 0 2 0x40 0 demo_state = Some (OK, s') \<and> ipc_inv s') \<and>
   mini_send 0 1 0x40 NON_BLOCKING demo_state = Some (ENOTREADY, demo_state)"
  using mini_send_safe [OF demo_ipc_inv, of 0 2 "0x40" 0]
    mini_send_safe [OF demo_ipc_inv, of 0 1 "0x40" NON_BLOCKING] demo_ipc_links
  by (auto simp: isokprocn_def demo_proc_def waiting_for_def demo_sends)

text \<open>
  C22. Delivery by \<^verbatim>\<open>mini_send\<close>: when the destination waits for the caller, \<^verbatim>\<open>cp_mess\<close> copies the
  message and nothing else in memory changes hands; the destination then finds in its buffer exactly
  the words of the caller's message with the source set to the caller, as long as its buffer does
  not start inside the caller's, and it is no longer blocked in the receive.
\<close>

theorem mini_send_delivers:
  assumes "ipc_inv s" "isokprocn caller" "isokprocn dst" "p_rts_flags (procs s caller) = {}"
    "dst \<noteq> caller" "waiting_for s dst caller"
  shows "\<exists>s'. mini_send caller dst m_ptr flags s = Some (OK, s') \<and>
    k_mem s' = cp_mess caller (data_phys s caller m_ptr) (data_phys s dst (p_messbuf (procs s dst))) (k_mem s) \<and>
    (apart (data_phys s caller m_ptr) (data_phys s dst (p_messbuf (procs s dst))) MESS_SIZE \<longrightarrow>
       load_mess (data_phys s dst (p_messbuf (procs s dst))) (k_mem s') =
         (load_mess (data_phys s caller m_ptr) (k_mem s))\<lparr>m_source := caller\<rparr>) \<and>
    p_rts_flags (procs s' dst) = p_rts_flags (procs s dst) - {RECEIVING}"
proof -
  from assms(1) obtain C where S: "sched_inv s" and I: "ipc_links s C" by (auto simp: ipc_inv_def)
  have lk: "(dst, caller) \<notin> (sends s)\<^sup>+"
    using assms(6) by (auto dest!: tranclD simp: sends_def waiting_for_def view_fold)
  from S I assms(2-5) show ?thesis
  proof (cases rule: mini_send_cases [where m_ptr = m_ptr and flags = flags])
    case (delivered s')
    from sched_frame_mem [OF delivered(7)] have "k_mem s' = cp_mess caller (data_phys s caller m_ptr)
        (data_phys s dst (p_messbuf (procs s dst))) (k_mem s)" by (simp add: CopyMess_def)
    with delivered ok_word [OF assms(2)] show ?thesis
      by (intro exI [of _ s']) (simp add: load_cp_mess sched_frame_flags [OF delivered(7)])
  qed (use assms(6) lk in simp_all)
qed

theorem mini_send_delivers_witness:
  "\<exists>s'. mini_send 0 2 0x40 0 demo_state = Some (OK, s') \<and>
     m_source (load_mess (data_phys demo_state 2 0x100) (k_mem s')) = 0 \<and> p_rts_flags (procs s' 2) = {}"
  using mini_send_delivers [OF demo_ipc_inv, of 0 2 "0x40" 0]
  by (auto simp: isokprocn_def demo_proc_def waiting_for_def data_phys_def apart_def)

text \<open>
  C23. Queueing by \<^verbatim>\<open>mini_send\<close>: when the destination does not wait for the caller, a blocking send
  marks the caller as blocked in a send to it and appends it to the end of its caller queue; all
  other caller queues are unchanged.
\<close>

theorem mini_send_queues_fifo:
  assumes "sched_inv s" "ipc_links s C" "isokprocn caller" "isokprocn dst"
    "p_rts_flags (procs s caller) = {}" "dst \<noteq> caller" "\<not> waiting_for s dst caller"
    "(dst, caller) \<notin> (sends s)\<^sup>+" "flags AND NON_BLOCKING = 0"
  shows "\<exists>s'. mini_send caller dst m_ptr flags s = Some (OK, s') \<and>
    ipc_links s' (C(dst := C dst @ [caller])) \<and> sched_inv s' \<and>
    p_rts_flags (procs s' caller) = {SENDING} \<and> p_sendto (procs s' caller) = dst \<and> k_mem s' = k_mem s"
  using assms(1-6)
  by (cases rule: mini_send_cases [where m_ptr = m_ptr and flags = flags])
    (use assms(7-9) in \<open>simp_all add: view_fold\<close>)

theorem mini_send_queues_fifo_witness:
  "\<exists>s'. mini_send 0 1 0x40 0 demo_state = Some (OK, s') \<and> ipc_links s' ((\<lambda>_. [])(1 := [0]))"
  using mini_send_queues_fifo [OF demo_sched_inv demo_ipc_links, of 0 1 0 "0x40"]
  by (auto simp: isokprocn_def demo_proc_def waiting_for_def demo_sends)

text \<open>
  C24. \<^verbatim>\<open>mini_receive\<close> always returns and keeps the invariant of message passing; its result is OK,
  or ENOTREADY with nothing changed.
\<close>

theorem mini_receive_safe:
  assumes "ipc_inv s" "isokprocn caller" "p_rts_flags (procs s caller) \<subseteq> {SENDING}" "has_priv s caller"
    "sending s caller \<longrightarrow> src = sendto s caller"
  shows "\<exists>r s'. mini_receive caller src m_ptr flags s = Some (r, s') \<and> ipc_inv s' \<and>
    (r = OK \<or> r = ENOTREADY \<and> s' = s)"
  by (rule mini_receive_inv [OF assms, of m_ptr flags]) blast

theorem mini_receive_safe_witness:
  "\<exists>r s'. mini_receive 0 ANY 0x40 0 demo_state = Some (r, s') \<and> ipc_inv s'"
  using mini_receive_safe [OF demo_ipc_inv, of 0 ANY "0x40" 0]
  by (auto simp: isokprocn_def demo_proc_def has_priv_def sending_def)

text \<open>
  C21. \<^verbatim>\<open>mini_receive\<close> serves senders in the order in which they were queued: with no notification
  to deliver it takes the first queued sender that the requested source allows, stores that
  sender's message, with the source filled in, in the receiver's buffer (with \<^verbatim>\<open>cp_mess\<close>; all words of
  it arrive as long as the buffer does not start inside the sender's), unblocks the sender and
  removes only it from the caller queue.
\<close>

theorem mini_receive_takes_first:
  assumes "sched_inv s" "ipc_links s C" "isokprocn caller" "p_rts_flags (procs s caller) = {}"
    "has_priv s caller"
    "SENDREC_BUSY \<in> s_flags (priv_of s caller) \<or>
       find_notify (privs s) src (s_notify_pending (priv_of s caller)) [0, 1] = None"
    "C caller = us @ x # vs" "src = ANY \<or> src = x" "\<forall>y \<in> set us. src \<noteq> ANY \<and> src \<noteq> y"
  shows "\<exists>s'. mini_receive caller src m_ptr flags s = Some (OK, s') \<and> sched_inv s' \<and>
    ipc_links s' (C(caller := us @ vs)) \<and>
    k_mem s' = cp_mess x (data_phys s x (p_messbuf (procs s x))) (data_phys s caller m_ptr) (k_mem s) \<and>
    (apart (data_phys s x (p_messbuf (procs s x))) (data_phys s caller m_ptr) MESS_SIZE \<longrightarrow>
       load_mess (data_phys s caller m_ptr) (k_mem s') =
         (load_mess (data_phys s x (p_messbuf (procs s x))) (k_mem s))\<lparr>m_source := x\<rparr>) \<and>
    p_rts_flags (procs s' x) = p_rts_flags (procs s x) - {SENDING}"
proof -
  have ns: "\<not> sending s caller" using assms(4) by (simp add: sending_def)
  have fl: "p_rts_flags (procs s caller) \<subseteq> {SENDING}" using assms(4) by simp
  have sr: "sending s caller \<longrightarrow> src = sendto s caller" using ns by simp
  have xm: "x \<in> set (C caller)" using assms(7) by simp
  from ipc_linksD(2) [OF assms(2,3)] xm have x: "isokprocn x" by blast
  from assms(1,2,3) fl assms(5) sr show ?thesis
  proof (cases rule: mini_receive_cases [where m_ptr = m_ptr and flags = flags])
    case (taken us' x' vs' s')
    have "us' = us \<and> x' = x \<and> vs' = vs"
      using first_match_unique [of us' x' vs' us x vs "\<lambda>y. src = ANY \<or> src = y"]
        taken(2-4) assms(7-9) by auto
    with taken ok_word [OF x] show ?thesis by (intro exI [of _ s']) (simp add: load_cp_mess)
  qed (use assms(6,8) xm ns in auto)
qed

theorem mini_receive_takes_first_witness:
  "\<exists>s'. mini_receive 1 ANY 0x80 0 demo_blocked = Some (OK, s') \<and> ipc_links s' ((\<lambda>_. [])(1 := [])) \<and>
     m_source (load_mess (data_phys demo_blocked 1 0x80) (k_mem s')) = 0 \<and> p_rts_flags (procs s' 0) = {}"
  using mini_receive_takes_first [OF demo_blocked_sched_inv demo_blocked_ipc_links, of 1 ANY "[]" 0 "[]" "0x80" 0]
  by (auto simp: isokprocn_def demo_blocked_procs demo_proc_def has_priv_def priv_of_def demo_priv_def
      find_notify.simps data_phys_def apart_def)

text \<open>
  C25. A notification is never lost: \<^verbatim>\<open>mini_notify\<close> always returns OK and keeps the invariant. A
  destination that waits for it (and is not in the middle of a SENDREC) is unblocked and finds the
  notification in its buffer: the source, the type, the time and, from HARDWARE and SYSTEM, the
  set of pending interrupts or signals, which is then empty (the buffer is right as long as it does
  not start inside the kernel's own message). Otherwise the sender's system index is marked as
  pending at the destination and nothing else changes.
\<close>

theorem mini_notify_safe:
  assumes "ipc_inv s" "isokprocn caller" "isokprocn dst" "has_priv s dst" "has_priv s caller"
  shows "\<exists>s'. mini_notify caller dst s = Some (OK, s') \<and> ipc_inv s' \<and>
    (if waiting_for s dst caller \<and> SENDREC_BUSY \<notin> s_flags (priv_of s dst)
     then p_rts_flags (procs s' dst) = p_rts_flags (procs s dst) - {RECEIVING} \<and>
       (apart (data_phys s HARDWARE (k_mess_buf s)) (data_phys s dst (p_messbuf (procs s dst))) MESS_SIZE \<longrightarrow>
          notification caller dst s (load_mess (data_phys s dst (p_messbuf (procs s dst))) (k_mem s'))) \<and>
       s_int_pending (priv_of s' dst) = (if caller = HARDWARE then 0 else s_int_pending (priv_of s dst)) \<and>
       s_sig_pending (priv_of s' dst) = (if caller = SYSTEM then 0 else s_sig_pending (priv_of s dst)) \<and>
       s_notify_pending (priv_of s' dst) = s_notify_pending (priv_of s dst)
     else (\<forall>b. get_sys_bit (s_notify_pending (priv_of s' dst)) b \<longleftrightarrow>
            b = s_id (priv_of s caller) \<or> get_sys_bit (s_notify_pending (priv_of s dst)) b) \<and>
       procs s' = procs s \<and> k_mem s' = k_mem s)"
proof -
  from assms(1) obtain C where S: "sched_inv s" and I: "ipc_links s C" by (auto simp: ipc_inv_def)
  from S I assms(2-5) show ?thesis
  proof (cases rule: mini_notify_cases)
    case (delivered s')
    moreover from delivered have "ipc_inv s'" unfolding ipc_inv_def by blast
    moreover note notify_delivered [OF delivered(7) assms(2)]
    ultimately show ?thesis by (simp add: sched_frame_flags [OF delivered(7)])
  next
    case pending
    have "ipc_inv (upd_priv i (s_notify_pending_update f) s)" for i f
      using assms(1) by (subst ipc_inv_cong) (simp_all add: sched_inv_upd_priv)
    with pending show ?thesis by (auto simp: priv_of_def get_set_sys_bit)
  qed
qed

theorem mini_notify_safe_witness:
  "(\<exists>s'. mini_notify 0 1 demo_state = Some (OK, s') \<and> ipc_inv s' \<and>
      get_sys_bit (s_notify_pending (priv_of s' 1)) 1) \<and>
   (\<exists>s'. mini_notify 0 2 demo_state = Some (OK, s') \<and> p_rts_flags (procs s' 2) = {} \<and>
      m_type (load_mess (data_phys demo_state 2 0x100) (k_mem s')) = 0x1004)"
  using mini_notify_safe [OF demo_ipc_inv, of 0 1] mini_notify_safe [OF demo_ipc_inv, of 0 2]
  by (auto simp: isokprocn_def demo_proc_def has_priv_def waiting_for_def priv_of_def demo_priv_def
      data_phys_def apart_def notification_def NOTIFY_FROM_def)

text \<open>
  A send to oneself is not caught by the deadlock check. It blocks the caller in its own caller
  queue, and from then on the check made for any other process that sends to the caller never ends:
  the loop looks for its own caller only.
\<close>

theorem mini_send_self_loops:
  assumes "sched_inv s" "ipc_links s C" "isokprocn n" "p_rts_flags (procs s n) = {}" "flags AND NON_BLOCKING = 0"
  shows "\<exists>s'. mini_send n n m_ptr flags s = Some (OK, s') \<and> sending s' n \<and> sendto s' n = n \<and>
    (\<forall>m. m \<noteq> n \<longrightarrow> mini_send m n m_ptr' flags' s' = None)"
proof -
  have ns: "\<not> sending s n" using assms(4) by (simp add: sending_def)
  define s1 where "s1 = upd_proc n (p_messbuf_update (\<lambda>_. m_ptr)) s"
  have S1: "sched_inv s1" using assms(1) by (simp add: s1_def sched_inv_upd_proc sched_view_def)
  obtain s2 where s2: "rts_set {SENDING} n s1 = Some s2" "sched_inv s2"
    "sending s2 = (sending s1)(n := sending s1 n \<or> SENDING \<in> {SENDING})"
    "qlink s2 = qlink s1" "callq s2 = callq s1"
    by (rule set_flag [where F = "{SENDING}", OF S1 assms(3)]) blast+
  define s3 where "s3 = upd_proc n (p_sendto_update (\<lambda>_. n)) s2"
  have V3: "sending s3 n" "sendto s3 n = n" "qlink s3 = qlink s" "callq s3 = callq s"
    using s2 by (simp_all add: s3_def s1_def view_upd_proc; simp add: view_fold)+
  have find: "chain_find (\<lambda>_. False) (callq s3 n) (qlink s3) Head = Some (slot_after (C n))"
    unfolding V3 by (rule chain_find_end) (rule ipc_linksD(1) [OF assms(2,3)])
  define s' where "s' = upd_proc n (p_q_link_update (\<lambda>_. None)) (callq_assign n (slot_after (C n)) (Some n) s3)"
  have w: "\<not> waiting_for s n (p_nr (procs s n))" using assms(4) by (simp add: waiting_for_def)
  have "mini_send n n m_ptr flags s = Some (OK, s')"
    using assms(3,5) ns w s2(1) find
    by (simp add: mini_send_def send_cycle.simps [of s n n] view_fold s1_def s3_def s'_def)
  moreover have V': "sending s' n" "sendto s' n = n"
    using V3 by (simp_all add: s'_def view_upd_proc; simp add: view_fold callq_assign_view)+
  moreover have "mini_send m n m_ptr' flags' s' = None" if "m \<noteq> n" for m
    using send_cycle_self [OF V' that] by (simp add: mini_send_def guard_def)
  ultimately show ?thesis by (intro exI [of _ s']) simp
qed

theorem mini_send_self_loops_witness:
  "\<exists>s'. mini_send 0 0 0x40 0 demo_state = Some (OK, s') \<and> mini_send 1 0 0x40 NON_BLOCKING s' = None"
  using mini_send_self_loops [OF demo_sched_inv demo_ipc_links, of 0 0 "0x40" "0x40" NON_BLOCKING]
  by (auto simp: isokprocn_def demo_proc_def)

text \<open>
  \<^verbatim>\<open>mini_receive\<close> looks at one pending bit per chunk only: FS waits for a notification from PM that is
  already pending, and blocks, because one from a process with a smaller index is pending too.
\<close>

theorem mini_receive_misses_notification:
  "let s = upd_priv 3 (\<lambda>p. p\<lparr>s_notify_pending := set_sys_bit 2 (set_sys_bit 1 (\<lambda>_. 0))\<rparr>)
             (upd_proc 2 (p_rts_flags_update (\<lambda>_. {})) demo_state) in
   get_sys_bit (s_notify_pending (priv_of s 2)) (s_id (priv_of s 1)) \<and>
   mini_receive 2 1 m_ptr NON_BLOCKING s = Some (ENOTREADY, s)"
proof -
  define s where "s = upd_priv 3 (\<lambda>p. p\<lparr>s_notify_pending := set_sys_bit 2 (set_sys_bit 1 (\<lambda>_. 0))\<rparr>)
    (upd_proc 2 (p_rts_flags_update (\<lambda>_. {})) demo_state)"
  have pv: "p_priv (procs s 2) = 3" "p_priv (procs s 1) = 2" "\<not> sending s 2" "callq s 2 = None"
    by (simp_all add: s_def demo_proc_def sending_def callq_def)
  have mp: "s_notify_pending (privs s 3) = set_sys_bit 2 (set_sys_bit 1 (\<lambda>_. 0))" "s_id (privs s 2) = 2"
    "s_flags (privs s 3) = {PREEMPTIBLE, BILLABLE, SYS_PROC}" "s_proc_nr (privs s (Suc 0)) = 0"
    by (simp_all add: s_def demo_priv_def)
  have lb: "low_bit 6 0 = Suc 0"
    by (simp add: low_bit.simps [of _ 0] low_bit.simps [of _ "Suc 0"] bit_simps)
  have fn: "find_notify (privs s) 1 (set_sys_bit 2 (set_sys_bit 1 (\<lambda>_. 0))) [0, 1] = None"
    by (simp add: find_notify.simps set_sys_bit_def lb mp Let_def)
  have "mini_receive 2 1 m_ptr NON_BLOCKING s = Some (ENOTREADY, s)"
    using fn by (simp add: mini_receive_def Let_def view_fold pv mp has_priv_def
        chain_find.simps [of _ None "qlink s" Head])
  moreover have "get_sys_bit (s_notify_pending (priv_of s 2)) (s_id (priv_of s 1))"
    by (simp add: priv_of_def pv mp get_set_sys_bit)
  ultimately show ?thesis unfolding Let_def s_def [symmetric] by blast
qed

end
