(* ===== verification/Sigset.thy ===== *)
theory Sigset
  imports Prelude
begin

text \<open>
  Sets of signals, \<^verbatim>\<open>lib/posix/_sigset.c\<close>, which the kernel and the process manager share. A
  \<^verbatim>\<open>sigset_t\<close> is a word with a bit per signal. Operations with an invalid signal do nothing.
\<close>

abbreviation (input) NSIG :: int where "NSIG \<equiv> 20"

definition sigisvalid :: "int \<Rightarrow> bool" where
  "sigisvalid sig \<longleftrightarrow> 0 \<le> sig \<and> sig \<le> NSIG"

definition sigaddset :: "int \<Rightarrow> u32 \<Rightarrow> u32" where
  "sigaddset sig st = (if sigisvalid sig then set_bit (nat sig) st else st)"

definition sigdelset :: "int \<Rightarrow> u32 \<Rightarrow> u32" where
  "sigdelset sig st = (if sigisvalid sig then unset_bit (nat sig) st else st)"

text \<open>The result of \<^verbatim>\<open>sigismember\<close>: -1 for an invalid signal.\<close>

definition sigismember :: "u32 \<Rightarrow> int \<Rightarrow> int" where
  "sigismember st sig = (if \<not> sigisvalid sig then - 1 else if bit st (nat sig) then 1 else 0)"

definition sigfillset :: u32 where
  "sigfillset = 0x1FFFFF"

definition sigmember :: "int \<Rightarrow> u32 \<Rightarrow> bool" where
  "sigmember sig st \<longleftrightarrow> sigismember st sig \<noteq> 0"

lemma sigmember_iff: "sigisvalid sig \<Longrightarrow> sigmember sig st \<longleftrightarrow> bit st (nat sig)"
  by (simp add: sigmember_def sigismember_def)

lemma bit_sigaddset [simp]:
  "sigisvalid sig \<Longrightarrow> bit (sigaddset sig st) n \<longleftrightarrow> n = nat sig \<or> bit st n"
  by (auto simp: sigaddset_def sigisvalid_def bit_simps nat_less_iff)

lemma bit_sigdelset [simp]:
  "sigisvalid sig \<Longrightarrow> bit (sigdelset sig st) n \<longleftrightarrow> n \<noteq> nat sig \<and> bit st n"
  by (auto simp: sigdelset_def sigisvalid_def bit_simps)

end
