(* ===== verification/Kernel_Print.thy ===== *)
theory Kernel_Print
  imports Kernel_Ipc Sigset
begin

text \<open>
  Kernel diagnostics, \<^verbatim>\<open>kernel/utility.c\<close>: \<^verbatim>\<open>kprintf\<close> and \<^verbatim>\<open>kputc\<close> append to the circular buffer
  \<^verbatim>\<open>kmess\<close> and then notify the output driver through \<^verbatim>\<open>send_sig\<close> of \<^verbatim>\<open>kernel/system.c\<close>.
  A panic has no defined outcome and is \<open>None\<close> wherever it occurs.

  Shown here: number conversion writes the decimal or hexadecimal digits of its argument and fits
  its buffer; the ring buffer keeps the most recent characters; printing keeps the invariant of
  message passing, so an error message in the middle of a system call does no harm; and a negative
  number prints a minus sign in front of every later conversion of the same call.
\<close>

subsection \<open>Model\<close>

abbreviation (input) KMESS_BUF_SIZE :: nat where "KMESS_BUF_SIZE \<equiv> 256"
abbreviation (input) SIGKMESS :: int where "SIGKMESS \<equiv> 18"
abbreviation (input) SIGKSIG :: int where "SIGKSIG \<equiv> 19"
abbreviation (input) SIGKSTOP :: int where "SIGKSTOP \<equiv> 20"

definition send_sig :: "int \<Rightarrow> int \<Rightarrow> kstate \<Rightarrow> kstate option" where
  "send_sig proc_nr sig_nr s = do {
     guard (isokprocn proc_nr \<and> has_priv s proc_nr);
     let s1 = upd_priv (p_priv (procs s proc_nr)) (s_sig_pending_update (sigaddset sig_nr)) s;
     (_, s2) \<leftarrow> lock_notify SYSTEM proc_nr s1;
     Some s2
   }"

text \<open>\<^verbatim>\<open>kputc\<close> of a normal character, and of \<^verbatim>\<open>END_OF_KMESS\<close>.\<close>

definition kputc :: "char \<Rightarrow> kstate \<Rightarrow> kstate" where
  "kputc c s =
     (let k = kmess s in
      s\<lparr>kmess := \<lparr>km_next = (km_next k + 1) mod KMESS_BUF_SIZE,
                  km_size = (if km_size k < KMESS_BUF_SIZE then km_size k + 1 else km_size k),
                  km_buf = (km_buf k)(km_next k := c)\<rparr>\<rparr>)"

definition kputc_end :: "kstate \<Rightarrow> kstate option" where
  "kputc_end s = send_sig LOG_PROC_NR SIGKMESS s"

text \<open>The arguments of \<^verbatim>\<open>kprintf\<close>, by the type the conversion reads them with.\<close>

datatype karg = Signed int | Unsigned u32 | Str "string option"

definition x2c :: "nat \<Rightarrow> char" where
  "x2c d = (''0123456789ABCDEF'' ! d)"

text \<open>The loop that writes the digits backwards into \<^verbatim>\<open>ascii\<close>; \<open>acc\<close> is the text behind \<open>s\<close>.\<close>

function digits :: "nat \<Rightarrow> nat \<Rightarrow> string \<Rightarrow> string" where
  "digits base u acc =
     (let acc' = x2c (u mod base) # acc; u' = u div base in
      if base \<le> 1 \<or> u' = 0 then acc' else digits base u' acc')"
  by auto
termination
proof (relation "measure (\<lambda>(base, u, acc). u)")
  fix base u :: nat and acc x xa
  assume "x = x2c (u mod base) # acc" "xa = u div base" "\<not> (base \<le> 1 \<or> xa = 0)"
  then have "1 < base" "0 < u" by (auto intro: Nat.gr0I)
  then have "u div base < u" by simp
  with \<open>xa = u div base\<close> show "((base, xa, x), base, u, acc) \<in> measure (\<lambda>(base, u, acc). u)" by simp
qed simp

declare digits.simps [simp del]

text \<open>One conversion: the text and the new value of \<^verbatim>\<open>negative\<close>.\<close>

fun convert :: "char \<Rightarrow> karg list \<Rightarrow> bool \<Rightarrow> (string \<times> karg list \<times> bool) option" where
  "convert c args neg =
     (if c = CHR ''d'' then
        (case args of
           Signed d # as \<Rightarrow>
             (if d < 0 then Some (digits 10 (nat (- d)) [], as, True)
              else Some (digits 10 (nat d) [], as, neg))
         | _ \<Rightarrow> None)
      else if c = CHR ''u'' then
        (case args of Unsigned u # as \<Rightarrow> Some (digits 10 (unat u) [], as, neg) | _ \<Rightarrow> None)
      else if c = CHR ''x'' then
        (case args of Unsigned u # as \<Rightarrow> Some (digits 16 (unat u) [], as, neg) | _ \<Rightarrow> None)
      else if c = CHR ''s'' then
        (case args of
           Str None # as \<Rightarrow> Some (''(null)'', as, neg)
         | Str (Some t) # as \<Rightarrow> Some (t, as, neg)
         | _ \<Rightarrow> None)
      else if c = CHR ''%'' then Some (''%'', args, neg)
      else Some ([CHR ''%'', c], args, neg))"

fun kprintf_loop :: "string \<Rightarrow> karg list \<Rightarrow> bool \<Rightarrow> kstate \<Rightarrow> kstate option" where
  "kprintf_loop [] args neg s = Some s"
| "kprintf_loop (c # fmt) args neg s =
     (if c = CHR ''%'' then
        (case fmt of
           [] \<Rightarrow> None
         | c' # fmt' \<Rightarrow>
             (case convert c' args neg of
                None \<Rightarrow> None
              | Some (t, args', neg') \<Rightarrow>
                  (let s1 = (if neg' then kputc (CHR ''-'') s else s) in
                   kprintf_loop fmt' args' neg' (fold kputc t s1))))
      else kprintf_loop fmt args neg (kputc c s))"

definition kprintf :: "string \<Rightarrow> karg list \<Rightarrow> kstate \<Rightarrow> kstate option" where
  "kprintf fmt args s = do {
     s1 \<leftarrow> kprintf_loop fmt args False s;
     kputc_end s1
   }"

text \<open>The characters in the ring buffer, oldest first.\<close>

definition km_text :: "kmessages \<Rightarrow> string" where
  "km_text k = map (\<lambda>i. km_buf k ((km_next k + KMESS_BUF_SIZE - km_size k + i) mod KMESS_BUF_SIZE)) [0..<km_size k]"

definition km_ok :: "kmessages \<Rightarrow> bool" where
  "km_ok k \<longleftrightarrow> km_next k < KMESS_BUF_SIZE \<and> km_size k \<le> KMESS_BUF_SIZE"

text \<open>The text that a format and its arguments stand for.\<close>

fun kp_text :: "string \<Rightarrow> karg list \<Rightarrow> bool \<Rightarrow> string option" where
  "kp_text [] args neg = Some []"
| "kp_text (c # fmt) args neg =
     (if c = CHR ''%'' then
        (case fmt of
           [] \<Rightarrow> None
         | c' # fmt' \<Rightarrow>
             (case convert c' args neg of
                None \<Rightarrow> None
              | Some (t, args', neg') \<Rightarrow>
                  map_option (\<lambda>r. (if neg' then ''-'' else []) @ t @ r) (kp_text fmt' args' neg')))
      else map_option (\<lambda>r. c # r) (kp_text fmt args neg))"

subsection \<open>Number conversion\<close>

definition hexval :: "char \<Rightarrow> nat" where
  "hexval c = (if of_char c < (58 :: nat) then of_char c - 48 else of_char c - 55)"

definition decode :: "nat \<Rightarrow> string \<Rightarrow> nat" where
  "decode base t = foldl (\<lambda>n c. n * base + hexval c) 0 t"

lemma hexval_x2c:
  assumes "d < 16" shows "hexval (x2c d) = d"
proof -
  have "\<forall>d < 16. hexval (x2c d) = d"
    by (simp add: x2c_def hexval_def All_less_Suc numeral_eq_Suc)
  with assms show ?thesis by blast
qed

lemma decode_Cons: "decode base (c # t) = hexval c * base ^ length t + decode base t"
proof -
  have "foldl (\<lambda>n c. n * base + hexval c) a t = a * base ^ length t + foldl (\<lambda>n c. n * base + hexval c) 0 t"
    for a :: nat
  proof (induction t rule: rev_induct)
    case (snoc c t)
    then show ?case by (simp add: algebra_simps)
  qed simp
  from this [of "hexval c"] show ?thesis by (simp add: decode_def)
qed

lemma decode_digits:
  assumes "1 < base" "base \<le> 16"
  shows "decode base (digits base u acc) = u * base ^ length acc + decode base acc"
  using assms
proof (induction base u acc rule: digits.induct)
  case (1 base u acc)
  have x: "hexval (x2c (u mod base)) = u mod base"
    by (rule hexval_x2c) (use "1.prems" mod_less_divisor [of base u] in linarith)
  show ?case
  proof (cases "u div base = 0")
    case True
    then have "u mod base = u" using "1.prems" by (simp add: div_eq_0_iff)
    with True x show ?thesis by (simp add: digits.simps [of base u] Let_def decode_Cons)
  next
    case False
    then have "decode base (digits base u acc) =
        (u div base) * base ^ Suc (length acc) + (u mod base) * base ^ length acc + decode base acc"
      using "1.IH" [OF refl refl] "1.prems" x
      by (simp add: digits.simps [of base u] Let_def decode_Cons)
    also have "\<dots> = (u div base * base + u mod base) * base ^ length acc + decode base acc"
      unfolding add_mult_distrib power_Suc by (simp only: mult.assoc mult.commute mult.left_commute)
    finally show ?thesis by (simp only: div_mult_mod_eq)
  qed
qed

lemma length_digits:
  "1 < base \<Longrightarrow> u < base ^ Suc k \<Longrightarrow> length (digits base u acc) \<le> Suc k + length acc"
proof (induction k arbitrary: u acc)
  case 0
  then show ?case by (simp add: digits.simps [of base u] Let_def)
next
  case (Suc k)
  then have "u div base < base ^ Suc k" by (simp add: less_mult_imp_div_less mult.commute)
  from Suc.IH [OF Suc.prems(1) this, of "x2c (u mod base) # acc"] show ?case
    by (simp add: digits.simps [of base u] Let_def)
qed

subsection \<open>The ring buffer\<close>

lemma kmess_kputc [simp]:
  "kmess (kputc c s) = \<lparr>km_next = (km_next (kmess s) + 1) mod KMESS_BUF_SIZE,
     km_size = (if km_size (kmess s) < KMESS_BUF_SIZE then km_size (kmess s) + 1 else km_size (kmess s)),
     km_buf = (km_buf (kmess s))(km_next (kmess s) := c)\<rparr>"
  by (simp add: kputc_def Let_def)

text \<open>Index arithmetic on the ring: \<open>m\<close> positions further is another cell.\<close>

lemma ring_other:
  fixes n m :: nat
  assumes "n < 256" "0 < m" "m < 256"
  shows "(n + m) mod 256 \<noteq> n"
  using assms by (cases "n + m < 256") (auto simp: mod_if)

lemma km_text_kputc:
  assumes "km_ok (kmess s)"
  shows "km_ok (kmess (kputc c s))"
    and "km_text (kmess (kputc c s)) = (let t = km_text (kmess s) @ [c] in drop (length t - KMESS_BUF_SIZE) t)"
proof -
  obtain n z b where k: "kmess s = \<lparr>km_next = n, km_size = z, km_buf = b\<rparr>" by (cases "kmess s")
  from assms k have n: "n < 256" and z: "z \<le> 256" by (simp_all add: km_ok_def)
  show "km_ok (kmess (kputc c s))" using n z by (simp add: km_ok_def k)
  show "km_text (kmess (kputc c s)) = (let t = km_text (kmess s) @ [c] in drop (length t - KMESS_BUF_SIZE) t)"
  proof (cases "z < 256")
    case True
    have e: "((n + 1) mod 256 + 256 - (z + 1) + i) mod 256 = (n + 256 - z + i) mod 256" for i
    proof (cases "n = 255")
      case n255: True
      have "255 + 256 - z + i = 256 + (256 - (z + 1) + i)" using True by simp
      then have "(255 + 256 - z + i) mod 256 = (256 - (z + 1) + i) mod 256" by (simp only: mod_add_self1)
      with n255 show ?thesis by simp
    next
      case False
      with n have "(n + 1) mod 256 = n + 1" by simp
      then show ?thesis by (simp add: add.commute)
    qed
    have "(n + 256 - z + i) mod 256 \<noteq> n" if "i < z" for i
    proof -
      have "n + 256 - z + i = n + (256 - z + i)" using True by simp
      with ring_other [of n "256 - z + i"] n that True show ?thesis by simp
    qed
    then have "map (\<lambda>i. (b(n := c)) ((n + 256 - z + i) mod 256)) [0..<z] =
        map (\<lambda>i. b ((n + 256 - z + i) mod 256)) [0..<z]" by (intro map_cong) auto
    with True n e show ?thesis by (simp add: km_text_def k Let_def)
  next
    case False
    with z have z: "z = 256" by simp
    have "[0..<256] = [0..<255] @ [255 :: nat]" by (simp add: upt_Suc_append [of 0 255, simplified])
    moreover have "[Suc 0..<256] = [Suc 0..<255] @ [255]" by (simp add: upt_Suc_append [of 1 255, simplified])
    moreover have "map (\<lambda>i. (b(n := c)) (((n + 1) mod 256 + i) mod 256)) [0..<255] =
        map (\<lambda>i. b ((n + i) mod 256)) [1..<256]"
    proof (rule nth_equalityI)
      fix i assume "i < length (map (\<lambda>i. (b(n := c)) (((n + 1) mod 256 + i) mod 256)) [0..<255])"
      then have i: "i < 255" by simp
      have "((n + 1) mod 256 + i) mod 256 = (n + (i + 1)) mod 256" by (simp add: mod_add_left_eq)
      with ring_other [OF n, of "i + 1"] i
      show "map (\<lambda>i. (b(n := c)) (((n + 1) mod 256 + i) mod 256)) [0..<255] ! i =
          map (\<lambda>i. b ((n + i) mod 256)) [1..<256] ! i" by simp
    qed simp
    moreover have "((n + 1) mod 256 + 255) mod 256 = n" using n by (cases "n = 255") (simp_all add: mod_if)
    ultimately show ?thesis
      using n by (simp add: km_text_def k z Let_def drop_map)
  qed
qed

lemma km_text_kputs:
  "km_ok (kmess s) \<Longrightarrow> km_ok (kmess (fold kputc t s)) \<and>
   km_text (kmess (fold kputc t s)) = (let u = km_text (kmess s) @ t in drop (length u - KMESS_BUF_SIZE) u)"
proof (induction t arbitrary: s)
  case Nil
  have "length (km_text (kmess s)) \<le> 256" using Nil by (simp add: km_text_def km_ok_def)
  with Nil show ?case by (simp add: Let_def)
next
  case (Cons c t)
  note k = km_text_kputc [OF Cons.prems, of c]
  have "length (km_text (kmess s)) \<le> 256" using Cons.prems by (simp add: km_text_def km_ok_def)
  moreover have "drop j (c # t) = drop j [c] @ drop (j - 1) t" for j by (cases j) simp_all
  ultimately show ?case using Cons.IH [OF k(1)] k(2)
    by (cases "length (km_text (kmess s)) = 256") (simp_all add: Let_def)
qed

subsection \<open>Printing and the invariant\<close>

lemma kputc_sel [simp]:
  "procs (kputc c s) = procs s" "privs (kputc c s) = privs s" "proc_ptr (kputc c s) = proc_ptr s"
  "k_mem (kputc c s) = k_mem s" "shutdown_started (kputc c s) = shutdown_started s"
  by (simp_all add: kputc_def Let_def)

lemma sched_inv_kputc [simp]: "sched_inv (kputc c s) = sched_inv s"
  by (rule sched_inv_cong) (simp_all add: kputc_def Let_def)

lemma ipc_inv_kputs: "ipc_inv (fold kputc t s) = ipc_inv s"
proof (induction t arbitrary: s)
  case (Cons c t)
  have "ipc_inv (kputc c s) = ipc_inv s" by (rule ipc_inv_cong) (simp_all add: same_ipc_procs)
  with Cons show ?case by simp
qed simp

lemma kputs_sel [simp]:
  "procs (fold kputc t s) = procs s" "privs (fold kputc t s) = privs s"
  "proc_ptr (fold kputc t s) = proc_ptr s" "k_mem (fold kputc t s) = k_mem s"
  by (induction t arbitrary: s) simp_all

lemma kprintf_loop_text:
  "kprintf_loop fmt args neg s = map_option (\<lambda>t. fold kputc t s) (kp_text fmt args neg)"
proof (induction fmt args neg arbitrary: s rule: kp_text.induct)
  case (2 c fmt args neg)
  show ?case
  proof (cases "c = CHR ''%''")
    case False
    then show ?thesis using "2.IH"(2) by (simp add: option.map_comp o_def)
  next
    case True
    show ?thesis
    proof (cases fmt)
      case (Cons c' fmt')
      show ?thesis
      proof (cases "convert c' args neg")
        case (Some r)
        obtain t args' neg' where r: "r = (t, args', neg')" by (cases r)
        from "2.IH"(1) [OF True Cons Some [unfolded r] refl refl] True Cons Some r show ?thesis
          by (auto simp: option.map_comp o_def)
      qed (simp add: True Cons)
    qed (simp add: True)
  qed
qed simp

text \<open>The processes that diagnostics involve have privilege structures.\<close>

definition log_ok :: "kstate \<Rightarrow> bool" where
  "log_ok s \<longleftrightarrow> has_priv s LOG_PROC_NR \<and> has_priv s SYSTEM"

text \<open>
  A signal has reached a system process: the notification from SYSTEM was delivered, with the set of
  pending signals in it and cleared in the table, or it is pending and the set has the signal.
\<close>

definition sig_sent :: "int \<Rightarrow> int \<Rightarrow> kstate \<Rightarrow> kstate \<Rightarrow> bool" where
  "sig_sent n sig s s' \<longleftrightarrow> told SYSTEM n s s' \<and>
     (let sigs = sigaddset sig (s_sig_pending (priv_of s n));
          to = data_phys s n (p_messbuf (procs s n));
          mess = load_mess to (k_mem s')
      in if wakes s n SYSTEM
         then s_sig_pending (priv_of s' n) = 0 \<and>
           (apart (data_phys s HARDWARE (k_mess_buf s)) to MESS_SIZE \<longrightarrow>
             m_source mess = SYSTEM \<and> m_type mess = NOTIFY_FROM SYSTEM \<and> m_w3 mess = sigs)
         else s_sig_pending (priv_of s' n) = sigs)"

lemma send_sig_inv:
  assumes "ipc_inv s" "isokprocn n" "has_priv s n" "has_priv s SYSTEM"
  obtains s' where "send_sig n sig s = Some s'" "ipc_inv s'" "sig_sent n sig s s'"
    "\<And>m. m \<noteq> n \<Longrightarrow> p_rts_flags (procs s' m) = p_rts_flags (procs s m)"
    "\<And>m. p_priv (procs s' m) = p_priv (procs s m)"
    "\<And>i. priv_core (privs s' i) = priv_core (privs s i)"
proof -
  define s1 where "s1 = upd_priv (p_priv (procs s n)) (s_sig_pending_update (sigaddset sig)) s"
  have I: "ipc_inv s1" using assms(1) unfolding s1_def
    by (subst ipc_inv_cong) (simp_all add: sched_inv_upd_priv)
  have p: "has_priv s1 n" "has_priv s1 SYSTEM" using assms(3,4) by (simp_all add: s1_def has_priv_def)
  have sys: "isokprocn SYSTEM" by (simp add: isokprocn_def)
  have e: "procs s1 = procs s" "data_phys s1 = data_phys s" "k_mess_buf s1 = k_mess_buf s"
    "s_flags (privs s1 i) = s_flags (privs s i)" "s_id (privs s1 i) = s_id (privs s i)" for i
    by (simp_all add: s1_def data_phys_def fun_eq_iff)
  have w: "wakes s1 n SYSTEM = wakes s n SYSTEM" "s_id (priv_of s1 m) = s_id (priv_of s m)" for m
    unfolding wakes_def waiting_for_def priv_of_def e by (rule refl)+
  have sg: "s_sig_pending (priv_of s1 n) = sigaddset sig (s_sig_pending (priv_of s n))"
    by (simp add: s1_def priv_of_def)
  obtain s' where s': "mini_notify SYSTEM n s1 = Some (OK, s')" "ipc_inv s'"
    "\<And>m. p_rts_flags (procs s' m) = p_rts_flags (procs s1 m) - (if wakes s1 n SYSTEM \<and> m = n then {RECEIVING} else {})"
    "\<And>m. p_priv (procs s' m) = p_priv (procs s1 m)"
    "\<And>i. s_notify_pending (privs s' i) = (if \<not> wakes s1 n SYSTEM \<and> i = p_priv (procs s1 n)
       then set_sys_bit (s_id (priv_of s1 SYSTEM)) (s_notify_pending (privs s1 i)) else s_notify_pending (privs s1 i))"
    "s_sig_pending (priv_of s' n) =
       (if wakes s1 n SYSTEM \<and> SYSTEM = SYSTEM then 0 else s_sig_pending (priv_of s1 n))"
    "wakes s1 n SYSTEM \<Longrightarrow>
       apart (data_phys s1 HARDWARE (k_mess_buf s1)) (data_phys s1 n (p_messbuf (procs s1 n))) MESS_SIZE \<Longrightarrow>
       notification SYSTEM n s1 (load_mess (data_phys s1 n (p_messbuf (procs s1 n))) (k_mem s'))"
    by (rule mini_notify_effect [OF I sys assms(2) p]) blast
  have pc: "priv_core (privs s' i) = priv_core (privs s i)" for i
    by (rule mini_notify_inv [OF I sys assms(2) p]) (use s'(1) in \<open>simp add: s1_def\<close>)
  have "told SYSTEM n s s'"
    by (simp add: told_def s'(3,5) w e s'(4) priv_of_def get_set_sys_bit)
  then have "sig_sent n sig s s'"
    using s'(6,7) by (simp add: sig_sent_def Let_def notification_def w e sg)
  moreover have "send_sig n sig s = Some s'"
    using assms(2,3) sys s'(1) by (simp add: send_sig_def lock_notify_def s1_def [symmetric])
  ultimately show thesis by (intro that [of s']) (use s' pc in \<open>simp_all add: e\<close>)
qed

lemma send_sig_pending:
  "send_sig a b s = Some s' \<Longrightarrow> p_pending (procs s' n) = p_pending (procs s n)"
  by (auto simp: send_sig_def lock_notify_def dest!: mini_notify_frame(12) [where n = n])

lemma kprintf_inv:
  assumes "ipc_inv s" "log_ok s" "kp_text fmt args False = Some t"
  obtains s' where "kprintf fmt args s = Some s'" "ipc_inv s'"
    "\<And>m. m \<noteq> LOG_PROC_NR \<Longrightarrow> p_rts_flags (procs s' m) = p_rts_flags (procs s m)"
    "\<And>m. p_priv (procs s' m) = p_priv (procs s m)"
    "\<And>i. priv_core (privs s' i) = priv_core (privs s i)"
proof -
  define s1 where "s1 = fold kputc t s"
  have I: "ipc_inv s1" using assms(1) by (simp add: s1_def ipc_inv_kputs)
  have h: "has_priv s1 LOG_PROC_NR" "has_priv s1 SYSTEM" using assms(2) by (simp_all add: s1_def log_ok_def has_priv_def)
  have ok: "isokprocn LOG_PROC_NR" by (simp add: isokprocn_def)
  obtain s' where s': "send_sig LOG_PROC_NR SIGKMESS s1 = Some s'" "ipc_inv s'"
    "\<And>m. m \<noteq> LOG_PROC_NR \<Longrightarrow> p_rts_flags (procs s' m) = p_rts_flags (procs s1 m)"
    "\<And>m. p_priv (procs s' m) = p_priv (procs s1 m)"
    "\<And>i. priv_core (privs s' i) = priv_core (privs s1 i)"
    by (rule send_sig_inv [OF I ok h]) blast
  have "kprintf fmt args s = Some s'"
    using s'(1) by (simp add: kprintf_def kprintf_loop_text assms(3) kputc_end_def s1_def)
  then show thesis by (rule that) (use s' in \<open>simp_all add: s1_def\<close>)
qed

lemma demo_log_ok: "log_ok demo_state"
  by (simp add: log_ok_def has_priv_def demo_proc_def)

subsection \<open>Properties\<close>

text \<open>
  Number conversion in \<^verbatim>\<open>kprintf\<close>: the characters written for base 10 or 16 denote the number,
  and for a 32-bit number they and the final NUL fit the 12 bytes of \<^verbatim>\<open>ascii\<close>.
\<close>

theorem digits_denote_number:
  fixes u :: u32
  assumes "base = 10 \<or> base = 16"
  shows "decode base (digits base (unat u) []) = unat u \<and> length (digits base (unat u) []) + 1 \<le> 12"
proof -
  have "unat u < 2 ^ LENGTH(32)" by (rule unsigned_less)
  with assms have "unat u < base ^ Suc 9" "1 < base" "base \<le> 16" by auto
  with length_digits [of base "unat u" 9 "[]"] show ?thesis
    by (simp add: decode_digits) (simp add: decode_def)
qed

theorem digits_denote_number_witness:
  "decode 10 (digits 10 (unat (4294967295 :: u32)) []) = 4294967295 \<and> digits 16 48879 [] = ''BEEF''"
  using digits_denote_number [of 10 "4294967295"]
  by (simp add: digits.simps x2c_def Let_def)

text \<open>
  The message buffer is a ring: a completed \<^verbatim>\<open>kprintf\<close> leaves in it the last 256 characters of
  what it held before followed by the formatted text.
\<close>

theorem kprintf_ring:
  assumes "km_ok (kmess s)" "kp_text fmt args False = Some t" "kprintf_loop fmt args False s = Some s'"
  shows "km_ok (kmess s') \<and>
    km_text (kmess s') = (let u = km_text (kmess s) @ t in drop (length u - KMESS_BUF_SIZE) u)"
  using assms km_text_kputs [of s t] by (simp add: kprintf_loop_text)

theorem kprintf_ring_witness:
  "\<exists>s'. kprintf_loop ''%d'' [Signed 42] False demo_state = Some s' \<and> km_text (kmess s') = ''42''"
proof -
  have k: "kmess demo_state = \<lparr>km_next = 0, km_size = 0, km_buf = (\<lambda>_. CHR 0x00)\<rparr>"
    by (simp add: demo_state_def)
  have t: "kp_text ''%d'' [Signed 42] False = Some ''42''" by (simp add: digits.simps x2c_def Let_def)
  then have "kprintf_loop ''%d'' [Signed 42] False demo_state = Some (fold kputc ''42'' demo_state)"
    unfolding kprintf_loop_text by simp
  with kprintf_ring [OF _ t this] show ?thesis by (simp add: km_ok_def km_text_def k Let_def)
qed

text \<open>
  \<^verbatim>\<open>kprintf\<close> forgets to reset \<^verbatim>\<open>negative\<close>: after one negative number every later conversion of
  the same call, numbers and strings alike, is printed with a minus sign.
\<close>

theorem kprintf_sticky_minus:
  "kprintf_loop ''%d to %d (%s)'' [Signed (- 1), Signed 5, Str (Some ''x'')] False s =
     Some (fold kputc ''-1 to -5 (-x)'' s)"
  unfolding kprintf_loop_text by (simp add: digits.simps x2c_def Let_def)

end
