(* ===== verification/Kernel_Irq.thy ===== *)
theory Kernel_Irq
  imports Kernel_Print
begin

text \<open>
  Interrupt hooks, \<^verbatim>\<open>kernel/i8259.c\<close>: registering a hook on an IRQ line and removing it, and the
  assembly routines \<^verbatim>\<open>enable_irq\<close> and \<^verbatim>\<open>disable_irq\<close> of \<^verbatim>\<open>kernel/klib386.s\<close>. A hook is an
  index into \<^verbatim>\<open>irq_hooks\<close>; the hook of the clock, \<^verbatim>\<open>clock_hook\<close>, has index 16.

  Shown here: a registered hook is appended to the line's list with the first identifier bit above
  those in use as long as no hook was removed; removal takes out exactly the given hook if the
  identifiers on the line are distinct; after a removal identifiers can collide, and then the
  wrong hook is removed.
\<close>

subsection \<open>Model\<close>

abbreviation (input) NR_IRQ_HOOKS :: nat where "NR_IRQ_HOOKS \<equiv> 16"
abbreviation (input) NR_IRQ_VECTORS :: int where "NR_IRQ_VECTORS \<equiv> 16"
abbreviation (input) CLOCK_HOOK :: nat where "CLOCK_HOOK \<equiv> 16"
abbreviation (input) CLOCK_IRQ :: int where "CLOCK_IRQ \<equiv> 0"

definition upd_hook :: "nat \<Rightarrow> (irq_hook \<Rightarrow> irq_hook) \<Rightarrow> kstate \<Rightarrow> kstate" where
  "upd_hook i f s = s\<lparr>irq_hooks := (irq_hooks s)(i := f (irq_hooks s i))\<rparr>"

definition hnext :: "kstate \<Rightarrow> nat \<Rightarrow> nat option" where
  "hnext s i = ih_next (irq_hooks s i)"

text \<open>\<^verbatim>\<open>*line = v\<close>\<close>

fun irq_assign :: "int \<Rightarrow> nat slot \<Rightarrow> nat option \<Rightarrow> kstate \<Rightarrow> kstate" where
  "irq_assign irq Head v s = s\<lparr>irq_handlers := (irq_handlers s)(irq := v)\<rparr>"
| "irq_assign irq (Link a) v s = upd_hook a (ih_next_update (\<lambda>_. v)) s"

text \<open>The loop of \<^verbatim>\<open>put_irq_handler\<close>: the slot at which it stops, and the identifier bit.\<close>

partial_function (option) irq_line ::
  "nat \<Rightarrow> nat option \<Rightarrow> (nat \<Rightarrow> nat option) \<Rightarrow> nat slot \<Rightarrow> u32 \<Rightarrow> (nat slot \<times> u32) option" where
  "irq_line hook h nx line idb =
     (case rd h nx line of
        None \<Rightarrow> Some (line, idb)
      | Some x \<Rightarrow> if hook = x then Some (line, idb) else irq_line hook h nx (Link x) (push_bit 1 idb))"

definition put_irq_handler :: "nat \<Rightarrow> int \<Rightarrow> irq_handler \<Rightarrow> kstate \<Rightarrow> kstate option" where
  "put_irq_handler hook irq handler s = do {
     guard (0 \<le> irq \<and> irq < NR_IRQ_VECTORS);
     (line, idb) \<leftarrow> irq_line hook (irq_handlers s irq) (hnext s) Head 1;
     if rd (irq_handlers s irq) (hnext s) line \<noteq> None then Some s
     else do {
       guard (idb \<noteq> 0);
       let s1 = upd_hook hook (\<lambda>h. h\<lparr>ih_next := None, ih_handler := handler, ih_irq := irq, ih_id := idb\<rparr>) s;
       let s2 = irq_assign irq line (Some hook) s1;
       Some (s2\<lparr>irq_use := irq_use s2 OR push_bit (nat irq) 1\<rparr>)
     }
   }"

definition rm_irq_handler :: "nat \<Rightarrow> kstate \<Rightarrow> kstate option" where
  "rm_irq_handler hook s = do {
     let irq = ih_irq (irq_hooks s hook);
     let idb = ih_id (irq_hooks s hook);
     guard (0 \<le> irq \<and> irq < NR_IRQ_VECTORS);
     line \<leftarrow> chain_find (\<lambda>x. ih_id (irq_hooks s x) = idb) (irq_handlers s irq) (hnext s) Head;
     (case rd (irq_handlers s irq) (hnext s) line of
        None \<Rightarrow> Some s
      | Some x \<Rightarrow>
          (let s1 = irq_assign irq line (hnext s x) s in
           Some (if irq_handlers s1 irq = None
                 then s1\<lparr>irq_use := irq_use s1 AND NOT (push_bit (nat irq) 1)\<rparr> else s1)))
   }"

definition enable_irq :: "nat \<Rightarrow> kstate \<Rightarrow> kstate" where
  "enable_irq hook s =
     (let irq = ih_irq (irq_hooks s hook);
          act = irq_actids s irq AND NOT (ih_id (irq_hooks s hook));
          s1 = s\<lparr>irq_actids := (irq_actids s)(irq := act)\<rparr>
      in if act \<noteq> 0 then s1 else s1\<lparr>pic_mask := unset_bit (nat irq) (pic_mask s)\<rparr>)"

definition disable_irq :: "nat \<Rightarrow> kstate \<Rightarrow> bool \<times> kstate" where
  "disable_irq hook s =
     (let irq = ih_irq (irq_hooks s hook);
          s1 = s\<lparr>irq_actids := (irq_actids s)(irq := irq_actids s irq OR ih_id (irq_hooks s hook))\<rparr>
      in (\<not> bit (pic_mask s) (nat irq), s1\<lparr>pic_mask := set_bit (nat irq) (pic_mask s)\<rparr>))"

subsection \<open>The lists of hooks\<close>

definition irq_list :: "kstate \<Rightarrow> int \<Rightarrow> nat list \<Rightarrow> bool" where
  "irq_list s irq xs \<longleftrightarrow> chain (hnext s) (irq_handlers s irq) xs"

lemma upd_hook_sel [simp]:
  "irq_hooks (upd_hook i f s) = (irq_hooks s)(i := f (irq_hooks s i))"
  "irq_handlers (upd_hook i f s) = irq_handlers s" "irq_use (upd_hook i f s) = irq_use s"
  "procs (upd_hook i f s) = procs s" "privs (upd_hook i f s) = privs s"
  by (simp_all add: upd_hook_def)

lemma hnext_upd [simp]:
  "hnext (upd_hook i f s) = (hnext s)(i := ih_next (f (irq_hooks s i)))"
  "hnext (s\<lparr>irq_handlers := h\<rparr>) = hnext s" "hnext (s\<lparr>irq_use := u\<rparr>) = hnext s"
  by (auto simp: hnext_def)

lemma irq_assign_sel:
  "hnext (irq_assign irq sl v s) = wr_nx sl v (hnext s)"
  "irq_handlers (irq_assign irq sl v s) = (irq_handlers s)(irq := wr_hd sl v (irq_handlers s irq))"
  "ih_id (irq_hooks (irq_assign irq sl v s) i) = ih_id (irq_hooks s i)"
  "ih_irq (irq_hooks (irq_assign irq sl v s) i) = ih_irq (irq_hooks s i)"
  "irq_use (irq_assign irq sl v s) = irq_use s"
  by (cases sl; simp)+

lemma irq_line_from:
  "chain nx p ys \<Longrightarrow> rd h nx sl = p \<Longrightarrow>
   irq_line hook h nx sl idb =
     (let us = takeWhile (\<lambda>x. x \<noteq> hook) ys
      in Some (if us = [] then sl else Link (last us), push_bit (length us) idb))"
proof (induction ys arbitrary: p sl idb)
  case Nil
  then show ?case by (simp add: irq_line.simps [of hook h nx sl])
next
  case (Cons y ys)
  then have "irq_line hook h nx (Link y) (push_bit 1 idb) =
      (let us = takeWhile (\<lambda>x. x \<noteq> hook) ys
       in Some (if us = [] then Link y else Link (last us), push_bit (length us) (push_bit 1 idb)))"
    using Cons.IH [of "nx y" "Link y"] by simp
  with Cons.prems show ?case
    by (simp add: irq_line.simps [of hook h nx sl] Let_def ac_simps)
qed

lemma irq_line_chain:
  assumes "chain nx h xs"
  shows "irq_line hook h nx Head 1 =
    (let us = takeWhile (\<lambda>x. x \<noteq> hook) xs in Some (slot_after us, push_bit (length us) 1))"
  using irq_line_from [OF assms, of h Head hook 1] by (simp add: slot_after_def Let_def)

subsection \<open>Properties\<close>

text \<open>
  \<^verbatim>\<open>put_irq_handler\<close>, for a hook that is not on the line yet: the hook is appended to the line's
  list, every other line's list is unchanged, and its identifier is the bit numbered by the length
  of the list. With a hook that is already there nothing changes.
\<close>

theorem put_irq_handler_appends:
  assumes "irq_list s irq xs" "0 \<le> irq" "irq < NR_IRQ_VECTORS" "length xs < 32"
    "\<forall>i. i \<noteq> irq \<longrightarrow> (\<exists>ys. irq_list s i ys \<and> hook \<notin> set ys \<and> set xs \<inter> set ys = {})"
  shows "\<exists>s'. put_irq_handler hook irq f s = Some s' \<and>
    (if hook \<in> set xs then s' = s
     else irq_list s' irq (xs @ [hook]) \<and> ih_id (irq_hooks s' hook) = push_bit (length xs) 1 \<and>
       ih_irq (irq_hooks s' hook) = irq \<and> bit (irq_use s') (nat irq) \<and>
       (\<forall>i ys. i \<noteq> irq \<longrightarrow> irq_list s i ys \<longrightarrow> irq_list s' i ys))"
proof -
  have ch: "chain (hnext s) (irq_handlers s irq) xs" using assms(1) by (simp add: irq_list_def)
  define us where "us = takeWhile (\<lambda>x. x \<noteq> hook) xs"
  have l: "irq_line hook (irq_handlers s irq) (hnext s) Head 1 = Some (slot_after us, push_bit (length us) 1)"
    using irq_line_chain [OF ch, of hook] by (simp add: us_def Let_def)
  show ?thesis
  proof (cases "hook \<in> set xs")
    case True
    have "chain (hnext s) (irq_handlers s irq) (us @ hook # tl (dropWhile (\<lambda>x. x \<noteq> hook) xs))"
      using ch split_at_first [OF True] by (simp add: us_def)
    from rd_slot_after [OF this] have "rd (irq_handlers s irq) (hnext s) (slot_after us) = Some hook" by simp
    with True assms(2,3) l show ?thesis by (simp add: put_irq_handler_def)
  next
    case False
    then have us: "us = xs" by (simp add: us_def takeWhile_eq_all_conv) blast
    have e: "rd (irq_handlers s irq) (hnext s) (slot_after xs) = None"
      using rd_slot_after [of "hnext s" _ xs "[]"] ch by simp
    have idn: "push_bit (length xs) 1 \<noteq> (0 :: u32)"
    proof -
      have "bit (push_bit (length xs) 1 :: u32) (length xs)" using assms(4) by (simp add: bit_simps)
      then show ?thesis by (metis bit_0_eq bot_apply bot_bool_def)
    qed
    define s1 where "s1 = upd_hook hook
      (\<lambda>h. h\<lparr>ih_next := None, ih_handler := f, ih_irq := irq, ih_id := push_bit (length xs) 1\<rparr>) s"
    define s2 where "s2 = irq_assign irq (slot_after xs) (Some hook) s1"
    define s' where "s' = s2\<lparr>irq_use := irq_use s2 OR push_bit (nat irq) 1\<rparr>"
    have "put_irq_handler hook irq f s = Some s'"
      using assms(2,3) l e idn by (simp add: put_irq_handler_def us s1_def s2_def s'_def Let_def)
    moreover have "irq_list s' irq (xs @ [hook])"
      using chain_link [of "hnext s" "irq_handlers s irq" xs "[]" hook None] ch False e
      by (simp add: irq_list_def s'_def s2_def s1_def irq_assign_sel)
    moreover have "irq_list s' i ys" if i: "i \<noteq> irq" "irq_list s i ys" for i ys
    proof -
      obtain zs where zs: "irq_list s i zs" "hook \<notin> set zs" "set xs \<inter> set zs = {}" using assms(5) i by blast
      then have "zs = ys" using i(2) chain_unique unfolding irq_list_def by blast
      with zs have d: "hook \<notin> set ys" "set xs \<inter> set ys = {}" by simp_all
      have "chain (hnext s') (irq_handlers s i) ys \<longleftrightarrow> chain (hnext s) (irq_handlers s i) ys"
      proof (rule chain_cong)
        fix x assume "x \<in> set ys"
        with d have "x \<noteq> hook" and "xs \<noteq> [] \<Longrightarrow> x \<noteq> last xs" using last_in_set by blast+
        then show "hnext s' x = hnext s x"
          by (simp add: s'_def s2_def s1_def irq_assign_sel slot_after_def)
      qed
      with i show ?thesis by (simp add: irq_list_def s'_def s2_def s1_def irq_assign_sel)
    qed
    moreover have "bit (irq_use s') (nat irq)" using assms(2,3) by (simp add: s'_def bit_simps nat_less_iff)
    ultimately show ?thesis
      using False by (intro exI [of _ s']) (simp add: s'_def s2_def s1_def irq_assign_sel)
  qed
qed

lemma demo_irq_list: "irq_list demo_state i []"
  by (simp add: irq_list_def demo_state_def)

theorem put_irq_handler_appends_witness:
  "\<exists>s'. put_irq_handler 3 5 generic_handler_fn demo_state = Some s' \<and> irq_list s' 5 [3]"
proof -
  have "\<exists>ys. irq_list demo_state i ys \<and> 3 \<notin> set ys \<and> set [] \<inter> set ys = {}" for i
    using demo_irq_list [of i] by (intro exI [of _ "[]"]) simp
  then show ?thesis
    using put_irq_handler_appends [OF demo_irq_list, of 5 3 generic_handler_fn] by auto
qed

text \<open>
  \<^verbatim>\<open>rm_irq_handler\<close>: if the identifiers on the line are distinct, exactly the given hook is
  removed, and the line is marked unused when no hook is left.
\<close>

theorem rm_irq_handler_removes:
  assumes "irq_list s irq xs" "hook \<in> set xs" "ih_irq (irq_hooks s hook) = irq" "0 \<le> irq"
    "irq < NR_IRQ_VECTORS" "inj_on (\<lambda>x. ih_id (irq_hooks s x)) (set xs)"
  shows "\<exists>s'. rm_irq_handler hook s = Some s' \<and> irq_list s' irq (remove1 hook xs) \<and>
    (remove1 hook xs = [] \<longrightarrow> \<not> bit (irq_use s') (nat irq)) \<and>
    (\<forall>i. i \<noteq> irq \<longrightarrow> irq_handlers s' i = irq_handlers s i)"
proof -
  have ch: "chain (hnext s) (irq_handlers s irq) xs" using assms(1) by (simp add: irq_list_def)
  define us where "us = takeWhile (\<lambda>x. x \<noteq> hook) xs"
  note rem = chain_remove [OF ch assms(2), folded us_def]
  let ?P = "\<lambda>x. ih_id (irq_hooks s x) = ih_id (irq_hooks s hook)"
  have "takeWhile (\<lambda>x. \<not> ?P x) xs = us"
    unfolding us_def using assms(2,6) by (intro takeWhile_cong) (auto simp: inj_on_def)
  then have f: "chain_find ?P (irq_handlers s irq) (hnext s) Head = Some (slot_after us)"
    using chain_find_chain [OF ch, of ?P] by simp
  define s1 where "s1 = irq_assign irq (slot_after us) (hnext s hook) s"
  have c1: "chain (hnext s1) (irq_handlers s1 irq) (remove1 hook xs)"
    using rem(1) by (simp add: s1_def irq_assign_sel)
  have "rm_irq_handler hook s = Some (if irq_handlers s1 irq = None
      then s1\<lparr>irq_use := irq_use s1 AND NOT (push_bit (nat irq) 1)\<rparr> else s1)"
    using assms(3-5) f rem(2) by (simp add: rm_irq_handler_def Let_def s1_def)
  moreover have "remove1 hook xs = [] \<Longrightarrow> irq_handlers s1 irq = None" using c1 by auto
  ultimately show ?thesis
    using c1 assms(4,5) by (auto simp: irq_list_def bit_simps nat_less_iff s1_def irq_assign_sel)
qed

theorem rm_irq_handler_removes_witness:
  "\<exists>s' s''. put_irq_handler 3 5 generic_handler_fn demo_state = Some s' \<and>
     rm_irq_handler 3 s' = Some s'' \<and> irq_list s'' 5 []"
proof -
  have l: "irq_line 3 (irq_handlers demo_state 5) (hnext demo_state) Head 1 = Some (Head, 1)"
    by (simp add: irq_line.simps demo_state_def)
  define s' where "s' = (upd_hook 3 (\<lambda>h. h\<lparr>ih_next := None, ih_handler := generic_handler_fn, ih_irq := 5,
    ih_id := 1\<rparr>) demo_state)\<lparr>irq_handlers := (irq_handlers demo_state)(5 := Some 3),
    irq_use := push_bit 5 1\<rparr>"
  have "put_irq_handler 3 5 generic_handler_fn demo_state = Some s'"
    by (simp add: put_irq_handler_def l s'_def Let_def) (simp add: demo_state_def)
  moreover have "irq_list s' 5 [3]" "ih_irq (irq_hooks s' 3) = 5"
    by (simp_all add: irq_list_def s'_def hnext_def upd_hook_def)
  ultimately show ?thesis using rm_irq_handler_removes [of s' 5 "[3]" 3] by auto
qed
text \<open>
  After a removal two hooks of a line can get the same identifier, since \<^verbatim>\<open>put_irq_handler\<close> counts
  the hooks instead of looking for a free bit: of hooks 3 and 4, hook 3 is removed and hook 5
  added; removing hook 5 then takes out hook 4 and leaves hook 5 registered.
\<close>

theorem irq_ids_collide:
  "\<exists>s4 s5. do { s1 \<leftarrow> put_irq_handler 3 5 generic_handler_fn demo_state;
       s2 \<leftarrow> put_irq_handler 4 5 generic_handler_fn s1;
       s3 \<leftarrow> rm_irq_handler 3 s2;
       put_irq_handler 5 5 generic_handler_fn s3 } = Some s4 \<and>
     irq_list s4 5 [4, 5] \<and> ih_id (irq_hooks s4 4) = ih_id (irq_hooks s4 5) \<and>
     rm_irq_handler 5 s4 = Some s5 \<and> irq_list s5 5 [5]"
proof -
  let ?h = "generic_handler_fn"
  define s0 where "s0 = demo_state"
  have 0: "irq_handlers s0 5 = None" by (simp add: s0_def demo_state_def)
  define s1 where "s1 = (irq_assign 5 Head (Some 3) (upd_hook 3 (\<lambda>h. h\<lparr>ih_next := None, ih_handler := ?h,
      ih_irq := 5, ih_id := 1\<rparr>) s0))\<lparr>irq_use := irq_use s0 OR push_bit 5 1\<rparr>"
  have p1: "put_irq_handler 3 5 ?h s0 = Some s1"
    by (simp add: put_irq_handler_def irq_line.simps 0 Let_def s1_def)
  have 1: "irq_handlers s1 5 = Some 3" "hnext s1 3 = None" "ih_irq (irq_hooks s1 3) = 5" "ih_id (irq_hooks s1 3) = 1"
    by (simp_all add: s1_def)
  define s2 where "s2 = (irq_assign 5 (Link 3) (Some 4) (upd_hook 4 (\<lambda>h. h\<lparr>ih_next := None, ih_handler := ?h,
      ih_irq := 5, ih_id := 2\<rparr>) s1))\<lparr>irq_use := irq_use s1 OR push_bit 5 1\<rparr>"
  have p2: "put_irq_handler 4 5 ?h s1 = Some s2"
    by (simp add: put_irq_handler_def irq_line.simps 1 Let_def s2_def)
  have 2: "irq_handlers s2 5 = Some 3" "hnext s2 3 = Some 4" "hnext s2 4 = None" "ih_irq (irq_hooks s2 3) = 5"
    "ih_id (irq_hooks s2 3) = 1" "ih_id (irq_hooks s2 4) = 2"
    using 1 by (simp_all add: s2_def)
  define s3 where "s3 = irq_assign 5 Head (Some 4) s2"
  have p3: "rm_irq_handler 3 s2 = Some s3"
    by (simp add: rm_irq_handler_def chain_find.simps 2 Let_def s3_def)
  have 3: "irq_handlers s3 5 = Some 4" "hnext s3 4 = None" "ih_id (irq_hooks s3 4) = 2"
    using 2 by (simp_all add: s3_def hnext_def)
  define s4 where "s4 = (irq_assign 5 (Link 4) (Some 5) (upd_hook 5 (\<lambda>h. h\<lparr>ih_next := None, ih_handler := ?h,
      ih_irq := 5, ih_id := 2\<rparr>) s3))\<lparr>irq_use := irq_use s3 OR push_bit 5 1\<rparr>"
  have p4: "put_irq_handler 5 5 ?h s3 = Some s4"
    by (simp add: put_irq_handler_def irq_line.simps 3 Let_def s4_def)
  have 4: "irq_handlers s4 5 = Some 4" "hnext s4 4 = Some 5" "hnext s4 5 = None" "ih_irq (irq_hooks s4 5) = 5"
    "ih_id (irq_hooks s4 4) = 2" "ih_id (irq_hooks s4 5) = 2"
    using 3 by (simp_all add: s4_def)
  define s5 where "s5 = irq_assign 5 Head (Some 5) s4"
  have p5: "rm_irq_handler 5 s4 = Some s5"
    by (simp add: rm_irq_handler_def chain_find.simps 4 Let_def s5_def)
  have "irq_handlers s5 5 = Some 5" "hnext s5 5 = None" using 4 by (simp_all add: s5_def hnext_def)
  with p1 p2 p3 p4 p5 4 show ?thesis
    by (intro exI [of _ s4] exI [of _ s5]) (simp add: s0_def irq_list_def)
qed

end
