(* ===== verification/Kernel_Clock.thy ===== *)
theory Kernel_Clock
  imports Kernel_Irq
begin

text \<open>
  Time and interrupts: \<^verbatim>\<open>kernel/clock.c\<close> (the tick handler, the clock task's work, the kernel's
  timers), \<^verbatim>\<open>kernel/system/do_setalarm.c\<close>, \<^verbatim>\<open>kernel/system/do_irqctl.c\<close> with the generic
  interrupt handler, \<^verbatim>\<open>intr_handle\<close> of \<^verbatim>\<open>kernel/i8259.c\<close>, and \<^verbatim>\<open>get_randomness\<close> of
  \<^verbatim>\<open>kernel/system.c\<close>. The kernel's timer queue is the library's (theory Timers), with the alarm timer
  of privilege structure \<open>i\<close> at address \<open>i\<close>.

  Shown here: the kernel's timers satisfy the contract of the timer library, so the expired
  watchdogs, and only they, run in order; \<^verbatim>\<open>next_timeout\<close> is always the earliest queued time;
  an alarm request replaces the previous one and reports the time it had left; a tick charges the
  right processes and notifies the clock task when something is due; and re-scheduling a process
  whose quantum ran out keeps the scheduler's invariant only if that process is still runnable.
\<close>

subsection \<open>Model: devices and timers\<close>

definition outb :: "u32 \<Rightarrow> u32 \<Rightarrow> kstate \<Rightarrow> kstate" where
  "outb port v s = s\<lparr>dev_log := dev_log s @ [(port, 1, v AND 0xFF)]\<rparr>"

definition inb :: "u32 \<Rightarrow> kstate \<Rightarrow> u32 \<times> kstate" where
  "inb port s = (dev_in s (dev_rd s) AND 0xFF, s\<lparr>dev_rd := dev_rd s + 1\<rparr>)"

definition get_uptime :: "kstate \<Rightarrow> int" where
  "get_uptime s = realtime s"

definition get_timers :: "kstate \<Rightarrow> watchdog tmrs" where
  "get_timers s = (k_timers s, clock_timers s)"

definition put_timers :: "watchdog tmrs \<Rightarrow> kstate \<Rightarrow> kstate" where
  "put_timers q s = s\<lparr>k_timers := fst q, clock_timers := snd q\<rparr>"

text \<open>Expiration time of the first timer, TMR_NEVER for an empty queue.\<close>

definition first_timeout :: "kstate \<Rightarrow> int" where
  "first_timeout s = (case clock_timers s of None \<Rightarrow> TMR_NEVER | Some t \<Rightarrow> tmr_exp_time (k_timers s t))"

definition set_timer :: "nat \<Rightarrow> int \<Rightarrow> watchdog \<Rightarrow> kstate \<Rightarrow> kstate option" where
  "set_timer tp exp_time wd s = do {
     (q, _, _) \<leftarrow> tmrs_settimer (get_timers s) tp exp_time wd;
     let s1 = put_timers q s;
     Some (s1\<lparr>next_timeout := first_timeout s1\<rparr>)
   }"

definition reset_timer :: "nat \<Rightarrow> kstate \<Rightarrow> kstate option" where
  "reset_timer tp s = do {
     (q, _, _) \<leftarrow> tmrs_clrtimer (get_timers s) tp;
     let s1 = put_timers q s;
     Some (s1\<lparr>next_timeout := first_timeout s1\<rparr>)
   }"

definition read_clock :: "kstate \<Rightarrow> u32 \<times> kstate" where
  "read_clock s =
     (let s1 = outb 0x43 0 s; (lo, s2) = inb 0x40 s1; (hi, s3) = inb 0x40 s2
      in (lo OR push_bit 8 hi, s3))"

definition clock_stop :: "kstate \<Rightarrow> kstate" where
  "clock_stop s = outb 0x40 0 (outb 0x40 0 (outb 0x43 0x36 s))"

abbreviation (input) TIMER_COUNT :: u32 where "TIMER_COUNT \<equiv> 19886"

definition init_clock :: "kstate \<Rightarrow> kstate option" where
  "init_clock s = do {
     let s1 = upd_hook CLOCK_HOOK (ih_proc_nr_update (\<lambda>_. CLOCK)) s;
     let s2 = outb 0x40 (drop_bit 8 TIMER_COUNT) (outb 0x40 TIMER_COUNT (outb 0x43 0x36 s1));
     s3 \<leftarrow> put_irq_handler CLOCK_HOOK CLOCK_IRQ clock_handler_fn s2;
     Some (enable_irq CLOCK_HOOK s3)
   }"

subsection \<open>Model: alarms and the clock task\<close>

definition cause_alarm :: "nat \<Rightarrow> kstate \<Rightarrow> kstate option" where
  "cause_alarm tp s = do {
     (_, s1) \<leftarrow> lock_notify CLOCK (tmr_arg (k_timers s tp)) s;
     Some s1
   }"

text \<open>A watchdog call; the shutdown watchdog does not return.\<close>

definition run_watchdog :: "watchdog \<Rightarrow> nat \<Rightarrow> kstate \<Rightarrow> kstate option" where
  "run_watchdog f tp s = (case f of cause_alarm_fn \<Rightarrow> cause_alarm tp s | shutdown_fn \<Rightarrow> None)"

definition clock_handler :: "kstate \<Rightarrow> (bool \<times> kstate) option" where
  "clock_handler s0 = do {
     let s = (if mi_ps_mca (machine s0) then (case inb 0x61 s0 of (b, s1) \<Rightarrow> outb 0x61 (b OR 0x80) s1) else s0);
     let ticks = lost_ticks s + 1;
     let s1 = s\<lparr>lost_ticks := 0, realtime := slong (realtime s + ticks)\<rparr>;
     p \<leftarrow> proc_ptr s1;
     let s2 = upd_proc p (\<lambda>r. r\<lparr>p_user_time := slong (p_user_time r + ticks)\<rparr>) s1;
     let s3 = (if PREEMPTIBLE \<in> s_flags (priv_of s2 p)
               then upd_proc p (\<lambda>r. r\<lparr>p_ticks_left := schar (p_ticks_left r - ticks)\<rparr>) s2 else s2);
     s4 \<leftarrow> (if BILLABLE \<notin> s_flags (priv_of s3 p) then do {
               b \<leftarrow> bill_ptr s3;
               Some (upd_proc b (\<lambda>r. r\<lparr>p_sys_time := slong (p_sys_time r + ticks),
                                      p_ticks_left := schar (p_ticks_left r - ticks)\<rparr>) s3)
             } else Some s3);
     if next_timeout s4 \<le> realtime s4 \<or> p_ticks_left (procs s4 p) \<le> 0 then do {
       (_, s5) \<leftarrow> lock_notify HARDWARE CLOCK (s4\<lparr>prev_ptr := Some p\<rparr>);
       Some (True, s5)
     }
     else Some (True, s4)
   }"

definition do_clocktick :: "kstate \<Rightarrow> (int \<times> kstate) option" where
  "do_clocktick s = do {
     p \<leftarrow> prev_ptr s;
     s1 \<leftarrow> (if p_ticks_left (procs s p) \<le> 0 \<and> PREEMPTIBLE \<in> s_flags (priv_of s p) then do {
               s' \<leftarrow> lock_dequeue p s;
               lock_enqueue p s'
             } else Some s);
     s2 \<leftarrow> (if next_timeout s1 \<le> realtime s1 then do {
               s' \<leftarrow> tmrs_exptimers get_timers put_timers run_watchdog (realtime s1) s1;
               Some (s'\<lparr>next_timeout := first_timeout s'\<rparr>)
             } else Some s1);
     Some (EDONTREPLY, s2)
   }"

text \<open>One round of the loop of \<^verbatim>\<open>clock_task\<close>, for a received message.\<close>

definition clock_task_step :: "message \<Rightarrow> kstate \<Rightarrow> kstate option" where
  "clock_task_step m s =
     (if m_type m = NOTIFY_FROM HARDWARE then do { (_, s1) \<leftarrow> do_clocktick s; Some s1 }
      else kprintf (''CLOCK: illegal request %d from %d.'' @ [CHR 0x0A])
             [Signed (m_type m), Signed (m_source m)] s)"

definition do_setalarm :: "message \<Rightarrow> kstate \<Rightarrow> (int \<times> message \<times> kstate) option" where
  "do_setalarm m s = do {
     let exp_time = sint (m_w3 m);
     let use_abs_time = (m_w1 m \<noteq> 0);
     let proc_nr = m_source m;
     guard (isokprocn proc_nr \<and> has_priv s proc_nr);
     if SYS_PROC \<notin> s_flags (priv_of s proc_nr) then Some (EPERM, m, s)
     else do {
       let tp = p_priv (procs s proc_nr);
       let s1 = s\<lparr>k_timers := (k_timers s)(tp := (k_timers s tp)\<lparr>tmr_arg := proc_nr, tmr_func := cause_alarm_fn\<rparr>)\<rparr>;
       let uptime = get_uptime s1;
       let e = tmr_exp_time (k_timers s1 tp);
       let m1 = m\<lparr>m_w3 := (if e \<noteq> TMR_NEVER \<and> uptime < e then word_of_int (e - uptime) else 0)\<rparr>;
       if exp_time = 0 then do {
         s2 \<leftarrow> reset_timer tp s1;
         Some (OK, m1, s2)
       }
       else do {
         let e' = (if use_abs_time then exp_time else slong (exp_time + get_uptime s1));
         let s2 = s1\<lparr>k_timers := (k_timers s1)(tp := (k_timers s1 tp)\<lparr>tmr_exp_time := e'\<rparr>)\<rparr>;
         s3 \<leftarrow> set_timer tp e' cause_alarm_fn s2;
         Some (OK, m1, s3)
       }
     }
   }"

subsection \<open>Model: interrupts\<close>

abbreviation (input) RANDOM_SOURCES :: int where "RANDOM_SOURCES \<equiv> 16"
abbreviation (input) RANDOM_ELEMENTS :: nat where "RANDOM_ELEMENTS \<equiv> 32"

text \<open>The time stamp counter is one more device reading.\<close>

definition get_randomness :: "int \<Rightarrow> kstate \<Rightarrow> kstate" where
  "get_randomness source s =
     (let i = nat (source mod RANDOM_SOURCES);
          r_nxt = r_next (krandom s i);
          (v, s1) = (if mi_processor (machine s) > 486
                     then (dev_in s (dev_rd s), s\<lparr>dev_rd := dev_rd s + 1\<rparr>) else read_clock s);
          bin = krandom s1 i;
          bin1 = bin\<lparr>r_buf := (r_buf bin)(r_nxt := ucast v)\<rparr>;
          bin2 = (if r_size bin1 < RANDOM_ELEMENTS then bin1\<lparr>r_size := r_size bin1 + 1\<rparr> else bin1);
          bin3 = bin2\<lparr>r_next := (r_nxt + 1) mod RANDOM_ELEMENTS\<rparr>
      in s1\<lparr>krandom := (krandom s1)(i := bin3)\<rparr>)"

abbreviation (input) IRQ_REENABLE :: u32 where "IRQ_REENABLE \<equiv> 1"

definition generic_handler :: "nat \<Rightarrow> kstate \<Rightarrow> (bool \<times> kstate) option" where
  "generic_handler hook s = do {
     let s1 = get_randomness (ih_irq (irq_hooks s hook)) s;
     let pr = ih_proc_nr (irq_hooks s1 hook);
     guard (isokprocn pr \<and> has_priv s1 pr);
     let s2 = upd_priv (p_priv (procs s1 pr)) (s_int_pending_update (set_bit (ih_notify_id (irq_hooks s1 hook)))) s1;
     (_, s3) \<leftarrow> lock_notify HARDWARE pr s2;
     Some (ih_policy (irq_hooks s3 hook) AND IRQ_REENABLE \<noteq> 0, s3)
   }"

text \<open>
  The loop of \<^verbatim>\<open>intr_handle\<close> over the hooks of a line; handlers do not change hooks, but nothing
  in the code says that the list ends.
\<close>

partial_function (option) intr_handle :: "nat option \<Rightarrow> kstate \<Rightarrow> kstate option" where
  "intr_handle hook s =
     (case hook of
        None \<Rightarrow> Some s
      | Some h \<Rightarrow>
          (let irq = ih_irq (irq_hooks s h);
               s1 = s\<lparr>irq_actids := (irq_actids s)(irq := irq_actids s irq OR ih_id (irq_hooks s h))\<rparr>
           in Option.bind
                (case ih_handler (irq_hooks s1 h) of
                   clock_handler_fn \<Rightarrow> clock_handler s1 | generic_handler_fn \<Rightarrow> generic_handler h s1)
                (\<lambda>(r, s2).
                   let irq2 = ih_irq (irq_hooks s2 h);
                       s3 = (if r then s2\<lparr>irq_actids := (irq_actids s2)(irq2 :=
                               irq_actids s2 irq2 AND NOT (ih_id (irq_hooks s2 h)))\<rparr> else s2)
                   in intr_handle (ih_next (irq_hooks s3 h)) s3)))"

definition IRQ_SETPOLICY :: int where "IRQ_SETPOLICY = 1"
definition IRQ_RMPOLICY :: int where "IRQ_RMPOLICY = 2"
definition IRQ_ENABLE :: int where "IRQ_ENABLE = 3"
definition IRQ_DISABLE :: int where "IRQ_DISABLE = 4"

text \<open>The first hook that is not in use.\<close>

fun free_hook :: "nat list \<Rightarrow> kstate \<Rightarrow> nat option" where
  "free_hook [] s = None"
| "free_hook (i # is) s = (if ih_proc_nr (irq_hooks s i) = NONE then Some i else free_hook is s)"

declare free_hook.simps [simp del]

definition do_irqctl :: "message \<Rightarrow> kstate \<Rightarrow> (int \<times> message \<times> kstate) option" where
  "do_irqctl m s = do {
     let request = m5_c1 m;
     let irq_vec = m5_c2 m;
     let irq_hook_id = sint (m_w5 m - 1);
     if request = IRQ_ENABLE \<or> request = IRQ_DISABLE then
       (if irq_hook_id \<ge> int NR_IRQ_HOOKS then Some (EINVAL, m, s)
        else do {
          guard (0 \<le> irq_hook_id);
          let h = nat irq_hook_id;
          if ih_proc_nr (irq_hooks s h) = NONE then Some (EINVAL, m, s)
          else if ih_proc_nr (irq_hooks s h) \<noteq> m_source m then Some (EPERM, m, s)
          else if request = IRQ_ENABLE then Some (OK, m, enable_irq h s)
          else Some (OK, m, snd (disable_irq h s))
        })
     else if request = IRQ_SETPOLICY then
       (if irq_vec < 0 \<or> irq_vec \<ge> NR_IRQ_VECTORS then Some (EINVAL, m, s)
        else case free_hook [0..<NR_IRQ_HOOKS] s of
          None \<Rightarrow> Some (ENOSPC, m, s)
        | Some h \<Rightarrow>
            (let notify_id = sint (m_w5 m) in
             if uint (m_w5 m) > 31 then Some (EINVAL, m, s)
             else do {
               let s1 = upd_hook h (\<lambda>k. k\<lparr>ih_proc_nr := m_source m, ih_notify_id := nat notify_id,
                          ih_policy := m_w1 m\<rparr>) s;
               s2 \<leftarrow> put_irq_handler h irq_vec generic_handler_fn s1;
               Some (OK, m\<lparr>m_w5 := of_nat h + 1\<rparr>, s2)
             }))
     else if request = IRQ_RMPOLICY then
       (if irq_hook_id \<ge> int NR_IRQ_HOOKS then Some (EINVAL, m, s)
        else do {
          guard (0 \<le> irq_hook_id);
          let h = nat irq_hook_id;
          if ih_proc_nr (irq_hooks s h) = NONE then Some (EINVAL, m, s)
          else if ih_proc_nr (irq_hooks s h) \<noteq> m_source m then Some (EPERM, m, s)
          else do {
            s1 \<leftarrow> rm_irq_handler h s;
            Some (OK, m, s1)
          }
        })
     else Some (EINVAL, m, s)
   }"

subsection \<open>The timer queue of the kernel\<close>

lemma get_put_timers [simp]:
  "get_timers (put_timers q s) = q" "procs (put_timers q s) = procs s" "privs (put_timers q s) = privs s"
  by (simp_all add: get_timers_def put_timers_def)

lemma fst_get_timers: "fst (get_timers s) = k_timers s"
  by (simp add: get_timers_def)

lemma run_watchdog_timers: "run_watchdog f t s = Some s' \<Longrightarrow> get_timers s' = get_timers s"
  by (cases f) (auto simp: run_watchdog_def cause_alarm_def lock_notify_def get_timers_def
      mini_notify_frame split: prod.splits)

interpretation kt: timer_client get_timers put_timers run_watchdog
  by unfold_locales (simp, rule run_watchdog_timers)

definition clock_inv :: "kstate \<Rightarrow> nat list \<Rightarrow> bool" where
  "clock_inv s ts \<longleftrightarrow> tmr_list (get_timers s) ts \<and> tmr_sorted (get_timers s) ts \<and> next_timeout s = first_timeout s"

lemma sched_inv_timers [simp]:
  "sched_inv (put_timers q s) = sched_inv s" "sched_inv (s\<lparr>next_timeout := n\<rparr>) = sched_inv s"
  "sched_inv (s\<lparr>k_timers := h\<rparr>) = sched_inv s"
  by (rule sched_inv_cong; simp add: put_timers_def)+

lemma ipc_inv_timers [simp]:
  "ipc_inv (put_timers q s) = ipc_inv s" "ipc_inv (s\<lparr>next_timeout := n\<rparr>) = ipc_inv s"
  "ipc_inv (s\<lparr>k_timers := h\<rparr>) = ipc_inv s"
  by (rule ipc_inv_cong, simp, rule same_ipc_procs, simp)+

lemma first_timeout_put [simp]:
  "first_timeout (put_timers q s) = (case snd q of None \<Rightarrow> TMR_NEVER | Some t \<Rightarrow> tmr_exp_time (fst q t))"
  "first_timeout (s\<lparr>next_timeout := n\<rparr>) = first_timeout s"
  "get_timers (s\<lparr>next_timeout := n\<rparr>) = get_timers s"
  by (simp_all add: first_timeout_def put_timers_def get_timers_def split: option.splits)

text \<open>A timer whose watchdog raises an alarm for a process that can be notified.\<close>

definition alarm_ok :: "kstate \<Rightarrow> nat \<Rightarrow> bool" where
  "alarm_ok s t \<longleftrightarrow> tmr_func (k_timers s t) = cause_alarm_fn \<and> isokprocn (tmr_arg (k_timers s t)) \<and>
     has_priv s (tmr_arg (k_timers s t))"

lemma cause_alarm_spec:
  assumes "ipc_inv s" "has_priv s CLOCK" "isokprocn (tmr_arg (k_timers s t))" "has_priv s (tmr_arg (k_timers s t))"
  obtains s' where "cause_alarm t s = Some s'" "ipc_inv s'" "k_timers s' = k_timers s"
    "told CLOCK (tmr_arg (k_timers s t)) s s'" "notify_mono s s'"
    "\<And>n. n \<noteq> tmr_arg (k_timers s t) \<Longrightarrow> p_rts_flags (procs s' n) = p_rts_flags (procs s n)"
    "\<And>i. i \<noteq> p_priv (procs s (tmr_arg (k_timers s t))) \<Longrightarrow>
       s_notify_pending (privs s' i) = s_notify_pending (privs s i)"
proof -
  have c: "isokprocn CLOCK" by (simp add: isokprocn_def)
  obtain s' where s': "mini_notify CLOCK (tmr_arg (k_timers s t)) s = Some (OK, s')" "ipc_inv s'"
    and e: "\<And>n. p_rts_flags (procs s' n) = p_rts_flags (procs s n) -
        (if wakes s (tmr_arg (k_timers s t)) CLOCK \<and> n = tmr_arg (k_timers s t) then {RECEIVING} else {})"
      "\<And>n. p_getfrom (procs s' n) = p_getfrom (procs s n)" "\<And>n. p_priv (procs s' n) = p_priv (procs s n)"
      "\<And>i. s_id (privs s' i) = s_id (privs s i)" "\<And>i. s_flags (privs s' i) = s_flags (privs s i)"
      "\<And>i. s_notify_pending (privs s' i) =
        (if \<not> wakes s (tmr_arg (k_timers s t)) CLOCK \<and> i = p_priv (procs s (tmr_arg (k_timers s t)))
         then set_sys_bit (s_id (priv_of s CLOCK)) (s_notify_pending (privs s i)) else s_notify_pending (privs s i))"
    by (rule mini_notify_effect [OF assms(1) c assms(3,4,2)]) blast
  have "told CLOCK (tmr_arg (k_timers s t)) s s'"
    by (simp add: told_def e(1,3,6) priv_of_def get_set_sys_bit)
  moreover have "notify_mono s s'" by (auto simp: notify_mono_def e get_set_sys_bit)
  ultimately show thesis
    by (intro that [of s']) (use s' c in \<open>simp_all add: cause_alarm_def lock_notify_def mini_notify_frame [OF s'(1)] e\<close>)
qed

lemma run_watchdog_alarm: "run_watchdog cause_alarm_fn t s = cause_alarm t s"
  by (simp add: run_watchdog_def)

text \<open>The processes that the alarm timers \<open>ts\<close> are for.\<close>

definition alarm_targets :: "kstate \<Rightarrow> nat list \<Rightarrow> int set" where
  "alarm_targets s ts = (\<lambda>t. tmr_arg (k_timers s t)) ` set ts"

lemma run_alarms:
  assumes "ipc_inv s" "has_priv s CLOCK" "\<And>t. t \<in> set ts \<Longrightarrow> alarm_ok s t"
  shows "\<exists>s'. tmrs_run get_timers put_timers run_watchdog ts s = Some s' \<and> ipc_inv s' \<and>
    (\<forall>d \<in> alarm_targets s ts. told CLOCK d s s') \<and> notify_mono s s' \<and>
    (\<forall>n. n \<notin> alarm_targets s ts \<longrightarrow> p_rts_flags (procs s' n) = p_rts_flags (procs s n)) \<and>
    (\<forall>i. i \<notin> (\<lambda>d. p_priv (procs s d)) ` alarm_targets s ts \<longrightarrow>
       s_notify_pending (privs s' i) = s_notify_pending (privs s i))"
  using assms
proof (induction ts arbitrary: s)
  case Nil
  then show ?case by (simp add: alarm_targets_def)
next
  case (Cons t ts)
  define s1 where "s1 = put_timers ((k_timers s)(t := (k_timers s t)\<lparr>tmr_exp_time := TMR_NEVER\<rparr>),
    tmr_next (k_timers s t)) s"
  define d where "d = tmr_arg (k_timers s t)"
  have k1: "tmr_func (k_timers s1 u) = tmr_func (k_timers s u)" "tmr_arg (k_timers s1 u) = tmr_arg (k_timers s u)"
    "procs s1 = procs s" "privs s1 = privs s" for u by (simp_all add: s1_def put_timers_def)
  have t1: "told c e s u = told c e s1 u" "notify_mono s u = notify_mono s1 u" for c e u
    unfolding told_def notify_mono_def wakes_def waiting_for_def priv_of_def k1 by (rule refl)+
  have I: "ipc_inv s1" "has_priv s1 CLOCK" using Cons.prems by (simp_all add: s1_def has_priv_def)
  from Cons.prems(3) [of t] k1 have a: "isokprocn (tmr_arg (k_timers s1 t))" "has_priv s1 (tmr_arg (k_timers s1 t))"
    and f: "tmr_func (k_timers s t) = cause_alarm_fn"
    by (simp_all add: alarm_ok_def has_priv_def)
  obtain s2 where s2: "cause_alarm t s1 = Some s2" "ipc_inv s2" "k_timers s2 = k_timers s1"
    "told CLOCK d s1 s2" "notify_mono s1 s2"
    "\<And>n. n \<noteq> d \<Longrightarrow> p_rts_flags (procs s2 n) = p_rts_flags (procs s1 n)"
    "\<And>i. i \<noteq> p_priv (procs s1 d) \<Longrightarrow> s_notify_pending (privs s2 i) = s_notify_pending (privs s1 i)"
    using cause_alarm_spec [OF I a] unfolding k1(2) d_def by metis
  have pr: "p_priv (procs s2 n) = p_priv (procs s n)" for n using s2(5) k1(3) by (simp add: notify_mono_def)
  have "alarm_ok s2 u" if "u \<in> set ts" for u
    using Cons.prems(3) [of u] that k1 s2(3) by (simp add: alarm_ok_def has_priv_def pr)
  moreover have "has_priv s2 CLOCK" using I(2) by (simp add: has_priv_def pr k1)
  ultimately obtain s' where s': "tmrs_run get_timers put_timers run_watchdog ts s2 = Some s'" "ipc_inv s'"
    "\<forall>e \<in> alarm_targets s2 ts. told CLOCK e s2 s'" "notify_mono s2 s'"
    "\<forall>n. n \<notin> alarm_targets s2 ts \<longrightarrow> p_rts_flags (procs s' n) = p_rts_flags (procs s2 n)"
    "\<forall>i. i \<notin> (\<lambda>d. p_priv (procs s2 d)) ` alarm_targets s2 ts \<longrightarrow>
       s_notify_pending (privs s' i) = s_notify_pending (privs s2 i)"
    using Cons.IH [OF s2(2)] by blast
  have tg: "alarm_targets s2 ts = alarm_targets s ts" "alarm_targets s (t # ts) = insert d (alarm_targets s ts)"
    by (simp_all add: alarm_targets_def s2(3) k1 d_def)
  have run: "tmrs_run get_timers put_timers run_watchdog (t # ts) s = Some s'"
    using s2(1) f s'(1) by (simp add: fst_get_timers run_watchdog_alarm s1_def)
  have told: "told CLOCK e s s'" if "e \<in> insert d (alarm_targets s ts)" for e
    using that told_later [OF s2(4) s'(4)] told_earlier [OF s2(5) _ s'(4)] s'(3) unfolding t1 tg by blast
  have mono: "notify_mono s s'" unfolding t1 by (rule notify_mono_trans [OF s2(5) s'(4)])
  have "p_rts_flags (procs s' n) = p_rts_flags (procs s n)" if "n \<notin> insert d (alarm_targets s ts)" for n
    using that s2(6) s'(5) by (simp add: tg k1)
  moreover have "s_notify_pending (privs s' i) = s_notify_pending (privs s i)"
    if "i \<notin> (\<lambda>d. p_priv (procs s d)) ` insert d (alarm_targets s ts)" for i
    using that s2(7) s'(6) by (simp add: tg k1 pr)
  ultimately show ?case using run s'(2) told mono unfolding tg by blast
qed

text \<open>Resetting a timer takes it out of the queue.\<close>

lemma reset_timer_spec:
  assumes "clock_inv s ts"
  obtains q s' where "reset_timer tp s = Some s'" "clock_inv s' (remove1 tp ts)"
    "s' = (put_timers q s)\<lparr>next_timeout := first_timeout (put_timers q s)\<rparr>"
    "texp (k_timers s') = (texp (k_timers s))(tp := TMR_NEVER)"
proof -
  have l: "tmr_list (get_timers s) ts" and srt: "sorted (map (texp (k_timers s)) ts)"
    using assms by (simp_all add: clock_inv_def tmr_sorted_def fst_get_timers)
  have tn: "tp \<notin> set (remove1 tp ts)" using l by (auto simp: get_timers_def dest: chain_distinct)
  have st: "sorted (map (texp (k_timers s)) (remove1 tp ts))" using srt by (rule sorted_map_remove1)
  obtain q where q: "tmrs_clrtimer (get_timers s) tp = Some (q, tmr_head_time (get_timers s), tmr_head_time q)"
    "tmr_list q (remove1 tp ts)" "texp (fst q) = (texp (fst (get_timers s)))(tp := TMR_NEVER)"
    by (rule clrtimer_list [OF l, of tp]) blast
  define s' where "s' = (put_timers q s)\<lparr>next_timeout := first_timeout (put_timers q s)\<rparr>"
  have ft: "next_timeout s' = first_timeout s'" by (simp add: s'_def del: first_timeout_put(1))
  show thesis
  proof (rule that [OF _ _ s'_def])
    show "reset_timer tp s = Some s'" by (simp add: reset_timer_def q(1) s'_def Let_def)
    show "clock_inv s' (remove1 tp ts)"
      using q(2,3) st tn ft by (simp add: clock_inv_def s'_def tmr_sorted_def fst_get_timers map_fun_upd
          del: first_timeout_put(1))
    show "texp (k_timers s') = (texp (k_timers s))(tp := TMR_NEVER)"
      using q(3) by (simp add: s'_def put_timers_def fst_get_timers)
  qed
qed

text \<open>Taking a ready process off the queues and putting it back.\<close>

lemma requeue_inv:
  assumes "ipc_inv s" "isokprocn p" "p_rts_flags (procs s p) = {}"
  obtains s' s'' where "dequeue p s = Some s'" "enqueue p s' = Some s''" "ipc_inv s''" "sched_frame s s''"
proof -
  from assms(1) obtain C where S: "sched_inv s" and I: "ipc_links s C" by (auto simp: ipc_inv_def)
  have "ready s p" using assms(2,3) by (simp add: ready_def)
  then obtain s' s'' where q: "dequeue p s = Some s'" "enqueue p s' = Some s''" "sched_inv s''" "sched_frame s s''"
    using requeue_spec [OF S] by metis
  have "ipc_links s'' C" using I ipc_links_cong [OF same_ipc_frame [OF q(4)]] by simp
  with q show thesis using that by (auto simp: ipc_inv_def)
qed

subsection \<open>Properties\<close>

text \<open>
  C30. The clock task's work on a tick: if the process whose quantum was charged is still ready and the
  queued timers are alarms of processes that can be notified, \<^verbatim>\<open>do_clocktick\<close> returns and keeps the
  invariants of scheduling and message passing. The watchdogs of the expired timers, and only they,
  have run: each process whose alarm is due was notified by the clock task (it is out of the receive
  that was waiting for that, or has the notification pending), and no other process was. Afterwards
  the timer queue holds exactly the timers that expire later than now, in order, and
  \<^verbatim>\<open>next_timeout\<close> is the time of the first one.
\<close>

theorem do_clocktick_runs_expired:
  assumes "ipc_inv s" "clock_inv s ts" "prev_ptr s = Some p" "isokprocn p" "p_rts_flags (procs s p) = {}"
    "has_priv s CLOCK" "\<forall>t \<in> set ts. alarm_ok s t"
  defines "due \<equiv> alarm_targets s (filter (\<lambda>t. texp (k_timers s) t \<le> realtime s) ts)"
  shows "\<exists>s'. do_clocktick s = Some (EDONTREPLY, s') \<and> ipc_inv s' \<and>
    clock_inv s' (filter (\<lambda>t. realtime s < texp (k_timers s) t) ts) \<and>
    (\<forall>d \<in> due. told CLOCK d s s') \<and>
    (\<forall>n. n \<notin> due \<longrightarrow> p_rts_flags (procs s' n) = p_rts_flags (procs s n)) \<and>
    (\<forall>i. i \<notin> (\<lambda>d. p_priv (procs s d)) ` due \<longrightarrow> s_notify_pending (privs s' i) = s_notify_pending (privs s i))"
proof -
  obtain s1 where s1: "(if p_ticks_left (procs s p) \<le> 0 \<and> PREEMPTIBLE \<in> s_flags (priv_of s p) then
      Option.bind (lock_dequeue p s) (\<lambda>s'. lock_enqueue p s') else Some s) = Some s1" "ipc_inv s1" "sched_frame s s1"
  proof (cases "p_ticks_left (procs s p) \<le> 0 \<and> PREEMPTIBLE \<in> s_flags (priv_of s p)")
    case True
    show thesis
      by (rule requeue_inv [OF assms(1,4,5)])
        (rule that, use True in \<open>auto simp: lock_dequeue_def lock_enqueue_def\<close>)
  next
    case False
    then show thesis using assms(1) by (intro that [of s]) auto
  qed
  note fr = sched_frameD [OF s1(3)]
  have told1: "told CLOCK d s u = told CLOCK d s1 u" for d u
    unfolding told_def wakes_def waiting_for_def fr priv_of_def by (rule refl)
  have q1: "get_timers s1 = get_timers s" by (simp add: get_timers_def fr)
  have l: "tmr_list (get_timers s1) ts" "tmr_sorted (get_timers s1) ts"
    using assms(2) by (simp_all add: clock_inv_def q1)
  have x: "texp (fst (get_timers s1)) = texp (k_timers s)" by (simp add: get_timers_def fr)
  show ?thesis
  proof (cases "next_timeout s1 \<le> realtime s1")
    case True
    have "has_priv s1 CLOCK" using assms(6) by (simp add: has_priv_def fr)
    moreover have "alarm_ok s1 t" if "t \<in> set ts" for t
      using assms(7) that by (simp add: alarm_ok_def has_priv_def fr)
    moreover have due: "alarm_targets s1 (filter (\<lambda>t. texp (k_timers s) t \<le> realtime s1) ts) = due"
      by (simp add: due_def alarm_targets_def fr)
    ultimately obtain s2 where s2: "tmrs_run get_timers put_timers run_watchdog
        (filter (\<lambda>t. texp (k_timers s) t \<le> realtime s1) ts) s1 = Some s2" "ipc_inv s2"
      "\<forall>d \<in> due. told CLOCK d s1 s2"
      "\<forall>n. n \<notin> due \<longrightarrow> p_rts_flags (procs s2 n) = p_rts_flags (procs s1 n)"
      "\<forall>i. i \<notin> (\<lambda>d. p_priv (procs s1 d)) ` due \<longrightarrow> s_notify_pending (privs s2 i) = s_notify_pending (privs s1 i)"
      using run_alarms [OF s1(2), of "filter (\<lambda>t. texp (k_timers s) t \<le> realtime s1) ts"] unfolding due
      by (metis filter_is_subset subsetD)
    then have e: "tmrs_exptimers get_timers put_timers run_watchdog (realtime s1) s1 = Some s2"
      using kt.exptimers_correct(1) [OF l, of "realtime s1"] by (simp add: x)
    define s3 where "s3 = s2\<lparr>next_timeout := first_timeout s2\<rparr>"
    from kt.exptimers_correct(2) [OF l e] have
      "clock_inv s3 (filter (\<lambda>t. realtime s < texp (k_timers s) t) ts)"
      by (simp add: clock_inv_def x fr s3_def)
    moreover have "ipc_inv s3" using s2(2) by (simp add: s3_def)
    moreover have "do_clocktick s = Some (EDONTREPLY, s3)"
      using s1(1) e True by (simp add: do_clocktick_def assms(3) s3_def)
    moreover have "told CLOCK d s1 s3 = told CLOCK d s1 s2" for d by (simp add: told_def s3_def priv_of_def)
    then have "told CLOCK d s s3" if "d \<in> due" for d using s2(3) that by (simp add: told1)
    ultimately show ?thesis using s2(4,5) by (intro exI [of _ s3]) (simp add: s3_def fr)
  next
    case False
    have n1: "next_timeout s1 = first_timeout s1" using assms(2) by (simp add: clock_inv_def first_timeout_def fr split: option.split)
    have late: "realtime s < texp (k_timers s) t" if t: "t \<in> set ts" for t
    proof -
      from l(2) have srt: "sorted (map (texp (k_timers s)) ts)" by (simp add: tmr_sorted_def x)
      from t obtain u us where ts: "ts = u # us" by (cases ts) auto
      with l(1) q1 have "clock_timers s1 = Some u" "k_timers s1 = k_timers s"
        by (simp_all add: get_timers_def fr)
      with False n1 have "realtime s < texp (k_timers s) u" by (simp add: first_timeout_def texp_def fr)
      with srt ts t show ?thesis by auto
    qed
    then have "filter (\<lambda>t. realtime s < texp (k_timers s) t) ts = ts" by (simp add: filter_id_conv)
    moreover have "due = {}" using late by (fastforce simp: due_def alarm_targets_def)
    moreover have "clock_inv s1 ts" using l n1 by (simp add: clock_inv_def)
    ultimately show ?thesis using s1(1,2) False by (intro exI [of _ s1]) (simp add: do_clocktick_def assms(3) fr)
  qed
qed

text \<open>One pending alarm for RS (privilege structure 3) at time 10, and a tick that is due.\<close>

definition demo_clock :: kstate where
  "demo_clock = demo_state\<lparr>k_timers := (k_timers demo_state)(3 := \<lparr>tmr_next = None, tmr_exp_time = 10,
     tmr_func = cause_alarm_fn, tmr_arg = 2\<rparr>), clock_timers := Some 3, next_timeout := 10,
     realtime := 12, prev_ptr := Some 0\<rparr>"

lemma demo_clock_sel [simp]:
  "procs demo_clock = demo_proc" "privs demo_clock = demo_priv" "prev_ptr demo_clock = Some 0"
  "k_timers demo_clock 3 = \<lparr>tmr_next = None, tmr_exp_time = 10, tmr_func = cause_alarm_fn, tmr_arg = 2\<rparr>"
  "realtime demo_clock = 12" "clock_timers demo_clock = Some 3" "machine demo_clock = machine demo_state"
  "proc_ptr demo_clock = Some 0" "bill_ptr demo_clock = Some 0" "lost_ticks demo_clock = 0"
  "next_timeout demo_clock = 10"
  "k_timers demo_clock 2 = \<lparr>tmr_next = None, tmr_exp_time = TMR_NEVER, tmr_func = cause_alarm_fn, tmr_arg = 0\<rparr>"
  "mi_ps_mca (machine demo_state) = False"
  by (simp_all add: demo_clock_def demo_state_def)

lemma demo_clock_inv: "ipc_inv demo_clock" "clock_inv demo_clock [3]"
proof -
  have "sched_inv demo_clock = sched_inv demo_state"
    by (rule sched_inv_cong) (simp_all add: demo_clock_def)
  moreover have "same_ipc demo_state demo_clock" by (rule same_ipc_procs) simp
  ultimately show "ipc_inv demo_clock" using demo_ipc_inv ipc_inv_cong by blast
  show "clock_inv demo_clock [3]"
    by (simp add: clock_inv_def get_timers_def tmr_sorted_def tnext_def first_timeout_def)
qed

theorem do_clocktick_runs_expired_witness:
  "\<exists>s'. do_clocktick demo_clock = Some (EDONTREPLY, s') \<and> ipc_inv s' \<and> clock_inv s' [] \<and>
     RECEIVING \<notin> p_rts_flags (procs s' 2)"
  using do_clocktick_runs_expired [OF demo_clock_inv, of 0]
  by (auto simp: isokprocn_def demo_proc_def has_priv_def texp_def alarm_ok_def alarm_targets_def told_def
      wakes_def waiting_for_def priv_of_def demo_priv_def)

text \<open>
  A SETALARM request of a system process returns OK, puts the ticks left of the previous alarm in
  the reply (0 if there was none), and leaves the timer queue well formed and sorted with
  \<^verbatim>\<open>next_timeout\<close> the first time: without the process's timer for a zero request, else with it at the
  requested absolute or relative time, behind the timers that expire no later.
\<close>

theorem do_setalarm_sets:
  assumes "clock_inv s ts" "isokprocn (m_source m)" "has_priv s (m_source m)"
    "SYS_PROC \<in> s_flags (priv_of s (m_source m))"
  shows "\<exists>m' s'. do_setalarm m s = Some (OK, m', s') \<and>
    (let tp = p_priv (procs s (m_source m)); e = sint (m_w3 m); others = remove1 tp ts;
         e' = (if m_w1 m \<noteq> 0 then e else slong (e + realtime s));
         old = texp (k_timers s) tp
     in clock_inv s' (if e = 0 then others
          else filter (\<lambda>t. texp (k_timers s) t \<le> e') others @ tp #
               filter (\<lambda>t. e' < texp (k_timers s) t) others) \<and>
        texp (k_timers s') tp = (if e = 0 then TMR_NEVER else e') \<and>
        m_w3 m' = (if old \<noteq> TMR_NEVER \<and> realtime s < old then word_of_int (old - realtime s) else 0))"
proof -
  define tp where "tp = p_priv (procs s (m_source m))"
  define s1 where "s1 = s\<lparr>k_timers := (k_timers s)(tp := (k_timers s tp)\<lparr>tmr_arg := m_source m,
    tmr_func := cause_alarm_fn\<rparr>)\<rparr>"
  have x1: "texp (k_timers s1) = texp (k_timers s)" "tnext (k_timers s1) = tnext (k_timers s)"
    "clock_timers s1 = clock_timers s" "realtime s1 = realtime s"
    by (auto simp: s1_def texp_def tnext_def)
  have l: "tmr_list (get_timers s1) ts" "tmr_sorted (get_timers s1) ts"
    using assms(1) by (simp_all add: clock_inv_def get_timers_def tmr_sorted_def x1)
  define m1 where "m1 = m\<lparr>m_w3 := (if texp (k_timers s) tp \<noteq> TMR_NEVER \<and> realtime s < texp (k_timers s) tp
    then word_of_int (texp (k_timers s) tp - realtime s) else 0)\<rparr>"
  have st: "sorted (map (texp (k_timers s)) (remove1 tp ts))"
    using l(2) by (simp add: tmr_sorted_def fst_get_timers x1 sorted_map_remove1)
  have tn: "tp \<notin> set (remove1 tp ts)" using l(1) by (auto simp: get_timers_def dest: chain_distinct)
  have e1: "tmr_exp_time (k_timers s1 tp) = texp (k_timers s) tp" by (simp add: s1_def texp_def)
  have ft: "next_timeout (put_timers q t\<lparr>next_timeout := first_timeout (put_timers q t)\<rparr>) =
      first_timeout (put_timers q t\<lparr>next_timeout := first_timeout (put_timers q t)\<rparr>)" for q t
    by (simp del: first_timeout_put(1))
  show ?thesis
  proof (cases "sint (m_w3 m) = 0")
    case True
    have "clock_inv s1 ts"
    proof -
      have "first_timeout s1 = first_timeout s" "next_timeout s1 = next_timeout s"
        by (simp_all add: first_timeout_def s1_def split: option.split)
      with l assms(1) show ?thesis by (simp add: clock_inv_def)
    qed
    then obtain q s' where rt: "reset_timer tp s1 = Some s'" and ci: "clock_inv s' (remove1 tp ts)"
      and x': "texp (k_timers s') = (texp (k_timers s1))(tp := TMR_NEVER)"
      by (rule reset_timer_spec) blast
    have "do_setalarm m s = Some (OK, m1, s')"
      unfolding do_setalarm_def Let_def tp_def [symmetric] s1_def [symmetric] get_uptime_def x1(4) e1
        m1_def [symmetric]
      using assms(2-4) True rt by simp
    moreover have "texp (k_timers s') tp = TMR_NEVER" using x' by simp
    ultimately show ?thesis using True ci by (auto simp: Let_def tp_def [symmetric] m1_def)
  next
    case False
    define e' where "e' = (if m_w1 m \<noteq> 0 then sint (m_w3 m) else slong (sint (m_w3 m) + realtime s))"
    define s2 where "s2 = s1\<lparr>k_timers := (k_timers s1)(tp := (k_timers s1 tp)\<lparr>tmr_exp_time := e'\<rparr>)\<rparr>"
    have x2: "texp (k_timers s2) = (texp (k_timers s))(tp := e')" "tnext (k_timers s2) = tnext (k_timers s)"
      "clock_timers s2 = clock_timers s" by (simp_all add: s2_def x1)
    have l2: "tmr_list (get_timers s2) ts" "tmr_sorted (get_timers s2) (remove1 tp ts)"
      using l(1) st tn by (simp_all add: get_timers_def tmr_sorted_def x1 x2 map_fun_upd)
    have fu: "takeWhile (\<lambda>t. texp (fst (get_timers s2)) t \<le> e') (remove1 tp ts) =
          filter (\<lambda>t. texp (k_timers s) t \<le> e') (remove1 tp ts)"
        "dropWhile (\<lambda>t. texp (fst (get_timers s2)) t \<le> e') (remove1 tp ts) =
          filter (\<lambda>t. e' < texp (k_timers s) t) (remove1 tp ts)"
      using sorted_split_filter [OF l2(2) [unfolded tmr_sorted_def], of e'] tn
      by (auto simp: fst_get_timers x2 intro!: filter_cong)
    obtain q where q: "tmrs_settimer (get_timers s2) tp e' cause_alarm_fn =
        Some (q, tmr_head_time (get_timers s2), tmr_head_time q)"
      "tmr_list q (takeWhile (\<lambda>t. texp (fst (get_timers s2)) t \<le> e') (remove1 tp ts) @ tp #
        dropWhile (\<lambda>t. texp (fst (get_timers s2)) t \<le> e') (remove1 tp ts))"
      "texp (fst q) = (texp (fst (get_timers s2)))(tp := e')"
      by (rule settimer_list [OF l2]) blast
    define s' where "s' = (put_timers q s2)\<lparr>next_timeout := first_timeout (put_timers q s2)\<rparr>"
    have srt: "sorted (map (texp (fst q)) (filter (\<lambda>t. texp (k_timers s) t \<le> e') (remove1 tp ts) @ tp #
        filter (\<lambda>t. e' < texp (k_timers s) t) (remove1 tp ts)))"
      using sorted_insert_point [OF st tn, of e'] unfolding sorted_split_filter [OF st] q(3)
      by (simp add: fst_get_timers x2)
    have rt: "set_timer tp e' cause_alarm_fn s2 = Some s'" by (simp add: set_timer_def q(1) s'_def Let_def)
    have "do_setalarm m s = Some (OK, m1, s')"
      unfolding do_setalarm_def Let_def tp_def [symmetric] s1_def [symmetric] get_uptime_def x1(4) e1
        m1_def [symmetric] e'_def [symmetric] s2_def [symmetric]
      using assms(2-4) False rt by simp
    moreover have "clock_inv s' (filter (\<lambda>t. texp (k_timers s) t \<le> e') (remove1 tp ts) @ tp #
        filter (\<lambda>t. e' < texp (k_timers s) t) (remove1 tp ts))"
      using q(2) srt ft unfolding clock_inv_def tmr_sorted_def fu
      by (simp add: s'_def del: first_timeout_put(1))
    moreover have "texp (k_timers s') tp = e'" using q(3) by (simp add: s'_def put_timers_def)
    ultimately show ?thesis using False
      by (intro exI [of _ m1] exI [of _ s']) (simp add: Let_def tp_def [symmetric] m1_def e'_def [symmetric])
  qed
qed

theorem do_setalarm_sets_witness:
  "\<exists>m' s'. do_setalarm \<lparr>m_source = 1, m_type = 0, m_w0 = 0, m_w1 = 0, m_w2 = 0, m_w3 = 5, m_w4 = 0,
     m_w5 = 0, m_w6 = 0\<rparr> demo_clock = Some (OK, m', s') \<and> clock_inv s' [3, 2] \<and> m_w3 m' = 0"
  using do_setalarm_sets [OF demo_clock_inv(2), of "\<lparr>m_source = 1, m_type = 0, m_w0 = 0, m_w1 = 0, m_w2 = 0,
     m_w3 = 5, m_w4 = 0, m_w5 = 0, m_w6 = 0\<rparr>"]
  by (auto simp: isokprocn_def demo_proc_def has_priv_def priv_of_def demo_priv_def texp_def Let_def)

text \<open>
  On every clock tick the handler advances the time by one tick and the lost ones, charges the
  running process with them, and, exactly when a timer or the process's quantum has run out,
  records the process in \<^verbatim>\<open>prev_ptr\<close> and notifies the clock task. It asks for the interrupt to be
  enabled again, and keeps the invariants of scheduling and message passing.
\<close>

theorem clock_handler_tick:
  assumes "ipc_inv s" "proc_ptr s = Some p" "bill_ptr s = Some b" "has_priv s HARDWARE" "has_priv s CLOCK"
    "\<not> mi_ps_mca (machine s)"
  shows "\<exists>s'. clock_handler s = Some (True, s') \<and> ipc_inv s' \<and> lost_ticks s' = 0 \<and>
    realtime s' = slong (realtime s + lost_ticks s + 1) \<and>
    p_user_time (procs s' p) = slong (p_user_time (procs s p) + lost_ticks s + 1) \<and>
    (next_timeout s \<le> realtime s' \<longrightarrow> prev_ptr s' = Some p)"
proof -
  define k where "k = lost_ticks s + 1"
  define s2 where "s2 = upd_proc p (\<lambda>r. r\<lparr>p_user_time := slong (p_user_time r + k)\<rparr>)
    (s\<lparr>lost_ticks := 0, realtime := slong (realtime s + k)\<rparr>)"
  define s3 where "s3 = (if PREEMPTIBLE \<in> s_flags (priv_of s2 p)
    then upd_proc p (\<lambda>r. r\<lparr>p_ticks_left := schar (p_ticks_left r - k)\<rparr>) s2 else s2)"
  define s4 where "s4 = (if BILLABLE \<notin> s_flags (priv_of s3 p)
    then upd_proc b (\<lambda>r. r\<lparr>p_sys_time := slong (p_sys_time r + k), p_ticks_left := schar (p_ticks_left r - k)\<rparr>) s3
    else s3)"
  define due where "due \<longleftrightarrow> next_timeout s4 \<le> realtime s4 \<or> p_ticks_left (procs s4 p) \<le> 0"
  define s5 where "s5 = s4\<lparr>prev_ptr := Some p\<rparr>"
  have b3: "bill_ptr s3 = Some b" using assms(3) by (simp add: s3_def s2_def)
  have e: "clock_handler s = (if due then Option.bind (lock_notify HARDWARE CLOCK s5) (\<lambda>(_, t). Some (True, t))
      else Some (True, s4))"
  proof -
    have pp: "proc_ptr (s\<lparr>lost_ticks := 0, realtime := slong (realtime s + k)\<rparr>) = Some p" using assms(2) by simp
    have s4e: "(if BILLABLE \<notin> s_flags (priv_of s3 p)
        then Option.bind (bill_ptr s3) (\<lambda>b. Some (upd_proc b (\<lambda>r. r\<lparr>p_sys_time := slong (p_sys_time r + k),
               p_ticks_left := schar (p_ticks_left r - k)\<rparr>) s3))
        else Some s3) = Some s4" by (simp add: s4_def b3)
    show ?thesis
      by (simp only: clock_handler_def Let_def if_False assms(6) k_def [symmetric] pp Option.bind.bind_lunit
          s2_def [symmetric] s3_def [symmetric] s4e due_def [symmetric] s5_def [symmetric])
  qed
  have f4: "realtime s4 = slong (realtime s + k)" "lost_ticks s4 = 0" "next_timeout s4 = next_timeout s"
    "p_user_time (procs s4 p) = slong (p_user_time (procs s p) + k)" "\<And>n. p_priv (procs s4 n) = p_priv (procs s n)"
    by (simp_all add: s4_def s3_def s2_def)
  have f5: "realtime s5 = realtime s4" "lost_ticks s5 = lost_ticks s4" "next_timeout s5 = next_timeout s4"
    "procs s5 = procs s4" "prev_ptr s5 = Some p" by (simp_all add: s5_def)
  have "sched_inv s2 = sched_inv s"
    by (rule sched_inv_cong) (simp_all add: s2_def sched_view_def)
  moreover have "sched_inv s3 = sched_inv s2"
    by (rule sched_inv_cong) (simp_all add: s3_def sched_view_def)
  moreover have "sched_inv s4 = sched_inv s3"
    by (rule sched_inv_cong) (simp_all add: s4_def sched_view_def)
  moreover have "sched_inv s5 = sched_inv s4" by (rule sched_inv_cong) (simp_all add: s5_def)
  moreover have "same_ipc s s4"
    by (simp add: s4_def s3_def s2_def same_ipc_def view_defs fun_eq_iff)
  moreover have "same_ipc s s5"
    by (simp add: s5_def s4_def s3_def s2_def same_ipc_def view_defs fun_eq_iff)
  ultimately have I: "ipc_inv s4" "ipc_inv s5"
    using assms(1) ipc_inv_cong by blast+
  have h: "isokprocn HARDWARE" "isokprocn CLOCK" by (simp_all add: isokprocn_def)
  have hp: "has_priv s5 CLOCK" "has_priv s5 HARDWARE" using assms(4,5) f4 f5 by (simp_all add: has_priv_def)
  obtain s6 where s6: "mini_notify HARDWARE CLOCK s5 = Some (OK, s6)" "ipc_inv s6"
    by (rule mini_notify_inv [OF I(2) h hp]) blast
  note fr = mini_notify_frame [OF s6(1)]
  show ?thesis
  proof (cases due)
    case True
    with e s6 h fr f4 f5 show ?thesis by (intro exI [of _ s6]) (simp add: lock_notify_def k_def add.assoc)
  next
    case False
    with e I(1) f4 show ?thesis by (intro exI [of _ s4]) (simp add: due_def k_def add.assoc)
  qed
qed

theorem clock_handler_tick_witness:
  "\<exists>s'. clock_handler demo_clock = Some (True, s') \<and> ipc_inv s' \<and> realtime s' = 13 \<and> prev_ptr s' = Some 0"
  using clock_handler_tick [OF demo_clock_inv(1), of 0 0]
  by (auto simp: has_priv_def demo_proc_def)

text \<open>
  Removing an IRQ policy does not release its hook: \<^verbatim>\<open>do_irqctl\<close> never makes a hook free again, on
  any request, so a driver that sets and removes policies uses the hooks up.
\<close>

theorem do_irqctl_never_frees:
  assumes "do_irqctl m s = Some (r, m', s')" "ih_proc_nr (irq_hooks s h) \<noteq> NONE" "m_source m \<noteq> NONE"
  shows "ih_proc_nr (irq_hooks s' h) \<noteq> NONE"
proof -
  have a: "ih_proc_nr (irq_hooks (irq_assign q sl v t) i) = ih_proc_nr (irq_hooks t i)" for q sl v t i
    by (cases sl) (simp_all add: upd_hook_def)
  have p: "ih_proc_nr (irq_hooks t' i) = ih_proc_nr (irq_hooks t i)" if put: "put_irq_handler g q f t = Some t'" for g q f t t' i
  proof -
    obtain line idb where "irq_line g (irq_handlers t q) (hnext t) Head 1 = Some (line, idb)"
      using put by (auto simp: put_irq_handler_def)
    with put show ?thesis
      by (cases "rd (irq_handlers t q) (hnext t) line")
        (auto simp: put_irq_handler_def Let_def a upd_hook_def)
  qed
  have r: "ih_proc_nr (irq_hooks t' i) = ih_proc_nr (irq_hooks t i)" if rm: "rm_irq_handler g t = Some t'" for g t t' i
  proof -
    let ?q = "ih_irq (irq_hooks t g)"
    obtain line where l: "chain_find (\<lambda>x. ih_id (irq_hooks t x) = ih_id (irq_hooks t g))
        (irq_handlers t ?q) (hnext t) Head = Some line" and q: "0 \<le> ?q \<and> ?q < NR_IRQ_VECTORS"
      using rm unfolding rm_irq_handler_def Let_def by (simp only: bind_Some_iff guard_Some) blast
    have "rm_irq_handler g t = (case rd (irq_handlers t ?q) (hnext t) line of
        None \<Rightarrow> Some t
      | Some x \<Rightarrow> (let s1 = irq_assign ?q line (hnext t x) t in
           Some (if irq_handlers s1 ?q = None
                 then s1\<lparr>irq_use := irq_use s1 AND NOT (push_bit (nat ?q) 1)\<rparr> else s1)))"
      unfolding rm_irq_handler_def Let_def guard_bind [OF q] l Option.bind.bind_lunit ..
    with rm show ?thesis
      by (cases "rd (irq_handlers t ?q) (hnext t) line") (auto simp: Let_def a)
  qed
  have e: "irq_hooks (enable_irq g t) = irq_hooks t" "irq_hooks (snd (disable_irq g t)) = irq_hooks t" for g t
    by (simp_all add: enable_irq_def disable_irq_def Let_def)
  define rq where "rq = m5_c1 m"
  define vec where "vec = m5_c2 m"
  define hid where "hid = sint (m_w5 m - 1)"
  define big where "big \<longleftrightarrow> uint (m_w5 m) > 31"
  note def = do_irqctl_def [of m s, unfolded Let_def, folded rq_def vec_def hid_def big_def]
  consider (ena) "rq = IRQ_ENABLE \<or> rq = IRQ_DISABLE" | (rm) "rq = IRQ_RMPOLICY" | (st) "rq = IRQ_SETPOLICY"
    | (bad) "rq \<notin> {IRQ_ENABLE, IRQ_DISABLE, IRQ_RMPOLICY, IRQ_SETPOLICY}" by blast
  then show ?thesis
  proof cases
    case ena
    with assms(1,2) show ?thesis unfolding def by (auto simp: e split: if_splits)
  next
    case rm
    with assms(1,2) show ?thesis unfolding def
      by (auto simp: IRQ_RMPOLICY_def IRQ_ENABLE_def IRQ_DISABLE_def IRQ_SETPOLICY_def
          dest: r [where i = h] split: if_splits)
  next
    case st
    with assms(1) consider "s' = s" | g where "put_irq_handler g vec generic_handler_fn
        (upd_hook g (\<lambda>k. k\<lparr>ih_proc_nr := m_source m, ih_notify_id := nat (sint (m_w5 m)), ih_policy := m_w1 m\<rparr>) s) = Some s'"
      unfolding def
      by (auto simp: IRQ_RMPOLICY_def IRQ_ENABLE_def IRQ_DISABLE_def IRQ_SETPOLICY_def
          split: if_splits option.splits)
    then show ?thesis using assms(2,3) p [where i = h] by cases (auto simp: upd_hook_def)
  next
    case bad
    with assms(1,2) show ?thesis unfolding def by auto
  qed
qed

theorem do_irqctl_never_frees_witness:
  "\<exists>m' s'. do_irqctl \<lparr>m_source = 2, m_type = 0, m_w0 = 2, m_w1 = 0, m_w2 = 0, m_w3 = 0, m_w4 = 0, m_w5 = 1,
     m_w6 = 0\<rparr> (upd_hook 0 (ih_proc_nr_update (\<lambda>_. 2)) demo_state) = Some (OK, m', s') \<and>
     ih_proc_nr (irq_hooks s' 0) \<noteq> NONE"
proof -
  define s where "s = upd_hook 0 (ih_proc_nr_update (\<lambda>_. 2)) demo_state"
  define m where "m = \<lparr>m_source = 2, m_type = 0, m_w0 = 2, m_w1 = 0, m_w2 = 0, m_w3 = 0, m_w4 = 0, m_w5 = 1,
     m_w6 = 0\<rparr>"
  have "rm_irq_handler 0 s = Some s"
    by (simp add: rm_irq_handler_def s_def chain_find.simps Let_def) (simp add: demo_state_def)
  then have "do_irqctl m s = Some (OK, m, s)"
    by (simp add: do_irqctl_def m_def m5_c1_def m5_c2_def Let_def IRQ_ENABLE_def IRQ_DISABLE_def IRQ_SETPOLICY_def IRQ_RMPOLICY_def)
      (simp add: s_def)
  with do_irqctl_never_frees [OF this, of 0] show ?thesis unfolding s_def [symmetric] m_def [symmetric]
    by (intro exI [of _ m] exI [of _ s]) (simp add: m_def s_def)
qed

end
