(* ===== verification/Kernel_Mem.thy ===== *)
theory Kernel_Mem
  imports Kernel_Clock
begin

text \<open>
  Memory in the kernel: translation of virtual to physical addresses and virtual copying
  (\<^verbatim>\<open>umap_local\<close>, \<^verbatim>\<open>umap_remote\<close>, \<^verbatim>\<open>umap_bios\<close>, \<^verbatim>\<open>virtual_copy\<close> in \<^verbatim>\<open>kernel/system.c\<close>), segment
  descriptors (\<^verbatim>\<open>kernel/protect.c\<close>) and the kernel calls about memory (\<^verbatim>\<open>do_copy\<close>, \<^verbatim>\<open>do_vcopy\<close>,
  \<^verbatim>\<open>do_umap\<close>, \<^verbatim>\<open>do_memset\<close>, \<^verbatim>\<open>do_segctl\<close> in \<^verbatim>\<open>kernel/system\<close>).

  The kernel's own variables are components of the state, apart from \<open>k_mem\<close>. A copy from user
  memory into a kernel variable reads \<open>k_mem\<close>; one that would overrun the variable has no defined
  outcome. Offsets, lengths and physical addresses are 32-bit words and wrap around as in C.
  A kernel call returns its result, the request message as the handler left it, and the state.
\<close>

subsection \<open>Model: address translation\<close>

abbreviation (input) SEGMENT_TYPE :: int where "SEGMENT_TYPE \<equiv> 0xFF00"
abbreviation (input) SEGMENT_INDEX :: int where "SEGMENT_INDEX \<equiv> 0x00FF"
abbreviation (input) LOCAL_SEG :: int where "LOCAL_SEG \<equiv> 0"
abbreviation (input) REMOTE_SEG :: int where "REMOTE_SEG \<equiv> 0x0100"
abbreviation (input) BIOS_SEG :: int where "BIOS_SEG \<equiv> 0x0200"
abbreviation (input) PHYS_SEG :: int where "PHYS_SEG \<equiv> 0x0400"
abbreviation (input) NR_REMOTE_SEGS :: nat where "NR_REMOTE_SEGS \<equiv> 3"
abbreviation (input) BIOS_MEM_END :: u32 where "BIOS_MEM_END \<equiv> 0x4FF"
abbreviation (input) BASE_MEM_TOP :: u32 where "BASE_MEM_TOP \<equiv> 0x90000"
abbreviation (input) UPPER_MEM_END :: u32 where "UPPER_MEM_END \<equiv> 0xFFFFF"

text \<open>The segment that \<^verbatim>\<open>umap_local\<close> takes for a last click \<open>vc\<close>: text if asked for, else data or stack.\<close>

definition local_seg :: "proc \<Rightarrow> nat \<Rightarrow> u32 \<Rightarrow> nat" where
  "local_seg rp seg vc =
     (if seg \<noteq> SEG_T
      then (if vc < mem_vir (p_memmap rp SEG_D) + mem_len (p_memmap rp SEG_D) then SEG_D else SEG_S)
      else seg)"

definition umap_local :: "proc \<Rightarrow> nat \<Rightarrow> u32 \<Rightarrow> u32 \<Rightarrow> u32" where
  "umap_local rp seg vir_ad bytes =
     (if bytes \<le> 0 then 0
      else if vir_ad + bytes \<le> vir_ad then 0
      else
        (let vc = drop_bit CLICK_SHIFT (vir_ad + bytes - 1);
             mm = p_memmap rp (local_seg rp seg vc)
         in if drop_bit CLICK_SHIFT vir_ad \<ge> mem_vir mm + mem_len mm then 0
            else if vc \<ge> mem_vir mm + mem_len mm then 0
            else
              (let seg_base = push_bit CLICK_SHIFT (mem_phys mm);
                   pa = vir_ad - push_bit CLICK_SHIFT (mem_vir mm)
               in seg_base + pa)))"

definition umap_remote :: "int \<Rightarrow> int \<Rightarrow> u32 \<Rightarrow> u32 \<Rightarrow> kstate \<Rightarrow> u32 option" where
  "umap_remote rp seg vir_ad bytes s =
     (if bytes \<le> 0 then Some 0
      else if seg < 0 \<or> seg \<ge> int NR_REMOTE_SEGS then Some 0
      else do {
        guard (has_priv s rp);
        let fm = s_farmem (priv_of s rp) (nat seg);
        if \<not> in_use fm then Some 0
        else if vir_ad + bytes > far_len fm then Some 0
        else Some (far_phys fm + vir_ad)
      })"

definition umap_bios :: "u32 \<Rightarrow> u32 \<Rightarrow> kstate \<Rightarrow> (u32 \<times> kstate) option" where
  "umap_bios vir_ad bytes s =
     (if vir_ad \<ge> 0 \<and> vir_ad + bytes \<le> BIOS_MEM_END then Some (vir_ad, s)
      else if vir_ad \<ge> BASE_MEM_TOP \<and> vir_ad + bytes \<le> UPPER_MEM_END then Some (vir_ad, s)
      else do {
        s1 \<leftarrow> kprintf (''Warning, error in umap_bios, virtual address 0x%x'' @ [CHR 0x0A]) [Unsigned vir_ad] s;
        Some (0, s1)
      })"

text \<open>\<^verbatim>\<open>numap_local\<close>, with \<^verbatim>\<open>proc_addr\<close> of a number that may be invalid.\<close>

definition numap_local :: "int \<Rightarrow> u32 \<Rightarrow> u32 \<Rightarrow> kstate \<Rightarrow> u32 option" where
  "numap_local n vir_ad bytes s = do {
     guard (isokprocn n);
     Some (umap_local (procs s n) SEG_D vir_ad bytes)
   }"

subsection \<open>Model: virtual copying\<close>

record vir_addr =
  va_proc_nr :: int
  va_segment :: int
  va_offset :: u32

text \<open>One iteration of the loop of \<^verbatim>\<open>virtual_copy\<close>: a status, and the physical address if it is OK.\<close>

definition map_vir :: "vir_addr \<Rightarrow> u32 \<Rightarrow> kstate \<Rightarrow> (int \<times> u32 \<times> kstate) option" where
  "map_vir a bytes s = do {
     let ty = va_segment a AND SEGMENT_TYPE;
     let seg_index = va_segment a AND SEGMENT_INDEX;
     let n = va_proc_nr a;
     (r, p, s1) \<leftarrow>
       (if ty = LOCAL_SEG then do {
          guard (isokprocn n);
          Some (OK, umap_local (procs s n) (nat seg_index) (va_offset a) bytes, s)
        }
        else if ty = REMOTE_SEG then do {
          guard (isokprocn n);
          p \<leftarrow> umap_remote n seg_index (va_offset a) bytes s;
          Some (OK, p, s)
        }
        else if ty = BIOS_SEG then do {
          guard (isokprocn n);
          (p, s1) \<leftarrow> umap_bios (va_offset a) bytes s;
          Some (OK, p, s1)
        }
        else if ty = PHYS_SEG then Some (OK, va_offset a, s)
        else Some (EINVAL, 0, s));
     if r \<noteq> OK then Some (r, p, s1)
     else if p \<le> 0 \<and> va_segment a \<noteq> PHYS_SEG then Some (EFAULT, p, s1)
     else Some (OK, p, s1)
   }"

definition virtual_copy :: "vir_addr \<Rightarrow> vir_addr \<Rightarrow> u32 \<Rightarrow> kstate \<Rightarrow> (int \<times> kstate) option" where
  "virtual_copy src dst bytes s =
     (if bytes \<le> 0 then Some (EDOM, s)
      else do {
        (r, p, s1) \<leftarrow> map_vir src bytes s;
        if r \<noteq> OK then Some (r, s1)
        else do {
          (r', q, s2) \<leftarrow> map_vir dst bytes s1;
          if r' \<noteq> OK then Some (r', s2)
          else Some (OK, s2\<lparr>k_mem := phys_copy p q (unat bytes) (k_mem s2)\<rparr>)
        }
      })"

subsection \<open>Model: segment descriptors\<close>

abbreviation (input) BYTE_GRAN_MAX :: u32 where "BYTE_GRAN_MAX \<equiv> 0xFFFFF"
abbreviation (input) TASK_PRIVILEGE :: u32 where "TASK_PRIVILEGE \<equiv> 1"
abbreviation (input) USER_PRIVILEGE :: u32 where "USER_PRIVILEGE \<equiv> 3"
abbreviation (input) CS_LDT_INDEX :: nat where "CS_LDT_INDEX \<equiv> 0"
abbreviation (input) DS_LDT_INDEX :: nat where "DS_LDT_INDEX \<equiv> 1"
abbreviation (input) EXTRA_LDT_INDEX :: nat where "EXTRA_LDT_INDEX \<equiv> 2"
abbreviation (input) LDT_SIZE :: nat where "LDT_SIZE \<equiv> 5"

definition sdesc :: "u32 \<Rightarrow> u32 \<Rightarrow> segdesc \<Rightarrow> segdesc" where
  "sdesc base sz d =
     (let d1 = d\<lparr>base_low := ucast base, base_middle := ucast (drop_bit 16 base),
                base_high := ucast (drop_bit 24 base)\<rparr>;
          lim = sz - 1;
          d2 = (if lim > BYTE_GRAN_MAX
                then d1\<lparr>limit_low := ucast (drop_bit 12 lim),
                        granularity := ucast (0x80 OR drop_bit (12 + 16) lim)\<rparr>
                else d1\<lparr>limit_low := ucast lim, granularity := ucast (drop_bit 16 lim)\<rparr>)
      in d2\<lparr>granularity := granularity d2 OR 0x40\<rparr>)"

definition init_codeseg :: "u32 \<Rightarrow> u32 \<Rightarrow> u32 \<Rightarrow> segdesc \<Rightarrow> segdesc" where
  "init_codeseg base sz privilege d =
     (sdesc base sz d)\<lparr>seg_access := ucast (push_bit 5 privilege OR (0x80 OR 0x10 OR 0x08 OR 0x02))\<rparr>"

definition init_dataseg :: "u32 \<Rightarrow> u32 \<Rightarrow> u32 \<Rightarrow> segdesc \<Rightarrow> segdesc" where
  "init_dataseg base sz privilege d =
     (sdesc base sz d)\<lparr>seg_access := ucast (push_bit 5 privilege OR (0x80 OR 0x10 OR 0x02))\<rparr>"

definition enable_iop :: "proc \<Rightarrow> proc" where
  "enable_iop pp = pp\<lparr>p_reg := (p_reg pp)\<lparr>reg_psw := reg_psw (p_reg pp) OR 0x3000\<rparr>\<rparr>"

definition alloc_segments :: "bool \<Rightarrow> proc \<Rightarrow> proc" where
  "alloc_segments protected rp =
     (let mm = p_memmap rp in
      if protected then
        (let data_bytes = push_bit CLICK_SHIFT (mem_vir (mm SEG_S) + mem_len (mm SEG_S));
             code_bytes = (if mem_len (mm SEG_T) = 0 then data_bytes
                           else push_bit CLICK_SHIFT (mem_len (mm SEG_T)));
             privilege = (if iskerneln (p_nr rp) then TASK_PRIVILEGE else USER_PRIVILEGE);
             cs = init_codeseg (push_bit CLICK_SHIFT (mem_phys (mm SEG_T))) code_bytes privilege
                    (p_ldt rp CS_LDT_INDEX);
             ds = init_dataseg (push_bit CLICK_SHIFT (mem_phys (mm SEG_D))) data_bytes privilege
                    (p_ldt rp DS_LDT_INDEX);
             sel = (1 * 8) OR 4 OR privilege
         in rp\<lparr>p_ldt := (p_ldt rp)(CS_LDT_INDEX := cs, DS_LDT_INDEX := ds),
               p_reg := (p_reg rp)\<lparr>reg_cs := (0 * 8) OR 4 OR privilege, reg_gs := ucast sel,
                 reg_fs := ucast sel, reg_ss := sel, reg_es := ucast sel, reg_ds := ucast sel\<rparr>\<rparr>)
      else
        (let sel = push_bit 6 (mem_phys (mm SEG_D))
         in rp\<lparr>p_reg := (p_reg rp)\<lparr>reg_cs := push_bit 6 (mem_phys (mm SEG_T)),
                 reg_ss := sel, reg_es := ucast sel, reg_ds := ucast sel\<rparr>\<rparr>))"

subsection \<open>Model: the kernel calls\<close>

abbreviation (input) SYS_PHYSCOPY :: int where "SYS_PHYSCOPY \<equiv> 0x610"
abbreviation (input) SYS_PHYSVCOPY :: int where "SYS_PHYSVCOPY \<equiv> 0x612"
abbreviation (input) VCOPY_VEC_SIZE :: int where "VCOPY_VEC_SIZE \<equiv> 16"

type_synonym kcall = "message \<Rightarrow> kstate \<Rightarrow> (int \<times> message \<times> kstate) option"

text \<open>
  The checks of \<^verbatim>\<open>do_copy\<close> on one of its two addresses: a status, and the address with \<^verbatim>\<open>SELF\<close>
  resolved. Its test \<^verbatim>\<open>bytes != (vir_bytes) bytes\<close> cannot fail where both types have 32 bits.
\<close>

definition check_vir :: "message \<Rightarrow> vir_addr \<Rightarrow> int \<times> vir_addr" where
  "check_vir m a =
     (let a' = (if va_proc_nr a = SELF then a\<lparr>va_proc_nr := m_source m\<rparr> else a) in
      if \<not> isokprocn (va_proc_nr a') \<and> va_segment a' \<noteq> PHYS_SEG then (EINVAL, a')
      else if va_segment a' AND PHYS_SEG \<noteq> 0 \<and> m_type m \<noteq> SYS_PHYSCOPY then (EPERM, a')
      else (OK, a'))"

definition do_copy :: kcall where
  "do_copy m s =
     (let src = \<lparr>va_proc_nr = sint (m_w1 m), va_segment = m5_c1 m, va_offset = m_w3 m\<rparr>;
          dst = \<lparr>va_proc_nr = sint (m_w2 m), va_segment = m5_c2 m, va_offset = m_w4 m\<rparr>;
          bytes = m_w5 m;
          (r, src') = check_vir m src
      in if r \<noteq> OK then Some (r, m, s)
         else
           (let (r', dst') = check_vir m dst in
            if r' \<noteq> OK then Some (r', m, s)
            else do {
              (res, s1) \<leftarrow> virtual_copy src' dst' bytes s;
              Some (res, m, s1)
            }))"

text \<open>A \<^verbatim>\<open>struct vir_cp_req\<close> in memory: 28 bytes.\<close>

definition load_vir_addr :: "u32 \<Rightarrow> memory \<Rightarrow> vir_addr" where
  "load_vir_addr a mem = \<lparr>va_proc_nr = sint (load32 a mem), va_segment = sint (load32 (a + 4) mem),
     va_offset = load32 (a + 8) mem\<rparr>"

definition load_cp_req :: "memory \<Rightarrow> u32 \<Rightarrow> vir_addr \<times> vir_addr \<times> u32" where
  "load_cp_req mem a = (load_vir_addr a mem, load_vir_addr (a + 12) mem, load32 (a + 24) mem)"

text \<open>The loop of \<^verbatim>\<open>do_vcopy\<close> over the requests; \<^verbatim>\<open>VCP_NR_OK\<close> is word 1 of the message.\<close>

fun vcopy_loop :: "(vir_addr \<times> vir_addr \<times> u32) list \<Rightarrow> kcall" where
  "vcopy_loop [] m s = Some (OK, m, s)"
| "vcopy_loop ((src, dst, count) # reqs) m s =
     (if (va_segment src OR va_segment dst) AND PHYS_SEG \<noteq> 0 \<and> m_type m \<noteq> SYS_PHYSVCOPY
      then Some (EPERM, m, s)
      else do {
        (r, s1) \<leftarrow> virtual_copy src dst count s;
        if r \<noteq> OK then Some (r, m, s1)
        else vcopy_loop reqs (m\<lparr>m_w1 := m_w1 m + 1\<rparr>) s1
      })"

definition do_vcopy :: kcall where
  "do_vcopy m s =
     (let nr_req = sint (m_w2 m) in
      if nr_req > VCOPY_VEC_SIZE then Some (EINVAL, m, s)
      else do {
        let bytes = m_w2 m * 28;
        guard (isokprocn (m_source m));
        let caller_phys = umap_local (procs s (m_source m)) SEG_D (m_w3 m) bytes;
        if caller_phys = 0 then Some (EFAULT, m, s)
        else do {
          guard (unat bytes \<le> 16 * 28);
          let reqs = map (\<lambda>i. load_cp_req (k_mem s) (caller_phys + 28 * of_nat i)) [0..<nat nr_req];
          vcopy_loop reqs (m\<lparr>m_w1 := 0\<rparr>) s
        }
      })"

definition do_umap :: kcall where
  "do_umap m s = do {
     let seg_type = m5_c1 m AND SEGMENT_TYPE;
     let seg_index = m5_c1 m AND SEGMENT_INDEX;
     let offset = m_w3 m;
     let count = m_w5 m;
     let n = (if sint (m_w1 m) = SELF then m_source m else sint (m_w1 m));
     if \<not> isokprocn n then Some (EINVAL, m, s)
     else do {
       (r, p, s1) \<leftarrow>
         (if seg_type = LOCAL_SEG then Some (OK, umap_local (procs s n) (nat seg_index) offset count, s)
          else if seg_type = REMOTE_SEG then do {
            p \<leftarrow> umap_remote n seg_index offset count s;
            Some (OK, p, s)
          }
          else if seg_type = BIOS_SEG then do {
            (p, s1) \<leftarrow> umap_bios offset count s;
            Some (OK, p, s1)
          }
          else Some (EINVAL, 0, s));
       if r \<noteq> OK then Some (r, m, s1)
       else Some (if p = 0 then EFAULT else OK, m\<lparr>m_w4 := p\<rparr>, s1)
     }
   }"

definition do_memset :: kcall where
  "do_memset m s = do {
     let c = m_w4 m AND 0xFF;
     let p = c OR push_bit 8 c OR push_bit 16 c OR push_bit 24 c;
     mem \<leftarrow> phys_memset (m_w5 m) p (unat (m_w3 m)) (k_mem s);
     Some (OK, m, s\<lparr>k_mem := mem\<rparr>)
   }"

text \<open>The first remote segment that is not in use.\<close>

fun free_farmem :: "nat list \<Rightarrow> priv \<Rightarrow> nat option" where
  "free_farmem [] sp = None"
| "free_farmem (i # is) sp = (if \<not> in_use (s_farmem sp i) then Some i else free_farmem is sp)"

definition do_segctl :: kcall where
  "do_segctl m s = do {
     let phys = m_w2 m;
     let sz = m_w3 m;
     let rp = m_source m;
     guard (isokprocn rp \<and> has_priv s rp);
     case free_farmem [0..<NR_REMOTE_SEGS] (priv_of s rp) of
       None \<Rightarrow> Some (ENOSPC, m, s)
     | Some i \<Rightarrow>
         (let s1 = upd_priv (p_priv (procs s rp)) (\<lambda>sp. sp\<lparr>s_farmem := (s_farmem sp)(i :=
                     \<lparr>in_use = True, far_phys = phys, far_len = sz\<rparr>)\<rparr>) s;
              ldt = EXTRA_LDT_INDEX + i;
              put = (\<lambda>base len p. p\<lparr>p_ldt := (p_ldt p)(ldt := init_dataseg base len USER_PRIVILEGE (p_ldt p ldt))\<rparr>);
              sel = of_nat ldt * 8 OR 4 OR USER_PRIVILEGE;
              (selector, offset, s2) =
                (if \<not> mi_protected (machine s1) then (phys div 16, phys mod 16, s1)
                 else if sz < BYTE_GRAN_MAX then (sel, 0, upd_proc rp (put phys sz) s1)
                 else (sel, phys AND 0xFFFF, upd_proc rp (put (phys AND NOT 0xFFFF) 0) s1))
          in Some (OK, m\<lparr>m_w4 := of_nat i OR word_of_int REMOTE_SEG,
                        m_w0 := ucast (ucast selector :: u16), m_w1 := offset\<rparr>, s2))
   }"

subsection \<open>Address translation stays inside the process\<close>

text \<open>
  The layout the process manager gives to a process: data from address 0, the stack above the gap,
  both in one block of physical memory; nothing reaches past 4 GB.
\<close>

definition data_layout :: "proc \<Rightarrow> bool" where
  "data_layout rp \<longleftrightarrow>
     (let d = p_memmap rp SEG_D; st = p_memmap rp SEG_S in
      mem_vir d = 0 \<and> unat (mem_len d) \<le> unat (mem_vir st) \<and>
      mem_phys st = mem_phys d + mem_vir st \<and>
      (unat (mem_phys d) + unat (mem_vir st) + unat (mem_len st)) * 1024 < 2 ^ 32)"

lemma clicks_bytes:
  assumes "unat w * 1024 < 2 ^ 32"
  shows "unat (push_bit 10 w :: u32) = unat w * 1024"
proof -
  have "push_bit 10 w = w * 1024" by (simp add: push_bit_eq_mult)
  then show ?thesis using assms by (simp add: unat_word_ariths)
qed

lemma click_of: "unat (drop_bit 10 w :: u32) = unat w div 1024"
  by (simp add: drop_bit_eq_div unat_div)

lemma push_click_add: "push_bit 10 (a + b) = push_bit 10 a + (push_bit 10 b :: u32)"
  by (simp add: push_bit_eq_mult algebra_simps)

lemma umap_local_layout:
  assumes L: "data_layout rp" and seg: "seg \<noteq> SEG_T"
  defines "tp \<equiv> unat (mem_vir (p_memmap rp SEG_S)) + unat (mem_len (p_memmap rp SEG_S))"
  shows "umap_local rp seg v n =
    (if 0 < unat n \<and> unat v + unat n \<le> tp * 1024
     then push_bit 10 (mem_phys (p_memmap rp SEG_D)) + v else 0)"
proof -
  define d where "d = p_memmap rp SEG_D"
  define st where "st = p_memmap rp SEG_S"
  from L have vir: "mem_vir d = 0" and dl: "unat (mem_len d) \<le> unat (mem_vir st)"
    and ph: "mem_phys st = mem_phys d + mem_vir st" and tpb: "tp * 1024 < 2 ^ 32"
    by (auto simp: data_layout_def Let_def d_def st_def tp_def)
  have ut: "unat (mem_vir st + mem_len st) = tp" using tpb
    by (simp add: unat_word_ariths tp_def st_def)
  have b32: "unat w < 2 ^ 32" for w :: u32 using unsigned_less [of w] by simp
  show ?thesis
  proof (cases "0 < unat n \<and> unat v + unat n < 2 ^ 32")
    case False
    then have "n \<le> 0 \<or> v + n \<le> v"
      using b32 [of v] b32 [of n] by (auto simp: word_le_nat_alt unat_word_ariths mod_if)
    then have "umap_local rp seg v n = 0" by (auto simp: umap_local_def)
    moreover have "\<not> (0 < unat n \<and> unat v + unat n \<le> tp * 1024)" using False tpb by linarith
    ultimately show ?thesis by auto
  next
    case True
    define vc where "vc = (drop_bit 10 (v + n - 1) :: u32)"
    have e: "unat (v + n) = unat v + unat n" using True by (simp add: unat_word_ariths)
    have "(1 :: u32) \<le> v + n" unfolding word_le_nat_alt e using True by simp
    then have "unat (v + n - 1) = unat v + unat n - 1" by (simp add: unat_sub e)
    then have vc: "unat vc = (unat v + unat n - 1) div 1024" by (simp add: vc_def click_of)
    have lo: "unat (drop_bit 10 v :: u32) \<le> unat vc" 
      unfolding vc click_of by (rule div_le_mono) (use True in linarith)
    have c1: "\<not> n \<le> 0" "\<not> v + n \<le> v" using True e by (auto simp: word_le_nat_alt)
    have iff: "unat vc < tp \<longleftrightarrow> unat v + unat n \<le> tp * 1024"
      using True unfolding vc by (subst div_less_iff_less_mult) auto
    show ?thesis
    proof (cases "unat vc < unat (mem_len d)")
      case d: True
      then have s: "local_seg rp seg vc = SEG_D"
        using seg vir by (simp add: local_seg_def d_def word_less_nat_alt)
      have "unat vc < tp" using d dl by (simp add: tp_def st_def)
      with d lo vir show ?thesis
        unfolding umap_local_def Let_def vc_def [symmetric] s d_def [symmetric]
        using True by (auto simp: iff e word_le_nat_alt not_le)
    next
      case nd: False
      then have s: "local_seg rp seg vc = SEG_S"
        using seg vir by (simp add: local_seg_def d_def word_less_nat_alt)
      have eq: "push_bit 10 (mem_phys st) + (v - push_bit 10 (mem_vir st)) = push_bit 10 (mem_phys d) + v"
        by (simp add: ph push_click_add)
      show ?thesis
        unfolding umap_local_def Let_def vc_def [symmetric] s st_def [symmetric] d_def [symmetric] ut eq
          word_le_nat_alt iff [symmetric]
        using lo True by (auto simp: word_le_nat_alt ut e)
    qed
  qed
qed

text \<open>
  C32. Address translation confines a process: under the layout the process manager sets up, every
  range that \<^verbatim>\<open>umap_local\<close> accepts for data or stack lies between address 0 and the top of the
  stack segment, it is mapped linearly into the one block of memory of the process, every such range
  whose physical address is not 0 is accepted, and everything else, ranges that wrap around included, gives 0.
\<close>

theorem umap_local_confined:
  assumes "data_layout rp" "seg \<noteq> SEG_T"
  shows "umap_local rp seg v n =
    (if 0 < unat n \<and>
        unat v + unat n \<le> (unat (mem_vir (p_memmap rp SEG_S)) + unat (mem_len (p_memmap rp SEG_S))) * 1024
     then push_bit 10 (mem_phys (p_memmap rp SEG_D)) + v else 0)"
  using assms by (rule umap_local_layout)

definition demo_map_proc :: proc where
  "demo_map_proc = (demo_proc 0)\<lparr>p_memmap := (\<lambda>i.
     if i = SEG_D then \<lparr>mem_vir = 0, mem_phys = 8, mem_len = 2\<rparr>
     else if i = SEG_S then \<lparr>mem_vir = 4, mem_phys = 12, mem_len = 1\<rparr>
     else \<lparr>mem_vir = 0, mem_phys = 6, mem_len = 2\<rparr>)\<rparr>"

lemma demo_map_layout: "data_layout demo_map_proc"
  by (simp add: data_layout_def demo_map_proc_def)

theorem umap_local_confined_witness:
  "umap_local demo_map_proc SEG_D 0x1200 0x200 = 0x3200 \<and> umap_local demo_map_proc SEG_D 0x1200 0x400 = 0"
  using umap_local_confined [OF demo_map_layout, of SEG_D "0x1200" "0x200"]
    umap_local_confined [OF demo_map_layout, of SEG_D "0x1200" "0x400"]
  by (simp add: demo_map_proc_def)

subsection \<open>Virtual copying stays inside the destination\<close>

text \<open>The memory block of a process.\<close>

definition block_base :: "proc \<Rightarrow> u32" where
  "block_base rp = push_bit CLICK_SHIFT (mem_phys (p_memmap rp SEG_D))"

definition block_len :: "proc \<Rightarrow> nat" where
  "block_len rp = (unat (mem_vir (p_memmap rp SEG_S)) + unat (mem_len (p_memmap rp SEG_S))) * 1024"

lemma map_vir_quiet:
  assumes "map_vir a n s = Some (r, p, s1)" "va_segment a AND SEGMENT_TYPE \<noteq> BIOS_SEG"
  shows "s1 = s"
  using assms by (auto simp: map_vir_def Let_def split: if_splits)

lemma map_vir_local:
  assumes "map_vir a n s = Some (r, p, s1)" "va_segment a AND SEGMENT_TYPE = LOCAL_SEG"
    "va_segment a AND SEGMENT_INDEX \<noteq> int SEG_T" "data_layout (procs s (va_proc_nr a))" "r = OK"
  shows "p = block_base (procs s (va_proc_nr a)) + va_offset a" "0 < unat n"
    "unat (va_offset a) + unat n \<le> block_len (procs s (va_proc_nr a))"
proof -
  let ?p = "procs s (va_proc_nr a)"
  have "0 \<le> va_segment a AND SEGMENT_INDEX" by simp
  with assms(3) have "0 < va_segment a AND SEGMENT_INDEX" by linarith
  then have "nat (va_segment a AND SEGMENT_INDEX) \<noteq> SEG_T" by simp
  note u = umap_local_layout [OF assms(4) this, of "va_offset a" n]
  have "va_segment a \<noteq> PHYS_SEG" using assms(2) by auto
  with assms(1,2,5) have "p = umap_local ?p (nat (va_segment a AND SEGMENT_INDEX)) (va_offset a) n \<and> p \<noteq> 0"
    by (auto simp: map_vir_def Let_def split: if_splits)
  then show "p = block_base ?p + va_offset a" "0 < unat n" "unat (va_offset a) + unat n \<le> block_len ?p"
    unfolding u by (auto simp: block_base_def block_len_def split: if_splits)
qed

lemma virtual_copy_cases:
  assumes "virtual_copy src dst n s = Some (r, s')"
  obtains (nothing) "n \<le> 0" "r = EDOM" "s' = s"
  | (bad_src) p where "map_vir src n s = Some (r, p, s')" "r \<noteq> OK"
  | (bad_dst) p s1 q where "map_vir src n s = Some (OK, p, s1)" "map_vir dst n s1 = Some (r, q, s')" "r \<noteq> OK"
  | (copied) p s1 q s2 where "map_vir src n s = Some (OK, p, s1)" "map_vir dst n s1 = Some (OK, q, s2)"
      "r = OK" "s' = s2\<lparr>k_mem := phys_copy p q (unat n) (k_mem s2)\<rparr>"
proof (cases "n \<le> 0")
  case True
  with assms have "r = EDOM" "s' = s" by (simp_all add: virtual_copy_def)
  with True show thesis by (rule nothing)
next
  case False
  show thesis
  proof (cases "map_vir src n s")
    case None
    with assms False show ?thesis by (simp add: virtual_copy_def)
  next
    case (Some x)
    obtain r1 p s1 where x: "x = (r1, p, s1)" by (cases x)
    show ?thesis
    proof (cases "r1 = OK \<and> map_vir dst n s1 \<noteq> None")
      case True
      then obtain r2 q s2 where 2: "map_vir dst n s1 = Some (r2, q, s2)" by auto
      with assms False Some x True bad_dst copied show ?thesis
        by (cases "r2 = OK") (simp_all add: virtual_copy_def)
    next
      case False
      with assms \<open>\<not> n \<le> 0\<close> Some x bad_src show ?thesis
        by (cases "r1 = OK") (simp_all add: virtual_copy_def)
    qed
  qed
qed

text \<open>
  C33. A virtual copy from one process to another: when it succeeds, both ranges lie in the memory
  blocks of their processes, memory is what \<^verbatim>\<open>phys_copy\<close> makes of it, and every byte outside the
  requested range of the destination is unchanged; unless that range starts inside the source,
  where the forward copy meets its own output, it then holds exactly what the source held. When the
  copy fails, memory is unchanged.
\<close>

theorem virtual_copy_confined:
  assumes "virtual_copy src dst n s = Some (r, s')"
    and "va_segment src AND SEGMENT_TYPE = LOCAL_SEG" "va_segment src AND SEGMENT_INDEX \<noteq> int SEG_T"
    and "va_segment dst AND SEGMENT_TYPE = LOCAL_SEG" "va_segment dst AND SEGMENT_INDEX \<noteq> int SEG_T"
    and "data_layout (procs s (va_proc_nr src))" "data_layout (procs s (va_proc_nr dst))"
  defines "p \<equiv> block_base (procs s (va_proc_nr src)) + va_offset src"
    and "q \<equiv> block_base (procs s (va_proc_nr dst)) + va_offset dst"
  shows "if r = OK
    then unat (va_offset src) + unat n \<le> block_len (procs s (va_proc_nr src)) \<and>
      unat (va_offset dst) + unat n \<le> block_len (procs s (va_proc_nr dst)) \<and>
      s' = s\<lparr>k_mem := phys_copy p q (unat n) (k_mem s)\<rparr> \<and>
      (\<forall>a. unat (a - q) \<ge> unat n \<longrightarrow> k_mem s' a = k_mem s a) \<and>
      (p = q \<or> unat n \<le> unat (q - p) \<longrightarrow> (\<forall>i < unat n. k_mem s' (q + of_nat i) = k_mem s (p + of_nat i)))
    else s' = s"
  using assms(1)
proof (cases rule: virtual_copy_cases)
  case (copied p' s1 q' s2)
  have s1: "s1 = s" by (rule map_vir_quiet [OF copied(1)]) (unfold assms(2), simp)
  have s2: "s2 = s" unfolding s1 [symmetric] by (rule map_vir_quiet [OF copied(2)]) (unfold assms(4), simp)
  note m = map_vir_local [OF copied(1) assms(2,3,6) refl]
    map_vir_local [OF copied(2) assms(4,5), unfolded s1, OF assms(7) refl]
  have lt: "unat n < 2 ^ 32" by (rule unat_lt32)
  have pq: "p' = p" "q' = q" using m by (simp_all add: p_def q_def)
  have mem: "s' = s\<lparr>k_mem := phys_copy p q (unat n) (k_mem s)\<rparr>" by (simp add: copied(4) s2 pq)
  have u: "unat (of_nat i :: u32) = i" if "i < unat n" for i
    using lt that by (simp add: unat_of_nat)
  have "\<forall>i < unat n. k_mem s' (q + of_nat i) = k_mem s (p + of_nat i)" if "p = q \<or> unat n \<le> unat (q - p)"
    using that phys_copy_move [of p q "unat n"] lt by (auto simp: mem apart_def move_def u)
  moreover have "\<forall>a. unat (a - q) \<ge> unat n \<longrightarrow> k_mem s' a = k_mem s a"
    using phys_copy_outside [of q "unat n"] lt by (simp add: mem outside_def)
  ultimately show ?thesis using m copied(3) mem by simp
next
  case (bad_src p')
  have "s' = s" by (rule map_vir_quiet [OF bad_src(1)]) (unfold assms(2), simp)
  with bad_src(2) show ?thesis by simp
next
  case (bad_dst p' s1 q')
  have "s1 = s" by (rule map_vir_quiet [OF bad_dst(1)]) (unfold assms(2), simp)
  moreover have "s' = s1" by (rule map_vir_quiet [OF bad_dst(2)]) (unfold assms(4), simp)
  ultimately show ?thesis using bad_dst(3) by simp
qed simp

definition demo_copy :: kstate where
  "demo_copy = demo_state\<lparr>procs := (\<lambda>n. if n = 0 then demo_map_proc else demo_proc n)\<rparr>"

theorem virtual_copy_confined_witness:
  "\<exists>s'. virtual_copy \<lparr>va_proc_nr = 0, va_segment = 1, va_offset = 0x10\<rparr>
      \<lparr>va_proc_nr = 0, va_segment = 1, va_offset = 0x400\<rparr> 0x20 demo_copy = Some (OK, s') \<and>
    k_mem s' 0x2400 = k_mem demo_copy 0x2010"
proof -
  let ?a = "\<lparr>va_proc_nr = 0, va_segment = 1, va_offset = 0x10\<rparr>"
  let ?b = "\<lparr>va_proc_nr = 0, va_segment = 1, va_offset = 0x400\<rparr>"
  have p: "procs demo_copy 0 = demo_map_proc" by (simp add: demo_copy_def)
  have u: "umap_local demo_map_proc SEG_D 0x10 0x20 = 0x2010" "umap_local demo_map_proc SEG_D 0x400 0x20 = 0x2400"
    by (simp_all add: umap_local_layout [OF demo_map_layout]) (simp_all add: demo_map_proc_def)
  have "\<exists>s'. virtual_copy ?a ?b 0x20 demo_copy = Some (OK, s')"
    using u by (simp add: virtual_copy_def map_vir_def p Let_def isokprocn_def)
  then obtain s' where s': "virtual_copy ?a ?b 0x20 demo_copy = Some (OK, s')" by blast
  have "\<forall>i < 32. k_mem s' (block_base demo_map_proc + 0x400 + of_nat i) = k_mem demo_copy (block_base demo_map_proc + 0x10 + of_nat i)"
    using virtual_copy_confined [OF s'] by (auto simp: p demo_map_layout)
  from this [rule_format, of 0] have "k_mem s' (block_base demo_map_proc + 0x400) = k_mem demo_copy (block_base demo_map_proc + 0x10)"
    by simp
  with s' show ?thesis by (simp add: block_base_def demo_map_proc_def)
qed

subsection \<open>What a segment descriptor means\<close>

text \<open>The base address and the limit (last valid offset) that the processor reads from a descriptor.\<close>

definition desc_base :: "segdesc \<Rightarrow> u32" where
  "desc_base d = ucast (base_low d) OR push_bit 16 (ucast (base_middle d)) OR push_bit 24 (ucast (base_high d))"

definition desc_limit :: "segdesc \<Rightarrow> u32" where
  "desc_limit d =
     (let l = ucast (limit_low d) OR push_bit 16 (ucast (granularity d) AND 0xF) in
      if bit (granularity d) 7 then push_bit 12 l OR 0xFFF else l)"

lemma ucast_join16:
  "ucast (ucast w :: u16) OR push_bit 16 (ucast (ucast (drop_bit 16 w) :: u8) AND 0xF) = (w AND 0xFFFFF :: u32)"
proof -
  have e: "(0xF :: u32) = mask 4" "(0xFFFFF :: u32) = mask 20" by (simp_all add: mask_eq_exp_minus_1)
  show ?thesis unfolding e
  proof (rule bit_word_eqI)
    fix n
    assume "n < LENGTH(32)"
    then show "bit (ucast (ucast w :: u16) OR push_bit 16 (ucast (ucast (drop_bit 16 w) :: u8) AND mask 4) :: u32) n =
        bit (w AND mask 20) n"
      by (cases "n < 16") (auto simp: bit_simps)
  qed
qed

lemma sdesc_base: "desc_base (sdesc base sz d) = base"
proof -
  have "ucast (ucast base :: u16) OR push_bit 16 (ucast (ucast (drop_bit 16 base) :: u8))
      OR push_bit 24 (ucast (ucast (drop_bit 24 base) :: u8)) = base"
  proof (rule bit_word_eqI)
    fix n
    assume "n < LENGTH(32)"
    then show "bit (ucast (ucast base :: u16) OR push_bit 16 (ucast (ucast (drop_bit 16 base) :: u8))
      OR push_bit 24 (ucast (ucast (drop_bit 24 base) :: u8)) :: u32) n = bit base n"
      by (cases "n < 16"; cases "n < 24") (auto simp: bit_simps not_less)
  qed
  then show ?thesis by (simp add: desc_base_def sdesc_def Let_def)
qed

lemma sdesc_limit:
  "desc_limit (sdesc base sz d) = (if sz - 1 \<le> BYTE_GRAN_MAX then sz - 1 else (sz - 1) OR 0xFFF)"
proof -
  define lim where "lim = sz - 1"
  have e: "(0xF :: u32) = mask 4" "(0xFFFFF :: u32) = mask 20" "(0xFFF :: u32) = mask 12"
    by (simp_all add: mask_eq_exp_minus_1)
  have b: "bit (0x40 :: u8) k \<longleftrightarrow> k = 6" "bit (0x80 :: u32) k \<longleftrightarrow> k = 7"
    "bit (0x40 :: int) k \<longleftrightarrow> k = 6" "bit (0x80 :: int) k \<longleftrightarrow> k = 7" for k
    using bit_exp_iff [where 'a = u8, of 6 k] bit_exp_iff [where 'a = u32, of 7 k]
      bit_exp_iff [where 'a = int, of 6 k] bit_exp_iff [where 'a = int, of 7 k] by auto
  have g: "ucast (ucast (drop_bit 16 x) OR (0x40 :: u8)) AND 0xF = ucast (ucast (drop_bit 16 x) :: u8) AND (0xF :: u32)"
    "ucast (ucast (0x80 OR drop_bit 16 x) OR (0x40 :: u8)) AND 0xF = ucast (ucast (drop_bit 16 x) :: u8) AND (0xF :: u32)"
    for x :: u32
    unfolding e by (rule bit_word_eqI; auto simp: bit_simps b)+
  show ?thesis
  proof (cases "lim \<le> BYTE_GRAN_MAX")
    case True
    then have "unat lim < 2 ^ 20" by (simp add: word_le_nat_alt)
    then have "take_bit 20 lim = lim"
      by (intro unsigned_word_eqI [where 'a = nat]) (simp add: unsigned_take_bit_eq take_bit_nat_eq_self)
    then have low: "lim AND 0xFFFFF = lim" unfolding e by (simp add: take_bit_eq_mask)
    have "\<not> bit lim 23"
    proof
      assume "bit lim 23"
      then have "bit (lim AND 0xFFFFF) 23" by (simp add: low)
      then show False unfolding e by (simp add: bit_simps)
    qed
    then have "\<not> bit (ucast (drop_bit 16 lim) OR (0x40 :: u8)) 7" by (auto simp: bit_simps b)
    moreover have "limit_low (sdesc base sz d) = ucast lim"
      "granularity (sdesc base sz d) = ucast (drop_bit 16 lim) OR 0x40"
      using True by (auto simp: sdesc_def Let_def lim_def [symmetric])
    ultimately have "desc_limit (sdesc base sz d) = lim"
      by (simp only: desc_limit_def Let_def g ucast_join16 low if_False)
    with True show ?thesis by (simp add: lim_def)
  next
    case False
    have d: "drop_bit 28 lim = drop_bit 16 (drop_bit 12 lim)" by simp
    have b7: "bit (ucast (0x80 OR drop_bit 28 lim) OR (0x40 :: u8)) 7" by (auto simp: bit_simps b)
    have w: "push_bit 12 (drop_bit 12 lim AND 0xFFFFF) OR 0xFFF = lim OR 0xFFF"
      unfolding e by (rule bit_word_eqI) (auto simp: bit_simps)
    have "limit_low (sdesc base sz d) = ucast (drop_bit 12 lim)"
      "granularity (sdesc base sz d) = ucast (0x80 OR drop_bit 28 lim) OR 0x40"
      using False by (auto simp: sdesc_def Let_def lim_def [symmetric] not_le)
    with b7 have "desc_limit (sdesc base sz d) = lim OR 0xFFF"
      by (simp only: desc_limit_def Let_def d g ucast_join16 if_True w)
    with False show ?thesis by (simp add: lim_def)
  qed
qed

text \<open>
  Segment descriptors round trip: the base that the processor reads back from a descriptor
  is the base given; the limit is the size less one, exactly for segments up to 1 MB, and rounded up
  to the end of its 4 KB page beyond (a size of 0 stands for 4 GB).
\<close>

theorem sdesc_roundtrip:
  "desc_base (sdesc base sz d) = base \<and>
   desc_limit (sdesc base sz d) = (if sz - 1 \<le> BYTE_GRAN_MAX then sz - 1 else (sz - 1) OR 0xFFF)"
  by (simp add: sdesc_base sdesc_limit)

subsection \<open>Remote segments and request vectors\<close>

lemma free_farmem_cases:
  assumes "free_farmem is sp = Some i"
  shows "i \<in> set is" "\<not> in_use (s_farmem sp i)"
proof -
  have "i \<in> set is \<and> \<not> in_use (s_farmem sp i)"
    using assms by (induction "is" sp rule: free_farmem.induct) (auto split: if_splits)
  then show "i \<in> set is" "\<not> in_use (s_farmem sp i)" by auto
qed

lemma umap_remote_in_use:
  assumes "has_priv s rp" "s_farmem (priv_of s rp) i = \<lparr>in_use = True, far_phys = phys, far_len = len\<rparr>"
    "i < NR_REMOTE_SEGS" "0 < n" "unat v + unat n \<le> unat len"
  shows "umap_remote rp (int i) v n s = Some (phys + v)"
proof -
  have "unat len < 2 ^ LENGTH(32)" by (rule unsigned_less)
  with assms(5) have "unat (v + n) = unat v + unat n" by (simp add: unat_word_ariths)
  with assms(5) have "\<not> v + n > len" by (simp add: word_less_nat_alt)
  with assms(1-4) show ?thesis by (auto simp: umap_remote_def)
qed

text \<open>
  Remote segments: when \<^verbatim>\<open>do_segctl\<close> succeeds it has put the requested region in a slot that was
  free, it reports that slot, and from then on \<^verbatim>\<open>umap_remote\<close> translates every range inside the region
  to its physical address; in protected mode the segment descriptor of the slot starts at the region,
  or at the 64 KB boundary below it for regions of 1 MB and more.
\<close>

theorem do_segctl_grants_region:
  assumes "do_segctl m s = Some (OK, m', s')"
  shows "\<exists>i < NR_REMOTE_SEGS. m_w4 m' = of_nat i OR 0x100 \<and>
    \<not> in_use (s_farmem (priv_of s (m_source m)) i) \<and>
    (\<forall>v n. 0 < n \<longrightarrow> unat v + unat n \<le> unat (m_w3 m) \<longrightarrow>
      umap_remote (m_source m) (int i) v n s' = Some (m_w2 m + v)) \<and>
    (mi_protected (machine s) \<longrightarrow>
      desc_base (p_ldt (procs s' (m_source m)) (2 + i)) =
        (if m_w3 m < BYTE_GRAN_MAX then m_w2 m else m_w2 m AND NOT 0xFFFF))"
proof -
  let ?rp = "m_source m"
  from assms have ok: "isokprocn ?rp \<and> has_priv s ?rp" by (auto simp: do_segctl_def Let_def)
  define sp where "sp = priv_of s ?rp"
  obtain i where i: "free_farmem [0..<NR_REMOTE_SEGS] sp = Some i"
    using assms ok by (cases "free_farmem [0..<NR_REMOTE_SEGS] sp")
      (simp_all add: do_segctl_def Let_def sp_def del: upt_conv_Cons upt_rec_numeral)
  define far where "far = \<lparr>in_use = True, far_phys = m_w2 m, far_len = m_w3 m\<rparr>"
  have base: "desc_base (init_dataseg b z u d) = b" for b z u d
    using sdesc_base [of b z d] by (simp add: init_dataseg_def desc_base_def)
  have r: "m_w4 m' = of_nat i OR 0x100 \<and> p_priv (procs s' ?rp) = p_priv (procs s ?rp) \<and>
      s_farmem (privs s' (p_priv (procs s ?rp))) i = far \<and>
      (mi_protected (machine s) \<longrightarrow> desc_base (p_ldt (procs s' ?rp) (2 + i)) =
        (if m_w3 m < BYTE_GRAN_MAX then m_w2 m else m_w2 m AND NOT 0xFFFF))"
    using assms unfolding do_segctl_def Let_def guard_bind [OF ok] sp_def [symmetric] i option.case
    by (auto simp: base far_def sp_def priv_of_def split: if_splits)
  then have "s_farmem (priv_of s' ?rp) i = far" "has_priv s' ?rp"
    using ok by (simp_all add: priv_of_def has_priv_def)
  moreover have "i < NR_REMOTE_SEGS" using free_farmem_cases(1) [OF i] by simp
  ultimately show ?thesis
    using r free_farmem_cases(2) [OF i] umap_remote_in_use [of s' ?rp i "m_w2 m" "m_w3 m"]
    unfolding sp_def far_def by blast
qed

definition demo_seg_msg :: message where
  "demo_seg_msg = \<lparr>m_source = 4, m_type = 0x60C, m_w0 = 0, m_w1 = 0, m_w2 = 0xB8000, m_w3 = 0x8000,
     m_w4 = 0, m_w5 = 0, m_w6 = 0\<rparr>"

theorem do_segctl_grants_region_witness:
  "\<exists>m' s'. do_segctl demo_seg_msg demo_state = Some (OK, m', s') \<and>
     umap_remote 4 0 0x10 0x20 s' = Some 0xB8010"
proof -
  have "\<exists>m' s'. do_segctl demo_seg_msg demo_state = Some (OK, m', s') \<and> m_w4 m' = 0x100"
    by (simp add: do_segctl_def demo_seg_msg_def Let_def isokprocn_def has_priv_def demo_proc_def
        priv_of_def demo_priv_def upt_rec split: if_splits)
  then obtain m' s' where s': "do_segctl demo_seg_msg demo_state = Some (OK, m', s')" and w: "m_w4 m' = 0x100" by blast
  from do_segctl_grants_region [OF s'] obtain i where i: "i < 3" "m_w4 m' = of_nat i OR 0x100"
    and u: "\<forall>v n. 0 < n \<longrightarrow> unat v + unat n \<le> unat (m_w3 demo_seg_msg) \<longrightarrow>
      umap_remote (m_source demo_seg_msg) (int i) v n s' = Some (m_w2 demo_seg_msg + v)" by auto
  from i have "i = 0 \<or> i = 1 \<or> i = 2" by auto
  with i(2) w have "i = 0" by auto
  with s' u [rule_format, of "0x20" "0x10"] show ?thesis by (auto simp: demo_seg_msg_def)
qed

text \<open>
  A negative number of requests passes the size check of \<^verbatim>\<open>do_vcopy\<close>, because the count is
  compared as a signed number, while the length in bytes is computed modulo 2^32: with this count
  4096 bytes of the caller are copied over the 448 bytes of the kernel's request buffer.
\<close>

theorem do_vcopy_negative_count:
  assumes "m_w2 m = 0xADB6DC00" "isokprocn (m_source m)"
    and "umap_local (procs s (m_source m)) SEG_D (m_w3 m) 4096 \<noteq> 0"
  shows "sint (m_w2 m) < 0 \<and> sint (m_w2 m) \<le> VCOPY_VEC_SIZE \<and> m_w2 m * 28 = 4096 \<and> do_vcopy m s = None"
proof -
  have n: "sint (m_w2 m) < 0" by (simp add: assms(1))
  moreover have "m_w2 m * 28 = 4096" by (simp add: assms(1))
  ultimately show ?thesis using assms(2,3) by (simp add: do_vcopy_def Let_def guard_def)
qed

theorem do_vcopy_negative_count_witness:
  "do_vcopy \<lparr>m_source = 0, m_type = 0x611, m_w0 = 0, m_w1 = 0, m_w2 = 0xADB6DC00, m_w3 = 0x100,
     m_w4 = 0, m_w5 = 0, m_w6 = 0\<rparr> demo_copy = None"
proof -
  have "umap_local demo_map_proc SEG_D 0x100 4096 = 0x2100"
    by (simp add: umap_local_layout [OF demo_map_layout]) (simp add: demo_map_proc_def)
  with do_vcopy_negative_count [of "\<lparr>m_source = 0, m_type = 0x611, m_w0 = 0, m_w1 = 0, m_w2 = 0xADB6DC00,
     m_w3 = 0x100, m_w4 = 0, m_w5 = 0, m_w6 = 0\<rparr>" demo_copy] show ?thesis
    by (simp add: isokprocn_def demo_copy_def)
qed

end
