(* ===== verification/Kernel_Procs.thy ===== *)
theory Kernel_Procs
  imports Kernel_Mem
begin

text \<open>
  Kernel calls that manage processes: \<^verbatim>\<open>get_priv\<close> (\<^verbatim>\<open>kernel/system.c\<close>) and \<^verbatim>\<open>do_fork\<close>,
  \<^verbatim>\<open>do_exec\<close>, \<^verbatim>\<open>do_exit\<close>, \<^verbatim>\<open>do_newmap\<close>, \<^verbatim>\<open>do_nice\<close>, \<^verbatim>\<open>do_privctl\<close>, \<^verbatim>\<open>do_times\<close>,
  \<^verbatim>\<open>do_trace\<close> (\<^verbatim>\<open>kernel/system\<close>), then what they do to the invariants.

  \<^verbatim>\<open>proc_addr(n)\<close> of a number the code does not check is guarded: outside the process table there
  is no defined outcome. A process name is the text before its NUL; the eighth byte of the array
  is NUL, since no operation writes more than seven characters there.
\<close>

subsection \<open>Model: privileges and forking\<close>

definition isemptyp :: "proc \<Rightarrow> bool" where
  "isemptyp p \<longleftrightarrow> p_rts_flags p = {SLOT_FREE}"

text \<open>The loop of \<^verbatim>\<open>get_priv\<close> over the privilege table.\<close>

fun free_priv :: "nat list \<Rightarrow> kstate \<Rightarrow> nat option" where
  "free_priv [] s = None"
| "free_priv (i # is) s =
     (if s_proc_nr (privs s i) = NONE \<and> s_id (privs s i) \<noteq> USER_PRIV_ID then Some i else free_priv is s)"

text \<open>
  When no slot is free the loop ends at \<^verbatim>\<open>END_PRIV_ADDR\<close>, and \<^verbatim>\<open>get_priv\<close> reads, and may then
  assign, a structure behind the table: no defined outcome.
\<close>

definition get_priv :: "int \<Rightarrow> bool \<Rightarrow> kstate \<Rightarrow> (int \<times> kstate) option" where
  "get_priv rc sys_proc s =
     (if sys_proc then
        (case free_priv [0..<NR_SYS_PROCS] s of
           None \<Rightarrow> None
         | Some sp \<Rightarrow>
             (if s_proc_nr (privs s sp) \<noteq> NONE then Some (ENOSPC, s)
              else Some (OK, upd_priv sp (\<lambda>v. v\<lparr>s_proc_nr := p_nr (procs s rc), s_flags := {SYS_PROC}\<rparr>)
                     (upd_proc rc (p_priv_update (\<lambda>_. sp)) s))))
      else Some (OK, upd_priv USER_PRIV_ID (\<lambda>v. v\<lparr>s_proc_nr := INIT_PROC_NR, s_flags := {}\<rparr>)
             (upd_proc rc (p_priv_update (\<lambda>_. USER_PRIV_ID)) s)))"

definition do_fork :: kcall where
  "do_fork m s = do {
     let pp = sint (m_w1 m);
     let pc = sint (m_w0 m);
     guard (isokprocn pp \<and> isokprocn pc);
     let rpp = procs s pp;
     let rpc = procs s pc;
     if isemptyp rpp \<or> \<not> isemptyp rpc then Some (EINVAL, m, s)
     else do {
       guard (has_priv s pp);
       let c1 = rpp\<lparr>p_ldt_sel := p_ldt_sel rpc, p_nr := pc\<rparr>;
       let c2 = c1\<lparr>p_rts_flags := (p_rts_flags c1 \<union> {NO_MAP}) - {SIGNALED, SIG_PENDING, P_STOP},
                  p_pending := 0,
                  p_reg := (p_reg c1)\<lparr>reg_retreg := 0\<rparr>,
                  p_user_time := 0, p_sys_time := 0,
                  p_ticks_left := schar (cdiv (p_ticks_left c1 + 1) 2)\<rparr>;
       let s1 = upd_proc pc (\<lambda>_. c2) s;
       let s2 = upd_proc pp (\<lambda>p. p\<lparr>p_ticks_left := schar (cdiv (p_ticks_left p) 2)\<rparr>) s1;
       if SYS_PROC \<in> s_flags (priv_of s2 pp)
       then Some (OK, m, upd_proc pc (\<lambda>p. p\<lparr>p_priv := USER_PRIV_ID, p_rts_flags := p_rts_flags p \<union> {NO_PRIV}\<rparr>) s2)
       else Some (OK, m, s2)
     }
   }"

definition do_privctl :: kcall where
  "do_privctl m s = do {
     let cl = m_source m;
     guard (isokprocn cl \<and> has_priv s cl);
     if SYS_PROC \<notin> s_flags (priv_of s cl) then Some (EPERM, m, s)
     else do {
       let rp = sint (m_w0 m);
       if \<not> isokprocn rp then Some (EINVAL, m, s)
       else if NO_PRIV \<notin> p_rts_flags (procs s rp) then Some (EPERM, m, s)
       else do {
         (i, s1) \<leftarrow> get_priv rp True s;
         if i \<noteq> OK then Some (i, m, s1)
         else do {
           let r = p_priv (procs s1 rp);
           let c = p_priv (procs s1 cl);
           let pid = s_id (privs s1 r);
           let s2 = upd_priv r (\<lambda>_. (privs s1 c)\<lparr>s_id := pid, s_proc_nr := rp,
                      s_notify_pending := (\<lambda>_. 0), s_int_pending := 0, s_sig_pending := 0,
                      s_trap_mask := - 1, s_ipc_to := unset_sys_bit USER_PRIV_ID (\<lambda>_. - 1)\<rparr>)
                    (s1\<lparr>k_timers := (k_timers s1)(r := k_timers s1 c)\<rparr>);
           let s3 = fold (\<lambda>j t. if get_sys_bit (s_ipc_to (privs t r)) j
                      then upd_priv j (s_ipc_to_update (set_sys_bit (s_id (privs t r)))) t else t)
                    [0..<NR_SYS_PROCS] s2;
           s4 \<leftarrow> rts_unset {NO_PRIV} rp s3;
           Some (OK, m, s4)
         }
       }
     }
   }"

subsection \<open>Model: exit\<close>

text \<open>
  The pass of \<^verbatim>\<open>clear_proc\<close> over the caller queues of all processes, in table order: a queue that
  contains \<open>rc\<close> loses it.
\<close>

fun leave_queues :: "int \<Rightarrow> int list \<Rightarrow> kstate \<Rightarrow> kstate option" where
  "leave_queues rc [] s = Some s"
| "leave_queues rc (rp # rps) s =
     (if p_caller_q (procs s rp) = None then leave_queues rc rps s
      else do {
        xpp \<leftarrow> chain_find (\<lambda>x. x = rc) (p_caller_q (procs s rp)) (qlink s) Head;
        let s1 = (case rd (p_caller_q (procs s rp)) (qlink s) xpp of
                    None \<Rightarrow> s
                  | Some x \<Rightarrow> callq_assign rp xpp (qlink s x) s);
        leave_queues rc rps s1
      })"

text \<open>The pass over the interrupt hooks.\<close>

fun release_hooks :: "int \<Rightarrow> nat list \<Rightarrow> kstate \<Rightarrow> kstate option" where
  "release_hooks n [] s = Some s"
| "release_hooks n (i # is) s =
     (if ih_proc_nr (irq_hooks s i) = n then do {
        s1 \<leftarrow> rm_irq_handler i s;
        release_hooks n is (upd_hook i (ih_proc_nr_update (\<lambda>_. NONE)) s1)
      }
      else release_hooks n is s)"

definition hook_nrs :: "nat list" where
  "hook_nrs = [0..<NR_IRQ_HOOKS]"

text \<open>\<^verbatim>\<open>for (rp = BEG_PROC_ADDR; rp < END_PROC_ADDR; rp++)\<close>\<close>

definition proc_nrs :: "int list" where
  "proc_nrs = [- NR_TASKS..NR_PROCS - 1]"

definition clear_proc :: "int \<Rightarrow> kstate \<Rightarrow> kstate option" where
  "clear_proc rc s = do {
     guard (has_priv s rc);
     s1 \<leftarrow> reset_timer (p_priv (procs s rc)) s;
     s2 \<leftarrow> (if p_rts_flags (procs s1 rc) = {} then lock_dequeue rc s1 else Some s1);
     s3 \<leftarrow> (if SENDING \<in> p_rts_flags (procs s2 rc) then leave_queues rc proc_nrs s2 else Some s2);
     s4 \<leftarrow> release_hooks (p_nr (procs s3 rc)) hook_nrs s3;
     let s5 = upd_proc rc (p_rts_flags_update (\<lambda>_. {SLOT_FREE})) s4;
     Some (if SYS_PROC \<in> s_flags (priv_of s5 rc)
           then upd_priv (p_priv (procs s5 rc)) (s_proc_nr_update (\<lambda>_. NONE)) s5 else s5)
   }"

definition do_exit :: kcall where
  "do_exit m s =
     (let exit_proc_nr = sint (m_w0 m) in
      if PM_PROC_NR = m_source m \<and> exit_proc_nr \<noteq> SELF then
        (if \<not> isokprocn exit_proc_nr then Some (EINVAL, m, s)
         else do {
           s1 \<leftarrow> clear_proc exit_proc_nr s;
           Some (OK, m, s1)
         })
      else do {
        guard (isokprocn (m_source m));
        s1 \<leftarrow> clear_proc (m_source m) s;
        Some (EDONTREPLY, m, s1)
      })"

subsection \<open>Model: exec, memory map, priority, times\<close>

abbreviation (input) P_NAME_LEN :: nat where "P_NAME_LEN \<equiv> 8"

definition null_desc :: segdesc where
  "null_desc = \<lparr>limit_low = 0, base_low = 0, base_middle = 0, seg_access = 0, granularity = 0, base_high = 0\<rparr>"

definition load_chars :: "nat \<Rightarrow> u32 \<Rightarrow> memory \<Rightarrow> string" where
  "load_chars n a mem = map (\<lambda>i. char_of (unat (mem (a + of_nat i)))) [0..<n]"

definition do_exec :: kcall where
  "do_exec m s = do {
     let rp = sint (m_w0 m);
     guard (isokprocn rp);
     let s1 = upd_proc rp (\<lambda>p. p\<lparr>p_reg := (p_reg p)\<lparr>reg_sp := m_w3 m, reg_pc := m_w5 m\<rparr>,
                p_ldt := (\<lambda>i. if EXTRA_LDT_INDEX \<le> i \<and> i < LDT_SIZE then null_desc else p_ldt p i)\<rparr>) s;
     s2 \<leftarrow> rts_unset {RECEIVING} rp s1;
     phys_name \<leftarrow> numap_local (m_source m) (m_w4 m) (of_nat P_NAME_LEN - 1) s2;
     let name = (if phys_name \<noteq> 0
                 then takeWhile (\<lambda>c. of_char c \<ge> (32 :: nat)) (load_chars (P_NAME_LEN - 1) phys_name (k_mem s2))
                 else ''<unset>'');
     Some (OK, m, upd_proc rp (p_name_update (\<lambda>_. name)) s2)
   }"

text \<open>A \<^verbatim>\<open>struct mem_map [NR_LOCAL_SEGS]\<close> in memory.\<close>

definition load_map :: "u32 \<Rightarrow> memory \<Rightarrow> nat \<Rightarrow> mem_map" where
  "load_map a mem i = \<lparr>mem_vir = load32 (a + 12 * of_nat i) mem,
     mem_phys = load32 (a + 12 * of_nat i + 4) mem, mem_len = load32 (a + 12 * of_nat i + 8) mem\<rparr>"

definition do_newmap :: kcall where
  "do_newmap m s = do {
     let cl = m_source m;
     let rp = sint (m_w0 m);
     if \<not> isokprocn rp then Some (EINVAL, m, s)
     else if iskerneln rp then Some (EPERM, m, s)
     else do {
       src_phys \<leftarrow> numap_local cl (m_w3 m) 36 s;
       if src_phys = 0 then Some (EFAULT, m, s)
       else do {
         let s1 = upd_proc rp (\<lambda>p. p\<lparr>p_memmap :=
                    (\<lambda>i. if i < 3 then load_map src_phys (k_mem s) i else p_memmap p i)\<rparr>) s;
         let s2 = upd_proc rp (alloc_segments (mi_protected (machine s1))) s1;
         let old_flags = p_rts_flags (procs s2 rp);
         let s3 = upd_proc rp (p_rts_flags_update (\<lambda>f. f - {NO_MAP})) s2;
         s4 \<leftarrow> (if old_flags \<noteq> {} \<and> p_rts_flags (procs s3 rp) = {} then lock_enqueue rp s3 else Some s3);
         Some (OK, m, s4)
       }
     }
   }"

abbreviation (input) PRIO_MIN :: int where "PRIO_MIN \<equiv> - 20"
abbreviation (input) PRIO_MAX :: int where "PRIO_MAX \<equiv> 20"

definition nice_queue :: "int \<Rightarrow> int" where
  "nice_queue pri =
     (let q = MAX_USER_Q + cdiv ((pri - PRIO_MIN) * (MIN_USER_Q - MAX_USER_Q + 1)) (PRIO_MAX - PRIO_MIN + 1);
          q1 = (if q < MAX_USER_Q then MAX_USER_Q else q)
      in if q1 > MIN_USER_Q then MIN_USER_Q else q1)"

definition do_nice :: kcall where
  "do_nice m s = do {
     let rp = sint (m_w0 m);
     let pri = sint (m_w1 m);
     if \<not> isokprocn rp then Some (EINVAL, m, s)
     else if iskerneln rp then Some (EPERM, m, s)
     else if pri < PRIO_MIN \<or> pri > PRIO_MAX then Some (EINVAL, m, s)
     else do {
       s1 \<leftarrow> lock_dequeue rp s;
       let s2 = upd_proc rp (\<lambda>p. p\<lparr>p_priority := nice_queue pri, p_max_priority := nice_queue pri\<rparr>) s1;
       s3 \<leftarrow> (if p_rts_flags (procs s2 rp) = {} then lock_enqueue rp s2 else Some s2);
       Some (OK, m, s3)
     }
   }"

definition do_times :: kcall where
  "do_times m s = do {
     let n = (if sint (m_w0 m) = SELF then m_source m else sint (m_w0 m));
     m1 \<leftarrow> (if isokprocn n then do {
              guard (isokprocn (sint (m_w0 m)));
              let rp = procs s (sint (m_w0 m));
              Some (m\<lparr>m_w0 := word_of_int (p_user_time rp), m_w1 := word_of_int (p_sys_time rp)\<rparr>)
            }
            else Some m);
     Some (OK, m1\<lparr>m_w4 := word_of_int (get_uptime s)\<rparr>, s)
   }"

subsection \<open>Exit keeps the invariants\<close>

text \<open>A queue that does not contain \<open>rc\<close> is left alone.\<close>

lemma leave_queues_absent:
  assumes "\<And>d. d \<in> set ds \<Longrightarrow> \<exists>xs. chain (qlink s) (callq s d) xs \<and> rc \<notin> set xs"
  shows "leave_queues rc ds s = Some s"
  using assms
proof (induction ds)
  case (Cons d ds)
  from Cons.prems [of d] obtain xs where xs: "chain (qlink s) (callq s d) xs" "rc \<notin> set xs" by auto
  then have "x \<noteq> rc" if "x \<in> set xs" for x using that by auto
  note f = chain_find_absent [OF xs(1), of "\<lambda>x. x = rc", OF this]
  from Cons have IH: "leave_queues rc ds s = Some s" by simp
  show ?case using f IH by (simp add: view_fold)
qed simp

lemma leave_queues_append:
  "leave_queues rc (ds @ es) s = Option.bind (leave_queues rc ds s) (leave_queues rc es)"
proof (induction ds arbitrary: s)
  case (Cons d ds)
  show ?case
    by (cases "p_caller_q (procs s d) = None";
        cases "chain_find (\<lambda>x. x = rc) (p_caller_q (procs s d)) (qlink s) Head")
      (auto simp: Cons.IH Let_def)
qed simp

lemma set_proc_nrs: "set proc_nrs = {n. isokprocn n}"
  unfolding proc_nrs_def set_upto by (auto simp: isokprocn_def)

lemma distinct_proc_nrs: "distinct proc_nrs"
  unfolding proc_nrs_def by (rule distinct_upto)

lemma leave_queues_member:
  assumes I: "ipc_links s C" and d: "isokprocn d" and x: "C d = us @ rc # vs"
  shows "leave_queues rc proc_nrs s = Some (callq_assign d (slot_after us) (qlink s rc) s)"
proof -
  let ?t = "callq_assign d (slot_after us) (qlink s rc) s"
  from d have "d \<in> set proc_nrs" by (simp add: set_proc_nrs)
  then obtain as bs where l: "proc_nrs = as @ d # bs" by (meson split_list)
  then have "distinct (as @ d # bs)" by (metis distinct_proc_nrs)
  then have nd: "d \<notin> set as" "d \<notin> set bs" by auto
  have ok: "isokprocn e" if "e \<in> set as \<union> set bs" for e
    using that l set_proc_nrs by (metis (mono_tags, lifting) UnE in_set_conv_decomp mem_Collect_eq set_append Un_iff list.set_intros(2))
  note D = ipc_linksD [OF I]
  have only: "rc \<notin> set (C e)" if "isokprocn e" "e \<noteq> d" for e
    using D(2) [OF that(1), of rc] D(2) [OF d, of rc] x that(2) by auto
  have 1: "leave_queues rc as s = Some s"
    by (rule leave_queues_absent) (use D(1) only ok nd in \<open>metis UnI1\<close>)
  have dist: "distinct (us @ rc # vs)" using chain_distinct [OF D(1) [OF d]] x by simp
  have tw: "takeWhile (\<lambda>y. y \<noteq> rc) (C d) = us" using dist x by (simp add: takeWhile_append)
  have mem: "rc \<in> set (C d)" using x by simp
  note rem = chain_remove [OF D(1) [OF d] mem, unfolded tw]
  have q: "callq s d \<noteq> None" using D(1) [OF d] x by (cases us) auto
  have 2: "leave_queues rc (d # bs) s = leave_queues rc bs ?t"
    using q rem(2,3) by (auto simp: view_fold Let_def)
  have cons: "chain (qlink ?t) (callq ?t e) (C e)" if "isokprocn e" "e \<noteq> d" for e
  proof -
    have "n \<noteq> last us" if "n \<in> set (C e)" "us \<noteq> []" for n
      using that D(2) [OF \<open>isokprocn e\<close>, of n] D(2) [OF d, of n] x \<open>e \<noteq> d\<close> by auto
    then have "chain (qlink ?t) (callq s e) (C e) \<longleftrightarrow> chain (qlink s) (callq s e) (C e)"
      by (intro chain_cong) (auto simp: callq_assign_view slot_after_def)
    with D(1) [OF \<open>isokprocn e\<close>] \<open>e \<noteq> d\<close> show ?thesis by (simp add: callq_assign_view)
  qed
  have "leave_queues rc bs ?t = Some ?t"
    by (rule leave_queues_absent) (use cons only ok nd in \<open>metis UnI2\<close>)
  with 1 2 show ?thesis unfolding l leave_queues_append by simp
qed

lemma release_hooks_none:
  "(\<And>i. i \<in> set is \<Longrightarrow> ih_proc_nr (irq_hooks s i) \<noteq> n) \<Longrightarrow> release_hooks n is s = Some s"
  by (induction "is") auto

lemma clock_inv_cong:
  "k_timers s' = k_timers s \<Longrightarrow> clock_timers s' = clock_timers s \<Longrightarrow> next_timeout s' = next_timeout s \<Longrightarrow>
   clock_inv s' ts = clock_inv s ts"
  by (simp only: clock_inv_def get_timers_def first_timeout_def)

lemma ipc_inv_links: "ipc_inv s \<Longrightarrow> (\<And>C. sched_inv s \<Longrightarrow> ipc_links s C \<Longrightarrow> P) \<Longrightarrow> P"
  by (auto simp: ipc_inv_def)

text \<open>The end of \<^verbatim>\<open>clear_proc\<close>: the slot is marked free, whatever flags it had.\<close>

lemma free_slot_sched:
  assumes "on_ready s R" "{n. isokprocn n \<and> p_rts_flags (procs s n) = {}} - {rc} = R"
  shows "sched_inv (upd_proc rc (p_rts_flags_update (\<lambda>_. {SLOT_FREE})) s)"
proof -
  have "{n. isokprocn n \<and> p_rts_flags (procs (upd_proc rc (p_rts_flags_update (\<lambda>_. {SLOT_FREE})) s) n) = {}} = R"
    using assms(2) by auto
  then show ?thesis using assms(1) by (simp add: sched_inv_def rq.flags_irrelevant)
qed

lemma clear_proc_end:
  assumes "ipc_inv s" "isokprocn rc" "\<And>i. i < NR_IRQ_HOOKS \<Longrightarrow> ih_proc_nr (irq_hooks s i) \<noteq> rc"
  obtains s2 s3 C where
    "(if p_rts_flags (procs s rc) = {} then lock_dequeue rc s else Some s) = Some s2"
    "(if SENDING \<in> p_rts_flags (procs s2 rc) then leave_queues rc proc_nrs s2 else Some s2) = Some s3"
    "release_hooks (p_nr (procs s3 rc)) hook_nrs s3 = Some s3"
    "sched_inv (upd_proc rc (p_rts_flags_update (\<lambda>_. {SLOT_FREE})) s3)"
    "ipc_links (upd_proc rc (p_rts_flags_update (\<lambda>_. {SLOT_FREE})) s3) C"
    "\<And>n. p_rts_flags (procs s3 n) = p_rts_flags (procs s n)" "\<And>n. p_priv (procs s3 n) = p_priv (procs s n)"
    "privs s3 = privs s" "k_timers s3 = k_timers s" "clock_timers s3 = clock_timers s"
    "next_timeout s3 = next_timeout s"
proof -
  let ?free = "upd_proc rc (p_rts_flags_update (\<lambda>_. {SLOT_FREE}))"
  from assms(1) obtain C where S: "sched_inv s" and I: "ipc_links s C" by (rule ipc_inv_links)
  have hooks: "release_hooks n hook_nrs t = Some t" if "irq_hooks t = irq_hooks s" "n = rc" for t n
    by (rule release_hooks_none) (use assms(3) that in \<open>auto simp: hook_nrs_def\<close>)
  define R where "R = {n. isokprocn n \<and> p_rts_flags (procs s n) = {}}"
  have R: "on_ready s R" using S by (simp add: sched_inv_def R_def)
  have nr: "p_nr (procs s rc) = rc" using sched_inv_nr [OF S assms(2)] .
  show thesis
  proof (cases "p_rts_flags (procs s rc) = {}")
    case True
    obtain s2 where s2: "dequeue rc s = Some s2" "on_ready s2 (R - {rc})" "sched_frame s s2"
      using dequeue_on_ready [OF R assms(2)] by blast
    note fr = sched_frameD [OF s2(3)]
    have I2: "ipc_links s2 C" using I ipc_links_cong [OF same_ipc_frame [OF s2(3)]] by simp
    have ns: "\<not> sending s2 rc" by (simp add: sending_def sched_frame_flags [OF s2(3)] True)
    have "ipc_links (?free s2) C"
      by (rule ipc_links_wake [OF I2, where d = rc]) (use ns in \<open>auto simp: view_upd_proc view_fold fun_eq_iff\<close>)
    moreover have "sched_inv (?free s2)"
      by (rule free_slot_sched [OF s2(2)]) (simp add: fr R_def)
    moreover have "p_nr (procs s2 rc) = rc" using nr by (simp add: fr)
    ultimately show ?thesis using True s2(1)
      by (intro that [of s2 s2]) (simp_all add: lock_dequeue_def fr hooks)
  next
    case False
    then have rR: "{n. isokprocn n \<and> p_rts_flags (procs s n) = {}} - {rc} = R" by (auto simp: R_def)
    show ?thesis
    proof (cases "sending s rc")
      case True
      define d where "d = sendto s rc"
      have "(rc, d) \<in> sends s" using True assms(2) by (simp add: sends_def d_def)
      with I have d: "isokprocn d" "rc \<in> set (C d)" using assms(2) True
        by (auto simp: ipc_links_def send_ok_def callers_def)
      from split_list_first [OF d(2)] obtain us vs where x: "C d = us @ rc # vs" by blast
      define s3 where "s3 = callq_assign d (slot_after us) (qlink s rc) s"
      have l: "leave_queues rc proc_nrs s = Some s3"
        unfolding s3_def by (rule leave_queues_member [OF I d(1) x])
      have p3: "p_rts_flags (procs s3 n) = p_rts_flags (procs s n)" "p_priv (procs s3 n) = p_priv (procs s n)"
        "p_nr (procs s3 n) = p_nr (procs s n)" "privs s3 = privs s" "irq_hooks s3 = irq_hooks s"
        "k_timers s3 = k_timers s" "clock_timers s3 = clock_timers s" "next_timeout s3 = next_timeout s" for n
        by (cases "slot_after us"; simp add: s3_def)+
      have "on_ready s3 R" using R unfolding s3_def
        by (cases "slot_after us") (auto simp: sched_view_def intro: on_ready_cong [THEN iffD2])
      then have "sched_inv (?free s3)" by (rule free_slot_sched) (simp add: p3(1) rR)
      moreover have "ipc_links (?free s3) (C(d := us @ vs))"
        by (rule ipc_links_leave [OF I d(1) x])
          (auto simp: view_upd_proc view_fold s3_def callq_assign_view)
      ultimately show ?thesis using False True l
        by (intro that [of s s3]) (simp_all add: view_fold p3 hooks nr)
    next
      case ns: False
      have "ipc_links (?free s) C"
        by (rule ipc_links_wake [OF I, where d = rc]) (use ns in \<open>auto simp: view_upd_proc view_fold fun_eq_iff\<close>)
      moreover have "sched_inv (?free s)" by (rule free_slot_sched [OF R rR])
      ultimately show ?thesis using False ns
        by (intro that [of s s]) (simp_all add: view_fold hooks nr)
    qed
  qed
qed

text \<open>
  C34. Exit of a process without interrupt hooks: \<^verbatim>\<open>clear_proc\<close> returns, keeps the invariants of
  scheduling and message passing, cancels the alarm timer of its privilege structure, and leaves a
  free slot that is on no ready queue, on no caller queue and is not waiting. Processes that were
  blocked sending to it stay blocked.
\<close>

theorem clear_proc_safe:
  assumes "ipc_inv s" "clock_inv s ts" "isokprocn rc" "has_priv s rc"
    "\<forall>i < NR_IRQ_HOOKS. ih_proc_nr (irq_hooks s i) \<noteq> rc"
  shows "\<exists>s'. clear_proc rc s = Some s' \<and> ipc_inv s' \<and>
    clock_inv s' (remove1 (p_priv (procs s rc)) ts) \<and>
    isemptyp (procs s' rc) \<and> (\<forall>d. (rc, d) \<notin> sends s') \<and>
    (\<forall>n. n \<noteq> rc \<longrightarrow> p_rts_flags (procs s' n) = p_rts_flags (procs s n))"
proof -
  obtain q s1 where s1: "reset_timer (p_priv (procs s rc)) s = Some s1"
    "clock_inv s1 (remove1 (p_priv (procs s rc)) ts)"
    and e1: "s1 = (put_timers q s)\<lparr>next_timeout := first_timeout (put_timers q s)\<rparr>"
    by (rule reset_timer_spec [OF assms(2)]) blast
  have I1: "ipc_inv s1" using assms(1) by (simp add: e1)
  have p1: "procs s1 = procs s" "irq_hooks s1 = irq_hooks s"
    by (simp_all add: e1 put_timers_def)
  obtain s2 s3 C where
    s2: "(if p_rts_flags (procs s1 rc) = {} then lock_dequeue rc s1 else Some s1) = Some s2" and
    s3: "(if SENDING \<in> p_rts_flags (procs s2 rc) then leave_queues rc proc_nrs s2 else Some s2) = Some s3" and
    h: "release_hooks (p_nr (procs s3 rc)) hook_nrs s3 = Some s3" and
    S: "sched_inv (upd_proc rc (p_rts_flags_update (\<lambda>_. {SLOT_FREE})) s3)" and
    L: "ipc_links (upd_proc rc (p_rts_flags_update (\<lambda>_. {SLOT_FREE})) s3) C" and
    f: "\<And>n. p_rts_flags (procs s3 n) = p_rts_flags (procs s1 n)" "\<And>n. p_priv (procs s3 n) = p_priv (procs s1 n)" and
    k: "k_timers s3 = k_timers s1" "clock_timers s3 = clock_timers s1" "next_timeout s3 = next_timeout s1"
    using clear_proc_end [OF I1 assms(3)] assms(5) unfolding p1(2) by metis
  define s5 where "s5 = upd_proc rc (p_rts_flags_update (\<lambda>_. {SLOT_FREE})) s3"
  define s' where "s' = (if SYS_PROC \<in> s_flags (priv_of s5 rc)
    then upd_priv (p_priv (procs s5 rc)) (s_proc_nr_update (\<lambda>_. NONE)) s5 else s5)"
  have "clear_proc rc s = Some s'"
    unfolding clear_proc_def guard_bind [OF assms(4)] s1(1) Option.bind.bind_lunit s2 s3 h Let_def
      s5_def [symmetric] s'_def [symmetric] ..
  moreover have "ipc_inv s5" using S L unfolding ipc_inv_def s5_def by blast
  then have "ipc_inv s'"
    using ipc_inv_cong [of "upd_priv (p_priv (procs s5 rc)) (s_proc_nr_update (\<lambda>_. NONE)) s5" s5]
    by (simp add: s'_def sched_inv_upd_priv)
  moreover have "k_timers s' = k_timers s1" "clock_timers s' = clock_timers s1" "next_timeout s' = next_timeout s1"
    by (simp_all add: s'_def s5_def k)
  then have "clock_inv s' (remove1 (p_priv (procs s rc)) ts)"
    using s1(2) clock_inv_cong by blast
  moreover have "procs s' = procs s5" by (simp add: s'_def)
  ultimately show ?thesis
    by (intro exI [of _ s']) (auto simp: s5_def isemptyp_def f p1 sends_def sending_def)
qed

theorem clear_proc_safe_witness:
  "\<exists>s'. clear_proc 2 demo_state = Some s' \<and> isemptyp (procs s' 2)"
proof -
  have "clock_inv demo_state []"
    by (simp add: clock_inv_def get_timers_def tmr_sorted_def first_timeout_def) (simp add: demo_state_def)
  moreover have "\<forall>i < NR_IRQ_HOOKS. ih_proc_nr (irq_hooks demo_state i) \<noteq> 2" by (simp add: demo_state_def)
  ultimately show ?thesis
    using clear_proc_safe [of demo_state "[]" 2] demo_ipc_inv
    by (auto simp: isokprocn_def has_priv_def demo_proc_def)
qed

subsection \<open>Fork keeps the invariants\<close>

lemma ipc_links_fork:
  assumes I: "ipc_links s C" and pc: "isokprocn pc" "\<not> sending s pc" "\<And>n. (n, pc) \<notin> sends s"
    and s': "sending s' = sending s" "\<And>d. d \<noteq> pc \<Longrightarrow> receiving s' d = receiving s d"
      "\<And>d. d \<noteq> pc \<Longrightarrow> sendto s' d = sendto s d" "\<And>d. d \<noteq> pc \<Longrightarrow> getfrom s' d = getfrom s d"
      "\<And>d. d \<noteq> pc \<Longrightarrow> qlink s' d = qlink s d" "callq s' = (callq s)(pc := None)"
  shows "ipc_links s' C"
proof -
  have "sendto s' n = sendto s n" if "sending s n" for n using s'(3) [of n] that pc(2) by blast
  then have sends': "sends s' = sends s" by (auto simp: sends_def s'(1))
  have "n \<notin> set (C pc)" for n using ipc_linksD(2) [OF I pc(1), of n] pc(3) [of n] by (auto simp: sends_def)
  then have C0: "C pc = []" by (metis all_not_in_conv set_empty)
  have "callers s' C"
    unfolding callers_def
  proof (intro allI impI conjI)
    fix d assume d: "isokprocn d"
    have "n \<noteq> pc" if "n \<in> set (C d)" for n using ipc_linksD(2) [OF I d, of n] that pc(2) by auto
    then have "chain (qlink s') (callq s d) (C d) \<longleftrightarrow> chain (qlink s) (callq s d) (C d)"
      by (intro chain_cong) (auto simp: s'(5))
    with ipc_linksD(1) [OF I d] C0 show "chain (qlink s') (callq s' d) (C d)" by (simp add: s'(6))
    show "set (C d) = {n. (n, d) \<in> sends s'}" using I d by (simp add: sends' ipc_links_def callers_def)
  qed
  moreover have "send_ok s'" using I by (simp add: ipc_links_def send_ok_def sends')
  moreover have "recv_ok s'"
    using I pc(2,3) s'(2-4) unfolding ipc_links_def recv_ok_def sends' s'(1) by metis
  ultimately show ?thesis by (simp add: ipc_links_def)
qed

text \<open>
  C35. \<^verbatim>\<open>do_fork\<close>: if nobody is queued at the parent (the child would get a copy of the queue head),
  the parent is not blocked in a send and nobody is blocked in a send to the free slot of the child,
  the invariants of scheduling and message passing are kept. The child is a copy of the
  parent that cannot run yet, returns 0 from its call, and shares the remaining quantum with the
  parent; the child of a system process gets the shared user privileges and waits for NO_PRIV.
\<close>

theorem do_fork_safe:
  fixes m :: message
  defines "pp \<equiv> sint (m_w1 m)" and "pc \<equiv> sint (m_w0 m)"
  assumes "ipc_inv s" "isokprocn pp" "isokprocn pc" "\<not> iskerneln pc" "has_priv s pp"
    and "\<not> isemptyp (procs s pp)" "isemptyp (procs s pc)"
    and "p_caller_q (procs s pp) = None" "\<not> sending s pp" "\<forall>n. (n, pc) \<notin> sends s"
    and "0 \<le> p_ticks_left (procs s pp)" "p_ticks_left (procs s pp) < 127"
  shows "\<exists>s'. do_fork m s = Some (OK, m, s') \<and> ipc_inv s' \<and>
    p_nr (procs s' pc) = pc \<and> NO_MAP \<in> p_rts_flags (procs s' pc) \<and>
    reg_retreg (p_reg (procs s' pc)) = 0 \<and> p_memmap (procs s' pc) = p_memmap (procs s pp) \<and>
    p_ticks_left (procs s' pc) + p_ticks_left (procs s' pp) = p_ticks_left (procs s pp) \<and>
    (SYS_PROC \<in> s_flags (priv_of s pp) \<longrightarrow>
      p_priv (procs s' pc) = USER_PRIV_ID \<and> NO_PRIV \<in> p_rts_flags (procs s' pc)) \<and>
    (\<forall>n. n \<noteq> pc \<longrightarrow> n \<noteq> pp \<longrightarrow> procs s' n = procs s n)"
proof -
  have ne: "pc \<noteq> pp" using assms(8,9) by auto
  define rpp where "rpp = procs s pp"
  define c1 where "c1 = rpp\<lparr>p_ldt_sel := p_ldt_sel (procs s pc), p_nr := pc\<rparr>"
  define c2 where "c2 = c1\<lparr>p_rts_flags := (p_rts_flags c1 \<union> {NO_MAP}) - {SIGNALED, SIG_PENDING, P_STOP},
    p_pending := 0, p_reg := (p_reg c1)\<lparr>reg_retreg := 0\<rparr>, p_user_time := 0, p_sys_time := 0,
    p_ticks_left := schar (cdiv (p_ticks_left c1 + 1) 2)\<rparr>"
  define s1 where "s1 = upd_proc pc (\<lambda>_. c2) s"
  define s2 where "s2 = upd_proc pp (\<lambda>p. p\<lparr>p_ticks_left := schar (cdiv (p_ticks_left p) 2)\<rparr>) s1"
  define s3 where "s3 = upd_proc pc (\<lambda>p. p\<lparr>p_priv := USER_PRIV_ID, p_rts_flags := p_rts_flags p \<union> {NO_PRIV}\<rparr>) s2"
  define s' where "s' = (if SYS_PROC \<in> s_flags (priv_of s2 pp) then s3 else s2)"
  from assms(3) obtain C where S: "sched_inv s" and I: "ipc_links s C" by (rule ipc_inv_links)
  have ex: "do_fork m s = Some (OK, m, s')"
    using assms(4,5,7-9)
    unfolding do_fork_def Let_def pp_def [symmetric] pc_def [symmetric] s'_def s3_def s2_def s1_def c2_def c1_def rpp_def
    by simp
  have po: "prio_ok (procs s pp)" using S assms(4) by (simp add: sched_inv_def on_ready_def sched_wf_def)
  then have po2: "prio_ok c2" by (simp add: prio_ok_def c2_def c1_def rpp_def)
  have S1: "sched_inv s1" unfolding s1_def
    by (rule sched_inv_upd_absent [OF S assms(5)])
      (use assms(6,9) po2 in \<open>auto simp: isemptyp_def c2_def c1_def\<close>)
  then have S2: "sched_inv s2" by (simp add: s2_def sched_inv_upd_proc sched_view_def)
  have "sched_inv s3" unfolding s3_def
    by (rule sched_inv_upd_absent [OF S2 assms(5)])
      (use assms(6) po2 ne in \<open>auto simp: s2_def s1_def c2_def c1_def prio_ok_def\<close>)
  with S2 have S': "sched_inv s'" by (simp add: s'_def)
  have npc: "\<not> sending s pc" using assms(9) by (simp add: sending_def isemptyp_def)
  have fl: "SENDING \<notin> p_rts_flags rpp" using assms(11) by (simp add: sending_def rpp_def)
  have "ipc_links s2 C" "ipc_links s3 C"
    by (rule ipc_links_fork [OF I assms(5) npc];
        use assms(10,12) ne npc fl in \<open>auto simp: s3_def s2_def s1_def view_defs c2_def c1_def rpp_def fun_eq_iff\<close>)+
  with S' have "ipc_inv s'" by (auto simp: ipc_inv_def s'_def)
  moreover have "p_ticks_left (procs s' pc) + p_ticks_left (procs s' pp) = p_ticks_left (procs s pp)"
    using assms(13,14) ne
    by (simp add: s'_def s3_def s2_def s1_def c2_def c1_def rpp_def)
  moreover have "priv_of s2 pp = priv_of s pp" using ne by (simp add: s2_def s1_def priv_of_def)
  ultimately show ?thesis using ex ne
    by (intro exI [of _ s']) (auto simp: s'_def s3_def s2_def s1_def c2_def c1_def rpp_def)
qed

theorem do_fork_safe_witness:
  "\<exists>s'. do_fork \<lparr>m_source = 0, m_type = 0x600, m_w0 = 10, m_w1 = 0, m_w2 = 0, m_w3 = 0, m_w4 = 0, m_w5 = 0,
      m_w6 = 0\<rparr> demo_state =
     Some (OK, \<lparr>m_source = 0, m_type = 0x600, m_w0 = 10, m_w1 = 0, m_w2 = 0, m_w3 = 0, m_w4 = 0, m_w5 = 0,
      m_w6 = 0\<rparr>, s') \<and>
     ipc_inv s' \<and> p_ticks_left (procs s' 10) + p_ticks_left (procs s' 0) = 8"
  using do_fork_safe [of demo_state "\<lparr>m_source = 0, m_type = 0x600, m_w0 = 10, m_w1 = 0, m_w2 = 0,
      m_w3 = 0, m_w4 = 0, m_w5 = 0, m_w6 = 0\<rparr>"] demo_ipc_inv demo_sends
  by (auto simp: isokprocn_def iskerneln_def has_priv_def isemptyp_def demo_proc_def sending_def)

subsection \<open>Priorities\<close>

lemma nice_queue_formula:
  "PRIO_MIN \<le> pri \<Longrightarrow> pri \<le> PRIO_MAX \<Longrightarrow> nice_queue pri = (pri + 20) * 15 div 41"
proof -
  assume p: "PRIO_MIN \<le> pri" "pri \<le> PRIO_MAX"
  then have "(pri * 15 + 300) div 41 \<le> 600 div 41" by (intro zdiv_mono1) simp_all
  moreover have "0 \<le> (pri * 15 + 300) div 41" using p by (subst pos_imp_zdiv_nonneg_iff) simp_all
  ultimately show ?thesis using p by (simp add: nice_queue_def Let_def)
qed

text \<open>
  \<^verbatim>\<open>do_nice\<close> on a user process returns and keeps the invariants: whether the process was ready
  or blocked, it is queued afterwards exactly if it can run. Its base priority becomes the queue that
  the nice value is scaled to, a user queue, and higher nice values never give better queues.
\<close>

theorem do_nice_requeues:
  fixes m :: message
  defines "n \<equiv> sint (m_w0 m)" and "pri \<equiv> sint (m_w1 m)"
  assumes "ipc_inv s" "isokprocn n" "\<not> iskerneln n" "PRIO_MIN \<le> pri" "pri \<le> PRIO_MAX"
  shows "\<exists>s'. do_nice m s = Some (OK, m, s') \<and> ipc_inv s' \<and>
    p_max_priority (procs s' n) = nice_queue pri \<and>
    MAX_USER_Q \<le> nice_queue pri \<and> nice_queue pri \<le> MIN_USER_Q \<and>
    (\<forall>q. pri \<le> q \<and> q \<le> PRIO_MAX \<longrightarrow> nice_queue pri \<le> nice_queue q) \<and>
    (\<forall>k. p_rts_flags (procs s' k) = p_rts_flags (procs s k))"
proof -
  note nq = nice_queue_formula [OF assms(6,7)]
  have lo: "0 \<le> nice_queue pri" "nice_queue pri \<le> 14" using assms(6,7) unfolding nq by auto
  have mono: "\<forall>q. pri \<le> q \<and> q \<le> PRIO_MAX \<longrightarrow> nice_queue pri \<le> nice_queue q"
    using assms(6) nq nice_queue_formula by (auto intro!: zdiv_mono1)
  define R where "R = {k. isokprocn k \<and> p_rts_flags (procs s k) = {}}"
  from assms(3) obtain C where S: "on_ready s R" and I: "ipc_links s C"
    by (rule ipc_inv_links) (simp add: sched_inv_def R_def)
  obtain s1 where s1: "dequeue n s = Some s1" "on_ready s1 (R - {n})" "sched_frame s s1"
    using dequeue_on_ready [OF S assms(4)] by blast
  define f where "f = (\<lambda>p :: proc. p\<lparr>p_priority := nice_queue pri, p_max_priority := nice_queue pri\<rparr>)"
  define s2 where "s2 = upd_proc n f s1"
  have nr: "p_nr (procs s1 n) = n" using s1(2) assms(4) by (simp add: on_ready_def sched_wf_def)
  have S2: "on_ready s2 (R - {n})" unfolding s2_def
    by (rule on_ready_upd_absent [OF s1(2)]) (use nr lo assms(5) in \<open>auto simp: f_def prio_ok_def\<close>)
  have fl: "p_rts_flags (procs s2 k) = p_rts_flags (procs s k)" for k
    by (simp add: s2_def f_def sched_frame_flags [OF s1(3)])
  have "same_ipc s1 s2" by (auto simp: s2_def same_ipc_def view_upd_proc f_def view_fold)
  with same_ipc_frame [OF s1(3)] have V2: "same_ipc s s2" by (rule same_ipc_trans)
  have mx: "p_max_priority (procs s2 n) = nice_queue pri" by (simp add: s2_def f_def)
  have f2: "p_rts_flags (procs s2 n) = p_rts_flags (f (procs s1 n))" by (simp add: s2_def)
  have ex: "do_nice m s = Some (OK, m, s')"
    if "(if p_rts_flags (procs s2 n) = {} then lock_enqueue n s2 else Some s2) = Some s'" for s'
    using assms(4-7) s1(1) that
    unfolding do_nice_def Let_def n_def [symmetric] pri_def [symmetric] lock_dequeue_def f_def [symmetric]
    by (simp add: s2_def [symmetric] f2 split: if_splits)
  show ?thesis
  proof (cases "p_rts_flags (procs s2 n) = {}")
    case True
    obtain s3 where s3: "enqueue n s2 = Some s3" "on_ready s3 (insert n (R - {n}))" "sched_frame s2 s3"
      using enqueue_on_ready [OF S2 assms(4)] by blast
    note fr = sched_frameD [OF s3(3)]
    have "insert n (R - {n}) = {k. isokprocn k \<and> p_rts_flags (procs s3 k) = {}}"
      using True assms(4) by (auto simp: R_def fr fl)
    with s3(2) have "sched_inv s3" by (simp add: sched_inv_def)
    moreover have "ipc_links s3 C"
      using I ipc_links_cong [OF same_ipc_trans [OF V2 same_ipc_frame [OF s3(3)]]] by simp
    ultimately show ?thesis using ex [of s3] s3(1) True mx lo mono
      by (intro exI [of _ s3]) (auto simp: lock_enqueue_def ipc_inv_def fr fl)
  next
    case False
    then have "R - {n} = {k. isokprocn k \<and> p_rts_flags (procs s2 k) = {}}" by (auto simp: R_def fl)
    with S2 have "sched_inv s2" by (simp add: sched_inv_def)
    moreover have "ipc_links s2 C" using I ipc_links_cong [OF V2] by simp
    ultimately show ?thesis using ex [of s2] False mx lo mono
      by (intro exI [of _ s2]) (auto simp: ipc_inv_def fl)
  qed
qed

theorem do_nice_requeues_witness:
  "\<exists>s'. do_nice \<lparr>m_source = 0, m_type = 0x603, m_w0 = 1, m_w1 = 10, m_w2 = 0, m_w3 = 0, m_w4 = 0, m_w5 = 0,
      m_w6 = 0\<rparr> demo_state =
     Some (OK, \<lparr>m_source = 0, m_type = 0x603, m_w0 = 1, m_w1 = 10, m_w2 = 0, m_w3 = 0, m_w4 = 0, m_w5 = 0,
      m_w6 = 0\<rparr>, s') \<and> p_max_priority (procs s' 1) = 10"
  using do_nice_requeues [of demo_state "\<lparr>m_source = 0, m_type = 0x603, m_w0 = 1, m_w1 = 10, m_w2 = 0,
      m_w3 = 0, m_w4 = 0, m_w5 = 0, m_w6 = 0\<rparr>"] demo_ipc_inv
  by (auto simp: isokprocn_def iskerneln_def nice_queue_def)

subsection \<open>Two faults\<close>

text \<open>
  \<^verbatim>\<open>do_times\<close> resolves \<^verbatim>\<open>SELF\<close> to the caller for its check, but then indexes the process table
  with the number of the message: a request for \<^verbatim>\<open>SELF\<close> reads far outside the table.
\<close>

theorem do_times_self_undefined:
  assumes "m_w0 m = word_of_int SELF" "isokprocn (m_source m)"
  shows "do_times m s = None"
  using assms by (simp add: do_times_def Let_def guard_def isokprocn_def)

theorem do_times_self_undefined_witness:
  "do_times \<lparr>m_source = 0, m_type = 0x619, m_w0 = 35534, m_w1 = 0, m_w2 = 0, m_w3 = 0, m_w4 = 0, m_w5 = 0,
     m_w6 = 0\<rparr> demo_state = None"
  using do_times_self_undefined [of "\<lparr>m_source = 0, m_type = 0x619, m_w0 = 35534, m_w1 = 0, m_w2 = 0, m_w3 = 0,
     m_w4 = 0, m_w5 = 0, m_w6 = 0\<rparr>" demo_state] by (simp add: isokprocn_def)

lemma get_priv_full:
  assumes "\<And>i. i < NR_SYS_PROCS \<Longrightarrow> s_proc_nr (privs s i) \<noteq> NONE \<or> s_id (privs s i) = USER_PRIV_ID"
  shows "get_priv rc True s = None"
proof -
  have "free_priv is s = None" if "set is \<subseteq> {..<NR_SYS_PROCS}" for "is"
    using that assms by (induction "is") auto
  moreover have "set [0..<NR_SYS_PROCS] \<subseteq> {..<NR_SYS_PROCS}" by (simp only: set_upt) auto
  ultimately have "free_priv [0..<NR_SYS_PROCS] s = None" .
  then show ?thesis unfolding get_priv_def by (simp only: if_True option.case)
qed

end
