(* ===== verification/Kernel_Signal.thy ===== *)
theory Kernel_Signal
  imports Kernel_Procs
begin

text \<open>
  Signals in the kernel: \<^verbatim>\<open>cause_sig\<close> (\<^verbatim>\<open>kernel/system.c\<close>) and the kernel calls \<^verbatim>\<open>do_kill\<close>,
  \<^verbatim>\<open>do_getksig\<close>, \<^verbatim>\<open>do_endksig\<close>, \<^verbatim>\<open>do_sigsend\<close>, \<^verbatim>\<open>do_sigreturn\<close>, and \<^verbatim>\<open>do_trace\<close>, which
  shares their view of the registers (\<^verbatim>\<open>kernel/system\<close>). The lemmas follow a kernel signal from the
  cause to the end of its processing, and show that returning from a handler restores the registers.
\<close>

subsection \<open>Model: structures in memory\<close>

fun store_words :: "u32 \<Rightarrow> u32 list \<Rightarrow> memory \<Rightarrow> memory" where
  "store_words a [] m = m"
| "store_words a (w # ws) m = store32 a w (store_words (a + 4) ws m)"

definition load_words :: "nat \<Rightarrow> u32 \<Rightarrow> memory \<Rightarrow> u32 list" where
  "load_words n a m = map (\<lambda>i. load32 (a + 4 * of_nat i) m) [0..<n]"

text \<open>
  The 16 words of a \<^verbatim>\<open>struct stackframe_s\<close>, which \<^verbatim>\<open>struct sigregs\<close> repeats; the first four registers
  have 16 bits.
\<close>

definition frame_words :: "stackframe \<Rightarrow> u32 list" where
  "frame_words r =
     [ucast (reg_gs r) OR push_bit 16 (ucast (reg_fs r)), ucast (reg_es r) OR push_bit 16 (ucast (reg_ds r)),
      reg_di r, reg_si r, reg_fp r, reg_st r, reg_bx r, reg_dx r, reg_cx r, reg_retreg r, reg_retadr r,
      reg_pc r, reg_cs r, reg_psw r, reg_sp r, reg_ss r]"

definition frame_of :: "u32 list \<Rightarrow> stackframe" where
  "frame_of ws = \<lparr>reg_gs = ucast (ws ! 0), reg_fs = ucast (drop_bit 16 (ws ! 0)), reg_es = ucast (ws ! 1),
     reg_ds = ucast (drop_bit 16 (ws ! 1)), reg_di = ws ! 2, reg_si = ws ! 3, reg_fp = ws ! 4,
     reg_st = ws ! 5, reg_bx = ws ! 6, reg_dx = ws ! 7, reg_cx = ws ! 8, reg_retreg = ws ! 9,
     reg_retadr = ws ! 10, reg_pc = ws ! 11, reg_cs = ws ! 12, reg_psw = ws ! 13, reg_sp = ws ! 14,
     reg_ss = ws ! 15\<rparr>"

subsection \<open>Model: kernel signals\<close>

definition cause_sig :: "int \<Rightarrow> int \<Rightarrow> kstate \<Rightarrow> kstate option" where
  "cause_sig n sig s = do {
     guard (isokprocn n);
     if sigismember (p_pending (procs s n)) sig \<noteq> 0 then Some s
     else do {
       let s1 = upd_proc n (p_pending_update (sigaddset sig)) s;
       if SIGNALED \<in> p_rts_flags (procs s1 n) then Some s1
       else do {
         s2 \<leftarrow> rts_set {SIGNALED, SIG_PENDING} n s1;
         send_sig PM_PROC_NR SIGKSIG s2
       }
     }
   }"

definition do_kill :: kcall where
  "do_kill m s = do {
     let n = sint (m_w0 m);
     let sig = sint (m_w1 m);
     if \<not> isokprocn n \<or> sig > NSIG then Some (EINVAL, m, s)
     else if iskerneln n then Some (EPERM, m, s)
     else if m_source m = PM_PROC_NR then do {
       guard (has_priv s n);
       if SYS_PROC \<notin> s_flags (priv_of s n) then Some (EPERM, m, s)
       else do {
         s1 \<leftarrow> send_sig n sig s;
         Some (OK, m, s1)
       }
     }
     else do {
       s1 \<leftarrow> cause_sig n sig s;
       Some (OK, m, s1)
     }
   }"

text \<open>The search for a process with pending signals, over the user slots.\<close>

fun find_signaled :: "int list \<Rightarrow> kstate \<Rightarrow> int option" where
  "find_signaled [] s = None"
| "find_signaled (n # ns) s = (if SIGNALED \<in> p_rts_flags (procs s n) then Some n else find_signaled ns s)"

definition user_nrs :: "int list" where
  "user_nrs = [0..NR_PROCS - 1]"

definition do_getksig :: kcall where
  "do_getksig m s =
     (case find_signaled user_nrs s of
        Some n \<Rightarrow>
          Some (OK, m\<lparr>m_w0 := word_of_int (p_nr (procs s n)), m_w3 := p_pending (procs s n)\<rparr>,
            upd_proc n (\<lambda>p. p\<lparr>p_pending := 0, p_rts_flags := p_rts_flags p - {SIGNALED}\<rparr>) s)
      | None \<Rightarrow> Some (OK, m\<lparr>m_w0 := word_of_int NONE\<rparr>, s))"

definition do_endksig :: kcall where
  "do_endksig m s = do {
     let n = sint (m_w0 m);
     guard (isokprocn n);
     if SIG_PENDING \<notin> p_rts_flags (procs s n) then Some (EINVAL, m, s)
     else if SIGNALED \<notin> p_rts_flags (procs s n) then do {
       s1 \<leftarrow> rts_unset {SIG_PENDING} n s;
       Some (OK, m, s1)
     }
     else Some (OK, m, s)
   }"

subsection \<open>Model: POSIX signals\<close>

abbreviation (input) SC_SIGCONTEXT :: u32 where "SC_SIGCONTEXT \<equiv> 2"
abbreviation (input) SC_NOREGLOCALS :: u32 where "SC_NOREGLOCALS \<equiv> 4"

text \<open>
  \<^verbatim>\<open>struct sigmsg\<close> has 5 words (signal, mask, handler, \<^verbatim>\<open>sigreturn\<close>, stack pointer),
  \<^verbatim>\<open>struct sigcontext\<close> 18 (flags, mask, registers), \<^verbatim>\<open>struct sigframe\<close> 7.
\<close>

definition do_sigsend :: kcall where
  "do_sigsend m s = do {
     let n = sint (m_w0 m);
     if \<not> isokprocn n then Some (EINVAL, m, s)
     else if iskerneln n then Some (EPERM, m, s)
     else do {
       let src_phys = umap_local (procs s PM_PROC_NR) SEG_D (m_w5 m) 20;
       if src_phys = 0 then Some (EFAULT, m, s)
       else do {
         let smsg = load_words 5 src_phys (k_mem s);
         let scp = smsg ! 4 - 72;
         let regs = p_reg (procs s n);
         let sc = [SC_SIGCONTEXT, smsg ! 1] @ frame_words regs;
         let dst = umap_local (procs s n) SEG_D scp 72;
         if dst = 0 then Some (EFAULT, m, s)
         else do {
           let s1 = s\<lparr>k_mem := store_words dst sc (k_mem s)\<rparr>;
           let frp = scp - 28;
           let s2 = upd_proc n (\<lambda>p. p\<lparr>p_reg := (p_reg p)\<lparr>reg_fp := frp + 16\<rparr>\<rparr>) s1;
           let fr = [smsg ! 3, smsg ! 0, 0, scp, reg_fp regs, reg_pc regs, scp];
           let dst2 = umap_local (procs s2 n) SEG_D frp 28;
           if dst2 = 0 then Some (EFAULT, m, s2)
           else do {
             let s3 = s2\<lparr>k_mem := store_words dst2 fr (k_mem s2)\<rparr>;
             Some (OK, m, upd_proc n (\<lambda>p. p\<lparr>p_reg := (p_reg p)\<lparr>reg_sp := frp, reg_pc := smsg ! 2\<rparr>\<rparr>) s3)
           }
         }
       }
     }
   }"

definition do_sigreturn :: kcall where
  "do_sigreturn m s = do {
     let n = sint (m_w0 m);
     if \<not> isokprocn n then Some (EINVAL, m, s)
     else if iskerneln n then Some (EPERM, m, s)
     else do {
       let src_phys = umap_local (procs s n) SEG_D (m_w5 m) 72;
       if src_phys = 0 then Some (EFAULT, m, s)
       else do {
         let sc = load_words 18 src_phys (k_mem s);
         let flags = sc ! 0;
         let regs = frame_of (drop 2 sc);
         let cur = p_reg (procs s n);
         if flags AND SC_SIGCONTEXT = 0 then Some (EINVAL, m, s)
         else if flags AND SC_NOREGLOCALS \<noteq> 0 then
           Some (OK, m, upd_proc n (\<lambda>p. p\<lparr>p_reg := cur\<lparr>reg_retreg := reg_retreg regs, reg_fp := reg_fp regs,
             reg_pc := reg_pc regs, reg_sp := reg_sp regs\<rparr>\<rparr>) s)
         else
           Some (OK, m, upd_proc n (\<lambda>p. p\<lparr>p_reg := regs\<lparr>reg_psw := reg_psw cur, reg_cs := reg_cs cur,
             reg_ds := reg_ds cur, reg_es := reg_es cur, reg_fs := reg_fs cur, reg_gs := reg_gs cur\<rparr>\<rparr>) s)
       }
     }
   }"

subsection \<open>Model: tracing\<close>

text \<open>
  What the compiler decides about \<^verbatim>\<open>struct proc\<close>: its size, and the word at each offset of a given
  process structure. It is a parameter of \<^verbatim>\<open>do_trace\<close>, used by T_GETUSER only.
\<close>

record proc_layout =
  pl_size :: u32
  pl_word :: "kstate \<Rightarrow> int \<Rightarrow> u32 \<Rightarrow> u32"

abbreviation (input) T_STOP :: int where "T_STOP \<equiv> - 1"
abbreviation (input) T_GETINS :: int where "T_GETINS \<equiv> 1"
abbreviation (input) T_GETDATA :: int where "T_GETDATA \<equiv> 2"
abbreviation (input) T_GETUSER :: int where "T_GETUSER \<equiv> 3"
abbreviation (input) T_SETINS :: int where "T_SETINS \<equiv> 4"
abbreviation (input) T_SETDATA :: int where "T_SETDATA \<equiv> 5"
abbreviation (input) T_SETUSER :: int where "T_SETUSER \<equiv> 6"
abbreviation (input) T_RESUME :: int where "T_RESUME \<equiv> 7"
abbreviation (input) T_STEP :: int where "T_STEP \<equiv> 9"
abbreviation (input) TRACEBIT :: u32 where "TRACEBIT \<equiv> 0x100"
abbreviation (input) PSW_USER_BITS :: u32 where "PSW_USER_BITS \<equiv> 0xCD5"

text \<open>\<^verbatim>\<open>*(reg_t *) ((char *) &rp->p_reg + i) = v\<close> for the offset of a 32-bit register.\<close>

definition set_reg :: "nat \<Rightarrow> u32 \<Rightarrow> stackframe \<Rightarrow> stackframe" where
  "set_reg i v r = frame_of ((frame_words r)[i div 4 := v])"

definition do_trace :: "proc_layout \<Rightarrow> kcall" where
  "do_trace lay m s = do {
     let tr_addr = m_w3 m;
     let tr_data = m_w4 m;
     let req = sint (m_w1 m);
     let n = sint (m_w0 m);
     if \<not> isokprocn n then Some (EINVAL, m, s)
     else if iskerneln n then Some (EPERM, m, s)
     else if isemptyp (procs s n) then Some (EIO, m, s)
     else do {
       let seg = (if (req = T_GETINS \<or> req = T_SETINS) \<and> mem_len (p_memmap (procs s n) SEG_T) \<noteq> 0
                  then SEG_T else SEG_D);
       let psw = (\<lambda>f p. p\<lparr>p_reg := (p_reg p)\<lparr>reg_psw := f (reg_psw (p_reg p))\<rparr>\<rparr>);
       if req = T_STOP then do {
         s1 \<leftarrow> rts_set {P_STOP} n s;
         Some (OK, m, upd_proc n (psw (\<lambda>w. w AND NOT TRACEBIT)) s1)
       }
       else if req = T_GETINS \<or> req = T_GETDATA then
         (let src = umap_local (procs s n) seg tr_addr 4 in
          if src = 0 then Some (EIO, m, s) else Some (OK, m\<lparr>m_w4 := load32 src (k_mem s)\<rparr>, s))
       else if req = T_GETUSER then
         (if tr_addr AND 3 \<noteq> 0 \<or> tr_addr > pl_size lay - 4 then Some (EIO, m, s)
          else Some (OK, m\<lparr>m_w4 := pl_word lay s n tr_addr\<rparr>, s))
       else if req = T_SETINS \<or> req = T_SETDATA then
         (let dst = umap_local (procs s n) seg tr_addr 4 in
          if dst = 0 then Some (EIO, m, s)
          else Some (OK, m\<lparr>m_w4 := 0\<rparr>, s\<lparr>k_mem := store32 dst tr_data (k_mem s)\<rparr>))
       else if req = T_SETUSER then
         (if tr_addr AND 3 \<noteq> 0 \<or> tr_addr > 64 - 4 then Some (EIO, m, s)
          else
            (let i = unat tr_addr in
             if i \<in> {48, 6, 4, 0, 2, 60} then Some (EIO, m, s)
             else if i = 52 then
               Some (OK, m\<lparr>m_w4 := 0\<rparr>,
                 upd_proc n (psw (\<lambda>w. w AND NOT PSW_USER_BITS OR tr_data AND PSW_USER_BITS)) s)
             else Some (OK, m\<lparr>m_w4 := 0\<rparr>, upd_proc n (\<lambda>p. p\<lparr>p_reg := set_reg i tr_data (p_reg p)\<rparr>) s)))
       else if req = T_RESUME then do {
         s1 \<leftarrow> rts_unset {P_STOP} n s;
         Some (OK, m\<lparr>m_w4 := 0\<rparr>, s1)
       }
       else if req = T_STEP then do {
         s1 \<leftarrow> rts_unset {P_STOP} n (upd_proc n (psw (\<lambda>w. w OR TRACEBIT)) s);
         Some (OK, m\<lparr>m_w4 := 0\<rparr>, s1)
       }
       else Some (EIO, m, s)
     }
   }"

subsection \<open>Structures survive a trip through memory\<close>

lemma frame_of_words: "frame_of (frame_words r) = r"
proof -
  have lo: "ucast (ucast a OR push_bit 16 (ucast b) :: u32) = a" for a b :: u16
    by (rule bit_word_eqI) (auto simp: bit_simps)
  have hi: "ucast (drop_bit 16 (ucast a OR push_bit 16 (ucast b) :: u32)) = b" for a b :: u16
    by (rule bit_word_eqI) (auto simp: bit_simps dest: bit_imp_le_length)
  show ?thesis by (simp add: frame_of_def frame_words_def lo hi del: drop_bit_or)
qed

lemma length_frame_words [simp]: "length (frame_words r) = 16"
  by (simp add: frame_words_def)

lemma store32_outside:
  assumes "unat (x - a) \<ge> 4"
  shows "store32 a w m x = m x"
proof -
  have "x \<noteq> a + k" if "unat k < 4" for k using assms that by auto
  from this [of 0] this [of 1] this [of 2] this [of 3] show ?thesis by (simp add: store32_def)
qed

lemma store_words_outside:
  "unat (x - a) \<ge> 4 * length ws \<Longrightarrow> 4 * length ws < 2 ^ 32 \<Longrightarrow> store_words a ws m x = m x"
proof (induction ws arbitrary: a)
  case (Cons w ws)
  have d: "x - (a + 4) = (x - a) - 4" by simp
  have "unat ((x - a) - 4) = unat (x - a) - 4"
    using Cons.prems(1) by (subst unat_sub) (simp_all add: word_le_nat_alt)
  with Cons.prems have "store_words (a + 4) ws m x = m x" by (intro Cons.IH) (simp_all add: d)
  moreover have "store32 a w (store_words (a + 4) ws m) x = store_words (a + 4) ws m x"
    using Cons.prems(1) by (intro store32_outside) simp
  ultimately show ?case by simp
qed simp

lemma load32_cong:
  assumes "\<And>i. i < 4 \<Longrightarrow> m' (a + of_nat i) = m (a + of_nat i)"
  shows "load32 a m' = load32 a m"
  using assms [of 0] assms [of 1] assms [of 2] assms [of 3] by (simp add: load32_def)

lemma load_words_cong:
  assumes "\<And>i. i < 4 * n \<Longrightarrow> m' (a + of_nat i) = m (a + of_nat i)"
  shows "load_words n a m' = load_words n a m"
proof -
  have "load32 (a + 4 * of_nat i) m' = load32 (a + 4 * of_nat i) m" if "i < n" for i
  proof (rule load32_cong)
    fix j :: nat assume "j < 4"
    with that have "4 * i + j < 4 * n" by linarith
    from assms [OF this] show "m' (a + 4 * of_nat i + of_nat j) = m (a + 4 * of_nat i + of_nat j)"
      by (simp add: add.assoc)
  qed
  then show ?thesis by (simp add: load_words_def)
qed

lemma load_store_words:
  "4 * length ws < 2 ^ 32 \<Longrightarrow> load_words (length ws) a (store_words a ws m) = ws"
proof (induction ws arbitrary: a)
  case Nil
  then show ?case by (simp add: load_words_def)
next
  case (Cons w ws)
  have sh: "load_words (Suc n) b m' = load32 b m' # load_words n (b + 4) m'" for n b m'
    unfolding load_words_def upt_conv_Cons [OF zero_less_Suc] map_Suc_upt [symmetric]
    by (simp add: algebra_simps)
  have "load_words (length ws) (a + 4) (store32 a w (store_words (a + 4) ws m)) =
      load_words (length ws) (a + 4) (store_words (a + 4) ws m)"
  proof (rule load_words_cong)
    fix i assume i: "i < 4 * length ws"
    have "unat (a + 4 + of_nat i - a) \<ge> 4"
      using i Cons.prems by (simp add: unat_word_ariths unat_of_nat)
    then show "store32 a w (store_words (a + 4) ws m) (a + 4 + of_nat i) =
        store_words (a + 4) ws m (a + 4 + of_nat i)"
      by (rule store32_outside)
  qed
  with Cons show ?case by (simp add: sh)
qed

lemma umap_local_cong: "p_memmap p' = p_memmap p \<Longrightarrow> umap_local p' seg v k = umap_local p seg v k"
  by (simp add: umap_local_def local_seg_def Let_def)

text \<open>What a successful \<^verbatim>\<open>do_sigsend\<close> has done.\<close>

lemma do_sigsend_cases:
  fixes m :: message
  defines "n \<equiv> sint (m_w0 m)"
  assumes send: "do_sigsend m s = Some (OK, m1, s1)"
  obtains scp dst dst2 mask fr where "isokprocn n" "\<not> iskerneln n"
    "umap_local (procs s n) SEG_D scp 72 = dst" "dst \<noteq> 0"
    "umap_local (procs s n) SEG_D (scp - 28) 28 = dst2" "length fr = 7"
    "k_mem s1 = store_words dst2 fr (store_words dst ([SC_SIGCONTEXT, mask] @ frame_words (p_reg (procs s n))) (k_mem s))"
    "reg_sp (p_reg (procs s1 n)) = scp - 28" "dst2 \<noteq> 0"
proof -
  define smsg where "smsg = load_words 5 (umap_local (procs s PM_PROC_NR) SEG_D (m_w5 m) 20) (k_mem s)"
  define scp where "scp = smsg ! 4 - 72"
  define fr where "fr = [smsg ! 3, smsg ! 0, 0, scp, reg_fp (p_reg (procs s n)), reg_pc (p_reg (procs s n)), scp]"
  define dst where "dst = umap_local (procs s n) SEG_D scp 72"
  define s2 where "s2 = upd_proc n (\<lambda>p. p\<lparr>p_reg := (p_reg p)\<lparr>reg_fp := scp - 28 + 16\<rparr>\<rparr>)
    (s\<lparr>k_mem := store_words dst ([SC_SIGCONTEXT, smsg ! 1] @ frame_words (p_reg (procs s n))) (k_mem s)\<rparr>)"
  have u2: "umap_local (procs s2 n) SEG_D (scp - 28) 28 = umap_local (procs s n) SEG_D (scp - 28) 28"
    by (rule umap_local_cong) (simp add: s2_def)
  note def = do_sigsend_def [of m s, unfolded Let_def, folded n_def, folded smsg_def, folded scp_def,
      folded fr_def dst_def, folded s2_def, unfolded u2]
  from send have "isokprocn n" "\<not> iskerneln n" "dst \<noteq> 0"
    "umap_local (procs s n) SEG_D (scp - 28) 28 \<noteq> 0"
    and s1: "s1 = upd_proc n (\<lambda>p. p\<lparr>p_reg := (p_reg p)\<lparr>reg_sp := scp - 28, reg_pc := smsg ! 2\<rparr>\<rparr>)
      (s2\<lparr>k_mem := store_words (umap_local (procs s n) SEG_D (scp - 28) 28) fr (k_mem s2)\<rparr>)"
    unfolding def by (simp_all split: if_splits)
  then show thesis
    by (intro that [of scp dst "umap_local (procs s n) SEG_D (scp - 28) 28" fr "smsg ! 1"])
      (simp_all add: dst_def fr_def s2_def)
qed

text \<open>
  C36. Signal delivery and return round trip: after \<^verbatim>\<open>do_sigsend\<close> has pushed a signal
  context on the stack of a process, \<^verbatim>\<open>do_sigreturn\<close> on that context, at any later time at which its
  72 bytes are still what was pushed and the memory map is the same, gives back every register the
  process had, except the status word and the segment registers protected by the kernel, which stay
  as they are.
\<close>

theorem sigsend_sigreturn:
  fixes m m' :: message
  defines "n \<equiv> sint (m_w0 m)"
  assumes send: "do_sigsend m s = Some (OK, m1, s1)"
    and lay: "data_layout (procs s n)"
    and later: "p_memmap (procs t n) = p_memmap (procs s n)"
      "sint (m_w0 m') = n" "m_w5 m' = reg_sp (p_reg (procs s1 n)) + 28"
      "\<forall>i < 72. k_mem t (block_base (procs s n) + m_w5 m' + of_nat i) =
         k_mem s1 (block_base (procs s n) + m_w5 m' + of_nat i)"
  shows "\<exists>t'. do_sigreturn m' t = Some (OK, m', t') \<and>
    p_reg (procs t' n) = (let cur = p_reg (procs t n) in (p_reg (procs s n))\<lparr>reg_psw := reg_psw cur,
      reg_cs := reg_cs cur, reg_ds := reg_ds cur, reg_es := reg_es cur, reg_fs := reg_fs cur,
      reg_gs := reg_gs cur\<rparr>)"
proof -
  obtain scp dst dst2 mask fr where c: "isokprocn n" "\<not> iskerneln n"
    "umap_local (procs s n) SEG_D scp 72 = dst" "dst \<noteq> 0"
    "umap_local (procs s n) SEG_D (scp - 28) 28 = dst2" "length fr = 7"
    "k_mem s1 = store_words dst2 fr (store_words dst ([SC_SIGCONTEXT, mask] @ frame_words (p_reg (procs s n))) (k_mem s))"
    "reg_sp (p_reg (procs s1 n)) = scp - 28" "dst2 \<noteq> 0"
    using do_sigsend_cases [OF send] unfolding n_def by metis
  define sc where "sc = [SC_SIGCONTEXT, mask] @ frame_words (p_reg (procs s n))"
  have D: "SEG_D \<noteq> SEG_T" by simp
  have dst: "dst = block_base (procs s n) + scp"
    using c(3,4) umap_local_layout [OF lay D, of scp 72] by (auto simp: block_base_def split: if_splits)
  have dst2: "dst2 = block_base (procs s n) + (scp - 28)"
    using c(5,9) umap_local_layout [OF lay D, of "scp - 28" 28] by (auto simp: block_base_def split: if_splits)
  have ctx: "m_w5 m' = scp" by (simp add: later(3) c(8))
  have "load_words 18 dst (k_mem t) = load_words 18 dst (k_mem s1)"
    using later(4) unfolding ctx dst [symmetric] by (intro load_words_cong) simp
  also have "\<dots> = load_words 18 dst (store_words dst sc (k_mem s))"
  proof (rule load_words_cong)
    fix i :: nat assume i: "i < 4 * 18"
    have "dst + of_nat i - dst2 = 28 + of_nat i" by (simp add: dst dst2)
    moreover have "unat (28 + of_nat i :: u32) = 28 + i" using i by (simp add: unat_word_ariths unat_of_nat)
    ultimately have "28 \<le> unat (dst + of_nat i - dst2)" by (simp only:)
    then show "k_mem s1 (dst + of_nat i) = store_words dst sc (k_mem s) (dst + of_nat i)"
      unfolding c(7) sc_def using c(6) by (intro store_words_outside) simp_all
  qed
  also have "\<dots> = sc" using load_store_words [of sc dst] by (simp add: sc_def)
  finally have ld: "load_words 18 dst (k_mem t) = sc" .
  have um: "umap_local (procs t n) SEG_D (m_w5 m') 72 = dst"
    using umap_local_cong [OF later(1)] c(3) ctx by simp
  show ?thesis
    unfolding do_sigreturn_def Let_def later(2) um ld
    using c(1,2,4) by (simp add: sc_def frame_of_words)
qed

definition demo_sig :: kstate where
  "demo_sig = demo_copy\<lparr>k_mem := store_words 0x2100 [5, 0, 0x10, 0x20, 0x1400] (\<lambda>_. 0)\<rparr>"

definition demo_sig_msg :: message where
  "demo_sig_msg = \<lparr>m_source = 0, m_type = 0x609, m_w0 = 0, m_w1 = 0, m_w2 = 0, m_w3 = 0, m_w4 = 0,
     m_w5 = 0x100, m_w6 = 0\<rparr>"

lemma demo_sigsend: "\<exists>s1. do_sigsend demo_sig_msg demo_sig = Some (OK, demo_sig_msg, s1) \<and>
  reg_sp (p_reg (procs s1 0)) = 0x139C \<and> p_memmap (procs s1 0) = p_memmap demo_map_proc"
proof -
  have p: "procs demo_sig 0 = demo_map_proc" by (simp add: demo_sig_def demo_copy_def)
  define L :: "u32 list" where "L = [5, 0, 0x10, 0x20, 0x1400]"
  have "length L = 5" by (simp add: L_def)
  moreover have "load_words (length L) 0x2100 (store_words 0x2100 L (\<lambda>_. 0)) = L"
    by (rule load_store_words) (simp add: L_def)
  ultimately have ld: "load_words 5 0x2100 (k_mem demo_sig) = [5, 0, 0x10, 0x20, 0x1400]"
    by (simp add: demo_sig_def L_def [symmetric])
  have u: "umap_local demo_map_proc SEG_D 0x100 20 = 0x2100" "umap_local demo_map_proc SEG_D 0x13B8 72 = 0x33B8"
    "umap_local demo_map_proc SEG_D 0x139C 28 = 0x339C"
    by (simp_all add: umap_local_layout [OF demo_map_layout]) (simp_all add: demo_map_proc_def)
  have c: "umap_local (demo_map_proc\<lparr>p_reg := r\<rparr>) sg v k = umap_local demo_map_proc sg v k" for r sg v k
    by (rule umap_local_cong) simp
  show ?thesis
    unfolding do_sigsend_def Let_def
    by (simp add: demo_sig_msg_def p u [unfolded One_nat_def] ld c isokprocn_def iskerneln_def del: store_words.simps)
qed

theorem sigsend_sigreturn_witness:
  "\<exists>s1 t'. do_sigsend demo_sig_msg demo_sig = Some (OK, demo_sig_msg, s1) \<and>
     do_sigreturn (demo_sig_msg\<lparr>m_w5 := 0x13B8\<rparr>) s1 = Some (OK, demo_sig_msg\<lparr>m_w5 := 0x13B8\<rparr>, t') \<and>
     reg_pc (p_reg (procs t' 0)) = reg_pc (p_reg (procs demo_sig 0))"
proof -
  obtain s1 where s1: "do_sigsend demo_sig_msg demo_sig = Some (OK, demo_sig_msg, s1)"
    "reg_sp (p_reg (procs s1 0)) = 0x139C" "p_memmap (procs s1 0) = p_memmap demo_map_proc"
    using demo_sigsend by blast
  have p: "procs demo_sig 0 = demo_map_proc" by (simp add: demo_sig_def demo_copy_def)
  have n: "sint (m_w0 demo_sig_msg) = 0" by (simp add: demo_sig_msg_def)
  from sigsend_sigreturn [OF s1(1), unfolded n p, OF demo_map_layout s1(3), of "demo_sig_msg\<lparr>m_w5 := 0x13B8\<rparr>"]
  obtain t' where "do_sigreturn (demo_sig_msg\<lparr>m_w5 := 0x13B8\<rparr>) s1 = Some (OK, demo_sig_msg\<lparr>m_w5 := 0x13B8\<rparr>, t')"
    "reg_pc (p_reg (procs t' 0)) = reg_pc (p_reg demo_map_proc)"
    by (auto simp: n s1(2) Let_def)
  with s1(1) p show ?thesis by auto
qed

subsection \<open>The life of a kernel signal\<close>

text \<open>Flags other than SENDING and RECEIVING do not concern message passing.\<close>

lemma rts_set_ipc_inv:
  assumes "ipc_inv s" "isokprocn n" "F \<noteq> {}" "SENDING \<notin> F" "RECEIVING \<notin> F"
  obtains s' where "rts_set F n s = Some s'" "ipc_inv s'"
    "\<And>k. p_rts_flags (procs s' k) = (if k = n then p_rts_flags (procs s k) \<union> F else p_rts_flags (procs s k))"
    "\<And>k. p_pending (procs s' k) = p_pending (procs s k)" "\<And>k. p_priv (procs s' k) = p_priv (procs s k)"
    "\<And>k. p_getfrom (procs s' k) = p_getfrom (procs s k)" "\<And>k. p_messbuf (procs s' k) = p_messbuf (procs s k)"
    "\<And>k. p_memmap (procs s' k) = p_memmap (procs s k)" "privs s' = privs s" "k_mess_buf s' = k_mess_buf s"
proof -
  from assms(1) obtain C where S: "sched_inv s" and I: "ipc_links s C" by (rule ipc_inv_links)
  obtain s1 where s1: "rts_set F n s = Some (upd_proc n (p_rts_flags_update (\<lambda>f. f \<union> F)) s1)"
    "sched_frame s s1" "sched_inv (upd_proc n (p_rts_flags_update (\<lambda>f. f \<union> F)) s1)"
    by (rule rts_set_inv [OF S assms(2,3)]) blast
  note fr = sched_frameD [OF s1(2)]
  define s' where "s' = upd_proc n (p_rts_flags_update (\<lambda>f. f \<union> F)) s1"
  have "same_ipc s s'" using assms(4,5) unfolding s'_def
    by (intro same_ipc_trans [OF same_ipc_frame [OF s1(2)]]) (auto simp: same_ipc_def view_upd_proc view_fold)
  then have "ipc_links s' C" using I ipc_links_cong by simp
  with s1(3) have "ipc_inv s'" unfolding ipc_inv_def s'_def [symmetric] by blast
  with s1(1) show thesis by (intro that [of s']) (simp_all add: s'_def fr)
qed

lemma rts_unset_ipc_inv:
  assumes "ipc_inv s" "isokprocn n" "p_rts_flags (procs s n) \<noteq> {}" "SENDING \<notin> F" "RECEIVING \<notin> F"
  obtains s' where "rts_unset F n s = Some s'" "ipc_inv s'"
    "\<And>k. p_rts_flags (procs s' k) = (if k = n then p_rts_flags (procs s k) - F else p_rts_flags (procs s k))"
    "\<And>k. p_pending (procs s' k) = p_pending (procs s k)"
proof -
  from assms(1) obtain C where S: "sched_inv s" and I: "ipc_links s C" by (rule ipc_inv_links)
  define s1 where "s1 = upd_proc n (p_rts_flags_update (\<lambda>f. f - F)) s"
  obtain s' where s': "rts_unset F n s = Some s'" "sched_inv s'" "sched_frame s1 s'"
    unfolding s1_def by (rule rts_unset_inv [OF S assms(2,3)]) blast
  note fr = sched_frameD [OF s'(3)]
  have "same_ipc s s1" using assms(4,5) by (auto simp: s1_def same_ipc_def view_upd_proc view_fold)
  from same_ipc_trans [OF this same_ipc_frame [OF s'(3)]] have "ipc_links s' C" using I ipc_links_cong by simp
  with s'(1,2) show thesis by (intro that [of s']) (auto simp: s1_def fr ipc_inv_def)
qed

text \<open>A notification can only wake its destination.\<close>

lemma mini_notify_flags:
  assumes "mini_notify a b s = Some (r, s')"
  shows "p_rts_flags (procs s' k) \<subseteq> p_rts_flags (procs s k)"
proof (cases "waiting_for s b (p_nr (procs s a)) \<and> SENDREC_BUSY \<notin> s_flags (priv_of s b)")
  case True
  with assms have "rts_unset {RECEIVING} b (CopyMess (p_nr (procs s a)) HARDWARE (k_mess_buf s) b
      (p_messbuf (procs s b)) (BuildMess (p_nr (procs s a)) b s)) = Some s'"
    by (auto simp: mini_notify_def Let_def)
  from sched_frame_flags [OF rts_unset_frame [OF this], of k] show ?thesis by auto
next
  case False
  with assms show ?thesis by (auto simp: mini_notify_def Let_def)
qed

lemma send_sig_flags:
  "send_sig a b s = Some s' \<Longrightarrow> p_rts_flags (procs s' k) \<subseteq> p_rts_flags (procs s k)"
  by (auto simp: send_sig_def lock_notify_def dest!: mini_notify_flags [where k = k])

lemma find_signaled_unique:
  "n \<in> set ns \<Longrightarrow> (\<And>k. k \<in> set ns \<Longrightarrow> SIGNALED \<in> p_rts_flags (procs s k) \<longleftrightarrow> k = n) \<Longrightarrow>
   find_signaled ns s = Some n"
  by (induction ns) auto

text \<open>
  C37. The life of a kernel signal, for a process other than the process manager and while no
  other signal is being handled: \<^verbatim>\<open>cause_sig\<close> stops the process, marks the signal pending and lets the
  process manager know with SIGKSIG (a notification from SYSTEM is delivered to it or pending, see
  \<open>sig_sent\<close>), \<^verbatim>\<open>do_getksig\<close> hands exactly that signal to the process manager and forgets it while the
  process stays stopped, and \<^verbatim>\<open>do_endksig\<close> gives the process back the run-time flags it had. Each
  step keeps the invariants of scheduling and message passing.
\<close>

theorem kernel_signal_cycle:
  assumes "ipc_inv s" "isokprocn n" "0 < n" "sigisvalid sig" "p_pending (procs s n) = 0"
    and none: "\<forall>k. isokprocn k \<longrightarrow> SIGNALED \<notin> p_rts_flags (procs s k)" "SIG_PENDING \<notin> p_rts_flags (procs s n)"
    and "has_priv s PM_PROC_NR" "has_priv s SYSTEM"
  shows "\<exists>s1 m1 s2 s3. cause_sig n sig s = Some s1 \<and> ipc_inv s1 \<and>
    p_rts_flags (procs s1 n) = p_rts_flags (procs s n) \<union> {SIGNALED, SIG_PENDING} \<and>
    p_pending (procs s1 n) = set_bit (nat sig) 0 \<and> sig_sent PM_PROC_NR SIGKSIG s s1 \<and>
    do_getksig m s1 = Some (OK, m1, s2) \<and> ipc_inv s2 \<and>
    sint (m_w0 m1) = n \<and> m_w3 m1 = set_bit (nat sig) 0 \<and> p_pending (procs s2 n) = 0 \<and>
    p_rts_flags (procs s2 n) = p_rts_flags (procs s n) \<union> {SIG_PENDING} \<and>
    do_endksig m1 s2 = Some (OK, m1, s3) \<and> ipc_inv s3 \<and>
    p_rts_flags (procs s3 n) = p_rts_flags (procs s n) \<and> p_pending (procs s3 n) = 0"
proof -
  define t0 where "t0 = upd_proc n (p_pending_update (sigaddset sig)) s"
  have It0: "ipc_inv t0" using assms(1) unfolding t0_def
    by (subst ipc_inv_cong) (auto simp: sched_inv_upd_proc sched_view_def same_ipc_def view_upd_proc view_fold)
  obtain t1 where t1: "rts_set {SIGNALED, SIG_PENDING} n t0 = Some t1" "ipc_inv t1"
    "\<And>k. p_rts_flags (procs t1 k) = (if k = n then p_rts_flags (procs t0 k) \<union> {SIGNALED, SIG_PENDING} else p_rts_flags (procs t0 k))"
    "\<And>k. p_pending (procs t1 k) = p_pending (procs t0 k)" "\<And>k. p_priv (procs t1 k) = p_priv (procs t0 k)"
    "\<And>k. p_getfrom (procs t1 k) = p_getfrom (procs t0 k)" "\<And>k. p_messbuf (procs t1 k) = p_messbuf (procs t0 k)"
    "\<And>k. p_memmap (procs t1 k) = p_memmap (procs t0 k)" "privs t1 = privs t0" "k_mess_buf t1 = k_mess_buf t0"
    by (rule rts_set_ipc_inv [OF It0 assms(2), of "{SIGNALED, SIG_PENDING}"]) auto
  have pm: "isokprocn PM_PROC_NR" by (simp add: isokprocn_def)
  have t: "p_priv (procs t1 k) = p_priv (procs s k)" "p_getfrom (procs t1 k) = p_getfrom (procs s k)"
    "p_messbuf (procs t1 k) = p_messbuf (procs s k)" "p_memmap (procs t1 k) = p_memmap (procs s k)"
    "privs t1 = privs s" "k_mess_buf t1 = k_mess_buf s"
    "p_rts_flags (procs t1 PM_PROC_NR) = p_rts_flags (procs s PM_PROC_NR)" for k
    using assms(3) by (simp_all add: t1 t0_def)
  have hp: "has_priv t1 PM_PROC_NR" "has_priv t1 SYSTEM"
    using assms(8,9) by (simp_all add: has_priv_def t)
  obtain s1 where s1: "send_sig PM_PROC_NR SIGKSIG t1 = Some s1" "ipc_inv s1"
    "\<And>k. k \<noteq> PM_PROC_NR \<Longrightarrow> p_rts_flags (procs s1 k) = p_rts_flags (procs t1 k)"
    "sig_sent PM_PROC_NR SIGKSIG t1 s1"
    by (rule send_sig_inv [OF t1(2) pm hp, of SIGKSIG]) blast
  have sent: "sig_sent PM_PROC_NR SIGKSIG s s1"
    using s1(4) unfolding sig_sent_def told_def wakes_def waiting_for_def priv_of_def data_phys_def t .
  have f1: "p_rts_flags (procs s1 n) = p_rts_flags (procs s n) \<union> {SIGNALED, SIG_PENDING}"
    using s1(3) [of n] assms(3) by (simp add: t1(3) t0_def)
  have pend: "p_pending (procs s1 n) = set_bit (nat sig) 0"
    using send_sig_pending [OF s1(1)] assms(4,5) by (simp add: t1(4) t0_def sigaddset_def)
  have c: "cause_sig n sig s = Some s1"
    using assms(2,4,5) none t1(1) s1(1)
    by (simp add: cause_sig_def sigismember_def t0_def)
  have sg: "SIGNALED \<in> p_rts_flags (procs s1 k) \<longleftrightarrow> k = n" if "k \<in> set user_nrs" for k
  proof (cases "k = n")
    case False
    from that have "isokprocn k" by (auto simp: user_nrs_def isokprocn_def)
    with False none have "SIGNALED \<notin> p_rts_flags (procs t1 k)" by (simp add: t1(3) t0_def)
    with send_sig_flags [OF s1(1), of k] False show ?thesis by auto
  qed (simp add: f1)
  have "n \<in> set user_nrs" using assms(2,3) by (simp add: user_nrs_def isokprocn_def del: upto_rec_numeral)
  then have fs: "find_signaled user_nrs s1 = Some n" using sg by (rule find_signaled_unique)
  have nr: "p_nr (procs s1 n) = n" using s1(2) assms(2) sched_inv_nr by (auto simp: ipc_inv_def)
  define m1 where "m1 = m\<lparr>m_w0 := word_of_int n, m_w3 := set_bit (nat sig) 0\<rparr>"
  define s2 where "s2 = upd_proc n (\<lambda>p. p\<lparr>p_pending := 0, p_rts_flags := p_rts_flags p - {SIGNALED}\<rparr>) s1"
  have g: "do_getksig m s1 = Some (OK, m1, s2)"
    by (simp add: do_getksig_def fs nr pend m1_def s2_def)
  have f2: "p_rts_flags (procs s2 n) = p_rts_flags (procs s n) \<union> {SIG_PENDING}"
    using none assms(2) by (auto simp: s2_def f1)
  have ss: "sending s n = sending s1 n" "receiving s n = receiving s1 n"
    by (simp_all add: sending_def receiving_def f1)
  have I2: "ipc_inv s2" unfolding s2_def using s1(2) f1
    by (subst ipc_inv_cong) (auto simp: sched_inv_upd_proc sched_view_def same_ipc_def view_upd_proc view_fold ss)
  have w: "sint (word_of_int n :: u32) = n" using ok_word [OF assms(2)] slong_id [of n] by (simp add: slong_def)
  have ne: "p_rts_flags (procs s2 n) \<noteq> {}" by (simp add: f2)
  obtain s3 where s3: "rts_unset {SIG_PENDING} n s2 = Some s3" "ipc_inv s3" "p_pending (procs s3 n) = p_pending (procs s2 n)"
    "\<And>k. p_rts_flags (procs s3 k) = (if k = n then p_rts_flags (procs s2 k) - {SIG_PENDING} else p_rts_flags (procs s2 k))"
    by (rule rts_unset_ipc_inv [OF I2 assms(2) ne, of "{SIG_PENDING}"]) auto
  have e: "do_endksig m1 s2 = Some (OK, m1, s3)"
    using assms(2) none s3(1) w by (simp add: do_endksig_def m1_def f2)
  have "p_rts_flags (procs s3 n) = p_rts_flags (procs s n)" using none by (auto simp: s3(4) f2)
  moreover have "p_pending (procs s2 n) = 0" by (simp add: s2_def)
  ultimately show ?thesis using c s1(2) f1 pend sent g I2 f2 e s3(2,3) w
    by (intro exI [of _ s1] exI [of _ m1] exI [of _ s2] exI [of _ s3]) (simp add: m1_def)
qed

theorem kernel_signal_cycle_witness:
  "\<exists>s1 m1 s2 s3. cause_sig 1 11 demo_state = Some s1 \<and> p_rts_flags (procs s1 1) = {SIGNALED, SIG_PENDING} \<and>
     s_sig_pending (priv_of s1 0) = 0x80000 \<and>
     do_getksig demo_sig_msg s1 = Some (OK, m1, s2) \<and> p_pending (procs s2 1) = 0 \<and>
     do_endksig m1 s2 = Some (OK, m1, s3) \<and> p_rts_flags (procs s3 1) = {}"
proof -
  have "\<forall>k. isokprocn k \<longrightarrow> SIGNALED \<notin> p_rts_flags (procs demo_state k)" by (simp add: demo_proc_def)
  then show ?thesis
    using kernel_signal_cycle [of demo_state 1 11 demo_sig_msg] demo_ipc_inv
    by (auto simp: isokprocn_def sigisvalid_def has_priv_def demo_proc_def sig_sent_def wakes_def waiting_for_def
        priv_of_def demo_priv_def sigaddset_def)
qed

end
