(* ===== verification/Kernel_Devio.thy ===== *)
theory Kernel_Devio
  imports Kernel_Procs
begin

text \<open>
  Device I/O on behalf of drivers: \<^verbatim>\<open>do_devio\<close>, \<^verbatim>\<open>do_vdevio\<close> and \<^verbatim>\<open>do_sdevio\<close>
  (\<^verbatim>\<open>kernel/system\<close>), with the port instructions of 1, 2 and 4 bytes. Every input takes the next
  value of \<open>dev_in\<close>, every output is appended to \<open>dev_log\<close>. The buffer \<^verbatim>\<open>vdevio_buf\<close> of 64 bytes
  is a function from offsets to bytes; an access behind it has no defined outcome.
\<close>

subsection \<open>Model\<close>

abbreviation (input) DIO_INPUT :: int where "DIO_INPUT \<equiv> 0"
abbreviation (input) DIO_OUTPUT :: int where "DIO_OUTPUT \<equiv> 1"
abbreviation (input) DIO_BYTE :: int where "DIO_BYTE \<equiv> 98"
abbreviation (input) DIO_WORD :: int where "DIO_WORD \<equiv> 119"
abbreviation (input) DIO_LONG :: int where "DIO_LONG \<equiv> 108"
abbreviation (input) VDEVIO_BUF_SIZE :: nat where "VDEVIO_BUF_SIZE \<equiv> 64"

definition width_mask :: "nat \<Rightarrow> u32" where
  "width_mask w = (if w = 1 then 0xFF else if w = 2 then 0xFFFF else - 1)"

text \<open>\<^verbatim>\<open>inb\<close>, \<^verbatim>\<open>inw\<close>, \<^verbatim>\<open>inl\<close> and \<^verbatim>\<open>outb\<close>, \<^verbatim>\<open>outw\<close>, \<^verbatim>\<open>outl\<close>, by width in bytes; ports have 16 bits.\<close>

definition port_in :: "nat \<Rightarrow> kstate \<Rightarrow> u32 \<times> kstate" where
  "port_in w s = (dev_in s (dev_rd s) AND width_mask w, s\<lparr>dev_rd := dev_rd s + 1\<rparr>)"

definition port_out :: "nat \<Rightarrow> u32 \<Rightarrow> u32 \<Rightarrow> kstate \<Rightarrow> kstate" where
  "port_out w port v s = s\<lparr>dev_log := dev_log s @ [(port AND 0xFFFF, w, v AND width_mask w)]\<rparr>"

text \<open>The width of a type of I/O, \<open>None\<close> for an unknown one.\<close>

definition dio_width :: "int \<Rightarrow> nat option" where
  "dio_width ty = (if ty = DIO_BYTE then Some 1 else if ty = DIO_WORD then Some 2
     else if ty = DIO_LONG then Some 4 else None)"

definition do_devio :: kcall where
  "do_devio m s =
     (if sint (m_w2 m) = DIO_INPUT then
        (case dio_width (sint (m_w0 m)) of
           None \<Rightarrow> Some (EINVAL, m, s)
         | Some w \<Rightarrow> (let (v, s1) = port_in w s in Some (OK, m\<lparr>m_w4 := v\<rparr>, s1)))
      else
        (case dio_width (sint (m_w0 m)) of
           None \<Rightarrow> Some (EINVAL, m, s)
         | Some w \<Rightarrow> Some (OK, m, port_out w (m_w3 m) (m_w4 m) s)))"

type_synonym bytes = "nat \<Rightarrow> u8"

text \<open>Little-endian integers of \<open>w\<close> bytes in a buffer.\<close>

definition get_bytes :: "nat \<Rightarrow> nat \<Rightarrow> bytes \<Rightarrow> u32" where
  "get_bytes off w b = fold (\<lambda>i acc. acc OR push_bit (8 * i) (ucast (b (off + i)))) [0..<w] 0"

definition put_bytes :: "nat \<Rightarrow> nat \<Rightarrow> u32 \<Rightarrow> bytes \<Rightarrow> bytes" where
  "put_bytes off w v b = (\<lambda>i. if off \<le> i \<and> i < off + w then ucast (drop_bit (8 * (i - off)) v) else b i)"

text \<open>
  (port, value) pairs take 4 bytes for bytes and words, with the value at offset 2, and 8 bytes for
  longs, with the value at offset 4.
\<close>

definition pair_size :: "nat \<Rightarrow> nat" where
  "pair_size w = (if w = 4 then 8 else 4)"

definition value_off :: "nat \<Rightarrow> nat" where
  "value_off w = (if w = 4 then 4 else 2)"

definition vdev_in :: "nat \<Rightarrow> nat \<Rightarrow> bytes \<times> kstate \<Rightarrow> bytes \<times> kstate" where
  "vdev_in w i = (\<lambda>(b, s). let (v, s1) = port_in w s in (put_bytes (pair_size w * i + value_off w) w v b, s1))"

text \<open>The port of a long output is read from \<^verbatim>\<open>pvb[i]\<close>, the pair of a byte, at offset \<open>4 * i\<close>.\<close>

definition vdev_out :: "nat \<Rightarrow> bytes \<Rightarrow> nat \<Rightarrow> kstate \<Rightarrow> kstate" where
  "vdev_out w b i s = port_out w (get_bytes (4 * i) 2 b) (get_bytes (pair_size w * i + value_off w) w b) s"

definition do_vdevio :: kcall where
  "do_vdevio m s =
     (let req = sint (m_w2 m); vec_size = sint (m_w4 m) in
      if req \<noteq> DIO_INPUT \<and> req \<noteq> DIO_OUTPUT then Some (EINVAL, m, s)
      else if vec_size \<le> 0 then Some (EINVAL, m, s)
      else
        (case dio_width (sint (m_w0 m)) of
           None \<Rightarrow> Some (EINVAL, m, s)
         | Some w \<Rightarrow>
             (let nbytes = unat (m_w4 m * of_nat (pair_size w)) in
              if nbytes > VDEVIO_BUF_SIZE then Some (E2BIG, m, s)
              else do {
                guard (isokprocn (m_source m));
                let caller_phys = umap_local (procs s (m_source m)) SEG_D (m_w5 m) (of_nat nbytes);
                if caller_phys = 0 then Some (EFAULT, m, s)
                else do {
                  guard (nat vec_size * pair_size w \<le> VDEVIO_BUF_SIZE);
                  let buf = (\<lambda>i. k_mem s (caller_phys + of_nat i));
                  if req = DIO_INPUT then
                    (let (b, s1) = fold (vdev_in w) [0..<nat vec_size] (buf, s) in
                     Some (OK, m, s1\<lparr>k_mem := (\<lambda>a. if unat (a - caller_phys) < nbytes
                       then b (unat (a - caller_phys)) else k_mem s1 a)\<rparr>))
                  else Some (OK, m, fold (vdev_out w buf) [0..<nat vec_size] s)
                }
              })))"

text \<open>String input and output between a port and physical memory, \<open>n\<close> elements of \<open>w\<close> bytes.\<close>

definition phys_in :: "nat \<Rightarrow> u32 \<Rightarrow> nat \<Rightarrow> kstate \<Rightarrow> kstate" where
  "phys_in w buf i s = (let (v, s1) = port_in w s in
     s1\<lparr>k_mem := (\<lambda>a. let k = unat (a - (buf + of_nat (w * i))) in
       if k < w then ucast (drop_bit (8 * k) v) else k_mem s1 a)\<rparr>)"

definition phys_out :: "nat \<Rightarrow> u32 \<Rightarrow> u32 \<Rightarrow> nat \<Rightarrow> kstate \<Rightarrow> kstate" where
  "phys_out w port buf i s = port_out w port (get_bytes (w * i) w (\<lambda>j. k_mem s (buf + of_nat j))) s"

definition do_sdevio :: kcall where
  "do_sdevio m s =
     (let n = (if sint (m_w1 m) = SELF then m_source m else sint (m_w1 m));
          count = m_w4 m; port = m_w3 m; req = sint (m_w2 m); ty = sint (m_w0 m)
      in if \<not> isokprocn n then Some (EINVAL, m, s)
         else if iskerneln n then Some (EPERM, m, s)
         else do {
           phys_buf \<leftarrow> numap_local n (m_w5 m) count s;
           if phys_buf = 0 then Some (EFAULT, m, s)
           else if req \<noteq> DIO_INPUT \<and> req \<noteq> DIO_OUTPUT then Some (EINVAL, m, s)
           else if ty \<noteq> DIO_BYTE \<and> ty \<noteq> DIO_WORD then Some (EINVAL, m, s)
           else
             (let w = (if ty = DIO_BYTE then 1 else 2); k = unat count div w in
              if req = DIO_INPUT then Some (OK, m, fold (phys_in w phys_buf) [0..<k] s)
              else Some (OK, m, fold (phys_out w port phys_buf) [0..<k] s))
         })"

subsection \<open>The size check of the vector\<close>

text \<open>
  The size check of \<^verbatim>\<open>do_vdevio\<close> can be evaded: the length in bytes is computed
  modulo 2^32, so a vector of 2^30 + 1 pairs counts as 4 bytes, passes the check, and makes the loop
  run far behind the 64 bytes of the kernel's buffer.
\<close>

theorem do_vdevio_size_wraps:
  assumes "m_w4 m = 0x40000001" "sint (m_w0 m) = DIO_BYTE" "sint (m_w2 m) = DIO_OUTPUT"
    and "isokprocn (m_source m)" "umap_local (procs s (m_source m)) SEG_D (m_w5 m) 4 \<noteq> 0"
  shows "sint (m_w4 m) = 1073741825 \<and> unat (m_w4 m * of_nat (pair_size 1)) = 4 \<and> do_vdevio m s = None"
proof -
  have 1: "sint (m_w4 m) = 1073741825" by (simp add: assms(1))
  have 2: "m_w4 m * of_nat (pair_size 1) = 4" by (simp add: assms(1) pair_size_def)
  have w: "dio_width DIO_BYTE = Some 1" by (simp add: dio_width_def)
  have "\<not> nat 1073741825 * pair_size 1 \<le> VDEVIO_BUF_SIZE" by (simp add: pair_size_def)
  with 1 2 assms(3-5) show ?thesis
    unfolding do_vdevio_def Let_def assms(2) w option.case 1 2 by (simp add: guard_def)
qed

theorem do_vdevio_size_wraps_witness:
  "do_vdevio \<lparr>m_source = 0, m_type = 0x617, m_w0 = 98, m_w1 = 0, m_w2 = 1, m_w3 = 0, m_w4 = 0x40000001,
     m_w5 = 0x100, m_w6 = 0\<rparr> demo_copy = None"
proof -
  have "umap_local demo_map_proc SEG_D 0x100 4 = 0x2100"
    by (simp add: umap_local_layout [OF demo_map_layout]) (simp add: demo_map_proc_def)
  with do_vdevio_size_wraps [of "\<lparr>m_source = 0, m_type = 0x617, m_w0 = 98, m_w1 = 0, m_w2 = 1, m_w3 = 0,
     m_w4 = 0x40000001, m_w5 = 0x100, m_w6 = 0\<rparr>" demo_copy] show ?thesis
    by (simp add: isokprocn_def demo_copy_def)
qed

text \<open>
  Vectors of long outputs go to the wrong ports: \<^verbatim>\<open>do_vdevio\<close> takes the port of the
  second pair from offset 4 of the buffer, where the low half of the first value is.
\<close>

theorem vdev_out_wrong_port:
  "dev_log (vdev_out 4 b 1 s) = dev_log s @ [(get_bytes 4 2 b AND 0xFFFF, 4, get_bytes 12 4 b AND width_mask 4)] \<and>
   get_bytes 4 2 (put_bytes 4 4 v b) = v AND 0xFFFF"
proof -
  have "ucast (ucast v :: u8) OR push_bit 8 (ucast (ucast (drop_bit 8 v) :: u8)) = v AND 0xFFFF"
  proof -
    have e: "(0xFFFF :: u32) = mask 16" by (simp add: mask_eq_exp_minus_1)
    show ?thesis unfolding e
    proof (rule bit_word_eqI)
      fix n assume "n < LENGTH(32)"
      then show "bit (ucast (ucast v :: u8) OR push_bit 8 (ucast (ucast (drop_bit 8 v) :: u8)) :: u32) n = bit (v AND mask 16) n"
        by (cases "n < 8") (auto simp: bit_simps)
    qed
  qed
  then show ?thesis
    by (simp add: vdev_out_def port_out_def pair_size_def value_off_def get_bytes_def put_bytes_def upt_rec)
qed

end
