(* ===== verification/Kernel_Syscall.thy ===== *)
theory Kernel_Syscall
  imports Kernel_Print
begin

text \<open>
  The trap gate, \<^verbatim>\<open>sys_call\<close> of \<^verbatim>\<open>kernel/proc.c\<close>: it checks the trap mask, the other process's
  number, the message pointer, the IPC mask and whether the destination is alive, and then performs
  SEND, RECEIVE, SENDREC, NOTIFY or ECHO for the process \<^verbatim>\<open>proc_ptr\<close>.

  Shown here: the gate keeps the invariant of message passing on every path, its error paths and
  their diagnostics included; a call succeeds only when all checks do; and the pointer check
  confines the whole message to the caller's data and stack without wrap-around.
\<close>

subsection \<open>Model\<close>

abbreviation (input) SEND :: int where "SEND \<equiv> 1"
abbreviation (input) RECEIVE :: int where "RECEIVE \<equiv> 2"
abbreviation (input) SENDREC :: int where "SENDREC \<equiv> 3"
abbreviation (input) NOTIFY :: int where "NOTIFY \<equiv> 4"
abbreviation (input) ECHO :: int where "ECHO \<equiv> 8"
abbreviation (input) SYSCALL_FUNC :: int where "SYSCALL_FUNC \<equiv> 0x0F"
abbreviation (input) SYSCALL_FLAGS :: int where "SYSCALL_FLAGS \<equiv> 0xF0"
abbreviation (input) CHECK_PTR :: int where "CHECK_PTR \<equiv> 0x0B"
abbreviation (input) CHECK_DST :: int where "CHECK_DST \<equiv> 0x05"

definition mess_ptr_ok :: "proc \<Rightarrow> u32 \<Rightarrow> bool" where
  "mess_ptr_ok p m_ptr =
     (let vlo = drop_bit CLICK_SHIFT m_ptr;
          vhi = drop_bit CLICK_SHIFT (m_ptr + of_nat MESS_SIZE - 1)
      in \<not> (vlo < mem_vir (p_memmap p SEG_D) \<or> vlo > vhi \<or>
            vhi \<ge> mem_vir (p_memmap p SEG_S) + mem_len (p_memmap p SEG_S)))"

text \<open>The switch at the end of \<^verbatim>\<open>sys_call\<close>.\<close>

definition sys_call_perform :: "int \<Rightarrow> int \<Rightarrow> int \<Rightarrow> int \<Rightarrow> u32 \<Rightarrow> kstate \<Rightarrow> (int \<times> kstate) option" where
  "sys_call_perform function flags caller src_dst m_ptr s =
     (let pi = p_priv (procs s caller) in
      if function = SENDREC then do {
        let s1 = upd_priv pi (s_flags_update (\<lambda>f. f \<union> {SENDREC_BUSY})) s;
        (r, s2) \<leftarrow> mini_send caller src_dst m_ptr flags s1;
        if r \<noteq> OK then Some (r, s2) else mini_receive caller src_dst m_ptr flags s2
      }
      else if function = SEND then mini_send caller src_dst m_ptr flags s
      else if function = RECEIVE then
        mini_receive caller src_dst m_ptr flags (upd_priv pi (s_flags_update (\<lambda>f. f - {SENDREC_BUSY})) s)
      else if function = NOTIFY then mini_notify caller src_dst s
      else if function = ECHO then Some (OK, CopyMess (p_nr (procs s caller)) caller m_ptr caller m_ptr s)
      else Some (EBADCALL, s))"

definition complain :: "string \<Rightarrow> karg list \<Rightarrow> int \<Rightarrow> kstate \<Rightarrow> (int \<times> kstate) option" where
  "complain fmt args r s = do {
     s1 \<leftarrow> kprintf (fmt @ [CHR 0x0A]) args s;
     Some (r, s1)
   }"

definition sys_call :: "int \<Rightarrow> int \<Rightarrow> u32 \<Rightarrow> kstate \<Rightarrow> (int \<times> kstate) option" where
  "sys_call call_nr src_dst m_ptr s = do {
     caller \<leftarrow> proc_ptr s;
     guard (has_priv s caller);
     let function = call_nr AND SYSCALL_FUNC;
     let flags = call_nr AND SYSCALL_FLAGS;
     let nr = p_nr (procs s caller);
     if \<not> bit (s_trap_mask (priv_of s caller)) (nat function) \<or>
        (iskerneln src_dst \<and> function \<noteq> SENDREC \<and> function \<noteq> RECEIVE) then
       complain ''sys_call: trap %d not allowed, caller %d, src_dst %d''
         [Signed function, Signed nr, Signed src_dst] ECALLDENIED s
     else if \<not> (isokprocn src_dst \<or> src_dst = ANY \<or> function = ECHO) then
       complain ''sys_call: invalid src_dst, src_dst %d, caller %d'' [Signed src_dst, Signed nr] EBADSRCDST s
     else if function AND CHECK_PTR \<noteq> 0 \<and> \<not> mess_ptr_ok (procs s caller) m_ptr then
       complain ''sys_call: invalid message pointer, trap %d, caller %d'' [Signed function, Signed nr] EFAULT s
     else if function AND CHECK_DST \<noteq> 0 then do {
       guard (isokprocn src_dst \<and> has_priv s src_dst);
       if \<not> get_sys_bit (s_ipc_to (priv_of s caller)) (s_id (priv_of s src_dst)) then
         complain ''sys_call: ipc mask denied %d sending to %d'' [Signed nr, Signed src_dst] ECALLDENIED s
       else if p_rts_flags (procs s src_dst) = {SLOT_FREE} then
         (if \<not> shutdown_started s then
            complain ''sys_call: dead dst; %d->%d'' [Signed nr, Signed src_dst] EDEADDST s
          else Some (EDEADDST, s))
       else sys_call_perform function flags caller src_dst m_ptr s
     }
     else sys_call_perform function flags caller src_dst m_ptr s
   }"

subsection \<open>Lemmas\<close>

lemma complain_inv:
  assumes "ipc_inv s" "log_ok s" "kp_text (fmt @ [CHR 0x0A]) args False \<noteq> None"
  obtains s' where "complain fmt args r s = Some (r, s')" "ipc_inv s'"
proof -
  from assms(3) obtain t where t: "kp_text (fmt @ [CHR 0x0A]) args False = Some t" by blast
  obtain s' where "kprintf (fmt @ [CHR 0x0A]) args s = Some s'" "ipc_inv s'"
    by (rule kprintf_inv [OF assms(1,2) t]) blast
  then show thesis by (intro that [of s']) (simp_all add: complain_def)
qed

lemma complain_result: "complain fmt args r s = Some (r', s') \<Longrightarrow> r' = r"
  by (auto simp: complain_def)

lemma ipc_inv_flags: "ipc_inv s \<Longrightarrow> ipc_inv (upd_priv i (s_flags_update f) s)"
  by (subst ipc_inv_cong) (simp_all add: sched_inv_upd_priv)

lemma sys_call_perform_inv:
  assumes "ipc_inv s" "isokprocn caller" "p_rts_flags (procs s caller) = {}" "has_priv s caller"
    and dst: "function AND CHECK_DST \<noteq> 0 \<longrightarrow> isokprocn d \<and> d \<noteq> caller \<and> has_priv s d"
  shows "\<exists>r s'. sys_call_perform function flags caller d m_ptr s = Some (r, s') \<and> ipc_inv s'"
proof -
  let ?pi = "p_priv (procs s caller)"
  have ns: "\<not> sending s caller" using assms(3) by (simp add: sending_def)
  consider (rpc) "function = 3" | (send) "function = 1" | (recv) "function = 2" | (ntf) "function = 4"
    | (other) "function \<notin> {1, 2, 3, 4}" by blast
  then show ?thesis
  proof cases
    case rpc
    define s1 where "s1 = upd_priv ?pi (s_flags_update (\<lambda>f. f \<union> {SENDREC_BUSY})) s"
    have I1: "ipc_inv s1" using assms(1) by (simp add: s1_def ipc_inv_flags)
    have d: "isokprocn d" "d \<noteq> caller" using dst rpc by simp_all
    have f1: "p_rts_flags (procs s1 caller) = {}" using assms(3) by (simp add: s1_def)
    obtain r s2 where s2: "mini_send caller d m_ptr flags s1 = Some (r, s2)" "ipc_inv s2"
      "p_rts_flags (procs s2 caller) \<subseteq> {SENDING}" "sending s2 caller \<longrightarrow> sendto s2 caller = d"
      "\<And>m. p_priv (procs s2 m) = p_priv (procs s1 m)"
      by (rule mini_send_inv [OF I1 assms(2) d(1) f1 d(2), of m_ptr flags]) blast
    have h2: "has_priv s2 caller" using assms(4) s2(5) by (simp add: has_priv_def s1_def)
    from s2(4) have "sending s2 caller \<longrightarrow> d = sendto s2 caller" by simp
    from mini_receive_inv [OF s2(2) assms(2) s2(3) h2 this, of m_ptr flags] obtain r3 s3 where
      "mini_receive caller d m_ptr flags s2 = Some (r3, s3)" "ipc_inv s3" by blast
    with s2 rpc show ?thesis by (simp add: sys_call_perform_def Let_def s1_def)
  next
    case send
    have d: "isokprocn d" "d \<noteq> caller" using dst send by simp_all
    show ?thesis
      by (rule mini_send_inv [OF assms(1,2) d(1) assms(3) d(2), of m_ptr flags])
        (use send in \<open>simp add: sys_call_perform_def\<close>)
  next
    case recv
    define s1 where "s1 = upd_priv ?pi (s_flags_update (\<lambda>f. f - {SENDREC_BUSY})) s"
    have I1: "ipc_inv s1" using assms(1) by (simp add: s1_def ipc_inv_flags)
    have f1: "p_rts_flags (procs s1 caller) \<subseteq> {SENDING}" using assms(3) by (simp add: s1_def)
    have h1: "has_priv s1 caller" using assms(4) by (simp add: has_priv_def s1_def)
    have "sending s1 caller \<longrightarrow> d = sendto s1 caller" using ns by (simp add: sending_def s1_def)
    from mini_receive_inv [OF I1 assms(2) f1 h1 this, of m_ptr flags] obtain r s2 where
      "mini_receive caller d m_ptr flags s1 = Some (r, s2)" "ipc_inv s2" by blast
    with recv show ?thesis by (simp add: sys_call_perform_def Let_def s1_def)
  next
    case ntf
    have d: "isokprocn d" "has_priv s d" using dst ntf by simp_all
    show ?thesis
      by (rule mini_notify_inv [OF assms(1,2) d assms(4)]) (use ntf in \<open>simp add: sys_call_perform_def\<close>)
  next
    case other
    have "ipc_inv (CopyMess a b c e f s)" for a b c e f
      using assms(1) by (subst ipc_inv_cong) simp_all
    with other assms(1) show ?thesis by (simp add: sys_call_perform_def)
  qed
qed

subsection \<open>Properties\<close>

text \<open>
  C20. The trap gate returns, with the invariant of message passing kept, for every call number,
  destination and pointer: on each denied call, whose diagnostic goes to the log driver, and on
  each performed one. Two inputs are excluded, which the code does not check: ANY as the destination
  of a send, and a send to oneself.
\<close>

theorem sys_call_safe:
  assumes "ipc_inv s" "proc_ptr s = Some caller" "isokprocn caller" "p_rts_flags (procs s caller) = {}"
    "has_priv s caller" "log_ok s" "isokprocn d \<longrightarrow> has_priv s d"
    "(call_nr AND SYSCALL_FUNC) AND CHECK_DST \<noteq> 0 \<longrightarrow> d \<noteq> ANY \<and> d \<noteq> caller"
  shows "\<exists>r s'. sys_call call_nr d m_ptr s = Some (r, s') \<and> ipc_inv s'"
proof -
  define f where "f = call_nr AND SYSCALL_FUNC"
  define good where "good x \<longleftrightarrow> (\<exists>r s'. x = Some (r, s') \<and> ipc_inv s')" for x :: "(int \<times> kstate) option"
  have c: "good (complain fmt args e s)" if "kp_text (fmt @ [CHR 0x0A]) args False \<noteq> None" for fmt args e
    using complain_inv [OF assms(1,6) that, of e] unfolding good_def by blast
  have c1: "good (complain ''sys_call: trap %d not allowed, caller %d, src_dst %d''
      [Signed a, Signed b, Signed d] e s)" for a b d e by (rule c) simp
  have c2: "good (complain ''sys_call: invalid src_dst, src_dst %d, caller %d'' [Signed a, Signed b] e s)"
    for a b e by (rule c) simp
  have c3: "good (complain ''sys_call: invalid message pointer, trap %d, caller %d'' [Signed a, Signed b] e s)"
    for a b e by (rule c) simp
  have c4: "good (complain ''sys_call: ipc mask denied %d sending to %d'' [Signed a, Signed b] e s)"
    for a b e by (rule c) simp
  have c5: "good (complain ''sys_call: dead dst; %d->%d'' [Signed a, Signed b] e s)"
    for a b e by (rule c) simp
  have c6: "good (Some (e, s))" for e using assms(1) by (simp add: good_def)
  have dst: "isokprocn d \<and> has_priv s d" if "isokprocn d \<or> d = ANY \<or> f = ECHO" "f AND CHECK_DST \<noteq> 0"
    using that assms(7,8) by (auto simp: f_def)
  have p: "good (sys_call_perform f g caller d m_ptr s)" if "f AND CHECK_DST \<noteq> 0 \<longrightarrow> isokprocn d" for g
    unfolding good_def by (rule sys_call_perform_inv [OF assms(1,3,4,5)]) (use assms(7,8) that in \<open>auto simp: f_def\<close>)
  have gi: "good (if b then x else y)" if "good x" "\<not> b \<Longrightarrow> good y" for b x y
    using that by simp
  have "good (sys_call call_nr d m_ptr s)"
    unfolding sys_call_def assms(2) Let_def Option.bind.bind_lunit guard_bind [OF assms(5)] f_def [symmetric]
  proof (rule gi [OF c1], rule gi [OF c2], rule gi [OF c3], cases "f AND CHECK_DST \<noteq> 0")
    assume "\<not> \<not> (isokprocn d \<or> d = ANY \<or> f = ECHO)" and ck: "f AND CHECK_DST \<noteq> 0"
    with dst have d: "isokprocn d \<and> has_priv s d" by blast
    show "good (if f AND CHECK_DST \<noteq> 0
         then Option.bind (guard (isokprocn d \<and> has_priv s d)) (\<lambda>_.
           if \<not> get_sys_bit (s_ipc_to (priv_of s caller)) (s_id (priv_of s d)) then
             complain ''sys_call: ipc mask denied %d sending to %d''
               [Signed (p_nr (procs s caller)), Signed d] ECALLDENIED s
           else if p_rts_flags (procs s d) = {SLOT_FREE} then
             if \<not> shutdown_started s then
               complain ''sys_call: dead dst; %d->%d'' [Signed (p_nr (procs s caller)), Signed d] EDEADDST s
             else Some (EDEADDST, s)
           else sys_call_perform f (call_nr AND SYSCALL_FLAGS) caller d m_ptr s)
         else sys_call_perform f (call_nr AND SYSCALL_FLAGS) caller d m_ptr s)"
      unfolding if_P [OF ck] guard_bind [OF d]
      by (intro gi c4 c5 c6 p) (use d in simp)
  qed (simp add: p)
  then show ?thesis by (simp add: good_def)
qed

theorem sys_call_safe_witness:
  "(\<exists>r s'. sys_call SENDREC 1 0x40 demo_state = Some (r, s') \<and> ipc_inv s') \<and>
   (\<exists>r s'. sys_call SEND 99 0x40 demo_state = Some (r, s') \<and> ipc_inv s')"
  using sys_call_safe [OF demo_ipc_inv _ _ _ _ demo_log_ok, of 0 1 SENDREC "0x40"]
    sys_call_safe [OF demo_ipc_inv _ _ _ _ demo_log_ok, of 0 99 SEND "0x40"]
  by (simp add: isokprocn_def demo_proc_def has_priv_def)

text \<open>
  C26. Access control: a trap returns OK only if the caller's trap mask allows the call, kernel tasks
  are addressed by SENDREC or RECEIVE only, the message lies in the caller's memory (for calls
  that use one), and, for calls that send, the caller's IPC mask allows the destination and the
  destination's slot is in use.
\<close>

theorem sys_call_permitted:
  assumes "sys_call call_nr d m_ptr s = Some (OK, s')"
  shows "\<exists>caller. proc_ptr s = Some caller \<and>
    (let f = call_nr AND SYSCALL_FUNC in
     bit (s_trap_mask (priv_of s caller)) (nat f) \<and>
     (iskerneln d \<longrightarrow> f = SENDREC \<or> f = RECEIVE) \<and>
     (f AND CHECK_PTR \<noteq> 0 \<longrightarrow> mess_ptr_ok (procs s caller) m_ptr) \<and>
     (f AND CHECK_DST \<noteq> 0 \<longrightarrow> isokprocn d \<and>
        get_sys_bit (s_ipc_to (priv_of s caller)) (s_id (priv_of s d)) \<and>
        p_rts_flags (procs s d) \<noteq> {SLOT_FREE}))"
proof -
  from assms obtain caller where caller: "proc_ptr s = Some caller" by (auto simp: sys_call_def)
  define f where "f = call_nr AND SYSCALL_FUNC"
  have c: "complain fmt args e s = Some (OK, s') \<longleftrightarrow> False" if "e \<noteq> OK" for fmt args e
    using complain_result that by blast
  from assms show ?thesis
    unfolding sys_call_def caller Let_def f_def [symmetric]
    by (auto simp: c split: if_splits)
qed

theorem sys_call_permitted_witness:
  "get_sys_bit (s_ipc_to (priv_of demo_state 0)) (s_id (priv_of demo_state 1))"
proof -
  have "waiting_for demo_state 1 0 \<longleftrightarrow> False" by (simp add: waiting_for_def demo_proc_def)
  have "mess_ptr_ok (demo_proc 0) 0x40" by (simp add: mess_ptr_ok_def demo_proc_def)
  obtain s' where "mini_notify 0 1 demo_state = Some (OK, s')"
    by (rule mini_notify_inv [OF demo_ipc_inv, of 0 1]) (simp_all add: isokprocn_def demo_proc_def has_priv_def)
  then have "sys_call NOTIFY 1 0x40 demo_state = Some (OK, s')"
    by (simp add: sys_call_def has_priv_def demo_proc_def demo_priv_def priv_of_def isokprocn_def iskerneln_def
        get_sys_bit_def sys_call_perform_def bit_simps)
  from sys_call_permitted [OF this] show ?thesis by simp
qed

text \<open>
  C27. The pointer check: when it passes, and the stack segment itself does not wrap around, every
  byte of the message lies between the start of the data segment and the end of the stack segment,
  and its addresses do not wrap around.
\<close>

theorem mess_ptr_in_segment:
  assumes "mess_ptr_ok p m_ptr"
    "unat (mem_vir (p_memmap p SEG_S)) + unat (mem_len (p_memmap p SEG_S)) < 2 ^ 22"
  shows "unat (mem_vir (p_memmap p SEG_D)) * 1024 \<le> unat m_ptr \<and>
    unat m_ptr + MESS_SIZE \<le> (unat (mem_vir (p_memmap p SEG_S)) + unat (mem_len (p_memmap p SEG_S))) * 1024 \<and>
    unat m_ptr + MESS_SIZE \<le> 2 ^ 32"
proof -
  let ?sv = "mem_vir (p_memmap p SEG_S)" and ?sl = "mem_len (p_memmap p SEG_S)"
  have e: "m_ptr + of_nat MESS_SIZE - 1 = m_ptr + 35" by simp
  from assms(1) have 1: "mem_vir (p_memmap p SEG_D) \<le> drop_bit 10 m_ptr"
    and 2: "drop_bit 10 m_ptr \<le> drop_bit 10 (m_ptr + 35)" and 3: "drop_bit 10 (m_ptr + 35) < ?sv + ?sl"
    unfolding mess_ptr_ok_def e Let_def by (simp_all add: not_less not_le)
  have d: "unat (drop_bit 10 w) = unat w div 1024" for w :: u32
    by (simp add: drop_bit_eq_div unat_div)
  have lt: "unat w < 2 ^ LENGTH(32)" for w :: u32 by (rule unsigned_less)
  from 1 have a: "unat (mem_vir (p_memmap p SEG_D)) \<le> unat m_ptr div 1024"
    by (simp add: word_le_nat_alt d)
  from 2 have b: "unat m_ptr div 1024 \<le> unat (m_ptr + 35) div 1024" by (simp add: word_le_nat_alt d)
  have s: "unat (?sv + ?sl) = unat ?sv + unat ?sl"
    using assms(2) by (simp add: unat_word_ariths)
  from 3 have c: "unat (m_ptr + 35) div 1024 < unat ?sv + unat ?sl" by (simp add: word_less_nat_alt d s)
  have u: "unat (m_ptr + 35) = (unat m_ptr + 35) mod 2 ^ 32" by (simp add: unat_word_ariths)
  have w: "unat (m_ptr + 35) = unat m_ptr + 35"
  proof (rule ccontr)
    assume "unat (m_ptr + 35) \<noteq> unat m_ptr + 35"
    with u have ge: "unat m_ptr + 35 \<ge> 2 ^ 32" by (metis mod_less not_le)
    with lt [of m_ptr] have "(unat m_ptr + 35) mod 2 ^ 32 < 35" by (auto simp: mod_if)
    with u b ge show False by simp
  qed
  from a have "unat (mem_vir (p_memmap p SEG_D)) * 1024 \<le> unat m_ptr"
    by (simp add: less_eq_div_iff_mult_less_eq)
  moreover from c w have "unat m_ptr + 35 < (unat ?sv + unat ?sl) * 1024"
    by (simp add: div_less_iff_less_mult)
  ultimately show ?thesis using w lt [of "m_ptr + 35"] by simp
qed

theorem mess_ptr_in_segment_witness:
  "unat (0xFDC :: u32) + MESS_SIZE \<le> 4 * 1024"
  using mess_ptr_in_segment [of "demo_proc 0" "0xFDC"]
  by (simp add: mess_ptr_ok_def demo_proc_def)

end
