(* ===== verification/Kernel_System.thy ===== *)
theory Kernel_System
  imports Kernel_Signal Kernel_Devio Kernel_Syscall
begin

text \<open>
  The system task (\<^verbatim>\<open>sys_task\<close> and \<^verbatim>\<open>initialize\<close> in \<^verbatim>\<open>kernel/system.c\<close>), which dispatches the
  kernel calls of the other theories, and \<^verbatim>\<open>exception\<close> (\<^verbatim>\<open>kernel/exception.c\<close>).

  The static message \<^verbatim>\<open>m\<close> of \<^verbatim>\<open>sys_task\<close> is at address \<open>a\<close> of the data segment of the system
  task; a step of the main loop starts when \<^verbatim>\<open>receive\<close> has returned, with the received message as a
  parameter. The calls \<^verbatim>\<open>do_int86\<close>, \<^verbatim>\<open>do_abort\<close> and \<^verbatim>\<open>do_getinfo\<close> are parameters of the
  dispatcher: they run the BIOS, leave the system, or copy the images of kernel structures.
\<close>

subsection \<open>Model\<close>

text \<open>The calls that are not modelled.\<close>

record other_calls =
  call_int86 :: kcall
  call_abort :: kcall
  call_getinfo :: kcall

definition do_unused :: kcall where
  "do_unused m s = do {
     s1 \<leftarrow> kprintf ''SYSTEM: got unused request %d from %d'' [Signed (m_type m), Signed (m_source m)] s;
     Some (EBADREQUEST, m, s1)
   }"

text \<open>\<^verbatim>\<open>call_vec\<close> as \<^verbatim>\<open>initialize\<close> fills it.\<close>

definition call_vec :: "other_calls \<Rightarrow> proc_layout \<Rightarrow> nat \<Rightarrow> kcall" where
  "call_vec oc lay n =
     (if n = 0 then do_fork else if n = 1 then do_exec else if n = 2 then do_exit
      else if n = 3 then do_nice else if n = 4 then do_privctl else if n = 5 then do_trace lay
      else if n = 6 then do_kill else if n = 7 then do_getksig else if n = 8 then do_endksig
      else if n = 9 then do_sigsend else if n = 10 then do_sigreturn else if n = 11 then do_newmap
      else if n = 12 then do_segctl else if n = 13 then do_memset else if n = 14 then do_umap
      else if n = 15 \<or> n = 16 then do_copy else if n = 17 \<or> n = 18 then do_vcopy
      else if n = 19 then do_irqctl else if n = 20 then call_int86 oc else if n = 21 then do_devio
      else if n = 22 then do_sdevio else if n = 23 then do_vdevio else if n = 24 then do_setalarm
      else if n = 25 then do_times else if n = 26 then call_getinfo oc else if n = 27 then call_abort oc
      else do_unused)"

abbreviation (input) KERNEL_CALL :: int where "KERNEL_CALL \<equiv> 0x600"
abbreviation (input) NR_SYS_CALLS :: nat where "NR_SYS_CALLS \<equiv> 28"

definition initialize_sys :: "kstate \<Rightarrow> kstate" where
  "initialize_sys s =
     s\<lparr>irq_hooks := (\<lambda>i. if i < NR_IRQ_HOOKS then (irq_hooks s i)\<lparr>ih_proc_nr := NONE\<rparr> else irq_hooks s i),
       k_timers := fold tmr_inittimer [0..<NR_SYS_PROCS] (k_timers s)\<rparr>"

text \<open>
  One turn of the main loop. The processor takes the shift count of \<^verbatim>\<open>1 << call_nr\<close> modulo 32.
\<close>

definition sys_task_call :: "other_calls \<Rightarrow> proc_layout \<Rightarrow> kcall" where
  "sys_task_call oc lay m s = do {
     let call_nr = (word_of_int (m_type m) - word_of_int KERNEL_CALL :: u32);
     guard (isokprocn (m_source m) \<and> has_priv s (m_source m));
     if \<not> bit (s_call_mask (priv_of s (m_source m))) (unat call_nr mod 32) then do {
       s1 \<leftarrow> kprintf (''SYSTEM: request %d from %d denied.'' @ [CHR 0x0A])
               [Signed (sint call_nr), Signed (m_source m)] s;
       Some (ECALLDENIED, m, s1)
     }
     else if unat call_nr \<ge> NR_SYS_CALLS then do {
       s1 \<leftarrow> kprintf (''SYSTEM: illegal request %d from %d.'' @ [CHR 0x0A])
               [Signed (sint call_nr), Signed (m_source m)] s;
       Some (EBADREQUEST, m, s1)
     }
     else call_vec oc lay (unat call_nr) m s
   }"

definition sys_task_step :: "other_calls \<Rightarrow> proc_layout \<Rightarrow> u32 \<Rightarrow> message \<Rightarrow> kstate \<Rightarrow> kstate option" where
  "sys_task_step oc lay a m s = do {
     (result, m1, s1) \<leftarrow> sys_task_call oc lay m s;
     if result = EDONTREPLY then Some s1
     else do {
       let m2 = m1\<lparr>m_type := result\<rparr>;
       let s2 = s1\<lparr>k_mem := store_mess (data_phys s1 SYSTEM a) m2 (k_mem s1)\<rparr>;
       (r, s3) \<leftarrow> lock_send (m_source m2) a s2;
       if r \<noteq> OK then kprintf (''SYSTEM, reply to %d failed: %d'' @ [CHR 0x0A])
                       [Signed (m_source m2), Signed r] s3
       else Some s3
     }
   }"

subsection \<open>Model: exceptions\<close>

text \<open>The table of exceptions: message, signal, first processor that has it.\<close>

definition ex_data :: "(string option \<times> int \<times> int) list" where
  "ex_data = [(Some ''Divide error'', 8, 86), (Some ''Debug exception'', 5, 86),
     (Some ''Nonmaskable interrupt'', 10, 86), (Some ''Breakpoint'', 7, 86), (Some ''Overflow'', 8, 86),
     (Some ''Bounds check'', 8, 186), (Some ''Invalid opcode'', 4, 186),
     (Some ''Coprocessor not available'', 8, 186), (Some ''Double fault'', 10, 286),
     (Some ''Copressor segment overrun'', 11, 286), (Some ''Invalid TSS'', 11, 286),
     (Some ''Segment not present'', 11, 286), (Some ''Stack exception'', 11, 286),
     (Some ''General protection'', 11, 286), (Some ''Page fault'', 11, 386), (None, 4, 0),
     (Some ''Coprocessor error'', 8, 386)]"

text \<open>
  \<^verbatim>\<open>exception\<close>, with the variable \<^verbatim>\<open>k_reenter\<close> as an argument; an exception in the kernel itself
  ends in a panic.
\<close>

definition kexception :: "nat \<Rightarrow> int \<Rightarrow> kstate \<Rightarrow> kstate option" where
  "kexception vec_nr k_reenter s = do {
     saved \<leftarrow> proc_ptr s;
     guard (vec_nr < length ex_data);
     if vec_nr = 2 then kprintf (''got spurious NMI'' @ [CHR 0x0A]) [] s
     else if k_reenter = 0 \<and> \<not> iskerneln (p_nr (procs s saved)) then
       cause_sig (p_nr (procs s saved)) (fst (snd (ex_data ! vec_nr))) s
     else None
   }"

end
