(* ===== verification/PM_Types.thy ===== *)
theory PM_Types
  imports Kernel_Types Sigset
begin

text \<open>
  The process manager's data (\<^verbatim>\<open>servers/pm/mproc.h\<close>, \<^verbatim>\<open>glo.h\<close>, the static variables of
  \<^verbatim>\<open>alloc.c\<close>, \<^verbatim>\<open>timers.c\<close>, \<^verbatim>\<open>time.c\<close> and \<^verbatim>\<open>utility.c\<close>).

  Representation. A pointer to a process slot or to a hole is its index, \<open>None\<close> is the null
  pointer. \<^verbatim>\<open>mp_flags\<close> is the set of the bits that are on. The library calls by which the process
  manager talks to the kernel and to the file system (\<^verbatim>\<open>sys_newmap\<close>, \<^verbatim>\<open>tell_fs\<close>, \<^verbatim>\<open>lseek\<close>, ...)
  are messages to other processes: \<open>pm_log\<close> records them in order, and \<open>pm_answer\<close> gives the
  answer to the \<open>n\<close>-th of them, a status and result words. The answers are arbitrary, so what is
  proved holds whatever the kernel and the file system reply.
\<close>

subsection \<open>Constants\<close>

abbreviation (input) NR_PROCS_PM :: nat where "NR_PROCS_PM \<equiv> 64"
abbreviation (input) PM_PROC :: nat where "PM_PROC \<equiv> 0"
abbreviation (input) INIT_PROC :: nat where "INIT_PROC \<equiv> 7"
abbreviation (input) NR_HOLES :: nat where "NR_HOLES \<equiv> 128"
abbreviation (input) NO_MEM :: u32 where "NO_MEM \<equiv> 0"
abbreviation (input) INIT_PID :: int where "INIT_PID \<equiv> 1"
abbreviation (input) NR_PIDS :: int where "NR_PIDS \<equiv> 30000"
abbreviation (input) SUPER_USER :: int where "SUPER_USER \<equiv> 0"

subsection \<open>The process table\<close>

datatype mp_flag =
  IN_USE | WAITING | ZOMBIE | PAUSED | ALARM_ON | SEPARATE | TRACED | STOPPED | SIGSUSPENDED
  | REPLY | ONSWAP | SWAPIN | DONT_SWAP | PRIV_PROC

record sigact =
  sa_handler :: u32
  sa_mask :: u32
  sa_flags :: u32

record mproc =
  mp_seg :: "nat \<Rightarrow> mem_map"
  mp_exitstatus :: int
  mp_sigstatus :: int
  mp_pid :: int
  mp_procgrp :: int
  mp_wpid :: int
  mp_parent :: nat
  mp_child_utime :: int
  mp_child_stime :: int
  mp_realuid :: int
  mp_effuid :: int
  mp_realgid :: int
  mp_effgid :: int
  mp_ino :: u32
  mp_dev :: int
  mp_ctime :: int
  mp_ignore :: u32
  mp_catch :: u32
  mp_sig2mess :: u32
  mp_sigmask :: u32
  mp_sigmask2 :: u32
  mp_sigpending :: u32
  mp_sigact :: "nat \<Rightarrow> sigact"
  mp_sigreturn :: u32
  mp_flags :: "mp_flag set"
  mp_procargs :: u32
  mp_swapq :: "nat option"
  mp_reply :: message
  mp_nice :: int
  mp_name :: string

subsection \<open>Calls to the kernel and the file system\<close>

record sigmsg =
  sm_signo :: int
  sm_mask :: u32
  sm_sighandler :: u32
  sm_sigreturn :: u32
  sm_stkptr :: u32

datatype pm_call =
    Sys_abscopy u32 u32 u32
  | Sys_fork int int
  | Sys_exit int
  | Sys_newmap int "nat \<Rightarrow> mem_map"
  | Sys_times int
  | Sys_getuptime
  | Sys_setalarm int
  | Sys_getproc int
  | Sys_sigsend int sigmsg
  | Sys_sigreturn int u32
  | Sys_kill int int
  | Sys_getksig
  | Sys_endksig int
  | Sys_trace int int u32 u32
  | Sys_nice int int
  | Sys_datacopy int u32 int u32 u32
  | Sys_memset u32 u32 u32
  | Sys_exec int u32 u32
  | Sys_abort int
  | Tell_fs string int int int
  | Fs_open string u32
  | Fs_close int
  | Fs_lseek int u32
  | Fs_read int u32 u32
  | Fs_write int u32 u32
  | Pm_send int message

subsection \<open>The state\<close>

record hole =
  h_next :: "nat option"
  h_base :: u32
  h_len :: u32

text \<open>\<open>mp\<close>, \<open>who\<close>, \<open>m_in\<close> and \<open>call_nr\<close> describe the call being served.\<close>

record pmstate =
  mprocs :: "nat \<Rightarrow> mproc"
  mp :: nat
  who :: int
  m_in :: message
  call_nr :: int
  procs_in_use :: int
  core_sset :: u32
  ign_sset :: u32
  holes :: "nat \<Rightarrow> hole"
  hole_head :: "nat option"
  free_slots :: "nat option"
  swap_fd :: int
  swap_offset :: u32
  swap_base :: u32
  swap_maxsize :: u32
  in_queue :: "nat option"
  outswap :: nat
  pm_timer_heap :: "nat \<Rightarrow> unit timer"
  pm_timers :: "nat option"
  next_pid :: int
  boottime :: int
  pm_log :: "pm_call list"
  pm_answer :: "nat \<Rightarrow> int \<times> u32 list"

definition upd_mproc :: "nat \<Rightarrow> (mproc \<Rightarrow> mproc) \<Rightarrow> pmstate \<Rightarrow> pmstate" where
  "upd_mproc n f s = s\<lparr>mprocs := (mprocs s)(n := f (mprocs s n))\<rparr>"

definition upd_hole :: "nat \<Rightarrow> (hole \<Rightarrow> hole) \<Rightarrow> pmstate \<Rightarrow> pmstate" where
  "upd_hole h f s = s\<lparr>holes := (holes s)(h := f (holes s h))\<rparr>"

text \<open>A call and its answer: a status and the \<open>i\<close>-th result word.\<close>

definition pm_do :: "pm_call \<Rightarrow> pmstate \<Rightarrow> (int \<times> u32 list) \<times> pmstate" where
  "pm_do c s = (pm_answer s (length (pm_log s)), s\<lparr>pm_log := pm_log s @ [c]\<rparr>)"

definition pm_tell :: "pm_call \<Rightarrow> pmstate \<Rightarrow> pmstate" where
  "pm_tell c s = s\<lparr>pm_log := pm_log s @ [c]\<rparr>"

definition word_at :: "nat \<Rightarrow> u32 list \<Rightarrow> u32" where
  "word_at i ws = (if i < length ws then ws ! i else 0)"

text \<open>The loop \<^verbatim>\<open>for (rmp = &mproc[0]; rmp < &mproc[NR_PROCS]; rmp++)\<close> visits these slots.\<close>

definition mproc_nrs :: "nat list" where
  "mproc_nrs = [0..<NR_PROCS_PM]"

lemma set_mproc_nrs [simp]: "set mproc_nrs = {0..<NR_PROCS_PM}"
  by (simp only: mproc_nrs_def set_upt)

lemma distinct_mproc_nrs: "distinct mproc_nrs"
  unfolding mproc_nrs_def by (rule distinct_upt)

end
