(* ===== verification/PM_Alloc.thy ===== *)
theory PM_Alloc
  imports PM_Types
begin

text \<open>
  Physical memory of the process manager, \<^verbatim>\<open>servers/pm/alloc.c\<close> (and \<^verbatim>\<open>rw_seg\<close> of
  \<^verbatim>\<open>exec.c\<close>): the table of holes, first-fit allocation, freeing with coalescing, and swapping
  processes out when memory is short. \<^verbatim>\<open>swap_in\<close> and \<^verbatim>\<open>swap_off\<close>, which bring processes back and
  deliver signals, are not modelled.

  Shown here: the holes stay a sorted list of disjoint blocks no two of which adjoin; allocation
  takes the front of the first hole that is large enough; freeing adds exactly the block; freeing
  what was allocated restores the set of free clicks; the images of the processes stay disjoint from
  each other, from the holes and from all other memory in use, also when swapping moves them; and
  the loop of \<open>alloc_mem\<close> around the swapper ends.
\<close>

subsection \<open>Model: holes\<close>

definition del_slot :: "nat option \<Rightarrow> nat \<Rightarrow> pmstate \<Rightarrow> pmstate option" where
  "del_slot pp hp s = do {
     s1 \<leftarrow> (if Some hp = hole_head s then Some (s\<lparr>hole_head := h_next (holes s hp)\<rparr>)
            else do {
              p \<leftarrow> pp;
              Some (upd_hole p (\<lambda>h. h\<lparr>h_next := h_next (holes s hp)\<rparr>) s)
            });
     let s2 = upd_hole hp (\<lambda>h. h\<lparr>h_next := free_slots s1\<rparr>) s1;
     Some (s2\<lparr>free_slots := Some hp\<rparr>)
   }"

text \<open>One half of \<^verbatim>\<open>merge\<close>: absorb the successor; the hole to go on with, none at the end of the list.\<close>

definition merge_next :: "nat \<Rightarrow> pmstate \<Rightarrow> (nat option \<times> pmstate) option" where
  "merge_next hp s =
     (case h_next (holes s hp) of
        None \<Rightarrow> Some (None, s)
      | Some nx \<Rightarrow>
          if h_base (holes s hp) + h_len (holes s hp) = h_base (holes s nx) then do {
            let s1 = upd_hole hp (\<lambda>h. h\<lparr>h_len := h_len h + h_len (holes s nx)\<rparr>) s;
            s2 \<leftarrow> del_slot (Some hp) nx s1;
            Some (Some hp, s2)
          }
          else Some (Some nx, s))"

definition merge_hole :: "nat \<Rightarrow> pmstate \<Rightarrow> pmstate option" where
  "merge_hole hp s = do {
     (r, s1) \<leftarrow> merge_next hp s;
     case r of
       None \<Rightarrow> Some s1
     | Some hp1 \<Rightarrow> do { (_, s2) \<leftarrow> merge_next hp1 s1; Some s2 }
   }"

text \<open>The loop of \<^verbatim>\<open>free_mem\<close> that looks for the place of the block; the result is \<^verbatim>\<open>prev_ptr\<close>.\<close>

partial_function (option) find_place ::
  "u32 \<Rightarrow> nat option \<Rightarrow> nat option \<Rightarrow> pmstate \<Rightarrow> nat option option" where
  "find_place base pp hp s =
     (case hp of
        None \<Rightarrow> Some pp
      | Some h \<Rightarrow> if h_base (holes s h) < base then find_place base (Some h) (h_next (holes s h)) s
                  else Some pp)"

text \<open>A full hole table is a panic.\<close>

definition free_mem :: "u32 \<Rightarrow> u32 \<Rightarrow> pmstate \<Rightarrow> pmstate option" where
  "free_mem base clicks s =
     (if clicks = 0 then Some s
      else do {
        new_ptr \<leftarrow> free_slots s;
        let s1 = (upd_hole new_ptr (\<lambda>h. h\<lparr>h_base := base, h_len := clicks\<rparr>) s)
                   \<lparr>free_slots := h_next (holes s new_ptr)\<rparr>;
        let hp = hole_head s1;
        if hp = None \<or> base \<le> h_base (holes s1 (the hp)) then
          merge_hole new_ptr ((upd_hole new_ptr (\<lambda>h. h\<lparr>h_next := hp\<rparr>) s1)\<lparr>hole_head := Some new_ptr\<rparr>)
        else do {
          prev \<leftarrow> find_place base None hp s1;
          pp \<leftarrow> prev;
          let s2 = upd_hole new_ptr (\<lambda>h. h\<lparr>h_next := h_next (holes s1 pp)\<rparr>) s1;
          merge_hole pp (upd_hole pp (\<lambda>h. h\<lparr>h_next := Some new_ptr\<rparr>) s2)
        }
      })"

text \<open>The search of \<^verbatim>\<open>alloc_mem\<close>: the hole found with its predecessor.\<close>

partial_function (option) first_fit ::
  "u32 \<Rightarrow> nat option \<Rightarrow> nat option \<Rightarrow> pmstate \<Rightarrow> (nat option \<times> nat) option option" where
  "first_fit clicks pp hp s =
     (case hp of
        None \<Rightarrow> Some None
      | Some h \<Rightarrow>
          if h_base (holes s h) < swap_base s then
            if clicks \<le> h_len (holes s h) then Some (Some (pp, h))
            else first_fit clicks (Some h) (h_next (holes s h)) s
          else Some None)"

text \<open>Biting a piece off a hole, in \<^verbatim>\<open>alloc_mem\<close> and in \<^verbatim>\<open>swap_out\<close>.\<close>

definition bite_hole :: "u32 \<Rightarrow> nat option \<Rightarrow> nat \<Rightarrow> pmstate \<Rightarrow> (u32 \<times> pmstate) option" where
  "bite_hole clicks pp hp s = do {
     let old_base = h_base (holes s hp);
     let s1 = upd_hole hp (\<lambda>h. h\<lparr>h_base := h_base h + clicks, h_len := h_len h - clicks\<rparr>) s;
     s2 \<leftarrow> (if h_len (holes s1 hp) = 0 then del_slot pp hp s1 else Some s1);
     Some (old_base, s2)
   }"

subsection \<open>Model: swapping out\<close>

text \<open>
  \<^verbatim>\<open>rw_seg\<close>: the file system transfers the segment directly; the slot and the segment travel in
  the file descriptor. \<^verbatim>\<open>PM_CHUNK_SIZE\<close> divides the largest \<^verbatim>\<open>int\<close> into chunks.
\<close>

abbreviation (input) RW_MAX :: u32 where "RW_MAX \<equiv> 2147475456"

lemma chunk_less: "n \<noteq> 0 \<Longrightarrow> unat (n - min RW_MAX n) < unat (n :: u32)"
proof -
  assume n: "n \<noteq> 0"
  have le: "min RW_MAX n \<le> n" by (rule min.cobounded2)
  have "unat (min RW_MAX n) \<noteq> 0" using n by (simp add: min_def unat_eq_0)
  moreover have "unat (min RW_MAX n) \<le> unat n" using le by (simp add: word_le_nat_alt)
  moreover have "unat (n - min RW_MAX n) = unat n - unat (min RW_MAX n)" by (rule unat_sub [OF le])
  ultimately show ?thesis by linarith
qed

function rw_seg_loop :: "bool \<Rightarrow> int \<Rightarrow> u32 \<Rightarrow> u32 \<Rightarrow> pmstate \<Rightarrow> pmstate" where
  "rw_seg_loop rw new_fd ubuf seg_bytes s =
     (if seg_bytes = 0 then s
      else (case pm_do ((if rw then Fs_write else Fs_read) new_fd ubuf (min RW_MAX seg_bytes)) s of
              (r, s1) \<Rightarrow>
                if fst r \<noteq> uint (min RW_MAX seg_bytes) then s1
                else rw_seg_loop rw new_fd (ubuf + min RW_MAX seg_bytes)
                       (seg_bytes - min RW_MAX seg_bytes) s1))"
  by pat_completeness simp
termination
  by (relation "measure (\<lambda>(_, _, _, b, _). unat b)") (simp, simp only: in_measure prod.case chunk_less not_False_eq_True)

declare rw_seg_loop.simps [simp del]

definition rw_seg :: "bool \<Rightarrow> int \<Rightarrow> nat \<Rightarrow> nat \<Rightarrow> u32 \<Rightarrow> pmstate \<Rightarrow> pmstate" where
  "rw_seg rw fd n seg seg_bytes s =
     rw_seg_loop rw (push_bit 7 (int n) OR push_bit 5 (int seg) OR fd)
       (push_bit CLICK_SHIFT (mem_vir (mp_seg (mprocs s n) seg))) seg_bytes s"

definition image_size :: "mproc \<Rightarrow> u32" where
  "image_size p = mem_vir (mp_seg p SEG_S) + mem_len (mp_seg p SEG_S) - mem_vir (mp_seg p SEG_D)"

text \<open>Moving the data and stack segments of a process to a new base.\<close>

definition move_image :: "u32 \<Rightarrow> mproc \<Rightarrow> mproc" where
  "move_image base p =
     (let m = mp_seg p; d = (m SEG_D)\<lparr>mem_phys := base\<rparr>;
          st = (m SEG_S)\<lparr>mem_phys := base + (mem_vir (m SEG_S) - mem_vir (m SEG_D))\<rparr>
      in p\<lparr>mp_seg := m(SEG_D := d, SEG_S := st)\<rparr>)"

definition swap_candidate :: "mproc \<Rightarrow> bool" where
  "swap_candidate p \<longleftrightarrow> mp_flags p \<inter> {PAUSED, WAITING, SIGSUSPENDED} \<noteq> {} \<and>
     mp_flags p \<inter> {DONT_SWAP, TRACED, REPLY, ONSWAP} = {}"

partial_function (option) find_swap_hole ::
  "u32 \<Rightarrow> nat option \<Rightarrow> nat option \<Rightarrow> pmstate \<Rightarrow> (nat option \<times> nat) option option" where
  "find_swap_hole sz pp hp s =
     (case hp of
        None \<Rightarrow> Some None
      | Some h \<Rightarrow> if swap_base s \<le> h_base (holes s h) \<and> sz \<le> h_len (holes s h) then Some (Some (pp, h))
                  else find_swap_hole sz (Some h) (h_next (holes s h)) s)"

definition swap_to :: "nat \<Rightarrow> nat option \<Rightarrow> nat \<Rightarrow> pmstate \<Rightarrow> pmstate option" where
  "swap_to n pp hp s = do {
     let sz = image_size (mprocs s n);
     (new_base, s1) \<leftarrow> bite_hole sz pp hp s;
     let off = swap_offset s1 + push_bit CLICK_SHIFT (new_base - swap_base s1);
     let s2 = pm_tell (Fs_lseek (swap_fd s1) off) s1;
     let s3 = rw_seg True (swap_fd s2) n SEG_D (push_bit CLICK_SHIFT sz) s2;
     let old_base = mem_phys (mp_seg (mprocs s3 n) SEG_D);
     let s4 = upd_mproc n (move_image new_base) s3;
     let s5 = pm_tell (Sys_newmap (int n) (mp_seg (mprocs s4 n))) s4;
     s6 \<leftarrow> free_mem old_base sz s5;
     let s7 = upd_mproc n (\<lambda>p. p\<lparr>mp_flags := mp_flags p \<union> {ONSWAP}\<rparr>) s6;
     Some (s7\<lparr>outswap := n\<rparr>)
   }"

fun swap_try :: "nat list \<Rightarrow> pmstate \<Rightarrow> (bool \<times> pmstate) option" where
  "swap_try [] s = Some (False, s)"
| "swap_try (n # ns) s =
     (if swap_candidate (mprocs s n) then do {
        r \<leftarrow> find_swap_hole (image_size (mprocs s n)) None (hole_head s) s;
        case r of
          None \<Rightarrow> swap_try ns s
        | Some (pp, hp) \<Rightarrow> do { s1 \<leftarrow> swap_to n pp hp s; Some (True, s1) }
      }
      else swap_try ns s)"

text \<open>The slots in the order of the loop, which starts after \<^verbatim>\<open>outswap\<close> and ends with it.\<close>

definition ring_from :: "nat \<Rightarrow> nat list" where
  "ring_from n = [Suc n..<NR_PROCS_PM] @ [0..<Suc n]"

definition swap_out :: "pmstate \<Rightarrow> (bool \<times> pmstate) option" where
  "swap_out s = swap_try (ring_from (outswap s)) s"

partial_function (option) alloc_mem :: "u32 \<Rightarrow> pmstate \<Rightarrow> (u32 \<times> pmstate) option" where
  "alloc_mem clicks s = do {
     r \<leftarrow> first_fit clicks None (hole_head s) s;
     case r of
       Some (pp, hp) \<Rightarrow> bite_hole clicks pp hp s
     | None \<Rightarrow> do {
         (again, s1) \<leftarrow> swap_out s;
         if again then alloc_mem clicks s1 else Some (NO_MEM, s1)
       }
   }"

subsection \<open>Model: initialisation and the swap area\<close>

text \<open>\<open>chunks\<close> are the \<^verbatim>\<open>NR_MEMS\<close> pairs (base, size); the loop goes from the last to the first.\<close>

fun mem_init_loop :: "(u32 \<times> u32) list \<Rightarrow> u32 \<Rightarrow> pmstate \<Rightarrow> (u32 \<times> pmstate) option" where
  "mem_init_loop [] free s = Some (free, s)"
| "mem_init_loop ((base, sz) # cs) free s =
     (if 0 < sz then do {
        s1 \<leftarrow> free_mem base sz s;
        let s2 = (if swap_base s1 < base + sz then s1\<lparr>swap_base := base + sz\<rparr> else s1);
        mem_init_loop cs (free + sz) s2
      }
      else mem_init_loop cs free s)"

definition mem_init :: "(u32 \<times> u32) list \<Rightarrow> pmstate \<Rightarrow> (u32 \<times> pmstate) option" where
  "mem_init chunks s = do {
     let hs = (\<lambda>i. if i < NR_HOLES then (holes s i)\<lparr>h_next := (if i = NR_HOLES - 1 then None else Some (i + 1))\<rparr>
                   else holes s i);
     (free, s1) \<leftarrow> mem_init_loop (rev chunks) 0 (s\<lparr>holes := hs, hole_head := None, free_slots := Some 0\<rparr>);
     let s2 = s1\<lparr>swap_base := swap_base s1 + 1\<rparr>;
     Some (free, s2\<lparr>swap_maxsize := 0 - swap_base s2\<rparr>)
   }"

text \<open>The answer to \<^verbatim>\<open>open\<close> is a file descriptor or a negative error number.\<close>

definition swap_on :: "string \<Rightarrow> u32 \<Rightarrow> u32 \<Rightarrow> pmstate \<Rightarrow> (int \<times> pmstate) option" where
  "swap_on file offset sz s =
     (if swap_fd s \<noteq> - 1 then Some (EBUSY, s)
      else do {
        let s1 = pm_tell (Tell_fs ''CHDIR'' (who s) 0 0) s;
        let ((fd, _), s2) = pm_do (Fs_open file 2) s1;
        if fd < 0 then Some (fd, s2\<lparr>swap_fd := - 1\<rparr>)
        else do {
          let s3 = s2\<lparr>swap_fd := fd, swap_offset := offset\<rparr>;
          let clicks = drop_bit CLICK_SHIFT sz;
          let sz1 = (if swap_maxsize s3 < clicks then swap_maxsize s3 else clicks);
          s4 \<leftarrow> (if 0 < sz1 then free_mem (swap_base s3) sz1 s3 else Some s3);
          Some (OK, s4)
        }
      })"

definition swap_inqueue :: "nat \<Rightarrow> pmstate \<Rightarrow> pmstate option" where
  "swap_inqueue n s =
     (if SWAPIN \<in> mp_flags (mprocs s n) then Some s
      else do {
        pmp \<leftarrow> chain_find (\<lambda>_. False) (in_queue s) (\<lambda>i. mp_swapq (mprocs s i)) Head;
        let s1 = (case pmp of Head \<Rightarrow> s\<lparr>in_queue := Some n\<rparr>
                  | Link i \<Rightarrow> upd_mproc i (\<lambda>p. p\<lparr>mp_swapq := Some n\<rparr>) s);
        Some (upd_mproc n (\<lambda>p. p\<lparr>mp_swapq := None, mp_flags := mp_flags p \<union> {SWAPIN}\<rparr>) s1)
      })"

subsection \<open>The lists of holes\<close>

definition hnx :: "pmstate \<Rightarrow> nat \<Rightarrow> nat option" where
  "hnx s h = h_next (holes s h)"

definition blk :: "pmstate \<Rightarrow> nat \<Rightarrow> nat \<times> nat" where
  "blk s h = (unat (h_base (holes s h)), unat (h_len (holes s h)))"

text \<open>The hole list and the list of unused slots are well formed and share the table.\<close>

definition hole_lists :: "pmstate \<Rightarrow> nat list \<Rightarrow> nat list \<Rightarrow> bool" where
  "hole_lists s xs fs \<longleftrightarrow>
     chain (hnx s) (hole_head s) xs \<and> chain (hnx s) (free_slots s) fs \<and>
     set xs \<union> set fs = {..<NR_HOLES} \<and> set xs \<inter> set fs = {}"

text \<open>Operations on holes touch nothing else.\<close>

definition hole_frame :: "pmstate \<Rightarrow> pmstate \<Rightarrow> bool" where
  "hole_frame s s' \<longleftrightarrow>
     (\<exists>hs p q. s' = s\<lparr>holes := hs, hole_head := p, free_slots := q\<rparr>)"

lemma hole_frame_trans [trans]: "hole_frame s s1 \<Longrightarrow> hole_frame s1 s2 \<Longrightarrow> hole_frame s s2"
  unfolding hole_frame_def by fastforce

lemma hole_frame_updI [simp]:
  "hole_frame s s" "hole_frame s (upd_hole h f s)" "hole_frame s (s\<lparr>hole_head := v\<rparr>)"
  "hole_frame s (s\<lparr>free_slots := v\<rparr>)"
proof -
  have "s = s\<lparr>holes := holes s, hole_head := hole_head s, free_slots := free_slots s\<rparr>" by simp
  then show "hole_frame s s" unfolding hole_frame_def by blast
  have "upd_hole h f s = s\<lparr>holes := (holes s)(h := f (holes s h)), hole_head := hole_head s,
      free_slots := free_slots s\<rparr>" by (simp add: upd_hole_def)
  then show "hole_frame s (upd_hole h f s)" unfolding hole_frame_def by blast
  have "s\<lparr>hole_head := v\<rparr> = s\<lparr>holes := holes s, hole_head := v, free_slots := free_slots s\<rparr>" by simp
  then show "hole_frame s (s\<lparr>hole_head := v\<rparr>)" unfolding hole_frame_def by blast
  have "s\<lparr>free_slots := v\<rparr> = s\<lparr>holes := holes s, hole_head := hole_head s, free_slots := v\<rparr>" by simp
  then show "hole_frame s (s\<lparr>free_slots := v\<rparr>)" unfolding hole_frame_def by blast
qed

lemma hole_frame_step [simp]:
  "hole_frame s s1 \<Longrightarrow> hole_frame s (upd_hole h f s1)"
  "hole_frame s s1 \<Longrightarrow> hole_frame s (s1\<lparr>hole_head := v\<rparr>)"
  "hole_frame s s1 \<Longrightarrow> hole_frame s (s1\<lparr>free_slots := v\<rparr>)"
  by (erule hole_frame_trans, rule hole_frame_updI)+

lemma hole_frame_sel:
  assumes "hole_frame s s'"
  shows "mprocs s' = mprocs s" "swap_base s' = swap_base s" "pm_log s' = pm_log s"
    "pm_answer s' = pm_answer s" "swap_fd s' = swap_fd s" "swap_offset s' = swap_offset s"
    "outswap s' = outswap s" "in_queue s' = in_queue s" "mp s' = mp s" "who s' = who s"
    "m_in s' = m_in s" "procs_in_use s' = procs_in_use s" "swap_maxsize s' = swap_maxsize s"
    "next_pid s' = next_pid s" "ign_sset s' = ign_sset s" "core_sset s' = core_sset s"
  using assms unfolding hole_frame_def by auto

lemma hnx_upd [simp]:
  "hnx (upd_hole h (\<lambda>x. x\<lparr>h_next := v\<rparr>) s) = (hnx s)(h := v)"
  "hnx (upd_hole h (\<lambda>x. x\<lparr>h_len := w x\<rparr>) s) = hnx s"
  "hnx (upd_hole h (\<lambda>x. x\<lparr>h_base := b x, h_len := l x\<rparr>) s) = hnx s"
  "hnx (s\<lparr>hole_head := p\<rparr>) = hnx s" "hnx (s\<lparr>free_slots := q\<rparr>) = hnx s"
  by (auto simp: hnx_def upd_hole_def)

lemma blk_upd [simp]:
  "blk (upd_hole h (\<lambda>x. x\<lparr>h_next := v\<rparr>) s) = blk s"
  "blk (s\<lparr>hole_head := p\<rparr>) = blk s" "blk (s\<lparr>free_slots := q\<rparr>) = blk s"
  by (auto simp: blk_def upd_hole_def)

lemma upd_hole_sel [simp]:
  "hole_head (upd_hole h f s) = hole_head s" "free_slots (upd_hole h f s) = free_slots s"
  "mprocs (upd_hole h f s) = mprocs s" "swap_base (upd_hole h f s) = swap_base s"
  "holes (upd_hole h f s) = (holes s)(h := f (holes s h))"
  by (simp_all add: upd_hole_def)

lemma hole_lists_cong:
  "hnx s' = hnx s \<Longrightarrow> hole_head s' = hole_head s \<Longrightarrow> free_slots s' = free_slots s \<Longrightarrow>
   hole_lists s' xs fs \<longleftrightarrow> hole_lists s xs fs"
  by (simp add: hole_lists_def)

lemma hole_lists_frame:
  "holes s' = holes s \<Longrightarrow> hole_head s' = hole_head s \<Longrightarrow> free_slots s' = free_slots s \<Longrightarrow>
   hole_lists s' xs fs \<longleftrightarrow> hole_lists s xs fs"
  by (rule hole_lists_cong) (auto simp: hnx_def)

lemma hole_lists_less: "hole_lists s xs fs \<Longrightarrow> h \<in> set xs \<Longrightarrow> h < NR_HOLES"
  unfolding hole_lists_def by auto

lemma del_slot_spec:
  assumes "hole_lists s (us @ h # vs) fs" "us \<noteq> [] \<Longrightarrow> pp = Some (last us)"
  obtains s' where "del_slot pp h s = Some s'" "hole_lists s' (us @ vs) (h # fs)"
    "blk s' = blk s" "hole_frame s s'"
proof -
  let ?link = "\<lambda>s1. (upd_hole h (\<lambda>x. x\<lparr>h_next := free_slots s1\<rparr>) s1)\<lparr>free_slots := Some h\<rparr>"
  have c: "chain (hnx s) (hole_head s) (us @ h # vs)" "chain (hnx s) (free_slots s) fs"
    and p: "set (us @ h # vs) \<union> set fs = {..<NR_HOLES}" "set (us @ h # vs) \<inter> set fs = {}"
    using assms(1) unfolding hole_lists_def by blast+
  have d: "h \<notin> set us" "h \<notin> set vs" "h \<notin> set fs" using chain_distinct [OF c(1)] p(2) by auto
  show ?thesis
  proof (cases us rule: rev_cases)
    case Nil
    with c(1) have hd: "hole_head s = Some h" and t: "chain (hnx s) (hnx s h) vs" by simp_all
    let ?s1 = "s\<lparr>hole_head := hnx s h\<rparr>"
    have "del_slot pp h s = Some (?link ?s1)"
      using hd by (simp add: del_slot_def Let_def hnx_def)
    moreover have "hole_lists (?link ?s1) (us @ vs) (h # fs)"
      using t c(2) d p Nil by (auto simp: hole_lists_def chain_upd)
    ultimately show ?thesis
      by (rule that) simp_all
  next
    case (snoc us' u)
    let ?s1 = "upd_hole u (\<lambda>x. x\<lparr>h_next := hnx s h\<rparr>) s"
    have nh: "hole_head s \<noteq> Some h" using c(1) d(1) snoc by (cases us') auto
    have ch: "chain ((hnx s)(u := hnx s h)) (hole_head s) (us @ vs)"
      using chain_unlink [OF c(1)] snoc by simp
    have uf: "u \<notin> set fs" "u \<noteq> h" using p(2) snoc d by auto
    have "del_slot pp h s = Some (?link ?s1)"
      using nh assms(2) snoc by (simp add: del_slot_def Let_def hnx_def)
    moreover have "hole_lists (?link ?s1) (us @ vs) (h # fs)"
      unfolding hole_lists_def using ch c(2) d uf p
      by (auto simp: chain_upd)
    ultimately show ?thesis
      by (rule that) simp_all
  qed
qed

subsection \<open>Lists of blocks\<close>

text \<open>
  A block is a base and a length. The hole table keeps them sorted, with a gap between neighbours
  (\<open>sep\<close>); while a block is being returned neighbours may touch (\<open>wsep\<close>). No hole starts at
  click 0, which holds the interrupt vectors: \<^verbatim>\<open>NO_MEM\<close> is 0.
\<close>

definition block_ok :: "nat \<times> nat \<Rightarrow> bool" where
  "block_ok p \<longleftrightarrow> 0 < fst p \<and> 0 < snd p \<and> fst p + snd p \<le> 2 ^ 32"

definition sep :: "(nat \<times> nat) list \<Rightarrow> bool" where
  "sep bs \<longleftrightarrow> list_all block_ok bs \<and> sorted_wrt (\<lambda>p q. fst p + snd p < fst q) bs"

definition wsep :: "(nat \<times> nat) list \<Rightarrow> bool" where
  "wsep bs \<longleftrightarrow> list_all block_ok bs \<and> sorted_wrt (\<lambda>p q. fst p + snd p \<le> fst q) bs"

definition clicks_of :: "(nat \<times> nat) list \<Rightarrow> nat set" where
  "clicks_of bs = (\<Union>p\<in>set bs. {fst p..<fst p + snd p})"

fun coalesce :: "(nat \<times> nat) list \<Rightarrow> (nat \<times> nat) list" where
  "coalesce (p # q # bs) =
     (if fst p + snd p = fst q then coalesce ((fst p, snd p + snd q) # bs) else p # coalesce (q # bs))"
| "coalesce bs = bs"

lemma sep_simps [simp]:
  "sep []" "wsep []"
  "sep (p # bs) \<longleftrightarrow> block_ok p \<and> (\<forall>q\<in>set bs. fst p + snd p < fst q) \<and> sep bs"
  "wsep (p # bs) \<longleftrightarrow> block_ok p \<and> (\<forall>q\<in>set bs. fst p + snd p \<le> fst q) \<and> wsep bs"
  by (auto simp: sep_def wsep_def)

lemma sep_append:
  "sep (as @ bs) \<longleftrightarrow> sep as \<and> sep bs \<and> (\<forall>p\<in>set as. \<forall>q\<in>set bs. fst p + snd p < fst q)"
  "wsep (as @ bs) \<longleftrightarrow> wsep as \<and> wsep bs \<and> (\<forall>p\<in>set as. \<forall>q\<in>set bs. fst p + snd p \<le> fst q)"
  by (auto simp: sep_def wsep_def sorted_wrt_append)

lemma sep_wsep: "sep bs \<Longrightarrow> wsep bs"
  by (induction bs) (auto simp: less_imp_le)

lemma clicks_of_simps [simp]:
  "clicks_of [] = {}" "clicks_of (p # bs) = {fst p..<fst p + snd p} \<union> clicks_of bs"
  "clicks_of (as @ bs) = clicks_of as \<union> clicks_of bs"
  by (auto simp: clicks_of_def)

lemma coalesce_sep: "sep bs \<Longrightarrow> coalesce bs = bs"
  by (induction bs rule: coalesce.induct) auto

lemma coalesce_lower: "wsep bs \<Longrightarrow> q \<in> set (coalesce bs) \<Longrightarrow> \<exists>p\<in>set bs. fst p = fst q"
proof (induction bs rule: coalesce.induct)
  case (1 p r bs)
  show ?case
  proof (cases "fst p + snd p = fst r")
    case True
    with 1(3) have "wsep ((fst p, snd p + snd r) # bs)"
      by (auto simp: block_ok_def)
    with 1(1) [OF True] 1(4) True show ?thesis by fastforce
  next
    case False
    with 1 show ?thesis by auto
  qed
qed auto

lemma coalesce_spec: "wsep bs \<Longrightarrow> sep (coalesce bs) \<and> clicks_of (coalesce bs) = clicks_of bs"
proof (induction bs rule: coalesce.induct)
  case (1 p r bs)
  show ?case
  proof (cases "fst p + snd p = fst r")
    case True
    from 1(3) True have w: "wsep ((fst p, snd p + snd r) # bs)"
      by (auto simp: block_ok_def)
    have "clicks_of ((fst p, snd p + snd r) # bs) = clicks_of (p # r # bs)"
      using True by auto
    with 1(1) [OF True w] True show ?thesis by simp
  next
    case False
    with 1(3) have w: "wsep (r # bs)" and lt: "fst p + snd p < fst r" and p: "block_ok p"
      by (auto simp: less_le)
    have "\<forall>q\<in>set (coalesce (r # bs)). fst p + snd p < fst q"
    proof
      fix q assume "q \<in> set (coalesce (r # bs))"
      from coalesce_lower [OF w this] obtain x where "x \<in> set (r # bs)" "fst x = fst q" by blast
      with lt w show "fst p + snd p < fst q" by (auto simp: block_ok_def)
    qed
    with 1(2) [OF False w] False p show ?thesis by simp
  qed
qed auto

lemma coalesce_join:
  assumes "sep (q # bs)" "fst p + snd p = fst q" "block_ok p"
  shows "coalesce ((fst p, snd p + snd q) # bs) = (fst p, snd p + snd q) # bs"
proof (rule coalesce_sep)
  have "\<forall>x\<in>set bs. fst p + (snd p + snd q) < fst x"
  proof
    fix x assume "x \<in> set bs"
    with assms(1) have "fst q + snd q < fst x" by simp
    with assms(2) show "fst p + (snd p + snd q) < fst x" by linarith
  qed
  with assms show "sep ((fst p, snd p + snd q) # bs)"
    by (simp add: block_ok_def)
qed

text \<open>A list of blocks with gaps is determined by the clicks it covers.\<close>

lemma sep_above: "sep (p # bs) \<Longrightarrow> x \<in> clicks_of bs \<Longrightarrow> fst p + snd p < x"
  by (auto simp: clicks_of_def)

lemma sep_first_le:
  assumes "sep (p # as)" "sep (q # bs)" "clicks_of (p # as) = clicks_of (q # bs)"
  shows "fst q \<le> fst p" "fst p = fst q \<Longrightarrow> snd p \<le> snd q"
proof -
  have "fst p \<in> clicks_of (p # as)" using assms(1) by (simp add: block_ok_def)
  with assms(3) have "fst p \<in> clicks_of (q # bs)" by simp
  then show "fst q \<le> fst p" using sep_above [OF assms(2)] by fastforce
  show "snd p \<le> snd q" if e: "fst p = fst q"
  proof (rule ccontr)
    assume "\<not> snd p \<le> snd q"
    then have "fst q + snd q \<in> clicks_of (p # as)" using e by simp
    with assms(3) have "fst q + snd q \<in> clicks_of (q # bs)" by simp
    then show False using sep_above [OF assms(2), of "fst q + snd q"] by auto
  qed
qed

lemma sep_unique: "sep as \<Longrightarrow> sep bs \<Longrightarrow> clicks_of as = clicks_of bs \<Longrightarrow> as = bs"
proof (induction as arbitrary: bs)
  case Nil
  then show ?case by (cases bs) (auto simp: block_ok_def)
next
  case (Cons p as)
  show ?case
  proof (cases bs)
    case Nil
    with Cons.prems show ?thesis by (auto simp: block_ok_def)
  next
    case bs: (Cons q rs)
    note pq = sep_first_le [OF Cons.prems(1) Cons.prems(2,3) [unfolded bs]]
      sep_first_le [OF Cons.prems(2) [unfolded bs] Cons.prems(1) Cons.prems(3) [unfolded bs, symmetric]]
    then have e: "p = q" by (auto intro: prod_eqI)
    have "clicks_of as = clicks_of (p # as) - {fst p..<fst p + snd p}"
      using sep_above [OF Cons.prems(1)] by fastforce
    moreover have "clicks_of rs = clicks_of (q # rs) - {fst q..<fst q + snd q}"
      using sep_above [OF Cons.prems(2) [unfolded bs]] by fastforce
    ultimately have "clicks_of as = clicks_of rs" using Cons.prems(3) e bs by simp
    with Cons e bs show ?thesis by simp
  qed
qed

subsection \<open>Merging\<close>

abbreviation (input) blks :: "pmstate \<Rightarrow> nat list \<Rightarrow> (nat \<times> nat) list" where
  "blks s xs \<equiv> map (blk s) xs"

lemma touching_iff:
  assumes "wsep (blks s [h, n])"
  shows "h_base (holes s h) + h_len (holes s h) = h_base (holes s n) \<longleftrightarrow>
           fst (blk s h) + snd (blk s h) = fst (blk s n)"
    and "unat (h_len (holes s h) + h_len (holes s n)) = snd (blk s h) + snd (blk s n)"
proof -
  have b: "fst (blk s h) + snd (blk s h) \<le> fst (blk s n)" "0 < fst (blk s h)"
    "fst (blk s n) + snd (blk s n) \<le> 2 ^ 32" "0 < snd (blk s n)"
    using assms by (auto simp: block_ok_def)
  then have "fst (blk s h) + snd (blk s h) < 2 ^ LENGTH(32)" "snd (blk s h) + snd (blk s n) < 2 ^ LENGTH(32)"
    by simp_all
  then have u: "unat (h_base (holes s h) + h_len (holes s h)) = fst (blk s h) + snd (blk s h)"
    "unat (h_len (holes s h) + h_len (holes s n)) = snd (blk s h) + snd (blk s n)"
    unfolding blk_def by (simp_all only: fst_conv snd_conv unat_add_lem [THEN iffD1])
  show "unat (h_len (holes s h) + h_len (holes s n)) = snd (blk s h) + snd (blk s n)" by (rule u)
  have "h_base (holes s h) + h_len (holes s h) = h_base (holes s n) \<longleftrightarrow>
      unat (h_base (holes s h) + h_len (holes s h)) = unat (h_base (holes s n))"
    by (simp add: word_unat_eq_iff)
  with u show "h_base (holes s h) + h_len (holes s h) = h_base (holes s n) \<longleftrightarrow>
      fst (blk s h) + snd (blk s h) = fst (blk s n)" by (simp add: blk_def)
qed

lemma blk_upd_len: "blk (upd_hole h (\<lambda>x. x\<lparr>h_len := w x\<rparr>) s) =
    (blk s)(h := (fst (blk s h), unat (w (holes s h))))"
  by (auto simp: blk_def)

lemma merge_next_cases:
  assumes "hole_lists s (us @ h # vs) fs" "wsep (blks s (h # vs))"
  obtains (last) "vs = []" "merge_next h s = Some (None, s)"
  | (apart) n ws where "vs = n # ws" "fst (blk s h) + snd (blk s h) < fst (blk s n)"
      "merge_next h s = Some (Some n, s)"
  | (join) n ws s' where "vs = n # ws" "fst (blk s h) + snd (blk s h) = fst (blk s n)"
      "merge_next h s = Some (Some h, s')" "hole_lists s' (us @ h # ws) (n # fs)"
      "blk s' = (blk s)(h := (fst (blk s h), snd (blk s h) + snd (blk s n)))" "hole_frame s s'"
proof (cases vs)
  case Nil
  have "hnx s h = None"
    using assms(1) Nil by (auto simp: hole_lists_def dest: chain_snd_conv)
  then have "merge_next h s = Some (None, s)" by (simp add: merge_next_def hnx_def)
  with Nil show ?thesis by (rule last)
next
  case (Cons n ws)
  have c: "chain (hnx s) (hole_head s) (us @ h # n # ws)" using assms(1) Cons by (simp add: hole_lists_def)
  then have nh: "hnx s h = Some n" by (auto dest: chain_suffix)
  have w: "wsep (blks s [h, n])" using assms(2) Cons by simp
  show ?thesis
  proof (cases "fst (blk s h) + snd (blk s h) = fst (blk s n)")
    case False
    with w have lt: "fst (blk s h) + snd (blk s h) < fst (blk s n)" by simp
    from False have "merge_next h s = Some (Some n, s)"
      using nh by (simp add: merge_next_def hnx_def touching_iff(1) [OF w])
    with Cons lt show ?thesis by (rule apart)
  next
    case True
    let ?s1 = "upd_hole h (\<lambda>x. x\<lparr>h_len := h_len x + h_len (holes s n)\<rparr>) s"
    have "hole_lists ?s1 ((us @ [h]) @ n # ws) fs"
      using assms(1) Cons by (subst hole_lists_cong [of _ s]) simp_all
    then obtain s' where s': "del_slot (Some h) n ?s1 = Some s'" "hole_lists s' ((us @ [h]) @ ws) (n # fs)"
      "blk s' = blk ?s1" "hole_frame ?s1 s'"
      by (rule del_slot_spec [where pp = "Some h"]) simp
    have m: "merge_next h s = Some (Some h, s')"
      using nh True s'(1) by (simp add: merge_next_def hnx_def touching_iff(1) [OF w] Let_def)
    have b: "blk s' = (blk s)(h := (fst (blk s h), snd (blk s h) + snd (blk s n)))"
      using s'(3) touching_iff(2) [OF w] by (simp add: blk_upd_len)
    have f: "hole_frame s s'" by (rule hole_frame_trans [OF hole_frame_updI(2) s'(4)])
    from s'(2) have "hole_lists s' (us @ h # ws) (n # fs)" by simp
    from join [OF Cons True m this b f] show ?thesis .
  qed
qed

lemma map_blk_upd: "h \<notin> set xs \<Longrightarrow> map ((blk s)(h := v)) xs = map (blk s) xs"
  by auto

lemma hole_lists_distinct: "hole_lists s xs fs \<Longrightarrow> distinct xs"
  unfolding hole_lists_def by (blast dest: chain_distinct)

lemma merge_hole_spec:
  assumes "hole_lists s (us @ h # vs) fs" "wsep (blks s (h # vs))" "sep (blks s (tl vs))"
  obtains s' xs' fs' where "merge_hole h s = Some s'" "hole_lists s' xs' fs'"
    "blks s' xs' = blks s us @ coalesce (blks s (h # vs))" "hole_frame s s'" "length fs \<le> length fs'"
proof -
  have d: "distinct (us @ h # vs)" by (rule hole_lists_distinct [OF assms(1)])
  from assms(1,2) show ?thesis
  proof (cases rule: merge_next_cases)
    case last
    with assms(1) that [of s "us @ [h]" fs] show ?thesis by (simp add: merge_hole_def)
  next
    case (apart n ws)
    have hl: "hole_lists s ((us @ [h]) @ n # ws) fs" using assms(1) apart by simp
    have ws: "wsep (blks s (n # ws))" using assms(2) apart by simp
    have lt: "\<And>x. fst x + snd x < fst (blk s n) \<Longrightarrow> coalesce (x # blks s (n # ws)) = x # coalesce (blks s (n # ws))"
      by simp
    from hl ws show ?thesis
    proof (cases rule: merge_next_cases)
      case last
      with apart assms(1) that [of s "us @ h # [n]" fs] show ?thesis by (simp add: merge_hole_def)
    next
      case second: (apart m rs)
      have "coalesce (blks s (n # ws)) = blks s (n # ws)"
        using second assms(3) apart(1) by (simp add: coalesce_sep)
      with apart assms(1) second that [of s "us @ h # n # ws" fs] show ?thesis by (simp add: merge_hole_def)
    next
      case (join m rs s')
      have "coalesce (blks s (n # ws)) = (fst (blk s n), snd (blk s n) + snd (blk s m)) # blks s rs"
        using join(1,2) assms(3) apart(1) ws coalesce_join [of "blk s m" "blks s rs" "blk s n"] by simp
      moreover have "blks s' (us @ h # n # rs) =
          blks s us @ blk s h # (fst (blk s n), snd (blk s n) + snd (blk s m)) # blks s rs"
        using d join(1,5) apart(1) by (simp add: map_blk_upd)
      ultimately have "blks s' (us @ h # n # rs) = blks s us @ coalesce (blks s (h # vs))"
        using apart(1,2) by simp
      with join apart that [of s' "us @ h # n # rs" "m # fs"] show ?thesis by (simp add: merge_hole_def)
    qed
  next
    case (join n ws s1)
    let ?p = "(fst (blk s h), snd (blk s h) + snd (blk s n))"
    have b1: "blks s1 (h # ws) = ?p # blks s ws" "blks s1 us = blks s us"
      using d join(1,5) by (simp_all add: map_blk_upd)
    have w1: "wsep (blks s1 (h # ws))"
      using assms(2) join(1,2) unfolding b1(1) by (auto simp: block_ok_def)
    have co: "coalesce (blks s (h # vs)) = coalesce (?p # blks s ws)" using join(1,2) by simp
    from join(4) w1 show ?thesis
    proof (cases rule: merge_next_cases)
      case last
      with join b1 co that [of s1 "us @ [h]" "n # fs"] show ?thesis by (simp add: merge_hole_def)
    next
      case (apart m rs)
      have "coalesce (?p # blks s ws) = ?p # blks s ws"
        using apart(1,2) assms(3) join(1) b1 by (simp add: coalesce_sep)
      with apart join b1 co that [of s1 "us @ h # ws" "n # fs"] show ?thesis by (simp add: merge_hole_def)
    next
      case second: (join m rs s2)
      let ?q = "(fst ?p, snd ?p + snd (blk s m))"
      have bm: "blk s1 h = ?p" "blk s1 m = blk s m" using b1 d join(1,5) second(1) by auto
      have "coalesce (?p # blks s ws) = ?q # blks s rs"
        using second(1,2) assms(3) join(1) bm w1 b1 coalesce_join [of "blk s m" "blks s rs" ?p] by simp
      moreover have "blks s2 (us @ h # rs) = blks s us @ ?q # blks s rs"
        using d join(1,5) second(1,5) bm b1 by (simp add: map_blk_upd)
      ultimately have "blks s2 (us @ h # rs) = blks s us @ coalesce (blks s (h # vs))" using co by simp
      with join second hole_frame_trans [OF join(6) second(6)] that [of s2 "us @ h # rs" "m # n # fs"]
      show ?thesis by (simp add: merge_hole_def)
    qed
  qed
qed

lemma sep_coalesce_append:
  assumes "sep as" "wsep bs" "\<forall>p\<in>set as. \<forall>q\<in>set bs. fst p + snd p < fst q"
  shows "sep (as @ coalesce bs)" "clicks_of (as @ coalesce bs) = clicks_of as \<union> clicks_of bs"
proof -
  have "\<forall>p\<in>set as. \<forall>q\<in>set (coalesce bs). fst p + snd p < fst q"
  proof (intro ballI)
    fix p q assume p: "p \<in> set as" and "q \<in> set (coalesce bs)"
    from coalesce_lower [OF assms(2) this(2)] obtain r where "r \<in> set bs" "fst r = fst q" by blast
    with p assms(3) show "fst p + snd p < fst q" by force
  qed
  with assms(1) coalesce_spec [OF assms(2)] show "sep (as @ coalesce bs)"
    and "clicks_of (as @ coalesce bs) = clicks_of as \<union> clicks_of bs" by (simp_all add: sep_append)
qed

subsection \<open>Freeing\<close>

lemma find_place_chain:
  "chain (hnx s) hp ys \<Longrightarrow>
   find_place base pp hp s =
     Some (let us = takeWhile (\<lambda>h. h_base (holes s h) < base) ys in if us = [] then pp else Some (last us))"
proof (induction ys arbitrary: hp pp)
  case Nil
  then show ?case by (simp add: find_place.simps)
next
  case (Cons y ys)
  then have "chain (hnx s) (hnx s y) ys" "hp = Some y" by simp_all
  with Cons.IH [of "hnx s y" "Some y"] show ?case
    by (subst find_place.simps) (simp add: Let_def hnx_def [of s y])
qed

text \<open>A block that is disjoint from all holes fits between two of them.\<close>

lemma sep_place:
  assumes "sep bs" "block_ok p" "{fst p..<fst p + snd p} \<inter> clicks_of bs = {}"
  defines "us \<equiv> takeWhile (\<lambda>q. fst q < fst p) bs" and "vs \<equiv> dropWhile (\<lambda>q. fst q < fst p) bs"
  shows "wsep (us @ p # vs)" "sep us" "sep vs"
    "\<forall>q\<in>set us. \<forall>r\<in>set vs. fst q + snd q < fst r" "\<forall>q\<in>set us. fst q + snd q \<le> fst p"
proof -
  have bs: "bs = us @ vs" by (simp add: us_def vs_def)
  have s: "sep us" "sep vs" "\<forall>q\<in>set us. \<forall>r\<in>set vs. fst q + snd q < fst r"
    using assms(1) unfolding bs sep_append by blast+
  have ok: "\<forall>q\<in>set bs. block_ok q" using assms(1) by (simp add: sep_def list_all_iff)
  have disj: "{fst p..<fst p + snd p} \<inter> {fst q..<fst q + snd q} = {}" if "q \<in> set bs" for q
    using that assms(3) unfolding clicks_of_def by blast
  have lo: "fst q + snd q \<le> fst p" if "q \<in> set us" for q
  proof (rule ccontr)
    assume "\<not> fst q + snd q \<le> fst p"
    moreover have "fst q < fst p" using that set_takeWhileD unfolding us_def by metis
    ultimately have "fst p \<in> {fst q..<fst q + snd q}" by simp
    moreover have "fst p \<in> {fst p..<fst p + snd p}" using assms(2) by (simp add: block_ok_def)
    moreover have "q \<in> set bs" using that bs by simp
    ultimately show False using disj by blast
  qed
  have hi: "fst p + snd p \<le> fst r" if r: "r \<in> set vs" for r
  proof (rule ccontr)
    assume n: "\<not> fst p + snd p \<le> fst r"
    obtain v vs' where vs: "vs = v # vs'" using r by (cases vs) auto
    then have "fst p \<le> fst v" using hd_dropWhile [of "\<lambda>q. fst q < fst p" bs] by (simp add: vs_def)
    moreover have "fst v \<le> fst r" using s(2) r unfolding vs by auto
    ultimately have "fst r \<in> {fst p..<fst p + snd p}" using n by simp
    moreover have "r \<in> set bs" using r bs by simp
    moreover have "fst r \<in> {fst r..<fst r + snd r}" using ok \<open>r \<in> set bs\<close> by (simp add: block_ok_def)
    ultimately show False using disj by blast
  qed
  show "sep us" "sep vs" "\<forall>q\<in>set us. \<forall>r\<in>set vs. fst q + snd q < fst r"
    "\<forall>q\<in>set us. fst q + snd q \<le> fst p" using s lo by blast+
  show "wsep (us @ p # vs)"
    unfolding sep_append sep_simps using sep_wsep [OF s(1)] sep_wsep [OF s(2)] s(3) lo hi assms(2)
    by (auto simp: less_imp_le)
qed

lemma free_mem_spec:
  assumes hl: "hole_lists s xs fs" and sp: "sep (blks s xs)" and ne: "fs \<noteq> []"
    and ok: "block_ok (unat base, unat clicks)"
    and dj: "{unat base..<unat base + unat clicks} \<inter> clicks_of (blks s xs) = {}"
  obtains s' xs' fs' where "free_mem base clicks s = Some s'" "hole_lists s' xs' fs'"
    "sep (blks s' xs')"
    "clicks_of (blks s' xs') = clicks_of (blks s xs) \<union> {unat base..<unat base + unat clicks}"
    "hole_frame s s'" "length fs \<le> Suc (length fs')"
proof -
  from ne obtain n fs0 where fs: "fs = n # fs0" by (cases fs) auto
  let ?P = "\<lambda>h. h_base (holes s h) < base"
  define us vs where "us = takeWhile ?P xs" and "vs = dropWhile ?P xs"
  have xs: "xs = us @ vs" by (simp add: us_def vs_def)
  let ?p = "(unat base, unat clicks)"
  have P: "?P h \<longleftrightarrow> fst (blk s h) < fst ?p" for h by (simp add: blk_def word_less_nat_alt)
  have tw: "takeWhile (\<lambda>q. fst q < fst ?p) (blks s xs) = blks s us"
    "dropWhile (\<lambda>q. fst q < fst ?p) (blks s xs) = blks s vs"
    by (simp_all add: us_def vs_def takeWhile_map dropWhile_map P [abs_def] comp_def)
  have dj': "{fst ?p..<fst ?p + snd ?p} \<inter> clicks_of (blks s xs) = {}" using dj by simp
  note place = sep_place [OF sp ok dj', unfolded tw]
  have n: "n \<notin> set xs" "n \<notin> set fs0" "n < NR_HOLES" and fsn: "free_slots s = Some n"
    using hl chain_distinct [of "hnx s" "free_slots s" fs] unfolding hole_lists_def fs by auto
  let ?s1 = "(upd_hole n (\<lambda>h. h\<lparr>h_base := base, h_len := clicks\<rparr>) s)\<lparr>free_slots := hnx s n\<rparr>"
  have h1: "hnx ?s1 = hnx s" "hole_head ?s1 = hole_head s"
    using hnx_upd(3) [of n "\<lambda>_. base" "\<lambda>_. clicks" s] by (simp_all add: hnx_def fun_eq_iff)
  have c: "chain (hnx s) (hole_head s) (us @ vs)" "chain (hnx s) (hnx s n) fs0"
    and part: "set xs \<union> set (n # fs0) = {..<NR_HOLES}" "set xs \<inter> set (n # fs0) = {}"
    using hl unfolding hole_lists_def xs [symmetric] fs by auto
  have b1: "blk ?s1 = (blk s)(n := ?p)" by (auto simp: blk_def)
  have nz: "clicks \<noteq> 0" using ok by (auto simp: block_ok_def)
  have nxt: "h_next (holes s n) = hnx s n" by (simp add: hnx_def)
  show ?thesis
  proof (cases us rule: rev_cases)
    case Nil
    let ?s2 = "(upd_hole n (\<lambda>h. h\<lparr>h_next := hole_head s\<rparr>) ?s1)\<lparr>hole_head := Some n\<rparr>"
    have xs': "xs = vs" using xs Nil by simp
    have "hole_head s = None \<or> base \<le> h_base (holes ?s1 (the (hole_head s)))"
    proof (cases vs)
      case (Cons v ws)
      with c(1) Nil have hd: "hole_head s = Some v" by simp
      from Cons n(1) xs' have "v \<noteq> n" by auto
      moreover have "\<not> ?P v" using Cons hd_dropWhile [of ?P xs] by (simp add: vs_def)
      ultimately show ?thesis using hd by (simp add: not_less)
    qed (use c(1) Nil in simp)
    then have fm: "free_mem base clicks s = merge_hole n ?s2"
      unfolding free_mem_def using nz fsn h1(2) nxt by (simp add: Let_def)
    have hl2: "hole_lists ?s2 ([] @ n # vs) fs0"
      unfolding hole_lists_def using c n part xs' Nil h1(1) by (auto simp: chain_upd)
    have b2: "blks ?s2 (n # vs) = ?p # blks s vs" using n(1) xs' b1 by simp
    have w2: "wsep (blks ?s2 (n # vs))" unfolding b2 using place(1) Nil by simp
    have s2: "sep (blks ?s2 (tl vs))"
    proof -
      have e: "blks ?s2 (tl vs) = blks s (tl vs)" using n(1) xs' b1 by (cases vs) simp_all
      show ?thesis unfolding e using place(3) by (cases vs) simp_all
    qed
    from hl2 w2 s2 obtain s' xs1 fs1 where m: "merge_hole n ?s2 = Some s'" "hole_lists s' xs1 fs1"
      "blks s' xs1 = blks ?s2 [] @ coalesce (blks ?s2 (n # vs))" "hole_frame ?s2 s'" "length fs0 \<le> length fs1"
      by (rule merge_hole_spec)
    have "hole_frame s ?s2" by simp
    from hole_frame_trans [OF this m(4)] have fr: "hole_frame s s'" .
    have bs: "blks s' xs1 = coalesce (?p # blks s vs)" using m(3) by (simp only: b2 list.map(1) append_Nil)
    have sc: "sep (coalesce (?p # blks s vs))"
      "clicks_of (coalesce (?p # blks s vs)) = clicks_of (?p # blks s vs)"
      using coalesce_spec [OF w2 [unfolded b2]] by blast+
    show ?thesis
    proof (rule that [OF _ m(2) _ _ fr])
      show "free_mem base clicks s = Some s'" using fm m(1) by simp
      show "sep (blks s' xs1)" unfolding bs by (rule sc(1))
      show "clicks_of (blks s' xs1) = clicks_of (blks s xs) \<union> {unat base..<unat base + unat clicks}"
        unfolding bs sc(2) xs' by auto
      show "length fs \<le> Suc (length fs1)" using m(5) fs by simp
    qed
  next
    case (snoc us' p)
    let ?s2 = "upd_hole n (\<lambda>h. h\<lparr>h_next := hnx s p\<rparr>) ?s1"
    let ?s3 = "upd_hole p (\<lambda>h. h\<lparr>h_next := Some n\<rparr>) ?s2"
    have pn: "p \<noteq> n" "p \<in> set xs" using xs snoc n(1) by auto
    have hd: "hole_head s = Some (hd xs)" "hd xs \<noteq> n" "?P (hd xs)"
    proof -
      have "xs \<noteq> []" using xs snoc by simp
      moreover have "chain (hnx s) (hole_head s) xs" using c(1) xs by simp
      ultimately show "hole_head s = Some (hd xs)" by (cases xs) auto
      show "hd xs \<noteq> n" using \<open>xs \<noteq> []\<close> n(1) hd_in_set by metis
      have "us \<noteq> []" using snoc by simp
      then show "?P (hd xs)" unfolding us_def by (cases xs) (auto split: if_splits)
    qed
    have tw1: "takeWhile (\<lambda>h. h_base (holes ?s1 h) < base) xs = us"
      unfolding us_def by (rule takeWhile_cong) (use n(1) in auto)
    have "chain (hnx ?s1) (hole_head s) xs" using c(1) h1 xs by simp
    from find_place_chain [OF this, of base None]
    have fp: "find_place base None (hole_head s) ?s1 = Some (Some p)" using tw1 snoc by simp
    have nle: "\<not> base \<le> h_base (holes s (hd xs))" using hd(3) by simp
    have fm: "free_mem base clicks s = merge_hole p ?s3"
      unfolding free_mem_def using nz fsn hd(1,2) nle pn fp
      by (simp add: Let_def hnx_def [of s n] hnx_def [of s p])
    have c3: "chain ((hnx s)(n := hnx s p, p := Some n)) (hole_head s) (us @ n # vs)"
      using chain_link [OF c(1), of n "hnx s p"] n(1) xs snoc c(1) by simp
    have pf: "p \<notin> set fs0" using pn(2) part(2) by auto
    have f3: "chain ((hnx s)(n := hnx s p, p := Some n)) (hnx s n) fs0"
      using c(2) n(2) pf by (simp add: chain_upd)
    have hl3: "hole_lists ?s3 (us' @ p # n # vs) fs0"
      unfolding hole_lists_def using c3 f3 part n snoc xs h1(1) by auto
    have b3: "blk ?s3 = (blk s)(n := ?p)" using b1 by simp
    have bl: "blks ?s3 us' = blks s us'" "blks ?s3 (p # n # vs) = blk s p # ?p # blks s vs"
      using n(1) xs snoc pn unfolding b3 by auto
    have w3: "wsep (blks ?s3 (p # n # vs))"
      unfolding bl using place(1) snoc by (simp add: sep_append)
    have s3: "sep (blks ?s3 (tl (n # vs)))"
      using place(3) n(1) xs unfolding b3 by (simp add: map_blk_upd)
    from hl3 w3 s3 obtain s' xs1 fs1 where m: "merge_hole p ?s3 = Some s'" "hole_lists s' xs1 fs1"
      "blks s' xs1 = blks ?s3 us' @ coalesce (blks ?s3 (p # n # vs))" "hole_frame ?s3 s'"
      "length fs0 \<le> length fs1"
      by (rule merge_hole_spec)
    have "hole_frame s ?s3" by simp
    from hole_frame_trans [OF this m(4)] have fr: "hole_frame s s'" .
    have as: "sep (blks s us')" using place(2) snoc by (simp add: sep_append)
    have lt: "\<forall>x\<in>set (blks s us'). \<forall>q\<in>set (blk s p # ?p # blks s vs). fst x + snd x < fst q"
    proof (intro ballI)
      fix x q assume x: "x \<in> set (blks s us')" and q: "q \<in> set (blk s p # ?p # blks s vs)"
      have xp: "fst x + snd x < fst (blk s p)" using x place(2) snoc by (auto simp: sep_append)
      have ppl: "fst (blk s p) \<le> fst ?p" using place(5) snoc by (auto dest: add_leD1)
      from q consider "q = blk s p" | "q = ?p" | "q \<in> set (blks s vs)" by auto
      then show "fst x + snd x < fst q"
        using xp ppl x place(4) snoc by cases auto
    qed
    note sc = sep_coalesce_append [OF as w3 [unfolded bl] lt]
    show ?thesis
    proof (rule that [OF _ m(2) _ _ fr])
      show "free_mem base clicks s = Some s'" using fm m(1) by simp
      show "sep (blks s' xs1)" using sc(1) unfolding m(3) bl .
      have "clicks_of (blks s' xs1) = clicks_of (blks s us') \<union> clicks_of (blk s p # ?p # blks s vs)"
        using sc(2) unfolding m(3) bl .
      then show "clicks_of (blks s' xs1) = clicks_of (blks s xs) \<union> {unat base..<unat base + unat clicks}"
        unfolding xs snoc by auto
      show "length fs \<le> Suc (length fs1)" using m(5) fs by simp
    qed
  qed
qed

subsection \<open>Allocating\<close>

text \<open>A search that walks over \<open>us\<close> and stops at \<open>h\<close>, with the predecessor \<open>pq\<close>.\<close>

definition found_at :: "nat list \<Rightarrow> nat option \<Rightarrow> nat option \<Rightarrow> nat list \<Rightarrow> nat \<Rightarrow> bool" where
  "found_at ys pp pq us h \<longleftrightarrow> (\<exists>vs. ys = us @ h # vs) \<and> pq = (if us = [] then pp else Some (last us))"

lemma found_at_here: "found_at (y # ys) pp pp [] y"
  by (simp add: found_at_def)

lemma found_at_there: "found_at ys (Some y) pq us h \<Longrightarrow> found_at (y # ys) pp pq (y # us) h"
  by (auto simp: found_at_def)

lemma first_fit_chain:
  "chain (hnx s) hp ys \<Longrightarrow> first_fit clicks pp hp s = Some (Some (pq, h)) \<Longrightarrow>
   \<exists>us. found_at ys pp pq us h \<and> clicks \<le> h_len (holes s h) \<and> h_base (holes s h) < swap_base s \<and>
     (\<forall>u\<in>set us. h_len (holes s u) < clicks)"
proof (induction ys arbitrary: hp pp)
  case Nil
  then show ?case by (simp add: first_fit.simps)
next
  case (Cons y ys)
  then have c: "chain (hnx s) (hnx s y) ys" "hp = Some y" by simp_all
  from Cons.prems(2) c(2) consider
      (found) "pq = pp" "h = y" "clicks \<le> h_len (holes s y)" "h_base (holes s y) < swap_base s"
    | (go) "h_len (holes s y) < clicks" "first_fit clicks (Some y) (hnx s y) s = Some (Some (pq, h))"
    by (subst (asm) first_fit.simps) (auto simp: hnx_def [of s y] split: if_splits)
  then show ?case
  proof cases
    case found
    then show ?thesis using found_at_here [of y ys pp] by (intro exI [of _ "[]"]) simp
  next
    case go
    from Cons.IH [OF c(1) go(2)] obtain us where "found_at ys (Some y) pq us h"
      "clicks \<le> h_len (holes s h)" "h_base (holes s h) < swap_base s"
      "\<forall>u\<in>set us. h_len (holes s u) < clicks" by blast
    with go(1) found_at_there [of ys y pq us h pp] show ?thesis by (intro exI [of _ "y # us"]) simp
  qed
qed

lemma first_fit_ends: "chain (hnx s) hp ys \<Longrightarrow> \<exists>r. first_fit clicks pp hp s = Some r"
proof (induction ys arbitrary: hp pp)
  case Nil
  then show ?case by (subst first_fit.simps) simp
next
  case (Cons y ys)
  then have c: "chain (hnx s) (hnx s y) ys" "hp = Some y" by simp_all
  from Cons.IH [OF c(1), of "Some y"] obtain r where "first_fit clicks (Some y) (h_next (holes s y)) s = Some r"
    unfolding hnx_def by blast
  then show ?case unfolding c(2) by (subst first_fit.simps) simp
qed

lemma find_swap_hole_chain:
  "chain (hnx s) hp ys \<Longrightarrow> find_swap_hole sz pp hp s = Some (Some (pq, h)) \<Longrightarrow>
   \<exists>us. found_at ys pp pq us h \<and> sz \<le> h_len (holes s h) \<and> swap_base s \<le> h_base (holes s h)"
proof (induction ys arbitrary: hp pp)
  case Nil
  then show ?case by (simp add: find_swap_hole.simps)
next
  case (Cons y ys)
  then have c: "chain (hnx s) (hnx s y) ys" "hp = Some y" by simp_all
  note step = Cons.prems(2) [unfolded c(2), unfolded find_swap_hole.simps [of sz pp "Some y"]]
  show ?case
  proof (cases "swap_base s \<le> h_base (holes s y) \<and> sz \<le> h_len (holes s y)")
    case True
    with step have "pq = pp" "h = y" by simp_all
    with True show ?thesis using found_at_here [of y ys pp] by (intro exI [of _ "[]"]) simp
  next
    case False
    with step have "find_swap_hole sz (Some y) (hnx s y) s = Some (Some (pq, h))"
      by (simp only: option.case if_False hnx_def)
    from Cons.IH [OF c(1) this] obtain us where "found_at ys (Some y) pq us h"
      "sz \<le> h_len (holes s h)" "swap_base s \<le> h_base (holes s h)" by blast
    with found_at_there [of ys y pq us h pp] show ?thesis by (intro exI [of _ "y # us"]) simp
  qed
qed

lemma find_swap_hole_ends: "chain (hnx s) hp ys \<Longrightarrow> \<exists>r. find_swap_hole sz pp hp s = Some r"
proof (induction ys arbitrary: hp pp)
  case Nil
  then show ?case by (subst find_swap_hole.simps) simp
next
  case (Cons y ys)
  then have c: "chain (hnx s) (hnx s y) ys" "hp = Some y" by simp_all
  from Cons.IH [OF c(1), of "Some y"] obtain r where "find_swap_hole sz (Some y) (h_next (holes s y)) s = Some r"
    unfolding hnx_def by blast
  then show ?case unfolding c(2) by (subst find_swap_hole.simps) simp
qed

lemma bite_hole_spec:
  assumes hl: "hole_lists s (us @ h # vs) fs" and sp: "sep (blks s (us @ h # vs))"
    and pp: "us \<noteq> [] \<Longrightarrow> pp = Some (last us)"
    and cl: "0 < clicks" "clicks \<le> h_len (holes s h)"
  obtains s' xs' fs' where "bite_hole clicks pp h s = Some (h_base (holes s h), s')"
    "hole_lists s' xs' fs'" "sep (blks s' xs')"
    "clicks_of (blks s' xs') =
       clicks_of (blks s (us @ h # vs)) -
         {unat (h_base (holes s h))..<unat (h_base (holes s h)) + unat clicks}"
    "hole_frame s s'" "length fs \<le> length fs'"
proof -
  let ?s1 = "upd_hole h (\<lambda>x. x\<lparr>h_base := h_base x + clicks, h_len := h_len x - clicks\<rparr>) s"
  obtain b l where bl: "blk s h = (b, l)" by (cases "blk s h")
  then have b: "b = unat (h_base (holes s h))" and l: "l = unat (h_len (holes s h))" by (simp_all add: blk_def)
  let ?n = "unat clicks"
  have ok: "block_ok (b, l)" and su: "sep (blks s us)" "sep (blks s vs)"
    and lt: "\<forall>p\<in>set (blks s us). fst p + snd p < b" "\<forall>q\<in>set (blks s vs). b + l < fst q"
    and lt2: "\<forall>p\<in>set (blks s us). \<forall>q\<in>set (blks s vs). fst p + snd p < fst q"
    using sp bl by (auto simp: sep_append)
  have n: "0 < ?n" "?n \<le> l" using cl unfolding l by (simp_all add: word_le_nat_alt unat_gt_0 word_neq_0_conv)
  have d: "h \<notin> set us" "h \<notin> set vs" using hole_lists_distinct [OF hl] by auto
  have out: "{b..<b + ?n} \<inter> clicks_of (blks s us) = {}" "{b..<b + ?n} \<inter> clicks_of (blks s vs) = {}"
    using lt n by (fastforce simp: clicks_of_def)+
  have hl1: "hole_lists ?s1 (us @ h # vs) fs" using hl by (subst hole_lists_cong [of _ s]) simp_all
  have len1: "h_len (holes ?s1 h) = h_len (holes s h) - clicks" by simp
  have bu: "blks ?s1 us = blks s us" "blks ?s1 vs = blks s vs" using d by (auto simp: blk_def)
  have fr: "hole_frame s ?s1" by simp
  show ?thesis
  proof (cases "h_len (holes s h) = clicks")
    case True
    from hl1 pp obtain s' where s': "del_slot pp h ?s1 = Some s'" "hole_lists s' (us @ vs) (h # fs)"
      "blk s' = blk ?s1" "hole_frame ?s1 s'" by (rule del_slot_spec)
    show ?thesis
    proof (rule that [OF _ s'(2)])
      show "bite_hole clicks pp h s = Some (h_base (holes s h), s')"
        using s'(1) True by (simp add: bite_hole_def Let_def)
      have bb: "blks s' (us @ vs) = blks s us @ blks s vs" using s'(3) bu by simp
      show "sep (blks s' (us @ vs))" unfolding bb using su lt2 by (simp add: sep_append)
      have "?n = l" using True l by simp
      with out show "clicks_of (blks s' (us @ vs)) = clicks_of (blks s (us @ h # vs)) -
          {unat (h_base (holes s h))..<unat (h_base (holes s h)) + unat clicks}"
        unfolding bb using bl b by auto
      show "hole_frame s s'" by (rule hole_frame_trans [OF fr s'(4)])
    qed simp
  next
    case False
    with cl(2) have lt_len: "clicks < h_len (holes s h)" by simp
    then have nl: "?n < l" unfolding l by (simp add: word_less_nat_alt)
    have "h_len (holes ?s1 h) \<noteq> 0" using False by simp
    then have bh: "bite_hole clicks pp h s = Some (h_base (holes s h), ?s1)"
      by (simp add: bite_hole_def Let_def)
    have "b + ?n < 2 ^ LENGTH(32)" using ok nl by (simp add: block_ok_def)
    then have ub: "unat (h_base (holes s h) + clicks) = b + ?n" unfolding b by (rule unat_add_lem [THEN iffD1])
    have ul: "unat (h_len (holes s h) - clicks) = l - ?n" unfolding l by (rule unat_sub [OF cl(2)])
    have bb: "blks ?s1 (us @ h # vs) = blks s us @ (b + ?n, l - ?n) # blks s vs"
      using bu ub ul by (simp add: blk_def)
    have ok1: "block_ok (b + ?n, l - ?n)" using ok nl by (simp add: block_ok_def)
    show ?thesis
    proof (rule that [OF bh hl1 _ _ fr])
      show "sep (blks ?s1 (us @ h # vs))"
        unfolding bb using su lt lt2 nl ok1 by (fastforce simp: sep_append)
      have iv: "{b..<b + l} - {b..<b + ?n} = {b + ?n..<b + ?n + (l - ?n)}" using nl by auto
      show "clicks_of (blks ?s1 (us @ h # vs)) = clicks_of (blks s (us @ h # vs)) -
          {unat (h_base (holes s h))..<unat (h_base (holes s h)) + unat clicks}"
        unfolding bb using out iv bl b [symmetric] by auto
    qed simp
  qed
qed

subsection \<open>The invariant of memory\<close>

definition live :: "mproc \<Rightarrow> bool" where
  "live p \<longleftrightarrow> IN_USE \<in> mp_flags p \<and> ZOMBIE \<notin> mp_flags p"

text \<open>The clicks of the data segment, the gap and the stack segment.\<close>

definition image_block :: "mproc \<Rightarrow> nat \<times> nat" where
  "image_block p = (unat (mem_phys (mp_seg p SEG_D)), unat (image_size p))"

definition image :: "mproc \<Rightarrow> nat set" where
  "image p = {fst (image_block p)..<fst (image_block p) + snd (image_block p)}"

text \<open>
  The images of the live processes are disjoint from each other, from the holes and from the other
  memory in use, \<open>U\<close>: the kernel, text segments, memory allocated by other means.
\<close>

definition images_ok :: "nat set \<Rightarrow> (nat \<Rightarrow> mproc) \<Rightarrow> nat set \<Rightarrow> bool" where
  "images_ok U ps free \<longleftrightarrow>
     (\<forall>n<NR_PROCS_PM. live (ps n) \<longrightarrow> block_ok (image_block (ps n)) \<and> image (ps n) \<inter> (U \<union> free) = {}) \<and>
     (\<forall>n<NR_PROCS_PM. \<forall>m<NR_PROCS_PM. live (ps n) \<longrightarrow> live (ps m) \<longrightarrow> n \<noteq> m \<longrightarrow>
        image (ps n) \<inter> image (ps m) = {})"

definition mem_inv :: "nat set \<Rightarrow> pmstate \<Rightarrow> nat list \<Rightarrow> nat list \<Rightarrow> bool" where
  "mem_inv U s xs fs \<longleftrightarrow>
     hole_lists s xs fs \<and> sep (blks s xs) \<and> U \<inter> clicks_of (blks s xs) = {} \<and>
     images_ok U (mprocs s) (clicks_of (blks s xs)) \<and> outswap s < NR_PROCS_PM \<and>
     (\<forall>n<NR_PROCS_PM. swap_candidate (mprocs s n) \<longrightarrow> live (mprocs s n))"

lemma images_ok_move:
  assumes "images_ok U ps free" "n < NR_PROCS_PM" "live (ps n)" "live p'"
    and "image p' \<subseteq> free" "block_ok (image_block p')" "free' = (free - image p') \<union> image (ps n)"
    and "U \<inter> free = {}"
  shows "images_ok U (ps(n := p')) free'" "U \<inter> free' = {}"
proof -
  have a: "block_ok (image_block (ps m))" "image (ps m) \<inter> U = {}" "image (ps m) \<inter> free = {}"
    if "m < NR_PROCS_PM" "live (ps m)" for m
    using assms(1) that unfolding images_ok_def by blast+
  have b: "image (ps m) \<inter> image (ps k) = {}"
    if "m < NR_PROCS_PM" "k < NR_PROCS_PM" "live (ps m)" "live (ps k)" "m \<noteq> k" for m k
    using assms(1) that unfolding images_ok_def by blast
  note n = a [OF assms(2,3)]
  have new: "image p' \<inter> U = {}" "image p' \<inter> free' = {}" using assms(5,7,8) n by blast+
  have oth: "image p' \<inter> image (ps m) = {}" "image (ps m) \<inter> free' = {}"
    if "m < NR_PROCS_PM" "live (ps m)" "m \<noteq> n" for m
  proof -
    have "image (ps m) \<inter> image (ps n) = {}" using b [of m n] that assms(2,3) by blast
    with a [OF that(1,2)] assms(5,7) show "image p' \<inter> image (ps m) = {}" "image (ps m) \<inter> free' = {}" by blast+
  qed
  show "U \<inter> free' = {}" using n(2) assms(7,8) by blast
  show "images_ok U (ps(n := p')) free'"
    unfolding images_ok_def
  proof (intro conjI allI impI)
    fix m assume m: "m < NR_PROCS_PM" "live ((ps(n := p')) m)"
    show "block_ok (image_block ((ps(n := p')) m))"
      using m a(1) [of m] assms(6) by (cases "m = n") simp_all
    show "image ((ps(n := p')) m) \<inter> (U \<union> free') = {}"
    proof (cases "m = n")
      case False
      with m have "live (ps m)" by simp
      with False m(1) a(2) [of m] oth(2) [of m] show ?thesis by auto
    qed (use new in auto)
    fix k assume k: "k < NR_PROCS_PM" "live ((ps(n := p')) k)" "m \<noteq> k"
    show "image ((ps(n := p')) m) \<inter> image ((ps(n := p')) k) = {}"
    proof (cases "m = n")
      case True
      with k have "live (ps k)" "k \<noteq> n" by auto
      with True k(1) oth(1) [of k] show ?thesis by auto
    next
      case mn: False
      with m have lm: "live (ps m)" by simp
      show ?thesis
      proof (cases "k = n")
        case True
        with lm mn m(1) oth(1) [of m] show ?thesis by auto
      next
        case False
        with k have "live (ps k)" by simp
        with lm mn False m(1) k b [of m k] show ?thesis by auto
      qed
    qed
  qed
qed

lemma image_block_move [simp]:
  "image_block ((move_image b p)\<lparr>mp_flags := fl\<rparr>) = (unat b, unat (image_size p))"
  by (simp add: image_block_def move_image_def image_size_def Let_def)

lemma rw_seg_loop_frame: "\<exists>l. rw_seg_loop rw fd u n s = s\<lparr>pm_log := l\<rparr>"
proof (induction rw fd u n s rule: rw_seg_loop.induct)
  case (1 rw fd u n s)
  show ?case
  proof (cases "n = 0")
    case True
    then have "rw_seg_loop rw fd u n s = s\<lparr>pm_log := pm_log s\<rparr>" by (simp add: rw_seg_loop.simps)
    then show ?thesis by blast
  next
    case False
    let ?c = "(if rw then Fs_write else Fs_read) fd u (min RW_MAX n)"
    obtain r s1 where d: "pm_do ?c s = (r, s1)" by (cases "pm_do ?c s")
    then have s1: "s1 = s\<lparr>pm_log := pm_log s @ [?c]\<rparr>" by (simp add: pm_do_def)
    show ?thesis
    proof (cases "fst r = uint (min RW_MAX n)")
      case True
      from 1 [OF False d [symmetric]] True
      obtain l where "rw_seg_loop rw fd (u + min RW_MAX n) (n - min RW_MAX n) s1 = s1\<lparr>pm_log := l\<rparr>" by auto
      then have "rw_seg_loop rw fd u n s = s\<lparr>pm_log := l\<rparr>"
        using False True d by (subst rw_seg_loop.simps) (simp add: s1)
      then show ?thesis by blast
    next
      case ne: False
      then have "rw_seg_loop rw fd u n s = s1"
        using False d by (subst rw_seg_loop.simps) simp
      then show ?thesis unfolding s1 by blast
    qed
  qed
qed

lemma rw_seg_frame: obtains l where "rw_seg rw fd n seg b s = s\<lparr>pm_log := l\<rparr>"
  using rw_seg_loop_frame unfolding rw_seg_def by blast

lemma swap_to_spec:
  assumes inv: "mem_inv U s xs fs" and n: "n < NR_PROCS_PM" and cand: "swap_candidate (mprocs s n)"
    and fa: "found_at xs None pq us h" and sz: "image_size (mprocs s n) \<le> h_len (holes s h)" and ne: "fs \<noteq> []"
  obtains s' xs' fs' nb where "swap_to n pq h s = Some s'" "mem_inv U s' xs' fs'"
    "length fs \<le> Suc (length fs')" "swap_base s' = swap_base s"
    "mprocs s' = (mprocs s)(n := (move_image nb (mprocs s n))\<lparr>mp_flags := mp_flags (mprocs s n) \<union> {ONSWAP}\<rparr>)"
proof -
  let ?p = "mprocs s n" and ?sz = "image_size (mprocs s n)" and ?nb = "h_base (holes s h)"
  from fa obtain vs where xs: "xs = us @ h # vs" and pq: "us \<noteq> [] \<Longrightarrow> pq = Some (last us)"
    by (auto simp: found_at_def)
  have hl: "hole_lists s (us @ h # vs) fs" and sp: "sep (blks s (us @ h # vs))"
    and io: "images_ok U (mprocs s) (clicks_of (blks s xs))" and uf: "U \<inter> clicks_of (blks s xs) = {}"
    and lv: "live ?p"
    using inv n cand unfolding mem_inv_def xs by blast+
  have ok: "block_ok (image_block ?p)" and dj: "image ?p \<inter> clicks_of (blks s xs) = {}"
    using io n lv unfolding images_ok_def by blast+
  have "unat ?sz \<noteq> 0" using ok by (auto simp: image_block_def block_ok_def)
  then have pos: "0 < ?sz" by (simp add: unat_eq_0 word_neq_0_conv)
  from hl sp pq pos sz obtain s1 xs1 fs1 where b: "bite_hole ?sz pq h s = Some (?nb, s1)"
    "hole_lists s1 xs1 fs1" "sep (blks s1 xs1)"
    "clicks_of (blks s1 xs1) = clicks_of (blks s (us @ h # vs)) - {unat ?nb..<unat ?nb + unat ?sz}"
    "hole_frame s s1" "length fs \<le> length fs1"
    by (rule bite_hole_spec)
  note f1 = hole_frame_sel [OF b(5)]
  define s2 where "s2 = pm_tell (Fs_lseek (swap_fd s1) (swap_offset s1 + push_bit CLICK_SHIFT (?nb - swap_base s1))) s1"
  define s3 where "s3 = rw_seg True (swap_fd s2) n SEG_D (push_bit CLICK_SHIFT ?sz) s2"
  obtain l where s3': "s3 = s2\<lparr>pm_log := l\<rparr>" unfolding s3_def by (rule rw_seg_frame)
  define s4 where "s4 = upd_mproc n (move_image ?nb) s3"
  define s5 where "s5 = pm_tell (Sys_newmap (int n) (mp_seg (mprocs s4 n))) s4"
  have m3: "mprocs s3 n = ?p" using f1(1) s3' by (simp add: s2_def pm_tell_def)
  have m5: "mprocs s5 = (mprocs s)(n := move_image ?nb ?p)" "swap_base s5 = swap_base s"
    "holes s5 = holes s1" "hole_head s5 = hole_head s1" "free_slots s5 = free_slots s1"
    using f1(1,2) s3' by (simp_all add: s5_def s4_def s2_def pm_tell_def upd_mproc_def)
  have hl5: "hole_lists s5 xs1 fs1" using b(2) m5(3-5) by (subst hole_lists_frame) simp_all
  have bl5: "blks s5 xs1 = blks s1 xs1" using m5(3) by (simp add: blk_def)
  let ?ob = "mem_phys (mp_seg ?p SEG_D)"
  have iv: "image ?p = {unat ?ob..<unat ?ob + unat ?sz}" by (simp add: image_def image_block_def)
  have okb: "block_ok (unat ?ob, unat ?sz)" using ok by (simp add: image_block_def)
  have "sep (blks s5 xs1)" "fs1 \<noteq> []" "{unat ?ob..<unat ?ob + unat ?sz} \<inter> clicks_of (blks s5 xs1) = {}"
    using b(3,6) ne dj b(4) unfolding bl5 iv xs by auto
  with hl5 okb obtain s6 xs6 fs6 where g: "free_mem ?ob ?sz s5 = Some s6" "hole_lists s6 xs6 fs6"
    "sep (blks s6 xs6)"
    "clicks_of (blks s6 xs6) = clicks_of (blks s5 xs1) \<union> {unat ?ob..<unat ?ob + unat ?sz}"
    "hole_frame s5 s6" "length fs1 \<le> Suc (length fs6)"
    using free_mem_spec by metis
  note f6 = hole_frame_sel [OF g(5)]
  let ?s7 = "(upd_mproc n (\<lambda>p. p\<lparr>mp_flags := mp_flags p \<union> {ONSWAP}\<rparr>) s6)\<lparr>outswap := n\<rparr>"
  let ?q = "(move_image ?nb ?p)\<lparr>mp_flags := mp_flags ?p \<union> {ONSWAP}\<rparr>"
  have fl: "mp_flags (move_image ?nb ?p) = mp_flags ?p" by (simp add: move_image_def Let_def)
  have run: "swap_to n pq h s = Some ?s7"
    by (simp only: swap_to_def Let_def b(1) Option.bind.bind_lunit prod.case s2_def [symmetric]
        s3_def [symmetric] s4_def [symmetric] s5_def [symmetric] m3 g(1))
  have m7: "mprocs ?s7 = (mprocs s)(n := ?q)"
    using f6(1) m5(1) fl by (simp add: upd_mproc_def)
  have hl7: "hole_lists ?s7 xs6 fs6" using g(2) by (subst hole_lists_frame) (simp_all add: upd_mproc_def)
  have bl7: "blks ?s7 xs6 = blks s6 xs6" by (simp add: blk_def upd_mproc_def)
  have iq: "image ?q = {unat ?nb..<unat ?nb + unat ?sz}" by (simp add: image_def)
  have bh: "blk s h = (unat ?nb, unat (h_len (holes s h)))" by (simp add: blk_def)
  have sz': "unat ?sz \<le> unat (h_len (holes s h))" using sz by (simp add: word_le_nat_alt)
  have sub: "image ?q \<subseteq> clicks_of (blks s xs)"
    unfolding iq xs using sz' bh by auto
  have okq: "block_ok (image_block ?q)"
    using sp sz' bh \<open>unat ?sz \<noteq> 0\<close> by (simp add: sep_append block_ok_def)
  have lq: "live ?q" using lv by (simp add: live_def)
  have fr: "clicks_of (blks s6 xs6) = (clicks_of (blks s xs) - image ?q) \<union> image ?p"
    using g(4) b(4) unfolding bl5 iq iv xs by simp
  note mv = images_ok_move [OF io n lv lq sub okq fr uf]
  have "mem_inv U ?s7 xs6 fs6"
    unfolding mem_inv_def
  proof (intro conjI allI impI)
    show "hole_lists ?s7 xs6 fs6" by (rule hl7)
    show "sep (blks ?s7 xs6)" unfolding bl7 by (rule g(3))
    show "U \<inter> clicks_of (blks ?s7 xs6) = {}" unfolding bl7 by (rule mv(2))
    show "images_ok U (mprocs ?s7) (clicks_of (blks ?s7 xs6))" unfolding bl7 m7 by (rule mv(1))
    show "outswap ?s7 < NR_PROCS_PM" using n by simp
    fix k assume "k < NR_PROCS_PM" "swap_candidate (mprocs ?s7 k)"
    then show "live (mprocs ?s7 k)"
      unfolding m7 using inv lq by (cases "k = n") (auto simp: mem_inv_def)
  qed
  moreover have "length fs \<le> Suc (length fs6)" using b(6) g(6) by simp
  moreover have "swap_base ?s7 = swap_base s" using f6(2) m5(2) by (simp add: upd_mproc_def)
  ultimately show ?thesis using that run m7 by blast
qed

subsection \<open>Swapping out and allocating\<close>

definition candidates :: "pmstate \<Rightarrow> nat set" where
  "candidates s = {n. n < NR_PROCS_PM \<and> swap_candidate (mprocs s n)}"

lemma finite_candidates [simp]: "finite (candidates s)"
  by (simp add: candidates_def)

lemma swap_try_cases:
  assumes "mem_inv U s xs fs" "\<forall>n\<in>set ns. n < NR_PROCS_PM" "candidates s = {} \<or> fs \<noteq> []"
  obtains (none) "swap_try ns s = Some (False, s)"
  | (swapped) s' xs' fs' where "swap_try ns s = Some (True, s')" "mem_inv U s' xs' fs'"
      "length fs \<le> Suc (length fs')" "card (candidates s) = Suc (card (candidates s'))"
      "swap_base s' = swap_base s"
  using assms(2)
proof (induction ns arbitrary: thesis)
  case Nil
  then show ?case by simp
next
  case (Cons n ns)
  have n: "n < NR_PROCS_PM" using Cons.prems(3) by simp
  have tl: "thesis" if "swap_try (n # ns) s = swap_try ns s"
    using Cons.IH [of thesis] Cons.prems that by (metis list.set_intros(2))
  show ?case
  proof (cases "swap_candidate (mprocs s n)")
    case False
    then show ?thesis by (intro tl) simp
  next
    case cand: True
    then have nc: "n \<in> candidates s" using n by (simp add: candidates_def)
    then have ne: "fs \<noteq> []" using assms(3) by auto
    have c: "chain (hnx s) (hole_head s) xs" using assms(1) by (simp add: mem_inv_def hole_lists_def)
    obtain r where r: "find_swap_hole (image_size (mprocs s n)) None (hole_head s) s = Some r"
      using find_swap_hole_ends [OF c] by blast
    show ?thesis
    proof (cases r)
      case None
      with r cand show ?thesis by (intro tl) simp
    next
      case (Some z)
      obtain pq h where z: "z = (pq, h)" by (cases z)
      from find_swap_hole_chain [OF c r [unfolded Some z]] obtain us where
        "found_at xs None pq us h" "image_size (mprocs s n) \<le> h_len (holes s h)" by blast
      from swap_to_spec [OF assms(1) n cand this ne] obtain s' xs' fs' nb where
        s': "swap_to n pq h s = Some s'" "mem_inv U s' xs' fs'" "length fs \<le> Suc (length fs')"
        "swap_base s' = swap_base s"
        "mprocs s' = (mprocs s)(n := (move_image nb (mprocs s n))\<lparr>mp_flags := mp_flags (mprocs s n) \<union> {ONSWAP}\<rparr>)" .
      have "swap_try (n # ns) s = Some (True, s')" using cand r Some z s'(1) by simp
      moreover have "candidates s' = candidates s - {n}"
        unfolding candidates_def s'(5) by (auto simp: swap_candidate_def)
      then have "card (candidates s) = Suc (card (candidates s'))"
        using card_Suc_Diff1 [OF finite_candidates nc] by simp
      ultimately show ?thesis using Cons.prems(2) s'(2-4) by blast
    qed
  qed
qed

lemma ring_from_less: "n < NR_PROCS_PM \<Longrightarrow> \<forall>m\<in>set (ring_from n). m < NR_PROCS_PM"
  by (auto simp: ring_from_def)

lemma mem_inv_bite:
  assumes inv: "mem_inv U s xs fs" and cl: "0 < clicks" and fa: "found_at xs None pq us h"
    and le: "clicks \<le> h_len (holes s h)"
  obtains s' xs' fs' where "bite_hole clicks pq h s = Some (h_base (holes s h), s')"
    "h_base (holes s h) \<noteq> NO_MEM"
    "mem_inv (U \<union> {unat (h_base (holes s h))..<unat (h_base (holes s h)) + unat clicks}) s' xs' fs'"
    "U \<inter> {unat (h_base (holes s h))..<unat (h_base (holes s h)) + unat clicks} = {}"
    "clicks_of (blks s' xs') = clicks_of (blks s xs) -
       {unat (h_base (holes s h))..<unat (h_base (holes s h)) + unat clicks}"
    "{unat (h_base (holes s h))..<unat (h_base (holes s h)) + unat clicks} \<subseteq> clicks_of (blks s xs)"
    "hole_frame s s'" "length fs \<le> length fs'"
proof -
  let ?b = "h_base (holes s h)"
  let ?B = "{unat ?b..<unat ?b + unat clicks}"
  from fa obtain vs where xs: "xs = us @ h # vs" and pq: "us \<noteq> [] \<Longrightarrow> pq = Some (last us)"
    by (auto simp: found_at_def)
  have hl: "hole_lists s (us @ h # vs) fs" and sp: "sep (blks s (us @ h # vs))"
    using inv unfolding mem_inv_def xs by blast+
  from hl sp pq cl le obtain s1 xs1 fs1 where b: "bite_hole clicks pq h s = Some (?b, s1)"
    "hole_lists s1 xs1 fs1" "sep (blks s1 xs1)" "clicks_of (blks s1 xs1) = clicks_of (blks s (us @ h # vs)) - ?B"
    "hole_frame s s1" "length fs \<le> length fs1"
    by (rule bite_hole_spec)
  have bh: "blk s h = (unat ?b, unat (h_len (holes s h)))" by (simp add: blk_def)
  then have nz: "?b \<noteq> NO_MEM" using sp by (auto simp: sep_append block_ok_def)
  have "unat clicks \<le> unat (h_len (holes s h))" using le by (simp add: word_le_nat_alt)
  then have sub: "?B \<subseteq> clicks_of (blks s xs)" unfolding xs using bh by auto
  have fr: "clicks_of (blks s1 xs1) = clicks_of (blks s xs) - ?B" using b(4) xs by simp
  note f = hole_frame_sel [OF b(5)]
  have inv': "mem_inv (U \<union> ?B) s1 xs1 fs1"
    unfolding mem_inv_def
  proof (intro conjI)
    show "(U \<union> ?B) \<inter> clicks_of (blks s1 xs1) = {}" "outswap s1 < NR_PROCS_PM"
      "\<forall>n<NR_PROCS_PM. swap_candidate (mprocs s1 n) \<longrightarrow> live (mprocs s1 n)"
      using inv f(1,7) unfolding mem_inv_def fr by auto
    show "images_ok (U \<union> ?B) (mprocs s1) (clicks_of (blks s1 xs1))"
    proof -
      have "U \<union> ?B \<union> (clicks_of (blks s xs) - ?B) = U \<union> clicks_of (blks s xs)" using sub by blast
      with inv show ?thesis unfolding mem_inv_def fr images_ok_def f(1) by simp
    qed
  qed (use b in blast)+
  have "U \<inter> ?B = {}" using inv sub unfolding mem_inv_def by blast
  from that [OF b(1) nz inv' this fr sub b(5,6)] show ?thesis .
qed

lemma alloc_mem_cases:
  assumes "mem_inv U s xs fs" "0 < clicks" "card (candidates s) \<le> length fs"
  shows "\<exists>b s' xs' fs'. alloc_mem clicks s = Some (b, s') \<and>
    (if b = NO_MEM then mem_inv U s' xs' fs'
     else mem_inv (U \<union> {unat b..<unat b + unat clicks}) s' xs' fs' \<and>
       U \<inter> {unat b..<unat b + unat clicks} = {} \<and> b < swap_base s)"
  using assms
proof (induction "card (candidates s)" arbitrary: s xs fs rule: less_induct)
  case (less s xs fs)
  have c: "chain (hnx s) (hole_head s) xs" using less.prems(1) by (simp add: mem_inv_def hole_lists_def)
  have ow: "outswap s < NR_PROCS_PM" using less.prems(1) by (simp add: mem_inv_def)
  obtain r where r: "first_fit clicks None (hole_head s) s = Some r" using first_fit_ends [OF c] by blast
  show ?case
  proof (cases r)
    case (Some z)
    obtain pq h where z: "z = (pq, h)" by (cases z)
    from first_fit_chain [OF c r [unfolded Some z]] obtain us where
      fa: "found_at xs None pq us h" "clicks \<le> h_len (holes s h)" and sb: "h_base (holes s h) < swap_base s" by blast
    from mem_inv_bite [OF less.prems(1,2) fa] obtain s' xs' fs' where
      "bite_hole clicks pq h s = Some (h_base (holes s h), s')" "h_base (holes s h) \<noteq> NO_MEM"
      "mem_inv (U \<union> {unat (h_base (holes s h))..<unat (h_base (holes s h)) + unat clicks}) s' xs' fs'"
      "U \<inter> {unat (h_base (holes s h))..<unat (h_base (holes s h)) + unat clicks} = {}" .
    moreover from this(1) have "alloc_mem clicks s = Some (h_base (holes s h), s')"
      using r Some z by (subst alloc_mem.simps) simp
    ultimately show ?thesis using sb by force
  next
    case None
    have ne: "candidates s = {} \<or> fs \<noteq> []" using less.prems(3) by (cases fs) auto
    from less.prems(1) ring_from_less [OF ow] ne show ?thesis
    proof (cases rule: swap_try_cases)
      case none
      then have "alloc_mem clicks s = Some (NO_MEM, s)"
        using r None by (subst alloc_mem.simps) (simp add: swap_out_def)
      with less.prems(1) show ?thesis by auto
    next
      case (swapped s1 xs1 fs1)
      then have e: "alloc_mem clicks s = alloc_mem clicks s1"
        using r None by (subst alloc_mem.simps) (simp add: swap_out_def)
      from swapped(3,4) less.prems(3) have "card (candidates s1) < card (candidates s)"
        "card (candidates s1) \<le> length fs1" by simp_all
      from less.hyps [OF this(1) swapped(2) less.prems(2) this(2)] show ?thesis
        unfolding e swapped(5) .
    qed
  qed
qed

subsection \<open>Initialisation\<close>

lemma chain_upt:
  assumes "a \<le> b" "\<And>i. a \<le> i \<Longrightarrow> i < b \<Longrightarrow> nx i = (if Suc i = b then None else Some (Suc i))"
  shows "chain nx (if a < b then Some a else None) [a..<b]"
  using assms
proof (induction "b - a" arbitrary: a)
  case 0
  then show ?case by simp
next
  case (Suc k)
  then have ab: "a < b" by simp
  have "chain nx (if Suc a < b then Some (Suc a) else None) [Suc a..<b]"
    using Suc ab by simp
  moreover have "nx a = (if Suc a < b then Some (Suc a) else None)" using Suc.prems(2) [of a] ab by auto
  ultimately show ?case using ab by (simp add: upt_conv_Cons)
qed

definition chunk_blk :: "u32 \<times> u32 \<Rightarrow> nat \<times> nat" where
  "chunk_blk c = (unat (fst c), unat (snd c))"

definition chunk_clicks :: "u32 \<times> u32 \<Rightarrow> nat set" where
  "chunk_clicks c = {unat (fst c)..<unat (fst c) + unat (snd c)}"

text \<open>Chunks of memory as the boot monitor reports them: disjoint, unused entries have size 0.\<close>

definition chunks_ok :: "(u32 \<times> u32) list \<Rightarrow> bool" where
  "chunks_ok cs \<longleftrightarrow> (\<forall>c\<in>set cs. 0 < snd c \<longrightarrow> block_ok (chunk_blk c)) \<and>
     sorted_wrt (\<lambda>c d. chunk_clicks c \<inter> chunk_clicks d = {}) cs"

lemma mem_init_loop_spec:
  assumes "hole_lists s xs fs" "sep (blks s xs)" "chunks_ok cs" "length cs \<le> length fs"
    and "\<forall>c\<in>set cs. chunk_clicks c \<inter> clicks_of (blks s xs) = {}"
  shows "\<exists>s' xs' fs'. mem_init_loop cs free s = Some (free + sum_list (map snd cs), s') \<and>
    hole_lists s' xs' fs' \<and> sep (blks s' xs') \<and>
    clicks_of (blks s' xs') = clicks_of (blks s xs) \<union> (\<Union>c\<in>set cs. chunk_clicks c)"
  using assms
proof (induction cs arbitrary: free s xs fs)
  case Nil
  then show ?case by auto
next
  case (Cons c cs)
  obtain base sz where c: "c = (base, sz)" by (cases c)
  have cs: "chunks_ok cs" and disj: "\<forall>d\<in>set cs. chunk_clicks c \<inter> chunk_clicks d = {}"
    using Cons.prems(3) by (auto simp: chunks_ok_def)
  show ?case
  proof (cases "0 < sz")
    case False
    then have "sz = 0" by (simp add: word_neq_0_conv [symmetric])
    then have "chunk_clicks c = {}" "mem_init_loop (c # cs) free s = mem_init_loop cs free s"
      by (simp_all add: chunk_clicks_def c)
    with Cons.IH [OF Cons.prems(1,2) cs, of free] Cons.prems(4,5) \<open>sz = 0\<close> c show ?thesis by auto
  next
    case True
    have ok: "block_ok (unat base, unat sz)"
      using Cons.prems(3) True by (auto simp: chunks_ok_def c chunk_blk_def)
    have dj: "{unat base..<unat base + unat sz} \<inter> clicks_of (blks s xs) = {}"
      using Cons.prems(5) by (auto simp: c chunk_clicks_def)
    have ne: "fs \<noteq> []" using Cons.prems(4) by auto
    from free_mem_spec [OF Cons.prems(1,2) ne ok dj] obtain s1 xs1 fs1 where
      f: "free_mem base sz s = Some s1" "hole_lists s1 xs1 fs1" "sep (blks s1 xs1)"
      "clicks_of (blks s1 xs1) = clicks_of (blks s xs) \<union> {unat base..<unat base + unat sz}"
      "hole_frame s s1" "length fs \<le> Suc (length fs1)" .
    define s2 where "s2 = (if swap_base s1 < base + sz then s1\<lparr>swap_base := base + sz\<rparr> else s1)"
    have eq: "holes s2 = holes s1" "hole_head s2 = hole_head s1" "free_slots s2 = free_slots s1"
      by (simp_all add: s2_def)
    have h2: "hole_lists s2 xs1 fs1" using hole_lists_frame [OF eq] f(2) by blast
    have b2: "blks s2 xs1 = blks s1 xs1" using eq(1) by (simp add: blk_def)
    have cl2: "clicks_of (blks s2 xs1) = clicks_of (blks s xs) \<union> chunk_clicks c"
      using f(4) by (simp only: b2 chunk_clicks_def c fst_conv snd_conv)
    have "\<forall>d\<in>set cs. chunk_clicks d \<inter> clicks_of (blks s2 xs1) = {}"
      unfolding cl2 using Cons.prems(5) disj by auto
    moreover have "length cs \<le> length fs1" using Cons.prems(4) f(6) by simp
    moreover have "sep (blks s2 xs1)" unfolding b2 by (rule f(3))
    ultimately obtain s' xs' fs' where m:
      "mem_init_loop cs (free + sz) s2 = Some (free + sz + sum_list (map snd cs), s')"
      "hole_lists s' xs' fs'" "sep (blks s' xs')"
      "clicks_of (blks s' xs') = clicks_of (blks s2 xs1) \<union> (\<Union>c\<in>set cs. chunk_clicks c)"
      using Cons.IH [OF h2 _ cs, of "free + sz"] by blast
    have e: "mem_init_loop (c # cs) free s = mem_init_loop cs (free + sz) s2"
      using True f(1) by (simp add: c s2_def Let_def)
    show ?thesis
    proof (intro exI conjI)
      show "mem_init_loop (c # cs) free s = Some (free + sum_list (map snd (c # cs)), s')"
        unfolding e m(1) by (simp add: c add.assoc)
      show "clicks_of (blks s' xs') = clicks_of (blks s xs) \<union> (\<Union>d\<in>set (c # cs). chunk_clicks d)"
        unfolding m(4) cl2 by auto
    qed (rule m(2), rule m(3))
  qed
qed

subsection \<open>Properties\<close>

text \<open>A small instance: two holes, one of them in the swap area, and a waiting process.\<close>

definition demo_mproc :: mproc where
  "demo_mproc = \<lparr>mp_seg = (\<lambda>_. \<lparr>mem_vir = 0, mem_phys = 0, mem_len = 0\<rparr>), mp_exitstatus = 0,
     mp_sigstatus = 0, mp_pid = 0, mp_procgrp = 0, mp_wpid = 0, mp_parent = 0, mp_child_utime = 0,
     mp_child_stime = 0, mp_realuid = 0, mp_effuid = 0, mp_realgid = 0, mp_effgid = 0, mp_ino = 0,
     mp_dev = 0, mp_ctime = 0, mp_ignore = 0, mp_catch = 0, mp_sig2mess = 0, mp_sigmask = 0,
     mp_sigmask2 = 0, mp_sigpending = 0,
     mp_sigact = (\<lambda>_. \<lparr>sa_handler = 0, sa_mask = 0, sa_flags = 0\<rparr>), mp_sigreturn = 0, mp_flags = {},
     mp_procargs = 0, mp_swapq = None,
     mp_reply = \<lparr>m_source = 0, m_type = 0, m_w0 = 0, m_w1 = 0, m_w2 = 0, m_w3 = 0, m_w4 = 0, m_w5 = 0,
       m_w6 = 0\<rparr>, mp_nice = 0, mp_name = []\<rparr>"

definition demo_user :: mproc where
  "demo_user = demo_mproc\<lparr>mp_pid := 20, mp_procgrp := 20, mp_parent := INIT_PROC, mp_flags := {IN_USE, WAITING},
     mp_seg := (\<lambda>i. if i = SEG_D then \<lparr>mem_vir = 0, mem_phys = 300, mem_len = 5\<rparr>
       else if i = SEG_S then \<lparr>mem_vir = 15, mem_phys = 315, mem_len = 5\<rparr>
       else \<lparr>mem_vir = 0, mem_phys = 300, mem_len = 0\<rparr>)\<rparr>"

definition demo_pm :: pmstate where
  "demo_pm = \<lparr>mprocs = (\<lambda>n. if n = 8 then demo_user else demo_mproc), mp = 8, who = 8,
     m_in = mp_reply demo_mproc, call_nr = 0, procs_in_use = 1, core_sset = 0, ign_sset = 0,
     holes = (\<lambda>i. if i = 0 then \<lparr>h_next = Some 1, h_base = 100, h_len = 50\<rparr>
       else if i = 1 then \<lparr>h_next = None, h_base = 200, h_len = 30\<rparr>
       else \<lparr>h_next = (if Suc i = NR_HOLES then None else Some (Suc i)), h_base = 0, h_len = 0\<rparr>),
     hole_head = Some 0, free_slots = Some 2, swap_fd = 3, swap_offset = 0, swap_base = 190,
     swap_maxsize = 1000, in_queue = None, outswap = 0,
     pm_timer_heap = (\<lambda>_. \<lparr>tmr_next = None, tmr_exp_time = 0, tmr_func = (), tmr_arg = 0\<rparr>),
     pm_timers = None, next_pid = 30, boottime = 0, pm_log = [], pm_answer = (\<lambda>_. (0, []))\<rparr>"

lemma demo_hole_lists: "hole_lists demo_pm [0, 1] [2..<NR_HOLES]"
proof -
  have "chain (hnx demo_pm) (if 2 < NR_HOLES then Some 2 else None) [2..<NR_HOLES]"
    by (rule chain_upt) (auto simp: hnx_def demo_pm_def)
  moreover have "{0, Suc 0} \<union> {2..<NR_HOLES} = {..<NR_HOLES}" by auto
  ultimately show ?thesis
    unfolding hole_lists_def set_upt by (simp add: demo_pm_def hnx_def del: upt_rec_numeral) 
qed

lemma demo_blks: "blks demo_pm [0, 1] = [(100, 50), (200, 30)]"
  by (simp add: blk_def demo_pm_def)

lemma demo_mem_inv: "mem_inv {0..<50} demo_pm [0, 1] [2..<NR_HOLES]"
proof -
  have "images_ok {0..<50} (mprocs demo_pm) (clicks_of [(100, 50), (200, 30)])"
    by (auto simp: images_ok_def demo_pm_def demo_user_def demo_mproc_def live_def image_block_def
        image_size_def image_def block_ok_def)
  moreover have "swap_candidate (mprocs demo_pm n) \<longrightarrow> live (mprocs demo_pm n)" for n
    by (auto simp: swap_candidate_def live_def demo_pm_def demo_mproc_def demo_user_def)
  ultimately show ?thesis
    unfolding mem_inv_def demo_blks using demo_hole_lists by (auto simp: block_ok_def demo_pm_def)
qed

lemma demo_candidates: "candidates demo_pm = {8}"
  by (auto simp: candidates_def demo_pm_def demo_mproc_def demo_user_def swap_candidate_def)

text \<open>
  C7. \<open>alloc_mem\<close> returns, also when it has to swap processes out, provided that a table slot is
  left for every process it may swap. It either reports that there is no memory, or the block it returns
  is disjoint from all memory in use (\<open>U\<close>, the images of the processes, the remaining holes) and
  starts below the swap area. The invariant of memory holds in both cases, with the block as memory in use.
\<close>

theorem alloc_mem_safe:
  assumes "mem_inv U s xs fs" and "0 < clicks" and "card (candidates s) \<le> length fs"
  shows "\<exists>b s' xs' fs'. alloc_mem clicks s = Some (b, s') \<and>
    (if b = NO_MEM then mem_inv U s' xs' fs'
     else mem_inv (U \<union> {unat b..<unat b + unat clicks}) s' xs' fs' \<and>
       U \<inter> {unat b..<unat b + unat clicks} = {} \<and> b < swap_base s)"
  using assms by (rule alloc_mem_cases)

theorem alloc_mem_safe_witness:
  "\<exists>b s' xs' fs'. alloc_mem 60 demo_pm = Some (b, s') \<and>
    (if b = NO_MEM then mem_inv {0..<50} s' xs' fs'
     else mem_inv ({0..<50} \<union> {unat b..<unat b + unat (60 :: u32)}) s' xs' fs' \<and>
       {0..<50} \<inter> {unat b..<unat b + unat (60 :: u32)} = {} \<and> b < swap_base demo_pm)"
  by (rule alloc_mem_safe [OF demo_mem_inv]) (simp_all add: demo_candidates del: upt_rec_numeral)

text \<open>
  C8. Returning a block that is in use makes exactly its clicks free again and keeps the invariant
  of memory: the holes stay sorted, disjoint and coalesced.
\<close>

theorem free_mem_safe:
  assumes "mem_inv (U \<union> {unat base..<unat base + unat clicks}) s xs fs" and "fs \<noteq> []"
    and "U \<inter> {unat base..<unat base + unat clicks} = {}"
    and "0 < base" and "0 < clicks" and "unat base + unat clicks \<le> 2 ^ 32"
  shows "\<exists>s' xs' fs'. free_mem base clicks s = Some s' \<and> mem_inv U s' xs' fs' \<and>
    clicks_of (blks s' xs') = clicks_of (blks s xs) \<union> {unat base..<unat base + unat clicks}"
proof -
  let ?B = "{unat base..<unat base + unat clicks}"
  have inv: "hole_lists s xs fs" "sep (blks s xs)" "(U \<union> ?B) \<inter> clicks_of (blks s xs) = {}"
    "images_ok (U \<union> ?B) (mprocs s) (clicks_of (blks s xs))" "outswap s < NR_PROCS_PM"
    "\<forall>n<NR_PROCS_PM. swap_candidate (mprocs s n) \<longrightarrow> live (mprocs s n)"
    using assms(1) unfolding mem_inv_def by blast+
  have ok: "block_ok (unat base, unat clicks)"
    using assms(4-6) by (simp add: block_ok_def unat_gt_0 word_neq_0_conv)
  have "?B \<inter> clicks_of (blks s xs) = {}" using inv(3) by blast
  from free_mem_spec [OF inv(1,2) assms(2) ok this] obtain s' xs' fs' where
    f: "free_mem base clicks s = Some s'" "hole_lists s' xs' fs'" "sep (blks s' xs')"
    "clicks_of (blks s' xs') = clicks_of (blks s xs) \<union> ?B" "hole_frame s s'" .
  note g = hole_frame_sel [OF f(5)]
  have "U \<union> (clicks_of (blks s xs) \<union> ?B) = U \<union> ?B \<union> clicks_of (blks s xs)" by blast
  then have "images_ok U (mprocs s') (clicks_of (blks s' xs'))"
    using inv(4) unfolding images_ok_def f(4) g(1) by simp
  then have "mem_inv U s' xs' fs'"
    using inv assms(3) f(2,3) unfolding mem_inv_def f(4) g(1,7) by auto
  with f show ?thesis by blast
qed

lemma demo_mem_inv_used: "mem_inv ({0..<40} \<union> {unat (40 :: u32)..<unat (40 :: u32) + unat (10 :: u32)}) demo_pm [0, 1] [2..<NR_HOLES]"
proof -
  have "{0..<40} \<union> {unat (40 :: u32)..<unat (40 :: u32) + unat (10 :: u32)} = {0..<50}" by auto
  then show ?thesis using demo_mem_inv by simp
qed

theorem free_mem_safe_witness:
  "\<exists>s' xs' fs'. free_mem 40 10 demo_pm = Some s' \<and> mem_inv {0..<40} s' xs' fs' \<and>
    clicks_of (blks s' xs') = clicks_of (blks demo_pm [0, 1]) \<union> {unat (40 :: u32)..<unat (40 :: u32) + unat (10 :: u32)}"
  by (rule free_mem_safe [OF demo_mem_inv_used]) auto

text \<open>
  C11. Freeing a block that was allocated without swapping restores the list of holes, block by block.
\<close>

theorem alloc_free_roundtrip:
  assumes "mem_inv U s xs fs" and "0 < clicks" and "fs \<noteq> []"
    and "first_fit clicks None (hole_head s) s = Some (Some z)"
  shows "\<exists>b s1 s2 xs2 fs2. alloc_mem clicks s = Some (b, s1) \<and> free_mem b clicks s1 = Some s2 \<and>
    mem_inv U s2 xs2 fs2 \<and> blks s2 xs2 = blks s xs"
proof -
  obtain pq h where z: "z = (pq, h)" by (cases z)
  let ?b = "h_base (holes s h)"
  let ?B = "{unat ?b..<unat ?b + unat clicks}"
  have hl: "hole_lists s xs fs" and sp: "sep (blks s xs)" using assms(1) by (simp_all add: mem_inv_def)
  have c: "chain (hnx s) (hole_head s) xs" using hl by (simp add: hole_lists_def)
  from first_fit_chain [OF c assms(4) [unfolded z]] obtain us where
    fa: "found_at xs None pq us h" "clicks \<le> h_len (holes s h)" by blast
  from mem_inv_bite [OF assms(1,2) fa] obtain s1 xs1 fs1 where
    b: "bite_hole clicks pq h s = Some (?b, s1)" "?b \<noteq> NO_MEM" "mem_inv (U \<union> ?B) s1 xs1 fs1"
    "U \<inter> ?B = {}" "clicks_of (blks s1 xs1) = clicks_of (blks s xs) - ?B" "?B \<subseteq> clicks_of (blks s xs)"
    "hole_frame s s1" "length fs \<le> length fs1" .
  have run: "alloc_mem clicks s = Some (?b, s1)"
    using assms(4) z b(1) by (subst alloc_mem.simps) simp
  have hx: "h \<in> set xs" using fa(1) by (auto simp: found_at_def)
  have "block_ok (blk s h)" using sp hx by (auto simp: sep_def list_all_iff)
  then have ok: "block_ok (unat ?b, unat clicks)"
    using fa(2) assms(2) by (auto simp: block_ok_def blk_def word_le_nat_alt unat_gt_0 word_neq_0_conv)
  have inv1: "hole_lists s1 xs1 fs1" "sep (blks s1 xs1)" using b(3) by (simp_all add: mem_inv_def)
  have ne: "fs1 \<noteq> []" and dj: "?B \<inter> clicks_of (blks s1 xs1) = {}" using b(5,8) assms(3) by auto
  from free_mem_spec [OF inv1 ne ok dj] obtain s2 xs2 fs2 where
    f: "free_mem ?b clicks s1 = Some s2" "hole_lists s2 xs2 fs2" "sep (blks s2 xs2)"
    "clicks_of (blks s2 xs2) = clicks_of (blks s1 xs1) \<union> ?B" "hole_frame s1 s2" .
  have "clicks_of (blks s2 xs2) = clicks_of (blks s xs)" using f(4) b(5,6) by blast
  then have bl: "blks s2 xs2 = blks s xs" by (rule sep_unique [OF f(3) sp])
  note g = hole_frame_sel [OF hole_frame_trans [OF b(7) f(5)]]
  have "mem_inv U s2 xs2 fs2"
    using assms(1) f(2) unfolding mem_inv_def bl g(1,7) by blast
  with run f(1) bl show ?thesis by blast
qed

theorem alloc_free_roundtrip_witness:
  "\<exists>b s1 s2 xs2 fs2. alloc_mem 10 demo_pm = Some (b, s1) \<and> free_mem b 10 s1 = Some s2 \<and>
    mem_inv {0..<50} s2 xs2 fs2 \<and> blks s2 xs2 = blks demo_pm [0, 1]"
proof (rule alloc_free_roundtrip [OF demo_mem_inv, of 10 "(None, 0)"])
  show "first_fit 10 None (hole_head demo_pm) demo_pm = Some (Some (None, 0))"
    by (subst first_fit.simps) (simp add: demo_pm_def)
qed auto

text \<open>
  C38. \<open>mem_init\<close> turns the boot monitor's chunks of memory into the list of holes: the holes cover
  exactly the chunks and are sorted and coalesced, all other table slots are unused, and the amount
  of free memory reported is the sum of the chunks.
\<close>

theorem mem_init_builds:
  assumes "chunks_ok cs" and "length cs \<le> NR_HOLES"
  shows "\<exists>s' xs fs. mem_init cs s = Some (sum_list (map snd cs), s') \<and> hole_lists s' xs fs \<and>
    sep (blks s' xs) \<and> clicks_of (blks s' xs) = (\<Union>c\<in>set cs. chunk_clicks c)"
proof -
  define s0 where "s0 = s\<lparr>holes := (\<lambda>i. if i < NR_HOLES
      then (holes s i)\<lparr>h_next := (if i = NR_HOLES - 1 then None else Some (i + 1))\<rparr> else holes s i),
    hole_head := None, free_slots := Some 0\<rparr>"
  have "chain (hnx s0) (if 0 < NR_HOLES then Some 0 else None) [0..<NR_HOLES]"
    by (rule chain_upt) (auto simp: s0_def hnx_def)
  moreover have "{0..<NR_HOLES} = {..<NR_HOLES}" by auto
  ultimately have hl: "hole_lists s0 [] [0..<NR_HOLES]"
    unfolding hole_lists_def set_upt by (simp add: s0_def del: upt_rec_numeral)
  have rc: "chunks_ok (rev cs)" using assms(1) by (auto simp: chunks_ok_def sorted_wrt_rev Int_commute)
  have "length (rev cs) \<le> length [0..<NR_HOLES]" using assms(2) by (simp del: upt_rec_numeral)
  from mem_init_loop_spec [OF hl _ rc this, of 0] obtain s1 xs fs where
    m: "mem_init_loop (rev cs) 0 s0 = Some (0 + sum_list (map snd (rev cs)), s1)" "hole_lists s1 xs fs"
    "sep (blks s1 xs)" "clicks_of (blks s1 xs) = clicks_of (blks s0 []) \<union> (\<Union>c\<in>set (rev cs). chunk_clicks c)"
    by auto
  let ?s2 = "s1\<lparr>swap_base := swap_base s1 + 1\<rparr>"
  let ?s3 = "?s2\<lparr>swap_maxsize := 0 - swap_base ?s2\<rparr>"
  have run: "mem_init cs s = Some (sum_list (map snd cs), ?s3)"
    unfolding mem_init_def Let_def s0_def [symmetric] m(1) by (simp add: rev_map [symmetric])
  have hl3: "hole_lists ?s3 xs fs" using m(2) by (subst hole_lists_frame [of _ s1]) simp_all
  have bl3: "blks ?s3 xs = blks s1 xs" by (simp add: blk_def)
  have "clicks_of (blks s1 xs) = (\<Union>c\<in>set cs. chunk_clicks c)" using m(4) by simp
  then have "sep (blks ?s3 xs)" "clicks_of (blks ?s3 xs) = (\<Union>c\<in>set cs. chunk_clicks c)"
    unfolding bl3 using m(3) by blast+
  with run hl3 show ?thesis by blast
qed

theorem mem_init_builds_witness:
  "\<exists>s' xs fs. mem_init [(2, 100), (1024, 3000)] demo_pm = Some (sum_list (map snd [(2 :: u32, 100 :: u32), (1024, 3000)]), s') \<and>
    hole_lists s' xs fs \<and> sep (blks s' xs) \<and>
    clicks_of (blks s' xs) = (\<Union>c\<in>set [(2, 100), (1024, 3000)]. chunk_clicks c)"
  by (rule mem_init_builds) (simp_all add: chunks_ok_def block_ok_def chunk_blk_def chunk_clicks_def)

end
