(* ===== verification/FS_Types.thy ===== *)
theory FS_Types
  imports Kernel_Types
begin

text \<open>
  The file system's data: the block cache (\<^verbatim>\<open>servers/fs/buf.h\<close>), the tables of inodes, open files,
  processes, super blocks and locks (\<^verbatim>\<open>inode.h\<close>, \<^verbatim>\<open>file.h\<close>, \<^verbatim>\<open>fproc.h\<close>, \<^verbatim>\<open>super.h\<close>,
  \<^verbatim>\<open>lock.h\<close>) and the global variables (\<^verbatim>\<open>glo.h\<close>).

  Representation. Pointers to table entries are indexes, the null pointer is \<open>None\<close>. A block in
  the cache is a function from offsets to bytes; its other views (bit map, inodes, zone numbers,
  directory entries) read and write those bytes.

  The disk drivers are other processes. A device is a store of bytes (\<open>disk\<close>); the \<open>n\<close>-th request
  to a driver is answered by \<open>io_ans n\<close>: everything was transferred, or a status and, for a vector
  of requests, the number of them that were carried out. A transfer of a single block moves as many
  bytes as its status says. The answers are arbitrary, so I/O errors can happen at any time. Calls to the kernel and messages to
  user processes are recorded in \<open>fs_log\<close>, printed messages by their beginning, and answered by \<open>fs_ans\<close>.
\<close>

subsection \<open>Constants\<close>

definition NR_BUFS :: nat where "NR_BUFS = 1280"
definition NR_BUF_HASH :: nat where "NR_BUF_HASH = 2048"

abbreviation (input) NR_IOREQS :: nat where "NR_IOREQS \<equiv> 64"
abbreviation (input) NR_INODES :: nat where "NR_INODES \<equiv> 64"
abbreviation (input) NR_SUPERS :: nat where "NR_SUPERS \<equiv> 8"
abbreviation (input) NR_FILPS :: nat where "NR_FILPS \<equiv> 128"
abbreviation (input) NR_LOCKS :: nat where "NR_LOCKS \<equiv> 8"
abbreviation (input) OPEN_MAX :: nat where "OPEN_MAX \<equiv> 20"
abbreviation (input) FS_NR_PROCS :: nat where "FS_NR_PROCS \<equiv> 64"
abbreviation (input) MIN_BLOCK_SIZE :: nat where "MIN_BLOCK_SIZE \<equiv> 1024"
abbreviation (input) MAX_BLOCK_SIZE :: nat where "MAX_BLOCK_SIZE \<equiv> 4096"
abbreviation (input) STATIC_BLOCK_SIZE :: nat where "STATIC_BLOCK_SIZE \<equiv> 1024"
abbreviation (input) NO_DEV :: int where "NO_DEV \<equiv> 0"
abbreviation (input) NO_BLOCK :: u32 where "NO_BLOCK \<equiv> 0"
abbreviation (input) NO_ZONE :: u32 where "NO_ZONE \<equiv> 0"
abbreviation (input) NO_BIT :: u32 where "NO_BIT \<equiv> 0"
abbreviation (input) DEV_RAM :: int where "DEV_RAM \<equiv> 0x100"
abbreviation (input) END_OF_FILE :: int where "END_OF_FILE \<equiv> - 104"
abbreviation (input) V2_NR_TZONES :: nat where "V2_NR_TZONES \<equiv> 10"
abbreviation (input) V1_NR_TZONES :: nat where "V1_NR_TZONES \<equiv> 9"

text \<open>Values of \<^verbatim>\<open>only_search\<close>, of \<^verbatim>\<open>rw_flag\<close> and of \<^verbatim>\<open>block_type\<close>.\<close>

datatype search_mode = NORMAL | NO_READ | PREFETCH
datatype rw_flag = READING | WRITING

abbreviation (input) WRITE_IMMED :: nat where "WRITE_IMMED \<equiv> 64"
abbreviation (input) ONE_SHOT :: nat where "ONE_SHOT \<equiv> 128"
abbreviation (input) INODE_BLOCK :: nat where "INODE_BLOCK \<equiv> 0"
abbreviation (input) DIRECTORY_BLOCK :: nat where "DIRECTORY_BLOCK \<equiv> 1"
abbreviation (input) INDIRECT_BLOCK :: nat where "INDIRECT_BLOCK \<equiv> 2"
abbreviation (input) MAP_BLOCK :: nat where "MAP_BLOCK \<equiv> 3"
abbreviation (input) FULL_DATA_BLOCK :: nat where "FULL_DATA_BLOCK \<equiv> 5"
abbreviation (input) PARTIAL_DATA_BLOCK :: nat where "PARTIAL_DATA_BLOCK \<equiv> 6"

text \<open>Values of file modes.\<close>

abbreviation (input) I_TYPE :: u16 where "I_TYPE \<equiv> 0xF000"
abbreviation (input) I_REGULAR :: u16 where "I_REGULAR \<equiv> 0x8000"
abbreviation (input) I_BLOCK_SPECIAL :: u16 where "I_BLOCK_SPECIAL \<equiv> 0x6000"
abbreviation (input) I_DIRECTORY :: u16 where "I_DIRECTORY \<equiv> 0x4000"
abbreviation (input) I_CHAR_SPECIAL :: u16 where "I_CHAR_SPECIAL \<equiv> 0x2000"
abbreviation (input) I_NAMED_PIPE :: u16 where "I_NAMED_PIPE \<equiv> 0x1000"
abbreviation (input) I_NOT_ALLOC :: u16 where "I_NOT_ALLOC \<equiv> 0"
abbreviation (input) R_BIT :: u16 where "R_BIT \<equiv> 4"
abbreviation (input) W_BIT :: u16 where "W_BIT \<equiv> 2"
abbreviation (input) X_BIT :: u16 where "X_BIT \<equiv> 1"

subsection \<open>Tables\<close>

type_synonym bytes = "nat \<Rightarrow> u8"

record buf =
  b_data :: bytes
  b_next :: "nat option"
  b_prev :: "nat option"
  b_hash :: "nat option"
  b_blocknr :: u32
  b_dev :: int
  b_dirt :: bool
  b_count :: int

datatype time_flag = ATIME | CTIME | MTIME

record inode =
  i_mode :: u16
  i_nlinks :: int
  i_uid :: int
  i_gid :: int
  i_size :: u32
  i_atime :: int
  i_mtime :: int
  i_ctime :: int
  i_zone :: "nat \<Rightarrow> u32"
  i_dev :: int
  i_num :: u32
  i_count :: int
  i_ndzones :: nat
  i_nindirs :: nat
  i_sp :: "nat option"
  i_dirt :: bool
  i_pipe :: bool
  i_mount :: bool
  i_seek :: bool
  i_update :: "time_flag set"

record filp =
  filp_mode :: u16
  filp_flags :: u32
  filp_count :: int
  filp_ino :: "nat option"
  filp_pos :: u32
  filp_selectors :: int
  filp_select_ops :: u32
  filp_pipe_select_ops :: u32

record fproc =
  fp_umask :: u16
  fp_workdir :: "nat option"
  fp_rootdir :: "nat option"
  fp_filp :: "nat \<Rightarrow> nat option"
  fp_realuid :: int
  fp_effuid :: int
  fp_realgid :: int
  fp_effgid :: int
  fp_tty :: int
  fp_fd :: int
  fp_buffer :: u32
  fp_nbytes :: int
  fp_cum_io_partial :: int
  fp_suspended :: bool
  fp_revived :: bool
  fp_task :: int
  fp_sesldr :: bool
  fp_pid :: int
  fp_cloexec :: u32

record super_block =
  s_ninodes :: u32
  s_nzones :: u16
  s_imap_blocks :: int
  s_zmap_blocks :: int
  s_firstdatazone :: u16
  s_log_zone_size :: int
  s_max_size :: u32
  s_zones :: u32
  s_magic :: int
  s_block_size :: nat
  s_isup :: "nat option"
  s_imount :: "nat option"
  s_inodes_per_block :: nat
  s_dev :: int
  s_rd_only :: bool
  s_native :: bool
  s_version :: int
  s_ndzones :: nat
  s_nindirs :: nat
  s_isearch :: u32
  s_zsearch :: u32

record file_lock =
  lock_type :: int
  lock_pid :: int
  lock_inode :: "nat option"
  lock_first :: u32
  lock_last :: u32

datatype io_reply = Io_all | Io_status int nat

datatype fs_call =
    Fs_datacopy_in int u32 nat
  | Fs_datacopy_out int u32 bytes nat
  | Fs_copy_in int int u32 nat
  | Fs_copy_out int int u32 bytes nat
  | Fs_umap int int u32 nat
  | Fs_send int message
  | Fs_receive
  | Fs_kill int int
  | Fs_printf string
  | Fs_getuptime
  | Fs_notify int

record fsstate =
  bufs :: "nat \<Rightarrow> buf"
  buf_hash :: "nat \<Rightarrow> nat option"
  front :: "nat option"
  rear :: "nat option"
  bufs_in_use :: int
  inodes :: "nat \<Rightarrow> inode"
  filps :: "nat \<Rightarrow> filp"
  fprocs :: "nat \<Rightarrow> fproc"
  super_blocks :: "nat \<Rightarrow> super_block"
  file_locks :: "nat \<Rightarrow> file_lock"
  fp :: nat
  super_user :: bool
  susp_count :: int
  nr_locks :: int
  reviving :: int
  rdahedpos :: u32
  rdahed_inode :: "nat option"
  root_dev :: int
  fs_boottime :: int
  fs_m_in :: message
  fs_m_out :: message
  fs_who :: int
  fs_call_nr :: int
  err_code :: int
  rdwt_err :: int
  disk :: "int \<Rightarrow> u32 \<Rightarrow> u8"
  io_ans :: "nat \<Rightarrow> io_reply"
  io_cnt :: nat
  fs_log :: "fs_call list"
  fs_ans :: "nat \<Rightarrow> int \<times> bytes"

definition upd_buf :: "nat \<Rightarrow> (buf \<Rightarrow> buf) \<Rightarrow> fsstate \<Rightarrow> fsstate" where
  "upd_buf i f s = s\<lparr>bufs := (bufs s)(i := f (bufs s i))\<rparr>"

definition upd_inode :: "nat \<Rightarrow> (inode \<Rightarrow> inode) \<Rightarrow> fsstate \<Rightarrow> fsstate" where
  "upd_inode i f s = s\<lparr>inodes := (inodes s)(i := f (inodes s i))\<rparr>"

definition upd_filp :: "nat \<Rightarrow> (filp \<Rightarrow> filp) \<Rightarrow> fsstate \<Rightarrow> fsstate" where
  "upd_filp i f s = s\<lparr>filps := (filps s)(i := f (filps s i))\<rparr>"

definition upd_fproc :: "nat \<Rightarrow> (fproc \<Rightarrow> fproc) \<Rightarrow> fsstate \<Rightarrow> fsstate" where
  "upd_fproc i f s = s\<lparr>fprocs := (fprocs s)(i := f (fprocs s i))\<rparr>"

definition upd_super :: "nat \<Rightarrow> (super_block \<Rightarrow> super_block) \<Rightarrow> fsstate \<Rightarrow> fsstate" where
  "upd_super i f s = s\<lparr>super_blocks := (super_blocks s)(i := f (super_blocks s i))\<rparr>"

definition upd_lock :: "nat \<Rightarrow> (file_lock \<Rightarrow> file_lock) \<Rightarrow> fsstate \<Rightarrow> fsstate" where
  "upd_lock i f s = s\<lparr>file_locks := (file_locks s)(i := f (file_locks s i))\<rparr>"

text \<open>A call to another process, with its answer: a status and bytes.\<close>

definition fs_do :: "fs_call \<Rightarrow> fsstate \<Rightarrow> (int \<times> bytes) \<times> fsstate" where
  "fs_do c s = (fs_ans s (length (fs_log s)), s\<lparr>fs_log := fs_log s @ [c]\<rparr>)"

definition fs_tell :: "fs_call \<Rightarrow> fsstate \<Rightarrow> fsstate" where
  "fs_tell c s = s\<lparr>fs_log := fs_log s @ [c]\<rparr>"

text \<open>The static variables at the start, all zero, with a disk.\<close>

definition zero_buf :: buf where
  "zero_buf = \<lparr>b_data = (\<lambda>_. 0), b_next = None, b_prev = None, b_hash = None, b_blocknr = 0, b_dev = 0,
     b_dirt = False, b_count = 0\<rparr>"

definition zero_inode :: inode where
  "zero_inode = \<lparr>i_mode = 0, i_nlinks = 0, i_uid = 0, i_gid = 0, i_size = 0, i_atime = 0, i_mtime = 0,
     i_ctime = 0, i_zone = (\<lambda>_. 0), i_dev = 0, i_num = 0, i_count = 0, i_ndzones = 0, i_nindirs = 0,
     i_sp = None, i_dirt = False, i_pipe = False, i_mount = False, i_seek = False, i_update = {}\<rparr>"

definition zero_filp :: filp where
  "zero_filp = \<lparr>filp_mode = 0, filp_flags = 0, filp_count = 0, filp_ino = None, filp_pos = 0,
     filp_selectors = 0, filp_select_ops = 0, filp_pipe_select_ops = 0\<rparr>"

definition zero_fproc :: fproc where
  "zero_fproc = \<lparr>fp_umask = 0, fp_workdir = None, fp_rootdir = None, fp_filp = (\<lambda>_. None), fp_realuid = 0,
     fp_effuid = 0, fp_realgid = 0, fp_effgid = 0, fp_tty = 0, fp_fd = 0, fp_buffer = 0, fp_nbytes = 0,
     fp_cum_io_partial = 0, fp_suspended = False, fp_revived = False, fp_task = 0, fp_sesldr = False,
     fp_pid = 0, fp_cloexec = 0\<rparr>"

definition zero_super :: super_block where
  "zero_super = \<lparr>s_ninodes = 0, s_nzones = 0, s_imap_blocks = 0, s_zmap_blocks = 0, s_firstdatazone = 0,
     s_log_zone_size = 0, s_max_size = 0, s_zones = 0, s_magic = 0, s_block_size = 0, s_isup = None,
     s_imount = None, s_inodes_per_block = 0, s_dev = 0, s_rd_only = False, s_native = False, s_version = 0,
     s_ndzones = 0, s_nindirs = 0, s_isearch = 0, s_zsearch = 0\<rparr>"

definition zero_lock :: file_lock where
  "zero_lock = \<lparr>lock_type = 0, lock_pid = 0, lock_inode = None, lock_first = 0, lock_last = 0\<rparr>"

definition fs_zero :: "message \<Rightarrow> (int \<Rightarrow> u32 \<Rightarrow> u8) \<Rightarrow> fsstate" where
  "fs_zero m D = \<lparr>bufs = (\<lambda>_. zero_buf), buf_hash = (\<lambda>_. None), front = None, rear = None, bufs_in_use = 0,
     inodes = (\<lambda>_. zero_inode), filps = (\<lambda>_. zero_filp), fprocs = (\<lambda>_. zero_fproc),
     super_blocks = (\<lambda>_. zero_super), file_locks = (\<lambda>_. zero_lock), fp = 0, super_user = False,
     susp_count = 0, nr_locks = 0, reviving = 0, rdahedpos = 0, rdahed_inode = None, root_dev = 0,
     fs_boottime = 0, fs_m_in = m, fs_m_out = m, fs_who = 0, fs_call_nr = 0, err_code = 0, rdwt_err = 0,
     disk = D, io_ans = (\<lambda>_. Io_all), io_cnt = 0, fs_log = [], fs_ans = (\<lambda>_. (0, \<lambda>_. 0))\<rparr>"

text \<open>Little-endian words in a block.\<close>

definition get16 :: "nat \<Rightarrow> bytes \<Rightarrow> u16" where
  "get16 off d = ucast (d off) OR push_bit 8 (ucast (d (off + 1)))"

definition put16 :: "nat \<Rightarrow> u16 \<Rightarrow> bytes \<Rightarrow> bytes" where
  "put16 off w d = d(off := ucast w, off + 1 := ucast (drop_bit 8 w))"

definition get32 :: "nat \<Rightarrow> bytes \<Rightarrow> u32" where
  "get32 off d = ucast (d off) OR push_bit 8 (ucast (d (off + 1)))
     OR push_bit 16 (ucast (d (off + 2))) OR push_bit 24 (ucast (d (off + 3)))"

definition put32 :: "nat \<Rightarrow> u32 \<Rightarrow> bytes \<Rightarrow> bytes" where
  "put32 off w d = d(off := ucast w, off + 1 := ucast (drop_bit 8 w),
     off + 2 := ucast (drop_bit 16 w), off + 3 := ucast (drop_bit 24 w))"

lemma get_put16 [simp]: "get16 off (put16 off w d) = w"
  unfolding get16_def put16_def
  by (rule bit_word_eqI) (auto simp: bit_simps not_less)

lemma get_put16_other [simp]: "off \<noteq> o' \<Longrightarrow> even off \<Longrightarrow> even o' \<Longrightarrow> get16 o' (put16 off w d) = get16 o' d"
  unfolding get16_def put16_def by (auto elim: evenE)

lemma get_put32 [simp]: "get32 off (put32 off w d) = w"
  unfolding get32_def put32_def by (simp add: byte_of_word)

end
