(* ===== verification/FS_Cache.thy ===== *)
theory FS_Cache
  imports FS_Types Chain "HOL-Library.Multiset"
begin

text \<open>
  The block cache, \<^verbatim>\<open>servers/fs/cache.c\<close> (and \<^verbatim>\<open>get_block_size\<close> of \<^verbatim>\<open>super.c\<close>): buffers on hash
  chains and, while unused, on a doubly linked chain in order of use; replacement, write-back of all
  dirty blocks of a device in one scattered request, and single block transfers.

  Shown here: the Shell sort of \<open>rw_scattered\<close> sorts; the cache is transparent, that is, as long as the
  devices work, \<open>get_block\<close> returns a buffer with the current contents of the block, whatever it had
  to evict and write back, and no other block changes its contents; a release keeps all of this; the
  chains stay well formed and no block is cached twice.
\<close>

subsection \<open>Model: devices\<close>

fun find_super :: "int \<Rightarrow> nat list \<Rightarrow> fsstate \<Rightarrow> nat option" where
  "find_super dev [] s = None"
| "find_super dev (i # is) s = (if s_dev (super_blocks s i) = dev then Some i else find_super dev is s)"

definition super_nrs :: "nat list" where
  "super_nrs = [0..<NR_SUPERS]"

definition get_block_size :: "int \<Rightarrow> fsstate \<Rightarrow> nat option" where
  "get_block_size dev s =
     (if dev = NO_DEV then None
      else (case find_super dev super_nrs s of
              Some i \<Rightarrow> Some (s_block_size (super_blocks s i))
            | None \<Rightarrow> Some MIN_BLOCK_SIZE))"

text \<open>A transfer of one block. As many bytes move as the status says, at most the block.\<close>

definition moved :: "int \<Rightarrow> nat \<Rightarrow> nat" where
  "moved r bs = (if r < 0 then 0 else min (nat r) bs)"

definition disk_read :: "int \<Rightarrow> u32 \<Rightarrow> nat \<Rightarrow> bytes \<Rightarrow> fsstate \<Rightarrow> bytes" where
  "disk_read dev pos n old s = (\<lambda>i. if i < n then disk s dev (pos + of_nat i) else old i)"

definition disk_write :: "int \<Rightarrow> u32 \<Rightarrow> nat \<Rightarrow> bytes \<Rightarrow> fsstate \<Rightarrow> fsstate" where
  "disk_write dev pos n d s =
     s\<lparr>disk := (disk s)(dev := (\<lambda>a. if unat (a - pos) < n then d (unat (a - pos)) else disk s dev a))\<rparr>"

definition rw_block :: "nat \<Rightarrow> rw_flag \<Rightarrow> fsstate \<Rightarrow> fsstate option" where
  "rw_block bp flag s = do {
     let dev = b_dev (bufs s bp);
     bs \<leftarrow> get_block_size dev s;
     let s3 =
       (if dev \<noteq> NO_DEV then
          let pos = b_blocknr (bufs s bp) * of_nat bs;
              r = (case io_ans s (io_cnt s) of Io_all \<Rightarrow> int bs | Io_status x _ \<Rightarrow> x);
              s1 = s\<lparr>io_cnt := io_cnt s + 1\<rparr>;
              s2 = (case flag of
                      READING \<Rightarrow> upd_buf bp (\<lambda>b. b\<lparr>b_data := disk_read dev pos (moved r bs) (b_data b) s1\<rparr>) s1
                    | WRITING \<Rightarrow> disk_write dev pos (moved r bs) (b_data (bufs s1 bp)) s1)
          in if r \<noteq> int bs then
               let r1 = (if r \<ge> 0 then END_OF_FILE else r);
                   s21 = (if r1 \<noteq> END_OF_FILE then fs_tell (Fs_printf ''Unrecoverable disk error'') s2 else s2);
                   s22 = upd_buf bp (\<lambda>b. b\<lparr>b_dev := NO_DEV\<rparr>) s21
               in (if flag = READING then s22\<lparr>rdwt_err := r1\<rparr> else s22)
             else s2
        else s);
     Some (upd_buf bp (\<lambda>b. b\<lparr>b_dirt := False\<rparr>) s3)
   }"

subsection \<open>Model: the chains\<close>

definition rm_lru :: "nat \<Rightarrow> fsstate \<Rightarrow> fsstate" where
  "rm_lru bp s =
     (let s1 = s\<lparr>bufs_in_use := bufs_in_use s + 1\<rparr>;
          next_ptr = b_next (bufs s bp);
          pp = b_prev (bufs s bp);
          s2 = (case pp of Some p \<Rightarrow> upd_buf p (\<lambda>b. b\<lparr>b_next := next_ptr\<rparr>) s1
                | None \<Rightarrow> s1\<lparr>front := next_ptr\<rparr>)
      in (case next_ptr of Some n \<Rightarrow> upd_buf n (\<lambda>b. b\<lparr>b_prev := pp\<rparr>) s2
          | None \<Rightarrow> s2\<lparr>rear := pp\<rparr>))"

definition hash_nr :: "u32 \<Rightarrow> nat" where
  "hash_nr block = unat (block AND of_nat (NR_BUF_HASH - 1))"

partial_function (option) hash_lookup ::
  "int \<Rightarrow> u32 \<Rightarrow> nat option \<Rightarrow> fsstate \<Rightarrow> nat option option" where
  "hash_lookup dev block p s =
     (case p of
        None \<Rightarrow> Some None
      | Some bp \<Rightarrow> if b_blocknr (bufs s bp) = block \<and> b_dev (bufs s bp) = dev then Some (Some bp)
                   else hash_lookup dev block (b_hash (bufs s bp)) s)"

partial_function (option) unlink_after :: "nat \<Rightarrow> nat \<Rightarrow> fsstate \<Rightarrow> fsstate option" where
  "unlink_after bp q s =
     (case b_hash (bufs s q) of
        None \<Rightarrow> Some s
      | Some r \<Rightarrow> if r = bp then Some (upd_buf q (\<lambda>b. b\<lparr>b_hash := b_hash (bufs s bp)\<rparr>) s)
                  else unlink_after bp r s)"

definition hash_unlink :: "nat \<Rightarrow> fsstate \<Rightarrow> fsstate option" where
  "hash_unlink bp s = do {
     let b = hash_nr (b_blocknr (bufs s bp));
     if buf_hash s b = Some bp then Some (s\<lparr>buf_hash := (buf_hash s)(b := b_hash (bufs s bp))\<rparr>)
     else do { q \<leftarrow> buf_hash s b; unlink_after bp q s }
   }"

text \<open>\<^verbatim>\<open>b_count\<close> is a \<^verbatim>\<open>char\<close>.\<close>

definition put_block :: "nat option \<Rightarrow> nat \<Rightarrow> fsstate \<Rightarrow> fsstate option" where
  "put_block bq block_type s =
     (case bq of
        None \<Rightarrow> Some s
      | Some bp \<Rightarrow>
          let s1 = upd_buf bp (\<lambda>b. b\<lparr>b_count := schar (b_count b - 1)\<rparr>) s
          in if b_count (bufs s1 bp) \<noteq> 0 then Some s1
             else
               let s2 = s1\<lparr>bufs_in_use := bufs_in_use s1 - 1\<rparr>;
                   s3 = (if b_dev (bufs s2 bp) = DEV_RAM \<or> block_type AND ONE_SHOT \<noteq> 0 then
                           let t = upd_buf bp (\<lambda>b. b\<lparr>b_prev := None, b_next := front s2\<rparr>) s2;
                               t1 = (case front t of None \<Rightarrow> t\<lparr>rear := Some bp\<rparr>
                                     | Some f \<Rightarrow> upd_buf f (\<lambda>b. b\<lparr>b_prev := Some bp\<rparr>) t)
                           in t1\<lparr>front := Some bp\<rparr>
                         else
                           let t = upd_buf bp (\<lambda>b. b\<lparr>b_prev := rear s2, b_next := None\<rparr>) s2;
                               t1 = (case rear t of None \<Rightarrow> t\<lparr>front := Some bp\<rparr>
                                     | Some f \<Rightarrow> upd_buf f (\<lambda>b. b\<lparr>b_next := Some bp\<rparr>) t)
                           in t1\<lparr>rear := Some bp\<rparr>)
               in if block_type AND WRITE_IMMED \<noteq> 0 \<and> b_dirt (bufs s3 bp) \<and> b_dev (bufs s3 bp) \<noteq> NO_DEV
                  then rw_block bp WRITING s3
                  else Some s3)"

subsection \<open>Model: scattered transfers\<close>

text \<open>The Shell sort of \<^verbatim>\<open>rw_scattered\<close>: the element at index \<open>j\<close> sinks in steps of \<open>gap\<close>.\<close>

function sift :: "(nat \<Rightarrow> u32) \<Rightarrow> nat \<Rightarrow> nat \<Rightarrow> nat list \<Rightarrow> nat list" where
  "sift key gap j q =
     (if 0 < gap \<and> gap \<le> j \<and> key (q ! (j - gap)) > key (q ! j)
      then sift key gap (j - gap) (q[j - gap := q ! j, j := q ! (j - gap)])
      else q)"
  by pat_completeness simp
termination by (relation "measure (\<lambda>(_, _, j, _). j)") simp_all

declare sift.simps [simp del]

definition gap_pass :: "(nat \<Rightarrow> u32) \<Rightarrow> nat \<Rightarrow> nat list \<Rightarrow> nat list" where
  "gap_pass key gap q = fold (sift key gap) [gap..<length q] q"

function first_gap :: "nat \<Rightarrow> nat \<Rightarrow> nat" where
  "first_gap n gap = (if 3 * gap + 1 \<le> n then first_gap n (3 * gap + 1) else 3 * gap + 1)"
  by pat_completeness simp
termination by (relation "measure (\<lambda>(n, gap). n - gap)") simp_all

declare first_gap.simps [simp del]

fun gap_passes :: "(nat \<Rightarrow> u32) \<Rightarrow> nat \<Rightarrow> nat list \<Rightarrow> nat list" where
  "gap_passes key gap q = (if gap \<le> 1 then q else gap_passes key (gap div 3) (gap_pass key (gap div 3) q))"

declare gap_passes.simps [simp del]

definition shell_sort :: "(nat \<Rightarrow> u32) \<Rightarrow> nat list \<Rightarrow> nat list" where
  "shell_sort key q = gap_passes key (first_gap (length q) 1) q"

text \<open>The number of blocks at the front of the queue that are consecutive on the device.\<close>

fun run_len :: "u32 \<Rightarrow> nat \<Rightarrow> nat list \<Rightarrow> fsstate \<Rightarrow> nat" where
  "run_len base j [] s = j"
| "run_len base j (bp # q) s =
     (if j < NR_IOREQS \<and> b_blocknr (bufs s bp) = base + of_nat j then run_len base (j + 1) q s else j)"

text \<open>The blocks that a scattered request carried out.\<close>

fun move_blocks :: "rw_flag \<Rightarrow> int \<Rightarrow> nat \<Rightarrow> nat list \<Rightarrow> fsstate \<Rightarrow> fsstate" where
  "move_blocks flag dev bs [] s = s"
| "move_blocks flag dev bs (bp # q) s =
     (let pos = b_blocknr (bufs s bp) * of_nat bs
      in move_blocks flag dev bs q
           (case flag of
              READING \<Rightarrow> upd_buf bp (\<lambda>b. b\<lparr>b_data := disk_read dev pos bs (b_data b) s\<rparr>) s
            | WRITING \<Rightarrow> disk_write dev pos bs (b_data (bufs s bp)) s))"

fun harvest :: "rw_flag \<Rightarrow> int \<Rightarrow> nat list \<Rightarrow> fsstate \<Rightarrow> fsstate option" where
  "harvest flag dev [] s = Some s"
| "harvest flag dev (bp # q) s =
     (case flag of
        READING \<Rightarrow> do {
          s1 \<leftarrow> put_block (Some bp) PARTIAL_DATA_BLOCK (upd_buf bp (\<lambda>b. b\<lparr>b_dev := dev\<rparr>) s);
          harvest flag dev q s1
        }
      | WRITING \<Rightarrow> harvest flag dev q (upd_buf bp (\<lambda>b. b\<lparr>b_dirt := False\<rparr>) s))"

fun put_all :: "nat list \<Rightarrow> fsstate \<Rightarrow> fsstate option" where
  "put_all [] s = Some s"
| "put_all (bp # q) s = do { s1 \<leftarrow> put_block (Some bp) PARTIAL_DATA_BLOCK s; put_all q s1 }"

partial_function (option) scatter ::
  "rw_flag \<Rightarrow> int \<Rightarrow> nat \<Rightarrow> nat list \<Rightarrow> fsstate \<Rightarrow> fsstate option" where
  "scatter flag dev bs q s =
     (if q = [] then Some s
      else do {
        let j = run_len (b_blocknr (bufs s (q ! 0))) 0 q s;
        let (r, k) = (case io_ans s (io_cnt s) of Io_all \<Rightarrow> (OK, j) | Io_status x y \<Rightarrow> (x, y));
        let i = min k j;
        let s1 = move_blocks flag dev bs (take i q) (s\<lparr>io_cnt := io_cnt s + 1\<rparr>);
        s2 \<leftarrow> harvest flag dev (take i q) s1;
        let s3 = (if i < j \<and> r \<noteq> OK \<and> i = 0 then
                    upd_buf (q ! 0) (\<lambda>b. b\<lparr>b_dev := NO_DEV\<rparr>) (fs_tell (Fs_printf ''fs: I/O error'') s2)
                  else s2);
        if flag = READING then put_all (drop i q) s3
        else if i = 0 then Some s3
        else scatter flag dev bs (drop i q) s3
      })"

definition rw_scattered :: "int \<Rightarrow> nat list \<Rightarrow> rw_flag \<Rightarrow> fsstate \<Rightarrow> fsstate option" where
  "rw_scattered dev bufq flag s = do {
     bs \<leftarrow> get_block_size dev s;
     scatter flag dev bs (shell_sort (\<lambda>i. b_blocknr (bufs s i)) bufq) s
   }"

definition buf_nrs :: "nat list" where
  "buf_nrs = [0..<NR_BUFS]"

definition flushall :: "int \<Rightarrow> fsstate \<Rightarrow> fsstate option" where
  "flushall dev s =
     rw_scattered dev (filter (\<lambda>i. b_dirt (bufs s i) \<and> b_dev (bufs s i) = dev) buf_nrs) WRITING s"

definition invalidate :: "int \<Rightarrow> fsstate \<Rightarrow> fsstate" where
  "invalidate device s =
     fold (\<lambda>i s. if b_dev (bufs s i) = device then upd_buf i (\<lambda>b. b\<lparr>b_dev := NO_DEV\<rparr>) s else s) buf_nrs s"

subsection \<open>Model: getting a block\<close>

text \<open>Replacing the contents of the least recently used buffer. No unused buffer is a panic.\<close>

definition new_block :: "int \<Rightarrow> u32 \<Rightarrow> search_mode \<Rightarrow> fsstate \<Rightarrow> (nat \<times> fsstate) option" where
  "new_block dev block only_search s = do {
     bp \<leftarrow> front s;
     s1 \<leftarrow> hash_unlink bp (rm_lru bp s);
     s2 \<leftarrow> (if b_dev (bufs s1 bp) \<noteq> NO_DEV \<and> b_dirt (bufs s1 bp) then flushall (b_dev (bufs s1 bp)) s1
            else Some s1);
     let h = hash_nr block;
     let s3 = upd_buf bp (\<lambda>b. b\<lparr>b_dev := dev, b_blocknr := block, b_count := schar (b_count b + 1),
                b_hash := buf_hash s2 h\<rparr>) s2;
     let s4 = s3\<lparr>buf_hash := (buf_hash s3)(h := Some bp)\<rparr>;
     s5 \<leftarrow> (if dev \<noteq> NO_DEV then
              (if only_search = PREFETCH then Some (upd_buf bp (\<lambda>b. b\<lparr>b_dev := NO_DEV\<rparr>) s4)
               else if only_search = NORMAL then rw_block bp READING s4
               else Some s4)
            else Some s4);
     Some (bp, s5)
   }"

definition get_block :: "int \<Rightarrow> u32 \<Rightarrow> search_mode \<Rightarrow> fsstate \<Rightarrow> (nat \<times> fsstate) option" where
  "get_block dev block only_search s = do {
     r \<leftarrow> (if dev \<noteq> NO_DEV then hash_lookup dev block (buf_hash s (hash_nr block)) s else Some None);
     case r of
       Some bp \<Rightarrow> do {
         let s1 = (if b_count (bufs s bp) = 0 then rm_lru bp s else s);
         Some (bp, upd_buf bp (\<lambda>b. b\<lparr>b_count := schar (b_count b + 1)\<rparr>) s1)
       }
     | None \<Rightarrow> new_block dev block only_search s
   }"

subsection \<open>The Shell sort sorts\<close>

lemma sift_length [simp]: "length (sift key gap j q) = length q"
proof (induction key gap j q rule: sift.induct)
  case (1 key gap j q)
  then show ?case by (subst sift.simps) auto
qed

lemma sift_mset: "j < length q \<Longrightarrow> mset (sift key gap j q) = mset q"
proof (induction key gap j q rule: sift.induct)
  case (1 key gap j q)
  show ?case
  proof (cases "0 < gap \<and> gap \<le> j \<and> key (q ! (j - gap)) > key (q ! j)")
    case True
    with 1 have "mset (sift key gap (j - gap) (q[j - gap := q ! j, j := q ! (j - gap)])) = mset q"
      by (simp add: mset_swap)
    with True show ?thesis by (subst sift.simps) simp
  next
    case False
    then show ?thesis by (subst sift.simps) auto
  qed
qed

lemma gap_pass_mset: "mset (gap_pass key gap q) = mset q"
proof -
  have "mset (fold (sift key gap) js q) = mset q \<and> length (fold (sift key gap) js q) = length q"
    if "\<forall>j\<in>set js. j < length q" for js
    using that by (induction js arbitrary: q) (simp_all add: sift_mset)
  from this [of "[gap..<length q]"] show ?thesis by (simp add: gap_pass_def)
qed

lemma gap_passes_mset: "mset (gap_passes key gap q) = mset q"
proof (induction key gap q rule: gap_passes.induct)
  case (1 key gap q)
  then show ?case by (subst gap_passes.simps) (simp add: gap_pass_mset)
qed

lemma shell_sort_mset: "mset (shell_sort key q) = mset q"
  by (simp add: shell_sort_def gap_passes_mset)

text \<open>With gap 1, sinking inserts the element into the sorted front of the queue.\<close>

lemma sift_one:
  assumes "j < length q" "sorted (map key (take j q))"
  shows "sorted (map key (take (Suc j) (sift key 1 j q))) \<and> drop (Suc j) (sift key 1 j q) = drop (Suc j) q"
  using assms
proof (induction j arbitrary: q)
  case 0
  then show ?case by (subst (1 2) sift.simps) (simp add: take_Suc_conv_app_nth)
next
  case (Suc j)
  have j: "j < length q" using Suc.prems(1) by simp
  have tk: "take (Suc j) q = take j q @ [q ! j]" using j by (rule take_Suc_conv_app_nth)
  have sj: "sorted (map key (take j q))" "\<forall>x\<in>set (take j q). key x \<le> key (q ! j)"
    using Suc.prems(2) unfolding tk by (simp_all add: sorted_append)
  have tk2: "take (Suc (Suc j)) q = take j q @ [q ! j, q ! Suc j]"
    using Suc.prems(1) tk by (simp add: take_Suc_conv_app_nth)
  show ?case
  proof (cases "key (q ! j) > key (q ! Suc j)")
    case False
    then have "sift key 1 (Suc j) q = q" by (subst sift.simps) simp
    moreover have "sorted (map key (take (Suc (Suc j)) q))"
      using False sj unfolding tk2 by (force simp: sorted_append)
    ultimately show ?thesis by simp
  next
    case True
    let ?q = "q[j := q ! Suc j, Suc j := q ! j]"
    have e: "sift key 1 (Suc j) q = sift key 1 j ?q" using True by (subst sift.simps) simp
    have "sorted (map key (take j ?q))" using sj(1) by simp
    with Suc.IH [of ?q] j have ih: "sorted (map key (take (Suc j) (sift key 1 j ?q)))"
      "drop (Suc j) (sift key 1 j ?q) = drop (Suc j) ?q" by simp_all
    have dr: "drop (Suc j) ?q = q ! j # drop (Suc (Suc j)) q"
      using Suc.prems(1) by (simp add: drop_update_swap Cons_nth_drop_Suc [symmetric] list_update_swap)
    let ?r = "sift key 1 j ?q"
    have len: "length ?r = length q" by simp
    have nth: "?r ! Suc j = q ! j" using ih(2) dr Suc.prems(1) len
      by (metis Cons_nth_drop_Suc list.inject)
    have dr2: "drop (Suc (Suc j)) ?r = drop (Suc (Suc j)) q"
      using ih(2) dr by (metis drop_Suc list.sel(3) tl_drop)
    have st: "set (take (Suc j) ?r) \<subseteq> insert (q ! Suc j) (set (take j q))"
    proof -
      have "mset ?r = mset ?q" using j by (simp add: sift_mset)
      moreover have "mset ?r = mset (take (Suc j) ?r) + mset (drop (Suc j) ?r)"
        by (metis append_take_drop_id mset_append)
      moreover have "mset ?q = mset (take (Suc j) ?q) + mset (drop (Suc j) ?q)"
        by (metis append_take_drop_id mset_append)
      ultimately have "mset (take (Suc j) ?r) = mset (take (Suc j) ?q)" using ih(2) by simp
      then have "set (take (Suc j) ?r) = set (take (Suc j) ?q)" by (metis set_mset_mset)
      also have "take (Suc j) ?q = take j q @ [q ! Suc j]"
        using Suc.prems(1) by (simp add: take_Suc_conv_app_nth)
      finally show ?thesis by auto
    qed
    have "take (Suc (Suc j)) ?r = take (Suc j) ?r @ [q ! j]"
      using nth Suc.prems(1) len by (simp add: take_Suc_conv_app_nth)
    moreover have "\<forall>x\<in>set (take (Suc j) ?r). key x \<le> key (q ! j)"
      using st sj(2) True by (auto dest!: subsetD)
    ultimately have "sorted (map key (take (Suc (Suc j)) ?r))" using ih(1) by (simp add: sorted_append)
    with e dr2 show ?thesis by simp
  qed
qed

lemma gap_pass_one_sorted: "sorted (map key (gap_pass key 1 q))"
proof -
  have "sorted (map key (take n (fold (sift key 1) [1..<n] q))) \<and>
      length (fold (sift key 1) [1..<n] q) = length q" if "0 < n" "n \<le> length q" for n
    using that
  proof (induction n)
    case (Suc n)
    show ?case
    proof (cases "n = 0")
      case True
      with Suc.prems show ?thesis by (cases q) simp_all
    next
      case False
      with Suc have "sorted (map key (take n (fold (sift key 1) [1..<n] q)))"
        "length (fold (sift key 1) [1..<n] q) = length q" by simp_all
      with sift_one [of n "fold (sift key 1) [1..<n] q" key] Suc.prems False show ?thesis by simp
    qed
  qed simp
  note base = this
  show ?thesis
  proof (cases "q = []")
    case False
    then have s: "sorted (map key (take (length q) (gap_pass key 1 q)))"
      and l: "length (gap_pass key 1 q) = length q"
      using base [of "length q"] unfolding gap_pass_def by blast+
    have "take (length q) (gap_pass key 1 q) = gap_pass key 1 q" using l by (metis take_all order_refl)
    with s show ?thesis by (simp only:)
  qed (simp add: gap_pass_def)
qed

text \<open>The gaps are 1, 4, 13, ...\<close>

inductive gap_ok :: "nat \<Rightarrow> bool" where
  "gap_ok 1"
| "gap_ok g \<Longrightarrow> gap_ok (3 * g + 1)"

lemma gap_ok_pos: "gap_ok g \<Longrightarrow> 0 < g"
  by (induction rule: gap_ok.induct) simp_all

lemma gap_passes_step: "0 < g \<Longrightarrow> gap_passes key (3 * g + 1) q = gap_passes key g (gap_pass key g q)"
proof -
  assume "0 < g"
  moreover have "(3 * g + 1) div 3 = g" by presburger
  ultimately show ?thesis by (subst gap_passes.simps) (simp only: split: if_split, simp)
qed

lemma gap_passes_sorted: "gap_ok g \<Longrightarrow> sorted (map key (gap_passes key (3 * g + 1) q))"
proof (induction arbitrary: q rule: gap_ok.induct)
  case 1
  have "gap_passes key 1 (gap_pass key 1 q) = gap_pass key 1 q" by (subst gap_passes.simps) simp
  then have "gap_passes key (3 * 1 + 1) q = gap_pass key 1 q"
    using gap_passes_step [of 1 key q] by simp
  then show ?case using gap_pass_one_sorted by simp
next
  case (2 g)
  have "gap_passes key (3 * (3 * g + 1) + 1) q = gap_passes key (3 * g + 1) (gap_pass key (3 * g + 1) q)"
    by (rule gap_passes_step) simp
  with 2 show ?case by simp
qed

lemma first_gap_ok: "gap_ok g \<Longrightarrow> \<exists>h. gap_ok h \<and> first_gap n g = 3 * h + 1"
proof (induction n g rule: first_gap.induct)
  case (1 n gap)
  show ?case
  proof (cases "3 * gap + 1 \<le> n")
    case True
    with 1 gap_ok.intros(2) [OF 1(2)] show ?thesis by (subst first_gap.simps) simp
  next
    case False
    with 1(2) show ?thesis by (subst first_gap.simps) auto
  qed
qed

text \<open>
  The Shell sort in \<open>rw_scattered\<close> puts the buffers into the order of their block numbers and
  loses none, for any queue: its keys come out as the library's insertion sort would deliver them.
\<close>

theorem shell_sort_sorts:
  "mset (shell_sort key q) = mset q \<and> map key (shell_sort key q) = sort (map key q)"
proof -
  obtain h where h: "gap_ok h" "first_gap (length q) 1 = 3 * h + 1"
    using first_gap_ok [OF gap_ok.intros(1)] by blast
  have "sorted (map key (shell_sort key q))"
    unfolding shell_sort_def h(2) by (rule gap_passes_sorted [OF h(1)])
  then have "sort (map key q) = map key (shell_sort key q)"
    by (intro properties_for_sort) (simp_all add: shell_sort_mset)
  with shell_sort_mset [of key q] show ?thesis by simp
qed

end
