(* ===== verification/FS_Buffers.thy ===== *)
theory FS_Buffers
  imports FS_Cache
begin

text \<open>
  Correctness of the block cache of theory \<open>FS_Cache\<close>. The invariant \<open>cache_ok\<close>: the unused buffers
  form the doubly linked LRU chain, the hash chains partition the buffers by block number, no block is
  cached twice, and a clean buffer agrees with the disk. The contents of a block are the bytes in its
  buffer if it is cached and the bytes on the disk otherwise; as long as the drivers do what they are
  asked for, getting and releasing blocks, evictions and flushes included, change the contents of no block.
\<close>

subsection \<open>Initialisation\<close>

text \<open>\<^verbatim>\<open>buf_pool\<close> of \<^verbatim>\<open>servers/fs/main.c\<close>; the tables are static, so everything else is zero before.\<close>

definition buf_pool :: "fsstate \<Rightarrow> fsstate" where
  "buf_pool s =
     (let link = (\<lambda>i. if i = NR_BUFS - 1 then None else Some (i + 1)) in
      s\<lparr>bufs_in_use := 0, front := Some 0, rear := Some (NR_BUFS - 1),
        bufs := (\<lambda>i. if i < NR_BUFS
          then (bufs s i)\<lparr>b_blocknr := NO_BLOCK, b_dev := NO_DEV, b_next := link i,
                 b_prev := (if i = 0 then None else Some (i - 1)), b_hash := link i\<rparr>
          else bufs s i),
        buf_hash := (buf_hash s)(0 := Some 0)\<rparr>)"

subsection \<open>The chains\<close>

definition nxt :: "fsstate \<Rightarrow> nat \<Rightarrow> nat option" where "nxt s i = b_next (bufs s i)"
definition prv :: "fsstate \<Rightarrow> nat \<Rightarrow> nat option" where "prv s i = b_prev (bufs s i)"
definition hsh :: "fsstate \<Rightarrow> nat \<Rightarrow> nat option" where "hsh s i = b_hash (bufs s i)"

definition lru_chain :: "fsstate \<Rightarrow> nat list \<Rightarrow> bool" where
  "lru_chain s xs \<longleftrightarrow> chain (nxt s) (front s) xs \<and> chain (prv s) (rear s) (rev xs)"

text \<open>The hash chains hold all buffers but those in \<open>X\<close>, each in the chain of its block number.\<close>

definition hash_chains :: "nat set \<Rightarrow> fsstate \<Rightarrow> bool" where
  "hash_chains X s \<longleftrightarrow> (\<forall>h<NR_BUF_HASH. \<exists>ys. chain (hsh s) (buf_hash s h) ys \<and>
     set ys = {i. i < NR_BUFS \<and> i \<notin> X \<and> hash_nr (b_blocknr (bufs s i)) = h})"

definition free_bufs :: "fsstate \<Rightarrow> nat set" where
  "free_bufs s = {i. i < NR_BUFS \<and> b_count (bufs s i) = 0}"

lemma hash_nr_less: "hash_nr b < NR_BUF_HASH"
proof -
  have "hash_nr b \<le> unat (of_nat (NR_BUF_HASH - 1) :: u32)"
    unfolding hash_nr_def by (simp add: word_le_nat_alt [symmetric] word_and_le1)
  then show ?thesis by (simp add: NR_BUF_HASH_def)
qed

text \<open>What \<open>rm_lru\<close> leaves alone.\<close>

lemma rm_lru_frame [frame_simps]:
  "b_data (bufs (rm_lru bp s) i) = b_data (bufs s i)"
  "b_blocknr (bufs (rm_lru bp s) i) = b_blocknr (bufs s i)"
  "b_dev (bufs (rm_lru bp s) i) = b_dev (bufs s i)"
  "b_dirt (bufs (rm_lru bp s) i) = b_dirt (bufs s i)"
  "b_count (bufs (rm_lru bp s) i) = b_count (bufs s i)"
  "b_hash (bufs (rm_lru bp s) i) = b_hash (bufs s i)"
  "buf_hash (rm_lru bp s) = buf_hash s" "disk (rm_lru bp s) = disk s"
  "super_blocks (rm_lru bp s) = super_blocks s" "io_ans (rm_lru bp s) = io_ans s"
  by (auto simp: rm_lru_def Let_def upd_buf_def split: option.splits)

lemma rm_lru_chain:
  assumes "lru_chain s (xs @ bp # ys)"
  shows "lru_chain (rm_lru bp s) (xs @ ys)"
proof -
  have c: "chain (nxt s) (front s) (xs @ bp # ys)" "chain (prv s) (rear s) (rev ys @ bp # rev xs)"
    using assms by (simp_all add: lru_chain_def)
  have n: "nxt s bp = (case ys of [] \<Rightarrow> None | y # _ \<Rightarrow> Some y)"
    using chain_suffix [OF c(1)] by (cases ys) auto
  have p: "prv s bp = (if xs = [] then None else Some (last xs))"
    using chain_suffix [OF c(2)] by (cases xs rule: rev_cases) auto
  have "slot_after xs = (case prv s bp of None \<Rightarrow> Head | Some p \<Rightarrow> Link p)"
    by (simp add: p slot_after_def)
  moreover have "slot_after (rev ys) = (case nxt s bp of None \<Rightarrow> Head | Some p \<Rightarrow> Link p)"
    by (cases ys) (simp_all add: n slot_after_def last_rev)
  ultimately have "nxt (rm_lru bp s) = wr_nx (slot_after xs) (nxt s bp) (nxt s)"
    "front (rm_lru bp s) = wr_hd (slot_after xs) (nxt s bp) (front s)"
    "prv (rm_lru bp s) = wr_nx (slot_after (rev ys)) (prv s bp) (prv s)"
    "rear (rm_lru bp s) = wr_hd (slot_after (rev ys)) (prv s bp) (rear s)"
    by (auto simp: rm_lru_def Let_def upd_buf_def nxt_def prv_def fun_eq_iff split: option.splits)
  with chain_unlink [OF c(1)] chain_unlink [OF c(2)] show ?thesis
    unfolding lru_chain_def rev_append by (simp only: simp_thms)
qed

text \<open>Taking a buffer off its hash chain.\<close>

lemma unlink_after_chain:
  "chain (hsh s) (Some q) (q # us @ bp # vs) \<Longrightarrow> bp \<notin> set (q # us) \<Longrightarrow>
   unlink_after bp q s = Some (upd_buf (last (q # us)) (\<lambda>b. b\<lparr>b_hash := hsh s bp\<rparr>) s)"
proof (induction us arbitrary: q)
  case Nil
  then show ?case by (subst unlink_after.simps) (simp add: hsh_def)
next
  case (Cons u us)
  then have "unlink_after bp u s = Some (upd_buf (last (u # us)) (\<lambda>b. b\<lparr>b_hash := hsh s bp\<rparr>) s)"
    by simp
  with Cons.prems show ?case by (subst unlink_after.simps) (simp add: hsh_def)
qed

lemma hash_unlink_ok:
  assumes "hash_chains {} s" "bp < NR_BUFS"
  shows "\<exists>hs hh. hash_unlink bp s = Some (s\<lparr>bufs := (\<lambda>i. (bufs s i)\<lparr>b_hash := hs i\<rparr>), buf_hash := hh\<rparr>) \<and>
    hash_chains {bp} (s\<lparr>bufs := (\<lambda>i. (bufs s i)\<lparr>b_hash := hs i\<rparr>), buf_hash := hh\<rparr>)"
proof -
  let ?h = "hash_nr (b_blocknr (bufs s bp))"
  from assms(1) hash_nr_less [of "b_blocknr (bufs s bp)"] obtain ys where
    ys: "chain (hsh s) (buf_hash s ?h) ys" "set ys = {i. i < NR_BUFS \<and> hash_nr (b_blocknr (bufs s i)) = ?h}"
    unfolding hash_chains_def by auto
  then have "bp \<in> set ys" using assms(2) by simp
  then obtain us vs where sp: "ys = us @ bp # vs" and nin: "bp \<notin> set us" by (meson split_list_first)
  let ?hs = "wr_nx (slot_after us) (hsh s bp) (hsh s)"
  let ?hh = "(buf_hash s)(?h := wr_hd (slot_after us) (hsh s bp) (buf_hash s ?h))"
  let ?s = "s\<lparr>bufs := (\<lambda>i. (bufs s i)\<lparr>b_hash := ?hs i\<rparr>), buf_hash := ?hh\<rparr>"
  have hs: "hsh ?s = ?hs" by (simp add: hsh_def fun_eq_iff)
  have "hash_unlink bp s = Some ?s"
  proof (cases us)
    case Nil
    with ys sp have "buf_hash s ?h = Some bp" by simp
    with Nil show ?thesis by (simp add: hash_unlink_def hsh_def)
  next
    case (Cons q qs)
    with ys sp have q: "buf_hash s ?h = Some q" and c: "chain (hsh s) (Some q) (q # qs @ bp # vs)" by simp_all
    have ne: "q \<noteq> bp" using nin Cons by auto
    have "slot_after us = Link (last (q # qs))" using Cons by (simp add: slot_after_def)
    with unlink_after_chain [OF c] nin Cons q ne show ?thesis
      by (simp add: hash_unlink_def upd_buf_def hsh_def fun_eq_iff)
  qed
  moreover have "hash_chains {bp} ?s"
    unfolding hash_chains_def
  proof (intro allI impI)
    fix h assume h: "h < NR_BUF_HASH"
    show "\<exists>ys. chain (hsh ?s) (buf_hash ?s h) ys \<and>
      set ys = {i. i < NR_BUFS \<and> i \<notin> {bp} \<and> hash_nr (b_blocknr (bufs ?s i)) = h}"
    proof (cases "h = ?h")
      case True
      have "chain (hsh ?s) (buf_hash ?s h) (us @ vs)"
        unfolding hs using chain_unlink [of "hsh s" "buf_hash s ?h" us bp vs] ys(1) True sp by simp
      moreover have "set (us @ vs) = set ys - {bp}"
        using chain_distinct [OF ys(1)] sp by auto
      ultimately show ?thesis using ys(2) True by (intro exI [of _ "us @ vs"]) auto
    next
      case False
      from assms(1) h obtain zs where zs: "chain (hsh s) (buf_hash s h) zs"
        "set zs = {i. i < NR_BUFS \<and> hash_nr (b_blocknr (bufs s i)) = h}"
        unfolding hash_chains_def by auto
      have "set us \<inter> set zs = {}" using ys(2) zs(2) sp False by auto
      then have "chain ?hs (buf_hash s h) zs"
        using zs(1) by (subst chain_cong [of zs ?hs "hsh s"])
          (auto simp: slot_after_def disjoint_iff split: if_splits dest!: last_in_set)
      with zs(2) False show ?thesis unfolding hs by (intro exI [of _ zs]) auto
    qed
  qed
  ultimately show ?thesis by blast
qed


lemma hash_insert_ok:
  assumes "hash_chains {bp} s" "bp < NR_BUFS" "bufs s' = (\<lambda>i. if i = bp then b else bufs s i)"
    "b_hash b = buf_hash s (hash_nr (b_blocknr b))"
    "buf_hash s' = (buf_hash s)(hash_nr (b_blocknr b) := Some bp)"
  shows "hash_chains {} s'"
  unfolding hash_chains_def
proof (intro allI impI)
  fix h assume "h < NR_BUF_HASH"
  with assms(1) obtain ys where ys: "chain (hsh s) (buf_hash s h) ys"
    "set ys = {i. i < NR_BUFS \<and> i \<noteq> bp \<and> hash_nr (b_blocknr (bufs s i)) = h}"
    unfolding hash_chains_def by auto
  then have c: "chain (hsh s') (buf_hash s h) ys"
    using assms(3) by (subst chain_cong [of ys "hsh s'" "hsh s"]) (auto simp: hsh_def)
  show "\<exists>ys. chain (hsh s') (buf_hash s' h) ys \<and>
    set ys = {i. i < NR_BUFS \<and> i \<notin> {} \<and> hash_nr (b_blocknr (bufs s' i)) = h}"
  proof (cases "h = hash_nr (b_blocknr b)")
    case True
    with c ys(2) assms show ?thesis by (intro exI [of _ "bp # ys"]) (auto simp: hsh_def)
  next
    case False
    with c ys(2) assms show ?thesis by (intro exI [of _ ys]) auto
  qed
qed

lemma hash_chains_cong:
  assumes "\<And>i. b_hash (bufs s' i) = b_hash (bufs s i)" "\<And>i. b_blocknr (bufs s' i) = b_blocknr (bufs s i)"
    "buf_hash s' = buf_hash s"
  shows "hash_chains X s' \<longleftrightarrow> hash_chains X s"
proof -
  have "hsh s' = hsh s" using assms(1) by (simp add: hsh_def fun_eq_iff)
  with assms(2,3) show ?thesis unfolding hash_chains_def by simp
qed

lemma lru_chain_cong:
  assumes "\<And>i. b_next (bufs s' i) = b_next (bufs s i)" "\<And>i. b_prev (bufs s' i) = b_prev (bufs s i)"
    "front s' = front s" "rear s' = rear s"
  shows "lru_chain s' xs \<longleftrightarrow> lru_chain s xs"
proof -
  have "nxt s' = nxt s" "prv s' = prv s" using assms(1,2) by (simp_all add: nxt_def prv_def fun_eq_iff)
  with assms(3,4) show ?thesis unfolding lru_chain_def by simp
qed

lemma hash_lookup_chain:
  "chain (hsh s) p ys \<Longrightarrow>
   hash_lookup dev block p s = Some (find (\<lambda>i. b_blocknr (bufs s i) = block \<and> b_dev (bufs s i) = dev) ys)"
proof (induction ys arbitrary: p)
  case Nil
  then show ?case by (subst hash_lookup.simps) simp
next
  case (Cons y ys)
  then show ?case by (subst hash_lookup.simps) (simp add: hsh_def)
qed

text \<open>Linking a buffer in at the front or the rear of the LRU chain, as \<open>put_block\<close> does.\<close>

definition lru_add :: "bool \<Rightarrow> nat \<Rightarrow> fsstate \<Rightarrow> fsstate" where
  "lru_add at_front bp s2 =
     (if at_front then
        let t = upd_buf bp (\<lambda>b. b\<lparr>b_prev := None, b_next := front s2\<rparr>) s2;
            t1 = (case front t of None \<Rightarrow> t\<lparr>rear := Some bp\<rparr>
                  | Some f \<Rightarrow> upd_buf f (\<lambda>b. b\<lparr>b_prev := Some bp\<rparr>) t)
        in t1\<lparr>front := Some bp\<rparr>
      else
        let t = upd_buf bp (\<lambda>b. b\<lparr>b_prev := rear s2, b_next := None\<rparr>) s2;
            t1 = (case rear t of None \<Rightarrow> t\<lparr>front := Some bp\<rparr>
                  | Some f \<Rightarrow> upd_buf f (\<lambda>b. b\<lparr>b_next := Some bp\<rparr>) t)
        in t1\<lparr>rear := Some bp\<rparr>)"

lemma lru_add_frame [frame_simps]:
  "b_data (bufs (lru_add w bp s) i) = b_data (bufs s i)"
  "b_blocknr (bufs (lru_add w bp s) i) = b_blocknr (bufs s i)"
  "b_dev (bufs (lru_add w bp s) i) = b_dev (bufs s i)"
  "b_dirt (bufs (lru_add w bp s) i) = b_dirt (bufs s i)"
  "b_count (bufs (lru_add w bp s) i) = b_count (bufs s i)"
  "b_hash (bufs (lru_add w bp s) i) = b_hash (bufs s i)"
  "buf_hash (lru_add w bp s) = buf_hash s" "disk (lru_add w bp s) = disk s"
  "super_blocks (lru_add w bp s) = super_blocks s" "io_ans (lru_add w bp s) = io_ans s"
  by (auto simp: lru_add_def Let_def upd_buf_def split: option.splits)

lemma chain_add_front:
  assumes "chain nx h xs" "bp \<notin> set xs"
  shows "chain (nx(bp := h)) (Some bp) (bp # xs)"
  using assms by (simp add: chain_upd)

lemma chain_add_rear:
  assumes "chain nx h xs" "bp \<notin> set xs"
  shows "chain (wr_nx (slot_after xs) (Some bp) (nx(bp := None))) (wr_hd (slot_after xs) (Some bp) h) (xs @ [bp])"
proof -
  have "rd h nx (slot_after xs) = None" using rd_slot_after [of nx h xs "[]"] assms(1) by simp
  with chain_link [of nx h xs "[]" bp None] assms show ?thesis by simp
qed

lemma chain_head: "chain nx h xs \<Longrightarrow> h = (case xs of [] \<Rightarrow> None | x # _ \<Rightarrow> Some x)"
  by (cases xs) auto

lemma lru_add_chain:
  assumes "lru_chain s xs" "bp \<notin> set xs"
  shows "lru_chain (lru_add w bp s) (if w then bp # xs else xs @ [bp])"
proof -
  have c: "chain (nxt s) (front s) xs" "chain (prv s) (rear s) (rev xs)"
    using assms(1) by (simp_all add: lru_chain_def)
  have nr: "bp \<notin> set (rev xs)" using assms(2) by simp
  have f: "front s = (case xs of [] \<Rightarrow> None | x # _ \<Rightarrow> Some x)" by (rule chain_head [OF c(1)])
  have r: "rear s = (if xs = [] then None else Some (last xs))"
    using chain_head [OF c(2)] by (cases xs rule: rev_cases) simp_all
  show ?thesis
  proof (cases w)
    case True
    have "slot_after (rev xs) = (case front s of None \<Rightarrow> Head | Some x \<Rightarrow> Link x)"
      by (cases xs) (simp_all add: f slot_after_def last_rev)
    then have "nxt (lru_add w bp s) = (nxt s)(bp := front s)" "front (lru_add w bp s) = Some bp"
      "prv (lru_add w bp s) = wr_nx (slot_after (rev xs)) (Some bp) ((prv s)(bp := None))"
      "rear (lru_add w bp s) = wr_hd (slot_after (rev xs)) (Some bp) (rear s)"
      using True assms(2) f
      by (auto simp: lru_add_def Let_def upd_buf_def nxt_def prv_def fun_eq_iff split: option.splits list.splits)
    with chain_add_front [OF c(1) assms(2)] chain_add_rear [OF c(2) nr] True show ?thesis
      by (simp only: lru_chain_def rev.simps if_True simp_thms)
  next
    case False
    have "slot_after xs = (case rear s of None \<Rightarrow> Head | Some x \<Rightarrow> Link x)"
      by (simp add: r slot_after_def)
    then have "prv (lru_add w bp s) = (prv s)(bp := rear s)" "rear (lru_add w bp s) = Some bp"
      "nxt (lru_add w bp s) = wr_nx (slot_after xs) (Some bp) ((nxt s)(bp := None))"
      "front (lru_add w bp s) = wr_hd (slot_after xs) (Some bp) (front s)"
      using False assms(2) r
      by (auto simp: lru_add_def Let_def upd_buf_def nxt_def prv_def fun_eq_iff split: option.splits if_splits)
    with chain_add_front [OF c(2) nr] chain_add_rear [OF c(1) assms(2)] False show ?thesis
      by (simp only: lru_chain_def rev_append rev.simps append_Nil append_Cons if_False simp_thms)
  qed
qed


subsection \<open>Positions on a device\<close>

text \<open>The block size of a device, and the blocks whose bytes all have 32-bit positions.\<close>

definition bsz :: "fsstate \<Rightarrow> int \<Rightarrow> nat" where
  "bsz s d = (case get_block_size d s of Some b \<Rightarrow> b | None \<Rightarrow> 0)"

definition fits :: "fsstate \<Rightarrow> int \<Rightarrow> u32 \<Rightarrow> bool" where
  "fits s d k \<longleftrightarrow> 0 < bsz s d \<and> unat k * bsz s d + bsz s d \<le> 2 ^ 32"

definition byte_pos :: "nat \<Rightarrow> u32 \<Rightarrow> nat \<Rightarrow> u32" where
  "byte_pos bs k off = k * of_nat bs + of_nat off"

lemma get_block_size_bsz: "d \<noteq> NO_DEV \<Longrightarrow> get_block_size d s = Some (bsz s d)"
  by (simp add: bsz_def get_block_size_def split: option.splits)

lemma find_super_cong: "super_blocks s' = super_blocks s \<Longrightarrow> find_super d is s' = find_super d is s"
  by (induction "is") simp_all

lemma bsz_cong: "super_blocks s' = super_blocks s \<Longrightarrow> bsz s' d = bsz s d"
  using find_super_cong [of s' s] by (simp add: bsz_def get_block_size_def split: option.split)

lemma fits_cong: "super_blocks s' = super_blocks s \<Longrightarrow> fits s' d k = fits s d k"
  using bsz_cong [of s' s] by (simp add: fits_def)

lemma unat_byte_pos:
  assumes "off < bs" "unat k * bs + bs \<le> 2 ^ 32"
  shows "unat (byte_pos bs k off) = unat k * bs + off"
proof -
  have "byte_pos bs k off = of_nat (unat k * bs + off)" by (simp add: byte_pos_def)
  moreover have "unat k * bs + off < 2 ^ 32" using assms by linarith
  ultimately show ?thesis by (intro of_nat_inverse) simp_all
qed

text \<open>The offset of a position within the block \<open>k\<close>, as computed with wrap-around.\<close>

lemma byte_pos_diff:
  assumes off: "off < bs" and k: "unat k * bs + bs \<le> 2 ^ 32" and j: "unat j * bs + bs \<le> 2 ^ 32"
  shows "unat (byte_pos bs k off - j * of_nat bs) < bs \<longleftrightarrow> k = j"
    and "k = j \<Longrightarrow> unat (byte_pos bs k off - j * of_nat bs) = off"
proof -
  have bs: "bs < 2 ^ 32 \<or> bs = 2 ^ 32" using k by auto
  have u: "unat (byte_pos bs k off) = unat k * bs + off" using off k by (rule unat_byte_pos)
  have v: "unat (byte_pos bs j 0) = unat j * bs + 0" using off j by (intro unat_byte_pos) auto
  have vj: "j * of_nat bs = byte_pos bs j 0" by (simp add: byte_pos_def)
  show eq: "unat (byte_pos bs k off - j * of_nat bs) = off" if "k = j"
  proof -
    have "byte_pos bs k off - j * of_nat bs = of_nat off" using that by (simp add: byte_pos_def)
    moreover have "off < 2 ^ LENGTH(32)" using off k by simp
    ultimately show ?thesis by (intro of_nat_inverse) simp_all
  qed
  show "unat (byte_pos bs k off - j * of_nat bs) < bs \<longleftrightarrow> k = j"
  proof
    assume "k = j" with eq off show "unat (byte_pos bs k off - j * of_nat bs) < bs" by simp
  next
    assume lt: "unat (byte_pos bs k off - j * of_nat bs) < bs"
    show "k = j"
    proof (rule ccontr)
      assume "k \<noteq> j"
      then have "unat k < unat j \<or> unat j < unat k" by (metis nat_neq_iff word_unat_eq_iff)
      then show False
      proof
        assume "unat k < unat j"
        then have "unat k * bs + bs \<le> unat j * bs" by (metis Suc_leI add.commute mult_Suc mult_le_mono1)
        then have "unat (byte_pos bs k off) < unat (byte_pos bs j 0)" using u v off by simp
        then have "unat (byte_pos bs k off - byte_pos bs j 0) =
            2 ^ 32 + unat (byte_pos bs k off) - unat (byte_pos bs j 0)"
          by (simp add: unat_sub_if')
        with u v lt vj j show False by simp
      next
        assume "unat j < unat k"
        then have "unat j * bs + bs \<le> unat k * bs" by (metis Suc_leI add.commute mult_Suc mult_le_mono1)
        then have "unat (byte_pos bs j 0) \<le> unat (byte_pos bs k off)" and g: "unat j * bs + bs \<le> unat k * bs + off"
          using u v by simp_all
        then have "unat (byte_pos bs k off - byte_pos bs j 0) =
            unat (byte_pos bs k off) - unat (byte_pos bs j 0)"
          by (simp add: unat_sub word_le_nat_alt)
        with u v g lt vj show False by simp
      qed
    qed
  qed
qed

subsection \<open>Write-back\<close>

text \<open>The disk after writing the buffers of a queue.\<close>

fun written :: "int \<Rightarrow> nat \<Rightarrow> (nat \<Rightarrow> buf) \<Rightarrow> nat list \<Rightarrow> (int \<Rightarrow> u32 \<Rightarrow> u8) \<Rightarrow> (int \<Rightarrow> u32 \<Rightarrow> u8)" where
  "written dev bs bf [] D = D"
| "written dev bs bf (i # q) D = written dev bs bf q
     (D(dev := (\<lambda>a. let r = unat (a - b_blocknr (bf i) * of_nat bs) in if r < bs then b_data (bf i) r else D dev a)))"

lemma move_blocks_written:
  "move_blocks WRITING dev bs q s = s\<lparr>disk := written dev bs (bufs s) q (disk s)\<rparr>"
proof (induction q arbitrary: s)
  case (Cons i q)
  then show ?case by (simp add: disk_write_def Let_def fun_upd_def)
qed simp

lemma written_cong:
  "(\<And>i. b_data (bf' i) = b_data (bf i)) \<Longrightarrow> (\<And>i. b_blocknr (bf' i) = b_blocknr (bf i)) \<Longrightarrow>
   written dev bs bf' q D = written dev bs bf q D"
proof (induction q arbitrary: D)
  case (Cons i q)
  from Cons.prems have "b_data (bf' i) = b_data (bf i)" "b_blocknr (bf' i) = b_blocknr (bf i)" by blast+
  then show ?case using Cons.IH [OF Cons.prems] by (simp only: written.simps)
qed simp

lemma written_append: "written dev bs bf (p @ q) D = written dev bs bf q (written dev bs bf p D)"
  by (induction p arbitrary: D) simp_all

lemma written_other:
  assumes "d \<noteq> dev \<or> k \<notin> (\<lambda>i. b_blocknr (bf i)) ` set q" "off < bs" "unat k * bs + bs \<le> 2 ^ 32"
    "\<forall>i\<in>set q. unat (b_blocknr (bf i)) * bs + bs \<le> 2 ^ 32"
  shows "written dev bs bf q D d (byte_pos bs k off) = D d (byte_pos bs k off)"
  using assms
proof (induction q arbitrary: D)
  case (Cons i q)
  then have "d \<noteq> dev \<or> k \<noteq> b_blocknr (bf i)" by auto
  with byte_pos_diff(1) [OF Cons.prems(2,3), of "b_blocknr (bf i)"] Cons show ?case
    by (auto simp: Let_def)
qed simp

lemma written_this:
  assumes "i \<in> set q" "\<And>j. j \<in> set q \<Longrightarrow> b_blocknr (bf j) = b_blocknr (bf i) \<Longrightarrow> j = i" "off < bs"
    "\<forall>i\<in>set q. unat (b_blocknr (bf i)) * bs + bs \<le> 2 ^ 32"
  shows "written dev bs bf q D dev (byte_pos bs (b_blocknr (bf i)) off) = b_data (bf i) off"
  using assms
proof (induction q arbitrary: D)
  case (Cons j q)
  show ?case
  proof (cases "i \<in> set q")
    case True
    with Cons show ?thesis by (simp del: fun_upd_apply)
  next
    case False
    with Cons.prems have [simp]: "j = i" by simp
    from False Cons.prems(2) have "b_blocknr (bf i) \<notin> (\<lambda>i. b_blocknr (bf i)) ` set q"
      by (metis image_iff list.set_intros(2))
    then show ?thesis
      using written_other [of dev dev "b_blocknr (bf i)" bf q off bs] Cons.prems
        byte_pos_diff [OF Cons.prems(3), of "b_blocknr (bf i)" "b_blocknr (bf i)"]
      by (simp add: Let_def)
  qed
qed simp

lemma run_len_bounds: "j \<le> run_len base j q s \<and> run_len base j q s \<le> j + length q"
proof (induction q arbitrary: j)
  case (Cons b q)
  from Cons [of "j + 1"] show ?case by auto
qed simp

lemma run_len_pos: "0 < run_len (b_blocknr (bufs s b)) 0 (b # q) s"
  using run_len_bounds [of 1 "b_blocknr (bufs s b)" q s] by simp

text \<open>The drivers carry out every request.\<close>

definition io_works :: "fsstate \<Rightarrow> bool" where
  "io_works s \<longleftrightarrow> (\<forall>n. io_ans s n = Io_all)"

definition clean_bufs :: "nat set \<Rightarrow> (nat \<Rightarrow> buf) \<Rightarrow> nat \<Rightarrow> buf" where
  "clean_bufs X bf = (\<lambda>i. if i \<in> X then (bf i)\<lparr>b_dirt := False\<rparr> else bf i)"

lemma harvest_writing:
  "harvest WRITING dev q s = Some (s\<lparr>bufs := clean_bufs (set q) (bufs s)\<rparr>)"
proof (induction q arbitrary: s)
  case Nil
  then show ?case by (simp add: clean_bufs_def)
next
  case (Cons i q)
  then show ?case by (simp add: clean_bufs_def upd_buf_def) (auto simp: fun_eq_iff)
qed

lemma scatter_writes:
  assumes "io_works s"
  shows "\<exists>n. scatter WRITING dev bs q s = Some (s\<lparr>bufs := clean_bufs (set q) (bufs s),
    disk := written dev bs (bufs s) q (disk s), io_cnt := n\<rparr>)"
  using assms
proof (induction "length q" arbitrary: q s rule: less_induct)
  case less
  show ?case
  proof (cases q)
    case Nil
    show ?thesis
    proof -
      have eq: "s = s\<lparr>bufs := clean_bufs (set q) (bufs s), disk := written dev bs (bufs s) q (disk s),
          io_cnt := io_cnt s\<rparr>" using Nil by (simp add: clean_bufs_def)
      have "scatter WRITING dev bs q s = Some s" using Nil by (subst scatter.simps) simp
      then show ?thesis by (intro exI [of _ "io_cnt s"], subst eq [symmetric])
    qed
  next
    case (Cons b r)
    define j where "j = run_len (b_blocknr (bufs s b)) 0 q s"
    have j: "0 < j" "j \<le> length q"
      using run_len_pos [of s b r] run_len_bounds [of 0 "b_blocknr (bufs s b)" q s] Cons by (simp_all add: j_def)
    have jr: "run_len (b_blocknr (bufs s b)) (Suc 0) r s = j" using Cons by (simp add: j_def)
    define s1 where "s1 = s\<lparr>bufs := clean_bufs (set (take j q)) (bufs s),
      disk := written dev bs (bufs s) (take j q) (disk s), io_cnt := io_cnt s + 1\<rparr>"
    have s1: "s\<lparr>io_cnt := Suc (io_cnt s), disk := written dev bs (bufs s) (take j (b # r)) (disk s),
      bufs := clean_bufs (set (take j (b # r))) (bufs s)\<rparr> = s1"
      using Cons by (cases s) (simp add: s1_def)
    have "io_works s1" "length (drop j q) < length q" using less.prems j Cons by (simp_all add: s1_def io_works_def)
    from less.hyps [OF this(2,1)] obtain n where n: "scatter WRITING dev bs (drop j q) s1 =
      Some (s1\<lparr>bufs := clean_bufs (set (drop j q)) (bufs s1),
        disk := written dev bs (bufs s1) (drop j q) (disk s1), io_cnt := n\<rparr>)" by blast
    have "io_ans s (io_cnt s) = Io_all" using less.prems by (simp add: io_works_def)
    then have "scatter WRITING dev bs q s = scatter WRITING dev bs (drop j q) s1"
      using j Cons jr s1
      by (subst scatter.simps) (simp add: move_blocks_written harvest_writing)
    also note n
    also have "s1\<lparr>bufs := clean_bufs (set (drop j q)) (bufs s1),
        disk := written dev bs (bufs s1) (drop j q) (disk s1), io_cnt := n\<rparr> =
      s\<lparr>bufs := clean_bufs (set q) (bufs s), disk := written dev bs (bufs s) q (disk s), io_cnt := n\<rparr>"
    proof -
      have "clean_bufs (set (drop j q)) (bufs s1) = clean_bufs (set q) (bufs s)"
        unfolding s1_def clean_bufs_def by (auto simp: fun_eq_iff) (metis Un_iff append_take_drop_id set_append in_set_dropD in_set_takeD)+
      moreover have "written dev bs (bufs s1) (drop j q) (disk s1) = written dev bs (bufs s) q (disk s)"
      proof -
        have "written dev bs (bufs s1) (drop j q) (disk s1) = written dev bs (bufs s) (drop j q) (disk s1)"
          by (rule written_cong) (simp_all add: s1_def clean_bufs_def)
        also have "\<dots> = written dev bs (bufs s) (take j q @ drop j q) (disk s)"
          unfolding written_append by (simp add: s1_def)
        finally show ?thesis by simp
      qed
      ultimately show ?thesis by (simp add: s1_def)
    qed
    finally show ?thesis by blast
  qed
qed


subsection \<open>The contents of blocks and the invariant\<close>

definition cached :: "fsstate \<Rightarrow> int \<Rightarrow> u32 \<Rightarrow> nat option" where
  "cached s d k = find (\<lambda>i. b_dev (bufs s i) = d \<and> b_blocknr (bufs s i) = k) buf_nrs"

definition contents :: "fsstate \<Rightarrow> int \<Rightarrow> u32 \<Rightarrow> nat \<Rightarrow> u8" where
  "contents s d k off =
     (case cached s d k of Some i \<Rightarrow> b_data (bufs s i) off
      | None \<Rightarrow> disk s d (byte_pos (bsz s d) k off))"

definition same_contents :: "fsstate \<Rightarrow> fsstate \<Rightarrow> bool" where
  "same_contents s s' \<longleftrightarrow>
     (\<forall>d k off. d \<noteq> NO_DEV \<longrightarrow> fits s d k \<longrightarrow> off < bsz s d \<longrightarrow> contents s' d k off = contents s d k off)"

definition coherent :: "fsstate \<Rightarrow> bool" where
  "coherent s \<longleftrightarrow>
     (\<forall>i<NR_BUFS. \<forall>j<NR_BUFS. b_dev (bufs s i) \<noteq> NO_DEV \<longrightarrow> b_dev (bufs s j) = b_dev (bufs s i) \<longrightarrow>
        b_blocknr (bufs s j) = b_blocknr (bufs s i) \<longrightarrow> i = j) \<and>
     (\<forall>i<NR_BUFS. b_dev (bufs s i) \<noteq> NO_DEV \<longrightarrow> fits s (b_dev (bufs s i)) (b_blocknr (bufs s i))) \<and>
     (\<forall>i<NR_BUFS. b_dev (bufs s i) \<noteq> NO_DEV \<longrightarrow> \<not> b_dirt (bufs s i) \<longrightarrow>
        (\<forall>off<bsz s (b_dev (bufs s i)). b_data (bufs s i) off =
           disk s (b_dev (bufs s i)) (byte_pos (bsz s (b_dev (bufs s i))) (b_blocknr (bufs s i)) off)))"

definition linked :: "nat set \<Rightarrow> fsstate \<Rightarrow> bool" where
  "linked X s \<longleftrightarrow> (\<exists>xs. lru_chain s xs \<and> set xs = free_bufs s - X) \<and> hash_chains X s"

definition cache_ok :: "fsstate \<Rightarrow> bool" where
  "cache_ok s \<longleftrightarrow> linked {} s \<and> coherent s \<and> (\<forall>i<NR_BUFS. 0 \<le> b_count (bufs s i))"

lemma set_buf_nrs [simp]: "set buf_nrs = {i. i < NR_BUFS}"
  by (auto simp: buf_nrs_def)

lemma cached_None_iff: "cached s d k = None \<longleftrightarrow> (\<forall>i<NR_BUFS. \<not> (b_dev (bufs s i) = d \<and> b_blocknr (bufs s i) = k))"
  by (auto simp: cached_def find_None_iff)

lemma cached_SomeD: "cached s d k = Some i \<Longrightarrow> i < NR_BUFS \<and> b_dev (bufs s i) = d \<and> b_blocknr (bufs s i) = k"
  by (auto simp: cached_def find_Some_iff) (metis nth_mem set_buf_nrs mem_Collect_eq)

lemma coherentD:
  assumes "coherent s" "i < NR_BUFS" "b_dev (bufs s i) \<noteq> NO_DEV"
  shows coherent_uniq: "j < NR_BUFS \<Longrightarrow> b_dev (bufs s j) = b_dev (bufs s i) \<Longrightarrow>
      b_blocknr (bufs s j) = b_blocknr (bufs s i) \<Longrightarrow> i = j"
    and coherent_fits: "fits s (b_dev (bufs s i)) (b_blocknr (bufs s i))"
    and coherent_clean: "\<not> b_dirt (bufs s i) \<Longrightarrow> off < bsz s (b_dev (bufs s i)) \<Longrightarrow> b_data (bufs s i) off =
           disk s (b_dev (bufs s i)) (byte_pos (bsz s (b_dev (bufs s i))) (b_blocknr (bufs s i)) off)"
  using assms unfolding coherent_def by blast+

lemma coherentI:
  assumes "\<And>i j. i < NR_BUFS \<Longrightarrow> j < NR_BUFS \<Longrightarrow> b_dev (bufs s i) \<noteq> NO_DEV \<Longrightarrow>
      b_dev (bufs s j) = b_dev (bufs s i) \<Longrightarrow> b_blocknr (bufs s j) = b_blocknr (bufs s i) \<Longrightarrow> i = j"
    and "\<And>i. i < NR_BUFS \<Longrightarrow> b_dev (bufs s i) \<noteq> NO_DEV \<Longrightarrow> fits s (b_dev (bufs s i)) (b_blocknr (bufs s i))"
    and "\<And>i off. i < NR_BUFS \<Longrightarrow> b_dev (bufs s i) \<noteq> NO_DEV \<Longrightarrow> \<not> b_dirt (bufs s i) \<Longrightarrow>
      off < bsz s (b_dev (bufs s i)) \<Longrightarrow> b_data (bufs s i) off =
           disk s (b_dev (bufs s i)) (byte_pos (bsz s (b_dev (bufs s i))) (b_blocknr (bufs s i)) off)"
  shows "coherent s"
  unfolding coherent_def using assms by blast

lemma cached_eq:
  assumes "coherent s" "i < NR_BUFS" "b_dev (bufs s i) \<noteq> NO_DEV"
  shows "cached s (b_dev (bufs s i)) (b_blocknr (bufs s i)) = Some i"
proof (cases "cached s (b_dev (bufs s i)) (b_blocknr (bufs s i))")
  case None
  with assms(2) show ?thesis by (auto simp: cached_None_iff)
next
  case (Some j)
  have "i = j" by (rule coherent_uniq [OF assms]) (use cached_SomeD [OF Some] in simp_all)
  with Some show ?thesis by simp
qed

lemma contents_cached:
  "coherent s \<Longrightarrow> i < NR_BUFS \<Longrightarrow> b_dev (bufs s i) \<noteq> NO_DEV \<Longrightarrow>
   contents s (b_dev (bufs s i)) (b_blocknr (bufs s i)) off = b_data (bufs s i) off"
  by (simp add: contents_def cached_eq)

text \<open>Operations that keep the identity and the data of all buffers, and the disk.\<close>

definition same_store :: "fsstate \<Rightarrow> fsstate \<Rightarrow> bool" where
  "same_store s s' \<longleftrightarrow> (\<forall>i. b_dev (bufs s' i) = b_dev (bufs s i) \<and> b_blocknr (bufs s' i) = b_blocknr (bufs s i) \<and>
     b_data (bufs s' i) = b_data (bufs s i) \<and> b_dirt (bufs s' i) = b_dirt (bufs s i)) \<and>
     disk s' = disk s \<and> super_blocks s' = super_blocks s \<and> io_ans s' = io_ans s"

lemma same_store_refl [simp]: "same_store s s"
  by (simp add: same_store_def)

lemma same_store_trans [trans]: "same_store s s1 \<Longrightarrow> same_store s1 s2 \<Longrightarrow> same_store s s2"
  by (simp add: same_store_def)

lemma same_store_contents:
  assumes "same_store s s'"
  shows "contents s' = contents s" "coherent s' \<longleftrightarrow> coherent s" "io_works s' \<longleftrightarrow> io_works s"
    "cached s' = cached s"
proof -
  have sup: "super_blocks s' = super_blocks s" using assms by (simp add: same_store_def)
  have b: "bsz s' = bsz s" "fits s' = fits s"
    using bsz_cong [OF sup] fits_cong [OF sup] by (simp_all add: fun_eq_iff)
  show c: "cached s' = cached s" using assms by (simp add: cached_def same_store_def fun_eq_iff)
  show "contents s' = contents s"
    using assms b c by (auto simp: contents_def same_store_def fun_eq_iff split: option.split)
  show "coherent s' \<longleftrightarrow> coherent s" using assms b by (simp add: coherent_def same_store_def)
  show "io_works s' \<longleftrightarrow> io_works s" using assms by (simp add: io_works_def same_store_def)
qed

subsection \<open>Flushing\<close>

text \<open>Writing buffers of a device back, in any order, keeps the store coherent and all contents.\<close>

lemma write_back:
  assumes ok: "coherent s" and d: "dev \<noteq> NO_DEV"
    and q: "\<forall>i\<in>set q. i < NR_BUFS \<and> b_dev (bufs s i) = dev"
  shows "coherent (s\<lparr>bufs := clean_bufs (set q) (bufs s), disk := written dev (bsz s dev) (bufs s) q (disk s), io_cnt := n\<rparr>)"
    "same_contents s (s\<lparr>bufs := clean_bufs (set q) (bufs s), disk := written dev (bsz s dev) (bufs s) q (disk s), io_cnt := n\<rparr>)"
proof -
  let ?bs = "bsz s dev"
  let ?D = "written dev ?bs (bufs s) q (disk s)"
  let ?s = "s\<lparr>bufs := clean_bufs (set q) (bufs s), disk := ?D, io_cnt := n\<rparr>"
  have b: "bsz ?s = bsz s" "fits ?s = fits s"
    by (intro ext bsz_cong, simp, intro ext fits_cong, simp)
  have sel: "b_dev (bufs ?s i) = b_dev (bufs s i)" "b_blocknr (bufs ?s i) = b_blocknr (bufs s i)"
    "b_data (bufs ?s i) = b_data (bufs s i)" for i by (simp_all add: clean_bufs_def)
  have ft: "\<forall>i\<in>set q. unat (b_blocknr (bufs s i)) * ?bs + ?bs \<le> 2 ^ 32"
    using coherent_fits [OF ok] d q by (force simp: fits_def)
  have other: "?D e (byte_pos (bsz s e) k off) = disk s e (byte_pos (bsz s e) k off)"
    if "fits s e k" "off < bsz s e" "\<And>i. i \<in> set q \<Longrightarrow> b_dev (bufs s i) = e \<Longrightarrow> b_blocknr (bufs s i) \<noteq> k" for e k off
  proof (cases "e = dev")
    case True
    have "k \<notin> (\<lambda>i. b_blocknr (bufs s i)) ` set q" using that(3) True q by auto
    then have "?D dev (byte_pos ?bs k off) = disk s dev (byte_pos ?bs k off)"
      using that(1,2) True by (intro written_other [OF _ _ _ ft]) (auto simp: fits_def)
    with True show ?thesis by simp
  next
    case False
    have "written dev ?bs (bufs s) p E e = E e" for p E using False by (induction p arbitrary: E) simp_all
    then show ?thesis by simp
  qed
  have coh: "coherent ?s"
  proof (rule coherentI)
    fix i j assume "i < NR_BUFS" "j < NR_BUFS" "b_dev (bufs ?s i) \<noteq> NO_DEV"
      "b_dev (bufs ?s j) = b_dev (bufs ?s i)" "b_blocknr (bufs ?s j) = b_blocknr (bufs ?s i)"
    then show "i = j" unfolding sel using coherent_uniq [OF ok] by blast
  next
    fix i assume "i < NR_BUFS" "b_dev (bufs ?s i) \<noteq> NO_DEV"
    then show "fits ?s (b_dev (bufs ?s i)) (b_blocknr (bufs ?s i))" unfolding sel b using coherent_fits [OF ok] by blast
  next
    fix i off assume i: "i < NR_BUFS" "b_dev (bufs ?s i) \<noteq> NO_DEV" "\<not> b_dirt (bufs ?s i)"
      and "off < bsz ?s (b_dev (bufs ?s i))"
    then have off: "off < bsz s (b_dev (bufs s i))" and nz: "b_dev (bufs s i) \<noteq> NO_DEV" unfolding sel b by simp_all
    have "b_data (bufs s i) off = ?D (b_dev (bufs s i)) (byte_pos (bsz s (b_dev (bufs s i))) (b_blocknr (bufs s i)) off)"
    proof (cases "i \<in> set q")
      case True
      then have dv: "b_dev (bufs s i) = dev" using q by simp
      have "?D dev (byte_pos ?bs (b_blocknr (bufs s i)) off) = b_data (bufs s i) off"
        using True off dv
      proof (intro written_this [OF _ _ _ ft])
        fix j assume "j \<in> set q" "b_blocknr (bufs s j) = b_blocknr (bufs s i)"
        then show "j = i" using coherent_uniq [OF ok i(1) nz, of j] q dv by auto
      qed auto
      with dv show ?thesis by simp
    next
      case False
      then have nd: "\<not> b_dirt (bufs s i)" using i(3) by (auto simp: clean_bufs_def split: if_splits)
      have "?D (b_dev (bufs s i)) (byte_pos (bsz s (b_dev (bufs s i))) (b_blocknr (bufs s i)) off) =
          disk s (b_dev (bufs s i)) (byte_pos (bsz s (b_dev (bufs s i))) (b_blocknr (bufs s i)) off)"
        using coherent_fits [OF ok i(1) nz] off
      proof (rule other)
        fix j assume "j \<in> set q" "b_dev (bufs s j) = b_dev (bufs s i)"
        with False coherent_uniq [OF ok i(1) nz, of j] show "b_blocknr (bufs s j) \<noteq> b_blocknr (bufs s i)"
          using q by auto
      qed
      with coherent_clean [OF ok i(1) nz nd off] show ?thesis by simp
    qed
    then show "b_data (bufs ?s i) off = disk ?s (b_dev (bufs ?s i))
        (byte_pos (bsz ?s (b_dev (bufs ?s i))) (b_blocknr (bufs ?s i)) off)"
      unfolding sel b by simp
  qed
  have ca: "cached ?s = cached s" using sel by (simp add: cached_def fun_eq_iff)
  have "same_contents s ?s"
    unfolding same_contents_def
  proof (intro allI impI)
    fix e k off assume e: "e \<noteq> NO_DEV" "fits s e k" "off < bsz s e"
    show "contents ?s e k off = contents s e k off"
    proof (cases "cached s e k")
      case None
      then have "?D e (byte_pos (bsz s e) k off) = disk s e (byte_pos (bsz s e) k off)"
        using e q by (intro other) (auto simp: cached_None_iff)
      with None ca b show ?thesis by (simp add: contents_def)
    next
      case (Some i)
      with ca sel show ?thesis by (simp add: contents_def)
    qed
  qed
  with coh show "coherent ?s" "same_contents s ?s" by blast+
qed


lemma flush_spec:
  assumes ok: "coherent s" and io: "io_works s" and d: "dev \<noteq> NO_DEV"
  shows "\<exists>s' D n. flushall dev s = Some s' \<and> coherent s' \<and> same_contents s s' \<and>
    s' = s\<lparr>bufs := clean_bufs {i. i < NR_BUFS \<and> b_dirt (bufs s i) \<and> b_dev (bufs s i) = dev} (bufs s),
       disk := D, io_cnt := n\<rparr>"
proof -
  let ?X = "{i. i < NR_BUFS \<and> b_dirt (bufs s i) \<and> b_dev (bufs s i) = dev}"
  let ?q0 = "filter (\<lambda>i. b_dirt (bufs s i) \<and> b_dev (bufs s i) = dev) buf_nrs"
  define q where "q = shell_sort (\<lambda>i. b_blocknr (bufs s i)) ?q0"
  have "mset q = mset ?q0" unfolding q_def by (rule shell_sort_mset)
  then have "set q = set ?q0" by (rule mset_eq_setD)
  then have q: "set q = ?X" by auto
  let ?D = "written dev (bsz s dev) (bufs s) q (disk s)"
  obtain n where n: "scatter WRITING dev (bsz s dev) q s =
      Some (s\<lparr>bufs := clean_bufs (set q) (bufs s), disk := ?D, io_cnt := n\<rparr>)"
    using scatter_writes [OF io] by blast
  have "flushall dev s = Some (s\<lparr>bufs := clean_bufs ?X (bufs s), disk := ?D, io_cnt := n\<rparr>)"
    using n d by (simp add: flushall_def rw_scattered_def get_block_size_bsz q_def [symmetric] q)
  moreover note write_back [OF ok d, of q n, unfolded q]
  ultimately show ?thesis by blast
qed

subsection \<open>Getting a block\<close>

lemma same_contents_trans:
  assumes "same_contents s s1" "same_contents s1 s2" "super_blocks s1 = super_blocks s"
  shows "same_contents s s2"
  using assms(1,2) bsz_cong [OF assms(3)] fits_cong [OF assms(3)] unfolding same_contents_def by metis

lemma same_store_same_contents: "same_store s s' \<Longrightarrow> same_contents s s'"
  using same_store_contents(1) [of s s'] unfolding same_contents_def by simp

text \<open>Replacing the contents of a clean buffer by another block that was not cached.\<close>

lemma replace_block:
  assumes ok: "coherent s" and bp: "bp < NR_BUFS"
    and cl: "b_dev (bufs s bp) = NO_DEV \<or> \<not> b_dirt (bufs s bp)"
    and bufs: "\<And>i. i \<noteq> bp \<Longrightarrow> bufs s' i = bufs s i"
    and st: "disk s' = disk s" "super_blocks s' = super_blocks s"
    and new: "b_dev (bufs s' bp) \<noteq> NO_DEV \<Longrightarrow> cached s (b_dev (bufs s' bp)) (b_blocknr (bufs s' bp)) = None \<and>
      fits s (b_dev (bufs s' bp)) (b_blocknr (bufs s' bp)) \<and>
      (\<forall>off<bsz s (b_dev (bufs s' bp)). b_data (bufs s' bp) off =
         disk s (b_dev (bufs s' bp)) (byte_pos (bsz s (b_dev (bufs s' bp))) (b_blocknr (bufs s' bp)) off))"
  shows "coherent s'" "same_contents s s'"
proof -
  have b: "bsz s' = bsz s" "fits s' = fits s"
    using bsz_cong [OF st(2)] fits_cong [OF st(2)] by (simp_all add: fun_eq_iff)
  show coh: "coherent s'"
  proof (rule coherentI)
    fix i j assume ij: "i < NR_BUFS" "j < NR_BUFS" "b_dev (bufs s' i) \<noteq> NO_DEV"
      "b_dev (bufs s' j) = b_dev (bufs s' i)" "b_blocknr (bufs s' j) = b_blocknr (bufs s' i)"
    consider "i = bp" "j = bp" | "i = bp" "j \<noteq> bp" | "i \<noteq> bp" "j = bp" | "i \<noteq> bp" "j \<noteq> bp" by blast
    then show "i = j"
    proof cases
      case 2
      with new ij have "cached s (b_dev (bufs s' bp)) (b_blocknr (bufs s' bp)) = None" by simp
      with 2 ij bufs [of j] show ?thesis by (simp add: cached_None_iff)
    next
      case 3
      with new ij have "cached s (b_dev (bufs s' bp)) (b_blocknr (bufs s' bp)) = None" by simp
      with 3 ij bufs [of i] show ?thesis by (metis cached_None_iff)
    next
      case 4
      then have eq: "bufs s' i = bufs s i" "bufs s' j = bufs s j" using bufs by blast+
      show ?thesis by (rule coherent_uniq [OF ok ij(1) _ ij(2)]) (use ij(3-5) eq in simp_all)
    qed simp
  next
    fix i assume "i < NR_BUFS" "b_dev (bufs s' i) \<noteq> NO_DEV"
    with new bufs [of i] coherent_fits [OF ok, of i] show "fits s' (b_dev (bufs s' i)) (b_blocknr (bufs s' i))"
      unfolding b by (cases "i = bp") simp_all
  next
    fix i off assume "i < NR_BUFS" "b_dev (bufs s' i) \<noteq> NO_DEV" "\<not> b_dirt (bufs s' i)"
      "off < bsz s' (b_dev (bufs s' i))"
    with new bufs [of i] coherent_clean [OF ok, of i] show "b_data (bufs s' i) off = disk s' (b_dev (bufs s' i))
        (byte_pos (bsz s' (b_dev (bufs s' i))) (b_blocknr (bufs s' i)) off)"
      unfolding b st by (cases "i = bp") simp_all
  qed
  show "same_contents s s'"
    unfolding same_contents_def
  proof (intro allI impI)
    fix d k off assume d: "d \<noteq> NO_DEV" "fits s d k" "off < bsz s d"
    show "contents s' d k off = contents s d k off"
    proof (cases "b_dev (bufs s' bp) = d \<and> b_blocknr (bufs s' bp) = k")
      case True
      with new d have "cached s d k = None" "b_data (bufs s' bp) off = disk s d (byte_pos (bsz s d) k off)" by auto
      with contents_cached [OF coh bp, of off] True d show ?thesis by (simp add: contents_def)
    next
      case False
      note nb = this
      show ?thesis
      proof (cases "cached s d k")
        case None
        have "cached s' d k = None"
          unfolding cached_None_iff
        proof (intro allI impI)
          fix i assume "i < NR_BUFS"
          with None nb bufs [of i] show "\<not> (b_dev (bufs s' i) = d \<and> b_blocknr (bufs s' i) = k)"
            unfolding cached_None_iff by (cases "i = bp") simp_all
        qed
        with None st b show ?thesis by (simp add: contents_def)
      next
        case (Some i)
        note i = cached_SomeD [OF Some]
        show ?thesis
        proof (cases "i = bp")
          case True
          have "cached s' d k = None"
            unfolding cached_None_iff
          proof (intro allI impI)
            fix j assume "j < NR_BUFS"
            with i True nb d bufs [of j] coherent_uniq [OF ok bp, of j]
            show "\<not> (b_dev (bufs s' j) = d \<and> b_blocknr (bufs s' j) = k)"
              by (cases "j = bp") auto
          qed
          with Some st b coherent_clean [OF ok bp, of off] cl True i d show ?thesis by (simp add: contents_def)
        next
          case False
          with bufs i have eq: "bufs s' i = bufs s i" "i < NR_BUFS" by simp_all
          with i contents_cached [OF coh, of i off] contents_cached [OF ok, of i off] d show ?thesis by simp
        qed
      qed
    qed
  qed
qed

lemma hash_lookup_cached:
  assumes "hash_chains {} s" "coherent s" "dev \<noteq> NO_DEV"
  shows "hash_lookup dev block (buf_hash s (hash_nr block)) s = Some (cached s dev block)"
proof -
  let ?P = "\<lambda>i. b_blocknr (bufs s i) = block \<and> b_dev (bufs s i) = dev"
  from assms(1) hash_nr_less [of block] obtain ys where
    ys: "chain (hsh s) (buf_hash s (hash_nr block)) ys"
      "set ys = {i. i < NR_BUFS \<and> hash_nr (b_blocknr (bufs s i)) = hash_nr block}"
    unfolding hash_chains_def by auto
  have "find ?P ys = cached s dev block"
  proof (cases "find ?P ys")
    case None
    with ys(2) have "cached s dev block = None" by (auto simp: cached_None_iff find_None_iff)
    with None show ?thesis by simp
  next
    case (Some i)
    then have i: "?P i" "i \<in> set ys" by (auto simp: find_Some_iff)
    with ys(2) cached_eq [OF assms(2), of i] assms(3) Some show ?thesis by auto
  qed
  with hash_lookup_chain [OF ys(1)] show ?thesis by simp
qed


text \<open>The operations of the cache change nothing but its own variables and the disk.\<close>

definition no_cache :: "fsstate \<Rightarrow> fsstate" where
  "no_cache s = s\<lparr>bufs := (\<lambda>_. zero_buf), buf_hash := (\<lambda>_. None), front := None, rear := None,
     bufs_in_use := 0, disk := (\<lambda>_ _. 0), io_cnt := 0\<rparr>"

definition cache_frame :: "fsstate \<Rightarrow> fsstate \<Rightarrow> bool" where
  "cache_frame s s' \<longleftrightarrow> no_cache s' = no_cache s"

lemma cache_frame_refl [simp]: "cache_frame s s"
  by (simp add: cache_frame_def)

lemma cache_frame_trans [trans]: "cache_frame s s1 \<Longrightarrow> cache_frame s1 s2 \<Longrightarrow> cache_frame s s2"
  by (simp add: cache_frame_def)

lemma no_cache_upd [simp]:
  "no_cache (s\<lparr>bufs := bf\<rparr>) = no_cache s" "no_cache (s\<lparr>buf_hash := hh\<rparr>) = no_cache s"
  "no_cache (s\<lparr>front := f\<rparr>) = no_cache s" "no_cache (s\<lparr>rear := f\<rparr>) = no_cache s"
  "no_cache (s\<lparr>bufs_in_use := n\<rparr>) = no_cache s" "no_cache (s\<lparr>disk := D\<rparr>) = no_cache s"
  "no_cache (s\<lparr>io_cnt := c\<rparr>) = no_cache s"
  by (simp_all add: no_cache_def)

lemma cache_frame_step [simp]:
  assumes "cache_frame s s1"
  shows "cache_frame s (s1\<lparr>bufs := bf\<rparr>)" "cache_frame s (s1\<lparr>buf_hash := hh\<rparr>)" "cache_frame s (s1\<lparr>front := f\<rparr>)"
    "cache_frame s (s1\<lparr>rear := f\<rparr>)" "cache_frame s (s1\<lparr>bufs_in_use := n\<rparr>)" "cache_frame s (s1\<lparr>disk := D\<rparr>)"
    "cache_frame s (s1\<lparr>io_cnt := c\<rparr>)"
  using assms by (simp_all add: cache_frame_def)

lemma cache_frame_sel:
  assumes "cache_frame s s'"
  shows "super_blocks s' = super_blocks s" "io_ans s' = io_ans s" "inodes s' = inodes s" "filps s' = filps s"
    "fprocs s' = fprocs s" "file_locks s' = file_locks s" "fp s' = fp s" "fs_log s' = fs_log s"
    "nr_locks s' = nr_locks s" "root_dev s' = root_dev s" "err_code s' = err_code s" "fs_ans s' = fs_ans s"
    "fs_m_in s' = fs_m_in s" "super_user s' = super_user s"
proof -
  have sel: "super_blocks (no_cache t) = super_blocks t" "io_ans (no_cache t) = io_ans t" "inodes (no_cache t) = inodes t"
    "filps (no_cache t) = filps t" "fprocs (no_cache t) = fprocs t" "file_locks (no_cache t) = file_locks t"
    "fp (no_cache t) = fp t" "fs_log (no_cache t) = fs_log t" "nr_locks (no_cache t) = nr_locks t"
    "root_dev (no_cache t) = root_dev t" "err_code (no_cache t) = err_code t" "fs_ans (no_cache t) = fs_ans t"
    "fs_m_in (no_cache t) = fs_m_in t" "super_user (no_cache t) = super_user t" for t
    by (simp_all add: no_cache_def)
  have eq: "no_cache s' = no_cache s" using assms by (simp add: cache_frame_def)
  show "super_blocks s' = super_blocks s" "io_ans s' = io_ans s" "inodes s' = inodes s" "filps s' = filps s"
    "fprocs s' = fprocs s" "file_locks s' = file_locks s" "fp s' = fp s" "fs_log s' = fs_log s"
    "nr_locks s' = nr_locks s" "root_dev s' = root_dev s" "err_code s' = err_code s" "fs_ans s' = fs_ans s"
    "fs_m_in s' = fs_m_in s" "super_user s' = super_user s"
    using sel [of s] sel [of s'] eq by simp_all
qed

lemma cache_frame_upd_buf [simp]: "cache_frame s s1 \<Longrightarrow> cache_frame s (upd_buf i f s1)"
  by (simp add: upd_buf_def)

lemma cache_frame_rm_lru [simp]: "cache_frame s (rm_lru bp s)"
  by (auto simp: rm_lru_def Let_def split: option.split)

lemma cache_frame_lru_add [simp]: "cache_frame s s1 \<Longrightarrow> cache_frame s (lru_add w bp s1)"
  by (auto simp: lru_add_def Let_def split: option.split)

lemma io_works_frame: "cache_frame s s' \<Longrightarrow> io_works s \<Longrightarrow> io_works s'"
  by (simp add: io_works_def cache_frame_sel)

definition kept_bufs :: "nat \<Rightarrow> fsstate \<Rightarrow> fsstate \<Rightarrow> bool" where
  "kept_bufs bp s s' \<longleftrightarrow> (\<forall>i. i \<noteq> bp \<longrightarrow> b_dev (bufs s' i) = b_dev (bufs s i) \<and>
     b_blocknr (bufs s' i) = b_blocknr (bufs s i) \<and> b_data (bufs s' i) = b_data (bufs s i) \<and>
     b_count (bufs s' i) = b_count (bufs s i))"

text \<open>Taking the oldest buffer out of both chains and cleaning it.\<close>

lemma evict:
  assumes ok: "cache_ok s" and io: "io_works s" and f: "front s = Some bp"
  obtains s1 s2 where "hash_unlink bp (rm_lru bp s) = Some s1"
    "(if b_dev (bufs s1 bp) \<noteq> NO_DEV \<and> b_dirt (bufs s1 bp) then flushall (b_dev (bufs s1 bp)) s1 else Some s1) = Some s2"
    "bp < NR_BUFS" "b_count (bufs s bp) = 0" "linked {bp} s2" "coherent s2" "same_contents s s2"
    "io_works s2" "cache_frame s s2"
    "b_dev (bufs s2 bp) = NO_DEV \<or> \<not> b_dirt (bufs s2 bp)"
    "\<And>i. b_dev (bufs s2 i) = b_dev (bufs s i) \<and> b_blocknr (bufs s2 i) = b_blocknr (bufs s i) \<and>
       b_data (bufs s2 i) = b_data (bufs s i) \<and> b_count (bufs s2 i) = b_count (bufs s i)"
proof -
  from ok obtain xs where xs: "lru_chain s xs" "set xs = free_bufs s" and hc: "hash_chains {} s"
    and co: "coherent s" by (auto simp: cache_ok_def linked_def)
  from xs(1) f obtain ys where ys: "xs = bp # ys" by (auto simp: lru_chain_def elim: chain_SomeE)
  with xs(2) have bp: "bp < NR_BUFS" "b_count (bufs s bp) = 0" by (auto simp: free_bufs_def)
  let ?s0 = "rm_lru bp s"
  have st0: "same_store s ?s0" by (simp add: same_store_def frame_simps)
  have l0: "lru_chain ?s0 ys" using rm_lru_chain [of s "[]" bp ys] xs(1) ys by simp
  have dist: "bp \<notin> set ys"
    using chain_distinct [of "nxt s" "front s" xs] xs(1) ys by (simp add: lru_chain_def)
  have h0: "hash_chains {} ?s0" using hc by (subst hash_chains_cong [of ?s0 s]) (simp_all add: frame_simps)
  from hash_unlink_ok [OF h0 bp(1)] obtain hs hh where
    s1: "hash_unlink bp ?s0 = Some (?s0\<lparr>bufs := (\<lambda>i. (bufs ?s0 i)\<lparr>b_hash := hs i\<rparr>), buf_hash := hh\<rparr>)"
    and h1: "hash_chains {bp} (?s0\<lparr>bufs := (\<lambda>i. (bufs ?s0 i)\<lparr>b_hash := hs i\<rparr>), buf_hash := hh\<rparr>)" by blast
  define s1 where "s1 = ?s0\<lparr>bufs := (\<lambda>i. (bufs ?s0 i)\<lparr>b_hash := hs i\<rparr>), buf_hash := hh\<rparr>"
  have "same_store ?s0 s1" by (simp add: s1_def same_store_def)
  with st0 have st1: "same_store s s1" by (rule same_store_trans)
  have l1: "lru_chain s1 ys" using l0 by (subst lru_chain_cong [of s1 ?s0]) (simp_all add: s1_def)
  have c1: "b_count (bufs s1 i) = b_count (bufs s i)" for i by (simp add: s1_def frame_simps)
  have fr1: "set ys = free_bufs s1 - {bp}" using xs(2) ys dist c1 by (auto simp: free_bufs_def)
  have co1: "coherent s1" "io_works s1" using same_store_contents [OF st1] co io by simp_all
  have sc1: "same_contents s s1" by (rule same_store_same_contents [OF st1])
  have lk1: "linked {bp} s1" using l1 fr1 h1 by (auto simp: linked_def s1_def)
  have fr: "cache_frame s s1" by (simp add: s1_def)
  have ss1: "super_blocks s1 = super_blocks s" using st1 by (simp add: same_store_def)
  show thesis
  proof (cases "b_dev (bufs s1 bp) \<noteq> NO_DEV \<and> b_dirt (bufs s1 bp)")
    case False
    show thesis
      by (rule that [of s1 s1]) (use False s1 bp lk1 co1 sc1 fr st1 c1 in \<open>auto simp: s1_def same_store_def\<close>)
  next
    case True
    from flush_spec [OF co1, of "b_dev (bufs s1 bp)"] True obtain s2 D n where
      s2: "flushall (b_dev (bufs s1 bp)) s1 = Some s2" "coherent s2" "same_contents s1 s2"
      and eq: "s2 = s1\<lparr>bufs := clean_bufs {i. i < NR_BUFS \<and> b_dirt (bufs s1 i) \<and> b_dev (bufs s1 i) = b_dev (bufs s1 bp)} (bufs s1),
        disk := D, io_cnt := n\<rparr>" by blast
    have "linked {bp} s2"
    proof -
      have "lru_chain s2 ys" using l1 by (subst lru_chain_cong [of s2 s1]) (simp_all add: eq clean_bufs_def)
      moreover have "hash_chains {bp} s2" using lk1
        by (subst hash_chains_cong [of s2 s1]) (simp_all add: eq clean_bufs_def linked_def)
      moreover have "free_bufs s2 = free_bufs s1" by (auto simp: eq clean_bufs_def free_bufs_def)
      ultimately show ?thesis using fr1 by (auto simp: linked_def)
    qed
    moreover have "same_contents s s2" using sc1 s2(3) ss1 by (rule same_contents_trans)
    moreover have "io_works s2" using co1(2) by (simp add: eq io_works_def)
    moreover have "cache_frame s s2" using fr by (simp add: eq)
    moreover have "\<not> b_dirt (bufs s2 bp)" using bp(1) True by (simp add: eq clean_bufs_def)
    moreover have "b_dev (bufs s2 i) = b_dev (bufs s i) \<and> b_blocknr (bufs s2 i) = b_blocknr (bufs s i) \<and>
       b_data (bufs s2 i) = b_data (bufs s i) \<and> b_count (bufs s2 i) = b_count (bufs s i)" for i
      using st1 c1 [of i] by (simp add: eq clean_bufs_def same_store_def)
    ultimately show thesis
      using that [of s1 s2] True s1 s2(1,2) bp by (simp add: s1_def)
  qed
qed

lemma disk_read_frame [simp]:
  "disk_read d p n old (s\<lparr>io_cnt := c\<rparr>) = disk_read d p n old s"
  "disk_read d p n old (s\<lparr>bufs := b\<rparr>) = disk_read d p n old s"
  by (simp_all add: disk_read_def cong: if_cong)

lemma rw_block_reads:
  assumes "io_works s" "b_dev (bufs s bp) = dev" "dev \<noteq> NO_DEV"
  shows "rw_block bp READING s = Some (upd_buf bp (\<lambda>b. b\<lparr>b_dirt := False\<rparr>)
    (upd_buf bp (\<lambda>b. b\<lparr>b_data := disk_read dev (b_blocknr b * of_nat (bsz s dev)) (bsz s dev) (b_data b) s\<rparr>)
      (s\<lparr>io_cnt := io_cnt s + 1\<rparr>)))"
  using assms by (simp add: rw_block_def get_block_size_bsz io_works_def moved_def upd_buf_def Let_def)

lemma new_block_spec:
  assumes ok: "cache_ok s" and io: "io_works s" and f: "front s = Some bp"
    and new: "dev \<noteq> NO_DEV \<Longrightarrow> cached s dev block = None \<and> fits s dev block \<and> m \<noteq> NO_READ"
  shows "\<exists>s'. new_block dev block m s = Some (bp, s') \<and> cache_ok s' \<and> same_contents s s' \<and> bp < NR_BUFS \<and>
    b_count (bufs s bp) = 0 \<and> b_count (bufs s' bp) = 1 \<and> b_blocknr (bufs s' bp) = block \<and>
    b_dev (bufs s' bp) = (if m = PREFETCH then NO_DEV else dev) \<and> kept_bufs bp s s' \<and> cache_frame s s'"
proof -
  from evict [OF ok io f] obtain s1 s2 where s1: "hash_unlink bp (rm_lru bp s) = Some s1"
    and s2: "(if b_dev (bufs s1 bp) \<noteq> NO_DEV \<and> b_dirt (bufs s1 bp) then flushall (b_dev (bufs s1 bp)) s1 else Some s1) = Some s2"
    and bp: "bp < NR_BUFS" "b_count (bufs s bp) = 0" and lk: "linked {bp} s2" and co: "coherent s2"
    and sc: "same_contents s s2" and io2: "io_works s2" and fr2: "cache_frame s s2"
    and cl: "b_dev (bufs s2 bp) = NO_DEV \<or> \<not> b_dirt (bufs s2 bp)"
    and sel: "\<And>i. b_dev (bufs s2 i) = b_dev (bufs s i) \<and> b_blocknr (bufs s2 i) = b_blocknr (bufs s i) \<and>
       b_data (bufs s2 i) = b_data (bufs s i) \<and> b_count (bufs s2 i) = b_count (bufs s i)" by blast
  note sup = cache_frame_sel(1) [OF fr2]
  let ?h = "hash_nr block"
  define s4 where "s4 = s2\<lparr>bufs := (bufs s2)(bp := (bufs s2 bp)\<lparr>b_dev := dev, b_blocknr := block,
      b_count := 1, b_hash := buf_hash s2 ?h\<rparr>), buf_hash := (buf_hash s2)(?h := Some bp)\<rparr>"
  define d' where "d' = (if m = PREFETCH then NO_DEV else dev)"
  obtain c dt dr where r: "(if dev \<noteq> NO_DEV then
              (if m = PREFETCH then Some (upd_buf bp (\<lambda>b. b\<lparr>b_dev := NO_DEV\<rparr>) s4)
               else if m = NORMAL then rw_block bp READING s4
               else Some s4)
            else Some s4) = Some (s4\<lparr>io_cnt := c, bufs := (bufs s4)(bp := (bufs s4 bp)\<lparr>b_dev := d', b_data := dt, b_dirt := dr\<rparr>)\<rparr>)"
    and dt: "d' \<noteq> NO_DEV \<Longrightarrow> dt = disk_read dev (block * of_nat (bsz s4 dev)) (bsz s4 dev) (b_data (bufs s4 bp)) s4"
  proof -
    consider "dev = NO_DEV" | "dev \<noteq> NO_DEV" "m = PREFETCH" | "dev \<noteq> NO_DEV" "m = NORMAL"
      using new by (cases m) auto
    then show thesis
    proof cases
      case 1
      then have d: "d' = NO_DEV" by (simp add: d'_def)
      have "b_dev (bufs s4 bp) = NO_DEV" using 1 by (simp add: s4_def)
      then have "(bufs s4 bp)\<lparr>b_dev := NO_DEV, b_data := b_data (bufs s4 bp), b_dirt := b_dirt (bufs s4 bp)\<rparr> = bufs s4 bp"
        by (cases "bufs s4 bp") simp
      with 1 d show thesis
        by (intro that [where c = "io_cnt s4" and dt = "b_data (bufs s4 bp)" and dr = "b_dirt (bufs s4 bp)"]) simp_all
    next
      case 2
      then have d: "d' = NO_DEV" by (simp add: d'_def)
      have "(bufs s4 bp)\<lparr>b_dev := NO_DEV, b_data := b_data (bufs s4 bp), b_dirt := b_dirt (bufs s4 bp)\<rparr> =
        (bufs s4 bp)\<lparr>b_dev := NO_DEV\<rparr>" by (cases "bufs s4 bp") simp
      with 2 d show thesis
        by (intro that [where c = "io_cnt s4" and dt = "b_data (bufs s4 bp)" and dr = "b_dirt (bufs s4 bp)"])
          (simp_all add: upd_buf_def)
    next
      case 3
      have dv4: "b_dev (bufs s4 bp) = dev" "b_blocknr (bufs s4 bp) = block" by (simp_all add: s4_def)
      have eq4: "(bufs s4 bp)\<lparr>b_dev := dev, b_data := X, b_dirt := False\<rparr> =
        (bufs s4 bp)\<lparr>b_data := X, b_dirt := False\<rparr>" for X
        using dv4 by (cases "bufs s4 bp") simp
      have "rw_block bp READING s4 = Some (upd_buf bp (\<lambda>b. b\<lparr>b_dirt := False\<rparr>)
        (upd_buf bp (\<lambda>b. b\<lparr>b_data := disk_read dev (b_blocknr b * of_nat (bsz s4 dev)) (bsz s4 dev) (b_data b) s4\<rparr>)
        (s4\<lparr>io_cnt := io_cnt s4 + 1\<rparr>)))"
        using io2 3 by (intro rw_block_reads) (simp_all add: s4_def io_works_def)
      then have "rw_block bp READING s4 = Some (s4\<lparr>io_cnt := io_cnt s4 + 1, bufs := (bufs s4)(bp := (bufs s4 bp)
          \<lparr>b_dev := dev, b_data := disk_read dev (block * of_nat (bsz s4 dev)) (bsz s4 dev) (b_data (bufs s4 bp)) s4,
            b_dirt := False\<rparr>)\<rparr>)"
        unfolding eq4 by (simp add: upd_buf_def dv4)
      moreover have "d' = dev" using 3 by (simp add: d'_def)
      ultimately show thesis using 3
        by (intro that [where c = "io_cnt s4 + 1" and dr = False and
            dt = "disk_read dev (block * of_nat (bsz s4 dev)) (bsz s4 dev) (b_data (bufs s4 bp)) s4"])
          (simp_all only: search_mode.distinct if_True if_False not_False_eq_True simp_thms)
    qed
  qed
  define s5 where "s5 = s4\<lparr>io_cnt := c, bufs := (bufs s4)(bp := (bufs s4 bp)\<lparr>b_dev := d', b_data := dt, b_dirt := dr\<rparr>)\<rparr>"
  have "new_block dev block m s = Some (bp, s5)"
  proof -
    let ?s3 = "upd_buf bp (\<lambda>b. b\<lparr>b_dev := dev, b_blocknr := block, b_count := schar (b_count b + 1),
        b_hash := buf_hash s2 ?h\<rparr>) s2"
    have e4: "?s3\<lparr>buf_hash := (buf_hash ?s3)(?h := Some bp)\<rparr> = s4"
      using sel [of bp] bp(2) by (simp add: s4_def upd_buf_def)
    show ?thesis
      by (simp only: new_block_def f s1 s2 Let_def Option.bind.simps e4 r s5_def [symmetric])
  qed
  moreover have bsz4: "bsz s4 = bsz s2" by (intro ext bsz_cong) (simp add: s4_def)
  have "coherent s5 \<and> same_contents s2 s5"
  proof -
    have "cached s2 = cached s" using sel by (simp add: cached_def fun_eq_iff)
    moreover have "fits s2 = fits s" by (intro ext fits_cong sup)
    moreover have "dt off = disk s2 dev (byte_pos (bsz s2 dev) block off)" if "d' \<noteq> NO_DEV" "off < bsz s2 dev" for off
      using dt [OF that(1)] that(2) bsz4 by (simp add: disk_read_def byte_pos_def s4_def)
    ultimately show ?thesis
      using new cl bp(1) by (intro conjI replace_block [OF co bp(1), of s5]) (auto simp: s5_def s4_def d'_def split: if_splits)
  qed
  moreover have "linked {} s5"
  proof -
    from lk obtain ys where ys: "lru_chain s2 ys" "set ys = free_bufs s2 - {bp}" "hash_chains {bp} s2"
      by (auto simp: linked_def)
    have "lru_chain s5 ys" using ys(1) by (subst lru_chain_cong [of s5 s2]) (simp_all add: s5_def s4_def)
    moreover have "free_bufs s5 = free_bufs s2 - {bp}" by (auto simp: free_bufs_def s5_def s4_def)
    moreover have "hash_chains {} s5"
      by (rule hash_insert_ok [OF ys(3) bp(1), of _ "bufs s5 bp"]) (auto simp: s5_def s4_def fun_eq_iff)
    ultimately show ?thesis using ys(2) by (auto simp: linked_def)
  qed
  moreover have "\<forall>i<NR_BUFS. 0 \<le> b_count (bufs s5 i)"
    using ok sel by (simp add: cache_ok_def s5_def s4_def)
  moreover have "kept_bufs bp s s5" using sel by (simp add: kept_bufs_def s5_def s4_def)
  moreover have "cache_frame s s5" using fr2 by (simp add: s5_def s4_def)
  moreover have "same_contents s s5" using same_contents_trans [OF sc _ sup] calculation(2) by blast
  ultimately show ?thesis using bp by (auto simp: cache_ok_def s5_def s4_def d'_def)
qed


text \<open>A block that is cached: its buffer leaves the LRU chain if it was unused.\<close>

lemma get_cached_spec:
  assumes ok: "cache_ok s" and d: "dev \<noteq> NO_DEV" and c: "cached s dev block = Some bp"
    and cnt: "b_count (bufs s bp) < 127"
  shows "\<exists>s'. get_block dev block m s = Some (bp, s') \<and> cache_ok s' \<and> same_store s s' \<and> cache_frame s s' \<and>
    (\<forall>i. b_count (bufs s' i) = (if i = bp then b_count (bufs s i) + 1 else b_count (bufs s i)))"
proof -
  from ok obtain xs where xs: "lru_chain s xs" "set xs = free_bufs s" and hc: "hash_chains {} s"
    and co: "coherent s" and nn: "\<forall>i<NR_BUFS. 0 \<le> b_count (bufs s i)" by (auto simp: cache_ok_def linked_def)
  note bp = cached_SomeD [OF c]
  define s1 where "s1 = (if b_count (bufs s bp) = 0 then rm_lru bp s else s)"
  define s2 where "s2 = upd_buf bp (\<lambda>b. b\<lparr>b_count := schar (b_count b + 1)\<rparr>) s1"
  have "get_block dev block m s = Some (bp, s2)"
    using hash_lookup_cached [OF hc co d, of block] c d
    by (simp add: get_block_def Let_def s1_def [symmetric] s2_def [symmetric])
  moreover have st: "same_store s s2" by (simp add: s2_def s1_def upd_buf_def same_store_def frame_simps)
  moreover have "cache_frame s s2" by (simp add: s2_def s1_def)
  moreover have c2: "b_count (bufs s2 i) = (if i = bp then b_count (bufs s i) + 1 else b_count (bufs s i))" for i
    using nn bp cnt by (simp add: s2_def s1_def upd_buf_def frame_simps)
  moreover have "linked {} s2"
  proof -
    have f2: "free_bufs s2 = free_bufs s - {bp}" using c2 nn bp by (auto simp: free_bufs_def split: if_splits)
    have "\<exists>ys. lru_chain s2 ys \<and> set ys = free_bufs s - {bp}"
    proof (cases "b_count (bufs s bp) = 0")
      case True
      then have "bp \<in> set xs" using xs(2) bp by (simp add: free_bufs_def)
      then obtain us vs where sp: "xs = us @ bp # vs" by (meson split_list)
      then have "lru_chain s1 (us @ vs)" using rm_lru_chain xs(1) True by (simp add: s1_def)
      then have "lru_chain s2 (us @ vs)" by (subst lru_chain_cong [of s2 s1]) (simp_all add: s2_def upd_buf_def)
      moreover have "set (us @ vs) = set xs - {bp}"
        using chain_distinct [of "nxt s" "front s" xs] xs(1) sp by (auto simp: lru_chain_def)
      ultimately show ?thesis using xs(2) by metis
    next
      case False
      then have "bp \<notin> free_bufs s" by (simp add: free_bufs_def)
      moreover have "lru_chain s2 xs" using xs(1) False
        by (subst lru_chain_cong [of s2 s]) (simp_all add: s2_def s1_def upd_buf_def)
      ultimately show ?thesis using xs(2) by (intro exI [of _ xs]) auto
    qed
    moreover have "hash_chains {} s2" using hc
      by (subst hash_chains_cong [of s2 s]) (simp_all add: s2_def s1_def upd_buf_def frame_simps)
    ultimately show ?thesis using f2 by (auto simp: linked_def)
  qed
  moreover have "coherent s2" using same_store_contents(2) [OF st] co by simp
  moreover have "\<forall>i<NR_BUFS. 0 \<le> b_count (bufs s2 i)" using c2 nn by simp
  ultimately show ?thesis by (auto simp: cache_ok_def)
qed

text \<open>The empty cache after initialisation.\<close>

lemma chain_up:
  assumes "\<And>i. i < n \<Longrightarrow> nx i = (if i = n - 1 then None else Some (i + 1))" "k \<le> n"
  shows "chain nx (if k < n then Some k else None) [k..<n]"
  using assms(2)
proof (induction rule: inc_induct)
  case (step j)
  then have "[j..<n] = j # [Suc j..<n]" by (simp add: upt_conv_Cons)
  with step assms(1) [of j] show ?case by (auto split: if_splits)
qed simp

lemma chain_down:
  assumes "\<And>i. i < n \<Longrightarrow> nx i = (if i = 0 then None else Some (i - 1))"
  shows "chain nx (if n = 0 then None else Some (n - 1)) (rev [0..<n])"
  using assms
proof (induction n)
  case (Suc n)
  then have "chain nx (if n = 0 then None else Some (n - 1)) (rev [0..<n])" by simp
  with Suc.prems [of n] show ?case by simp
qed simp

lemma buf_pool_cache:
  assumes "\<forall>i<NR_BUFS. b_count (bufs s i) = 0" "\<forall>h. buf_hash s h = None"
  shows "cache_ok (buf_pool s)" "d \<noteq> NO_DEV \<Longrightarrow> cached (buf_pool s) d k = None"
    "disk (buf_pool s) = disk s" "super_blocks (buf_pool s) = super_blocks s" "io_ans (buf_pool s) = io_ans s"
    "front (buf_pool s) = Some 0" "\<forall>i<NR_BUFS. b_count (bufs (buf_pool s) i) = 0"
proof -
  let ?s = "buf_pool s"
  have sel: "b_next (bufs ?s i) = (if i = NR_BUFS - 1 then None else Some (i + 1))"
    "b_hash (bufs ?s i) = (if i = NR_BUFS - 1 then None else Some (i + 1))"
    "b_prev (bufs ?s i) = (if i = 0 then None else Some (i - 1))"
    "b_blocknr (bufs ?s i) = NO_BLOCK" "b_dev (bufs ?s i) = NO_DEV"
    "b_count (bufs ?s i) = b_count (bufs s i)" if "i < NR_BUFS" for i
    using that by (simp_all add: buf_pool_def Let_def)
  have pos: "0 < NR_BUFS" by (simp add: NR_BUFS_def)
  have glob: "front ?s = Some 0" "rear ?s = Some (NR_BUFS - 1)" "buf_hash ?s = (\<lambda>h. if h = 0 then Some 0 else None)"
    using assms(2) by (simp_all add: buf_pool_def Let_def fun_eq_iff)
  have "lru_chain ?s [0..<NR_BUFS]"
    using chain_up [of NR_BUFS "nxt ?s" 0] chain_down [of NR_BUFS "prv ?s"] sel glob pos
    by (simp add: lru_chain_def nxt_def prv_def)
  moreover have "free_bufs ?s = {i. i < NR_BUFS}" using sel assms(1) by (auto simp: free_bufs_def)
  moreover have "hash_chains {} ?s"
    unfolding hash_chains_def
  proof (intro allI impI)
    fix h
    have z: "hash_nr NO_BLOCK = 0" by (simp add: hash_nr_def)
    show "\<exists>ys. chain (hsh ?s) (buf_hash ?s h) ys \<and>
      set ys = {i. i < NR_BUFS \<and> i \<notin> {} \<and> hash_nr (b_blocknr (bufs ?s i)) = h}"
    proof (cases "h = 0")
      case True
      with chain_up [of NR_BUFS "hsh ?s" 0] sel glob pos z show ?thesis
        by (intro exI [of _ "[0..<NR_BUFS]"]) (auto simp: hsh_def)
    next
      case False
      with sel glob z show ?thesis by (intro exI [of _ "[]"]) auto
    qed
  qed
  moreover have "coherent ?s" using sel by (intro coherentI) simp_all
  ultimately show "cache_ok ?s" using sel assms(1)
    by (auto simp: cache_ok_def linked_def intro!: exI [of _ "[0..<NR_BUFS]"])
  show "d \<noteq> NO_DEV \<Longrightarrow> cached ?s d k = None" using sel by (auto simp: cached_None_iff)
  show "disk ?s = disk s" "super_blocks ?s = super_blocks s" "io_ans ?s = io_ans s" "front ?s = Some 0"
    "\<forall>i<NR_BUFS. b_count (bufs ?s i) = 0"
    using sel assms(1) by (simp_all add: buf_pool_def Let_def)
qed


subsection \<open>The cache is transparent\<close>

lemma get_block_spec:
  assumes ok: "cache_ok s" and io: "io_works s" and d: "dev \<noteq> NO_DEV" and f: "fits s dev block"
    and fr: "front s \<noteq> None \<or> cached s dev block \<noteq> None"
    and cnt: "\<forall>i<NR_BUFS. b_count (bufs s i) < 127"
  shows "\<exists>bp s'. get_block dev block NORMAL s = Some (bp, s') \<and> cache_ok s' \<and> same_contents s s' \<and>
    bp < NR_BUFS \<and> b_dev (bufs s' bp) = dev \<and> b_blocknr (bufs s' bp) = block \<and>
    (\<forall>off<bsz s dev. b_data (bufs s' bp) off = contents s dev block off) \<and>
    b_count (bufs s' bp) = b_count (bufs s bp) + 1 \<and> kept_bufs bp s s' \<and> cache_frame s s' \<and>
    (0 < b_count (bufs s bp) \<longrightarrow> b_dev (bufs s bp) = dev \<and> b_blocknr (bufs s bp) = block)"
proof (cases "cached s dev block")
  case (Some bp)
  note bp = cached_SomeD [OF Some]
  from get_cached_spec [OF ok d Some] cnt bp obtain s' where s': "get_block dev block NORMAL s = Some (bp, s')"
    "cache_ok s'" "same_store s s'" "cache_frame s s'"
    "\<forall>i. b_count (bufs s' i) = (if i = bp then b_count (bufs s i) + 1 else b_count (bufs s i))" by blast
  moreover have "same_contents s s'" using s'(3) by (rule same_store_same_contents)
  moreover have "contents s dev block off = b_data (bufs s bp) off" for off using Some by (simp add: contents_def)
  ultimately show ?thesis using bp by (intro exI [of _ bp] exI [of _ s']) (auto simp: same_store_def kept_bufs_def)
next
  case None
  with fr obtain bp where fb: "front s = Some bp" by auto
  from new_block_spec [OF ok io fb, of dev block NORMAL] None f obtain s' where
    s': "new_block dev block NORMAL s = Some (bp, s')" "cache_ok s'" "same_contents s s'" "bp < NR_BUFS"
      "b_count (bufs s bp) = 0" "b_count (bufs s' bp) = 1" "b_blocknr (bufs s' bp) = block"
      "b_dev (bufs s' bp) = dev" "kept_bufs bp s s'" "cache_frame s s'" by auto
  have "hash_chains {} s" "coherent s" "coherent s'" using ok s'(2) by (simp_all add: cache_ok_def linked_def)
  with hash_lookup_cached [of s dev block] None d s'(1) have "get_block dev block NORMAL s = Some (bp, s')"
    by (simp add: get_block_def)
  moreover have "b_data (bufs s' bp) off = contents s dev block off" if "off < bsz s dev" for off
  proof -
    have "b_data (bufs s' bp) off = contents s' dev block off"
      using contents_cached [OF \<open>coherent s'\<close> s'(4), of off] s'(7,8) d by simp
    with s'(3) d f that show ?thesis by (simp add: same_contents_def)
  qed
  ultimately show ?thesis using s' by (intro exI [of _ bp] exI [of _ s']) simp
qed

text \<open>
  C2. The cache is transparent. Getting a block of a device, in a well-formed cache with an unused
  buffer, returns a buffer that holds the current contents of the block; the invariant of the cache
  still holds; and the contents of every block of every device are what they were, whatever had to be
  evicted and written back. The buffers of other blocks keep their place, data and use counts.
\<close>

theorem get_block_transparent:
  assumes ok: "cache_ok s" and io: "io_works s" and d: "dev \<noteq> NO_DEV" and f: "fits s dev block"
    and fr: "front s \<noteq> None \<or> cached s dev block \<noteq> None"
    and cnt: "\<forall>i<NR_BUFS. b_count (bufs s i) < 127"
  shows "\<exists>bp s'. get_block dev block NORMAL s = Some (bp, s') \<and> cache_ok s' \<and> same_contents s s' \<and>
    bp < NR_BUFS \<and> b_dev (bufs s' bp) = dev \<and> b_blocknr (bufs s' bp) = block \<and>
    (\<forall>off<bsz s dev. b_data (bufs s' bp) off = contents s dev block off) \<and>
    b_count (bufs s' bp) = b_count (bufs s bp) + 1 \<and> kept_bufs bp s s' \<and> cache_frame s s'"
  using get_block_spec [OF assms] by blast

text \<open>A cache of an empty disk, for the witnesses.\<close>

definition demo_msg :: message where
  "demo_msg = \<lparr>m_source = 0, m_type = 0, m_w0 = 0, m_w1 = 0, m_w2 = 0, m_w3 = 0, m_w4 = 0, m_w5 = 0, m_w6 = 0\<rparr>"

definition demo_fs :: fsstate where
  "demo_fs = fs_zero demo_msg (\<lambda>d a. ucast a)"

lemma demo_fs_cache:
  "cache_ok (buf_pool demo_fs)" "io_works (buf_pool demo_fs)" "front (buf_pool demo_fs) = Some 0"
  "\<forall>i<NR_BUFS. b_count (bufs (buf_pool demo_fs) i) = 0" "bsz (buf_pool demo_fs) 5 = 1024"
  "d \<noteq> NO_DEV \<Longrightarrow> cached (buf_pool demo_fs) d k = None" "disk (buf_pool demo_fs) = (\<lambda>d a. ucast a)"
proof -
  have z: "\<forall>i<NR_BUFS. b_count (bufs demo_fs i) = 0" "\<forall>h. buf_hash demo_fs h = None"
    by (simp_all add: demo_fs_def fs_zero_def zero_buf_def)
  note p = buf_pool_cache [OF z]
  show "cache_ok (buf_pool demo_fs)" "front (buf_pool demo_fs) = Some 0"
    "\<forall>i<NR_BUFS. b_count (bufs (buf_pool demo_fs) i) = 0" using p by simp_all
  show "io_works (buf_pool demo_fs)" using p(5) by (simp add: io_works_def demo_fs_def fs_zero_def)
  show "d \<noteq> NO_DEV \<Longrightarrow> cached (buf_pool demo_fs) d k = None" by (rule p(2))
  show "disk (buf_pool demo_fs) = (\<lambda>d a. ucast a)" using p(3) by (simp add: demo_fs_def fs_zero_def)
  have "super_blocks (buf_pool demo_fs) = (\<lambda>_. zero_super)" using p(4) by (simp add: demo_fs_def fs_zero_def)
  moreover have "find_super 5 is s = None" if "super_blocks s = (\<lambda>_. zero_super)" for "is" s
    using that by (induction "is") (simp_all add: zero_super_def)
  ultimately show "bsz (buf_pool demo_fs) 5 = 1024" by (simp add: bsz_def get_block_size_def)
qed

theorem get_block_transparent_witness:
  "\<exists>bp s'. get_block 5 7 NORMAL (buf_pool demo_fs) = Some (bp, s') \<and> cache_ok s' \<and> b_data (bufs s' bp) 3 = 3"
proof -
  have "fits (buf_pool demo_fs) 5 7" using demo_fs_cache(5) by (simp add: fits_def)
  from get_block_transparent [of "buf_pool demo_fs" 5 7] this demo_fs_cache obtain bp s' where
    "get_block 5 7 NORMAL (buf_pool demo_fs) = Some (bp, s')" "cache_ok s'"
    "b_data (bufs s' bp) 3 = contents (buf_pool demo_fs) 5 7 3" by auto
  moreover have "contents (buf_pool demo_fs) 5 7 3 = 3"
    using demo_fs_cache(5,6,7) by (simp add: contents_def byte_pos_def)
  ultimately show ?thesis by auto
qed


subsection \<open>Releasing a block\<close>

lemma rw_block_writes:
  assumes "io_works s" "b_dev (bufs s bp) = dev" "dev \<noteq> NO_DEV"
  shows "rw_block bp WRITING s = Some (s\<lparr>bufs := clean_bufs (set [bp]) (bufs s),
    disk := written dev (bsz s dev) (bufs s) [bp] (disk s), io_cnt := io_cnt s + 1\<rparr>)"
proof -
  let ?t = "s\<lparr>io_cnt := io_cnt s + 1\<rparr>"
  let ?D = "written dev (bsz s dev) (bufs s) [bp] (disk s)"
  have "rw_block bp WRITING s = Some (upd_buf bp (\<lambda>b. b\<lparr>b_dirt := False\<rparr>)
      (disk_write dev (b_blocknr (bufs s bp) * of_nat (bsz s dev)) (bsz s dev) (b_data (bufs s bp)) ?t))"
    using assms by (simp add: rw_block_def get_block_size_bsz io_works_def moved_def Let_def)
  also have "disk_write dev (b_blocknr (bufs s bp) * of_nat (bsz s dev)) (bsz s dev) (b_data (bufs s bp)) ?t =
      ?t\<lparr>disk := ?D\<rparr>"
    by (simp add: disk_write_def Let_def cong: if_cong)
  also have "upd_buf bp (\<lambda>b. b\<lparr>b_dirt := False\<rparr>) (?t\<lparr>disk := ?D\<rparr>) =
      s\<lparr>bufs := clean_bufs (set [bp]) (bufs s), disk := ?D, io_cnt := io_cnt s + 1\<rparr>"
  proof -
    have "(bufs s)(bp := (bufs s bp)\<lparr>b_dirt := False\<rparr>) = clean_bufs (set [bp]) (bufs s)"
      by (auto simp: clean_bufs_def)
    then show ?thesis by (cases s) (simp add: upd_buf_def)
  qed
  finally show ?thesis .
qed

lemma put_block_spec:
  assumes ok: "cache_ok s" and io: "io_works s" and bp: "bp < NR_BUFS"
    and cnt: "0 < b_count (bufs s bp)" "b_count (bufs s bp) \<le> 127"
  shows "\<exists>s'. put_block (Some bp) t s = Some s' \<and> cache_ok s' \<and> same_contents s s' \<and> kept_bufs bp s s' \<and>
    b_count (bufs s' bp) = b_count (bufs s bp) - 1 \<and> cache_frame s s' \<and>
    b_dev (bufs s' bp) = b_dev (bufs s bp) \<and> b_blocknr (bufs s' bp) = b_blocknr (bufs s bp)"
proof -
  from ok obtain xs where xs: "lru_chain s xs" "set xs = free_bufs s" and hc: "hash_chains {} s"
    and co: "coherent s" and nn: "\<forall>i<NR_BUFS. 0 \<le> b_count (bufs s i)" by (auto simp: cache_ok_def linked_def)
  let ?s1 = "upd_buf bp (\<lambda>b. b\<lparr>b_count := schar (b_count b - 1)\<rparr>) s"
  have s1: "b_count (bufs ?s1 i) = (if i = bp then b_count (bufs s i) - 1 else b_count (bufs s i))" for i
    using cnt by (simp add: upd_buf_def)
  have st1: "same_store s ?s1" by (simp add: same_store_def upd_buf_def)
  have l1: "lru_chain ?s1 xs" using xs(1) by (subst lru_chain_cong [of ?s1 s]) (simp_all add: upd_buf_def)
  have h1: "hash_chains {} ?s1" using hc by (subst hash_chains_cong [of ?s1 s]) (simp_all add: upd_buf_def)
  have bx: "bp \<notin> set xs" using xs(2) cnt by (simp add: free_bufs_def)
  show ?thesis
  proof (cases "b_count (bufs ?s1 bp) = 0")
    case False
    then have "free_bufs ?s1 = free_bufs s" using s1 cnt by (auto simp: free_bufs_def split: if_splits)
    then have "linked {} ?s1" using l1 h1 xs(2) by (auto simp: linked_def)
    moreover have "coherent ?s1" using same_store_contents(2) [OF st1] co by simp
    moreover have "put_block (Some bp) t s = Some ?s1" using False by (simp add: put_block_def Let_def)
    ultimately show ?thesis
      using s1 nn cnt st1 same_store_same_contents [OF st1]
      by (intro exI [of _ ?s1]) (auto simp: cache_ok_def kept_bufs_def same_store_def)
  next
    case True
    define w where "w \<longleftrightarrow> b_dev (bufs ?s1 bp) = DEV_RAM \<or> t AND ONE_SHOT \<noteq> 0"
    define s2 where "s2 = ?s1\<lparr>bufs_in_use := bufs_in_use ?s1 - 1\<rparr>"
    define s3 where "s3 = lru_add w bp s2"
    have w2: "b_dev (bufs s2 bp) = DEV_RAM \<or> t AND ONE_SHOT \<noteq> 0 \<longleftrightarrow> w" by (simp add: w_def s2_def)
    have put: "put_block (Some bp) t s =
        (if t AND WRITE_IMMED \<noteq> 0 \<and> b_dirt (bufs s3 bp) \<and> b_dev (bufs s3 bp) \<noteq> NO_DEV
         then rw_block bp WRITING s3 else Some s3)"
      unfolding s3_def lru_add_def w2 [symmetric]
      using True by (simp add: put_block_def s2_def [symmetric] Let_def)
    have "same_store ?s1 s3" by (simp add: s3_def s2_def same_store_def frame_simps)
    with st1 have st3: "same_store s s3" by (rule same_store_trans)
    have c3: "b_count (bufs s3 i) = b_count (bufs ?s1 i)" for i by (simp add: s3_def s2_def frame_simps)
    have "lru_chain s2 xs" using l1 by (subst lru_chain_cong [of s2 ?s1]) (simp_all add: s2_def)
    from lru_add_chain [OF this bx, of w]
    have l3: "lru_chain s3 (if w then bp # xs else xs @ [bp])" by (simp add: s3_def)
    have h3: "hash_chains {} s3" using h1
      by (subst hash_chains_cong [of s3 ?s1]) (simp_all add: s3_def s2_def frame_simps)
    have "free_bufs s3 = insert bp (free_bufs s)" using c3 s1 True bp by (auto simp: free_bufs_def split: if_splits)
    then have lk3: "linked {} s3" using l3 h3 xs(2) by (auto simp: linked_def intro!: exI [of _ "if w then bp # xs else xs @ [bp]"] split: if_splits)
    have fr3: "cache_frame s s3" by (simp add: s3_def s2_def)
    have co3: "coherent s3" and io3: "io_works s3" using same_store_contents [OF st3] co io by simp_all
    have sc3: "same_contents s s3" by (rule same_store_same_contents [OF st3])
    have nn3: "\<forall>i<NR_BUFS. 0 \<le> b_count (bufs s3 i)" using c3 s1 nn cnt by simp
    show ?thesis
    proof (cases "t AND WRITE_IMMED \<noteq> 0 \<and> b_dirt (bufs s3 bp) \<and> b_dev (bufs s3 bp) \<noteq> NO_DEV")
      case False
      have "put_block (Some bp) t s = Some s3" using put by (simp only: if_not_P [OF False])
      with lk3 co3 nn3 sc3 st3 c3 s1 fr3 show ?thesis
        by (intro exI [of _ s3]) (simp add: cache_ok_def kept_bufs_def same_store_def)
    next
      case True
      let ?d = "b_dev (bufs s3 bp)"
      define s4 where "s4 = s3\<lparr>bufs := clean_bufs (set [bp]) (bufs s3),
        disk := written ?d (bsz s3 ?d) (bufs s3) [bp] (disk s3), io_cnt := io_cnt s3 + 1\<rparr>"
      have "put_block (Some bp) t s = Some s4"
        unfolding put if_P [OF True] s4_def using True by (intro rw_block_writes [OF io3 refl]) blast
      moreover have "coherent s4" "same_contents s3 s4"
      proof -
        have "?d \<noteq> NO_DEV" "\<forall>i\<in>set [bp]. i < NR_BUFS \<and> b_dev (bufs s3 i) = ?d" using True bp by simp_all
        from write_back [OF co3 this, of "io_cnt s3 + 1"]
        show "coherent s4" "same_contents s3 s4" unfolding s4_def by blast+
      qed
      moreover have "same_contents s s4"
        using sc3 calculation(3) st3 by (intro same_contents_trans [of s s3 s4]) (simp_all add: same_store_def)
      moreover have "linked {} s4"
      proof -
        have "lru_chain s4 ys \<longleftrightarrow> lru_chain s3 ys" for ys by (rule lru_chain_cong) (simp_all add: s4_def clean_bufs_def)
        moreover have "hash_chains {} s4 \<longleftrightarrow> hash_chains {} s3"
          by (rule hash_chains_cong) (simp_all add: s4_def clean_bufs_def)
        moreover have "free_bufs s4 = free_bufs s3" by (auto simp: s4_def clean_bufs_def free_bufs_def)
        ultimately show ?thesis using lk3 by (simp add: linked_def)
      qed
      moreover have "b_count (bufs s4 i) = b_count (bufs s3 i)" "kept_bufs bp s s4" for i
        using st3 c3 s1 by (simp_all add: s4_def clean_bufs_def kept_bufs_def same_store_def)
      moreover have "cache_frame s s4" using fr3 by (simp add: s4_def)
      moreover have "b_dev (bufs s4 bp) = b_dev (bufs s bp)" "b_blocknr (bufs s4 bp) = b_blocknr (bufs s bp)"
        using st3 by (simp_all add: s4_def clean_bufs_def same_store_def)
      ultimately show ?thesis using nn3 c3 s1 by (intro exI [of _ s4]) (simp add: cache_ok_def)
    qed
  qed
qed

text \<open>
  C14. Releasing a block keeps the invariant of the cache and the contents of all blocks, also when the
  block is written to the disk at once, and releases exactly one use of the buffer.
\<close>

theorem put_block_transparent:
  assumes "cache_ok s" "io_works s" "bp < NR_BUFS" "0 < b_count (bufs s bp)" "b_count (bufs s bp) \<le> 127"
  shows "\<exists>s'. put_block (Some bp) t s = Some s' \<and> cache_ok s' \<and> same_contents s s' \<and> kept_bufs bp s s' \<and>
    b_count (bufs s' bp) = b_count (bufs s bp) - 1 \<and> cache_frame s s'"
  using put_block_spec [OF assms] by blast

theorem put_block_transparent_witness:
  "\<exists>s1 s2. get_block 5 7 NORMAL (buf_pool demo_fs) = Some (0, s1) \<and> put_block (Some 0) 65 s1 = Some s2 \<and>
     cache_ok s2 \<and> same_contents s1 s2"
proof -
  have f: "fits (buf_pool demo_fs) 5 7" using demo_fs_cache(5) by (simp add: fits_def)
  have "cached (buf_pool demo_fs) 5 7 = None" by (rule demo_fs_cache(6)) simp
  with new_block_spec [OF demo_fs_cache(1,2,3), of 5 7 NORMAL] f obtain s1 where
    s1: "new_block 5 7 NORMAL (buf_pool demo_fs) = Some (0, s1)" "cache_ok s1" "b_count (bufs s1 0) = 1"
      "cache_frame (buf_pool demo_fs) s1" by auto
  have g: "get_block 5 7 NORMAL (buf_pool demo_fs) = Some (0, s1)"
    using hash_lookup_cached [of "buf_pool demo_fs" 5 7] \<open>cached _ 5 7 = None\<close> s1(1) demo_fs_cache(1)
    by (simp add: get_block_def cache_ok_def linked_def)
  have "io_works s1" by (rule io_works_frame [OF s1(4) demo_fs_cache(2)])
  with put_block_transparent [of s1 0 65] s1(2,3) g show ?thesis by (simp add: NR_BUFS_def) blast
qed


text \<open>
  C15. Flushing a device writes its dirty blocks to the disk, sorted and gathered into requests of up to
  64 blocks: afterwards no buffer of the device is dirty, the disk holds the contents of every cached
  block of the device, and no block of any device has changed its contents.
\<close>

theorem flushall_writes_back:
  assumes "cache_ok s" and "io_works s" and "dev \<noteq> NO_DEV"
  shows "\<exists>s'. flushall dev s = Some s' \<and> cache_ok s' \<and> same_contents s s' \<and>
    (\<forall>i<NR_BUFS. b_dev (bufs s' i) = dev \<longrightarrow> \<not> b_dirt (bufs s' i) \<and>
       (\<forall>off<bsz s dev. disk s' dev (byte_pos (bsz s dev) (b_blocknr (bufs s' i)) off) =
          contents s dev (b_blocknr (bufs s i)) off))"
proof -
  have co: "coherent s" and lk: "linked {} s" using assms(1) by (simp_all add: cache_ok_def)
  from flush_spec [OF co assms(2,3)] obtain s' D n where s': "flushall dev s = Some s'" "coherent s'" "same_contents s s'"
    and eq: "s' = s\<lparr>bufs := clean_bufs {i. i < NR_BUFS \<and> b_dirt (bufs s i) \<and> b_dev (bufs s i) = dev} (bufs s),
      disk := D, io_cnt := n\<rparr>" by blast
  have sel: "b_dev (bufs s' i) = b_dev (bufs s i)" "b_blocknr (bufs s' i) = b_blocknr (bufs s i)"
    "b_count (bufs s' i) = b_count (bufs s i)" for i by (simp_all add: eq clean_bufs_def)
  have bs: "bsz s' = bsz s" "fits s' = fits s" by (intro ext bsz_cong, simp add: eq, intro ext fits_cong, simp add: eq)
  have "linked {} s'"
  proof -
    have "lru_chain s' ys \<longleftrightarrow> lru_chain s ys" for ys by (rule lru_chain_cong) (simp_all add: eq clean_bufs_def)
    moreover have "hash_chains {} s' \<longleftrightarrow> hash_chains {} s" by (rule hash_chains_cong) (simp_all add: eq clean_bufs_def)
    moreover have "free_bufs s' = free_bufs s" by (simp add: free_bufs_def sel)
    ultimately show ?thesis using lk by (simp add: linked_def)
  qed
  moreover have "\<not> b_dirt (bufs s' i) \<and> (\<forall>off<bsz s dev.
      disk s' dev (byte_pos (bsz s dev) (b_blocknr (bufs s' i)) off) = contents s dev (b_blocknr (bufs s i)) off)"
    if i: "i < NR_BUFS" "b_dev (bufs s' i) = dev" for i
  proof -
    have nd: "\<not> b_dirt (bufs s' i)" using i by (auto simp: eq clean_bufs_def split: if_splits)
    have nz: "b_dev (bufs s' i) \<noteq> NO_DEV" using i assms(3) by simp
    have "disk s' dev (byte_pos (bsz s dev) (b_blocknr (bufs s' i)) off) = contents s dev (b_blocknr (bufs s i)) off"
      if off: "off < bsz s dev" for off
    proof -
      have "disk s' dev (byte_pos (bsz s dev) (b_blocknr (bufs s' i)) off) = contents s' dev (b_blocknr (bufs s i)) off"
        using coherent_clean [OF s'(2) i(1) nz nd, of off] contents_cached [OF s'(2) i(1) nz, of off] off i(2) bs sel by simp
      also have "\<dots> = contents s dev (b_blocknr (bufs s i)) off"
        using s'(3) assms(3) off coherent_fits [OF s'(2) i(1) nz] i(2) bs sel by (simp add: same_contents_def)
      finally show ?thesis .
    qed
    with nd show ?thesis by blast
  qed
  moreover have "\<forall>i<NR_BUFS. 0 \<le> b_count (bufs s' i)" using assms(1) by (simp add: sel cache_ok_def)
  ultimately show ?thesis using s' by (intro exI [of _ s']) (simp add: cache_ok_def)
qed

theorem flushall_writes_back_witness:
  "\<exists>s'. flushall 5 (buf_pool demo_fs) = Some s' \<and> cache_ok s'"
  using flushall_writes_back [OF demo_fs_cache(1,2), of 5] by auto

subsection \<open>The interface of the cache\<close>

text \<open>
  The rest of the file system gets a block, reads or changes the bytes in its buffer, and releases it.
  What it relies on are the laws below, in any state that is \<open>ready\<close>: well-formed, with an unused buffer.
\<close>

definition ready :: "fsstate \<Rightarrow> bool" where
  "ready s \<longleftrightarrow> cache_ok s \<and> io_works s \<and> (\<exists>i<NR_BUFS. b_count (bufs s i) = 0) \<and>
     (\<forall>i<NR_BUFS. b_count (bufs s i) < 127)"

text \<open>Storing into the buffer of a block; the code sets \<^verbatim>\<open>b_dirt\<close> to \<^verbatim>\<open>DIRTY\<close> with it.\<close>

definition set_data :: "nat \<Rightarrow> bytes \<Rightarrow> fsstate \<Rightarrow> fsstate" where
  "set_data bp d s = upd_buf bp (\<lambda>b. b\<lparr>b_data := d, b_dirt := True\<rparr>) s"

text \<open>The use counts stay, and a buffer that is in use stays with its block.\<close>

definition users_kept :: "fsstate \<Rightarrow> fsstate \<Rightarrow> bool" where
  "users_kept s s' \<longleftrightarrow> (\<forall>i<NR_BUFS. b_count (bufs s' i) = b_count (bufs s i) \<and>
     (0 < b_count (bufs s i) \<longrightarrow> b_dev (bufs s' i) = b_dev (bufs s i) \<and> b_blocknr (bufs s' i) = b_blocknr (bufs s i)))"

lemma users_kept_refl [simp]: "users_kept s s"
  by (simp add: users_kept_def)

lemma users_kept_trans [trans]: "users_kept s s1 \<Longrightarrow> users_kept s1 s2 \<Longrightarrow> users_kept s s2"
  by (simp add: users_kept_def)

definition block_set :: "int \<Rightarrow> u32 \<Rightarrow> bytes \<Rightarrow> fsstate \<Rightarrow> fsstate \<Rightarrow> bool" where
  "block_set dev block f s s' \<longleftrightarrow> cache_frame s s' \<and> users_kept s s' \<and>
     (\<forall>d k off. d \<noteq> NO_DEV \<longrightarrow> fits s d k \<longrightarrow> off < bsz s d \<longrightarrow>
        contents s' d k off = (if d = dev \<and> k = block then f off else contents s d k off))"

definition unchanged :: "fsstate \<Rightarrow> fsstate \<Rightarrow> bool" where
  "unchanged s s' \<longleftrightarrow> cache_frame s s' \<and> users_kept s s' \<and> same_contents s s'"

locale block_store =
  fixes get :: "int \<Rightarrow> u32 \<Rightarrow> fsstate \<Rightarrow> (nat \<times> fsstate) option"
    and put :: "nat \<Rightarrow> nat \<Rightarrow> fsstate \<Rightarrow> fsstate option"
    and lent :: "fsstate \<Rightarrow> int \<Rightarrow> u32 \<Rightarrow> nat \<Rightarrow> fsstate \<Rightarrow> bool"
  assumes get_law: "ready s \<Longrightarrow> d \<noteq> NO_DEV \<Longrightarrow> fits s d k \<Longrightarrow> \<exists>bp s1. get d k s = Some (bp, s1) \<and> lent s d k bp s1"
    and lent_law: "lent s d k bp s1 \<Longrightarrow> cache_frame s s1 \<and> same_contents s s1 \<and> (\<forall>off<bsz s d. b_data (bufs s1 bp) off = contents s d k off)"
    and put_law: "lent s d k bp s1 \<Longrightarrow> \<exists>s2. put t bp s1 = Some s2 \<and> ready s2 \<and> unchanged s s2"
    and store_law: "lent s d k bp s1 \<Longrightarrow> \<exists>s2. put t bp (set_data bp f s1) = Some s2 \<and> ready s2 \<and> block_set d k f s s2"
begin

text \<open>Reading a block, and changing it, as one step.\<close>

lemma peek:
  assumes "ready s" "d \<noteq> NO_DEV" "fits s d k"
  shows "\<exists>bp s1. get d k s = Some (bp, s1) \<and> cache_frame s s1 \<and> same_contents s s1 \<and>
    (\<forall>off<bsz s d. b_data (bufs s1 bp) off = contents s d k off) \<and>
    (\<forall>t. \<exists>s2. put t bp s1 = Some s2 \<and> ready s2 \<and> unchanged s s2) \<and>
    (\<forall>t f. \<exists>s2. put t bp (set_data bp f s1) = Some s2 \<and> ready s2 \<and> block_set d k f s s2)"
proof -
  from get_law [OF assms] obtain bp s1 where g: "get d k s = Some (bp, s1)" "lent s d k bp s1" by blast
  with lent_law [OF g(2)] put_law [OF g(2)] store_law [OF g(2)] show ?thesis by blast
qed

end

lemma set_data_ok:
  assumes ok: "cache_ok s" and bp: "bp < NR_BUFS" "b_dev (bufs s bp) = dev" "b_blocknr (bufs s bp) = block"
    and d: "dev \<noteq> NO_DEV"
  shows "cache_ok (set_data bp f s)" "block_set dev block f s (set_data bp f s)"
proof -
  let ?s = "set_data bp f s"
  have co: "coherent s" using ok by (simp add: cache_ok_def)
  have sel: "b_dev (bufs ?s i) = b_dev (bufs s i)" "b_blocknr (bufs ?s i) = b_blocknr (bufs s i)"
    "b_count (bufs ?s i) = b_count (bufs s i)"
    "b_data (bufs ?s i) = (if i = bp then f else b_data (bufs s i))"
    "b_dirt (bufs ?s i) \<longleftrightarrow> i = bp \<or> b_dirt (bufs s i)" for i by (simp_all add: set_data_def upd_buf_def)
  have b: "bsz ?s = bsz s" "fits ?s = fits s" "disk ?s = disk s"
    by (intro ext bsz_cong, simp add: set_data_def upd_buf_def, intro ext fits_cong,
        simp_all add: set_data_def upd_buf_def)
  have co': "coherent ?s"
  proof (rule coherentI)
    fix i j assume "i < NR_BUFS" "j < NR_BUFS" "b_dev (bufs ?s i) \<noteq> NO_DEV"
      "b_dev (bufs ?s j) = b_dev (bufs ?s i)" "b_blocknr (bufs ?s j) = b_blocknr (bufs ?s i)"
    then show "i = j" unfolding sel using coherent_uniq [OF co] by blast
  next
    fix i assume "i < NR_BUFS" "b_dev (bufs ?s i) \<noteq> NO_DEV"
    then show "fits ?s (b_dev (bufs ?s i)) (b_blocknr (bufs ?s i))" unfolding sel b using coherent_fits [OF co] by blast
  next
    fix i off assume "i < NR_BUFS" "b_dev (bufs ?s i) \<noteq> NO_DEV" "\<not> b_dirt (bufs ?s i)" "off < bsz ?s (b_dev (bufs ?s i))"
    then show "b_data (bufs ?s i) off = disk ?s (b_dev (bufs ?s i))
        (byte_pos (bsz ?s (b_dev (bufs ?s i))) (b_blocknr (bufs ?s i)) off)"
      using coherent_clean [OF co, of i off] unfolding sel b by simp
  qed
  have "linked {} ?s"
  proof -
    have "lru_chain ?s ys \<longleftrightarrow> lru_chain s ys" for ys by (rule lru_chain_cong) (simp_all add: set_data_def upd_buf_def)
    moreover have "hash_chains {} ?s \<longleftrightarrow> hash_chains {} s" by (rule hash_chains_cong) (simp_all add: set_data_def upd_buf_def)
    moreover have "free_bufs ?s = free_bufs s" by (simp add: free_bufs_def sel)
    ultimately show ?thesis using ok by (simp add: linked_def cache_ok_def)
  qed
  with co' ok show "cache_ok ?s" by (simp add: cache_ok_def sel)
  have c: "cached ?s = cached s" by (simp add: cached_def sel fun_eq_iff)
  have this': "cached s d k = Some bp \<longleftrightarrow> d = dev \<and> k = block" if "d \<noteq> NO_DEV" for d k
    using cached_eq [OF co bp(1)] bp(2,3) d cached_SomeD [of s d k bp] by auto
  show "block_set dev block f s ?s"
    unfolding block_set_def
  proof (intro conjI allI impI)
    show "cache_frame s ?s" by (simp add: set_data_def)
    show "users_kept s ?s" by (simp add: users_kept_def sel)
    fix d' k off assume "d' \<noteq> NO_DEV"
    with this' [of d' k] show "contents ?s d' k off = (if d' = dev \<and> k = block then f off else contents s d' k off)"
      by (auto simp: contents_def c b sel split: option.split)
  qed
qed

definition loan :: "fsstate \<Rightarrow> int \<Rightarrow> u32 \<Rightarrow> nat \<Rightarrow> fsstate \<Rightarrow> bool" where
  "loan s d k bp s1 \<longleftrightarrow> ready s \<and> d \<noteq> NO_DEV \<and> fits s d k \<and> get_block d k NORMAL s = Some (bp, s1)"

lemma ready_front: "ready s \<Longrightarrow> front s \<noteq> None"
proof
  assume r: "ready s" and f: "front s = None"
  from r obtain xs where "lru_chain s xs" "set xs = free_bufs s" by (auto simp: ready_def cache_ok_def linked_def)
  moreover from this(1) f have "xs = []" by (simp add: lru_chain_def)
  moreover from r have "free_bufs s \<noteq> {}" by (auto simp: ready_def free_bufs_def)
  ultimately show False by simp
qed

text \<open>One use of the buffer \<open>bp\<close> more.\<close>

definition in_use :: "nat \<Rightarrow> fsstate \<Rightarrow> fsstate \<Rightarrow> bool" where
  "in_use bp s t \<longleftrightarrow> (\<forall>i<NR_BUFS. b_count (bufs t i) = b_count (bufs s i) + (if i = bp then 1 else 0) \<and>
     (0 < b_count (bufs s i) \<longrightarrow> b_dev (bufs t i) = b_dev (bufs s i) \<and> b_blocknr (bufs t i) = b_blocknr (bufs s i)))"

lemma get_block_loan:
  assumes "loan s d k bp s1"
  shows "cache_ok s1" "io_works s1" "cache_frame s s1" "same_contents s s1" "bp < NR_BUFS" "b_dev (bufs s1 bp) = d"
    "b_blocknr (bufs s1 bp) = k" "\<forall>off<bsz s d. b_data (bufs s1 bp) off = contents s d k off"
    "in_use bp s s1"
proof -
  from assms have r: "ready s" "d \<noteq> NO_DEV" "fits s d k" "get_block d k NORMAL s = Some (bp, s1)" by (simp_all add: loan_def)
  from r(1) have "cache_ok s" and io: "io_works s" and "\<forall>i<NR_BUFS. b_count (bufs s i) < 127" by (simp_all add: ready_def)
  from get_block_spec [OF this(1,2) r(2,3) _ this(3)] ready_front [OF r(1)] r(4) have
    g: "cache_ok s1" "same_contents s s1" "bp < NR_BUFS" "b_dev (bufs s1 bp) = d" "b_blocknr (bufs s1 bp) = k"
    "\<forall>off<bsz s d. b_data (bufs s1 bp) off = contents s d k off"
    "b_count (bufs s1 bp) = b_count (bufs s bp) + 1" "kept_bufs bp s s1" "cache_frame s s1"
    "0 < b_count (bufs s bp) \<longrightarrow> b_dev (bufs s bp) = d \<and> b_blocknr (bufs s bp) = k" by auto
  then show "cache_ok s1" "cache_frame s s1" "same_contents s s1" "bp < NR_BUFS" "b_dev (bufs s1 bp) = d"
    "b_blocknr (bufs s1 bp) = k" "\<forall>off<bsz s d. b_data (bufs s1 bp) off = contents s d k off"
    by simp_all
  from g show "in_use bp s s1" by (auto simp: in_use_def kept_bufs_def)
  show "io_works s1" by (rule io_works_frame [OF g(9) io])
qed

text \<open>Releasing a buffer that is in use returns it to the state before it was taken.\<close>

lemma put_in_use:
  assumes u: "in_use bp s t" and r: "ready s" and ok: "cache_ok t" and io: "io_works t" and bp: "bp < NR_BUFS"
  shows "\<exists>s2. put_block (Some bp) ty t = Some s2 \<and> ready s2 \<and> same_contents t s2 \<and> cache_frame t s2 \<and> users_kept s s2"
proof -
  have "0 \<le> b_count (bufs s bp)" "b_count (bufs s bp) < 127" using r bp by (simp_all add: ready_def cache_ok_def)
  then have "0 < b_count (bufs t bp)" "b_count (bufs t bp) \<le> 127" using u bp by (simp_all add: in_use_def)
  from put_block_spec [OF ok io bp this, of ty] obtain s2 where
    s2: "put_block (Some bp) ty t = Some s2" "cache_ok s2" "same_contents t s2" "kept_bufs bp t s2"
      "b_count (bufs s2 bp) = b_count (bufs t bp) - 1" "cache_frame t s2"
      "b_dev (bufs s2 bp) = b_dev (bufs t bp)" "b_blocknr (bufs s2 bp) = b_blocknr (bufs t bp)" by blast
  have k: "users_kept s s2"
    unfolding users_kept_def
  proof (intro allI impI)
    fix i assume "i < NR_BUFS"
    with u s2(4,5,7,8) show "b_count (bufs s2 i) = b_count (bufs s i) \<and>
       (0 < b_count (bufs s i) \<longrightarrow> b_dev (bufs s2 i) = b_dev (bufs s i) \<and> b_blocknr (bufs s2 i) = b_blocknr (bufs s i))"
      by (cases "i = bp") (simp_all add: in_use_def kept_bufs_def)
  qed
  then have "ready s2" using r s2(2) io_works_frame [OF s2(6) io] unfolding ready_def users_kept_def by auto
  with s2 k show ?thesis by blast
qed

interpretation bc: block_store "\<lambda>d k. get_block d k NORMAL" "\<lambda>t bp. put_block (Some bp) t" loan
proof
  fix s d k assume r: "ready s" "d \<noteq> NO_DEV" "fits s d k"
  then have "cache_ok s" "io_works s" "\<forall>i<NR_BUFS. b_count (bufs s i) < 127" by (simp_all add: ready_def)
  from get_block_spec [OF this(1,2) r(2,3) _ this(3)] ready_front [OF r(1)] obtain bp s1 where
    "get_block d k NORMAL s = Some (bp, s1)" by blast
  with r show "\<exists>bp s1. get_block d k NORMAL s = Some (bp, s1) \<and> loan s d k bp s1" by (auto simp: loan_def)
next
  fix s d k bp s1 assume l: "loan s d k bp s1"
  then show "cache_frame s s1 \<and> same_contents s s1 \<and> (\<forall>off<bsz s d. b_data (bufs s1 bp) off = contents s d k off)"
    using get_block_loan(3,4,8) [OF l] by blast
next
  fix s d k bp s1 t assume l: "loan s d k bp s1"
  note g = get_block_loan [OF l]
  from l have r: "ready s" by (simp add: loan_def)
  from put_in_use [OF g(9) r g(1,2,5), of t] obtain s2 where
    "put_block (Some bp) t s1 = Some s2" "ready s2" "same_contents s1 s2" "cache_frame s1 s2" "users_kept s s2" by blast
  moreover have "same_contents s s2"
    using g(4) calculation(3) cache_frame_sel(1) [OF g(3)] by (auto intro: same_contents_trans)
  ultimately show "\<exists>s2. put_block (Some bp) t s1 = Some s2 \<and> ready s2 \<and> unchanged s s2"
    using g(3) by (auto simp: unchanged_def intro: cache_frame_trans)
next
  fix s d k bp s1 t f assume l: "loan s d k bp s1"
  note g = get_block_loan [OF l]
  from l have r: "ready s" and d: "d \<noteq> NO_DEV" by (simp_all add: loan_def)
  note w = set_data_ok [OF g(1,5,6,7) d, of f]
  have "in_use bp s (set_data bp f s1)" using g(9) by (simp add: in_use_def set_data_def upd_buf_def)
  moreover have "io_works (set_data bp f s1)" by (rule io_works_frame [OF _ g(2)]) (simp add: set_data_def)
  ultimately obtain s2 where s2: "put_block (Some bp) t (set_data bp f s1) = Some s2" "ready s2"
    "same_contents (set_data bp f s1) s2" "cache_frame (set_data bp f s1) s2" "users_kept s s2"
    using put_in_use [OF _ r w(1) _ g(5), of t] by blast
  have fr: "cache_frame s1 (set_data bp f s1)" by (simp add: set_data_def)
  have sup: "super_blocks s1 = super_blocks s" "super_blocks (set_data bp f s1) = super_blocks s"
    using cache_frame_sel(1) [OF g(3)] by (simp_all add: set_data_def upd_buf_def)
  have e: "bsz s1 = bsz s" "fits s1 = fits s" "bsz (set_data bp f s1) = bsz s" "fits (set_data bp f s1) = fits s"
    by (intro ext bsz_cong fits_cong sup)+
  have "block_set d k f s s2"
    unfolding block_set_def
  proof (intro conjI allI impI)
    from g(3) fr s2(4) show "cache_frame s s2" by (blast intro: cache_frame_trans)
    show "users_kept s s2" by fact
    fix d' k' off assume a: "d' \<noteq> NO_DEV" "fits s d' k'" "off < bsz s d'"
    have "contents s2 d' k' off = contents (set_data bp f s1) d' k' off"
      using s2(3) a e by (simp add: same_contents_def)
    also have "\<dots> = (if d' = d \<and> k' = k then f off else contents s1 d' k' off)"
      using w(2) a e by (simp add: block_set_def)
    also have "contents s1 d' k' off = contents s d' k' off"
      using g(4) a by (simp add: same_contents_def)
    finally show "contents s2 d' k' off = (if d' = d \<and> k' = k then f off else contents s d' k' off)" .
  qed
  with s2 show "\<exists>s2. put_block (Some bp) t (set_data bp f s1) = Some s2 \<and> ready s2 \<and> block_set d k f s s2" by blast
qed

end
