(* ===== verification/FS_Super.thy ===== *)
theory FS_Super
  imports FS_Buffers
begin

text \<open>
  Super blocks and bit maps, \<^verbatim>\<open>servers/fs/super.c\<close>, with \<^verbatim>\<open>conv2\<close> and \<^verbatim>\<open>conv4\<close> of
  \<^verbatim>\<open>utility.c\<close> and \<^verbatim>\<open>alloc_zone\<close> and \<^verbatim>\<open>free_zone\<close> of \<^verbatim>\<open>cache.c\<close>.

  Shown here, over the interface of the block cache (locale \<open>block_store\<close>): a bit map on the disk is
  a set of numbers; \<open>alloc_bit\<close> finds a free number whenever there is one below the end of the map, adds
  exactly this number and returns it; \<open>free_bit\<close> removes exactly the given number; freeing what was
  allocated restores the map. A super block that \<open>read_super\<close> accepts has a sane geometry.
\<close>

subsection \<open>Model: byte order\<close>

definition conv2 :: "bool \<Rightarrow> u32 \<Rightarrow> u32" where
  "conv2 norm w = (if norm then w AND 0xFFFF
     else push_bit 8 (w AND 0xFF) OR (drop_bit 8 w AND 0xFF))"

definition conv4 :: "bool \<Rightarrow> u32 \<Rightarrow> u32" where
  "conv4 norm x = (if norm then x
     else push_bit 16 (conv2 False (x AND 0xFFFF)) OR conv2 False (drop_bit 16 x AND 0xFFFF))"

subsection \<open>Model: bit maps\<close>

datatype map_kind = IMAP | ZMAP

abbreviation (input) START_BLOCK :: u32 where "START_BLOCK \<equiv> 2"

definition map_start :: "super_block \<Rightarrow> map_kind \<Rightarrow> u32" where
  "map_start sp m = (case m of IMAP \<Rightarrow> START_BLOCK | ZMAP \<Rightarrow> START_BLOCK + word_of_int (s_imap_blocks sp))"

definition map_bits :: "super_block \<Rightarrow> map_kind \<Rightarrow> u32" where
  "map_bits sp m = (case m of IMAP \<Rightarrow> s_ninodes sp + 1
     | ZMAP \<Rightarrow> s_zones sp - (ucast (s_firstdatazone sp) - 1))"

definition bit_blocks :: "super_block \<Rightarrow> map_kind \<Rightarrow> u32" where
  "bit_blocks sp m = (case m of IMAP \<Rightarrow> word_of_int (s_imap_blocks sp) | ZMAP \<Rightarrow> word_of_int (s_zmap_blocks sp))"

text \<open>\<^verbatim>\<open>FS_BITMAP_CHUNKS\<close> and \<^verbatim>\<open>FS_BITS_PER_BLOCK\<close>; a chunk has 16 bits.\<close>

definition bitmap_chunks :: "super_block \<Rightarrow> nat" where
  "bitmap_chunks sp = s_block_size sp div 2"

definition bits_per_block :: "super_block \<Rightarrow> nat" where
  "bits_per_block sp = bitmap_chunks sp * 16"

definition first_zero :: "u16 \<Rightarrow> nat" where
  "first_zero k = length (takeWhile (bit k) [0..<16])"

definition conv_chunk :: "bool \<Rightarrow> u16 \<Rightarrow> u16" where
  "conv_chunk native c = ucast (conv2 native (ucast c))"

text \<open>The search in the chunks of one block: a free bit, its chunk, and the new value of the chunk.\<close>

fun scan_words :: "bool \<Rightarrow> u32 \<Rightarrow> u32 \<Rightarrow> nat list \<Rightarrow> bytes \<Rightarrow> (u32 \<times> nat \<times> u16) option" where
  "scan_words native base limit [] d = None"
| "scan_words native base limit (w # ws) d =
     (let c = get16 (2 * w) d in
      if c = 0xFFFF then scan_words native base limit ws d
      else
        let k = conv_chunk native c;
            i = first_zero k;
            b = base + of_nat w * 16 + of_nat i
        in if limit \<le> b then None
           else Some (b, w, conv_chunk native (k OR push_bit i 1)))"

fun alloc_loop ::
  "nat \<Rightarrow> super_block \<Rightarrow> u32 \<Rightarrow> u32 \<Rightarrow> u32 \<Rightarrow> u32 \<Rightarrow> nat \<Rightarrow> fsstate \<Rightarrow> (u32 \<times> fsstate) option" where
  "alloc_loop 0 sp start limit blocks block word s = Some (NO_BIT, s)"
| "alloc_loop (Suc n) sp start limit blocks block word s = do {
     (bp, s1) \<leftarrow> get_block (s_dev sp) (start + block) NORMAL s;
     let d = b_data (bufs s1 bp);
     case scan_words (s_native sp) (block * of_nat (bits_per_block sp)) limit [word..<bitmap_chunks sp] d of
       Some (b, w, c) \<Rightarrow> do {
         s2 \<leftarrow> put_block (Some bp) MAP_BLOCK (set_data bp (put16 (2 * w) c d) s1);
         Some (b, s2)
       }
     | None \<Rightarrow> do {
         s2 \<leftarrow> put_block (Some bp) MAP_BLOCK s1;
         alloc_loop n sp start limit blocks (if blocks \<le> block + 1 then 0 else block + 1) 0 s2
       }
   }"

text \<open>A bit on a read-only file system is a panic. The loop is a \<^verbatim>\<open>do\<close> loop over one block more than there are.\<close>

definition alloc_bit :: "nat \<Rightarrow> map_kind \<Rightarrow> u32 \<Rightarrow> fsstate \<Rightarrow> (u32 \<times> fsstate) option" where
  "alloc_bit spi m origin s = do {
     let sp = super_blocks s spi;
     guard (\<not> s_rd_only sp \<and> 0 < bits_per_block sp);
     let start = map_start sp m;
     let limit = map_bits sp m;
     let blocks = bit_blocks sp m;
     let org = (if limit \<le> origin then 0 else origin);
     let block = org div of_nat (bits_per_block sp);
     let word = unat ((org mod of_nat (bits_per_block sp)) div 16);
     alloc_loop (unat blocks + 1) sp start limit blocks block word s
   }"

definition free_bit :: "nat \<Rightarrow> map_kind \<Rightarrow> u32 \<Rightarrow> fsstate \<Rightarrow> fsstate option" where
  "free_bit spi m bit_returned s = do {
     let sp = super_blocks s spi;
     guard (\<not> s_rd_only sp \<and> 0 < bits_per_block sp);
     let start = map_start sp m;
     let block = bit_returned div of_nat (bits_per_block sp);
     let word = unat ((bit_returned mod of_nat (bits_per_block sp)) div 16);
     let i = unat (bit_returned mod 16);
     (bp, s1) \<leftarrow> get_block (s_dev sp) (start + block) NORMAL s;
     let d = b_data (bufs s1 bp);
     let k = conv_chunk (s_native sp) (get16 (2 * word) d);
     guard (bit k i);
     put_block (Some bp) MAP_BLOCK (set_data bp (put16 (2 * word) (conv_chunk (s_native sp) (unset_bit i k)) d) s1)
   }"

subsection \<open>Model: zones\<close>

text \<open>A device without a super block is a panic.\<close>

definition get_super :: "int \<Rightarrow> fsstate \<Rightarrow> nat option" where
  "get_super dev s = (if dev = NO_DEV then None else find_super dev super_nrs s)"

definition alloc_zone :: "int \<Rightarrow> u32 \<Rightarrow> fsstate \<Rightarrow> (u32 \<times> fsstate) option" where
  "alloc_zone dev z s = do {
     spi \<leftarrow> get_super dev s;
     let sp = super_blocks s spi;
     let fdz = (ucast (s_firstdatazone sp) :: u32);
     let start = (if z = fdz then s_zsearch sp else z - (fdz - 1));
     (b, s1) \<leftarrow> alloc_bit spi ZMAP start s;
     if b = NO_BIT then
       Some (NO_ZONE, fs_tell (Fs_printf ''No space on device'') (s1\<lparr>err_code := ENOSPC\<rparr>))
     else
       Some (fdz - 1 + b, if z = fdz then upd_super spi (\<lambda>sb. sb\<lparr>s_zsearch := b\<rparr>) s1 else s1)
   }"

definition free_zone :: "int \<Rightarrow> u32 \<Rightarrow> fsstate \<Rightarrow> fsstate option" where
  "free_zone dev numb s = do {
     spi \<leftarrow> get_super dev s;
     let sp = super_blocks s spi;
     let fdz = (ucast (s_firstdatazone sp) :: u32);
     if numb < fdz \<or> s_zones sp \<le> numb then Some s
     else do {
       let b = numb - (fdz - 1);
       s1 \<leftarrow> free_bit spi ZMAP b s;
       Some (if b < s_zsearch (super_blocks s1 spi) then upd_super spi (\<lambda>sb. sb\<lparr>s_zsearch := b\<rparr>) s1 else s1)
     }
   }"

definition mounted :: "nat \<Rightarrow> fsstate \<Rightarrow> bool" where
  "mounted rip s =
     (let dev = sshort (sint (i_zone (inodes s rip) 0))
      in dev = root_dev s \<or> find_super dev super_nrs s \<noteq> None)"

subsection \<open>Model: reading a super block\<close>

text \<open>
  The bytes of the disk are copied over the structure, so the fields that only exist in memory are
  overwritten too; the two inode pointers among them are assigned by the caller and are left alone here.
\<close>

abbreviation (input) SUPER_BLOCK_BYTES :: u32 where "SUPER_BLOCK_BYTES \<equiv> 1024"
abbreviation (input) SUPER_SIZE :: nat where "SUPER_SIZE \<equiv> 76"

definition load_super :: "bytes \<Rightarrow> super_block \<Rightarrow> super_block" where
  "load_super d sb = sb\<lparr>s_ninodes := get32 0 d, s_nzones := get16 4 d, s_imap_blocks := sint (get16 6 d),
     s_zmap_blocks := sint (get16 8 d), s_firstdatazone := get16 10 d, s_log_zone_size := sint (get16 12 d),
     s_max_size := get32 16 d, s_zones := get32 20 d, s_magic := sint (get16 24 d),
     s_block_size := unat (get16 28 d), s_inodes_per_block := unat (get32 40 d), s_dev := NO_DEV,
     s_rd_only := (get32 48 d \<noteq> 0), s_native := (get32 52 d \<noteq> 0), s_version := sint (get32 56 d),
     s_ndzones := unat (get32 60 d), s_nindirs := unat (get32 64 d), s_isearch := get32 68 d,
     s_zsearch := get32 72 d\<rparr>"

text \<open>Version and byte order by the magic number.\<close>

definition fs_version :: "int \<Rightarrow> (int \<times> bool) option" where
  "fs_version magic =
     (if magic = 0x137F \<or> magic = uint (conv2 False 0x137F) then Some (1, magic = 0x137F)
      else if magic = 0x2468 \<or> magic = uint (conv2 False 0x2468) then Some (2, magic = 0x2468)
      else if magic = 0x4d5a then Some (3, True)
      else None)"

definition conv_super :: "bool \<Rightarrow> super_block \<Rightarrow> super_block" where
  "conv_super native sb = sb\<lparr>s_ninodes := conv4 native (s_ninodes sb),
     s_nzones := conv_chunk native (s_nzones sb),
     s_imap_blocks := sint (conv_chunk native (word_of_int (s_imap_blocks sb))),
     s_zmap_blocks := sint (conv_chunk native (word_of_int (s_zmap_blocks sb))),
     s_firstdatazone := conv_chunk native (s_firstdatazone sb),
     s_log_zone_size := sint (conv_chunk native (word_of_int (s_log_zone_size sb))),
     s_max_size := conv4 native (s_max_size sb), s_zones := conv4 native (s_zones sb)\<rparr>"

text \<open>The fields that depend on the version; \<open>None\<close> is the early return for a small block size.\<close>

definition version_fields :: "int \<Rightarrow> super_block \<Rightarrow> super_block option" where
  "version_fields version sb =
     (if version = 1 then
        Some (sb\<lparr>s_block_size := STATIC_BLOCK_SIZE, s_zones := ucast (s_nzones sb), s_inodes_per_block := 32,
          s_ndzones := 7, s_nindirs := 512\<rparr>)
      else
        let sb1 = (if version = 2 then sb\<lparr>s_block_size := STATIC_BLOCK_SIZE\<rparr> else sb) in
        if s_block_size sb1 < MIN_BLOCK_SIZE then None
        else Some (sb1\<lparr>s_inodes_per_block := s_block_size sb1 div 64, s_ndzones := 7,
          s_nindirs := s_block_size sb1 div 4\<rparr>))"

definition bad_block_size :: "nat \<Rightarrow> bool" where
  "bad_block_size bs \<longleftrightarrow> bs < MIN_BLOCK_SIZE \<or> MAX_BLOCK_SIZE < bs \<or> bs mod 512 \<noteq> 0 \<or> bs < SUPER_SIZE \<or>
     bs mod 64 \<noteq> 0 \<or> bs mod 32 \<noteq> 0"

text \<open>Everything that follows the copy: the result, a message, and the structure.\<close>

definition check_super :: "int \<Rightarrow> super_block \<Rightarrow> int \<times> string option \<times> super_block" where
  "check_super dev sb =
     (case fs_version (s_magic sb) of
        None \<Rightarrow> (EINVAL, None, sb)
      | Some (version, native) \<Rightarrow>
          let sb1 = conv_super native sb in
          (case version_fields version sb1 of
             None \<Rightarrow> (EINVAL, None, if version = 2 then sb1\<lparr>s_block_size := STATIC_BLOCK_SIZE\<rparr> else sb1)
           | Some sb2 \<Rightarrow>
               if MAX_BLOCK_SIZE < s_block_size sb2 then
                 (EINVAL, Some ''Filesystem block size too large'', sb2)
               else if bad_block_size (s_block_size sb2) then (EINVAL, None, sb2)
               else
                 let sb3 = sb2\<lparr>s_isearch := 0, s_zsearch := 0, s_version := version, s_native := native\<rparr> in
                 if s_imap_blocks sb3 < 1 \<or> s_zmap_blocks sb3 < 1 \<or> s_ninodes sb3 < 1 \<or> s_zones sb3 < 1 \<or>
                    s_log_zone_size sb3 < 0 \<or> 4 < s_log_zone_size sb3
                 then (EINVAL, Some ''not enough imap or zone map blocks'', sb3)
                 else (OK, None, sb3\<lparr>s_dev := dev\<rparr>)))"

definition read_super :: "nat \<Rightarrow> fsstate \<Rightarrow> (int \<times> fsstate) option" where
  "read_super spi s = do {
     let dev = s_dev (super_blocks s spi);
     guard (dev \<noteq> NO_DEV);
     let r = (case io_ans s (io_cnt s) of Io_all \<Rightarrow> int MIN_BLOCK_SIZE | Io_status x _ \<Rightarrow> x);
     let s1 = s\<lparr>io_cnt := io_cnt s + 1\<rparr>;
     if r \<noteq> int MIN_BLOCK_SIZE then Some (EINVAL, s1)
     else do {
       let d = (\<lambda>i. disk s dev (SUPER_BLOCK_BYTES + of_nat i));
       let (res, msg, sb) = check_super dev (load_super d (super_blocks s spi));
       let s2 = upd_super spi (\<lambda>_. sb) s1;
       Some (res, case msg of None \<Rightarrow> s2 | Some t \<Rightarrow> fs_tell (Fs_printf t) s2)
     }
   }"

subsection \<open>Byte order\<close>

lemma byte_masks: "(0xFFFF :: u32) = mask 16" "(0xFF :: u32) = mask 8"
  by (simp_all add: mask_numeral)

lemma bit_conv2: "bit (conv2 n w) i \<longleftrightarrow> i < 16 \<and> bit w (if n then i else if i < 8 then i + 8 else i - 8)"
  unfolding conv2_def byte_masks
  by (cases "i < 8") (auto simp: bit_simps take_bit_eq_mask [symmetric] add.commute)

lemma bit_conv4: "bit (conv4 n x) i \<longleftrightarrow> i < 32 \<and> bit x (if n then i else
   if i < 8 then i + 24 else if i < 16 then i + 8 else if i < 24 then i - 8 else i - 24)"
proof -
  consider "i < 8" | "8 \<le> i" "i < 16" | "16 \<le> i" "i < 24" | "24 \<le> i" "i < 32" | "32 \<le> i" by linarith
  then show ?thesis
    by cases (auto simp: conv4_def byte_masks bit_simps bit_conv2 add.commute dest: bit_imp_le_length)
qed

lemma conv2_conv2: "conv2 n (conv2 n w) = w AND 0xFFFF"
  by (rule bit_word_eqI) (auto simp: bit_conv2 byte_masks bit_simps)

lemma conv4_conv4: "conv4 n (conv4 n x) = x"
proof (rule bit_word_eqI)
  fix i assume "i < LENGTH(32)"
  then consider "i < 8" | "8 \<le> i" "i < 16" | "16 \<le> i" "i < 24" | "24 \<le> i" "i < 32" by force
  then show "bit (conv4 n (conv4 n x)) i \<longleftrightarrow> bit x i"
    by cases (auto simp: bit_conv4)
qed

lemma bit_conv_chunk:
  "bit (conv_chunk n c) i \<longleftrightarrow> i < 16 \<and> bit c (if n then i else if i < 8 then i + 8 else i - 8)"
  unfolding conv_chunk_def by (auto simp: bit_simps bit_conv2)

lemma conv_chunk_conv_chunk [simp]: "conv_chunk n (conv_chunk n c) = c"
  by (rule bit_word_eqI) (auto simp: bit_conv_chunk)

subsection \<open>Searching a block of a bit map\<close>

lemma first_zero_ones: "(\<forall>i<16. bit k i) \<longleftrightarrow> k = (0xFFFF :: u16)"
proof -
  have "(0xFFFF :: u16) = mask 16" by (simp add: mask_numeral)
  then show ?thesis by (auto simp: bit_eq_iff bit_simps)
qed

lemma first_zero:
  assumes "k \<noteq> 0xFFFF"
  shows "first_zero k < 16" "\<not> bit k (first_zero k)" "\<And>j. j < first_zero k \<Longrightarrow> bit k j"
proof -
  let ?xs = "takeWhile (bit k) [0..<16]"
  from assms obtain i where i: "i < 16" "\<not> bit k i" using first_zero_ones by blast
  have lt: "length ?xs < length [0..<16]"
  proof (rule ccontr)
    assume "\<not> ?thesis"
    then have "length ?xs = length [0..<16]" using length_takeWhile_le [of "bit k" "[0..<16]"] by linarith
    then have "?xs = [0..<16]" by (metis takeWhile_eq_take take_all order_refl)
    with i have "i \<in> set ?xs" by (simp del: upt_rec_numeral)
    with i(2) show False by (auto dest: set_takeWhileD)
  qed
  then show "first_zero k < 16" by (simp only: first_zero_def length_upt minus_nat.diff_0)
  from nth_length_takeWhile [OF lt] lt show "\<not> bit k (first_zero k)"
    by (simp only: first_zero_def nth_upt length_upt minus_nat.diff_0 add_0 simp_thms)
  fix j assume j: "j < first_zero k"
  then have "?xs ! j = [0..<16] ! j" unfolding first_zero_def by (rule takeWhile_nth)
  moreover have "?xs ! j \<in> set ?xs" using j unfolding first_zero_def by (rule nth_mem)
  moreover have "[0..<16] ! j = j" using j \<open>first_zero k < 16\<close> by (simp del: upt_rec_numeral)
  ultimately show "bit k j" by (metis set_takeWhileD)
qed

lemma conv_chunk_ones: "conv_chunk n c = 0xFFFF \<longleftrightarrow> c = 0xFFFF"
proof -
  have "conv_chunk n 0xFFFF = 0xFFFF"
    unfolding first_zero_ones [symmetric] using first_zero_ones [of "0xFFFF"] by (auto simp: bit_conv_chunk)
  then show ?thesis by (metis conv_chunk_conv_chunk)
qed

lemma scan_words_spec:
  fixes N C :: nat
  assumes "N + C * 16 \<le> 2 ^ 32" "w \<le> C"
  shows "case scan_words native (of_nat N) limit [w..<C] d of
      None \<Rightarrow> \<forall>v\<in>{w..<C}. \<forall>i<16. N + v * 16 + i < unat limit \<longrightarrow> bit (conv_chunk native (get16 (2 * v) d)) i
    | Some (b, v, c) \<Rightarrow> w \<le> v \<and> v < C \<and> (\<exists>i<16. let k = conv_chunk native (get16 (2 * v) d) in
        \<not> bit k i \<and> b = of_nat (N + v * 16 + i) \<and> N + v * 16 + i < unat limit \<and>
        c = conv_chunk native (set_bit i k))"
  using assms(2)
proof (induction rule: inc_induct)
  case base
  then show ?case by simp
next
  case (step w)
  let ?c = "get16 (2 * w) d"
  let ?k = "conv_chunk native ?c"
  let ?i = "first_zero ?k"
  let ?b = "of_nat N + of_nat w * 16 + of_nat ?i :: u32"
  have ws: "[w..<C] = w # [Suc w..<C]" using step.hyps by (simp add: upt_conv_Cons)
  show ?case
  proof (cases "?c = 0xFFFF")
    case True
    then have "\<forall>i<16. bit ?k i" using conv_chunk_ones first_zero_ones by blast
    moreover have "{w..<C} = insert w {Suc w..<C}" using step.hyps by auto
    ultimately show ?thesis using step.IH True unfolding ws
      by (auto simp: Let_def split: option.splits)
  next
    case False
    then have kn: "?k \<noteq> 0xFFFF" by (simp add: conv_chunk_ones)
    note z = first_zero [OF kn]
    have be: "?b = of_nat (N + w * 16 + ?i)" by simp
    have lt: "N + w * 16 + ?i < 2 ^ 32"
    proof -
      have "Suc w * 16 \<le> C * 16" using step.hyps by (intro mult_le_mono1) simp
      with z(1) assms(1) show ?thesis by simp
    qed
    then have ub: "unat ?b = N + w * 16 + ?i" unfolding be by (intro of_nat_inverse) simp_all
    show ?thesis
    proof (cases "limit \<le> ?b")
      case True
      then have le: "unat limit \<le> N + w * 16 + ?i" using ub by (simp add: word_le_nat_alt)
      have "scan_words native (of_nat N) limit [w..<C] d = None"
        unfolding ws using False True by (simp add: Let_def)
      moreover have "bit (conv_chunk native (get16 (2 * v) d)) i"
        if v: "v \<in> {w..<C}" and i: "i < 16" "N + v * 16 + i < unat limit" for v i
      proof (cases "v = w")
        case True
        with i le z(3) show ?thesis by simp
      next
        case False
        with v have "Suc w * 16 \<le> v * 16" by (intro mult_le_mono1) simp
        with i le z(1) show ?thesis by simp
      qed
      ultimately show ?thesis by simp
    next
      case nl: False
      then have "N + w * 16 + ?i < unat limit" using ub by (simp add: word_le_nat_alt)
      moreover have "?k OR push_bit ?i 1 = set_bit ?i ?k" by (simp add: set_bit_eq_or)
      moreover have "scan_words native (of_nat N) limit [w..<C] d =
          Some (?b, w, conv_chunk native (?k OR push_bit ?i 1))"
        unfolding ws using False nl by (simp add: Let_def)
      ultimately have sc: "scan_words native (of_nat N) limit [w..<C] d =
          Some (of_nat (N + w * 16 + ?i), w, conv_chunk native (set_bit ?i ?k))"
        and "\<exists>i<16. \<not> bit ?k i \<and> (of_nat (N + w * 16 + ?i) :: u32) = of_nat (N + w * 16 + i) \<and>
          N + w * 16 + i < unat limit \<and> conv_chunk native (set_bit ?i ?k) = conv_chunk native (set_bit i ?k)"
        using z(1,2) be by (simp only:, blast)
      with step.hyps show ?thesis unfolding sc by (simp only: option.case prod.case Let_def order_refl simp_thms)
    qed
  qed
qed


subsection \<open>Bit maps as sets of numbers\<close>

definition map_chunk :: "fsstate \<Rightarrow> nat \<Rightarrow> map_kind \<Rightarrow> nat \<Rightarrow> nat \<Rightarrow> u16" where
  "map_chunk s spi m k w =
     (let sp = super_blocks s spi in get16 (2 * w) (contents s (s_dev sp) (map_start sp m + of_nat k)))"

definition map_bit :: "fsstate \<Rightarrow> nat \<Rightarrow> map_kind \<Rightarrow> nat \<Rightarrow> bool" where
  "map_bit s spi m n =
     (let sp = super_blocks s spi; bpb = bits_per_block sp
      in bit (conv_chunk (s_native sp) (map_chunk s spi m (n div bpb) (n mod bpb div 16))) (n mod 16))"

definition map_blocks :: "fsstate \<Rightarrow> nat \<Rightarrow> map_kind \<Rightarrow> nat" where
  "map_blocks s spi m = unat (bit_blocks (super_blocks s spi) m)"

definition map_limit :: "fsstate \<Rightarrow> nat \<Rightarrow> map_kind \<Rightarrow> nat" where
  "map_limit s spi m = unat (map_bits (super_blocks s spi) m)"

text \<open>The super block describes a writable device, and its bit map has blocks for all its bits.\<close>

definition geom :: "fsstate \<Rightarrow> nat \<Rightarrow> map_kind \<Rightarrow> bool" where
  "geom s spi m \<longleftrightarrow>
     (let sp = super_blocks s spi; B = map_blocks s spi m; bpb = bits_per_block sp in
      s_dev sp \<noteq> NO_DEV \<and> bsz s (s_dev sp) = s_block_size sp \<and> \<not> s_rd_only sp \<and> 0 < bpb \<and> 0 < B \<and>
      B * bpb < 2 ^ 32 \<and> map_limit s spi m \<le> B * bpb \<and>
      (\<forall>k<B. fits s (s_dev sp) (map_start sp m + of_nat k)))"

lemma geomD:
  assumes "geom s spi m"
  shows "s_dev (super_blocks s spi) \<noteq> NO_DEV" "bsz s (s_dev (super_blocks s spi)) = s_block_size (super_blocks s spi)"
    "\<not> s_rd_only (super_blocks s spi)" "0 < bits_per_block (super_blocks s spi)" "0 < map_blocks s spi m"
    "map_blocks s spi m * bits_per_block (super_blocks s spi) \<le> 2 ^ 32"
    "map_limit s spi m \<le> map_blocks s spi m * bits_per_block (super_blocks s spi)"
    "k < map_blocks s spi m \<Longrightarrow> fits s (s_dev (super_blocks s spi)) (map_start (super_blocks s spi) m + of_nat k)"
    "map_blocks s spi m * bits_per_block (super_blocks s spi) < 2 ^ 32"
  using assms unfolding geom_def Let_def by (blast, blast, blast, blast, blast, meson order_less_imp_le, blast, blast, blast)

lemma geom_frame:
  assumes "super_blocks s' = super_blocks s"
  shows "geom s' spi m = geom s spi m" "map_blocks s' spi m = map_blocks s spi m" "map_limit s' spi m = map_limit s spi m"
  using bsz_cong [OF assms] fits_cong [OF assms] assms by (simp_all add: geom_def map_blocks_def map_limit_def)

lemma get16_cong: "d off = e off \<Longrightarrow> d (off + 1) = e (off + 1) \<Longrightarrow> get16 off d = get16 off e"
  by (simp add: get16_def)

lemma chunk_off: "w < bitmap_chunks sp \<Longrightarrow> 2 * w + 1 < s_block_size sp"
  by (auto simp: bitmap_chunks_def)

lemma map_chunk_frame:
  assumes g: "geom s spi m" and u: "unchanged s s'" and k: "k < map_blocks s spi m"
    and w: "w < bitmap_chunks (super_blocks s spi)"
  shows "map_chunk s' spi m k w = map_chunk s spi m k w"
proof -
  let ?sp = "super_blocks s spi"
  have eq: "super_blocks s' = super_blocks s" using u by (simp add: unchanged_def cache_frame_sel)
  have "contents s' (s_dev ?sp) (map_start ?sp m + of_nat k) off = contents s (s_dev ?sp) (map_start ?sp m + of_nat k) off"
    if "off < s_block_size ?sp" for off
    using u geomD(1,2) [OF g] geomD(8) [OF g k] that by (simp add: unchanged_def same_contents_def)
  with chunk_off [OF w] show ?thesis unfolding map_chunk_def Let_def eq by (intro get16_cong) simp_all
qed

text \<open>The bits of a map by chunk.\<close>

lemma bit_index:
  assumes "n < map_blocks s spi m * bits_per_block (super_blocks s spi)"
  shows "n div bits_per_block (super_blocks s spi) < map_blocks s spi m"
    "n mod bits_per_block (super_blocks s spi) div 16 < bitmap_chunks (super_blocks s spi)"
    "n mod bits_per_block (super_blocks s spi) mod 16 = n mod 16"
proof -
  let ?b = "bits_per_block (super_blocks s spi)"
  have b: "0 < ?b" using assms by (metis gr0I mult_0_right not_less0)
  show "n div ?b < map_blocks s spi m" using assms by (simp add: less_mult_imp_div_less)
  have "n mod ?b < bitmap_chunks (super_blocks s spi) * 16" using b by (simp add: bits_per_block_def)
  then show "n mod ?b div 16 < bitmap_chunks (super_blocks s spi)" by (simp add: less_mult_imp_div_less)
  have "16 dvd ?b" by (simp add: bits_per_block_def)
  then show "n mod ?b mod 16 = n mod 16" by (rule mod_mod_cancel)
qed

lemma map_bit_of:
  assumes "k < map_blocks s spi m" "w < bitmap_chunks (super_blocks s spi)" "i < 16"
  shows "map_bit s spi m (k * bits_per_block (super_blocks s spi) + w * 16 + i) \<longleftrightarrow>
    bit (conv_chunk (s_native (super_blocks s spi)) (map_chunk s spi m k w)) i"
proof -
  let ?b = "bits_per_block (super_blocks s spi)"
  let ?n = "k * ?b + w * 16 + i"
  have "Suc w * 16 \<le> bitmap_chunks (super_blocks s spi) * 16" using assms(2) by (intro mult_le_mono1) simp
  then have r: "w * 16 + i < ?b" using assms(3) by (simp add: bits_per_block_def)
  then have d: "?n div ?b = k" "?n mod ?b = w * 16 + i" by (simp_all add: add.assoc)
  have "(w * 16 + i) div 16 = w" using assms(3) by simp
  moreover have "?n mod 16 = i"
  proof -
    have "?n = (k * bitmap_chunks (super_blocks s spi) + w) * 16 + i" by (simp add: bits_per_block_def algebra_simps)
    then show ?thesis using assms(3) by (metis mod_mult_self3 mod_less)
  qed
  ultimately show ?thesis unfolding map_bit_def Let_def d by simp
qed

lemma map_bit_frame:
  assumes "geom s spi m" "unchanged s s'" "n < map_blocks s spi m * bits_per_block (super_blocks s spi)"
  shows "map_bit s' spi m n = map_bit s spi m n"
proof -
  have eq: "super_blocks s' = super_blocks s" using assms(2) by (simp add: unchanged_def cache_frame_sel)
  show ?thesis using map_chunk_frame [OF assms(1,2) bit_index(1,2) [OF assms(3)]]
    unfolding map_bit_def Let_def eq by simp
qed

text \<open>Storing a chunk changes the bits of this chunk only.\<close>

lemma map_chunk_store:
  assumes g: "geom s spi m" and k: "k < map_blocks s spi m" and w: "w < bitmap_chunks (super_blocks s spi)"
    and d: "\<forall>off<bsz s (s_dev (super_blocks s spi)). d off =
      contents s (s_dev (super_blocks s spi)) (map_start (super_blocks s spi) m + of_nat k) off"
    and b: "block_set (s_dev (super_blocks s spi)) (map_start (super_blocks s spi) m + of_nat k) (put16 (2 * w) c d) s s'"
    and k': "k' < map_blocks s spi m" and w': "w' < bitmap_chunks (super_blocks s spi)"
  shows "map_chunk s' spi m k' w' = (if k' = k \<and> w' = w then c else map_chunk s spi m k' w')"
proof -
  let ?sp = "super_blocks s spi" and ?dv = "s_dev (super_blocks s spi)"
  let ?st = "map_start ?sp m"
  have eq: "super_blocks s' = super_blocks s" using b by (simp add: block_set_def cache_frame_sel)
  have "unat (bit_blocks ?sp m) < 2 ^ LENGTH(32)" by (rule unsigned_less)
  then have lt: "k < 2 ^ 32" "k' < 2 ^ 32" using k k' by (simp_all add: map_blocks_def)
  have inj: "?st + of_nat k' = ?st + of_nat k \<longleftrightarrow> k' = k"
  proof
    assume "?st + of_nat k' = ?st + of_nat k"
    then have "(of_nat k' :: u32) = of_nat k" by simp
    then have "unat (of_nat k' :: u32) = unat (of_nat k :: u32)" by simp
    then show "k' = k" using lt by (simp add: unat_of_nat take_bit_nat_eq_self)
  qed simp
  have ct: "contents s' ?dv (?st + of_nat k') off = (if k' = k then put16 (2 * w) c d off else contents s ?dv (?st + of_nat k') off)"
    if "off < s_block_size ?sp" for off
    using b geomD(1,2) [OF g] geomD(8) [OF g k'] that inj by (simp add: block_set_def)
  note off = chunk_off [OF w']
  show ?thesis
  proof (cases "k' = k")
    case True
    have "map_chunk s' spi m k' w' = get16 (2 * w') (put16 (2 * w) c d)"
      unfolding map_chunk_def Let_def eq using ct off True by (intro get16_cong) simp_all
    moreover have "get16 (2 * w') (put16 (2 * w) c d) = get16 (2 * w') d" if "w' \<noteq> w" using that by simp
    moreover have "get16 (2 * w') d = map_chunk s spi m k' w'"
      unfolding map_chunk_def Let_def using d off geomD(2) [OF g] True by (intro get16_cong) simp_all
    ultimately show ?thesis using True by auto
  next
    case False
    with ct off show ?thesis unfolding map_chunk_def Let_def eq by (simp, intro get16_cong) simp_all
  qed
qed

lemma map_bit_store:
  assumes g: "geom s spi m" and k: "k < map_blocks s spi m" and w: "w < bitmap_chunks (super_blocks s spi)"
    and i: "i < 16"
    and d: "\<forall>off<bsz s (s_dev (super_blocks s spi)). d off =
      contents s (s_dev (super_blocks s spi)) (map_start (super_blocks s spi) m + of_nat k) off"
    and b: "block_set (s_dev (super_blocks s spi)) (map_start (super_blocks s spi) m + of_nat k)
      (put16 (2 * w) (conv_chunk (s_native (super_blocks s spi)) c) d) s s'"
    and c: "\<And>j. j < 16 \<Longrightarrow> bit c j \<longleftrightarrow> (if j = i then v else
      bit (conv_chunk (s_native (super_blocks s spi)) (map_chunk s spi m k w)) j)"
    and n: "n < map_blocks s spi m * bits_per_block (super_blocks s spi)"
  shows "map_bit s' spi m n \<longleftrightarrow> (if n = k * bits_per_block (super_blocks s spi) + w * 16 + i then v else map_bit s spi m n)"
proof -
  let ?sp = "super_blocks s spi" and ?b = "bits_per_block (super_blocks s spi)"
  have eq: "super_blocks s' = super_blocks s" using b by (simp add: block_set_def cache_frame_sel)
  let ?k = "n div ?b" and ?w = "n mod ?b div 16" and ?i = "n mod 16"
  note ix = bit_index [OF n]
  have "(n mod ?b) div 16 * 16 + (n mod ?b) mod 16 = n mod ?b" by (rule div_mult_mod_eq)
  then have dec: "n = ?k * ?b + ?w * 16 + ?i" using ix(3) by (metis add.assoc div_mult_mod_eq)
  have same: "n = k * ?b + w * 16 + i \<longleftrightarrow> ?k = k \<and> ?w = w \<and> ?i = i"
  proof
    assume e: "n = k * ?b + w * 16 + i"
    have "Suc w * 16 \<le> bitmap_chunks ?sp * 16" using w by (intro mult_le_mono1) simp
    then have r: "w * 16 + i < ?b" using i by (simp add: bits_per_block_def)
    then have "?k = k" "n mod ?b = w * 16 + i" unfolding e by (simp_all add: add.assoc)
    then show "?k = k \<and> ?w = w \<and> ?i = i" using i ix(3) by simp
  qed (use dec in simp)
  have "map_bit s' spi m n \<longleftrightarrow> bit (conv_chunk (s_native ?sp) (map_chunk s' spi m ?k ?w)) ?i"
    unfolding map_bit_def Let_def eq ..
  also have "map_chunk s' spi m ?k ?w = (if ?k = k \<and> ?w = w then conv_chunk (s_native ?sp) c else map_chunk s spi m ?k ?w)"
    by (rule map_chunk_store [OF g k w d b ix(1,2)])
  finally show ?thesis
    using c [of ?i] same by (auto simp: map_bit_def Let_def)
qed


subsection \<open>Allocating and freeing bits\<close>

text \<open>The bit \<open>b\<close> was free and is now taken; all other bits of the map and all blocks outside it are as before.\<close>

definition bit_taken :: "nat \<Rightarrow> map_kind \<Rightarrow> nat \<Rightarrow> fsstate \<Rightarrow> fsstate \<Rightarrow> bool" where
  "bit_taken spi m b s s' \<longleftrightarrow>
     b < map_limit s spi m \<and> \<not> map_bit s spi m b \<and>
     (\<forall>n<map_blocks s spi m * bits_per_block (super_blocks s spi). map_bit s' spi m n \<longleftrightarrow> n = b \<or> map_bit s spi m n) \<and>
     (\<exists>k x. k < map_blocks s spi m \<and>
        block_set (s_dev (super_blocks s spi)) (map_start (super_blocks s spi) m + of_nat k) x s s')"

text \<open>All bits below the limit in the chunks of block \<open>k\<close> from \<open>w\<close> on are taken.\<close>

definition chunks_full :: "fsstate \<Rightarrow> nat \<Rightarrow> map_kind \<Rightarrow> nat \<Rightarrow> nat \<Rightarrow> bool" where
  "chunks_full s spi m k w \<longleftrightarrow>
     (\<forall>v\<in>{w..<bitmap_chunks (super_blocks s spi)}. \<forall>i<16.
        k * bits_per_block (super_blocks s spi) + v * 16 + i < map_limit s spi m \<longrightarrow>
        map_bit s spi m (k * bits_per_block (super_blocks s spi) + v * 16 + i))"

lemma chunk_in_map:
  assumes "k < map_blocks s spi m" "v < bitmap_chunks (super_blocks s spi)" "i < 16"
  shows "k * bits_per_block (super_blocks s spi) + v * 16 + i < map_blocks s spi m * bits_per_block (super_blocks s spi)"
proof -
  have "Suc v * 16 \<le> bitmap_chunks (super_blocks s spi) * 16" using assms(2) by (intro mult_le_mono1) simp
  then have "v * 16 + i < bits_per_block (super_blocks s spi)" using assms(3) by (simp add: bits_per_block_def)
  moreover have "Suc k * bits_per_block (super_blocks s spi) \<le> map_blocks s spi m * bits_per_block (super_blocks s spi)"
    using assms(1) by (intro mult_le_mono1) simp
  ultimately show ?thesis by simp
qed

lemma chunks_full_frame:
  assumes "geom s spi m" "unchanged s s'" "k < map_blocks s spi m"
  shows "chunks_full s' spi m k w = chunks_full s spi m k w"
proof -
  have eq: "super_blocks s' = super_blocks s" using assms(2) by (simp add: unchanged_def cache_frame_sel)
  have "map_bit s' spi m (k * bits_per_block (super_blocks s spi) + v * 16 + i) =
      map_bit s spi m (k * bits_per_block (super_blocks s spi) + v * 16 + i)"
    if "v < bitmap_chunks (super_blocks s spi)" "i < 16" for v i
    by (rule map_bit_frame [OF assms(1,2) chunk_in_map [OF assms(3) that]])
  then show ?thesis unfolding chunks_full_def eq geom_frame(3) [OF eq] by (intro ball_cong all_cong refl) simp
qed

lemma unchanged_trans: "unchanged s s1 \<Longrightarrow> unchanged s1 s2 \<Longrightarrow> unchanged s s2"
  unfolding unchanged_def using cache_frame_sel(1) [of s s1]
  by (auto intro: cache_frame_trans same_contents_trans users_kept_trans)

lemma block_set_after:
  assumes "unchanged s s1" "block_set d k f s1 s2"
  shows "block_set d k f s s2"
proof -
  have eq: "super_blocks s1 = super_blocks s" using assms(1) by (simp add: unchanged_def cache_frame_sel)
  show ?thesis
    using assms bsz_cong [OF eq] fits_cong [OF eq]
    by (auto simp: unchanged_def block_set_def same_contents_def intro: cache_frame_trans users_kept_trans)
qed

lemma bit_taken_after:
  assumes g: "geom s spi m" and u: "unchanged s s1" and t: "bit_taken spi m b s1 s2"
  shows "bit_taken spi m b s s2"
proof -
  have eq: "super_blocks s1 = super_blocks s" using u by (simp add: unchanged_def cache_frame_sel)
  note e = geom_frame [OF eq]
  have mb: "map_bit s1 spi m n = map_bit s spi m n" if "n < map_blocks s spi m * bits_per_block (super_blocks s spi)" for n
    by (rule map_bit_frame [OF g u that])
  have "b < map_blocks s spi m * bits_per_block (super_blocks s spi)"
    using t geomD(7) [OF g] by (simp add: bit_taken_def e)
  with mb have "\<not> map_bit s spi m b" "b < map_limit s spi m" using t by (simp_all add: bit_taken_def e)
  moreover have "\<forall>n<map_blocks s spi m * bits_per_block (super_blocks s spi). map_bit s2 spi m n \<longleftrightarrow> n = b \<or> map_bit s spi m n"
    using t mb unfolding bit_taken_def e eq by simp
  moreover from t obtain k x where "k < map_blocks s spi m"
    "block_set (s_dev (super_blocks s spi)) (map_start (super_blocks s spi) m + of_nat k) x s1 s2"
    unfolding bit_taken_def e eq by blast
  moreover from this(2) have "block_set (s_dev (super_blocks s spi)) (map_start (super_blocks s spi) m + of_nat k) x s s2"
    by (rule block_set_after [OF u])
  ultimately show ?thesis unfolding bit_taken_def by blast
qed

lemma alloc_loop_spec:
  fixes k w :: nat
  assumes "ready s" "geom s spi m" "k < map_blocks s spi m" "w \<le> bitmap_chunks (super_blocks s spi)"
  shows "\<exists>b s'. alloc_loop n (super_blocks s spi) (map_start (super_blocks s spi) m) (map_bits (super_blocks s spi) m)
      (bit_blocks (super_blocks s spi) m) (of_nat k) w s = Some (b, s') \<and> ready s' \<and>
    (bit_taken spi m (unat b) s s' \<or>
     b = NO_BIT \<and> unchanged s s' \<and>
     (\<forall>j<n. chunks_full s spi m ((k + j) mod map_blocks s spi m) (if j = 0 then w else 0)))"
  using assms
proof (induction n arbitrary: s k w)
  case 0
  then show ?case by (simp add: unchanged_def same_contents_def)
next
  case (Suc n)
  let ?sp = "super_blocks s spi" and ?bpb = "bits_per_block (super_blocks s spi)"
  let ?B = "map_blocks s spi m"
  note g = geomD [OF Suc.prems(2)]
  note k = Suc.prems(3)
  from bc.peek [OF Suc.prems(1) g(1) g(8) [OF k]] obtain bp s1 where
    get: "get_block (s_dev ?sp) (map_start ?sp m + of_nat k) NORMAL s = Some (bp, s1)"
    and d: "\<forall>off<bsz s (s_dev ?sp). b_data (bufs s1 bp) off = contents s (s_dev ?sp) (map_start ?sp m + of_nat k) off"
    and put: "\<And>t. \<exists>s2. put_block (Some bp) t s1 = Some s2 \<and> ready s2 \<and> unchanged s s2"
    and store: "\<And>t f. \<exists>s2. put_block (Some bp) t (set_data bp f s1) = Some s2 \<and> ready s2 \<and>
      block_set (s_dev ?sp) (map_start ?sp m + of_nat k) f s s2" by blast
  let ?d = "b_data (bufs s1 bp)"
  let ?scan = "scan_words (s_native ?sp) (of_nat (k * ?bpb)) (map_bits ?sp m) [w..<bitmap_chunks ?sp] ?d"
  have kb: "Suc k * ?bpb \<le> ?B * ?bpb" using k by (intro mult_le_mono1) simp
  then have "Suc k * ?bpb \<le> 2 ^ 32" using g(6) by (rule order_trans)
  then have "k * ?bpb + ?bpb \<le> 2 ^ 32" by (simp only: mult_Suc add.commute)
  moreover have "bitmap_chunks ?sp * 16 = ?bpb" by (simp add: bits_per_block_def)
  ultimately have le: "k * ?bpb + bitmap_chunks ?sp * 16 \<le> 2 ^ 32" by (simp only:)
  note sc = scan_words_spec [OF le Suc.prems(4), where native = "s_native ?sp" and limit = "map_bits ?sp m" and d = ?d]
  have chunk: "get16 (2 * v) ?d = map_chunk s spi m k v" if "v < bitmap_chunks ?sp" for v
    unfolding map_chunk_def Let_def using d chunk_off [OF that] g(2) by (intro get16_cong) simp_all
  have base: "of_nat k * of_nat ?bpb = (of_nat (k * ?bpb) :: u32)" by simp
  show ?case
  proof (cases ?scan)
    case (Some r)
    obtain b v c where r: "r = (b, v, c)" by (cases r)
    with sc Some obtain i where v: "w \<le> v" "v < bitmap_chunks ?sp" and i: "i < 16"
      "\<not> bit (conv_chunk (s_native ?sp) (get16 (2 * v) ?d)) i" "b = of_nat (k * ?bpb + v * 16 + i)"
      "k * ?bpb + v * 16 + i < map_limit s spi m"
      "c = conv_chunk (s_native ?sp) (set_bit i (conv_chunk (s_native ?sp) (get16 (2 * v) ?d)))"
      by (auto simp: Let_def map_limit_def)
    from store [of MAP_BLOCK "put16 (2 * v) c ?d"] obtain s2 where s2:
      "put_block (Some bp) MAP_BLOCK (set_data bp (put16 (2 * v) c ?d) s1) = Some s2" "ready s2"
      "block_set (s_dev ?sp) (map_start ?sp m + of_nat k) (put16 (2 * v) c ?d) s s2" by blast
    let ?n = "k * ?bpb + v * 16 + i"
    have in_map: "?n < ?B * ?bpb" by (rule chunk_in_map [OF k v(2) i(1)])
    have ub: "unat b = ?n" unfolding i(3) using in_map g(6) by (intro of_nat_inverse) simp_all
    have "map_bit s2 spi m n' \<longleftrightarrow> n' = ?n \<or> map_bit s spi m n'" if "n' < ?B * ?bpb" for n'
    proof -
      have "bit (set_bit i (conv_chunk (s_native ?sp) (get16 (2 * v) ?d))) j \<longleftrightarrow> (if j = i then True
          else bit (conv_chunk (s_native ?sp) (map_chunk s spi m k v)) j)" if "j < 16" for j
        using that by (auto simp: bit_simps chunk [OF v(2)])
      from map_bit_store [OF Suc.prems(2) k v(2) i(1) d s2(3) [unfolded i(5)] this \<open>n' < ?B * ?bpb\<close>]
      show ?thesis by simp
    qed
    moreover have "\<not> map_bit s spi m ?n"
      using i(2) chunk [OF v(2)] map_bit_of [OF k v(2) i(1)] by simp
    ultimately have "bit_taken spi m (unat b) s s2"
      unfolding bit_taken_def ub using i(4) s2(3) k by blast
    moreover have "alloc_loop (Suc n) ?sp (map_start ?sp m) (map_bits ?sp m) (bit_blocks ?sp m) (of_nat k) w s = Some (b, s2)"
      using get Some r s2(1) by (simp add: base del: of_nat_mult)
    ultimately show ?thesis using s2(2) by blast
  next
    case None
    from put [of MAP_BLOCK] obtain s2 where s2: "put_block (Some bp) MAP_BLOCK s1 = Some s2" "ready s2" "unchanged s s2"
      by blast
    have eq: "super_blocks s2 = super_blocks s" using s2(3) by (simp add: unchanged_def cache_frame_sel)
    note e = geom_frame [OF eq]
    let ?k = "Suc k mod ?B"
    have full: "chunks_full s spi m k w"
      unfolding chunks_full_def
    proof (intro ballI allI impI)
      fix v i assume v: "v \<in> {w..<bitmap_chunks ?sp}" and i: "i < (16::nat)" and lt: "k * ?bpb + v * 16 + i < map_limit s spi m"
      with sc None have "bit (conv_chunk (s_native ?sp) (get16 (2 * v) ?d)) i" by (simp add: map_limit_def)
      with v chunk [of v] map_bit_of [OF k, of v i] i show "map_bit s spi m (k * ?bpb + v * 16 + i)" by simp
    qed
    have lt: "unat (bit_blocks ?sp m) < 2 ^ LENGTH(32)" by (rule unsigned_less)
    have nxt: "(if bit_blocks ?sp m \<le> of_nat k + 1 then 0 else of_nat k + 1 :: u32) = of_nat ?k"
    proof (cases "Suc k = ?B")
      case True
      have "bit_blocks ?sp m = of_nat ?B" by (simp add: map_blocks_def)
      then have "bit_blocks ?sp m = of_nat k + 1" unfolding True [symmetric] by (simp add: add.commute)
      with True show ?thesis by simp
    next
      case False
      then have sk: "Suc k < ?B" using k by simp
      have sw: "(of_nat k + 1 :: u32) = of_nat (Suc k)" by (simp add: add.commute)
      have "unat (of_nat (Suc k) :: u32) = Suc k" using sk lt by (intro of_nat_inverse refl) (simp only: map_blocks_def)
      with sk have "\<not> bit_blocks ?sp m \<le> of_nat (Suc k)" by (simp only: word_le_nat_alt map_blocks_def not_le)
      with sk show ?thesis unfolding sw by (simp only: if_False mod_less)
    qed
    have kB: "?k < map_blocks s2 spi m" using g(5) e(2) by simp
    from Suc.IH [OF s2(2) _ kB, of 0] Suc.prems(2) e(1) eq obtain b s' where
      al: "alloc_loop n ?sp (map_start ?sp m) (map_bits ?sp m) (bit_blocks ?sp m) (of_nat ?k) 0 s2 = Some (b, s')" "ready s'"
      and or: "bit_taken spi m (unat b) s2 s' \<or> b = NO_BIT \<and> unchanged s2 s' \<and>
        (\<forall>j<n. chunks_full s2 spi m ((?k + j) mod map_blocks s2 spi m) (if j = 0 then 0 else 0))" by auto
    have "alloc_loop (Suc n) ?sp (map_start ?sp m) (map_bits ?sp m) (bit_blocks ?sp m) (of_nat k) w s = Some (b, s')"
      using get None s2(1) al(1) nxt by (simp add: base del: of_nat_mult)
    moreover from or have "bit_taken spi m (unat b) s s' \<or> b = NO_BIT \<and> unchanged s s' \<and>
        (\<forall>j<Suc n. chunks_full s spi m ((k + j) mod ?B) (if j = 0 then w else 0))"
    proof
      assume "bit_taken spi m (unat b) s2 s'"
      with bit_taken_after [OF Suc.prems(2) s2(3)] show ?thesis by blast
    next
      assume n: "b = NO_BIT \<and> unchanged s2 s' \<and>
        (\<forall>j<n. chunks_full s2 spi m ((?k + j) mod map_blocks s2 spi m) (if j = 0 then 0 else 0))"
      have "chunks_full s spi m ((k + j) mod ?B) (if j = 0 then w else 0)" if "j < Suc n" for j
      proof (cases j)
        case 0
        with full k show ?thesis by simp
      next
        case (Suc j')
        with n that have "chunks_full s2 spi m ((?k + j') mod ?B) 0" by (simp add: e(2))
        moreover have "(?k + j') mod ?B = (k + j) mod ?B" using Suc by (simp add: mod_add_left_eq)
        moreover have "(k + j) mod ?B < ?B" using g(5) by simp
        ultimately show ?thesis using chunks_full_frame [OF Suc.prems(2) s2(3)] Suc by simp
      qed
      with n unchanged_trans [OF s2(3)] show ?thesis by blast
    qed
    ultimately show ?thesis using al(2) by blast
  qed
qed


lemma unat_split:
  assumes "0 < b" "b < 2 ^ 32"
  shows "unat (n div of_nat b :: u32) = unat n div b" "unat (n mod of_nat b :: u32) = unat n mod b"
proof -
  have "unat (of_nat b :: u32) = b" using assms(2) by (intro of_nat_inverse) simp_all
  then show "unat (n div of_nat b :: u32) = unat n div b" "unat (n mod of_nat b :: u32) = unat n mod b"
    by (simp_all add: unat_div unat_mod)
qed

lemma word_unat_id: "(of_nat (unat x) :: u32) = x"
  by simp

lemma bpb_small:
  assumes "geom s spi m"
  shows "bits_per_block (super_blocks s spi) < 2 ^ 32"
proof -
  have "1 * bits_per_block (super_blocks s spi) \<le> map_blocks s spi m * bits_per_block (super_blocks s spi)"
    using geomD(5) [OF assms] by (intro mult_le_mono1) simp
  from le_less_trans [OF this geomD(9) [OF assms]] show ?thesis by (simp only: mult_1)
qed

lemma chunks_fullD:
  assumes "chunks_full s spi m (n div bits_per_block (super_blocks s spi)) 0" "n < map_limit s spi m" "geom s spi m"
  shows "map_bit s spi m n"
proof -
  let ?b = "bits_per_block (super_blocks s spi)"
  have n: "n < map_blocks s spi m * ?b" using assms(2) geomD(7) [OF assms(3)] by simp
  note ix = bit_index [OF n]
  have "(n mod ?b) div 16 * 16 + (n mod ?b) mod 16 = n mod ?b" by (rule div_mult_mod_eq)
  then have dec: "(n div ?b) * ?b + (n mod ?b div 16) * 16 + n mod 16 = n"
    using ix(3) by (metis add.assoc div_mult_mod_eq)
  have "n mod ?b div 16 \<in> {0..<bitmap_chunks (super_blocks s spi)}" "n mod 16 < 16" using ix(2) by simp_all
  then show ?thesis using assms(1,2) dec unfolding chunks_full_def by metis
qed

lemma alloc_bit_spec:
  assumes r: "ready s" and g: "geom s spi m"
  shows "\<exists>b s'. alloc_bit spi m origin s = Some (b, s') \<and> ready s' \<and>
    (bit_taken spi m (unat b) s s' \<or>
     b = NO_BIT \<and> unchanged s s' \<and> (\<forall>n<map_limit s spi m. map_bit s spi m n))"
proof -
  let ?sp = "super_blocks s spi" and ?b = "bits_per_block (super_blocks s spi)"
  let ?B = "map_blocks s spi m"
  let ?org = "if map_bits ?sp m \<le> origin then 0 else origin :: u32"
  have sm: "?b < 2 ^ 32" by (rule bpb_small [OF g])
  have org: "unat ?org < ?B * ?b"
    using geomD(4,5,7) [OF g] by (auto simp: word_le_nat_alt map_limit_def not_le)
  define k where "k = unat ?org div ?b"
  define w where "w = unat ?org mod ?b div 16"
  have k: "k < ?B" using bit_index(1) [OF org] by (simp only: k_def)
  have w: "w \<le> bitmap_chunks ?sp" using bit_index(2) [OF org] by (simp only: w_def)
  have e: "?org div of_nat ?b = of_nat k" "unat ((?org mod of_nat ?b) div 16) = w"
  proof -
    have "?org div of_nat ?b = of_nat (unat (?org div of_nat ?b))" by (rule word_unat_id [symmetric])
    then show "?org div of_nat ?b = of_nat k" using unat_split(1) [OF geomD(4) [OF g] sm, of ?org] by (simp only: k_def)
    show "unat ((?org mod of_nat ?b) div 16) = w"
      using unat_split(2) [OF geomD(4) [OF g] sm, of ?org] by (simp only: w_def unat_div) simp
  qed
  from alloc_loop_spec [OF r g k w, of "unat (bit_blocks ?sp m) + 1"] obtain b s' where
    al: "alloc_loop (unat (bit_blocks ?sp m) + 1) ?sp (map_start ?sp m) (map_bits ?sp m) (bit_blocks ?sp m) (of_nat k) w s = Some (b, s')"
    "ready s'" and or: "bit_taken spi m (unat b) s s' \<or> b = NO_BIT \<and> unchanged s s' \<and>
     (\<forall>j<unat (bit_blocks ?sp m) + 1. chunks_full s spi m ((k + j) mod ?B) (if j = 0 then w else 0))" by blast
  have "alloc_bit spi m origin s = Some (b, s')"
    using al(1) geomD(3,4) [OF g] unfolding alloc_bit_def Let_def e by (simp only: guard_bind simp_thms)
  moreover have "map_bit s spi m n"
    if f: "\<forall>j<unat (bit_blocks ?sp m) + 1. chunks_full s spi m ((k + j) mod ?B) (if j = 0 then w else 0)"
      and n: "n < map_limit s spi m" for n
  proof -
    have nb: "n div ?b < ?B" using n geomD(7) [OF g] bit_index(1) [of n s spi m] by simp
    obtain j where j: "0 < j" "j \<le> ?B" "(k + j) mod ?B = n div ?b"
    proof (cases "k < n div ?b")
      case True
      with nb show thesis by (intro that [of "n div ?b - k"]) simp_all
    next
      case False
      then have "k + (n div ?b + ?B - k) = n div ?b + ?B" using k by simp
      with nb k False show thesis by (intro that [of "n div ?b + ?B - k"]) simp_all
    qed
    then have "j < unat (bit_blocks ?sp m) + 1" by (simp add: map_blocks_def)
    with f have "chunks_full s spi m ((k + j) mod ?B) (if j = 0 then w else 0)" by blast
    then have "chunks_full s spi m (n div ?b) 0" using j(1,3) by simp
    then show ?thesis by (rule chunks_fullD [OF _ n g])
  qed
  ultimately show ?thesis using al(2) or by blast
qed

lemma free_bit_spec:
  assumes r: "ready s" and g: "geom s spi m" and n: "n < map_blocks s spi m * bits_per_block (super_blocks s spi)"
  shows "if map_bit s spi m n
    then \<exists>s'. free_bit spi m (of_nat n) s = Some s' \<and> ready s' \<and>
      (\<forall>j<map_blocks s spi m * bits_per_block (super_blocks s spi). map_bit s' spi m j \<longleftrightarrow> j \<noteq> n \<and> map_bit s spi m j) \<and>
      (\<exists>k x. k < map_blocks s spi m \<and> block_set (s_dev (super_blocks s spi)) (map_start (super_blocks s spi) m + of_nat k) x s s')
    else free_bit spi m (of_nat n) s = None"
proof -
  let ?sp = "super_blocks s spi" and ?b = "bits_per_block (super_blocks s spi)"
  let ?B = "map_blocks s spi m"
  let ?k = "n div ?b" and ?w = "n mod ?b div 16" and ?i = "n mod 16"
  note ix = bit_index [OF n]
  note k = ix(1)
  have un: "unat (of_nat n :: u32) = n" using n geomD(9) [OF g] by (intro of_nat_inverse) simp_all
  have e: "(of_nat n div of_nat ?b :: u32) = of_nat ?k" "unat ((of_nat n mod of_nat ?b :: u32) div 16) = ?w"
    "unat (of_nat n mod 16 :: u32) = ?i"
  proof -
    note sp = unat_split [OF geomD(4) [OF g] bpb_small [OF g], of "of_nat n", unfolded un]
    have "(of_nat n div of_nat ?b :: u32) = of_nat (unat (of_nat n div of_nat ?b :: u32))"
      by (rule word_unat_id [symmetric])
    then show "(of_nat n div of_nat ?b :: u32) = of_nat ?k" by (simp only: sp)
    show "unat ((of_nat n mod of_nat ?b :: u32) div 16) = ?w" by (simp only: unat_div sp) simp
    show "unat (of_nat n mod 16 :: u32) = ?i" by (simp only: unat_mod un) simp
  qed
  from bc.peek [OF r geomD(1) [OF g] geomD(8) [OF g k]] obtain bp s1 where
    get: "get_block (s_dev ?sp) (map_start ?sp m + of_nat ?k) NORMAL s = Some (bp, s1)"
    and d: "\<forall>off<bsz s (s_dev ?sp). b_data (bufs s1 bp) off = contents s (s_dev ?sp) (map_start ?sp m + of_nat ?k) off"
    and store: "\<And>t f. \<exists>s2. put_block (Some bp) t (set_data bp f s1) = Some s2 \<and> ready s2 \<and>
      block_set (s_dev ?sp) (map_start ?sp m + of_nat ?k) f s s2" by blast
  let ?d = "b_data (bufs s1 bp)"
  let ?c = "conv_chunk (s_native ?sp) (get16 (2 * ?w) ?d)"
  have chunk: "get16 (2 * ?w) ?d = map_chunk s spi m ?k ?w"
    unfolding map_chunk_def Let_def using d chunk_off [OF ix(2)] geomD(2) [OF g] by (intro get16_cong) simp_all
  have cb: "bit ?c ?i \<longleftrightarrow> map_bit s spi m n" by (simp add: map_bit_def Let_def chunk)
  let ?f = "put16 (2 * ?w) (conv_chunk (s_native ?sp) (unset_bit ?i ?c)) ?d"
  have free: "free_bit spi m (of_nat n) s =
      do { guard (bit ?c ?i); put_block (Some bp) MAP_BLOCK (set_data bp ?f s1) }"
    using geomD(3,4) [OF g] get unfolding free_bit_def Let_def e by (simp only: guard_bind simp_thms bind.bind_lunit prod.case)
  show ?thesis
  proof (cases "map_bit s spi m n")
    case False
    with free cb show ?thesis by (simp add: guard_def)
  next
    case True
    from store [of MAP_BLOCK ?f] obtain s2 where s2: "put_block (Some bp) MAP_BLOCK (set_data bp ?f s1) = Some s2"
      "ready s2" "block_set (s_dev ?sp) (map_start ?sp m + of_nat ?k) ?f s s2" by blast
    have dec: "?k * ?b + ?w * 16 + ?i = n"
      using ix(3) div_mult_mod_eq [of "n mod ?b" 16] by (metis add.assoc div_mult_mod_eq)
    have "map_bit s2 spi m j \<longleftrightarrow> j \<noteq> n \<and> map_bit s spi m j" if j: "j < ?B * ?b" for j
    proof -
      have "bit (unset_bit ?i ?c) l \<longleftrightarrow> (if l = ?i then False else bit (conv_chunk (s_native ?sp) (map_chunk s spi m ?k ?w)) l)"
        if "l < 16" for l using that by (auto simp: bit_simps chunk)
      from map_bit_store [OF g k ix(2) _ d s2(3) this j] dec show ?thesis by simp
    qed
    moreover have "free_bit spi m (of_nat n) s = Some s2" using free cb True s2(1) by simp
    ultimately show ?thesis using True s2(2,3) k by auto
  qed
qed


text \<open>
  C16. On a writable file system whose bit map has blocks for all its bits, \<open>alloc_bit\<close> returns whatever
  origin it starts from: it finds a free bit below the end of the map, if there is one, and takes exactly
  this bit; no other bit and no other block changes. If all bits are taken it reports \<^verbatim>\<open>NO_BIT\<close> and changes
  nothing. (Since \<^verbatim>\<open>NO_BIT\<close> is 0, the report can be told from a success only if bit 0 is taken, as it is
  after \<^verbatim>\<open>mkfs\<close>.)
\<close>

theorem alloc_bit_finds:
  assumes "ready s" and "geom s spi m"
  shows "\<exists>b s'. alloc_bit spi m origin s = Some (b, s') \<and> ready s' \<and>
    (bit_taken spi m (unat b) s s' \<or>
     b = NO_BIT \<and> unchanged s s' \<and> (\<forall>n<map_limit s spi m. map_bit s spi m n))"
  using assms by (rule alloc_bit_spec)

text \<open>A small file system on an empty disk, for the witnesses.\<close>

definition demo_super :: super_block where
  "demo_super = zero_super\<lparr>s_ninodes := 100, s_imap_blocks := 1, s_zmap_blocks := 1, s_firstdatazone := 10,
     s_zones := 200, s_block_size := 1024, s_dev := 5, s_native := True, s_version := 3\<rparr>"

definition demo_vol :: fsstate where
  "demo_vol = buf_pool ((fs_zero demo_msg (\<lambda>_ a. if a = 3072 then 1 else 0))\<lparr>super_blocks := (\<lambda>i. if i = 0 then demo_super else zero_super)\<rparr>)"

lemma demo_vol_facts:
  "ready demo_vol" "super_blocks demo_vol 0 = demo_super" "bsz demo_vol 5 = 1024"
  "off < 1024 \<Longrightarrow> contents demo_vol 5 3 off = (if off = 0 then 1 else 0)"
proof -
  let ?s = "(fs_zero demo_msg (\<lambda>_ a. if a = 3072 then 1 else 0))\<lparr>super_blocks := (\<lambda>i. if i = 0 then demo_super else zero_super)\<rparr>"
  have z: "\<forall>i<NR_BUFS. b_count (bufs ?s i) = 0" "\<forall>h. buf_hash ?s h = None"
    by (simp_all add: fs_zero_def zero_buf_def)
  note p = buf_pool_cache [OF z, folded demo_vol_def]
  have "io_works demo_vol" using p(5) by (simp add: io_works_def fs_zero_def)
  moreover have "\<exists>i<NR_BUFS. b_count (bufs demo_vol i) = 0" using p(7) by (intro exI [of _ 0]) (simp add: NR_BUFS_def)
  ultimately show "ready demo_vol" using p(1,7) by (simp add: ready_def)
  show sb: "super_blocks demo_vol 0 = demo_super" using p(4) by simp
  have n: "super_nrs = 0 # [1..<8]" by (simp add: super_nrs_def upt_rec)
  have "s_dev demo_super = 5" by (simp add: demo_super_def)
  then have "find_super 5 super_nrs demo_vol = Some 0" unfolding n by (simp add: sb)
  then show "bsz demo_vol 5 = 1024" by (simp add: bsz_def get_block_size_def sb) (simp add: demo_super_def)
  show "contents demo_vol 5 3 off = (if off = 0 then 1 else 0)" if "off < 1024"
  proof -
    have "unat (3072 + of_nat off :: u32) = 3072 + off" using that by (intro of_nat_inverse) simp_all
    then have "3072 + of_nat off = (3072 :: u32) \<longleftrightarrow> off = 0" by (simp add: word_unat_eq_iff)
    then show ?thesis using p(2,3) \<open>bsz demo_vol 5 = 1024\<close> by (simp add: contents_def fs_zero_def byte_pos_def)
  qed
qed

lemma demo_vol_geom: "geom demo_vol 0 ZMAP" "map_limit demo_vol 0 ZMAP = 191" "bits_per_block demo_super = 8192"
proof -
  show b: "bits_per_block demo_super = 8192" by (simp add: bits_per_block_def bitmap_chunks_def demo_super_def)
  show l: "map_limit demo_vol 0 ZMAP = 191"
    by (simp add: map_limit_def map_bits_def demo_vol_facts(2)) (simp add: demo_super_def)
  have B: "map_blocks demo_vol 0 ZMAP = 1"
    by (simp add: map_blocks_def bit_blocks_def demo_vol_facts(2)) (simp add: demo_super_def)
  have st: "map_start demo_super ZMAP = 3" by (simp add: map_start_def demo_super_def)
  have sel: "s_dev demo_super = 5" "s_block_size demo_super = 1024" "\<not> s_rd_only demo_super"
    by (simp_all add: demo_super_def zero_super_def)
  show "geom demo_vol 0 ZMAP"
    unfolding geom_def Let_def demo_vol_facts(2) b l B st sel using sel demo_vol_facts(3) by (simp add: fits_def)
qed

lemma demo_vol_bits: "map_bit demo_vol 0 ZMAP 0" "\<not> map_bit demo_vol 0 ZMAP 1" "\<not> map_bit demo_vol 0 ZMAP 20"
proof -
  have sel: "s_dev demo_super = 5" "map_start demo_super ZMAP = 3" "s_native demo_super"
    by (simp_all add: demo_super_def map_start_def)
  have "map_chunk demo_vol 0 ZMAP 0 0 = 1" "map_chunk demo_vol 0 ZMAP 0 1 = 0"
    by (simp_all add: map_chunk_def Let_def demo_vol_facts sel get16_def)
  then show "map_bit demo_vol 0 ZMAP 0" "\<not> map_bit demo_vol 0 ZMAP 1" "\<not> map_bit demo_vol 0 ZMAP 20"
    by (simp_all add: map_bit_def Let_def demo_vol_facts(2) demo_vol_geom(3) sel bit_conv_chunk)
qed

theorem alloc_bit_finds_witness:
  "\<exists>b s'. alloc_bit 0 ZMAP 7 demo_vol = Some (b, s') \<and> ready s' \<and> bit_taken 0 ZMAP (unat b) demo_vol s'"
proof -
  have "\<exists>n<map_limit demo_vol 0 ZMAP. \<not> map_bit demo_vol 0 ZMAP n"
    using demo_vol_bits(2) demo_vol_geom(2) by (intro exI [of _ 1]) simp
  with alloc_bit_finds [OF demo_vol_facts(1) demo_vol_geom(1), of 7] demo_vol_geom(2) show ?thesis by blast
qed

text \<open>
  C18. Freeing a bit that was taken clears exactly this bit; freeing a bit that is free already is a
  panic, so a zone or an inode cannot be freed twice.
\<close>

theorem free_bit_clears:
  assumes "ready s" and "geom s spi m" and "n < map_blocks s spi m * bits_per_block (super_blocks s spi)"
  shows "if map_bit s spi m n
    then \<exists>s'. free_bit spi m (of_nat n) s = Some s' \<and> ready s' \<and>
      (\<forall>j<map_blocks s spi m * bits_per_block (super_blocks s spi). map_bit s' spi m j \<longleftrightarrow> j \<noteq> n \<and> map_bit s spi m j) \<and>
      (\<exists>k x. k < map_blocks s spi m \<and> block_set (s_dev (super_blocks s spi)) (map_start (super_blocks s spi) m + of_nat k) x s s')
    else free_bit spi m (of_nat n) s = None"
  using assms by (rule free_bit_spec)

theorem free_bit_clears_witness:
  "free_bit 0 ZMAP (of_nat 20) demo_vol = None"
proof -
  have B: "map_blocks demo_vol 0 ZMAP = 1"
    by (simp add: map_blocks_def bit_blocks_def demo_vol_facts(2)) (simp add: demo_super_def)
  with demo_vol_bits(3) free_bit_clears [OF demo_vol_facts(1) demo_vol_geom(1), of 20] show ?thesis
    by (simp add: B demo_vol_facts(2) demo_vol_geom(3))
qed

text \<open>
  C17. Freeing the bit that was just allocated restores the bit map.
\<close>

theorem alloc_free_bit:
  assumes r: "ready s" and g: "geom s spi m" and a: "alloc_bit spi m origin s = Some (b, s1)"
    and f: "\<exists>n<map_limit s spi m. \<not> map_bit s spi m n"
  shows "\<exists>s2. free_bit spi m b s1 = Some s2 \<and> ready s2 \<and>
    (\<forall>n<map_blocks s spi m * bits_per_block (super_blocks s spi). map_bit s2 spi m n = map_bit s spi m n)"
proof -
  from alloc_bit_spec [OF r g, of origin] a f have r1: "ready s1" and t: "bit_taken spi m (unat b) s s1" by auto
  from t have eq: "super_blocks s1 = super_blocks s" by (auto simp: bit_taken_def block_set_def cache_frame_sel)
  note e = geom_frame [OF eq]
  have n: "unat b < map_blocks s spi m * bits_per_block (super_blocks s spi)"
    using t geomD(7) [OF g] by (simp add: bit_taken_def)
  have "map_bit s1 spi m (unat b)" using t n by (simp add: bit_taken_def)
  with free_bit_spec [OF r1, of spi m "unat b"] g n e eq obtain s2 where
    "free_bit spi m (of_nat (unat b)) s1 = Some s2" "ready s2"
    "\<forall>j<map_blocks s spi m * bits_per_block (super_blocks s spi). map_bit s2 spi m j \<longleftrightarrow> j \<noteq> unat b \<and> map_bit s1 spi m j"
    by auto
  moreover have "of_nat (unat b) = b" by (rule word_unat_id)
  ultimately show ?thesis using t by (auto simp: bit_taken_def)
qed

theorem alloc_free_bit_witness:
  "\<exists>b s1 s2. alloc_bit 0 ZMAP 7 demo_vol = Some (b, s1) \<and> free_bit 0 ZMAP b s1 = Some s2 \<and> ready s2"
proof -
  have "\<exists>n<map_limit demo_vol 0 ZMAP. \<not> map_bit demo_vol 0 ZMAP n"
    using demo_vol_bits(2) demo_vol_geom(2) by (intro exI [of _ 1]) simp
  moreover obtain b s1 where "alloc_bit 0 ZMAP 7 demo_vol = Some (b, s1)"
    using alloc_bit_spec [OF demo_vol_facts(1) demo_vol_geom(1)] by blast
  ultimately show ?thesis using alloc_free_bit [OF demo_vol_facts(1) demo_vol_geom(1)] by blast
qed

definition sane_super :: "int \<Rightarrow> super_block \<Rightarrow> bool" where
  "sane_super dev sb \<longleftrightarrow> s_dev sb = dev \<and> 1024 \<le> s_block_size sb \<and> s_block_size sb \<le> 4096 \<and>
     s_block_size sb mod 512 = 0 \<and> 1 \<le> s_imap_blocks sb \<and> 1 \<le> s_zmap_blocks sb \<and> s_ninodes sb \<noteq> 0 \<and>
     s_zones sb \<noteq> 0 \<and> 0 \<le> s_log_zone_size sb \<and> s_log_zone_size sb \<le> 4 \<and> s_version sb \<in> {1, 2, 3} \<and>
     0 < s_inodes_per_block sb \<and> s_ndzones sb = 7 \<and> 0 < s_nindirs sb"

lemma check_super_result:
  assumes "check_super dev sb = (r, msg, sb')" "s_dev sb = NO_DEV"
  shows "r = OK \<and> sane_super dev sb' \<or> r = EINVAL \<and> s_dev sb' = NO_DEV"
proof (cases "fs_version (s_magic sb)")
  case None
  with assms show ?thesis by (simp add: check_super_def)
next
  case (Some vn)
  obtain v n where vn: "vn = (v, n)" by (cases vn)
  have v: "v \<in> {1, 2, 3}" using Some vn by (auto simp: fs_version_def split: if_splits)
  let ?sb1 = "conv_super n sb"
  have d1: "s_dev ?sb1 = NO_DEV" using assms(2) by (simp add: conv_super_def)
  show ?thesis
  proof (cases "version_fields v ?sb1")
    case None
    with assms(1) Some vn d1 show ?thesis by (auto simp: check_super_def Let_def split: if_splits)
  next
    case (Some sb2)
    then have d2: "s_dev sb2 = NO_DEV" "s_ndzones sb2 = 7"
      "1024 \<le> s_block_size sb2 \<Longrightarrow> 0 < s_inodes_per_block sb2 \<and> 0 < s_nindirs sb2"
      using d1 by (auto simp: version_fields_def Let_def split: if_splits)
    let ?sb3 = "sb2\<lparr>s_isearch := 0, s_zsearch := 0, s_version := v, s_native := n\<rparr>"
    have "check_super dev sb =
       (if MAX_BLOCK_SIZE < s_block_size sb2 then (EINVAL, Some ''Filesystem block size too large'', sb2)
        else if bad_block_size (s_block_size sb2) then (EINVAL, None, sb2)
        else if s_imap_blocks sb2 < 1 \<or> s_zmap_blocks sb2 < 1 \<or> s_ninodes sb2 < 1 \<or> s_zones sb2 < 1 \<or>
                    s_log_zone_size sb2 < 0 \<or> 4 < s_log_zone_size sb2
        then (EINVAL, Some ''not enough imap or zone map blocks'', ?sb3)
        else (OK, None, ?sb3\<lparr>s_dev := dev\<rparr>))"
      using \<open>fs_version (s_magic sb) = Some vn\<close> vn Some by (simp add: check_super_def)
    with assms(1) d2 v show ?thesis
      by (auto simp: sane_super_def bad_block_size_def not_less split: if_splits)
  qed
qed

lemma find_super_none: "(\<And>i. i \<in> set is \<Longrightarrow> s_dev (super_blocks s i) \<noteq> d) \<Longrightarrow> find_super d is s = None"
  by (induction "is") auto

lemma read_super_result:
  assumes "read_super spi s = Some (r, s')"
  defines "dev \<equiv> s_dev (super_blocks s spi)"
  shows "dev \<noteq> NO_DEV \<and> (r = OK \<or> r = EINVAL) \<and>
    (\<forall>j. j \<noteq> spi \<longrightarrow> super_blocks s' j = super_blocks s j) \<and>
    (if (case io_ans s (io_cnt s) of Io_all \<Rightarrow> False | Io_status x _ \<Rightarrow> x \<noteq> int MIN_BLOCK_SIZE)
     then r = EINVAL \<and> super_blocks s' spi = super_blocks s spi
     else if r = OK then s_dev (super_blocks s' spi) = dev \<and> sane_super dev (super_blocks s' spi)
     else s_dev (super_blocks s' spi) = NO_DEV \<and>
       ((\<forall>j < NR_SUPERS. j \<noteq> spi \<longrightarrow> s_dev (super_blocks s j) \<noteq> dev) \<longrightarrow> get_super dev s' = None))"
proof -
  let ?sb = "load_super (\<lambda>i. disk s dev (SUPER_BLOCK_BYTES + of_nat i)) (super_blocks s spi)"
  let ?failed = "case io_ans s (io_cnt s) of Io_all \<Rightarrow> False | Io_status x _ \<Rightarrow> x \<noteq> int MIN_BLOCK_SIZE"
  have nd: "s_dev ?sb = NO_DEV" by (simp add: load_super_def)
  obtain res msg sb' where c: "check_super dev ?sb = (res, msg, sb')" by (cases "check_super dev ?sb") auto
  from assms(1) have d: "dev \<noteq> NO_DEV"
    and e: "if ?failed then r = EINVAL \<and> super_blocks s' = super_blocks s
      else r = res \<and> super_blocks s' = (super_blocks s)(spi := sb')"
    by (auto simp: read_super_def Let_def c upd_super_def fs_tell_def dev_def [symmetric]
        split: if_splits option.splits io_reply.splits)
  note k = check_super_result [OF c nd]
  show ?thesis
  proof (cases "?failed")
    case True
    with d e show ?thesis by simp
  next
    case False
    with e have r: "r = res" "super_blocks s' = (super_blocks s)(spi := sb')" by simp_all
    have "get_super dev s' = None" if "res \<noteq> OK" "\<forall>j < NR_SUPERS. j \<noteq> spi \<longrightarrow> s_dev (super_blocks s j) \<noteq> dev"
    proof -
      have "s_dev (super_blocks s' j) \<noteq> dev" if j: "j \<in> set super_nrs" for j
        using j \<open>\<forall>j < NR_SUPERS. _ j\<close> k \<open>res \<noteq> OK\<close> d by (cases "j = spi") (auto simp: r super_nrs_def)
      then have "find_super dev super_nrs s' = None" by (rule find_super_none)
      then show ?thesis by (simp add: get_super_def)
    qed
    with False d r k show ?thesis by (auto simp: sane_super_def)
  qed
qed

text \<open>
  C19. \<^verbatim>\<open>read_super\<close> on a slot with a device returns, whatever the disk holds: it fails to read, accepts
  or rejects (on a slot without a device it panics). If the transfer fails it returns EINVAL and leaves
  the table alone, so the slot keeps its device (clearing it is up to the caller). If it accepts, the
  slot has its device again and the super block is well formed: its block size is a multiple of 512
  between 1024 and 4096, both bit maps have a block, there are inodes and zones, the zone size is at
  most 16 blocks, and the numbers that are used as divisors are positive. If it rejects what it has
  read (magic number, block size or geometry), it returns EINVAL and the slot has no device, so
  \<^verbatim>\<open>get_super\<close> does not find one for it. The other slots stay as they are.
\<close>

theorem read_super_accepts:
  assumes "s_dev (super_blocks s spi) = dev"
  shows "(dev = NO_DEV \<longrightarrow> read_super spi s = None) \<and>
    (dev \<noteq> NO_DEV \<longrightarrow> (\<exists>r s'. read_super spi s = Some (r, s') \<and> (r = OK \<or> r = EINVAL) \<and>
      (\<forall>j. j \<noteq> spi \<longrightarrow> super_blocks s' j = super_blocks s j) \<and>
      (if (case io_ans s (io_cnt s) of Io_all \<Rightarrow> False | Io_status x _ \<Rightarrow> x \<noteq> int MIN_BLOCK_SIZE)
       then r = EINVAL \<and> super_blocks s' spi = super_blocks s spi
       else if r = OK then s_dev (super_blocks s' spi) = dev \<and> sane_super dev (super_blocks s' spi)
       else s_dev (super_blocks s' spi) = NO_DEV \<and>
         ((\<forall>j < NR_SUPERS. j \<noteq> spi \<longrightarrow> s_dev (super_blocks s j) \<noteq> dev) \<longrightarrow> get_super dev s' = None))))"
proof -
  show ?thesis
  proof (cases "dev = NO_DEV")
    case True
    with assms show ?thesis by (simp add: read_super_def guard_def)
  next
    case False
    then have "read_super spi s \<noteq> None"
      using assms by (simp add: read_super_def guard_def Let_def split: prod.split)
    then obtain r s' where "read_super spi s = Some (r, s')" by (metis not_None_eq surj_pair)
    with read_super_result [OF this, unfolded assms] False show ?thesis by blast
  qed
qed

text \<open>A file system of version 3 with the fields of the demo volume.\<close>

definition demo_disk :: "int \<Rightarrow> u32 \<Rightarrow> u8" where
  "demo_disk dev a = (if a = 1024 then 100 else if a = 1030 then 1 else if a = 1032 then 1 else if a = 1034 then 10
     else if a = 1044 then 200 else if a = 1048 then 0x5a else if a = 1049 then 0x4d else if a = 1053 then 4 else 0)"

theorem read_super_accepts_witness:
  "\<exists>s'. read_super 0 ((fs_zero demo_msg demo_disk)\<lparr>super_blocks := (\<lambda>_. demo_super)\<rparr>) = Some (OK, s') \<and>
     s_dev (super_blocks s' 0) = 5 \<and> sane_super 5 (super_blocks s' 0)"
proof -
  let ?s = "(fs_zero demo_msg demo_disk)\<lparr>super_blocks := (\<lambda>_. demo_super)\<rparr>"
  have sel: "s_dev (super_blocks ?s 0) = 5" by (simp add: demo_super_def)
  have "fst (check_super 5 (load_super (\<lambda>i. demo_disk 5 (1024 + of_nat i)) demo_super)) = OK"
    by code_simp
  then obtain msg sb where c: "check_super 5 (load_super (\<lambda>i. demo_disk 5 (1024 + of_nat i)) demo_super) = (OK, msg, sb)"
    by (metis prod.collapse)
  have "\<exists>s'. read_super 0 ?s = Some (OK, s')"
  proof -
    have d: "s_dev demo_super = 5" by (simp add: demo_super_def)
    show ?thesis using c by (simp add: read_super_def d fs_zero_def Let_def)
  qed
  then obtain s' where s': "read_super 0 ?s = Some (OK, s')" by blast
  from read_super_accepts [OF sel] s' show ?thesis by (simp add: fs_zero_def)
qed


subsection \<open>Zones\<close>

text \<open>Where a search for a free bit starts does not matter to the cache.\<close>

lemma set_zsearch:
  fixes s :: fsstate and spi :: nat and b :: u32
  defines "t \<equiv> upd_super spi (\<lambda>sb. sb\<lparr>s_zsearch := b\<rparr>) s"
  shows "bsz t = bsz s" "fits t = fits s" "contents t = contents s" "ready t = ready s" "map_bit t spi m n = map_bit s spi m n"
    "s_firstdatazone (super_blocks t spi) = s_firstdatazone (super_blocks s spi)"
proof -
  have sel: "s_dev (super_blocks t i) = s_dev (super_blocks s i)"
    "s_block_size (super_blocks t i) = s_block_size (super_blocks s i)" for i
    by (simp_all add: t_def upd_super_def)
  have "find_super d is t = find_super d is s" for d "is" by (induction "is") (simp_all add: sel)
  then show b: "bsz t = bsz s" by (simp add: bsz_def get_block_size_def sel fun_eq_iff split: option.split)
  then show f: "fits t = fits s" by (simp add: fits_def fun_eq_iff)
  have e: "bufs t = bufs s" "disk t = disk s" "front t = front s" "rear t = rear s" "buf_hash t = buf_hash s"
    "io_ans t = io_ans s" by (simp_all add: t_def upd_super_def)
  have "cached t = cached s" by (simp add: cached_def e fun_eq_iff)
  then show c: "contents t = contents s" by (simp add: contents_def e b fun_eq_iff split: option.split)
  have "coherent t = coherent s" by (simp add: coherent_def e b f)
  moreover have "nxt t = nxt s" "prv t = prv s" "hsh t = hsh s"
    by (simp_all add: nxt_def prv_def hsh_def e fun_eq_iff)
  then have "linked {} t = linked {} s"
    by (simp add: linked_def lru_chain_def hash_chains_def free_bufs_def e)
  ultimately show "ready t = ready s" by (simp add: ready_def cache_ok_def io_works_def e)
  have "map_start (super_blocks t spi) m = map_start (super_blocks s spi) m"
    "bits_per_block (super_blocks t spi) = bits_per_block (super_blocks s spi)"
    "s_native (super_blocks t spi) = s_native (super_blocks s spi)"
    by (simp_all add: t_def upd_super_def map_start_def bits_per_block_def bitmap_chunks_def split: map_kind.split)
  then show "map_bit t spi m n = map_bit s spi m n" by (simp add: map_bit_def map_chunk_def Let_def sel c)
  show "s_firstdatazone (super_blocks t spi) = s_firstdatazone (super_blocks s spi)" by (simp add: t_def upd_super_def)
qed

text \<open>The bit of a zone.\<close>

definition zone_used :: "fsstate \<Rightarrow> nat \<Rightarrow> u32 \<Rightarrow> bool" where
  "zone_used s spi z = map_bit s spi ZMAP (unat (z - (ucast (s_firstdatazone (super_blocks s spi)) - 1)))"

text \<open>
  \<open>alloc_zone\<close> returns a zone of the data area that was free and marks it as used, or reports
  \<^verbatim>\<open>ENOSPC\<close> when all zones are used. (Bit 0 of the map is reserved; \<^verbatim>\<open>mkfs\<close> sets it.)
\<close>

theorem alloc_zone_fresh:
  assumes r: "ready s" and g: "geom s spi ZMAP" and sp: "get_super dev s = Some spi"
    and b0: "map_bit s spi ZMAP 0"
    and fz: "s_firstdatazone (super_blocks s spi) \<noteq> 0" "ucast (s_firstdatazone (super_blocks s spi)) \<le> s_zones (super_blocks s spi)"
  shows "\<exists>z' s'. alloc_zone dev z s = Some (z', s') \<and>
    (z' = NO_ZONE \<and> err_code s' = ENOSPC \<and> (\<forall>n<map_limit s spi ZMAP. map_bit s spi ZMAP n) \<or>
     ready s' \<and> ucast (s_firstdatazone (super_blocks s spi)) \<le> z' \<and> z' < s_zones (super_blocks s spi) \<and>
     \<not> zone_used s spi z' \<and> zone_used s' spi z')"
proof -
  let ?sp = "super_blocks s spi"
  define fdz where "fdz = (ucast (s_firstdatazone ?sp) :: u32)"
  define org where "org = (if z = fdz then s_zsearch ?sp else z - (fdz - 1))"
  from alloc_bit_spec [OF r g, of org] obtain b s1 where
    al: "alloc_bit spi ZMAP org s = Some (b, s1)" "ready s1"
    and or: "bit_taken spi ZMAP (unat b) s s1 \<or> b = NO_BIT \<and> unchanged s s1 \<and> (\<forall>n<map_limit s spi ZMAP. map_bit s spi ZMAP n)"
    by blast
  have az: "alloc_zone dev z s = (if b = NO_BIT
      then Some (NO_ZONE, fs_tell (Fs_printf ''No space on device'') (s1\<lparr>err_code := ENOSPC\<rparr>))
      else Some (fdz - 1 + b, if z = fdz then upd_super spi (\<lambda>sb. sb\<lparr>s_zsearch := b\<rparr>) s1 else s1))"
    by (simp only: alloc_zone_def Let_def sp Option.bind.simps fdz_def [symmetric] org_def [symmetric] al(1) prod.case)
  show ?thesis
  proof (cases "b = NO_BIT")
    case True
    with or b0 have "\<forall>n<map_limit s spi ZMAP. map_bit s spi ZMAP n" by (auto simp: bit_taken_def)
    with True az show ?thesis by (simp add: fs_tell_def)
  next
    case False
    with or have t: "bit_taken spi ZMAP (unat b) s s1" by blast
    from t have eq: "super_blocks s1 = super_blocks s" by (auto simp: bit_taken_def block_set_def cache_frame_sel)
    let ?z = "fdz - 1 + b"
    define s2 where "s2 = (if z = fdz then upd_super spi (\<lambda>sb. sb\<lparr>s_zsearch := b\<rparr>) s1 else s1)"
    have f1: "0 < fdz"
    proof -
      have "unat fdz = unat (s_firstdatazone ?sp)"       proof -
        have "unat (s_firstdatazone ?sp) < 2 ^ LENGTH(16)" by (rule unsigned_less)
        then show ?thesis by (simp add: fdz_def unsigned_ucast_eq take_bit_nat_eq_self)
      qed
      with fz(1) show ?thesis by (simp add: word_less_nat_alt unat_gt_0)
    qed
    have b: "0 < b" using False by (simp add: word_neq_0_conv)
    have lim: "map_limit s spi ZMAP = unat (s_zones ?sp - (fdz - 1))"
      by (simp add: map_limit_def map_bits_def fdz_def)
    have uz: "unat (s_zones ?sp - (fdz - 1)) = unat (s_zones ?sp) - (unat fdz - 1)"
    proof -
      have u1: "unat (fdz - 1) = unat fdz - 1" using f1 by (simp add: unat_sub word_le_nat_alt word_less_nat_alt)
      then have "fdz - 1 \<le> s_zones ?sp" using fz(2) by (simp add: word_le_nat_alt fdz_def)
      then show ?thesis using u1 by (simp add: unat_sub)
    qed
    have bl: "unat b < unat (s_zones ?sp) - (unat fdz - 1)" using t lim uz by (simp add: bit_taken_def)
    have u1: "unat (fdz - 1) = unat fdz - 1" using f1 by (simp add: unat_sub word_le_nat_alt word_less_nat_alt)
    have zlt: "unat (s_zones ?sp) < 2 ^ LENGTH(32)" by (rule unsigned_less)
    have uv: "unat ?z = unat (fdz - 1) + unat b"
      using bl u1 zlt by (intro unat_add_lem [THEN iffD1]) simp
    have "fdz \<le> ?z" "?z < s_zones ?sp"
      using uv u1 bl b f1 by (simp_all add: word_le_nat_alt word_less_nat_alt)
    moreover have "zone_used s spi ?z = map_bit s spi ZMAP (unat b)"
      by (simp add: zone_used_def fdz_def [symmetric])
    moreover have "zone_used s2 spi ?z = map_bit s1 spi ZMAP (unat b)"
      by (simp add: zone_used_def s2_def set_zsearch eq fdz_def [symmetric])
    moreover have "map_bit s1 spi ZMAP (unat b)"
      using t geomD(7) [OF g] by (simp add: bit_taken_def)
    moreover have "ready s2" using al(2) by (simp add: s2_def set_zsearch)
    ultimately show ?thesis using az False t by (auto simp: s2_def [symmetric] fdz_def [symmetric] bit_taken_def)
  qed
qed


theorem alloc_zone_fresh_witness:
  "\<exists>z s'. alloc_zone 5 10 demo_vol = Some (z, s') \<and> ready s' \<and> 10 \<le> z \<and> zone_used s' 0 z"
proof -
  have n: "super_nrs = 0 # [1..<8]" by (simp add: super_nrs_def upt_rec)
  have sel: "s_dev demo_super = 5" "s_firstdatazone demo_super = 10" "s_zones demo_super = 200"
    by (simp_all add: demo_super_def)
  have "get_super 5 demo_vol = Some 0" unfolding get_super_def n by (simp add: demo_vol_facts(2) sel)
  from alloc_zone_fresh [OF demo_vol_facts(1) demo_vol_geom(1) this demo_vol_bits(1), of 10]
  obtain z s' where z: "alloc_zone 5 10 demo_vol = Some (z, s')"
    "z = NO_ZONE \<and> err_code s' = ENOSPC \<and> (\<forall>n<map_limit demo_vol 0 ZMAP. map_bit demo_vol 0 ZMAP n) \<or>
     ready s' \<and> ucast (s_firstdatazone demo_super) \<le> z \<and> z < s_zones demo_super \<and>
     \<not> zone_used demo_vol 0 z \<and> zone_used s' 0 z" by (auto simp: demo_vol_facts(2) sel)
  moreover have "1 < map_limit demo_vol 0 ZMAP" by (simp add: demo_vol_geom(2))
  ultimately show ?thesis using demo_vol_bits(2) by (auto simp: sel)
qed

end
