(* ===== verification/FS_Hold.thy ===== *)
theory FS_Hold
  imports FS_Buffers
begin

text \<open>
  Holding blocks of the cache across other operations. The rest of the file system gets a block, keeps
  its buffer while it calls operations that get and release other blocks (and allocate zones), changes
  it, and releases it at last. \<open>spare n s\<close> says that the cache is well formed and \<open>n\<close> more buffers can be
  taken; \<open>holds\<close> that a buffer is in use for a block; \<open>stored\<close> what happened to the contents. The lemmas
  here extend the laws of the interface \<open>block_store\<close> of theory \<open>FS_Buffers\<close> to such nested uses, and to
  blocks that are not read because they are overwritten as a whole (\<^verbatim>\<open>NO_READ\<close>).
\<close>

subsection \<open>Free buffers\<close>

definition idle_bufs :: "fsstate \<Rightarrow> nat set" where
  "idle_bufs s = {i. i < NR_BUFS \<and> b_count (bufs s i) = 0}"

definition spare :: "nat \<Rightarrow> fsstate \<Rightarrow> bool" where
  "spare n s \<longleftrightarrow> cache_ok s \<and> io_works s \<and> n \<le> card (idle_bufs s) \<and> (\<forall>i<NR_BUFS. b_count (bufs s i) + int n \<le> 127)"

definition holds :: "fsstate \<Rightarrow> nat \<Rightarrow> int \<Rightarrow> u32 \<Rightarrow> bool" where
  "holds s bp d k \<longleftrightarrow> bp < NR_BUFS \<and> 0 < b_count (bufs s bp) \<and> b_dev (bufs s bp) = d \<and> b_blocknr (bufs s bp) = k \<and> d \<noteq> NO_DEV"

definition stored :: "int \<Rightarrow> u32 \<Rightarrow> bytes \<Rightarrow> fsstate \<Rightarrow> fsstate \<Rightarrow> bool" where
  "stored dev block f s s' \<longleftrightarrow> cache_frame s s' \<and>
     (\<forall>d k off. d \<noteq> NO_DEV \<longrightarrow> fits s d k \<longrightarrow> off < bsz s d \<longrightarrow>
        contents s' d k off = (if d = dev \<and> k = block then f off else contents s d k off))"

lemma block_set_stored: "block_set d k f s s' \<longleftrightarrow> stored d k f s s' \<and> users_kept s s'"
  by (auto simp: block_set_def stored_def)

lemma finite_idle [simp]: "finite (idle_bufs s)"
  by (simp add: idle_bufs_def)

lemma idle_bufs_cong: "users_kept s s' \<Longrightarrow> idle_bufs s' = idle_bufs s"
  by (auto simp: idle_bufs_def users_kept_def)

lemma spare_ready: "spare n s \<Longrightarrow> 0 < n \<Longrightarrow> ready s"
proof -
  assume s: "spare n s" "0 < n"
  then have "0 < card (idle_bufs s)" unfolding spare_def by linarith
  then have "idle_bufs s \<noteq> {}" by (auto simp only: card_gt_0_iff)
  then have "\<exists>i<NR_BUFS. b_count (bufs s i) = 0" by (auto simp: idle_bufs_def)
  moreover have "b_count (bufs s i) < 127" if "i < NR_BUFS" for i
  proof -
    from s(1) that have "b_count (bufs s i) + int n \<le> 127" by (simp add: spare_def)
    with s(2) show ?thesis by simp
  qed
  ultimately show ?thesis using s(1) by (simp add: spare_def ready_def)
qed

lemma ready_spare: "ready s \<Longrightarrow> spare 1 s"
proof -
  assume r: "ready s"
  then have "idle_bufs s \<noteq> {}" by (auto simp: ready_def idle_bufs_def)
  then have "0 < card (idle_bufs s)" by (simp add: card_gt_0_iff)
  moreover have "b_count (bufs s i) + 1 \<le> 127" if "i < NR_BUFS" for i
  proof -
    from r that have "b_count (bufs s i) < 127" by (simp add: ready_def)
    then show ?thesis by simp
  qed
  ultimately show ?thesis using r by (simp add: ready_def spare_def)
qed

lemma spare_mono: "spare n s \<Longrightarrow> m \<le> n \<Longrightarrow> spare m s"
  by (force simp: spare_def)

lemma spare_kept: "spare n s \<Longrightarrow> users_kept s s' \<Longrightarrow> cache_ok s' \<Longrightarrow> io_works s' \<Longrightarrow> spare n s'"
  using idle_bufs_cong [of s s'] by (simp add: spare_def users_kept_def)

lemma spare_ready_kept: "spare n s \<Longrightarrow> users_kept s s' \<Longrightarrow> ready s' \<Longrightarrow> spare n s'"
  by (rule spare_kept) (simp_all add: ready_def)

lemma spare_in_use:
  assumes s: "spare (Suc n) s" and u: "in_use bp s s'" and ok: "cache_ok s'" "io_works s'"
  shows "spare n s'"
proof -
  have "idle_bufs s - {bp} \<subseteq> idle_bufs s'" using u by (auto simp: idle_bufs_def in_use_def)
  then have "card (idle_bufs s - {bp}) \<le> card (idle_bufs s')" by (intro card_mono) simp_all
  moreover have "card (idle_bufs s) - 1 \<le> card (idle_bufs s - {bp})"
    using card_Diff1_le [of "idle_bufs s" bp] by (simp add: card_Diff_singleton_if)
  moreover have "b_count (bufs s' i) + int n \<le> 127" if "i < NR_BUFS" for i
  proof -
    from s that have "b_count (bufs s i) + int (Suc n) \<le> 127" by (simp add: spare_def)
    moreover from u that have "b_count (bufs s' i) \<le> b_count (bufs s i) + 1" by (auto simp: in_use_def)
    ultimately show ?thesis by simp
  qed
  moreover have "Suc n \<le> card (idle_bufs s)" using s by (simp add: spare_def)
  ultimately show ?thesis using ok unfolding spare_def by auto
qed

lemma holds_kept: "holds s bp d k \<Longrightarrow> users_kept s s' \<Longrightarrow> holds s' bp d k"
  by (auto simp: holds_def users_kept_def)

lemma in_use_kept: "in_use bp s s1 \<Longrightarrow> users_kept s1 s2 \<Longrightarrow> cache_ok s \<Longrightarrow> in_use bp s s2"
  unfolding in_use_def users_kept_def cache_ok_def by fastforce

lemma holds_data:
  assumes "spare n s" "holds s bp d k"
  shows "b_data (bufs s bp) off = contents s d k off"
  using contents_cached [of s bp off] assms by (simp add: spare_def cache_ok_def holds_def)

subsection \<open>Taking, changing, releasing\<close>

lemma hold_get:
  assumes s: "spare (Suc n) s" and d: "d \<noteq> NO_DEV" and f: "fits s d k"
  shows "\<exists>bp s1. get_block d k NORMAL s = Some (bp, s1) \<and> spare n s1 \<and> holds s1 bp d k \<and> in_use bp s s1 \<and>
    cache_frame s s1 \<and> same_contents s s1"
proof -
  have r: "ready s" using s by (rule spare_ready) simp
  from bc.get_law [OF r d f] obtain bp s1 where g: "get_block d k NORMAL s = Some (bp, s1)" "loan s d k bp s1" by blast
  note l = get_block_loan [OF g(2)]
  have "0 \<le> b_count (bufs s bp)" using s l(5) by (simp add: spare_def cache_ok_def)
  then have "holds s1 bp d k" using l(5-7,9) d by (simp add: holds_def in_use_def)
  with g(1) l spare_in_use [OF s l(9) l(1,2)] show ?thesis by blast
qed

lemma hold_set:
  assumes s: "spare n s" and h: "holds s bp d k"
  shows "spare n (set_data bp f s)" "block_set d k f s (set_data bp f s)" "holds (set_data bp f s) bp d k"
proof -
  have ok: "cache_ok s" using s by (simp add: spare_def)
  from h have b: "bp < NR_BUFS" "b_dev (bufs s bp) = d" "b_blocknr (bufs s bp) = k" "d \<noteq> NO_DEV"
    by (simp_all add: holds_def)
  note w = set_data_ok [OF ok b, of f]
  show bs: "block_set d k f s (set_data bp f s)" by (rule w(2))
  then have u: "users_kept s (set_data bp f s)" by (simp add: block_set_def)
  show "holds (set_data bp f s) bp d k" by (rule holds_kept [OF h u])
  have "io_works (set_data bp f s)"
    by (rule io_works_frame [of s]) (use s bs in \<open>simp_all add: spare_def block_set_def\<close>)
  then show "spare n (set_data bp f s)" by (rule spare_kept [OF s u w(1)])
qed

lemma hold_put:
  assumes s: "spare (Suc n) s" and u: "in_use bp s t" and t: "spare m t" and h: "holds t bp d k"
  shows "\<exists>s2. put_block (Some bp) ty t = Some s2 \<and> spare (Suc n) s2 \<and> cache_frame t s2 \<and> same_contents t s2 \<and> users_kept s s2"
proof -
  have r: "ready s" using s by (rule spare_ready) simp
  have "cache_ok t" "io_works t" "bp < NR_BUFS" using t h by (simp_all add: spare_def holds_def)
  from put_in_use [OF u r this, of ty] obtain s2 where s2: "put_block (Some bp) ty t = Some s2" "ready s2"
    "same_contents t s2" "cache_frame t s2" "users_kept s s2" by blast
  with spare_ready_kept [OF s s2(5,2)] show ?thesis by blast
qed

subsection \<open>Blocks that are not read\<close>

text \<open>The number of the next request to a driver plays no role in the state of the cache.\<close>

lemma io_cnt_irrelevant [simp]:
  "cache_ok (t\<lparr>io_cnt := c\<rparr>) = cache_ok t" "io_works (t\<lparr>io_cnt := c\<rparr>) = io_works t"
  "contents (t\<lparr>io_cnt := c\<rparr>) = contents t" "bsz (t\<lparr>io_cnt := c\<rparr>) = bsz t" "fits (t\<lparr>io_cnt := c\<rparr>) = fits t"
  "idle_bufs (t\<lparr>io_cnt := c\<rparr>) = idle_bufs t"
proof -
  let ?t = "t\<lparr>io_cnt := c\<rparr>"
  show b: "bsz ?t = bsz t" "fits ?t = fits t" by (intro ext bsz_cong fits_cong, simp)+
  have "cached ?t = cached t" by (simp add: cached_def fun_eq_iff)
  then show "contents ?t = contents t" using b by (simp add: contents_def fun_eq_iff split: option.split)
  show "io_works ?t = io_works t" by (simp add: io_works_def)
  have "lru_chain ?t ys = lru_chain t ys" for ys by (rule lru_chain_cong) simp_all
  moreover have "hash_chains {} ?t = hash_chains {} t" by (rule hash_chains_cong) simp_all
  moreover have "coherent ?t = coherent t" using b by (simp add: coherent_def)
  ultimately show "cache_ok ?t = cache_ok t" by (simp add: cache_ok_def linked_def free_bufs_def)
  show "idle_bufs ?t = idle_bufs t" by (simp add: idle_bufs_def)
qed

lemma get_block_no_read:
  assumes g: "get_block d k NORMAL s = Some (bp, s1)" and io: "io_works s" and ok: "cache_ok s" and d: "d \<noteq> NO_DEV"
  shows "\<exists>s1' c. get_block d k NO_READ s = Some (bp, s1') \<and> (\<forall>f. set_data bp f s1' = (set_data bp f s1)\<lparr>io_cnt := c\<rparr>)"
proof -
  have id: "set_data bp f s1 = (set_data bp f s1)\<lparr>io_cnt := io_cnt s1\<rparr>" for f
    by (cases s1) (simp add: set_data_def upd_buf_def)
  have "hash_lookup d k (buf_hash s (hash_nr k)) s = Some (cached s d k)"
    using hash_lookup_cached [of s d k] ok d by (simp add: cache_ok_def linked_def)
  show ?thesis
  proof (cases "cached s d k")
    case (Some b)
    with g \<open>hash_lookup _ _ _ _ = _\<close> have "get_block d k NO_READ s = Some (bp, s1)" by (auto simp: get_block_def d)
    with id show ?thesis by (intro exI [of _ s1] exI [of _ "io_cnt s1"]) blast
  next
    case None
    with g \<open>hash_lookup _ _ _ _ = _\<close> have n: "new_block d k NORMAL s = Some (bp, s1)"
      "get_block d k NO_READ s = new_block d k NO_READ s" by (simp_all add: get_block_def d)
    from n(1) obtain b where fb: "front s = Some b" by (auto simp: new_block_def split: Option.bind_splits)
    from evict [OF ok io fb] obtain t1 t2 where t1: "hash_unlink b (rm_lru b s) = Some t1"
      and t2: "(if b_dev (bufs t1 b) \<noteq> NO_DEV \<and> b_dirt (bufs t1 b) then flushall (b_dev (bufs t1 b)) t1 else Some t1) = Some t2"
      and io2: "io_works t2" by blast
    define t4 where "t4 = (let t3 = upd_buf b (\<lambda>b. b\<lparr>b_dev := d, b_blocknr := k, b_count := schar (b_count b + 1),
        b_hash := buf_hash t2 (hash_nr k)\<rparr>) t2 in t3\<lparr>buf_hash := (buf_hash t3)(hash_nr k := Some b)\<rparr>)"
    have nb: "new_block d k m s = (if m = PREFETCH then Some (b, upd_buf b (\<lambda>b. b\<lparr>b_dev := NO_DEV\<rparr>) t4)
        else if m = NORMAL then do { s5 \<leftarrow> rw_block b READING t4; Some (b, s5) } else Some (b, t4))" for m
      unfolding new_block_def fb Option.bind.simps t1 t2 Let_def t4_def using d by (cases m) simp_all
    have d4: "b_dev (bufs t4 b) = d" "io_works t4" using io2 by (simp_all add: t4_def upd_buf_def io_works_def Let_def)
    note rd = rw_block_reads [OF d4(2), of b d, OF d4(1) d]
    have b: "bp = b" using nb [of NORMAL] n(1) rd by simp
    have "set_data b f t4 = (set_data b f s1)\<lparr>io_cnt := io_cnt t4\<rparr>" for f
      using nb [of NORMAL] n(1) rd by (cases t4) (auto simp: set_data_def upd_buf_def)
    moreover have "get_block d k NO_READ s = Some (bp, t4)" using n(2) nb [of NO_READ] b by simp
    ultimately show ?thesis using b by blast
  qed
qed

lemma hold_new:
  assumes s: "spare (Suc n) s" and d: "d \<noteq> NO_DEV" and f: "fits s d k"
  shows "\<exists>bp s1. get_block d k NO_READ s = Some (bp, s1) \<and>
    (\<forall>f. spare n (set_data bp f s1) \<and> holds (set_data bp f s1) bp d k \<and> in_use bp s (set_data bp f s1) \<and>
       stored d k f s (set_data bp f s1))"
proof -
  from hold_get [OF assms] obtain bp s1 where g: "get_block d k NORMAL s = Some (bp, s1)" "spare n s1" "holds s1 bp d k"
    "in_use bp s s1" "cache_frame s s1" "same_contents s s1" by blast
  have ok: "io_works s" "cache_ok s" using s by (simp_all add: spare_def)
  from get_block_no_read [OF g(1) ok d] obtain s1' c where
    n: "get_block d k NO_READ s = Some (bp, s1')" "\<And>f. set_data bp f s1' = (set_data bp f s1)\<lparr>io_cnt := c\<rparr>" by blast
  have sup: "super_blocks s1 = super_blocks s" using g(5) by (simp add: cache_frame_sel)
  have e: "bsz s1 = bsz s" "fits s1 = fits s" by (intro ext bsz_cong fits_cong sup)+
  have "spare n (set_data bp f s1') \<and> holds (set_data bp f s1') bp d k \<and> in_use bp s (set_data bp f s1') \<and>
       stored d k f s (set_data bp f s1')" for f
  proof -
    note w = hold_set [OF g(2,3), of f]
    have "spare n (set_data bp f s1')" using w(1) unfolding n(2) by (simp add: spare_def)
    moreover have "holds (set_data bp f s1') bp d k" using w(3) unfolding n(2) by (simp add: holds_def)
    moreover have "in_use bp s (set_data bp f s1')"
      using g(4) unfolding n(2) by (simp add: in_use_def set_data_def upd_buf_def)
    moreover have "stored d k f s (set_data bp f s1')"
      unfolding stored_def
    proof (intro conjI allI impI)
      show "cache_frame s (set_data bp f s1')" unfolding n(2) using g(5) by (simp add: set_data_def)
      fix d' k' off assume a: "d' \<noteq> NO_DEV" "fits s d' k'" "off < bsz s d'"
      have "contents (set_data bp f s1') d' k' off = contents (set_data bp f s1) d' k' off" unfolding n(2) by simp
      also have "\<dots> = (if d' = d \<and> k' = k then f off else contents s1 d' k' off)"
        using w(2) a e by (simp add: block_set_def)
      also have "contents s1 d' k' off = contents s d' k' off" using g(6) a by (simp add: same_contents_def)
      finally show "contents (set_data bp f s1') d' k' off = (if d' = d \<and> k' = k then f off else contents s d' k' off)" .
    qed
    ultimately show ?thesis by blast
  qed
  with n(1) show ?thesis by blast
qed

end
