(* ===== verification/FS_Map.thy ===== *)
theory FS_Map
  imports FS_Super FS_Hold
begin

text \<open>
  Where the bytes of a file are: the zone numbers in its inode and in its single and double indirect
  blocks (\<^verbatim>\<open>read_map\<close>, \<^verbatim>\<open>rd_indir\<close> of \<^verbatim>\<open>servers/fs/read.c\<close>; \<^verbatim>\<open>write_map\<close>, \<^verbatim>\<open>wr_indir\<close>, \<^verbatim>\<open>clear_zone\<close>,
  \<^verbatim>\<open>new_block\<close>, \<^verbatim>\<open>zero_block\<close> of \<^verbatim>\<open>servers/fs/write.c\<close>).

  Shifts by a negative scale and accesses outside an indirect block have no defined outcome. The specification is \<open>file_zone\<close>, the
  function from relative zone numbers to zones that inode and indirect blocks represent: \<open>read_map\<close>
  evaluates it, and \<open>write_map\<close> updates it at one argument, also when it has to allocate indirect
  blocks on the way.
\<close>

subsection \<open>Model: indirect blocks\<close>

definition rd_indir :: "nat \<Rightarrow> nat \<Rightarrow> fsstate \<Rightarrow> u32 option" where
  "rd_indir bp index s = do {
     spi \<leftarrow> get_super (b_dev (bufs s bp)) s;
     let sp = super_blocks s spi;
     let d = b_data (bufs s bp);
     zone \<leftarrow> (if s_version sp = 1
       then do { guard (index < 512); Some (conv2 (s_native sp) (ucast (get16 (2 * index) d))) }
       else do { guard (index < 1024); Some (conv4 (s_native sp) (get32 (4 * index) d)) });
     guard (zone = NO_ZONE \<or> ucast (s_firstdatazone sp) \<le> zone \<and> zone < s_zones sp);
     Some zone
   }"

definition wr_indir :: "nat \<Rightarrow> nat \<Rightarrow> u32 \<Rightarrow> fsstate \<Rightarrow> fsstate option" where
  "wr_indir bp index zone s = do {
     spi \<leftarrow> get_super (b_dev (bufs s bp)) s;
     let sp = super_blocks s spi;
     if s_version sp = 1 then do {
       guard (index < 512);
       Some (upd_buf bp (\<lambda>b. b\<lparr>b_data := put16 (2 * index) (ucast (conv2 (s_native sp) zone)) (b_data b)\<rparr>) s)
     } else do {
       guard (index < 1024);
       Some (upd_buf bp (\<lambda>b. b\<lparr>b_data := put32 (4 * index) (conv4 (s_native sp) zone) (b_data b)\<rparr>) s)
     }
   }"

definition set_dirty :: "nat \<Rightarrow> fsstate \<Rightarrow> fsstate" where
  "set_dirty bp s = upd_buf bp (\<lambda>b. b\<lparr>b_dirt := True\<rparr>) s"

definition zero_block :: "nat \<Rightarrow> fsstate \<Rightarrow> fsstate" where
  "zero_block bp s = set_data bp (\<lambda>i. if i < MAX_BLOCK_SIZE then 0 else b_data (bufs s bp) i) s"

subsection \<open>Model: reading the map\<close>

text \<open>The block size, the scale and the relative block of a position.\<close>

definition map_geom :: "nat \<Rightarrow> u32 \<Rightarrow> fsstate \<Rightarrow> (nat \<times> nat) option" where
  "map_geom rip position s = do {
     spi \<leftarrow> i_sp (inodes s rip);
     let sp = super_blocks s spi;
     guard (0 < s_block_size sp \<and> 0 \<le> s_log_zone_size sp \<and> s_log_zone_size sp < 32);
     Some (nat (s_log_zone_size sp), unat position div s_block_size sp)
   }"

definition read_map :: "nat \<Rightarrow> u32 \<Rightarrow> fsstate \<Rightarrow> (u32 \<times> fsstate) option" where
  "read_map rip position s = do {
     (scale, block_pos) \<leftarrow> map_geom rip position s;
     let ip = inodes s rip;
     let zone = drop_bit scale block_pos;
     let boff = block_pos - push_bit scale zone;
     let dzones = i_ndzones ip;
     let nr_indirects = i_nindirs ip;
     if zone < dzones then
       (let z = i_zone ip zone in
        Some (if z = NO_ZONE then NO_BLOCK else push_bit scale z + of_nat boff, s))
     else do {
       let excess = zone - dzones;
       (z, ex, s1) \<leftarrow>
         (if excess < nr_indirects then Some (i_zone ip dzones, excess, s)
          else if i_zone ip (dzones + 1) = NO_ZONE then Some (NO_ZONE, 0, s)
          else do {
            guard (0 < nr_indirects);
            let excess2 = excess - nr_indirects;
            (bp, s1) \<leftarrow> get_block (i_dev ip) (push_bit scale (i_zone ip (dzones + 1))) NORMAL s;
            z \<leftarrow> rd_indir bp (excess2 div nr_indirects) s1;
            s2 \<leftarrow> put_block (Some bp) INDIRECT_BLOCK s1;
            Some (z, excess2 mod nr_indirects, s2)
          });
       if z = NO_ZONE then Some (NO_BLOCK, s1)
       else do {
         (bp, s2) \<leftarrow> get_block (i_dev ip) (push_bit scale z) NORMAL s1;
         z' \<leftarrow> rd_indir bp ex s2;
         s3 \<leftarrow> put_block (Some bp) INDIRECT_BLOCK s2;
         Some (if z' = NO_ZONE then NO_BLOCK else push_bit scale z' + of_nat boff, s3)
       }
     }
   }"

subsection \<open>Model: writing the map\<close>

definition set_zone :: "nat \<Rightarrow> nat \<Rightarrow> u32 \<Rightarrow> fsstate \<Rightarrow> fsstate" where
  "set_zone rip i z s = upd_inode rip (\<lambda>ip. ip\<lparr>i_zone := (i_zone ip)(i := z)\<rparr>) s"

text \<open>The last step: the zone number is entered into the single indirect block in zone \<open>z1\<close>.\<close>

definition fill_indirect :: "nat \<Rightarrow> nat \<Rightarrow> u32 \<Rightarrow> bool \<Rightarrow> nat \<Rightarrow> u32 \<Rightarrow> fsstate \<Rightarrow> (int \<times> fsstate) option" where
  "fill_indirect rip scale z1 new_ind ex new_zone s = do {
     (bp, s1) \<leftarrow> get_block (i_dev (inodes s rip)) (push_bit scale z1) (if new_ind then NO_READ else NORMAL) s;
     let s2 = (if new_ind then zero_block bp s1 else s1);
     s3 \<leftarrow> wr_indir bp ex new_zone s2;
     s4 \<leftarrow> put_block (Some bp) INDIRECT_BLOCK (set_dirty bp s3);
     Some (OK, s4)
   }"

text \<open>The single indirect block, allocated if there is none.\<close>

definition write_single :: "nat \<Rightarrow> nat \<Rightarrow> nat \<Rightarrow> u32 \<Rightarrow> fsstate \<Rightarrow> (int \<times> fsstate) option" where
  "write_single rip scale excess new_zone s = (
     let ip = inodes s rip; zones = i_ndzones ip; z1 = i_zone ip zones in
     if z1 = NO_ZONE then do {
       (z, s1) \<leftarrow> alloc_zone (i_dev ip) (i_zone ip 0) s;
       let s2 = set_zone rip zones z s1;
       if z = NO_ZONE then Some (err_code s2, s2)
       else fill_indirect rip scale z True excess new_zone s2
     } else fill_indirect rip scale z1 False excess new_zone s)"

text \<open>The double indirect block in zone \<open>z\<close>, and the single indirect block that it leads to.\<close>

definition write_double :: "nat \<Rightarrow> nat \<Rightarrow> u32 \<Rightarrow> bool \<Rightarrow> nat \<Rightarrow> nat \<Rightarrow> u32 \<Rightarrow> fsstate \<Rightarrow> (int \<times> fsstate) option" where
  "write_double rip scale z new_dbl ind_ex ex new_zone s = do {
     (bp, s1) \<leftarrow> get_block (i_dev (inodes s rip)) (push_bit scale z) (if new_dbl then NO_READ else NORMAL) s;
     let s2 = (if new_dbl then zero_block bp s1 else s1);
     z1 \<leftarrow> rd_indir bp ind_ex s2;
     if z1 = NO_ZONE then do {
       (z1, s3) \<leftarrow> alloc_zone (i_dev (inodes s2 rip)) (i_zone (inodes s2 rip) 0) s2;
       s4 \<leftarrow> wr_indir bp ind_ex z1 s3;
       s5 \<leftarrow> put_block (Some bp) INDIRECT_BLOCK (set_dirty bp s4);
       if z1 = NO_ZONE then Some (err_code s5, s5)
       else fill_indirect rip scale z1 True ex new_zone s5
     } else do {
       s3 \<leftarrow> put_block (Some bp) INDIRECT_BLOCK s2;
       fill_indirect rip scale z1 False ex new_zone s3
     }
   }"

definition write_map :: "nat \<Rightarrow> u32 \<Rightarrow> u32 \<Rightarrow> fsstate \<Rightarrow> (int \<times> fsstate) option" where
  "write_map rip position new_zone s = do {
     let s0 = upd_inode rip (\<lambda>ip. ip\<lparr>i_dirt := True\<rparr>) s;
     (scale, block_pos) \<leftarrow> map_geom rip position s0;
     let ip = inodes s0 rip;
     let zone = drop_bit scale block_pos;
     let zones = i_ndzones ip;
     let nr_indirects = i_nindirs ip;
     if zone < zones then Some (OK, set_zone rip zone new_zone s0)
     else do {
       let excess = zone - zones;
       if excess < nr_indirects then write_single rip scale excess new_zone s0
       else do {
         let z = i_zone ip (zones + 1);
         (z, new_dbl, s1) \<leftarrow>
           (if z = NO_ZONE then do {
              (z, s1) \<leftarrow> alloc_zone (i_dev ip) (i_zone ip 0) s0;
              Some (z, True, if z = NO_ZONE then s1 else set_zone rip (zones + 1) z s1)
            } else Some (z, False, s0));
         if z = NO_ZONE then Some (err_code s1, s1)
         else do {
           guard (0 < nr_indirects);
           let excess2 = excess - nr_indirects;
           let ind_ex = excess2 div nr_indirects;
           if nr_indirects \<le> ind_ex then Some (EFBIG, s1)
           else write_double rip scale z new_dbl ind_ex (excess2 mod nr_indirects) new_zone s1
         }
       }
     }
   }"

subsection \<open>Model: new blocks\<close>

fun clear_blocks :: "int \<Rightarrow> nat list \<Rightarrow> fsstate \<Rightarrow> fsstate option" where
  "clear_blocks dev [] s = Some s"
| "clear_blocks dev (b # bs) s = do {
     (bp, s1) \<leftarrow> get_block dev (of_nat b) NO_READ s;
     s2 \<leftarrow> put_block (Some bp) FULL_DATA_BLOCK (zero_block bp s1);
     clear_blocks dev bs s2
   }"

definition clear_zone :: "nat \<Rightarrow> u32 \<Rightarrow> bool \<Rightarrow> fsstate \<Rightarrow> fsstate option" where
  "clear_zone rip pos flag s = do {
     spi \<leftarrow> i_sp (inodes s rip);
     let sp = super_blocks s spi;
     if s_log_zone_size sp = 0 then Some s
     else do {
       guard (0 \<le> s_log_zone_size sp \<and> s_log_zone_size sp < 32);
       let scale = nat (s_log_zone_size sp);
       let zone_size = (push_bit scale (of_nat (s_block_size sp)) :: u32);
       guard (zone_size \<noteq> 0);
       let p = (if flag then (pos div zone_size) * zone_size else pos);
       let next = p + of_nat (s_block_size sp) - 1;
       if next div zone_size \<noteq> p div zone_size then Some s
       else do {
         (blo, s1) \<leftarrow> read_map rip next s;
         if blo = NO_BLOCK then Some s1
         else do {
           let bhi = push_bit scale (drop_bit scale blo + 1) - 1;
           guard (bhi \<noteq> - 1);
           clear_blocks (i_dev (inodes s1 rip)) [unat blo..<Suc (unat bhi)] s1
         }
       }
     }
   }"

text \<open>A new block at a position of a file; \<open>None\<close> in the result is \<^verbatim>\<open>NIL_BUF\<close>.\<close>

definition new_file_block :: "nat \<Rightarrow> u32 \<Rightarrow> fsstate \<Rightarrow> (nat option \<times> fsstate) option" where
  "new_file_block rip position s = do {
     (b, s1) \<leftarrow> read_map rip position s;
     (b, s2) \<leftarrow>
       (if b = NO_BLOCK then do {
          let ip = inodes s1 rip;
          spi \<leftarrow> i_sp ip;
          let z = (if i_zone ip 0 = NO_ZONE then ucast (s_firstdatazone (super_blocks s1 spi)) else i_zone ip 0);
          (z, s2) \<leftarrow> alloc_zone (i_dev ip) z s1;
          if z = NO_ZONE then Some (None, s2)
          else do {
            (r, s3) \<leftarrow> write_map rip position z s2;
            if r \<noteq> OK then do {
              s4 \<leftarrow> free_zone (i_dev (inodes s3 rip)) z s3;
              Some (None, s4\<lparr>err_code := r\<rparr>)
            } else do {
              s4 \<leftarrow> (if position \<noteq> i_size (inodes s3 rip) then clear_zone rip position True s3 else Some s3);
              let sp = super_blocks s4 spi;
              guard (0 \<le> s_log_zone_size sp \<and> s_log_zone_size sp < 32);
              let scale = nat (s_log_zone_size sp);
              let zone_size = (push_bit scale (of_nat (s_block_size sp)) :: u32);
              guard (zone_size \<noteq> 0);
              Some (Some (push_bit scale z + (position mod zone_size) div of_nat (s_block_size sp)), s4)
            }
          }
        } else Some (Some b, s1));
     case b of
       None \<Rightarrow> Some (None, s2)
     | Some b \<Rightarrow> do {
         (bp, s3) \<leftarrow> get_block (i_dev (inodes s2 rip)) b NO_READ s2;
         Some (Some bp, zero_block bp s3)
       }
   }"


subsection \<open>What the blocks of a device hold\<close>

text \<open>The operations below change nothing in the super blocks but the place where the next search begins.\<close>

definition sup_kept :: "nat \<Rightarrow> fsstate \<Rightarrow> fsstate \<Rightarrow> bool" where
  "sup_kept spi s s' \<longleftrightarrow> (\<exists>b. super_blocks s' = super_blocks (upd_super spi (\<lambda>sb. sb\<lparr>s_zsearch := b\<rparr>) s))"

lemma sup_keptI: "super_blocks s' = super_blocks s \<Longrightarrow> sup_kept spi s s'"
  unfolding sup_kept_def by (intro exI [of _ "s_zsearch (super_blocks s spi)"]) (simp add: upd_super_def fun_eq_iff)

lemma sup_kept_refl [simp]: "sup_kept spi s s"
  by (rule sup_keptI) simp

lemma sup_kept_trans [trans]: "sup_kept spi s s1 \<Longrightarrow> sup_kept spi s1 s2 \<Longrightarrow> sup_kept spi s s2"
  unfolding sup_kept_def by (auto simp: upd_super_def)

lemma sup_keptD:
  assumes "sup_kept spi s s'"
  shows "bsz s' = bsz s" "fits s' = fits s" "s_dev (super_blocks s' i) = s_dev (super_blocks s i)"
    "s_block_size (super_blocks s' i) = s_block_size (super_blocks s i)"
    "s_log_zone_size (super_blocks s' i) = s_log_zone_size (super_blocks s i)"
    "s_version (super_blocks s' i) = s_version (super_blocks s i)" "s_native (super_blocks s' i) = s_native (super_blocks s i)"
    "s_zones (super_blocks s' i) = s_zones (super_blocks s i)"
    "s_firstdatazone (super_blocks s' i) = s_firstdatazone (super_blocks s i)"
    "s_rd_only (super_blocks s' i) = s_rd_only (super_blocks s i)"
    "map_start (super_blocks s' i) m = map_start (super_blocks s i) m"
    "bits_per_block (super_blocks s' i) = bits_per_block (super_blocks s i)"
    "map_blocks s' i m = map_blocks s i m" "map_limit s' i m = map_limit s i m" "get_super d s' = get_super d s"
proof -
  from assms obtain b where e: "super_blocks s' = super_blocks (upd_super spi (\<lambda>sb. sb\<lparr>s_zsearch := b\<rparr>) s)"
    by (auto simp: sup_kept_def)
  show b: "bsz s' = bsz s" "fits s' = fits s"
    using bsz_cong [OF e] fits_cong [OF e] set_zsearch(1,2) [of spi b s] by (simp_all add: fun_eq_iff)
  show sel: "s_dev (super_blocks s' i) = s_dev (super_blocks s i)"
    "s_block_size (super_blocks s' i) = s_block_size (super_blocks s i)"
    "s_log_zone_size (super_blocks s' i) = s_log_zone_size (super_blocks s i)"
    "s_version (super_blocks s' i) = s_version (super_blocks s i)" "s_native (super_blocks s' i) = s_native (super_blocks s i)"
    "s_zones (super_blocks s' i) = s_zones (super_blocks s i)"
    "s_firstdatazone (super_blocks s' i) = s_firstdatazone (super_blocks s i)"
    "s_rd_only (super_blocks s' i) = s_rd_only (super_blocks s i)"
    "map_start (super_blocks s' i) m = map_start (super_blocks s i) m"
    "bits_per_block (super_blocks s' i) = bits_per_block (super_blocks s i)"
    "map_blocks s' i m = map_blocks s i m" "map_limit s' i m = map_limit s i m" for i
    by (simp_all add: e upd_super_def map_start_def map_blocks_def map_limit_def map_bits_def bit_blocks_def
        bits_per_block_def bitmap_chunks_def split: map_kind.split)
  have "find_super d is s' = find_super d is s" for "is" by (induction "is") (simp_all add: sel)
  then show "get_super d s' = get_super d s" by (simp add: get_super_def)
qed

lemma geom_kept: "sup_kept spi s s' \<Longrightarrow> geom s' spi m = geom s spi m"
  unfolding geom_def Let_def by (simp only: sup_keptD)

text \<open>The state of the cache does not depend on the other variables.\<close>

lemma core_cong:
  assumes e: "bufs s' = bufs s" "buf_hash s' = buf_hash s" "front s' = front s" "rear s' = rear s" "disk s' = disk s"
      "io_ans s' = io_ans s" and k: "sup_kept spi s s'"
  shows "contents s' = contents s" "cache_ok s' = cache_ok s" "io_works s' = io_works s" "idle_bufs s' = idle_bufs s"
    "spare n s' = spare n s" "users_kept s s'"
proof -
  note b = sup_keptD(1,2) [OF k]
  have "cached s' = cached s" by (simp add: cached_def e fun_eq_iff)
  then show "contents s' = contents s" using b by (simp add: contents_def e fun_eq_iff split: option.split)
  show io: "io_works s' = io_works s" by (simp add: io_works_def e)
  have "lru_chain s' ys = lru_chain s ys" for ys by (rule lru_chain_cong) (simp_all add: e)
  moreover have "hash_chains {} s' = hash_chains {} s" by (rule hash_chains_cong) (simp_all add: e)
  moreover have "coherent s' = coherent s" using b by (simp add: coherent_def e)
  ultimately show ok: "cache_ok s' = cache_ok s" by (simp add: cache_ok_def linked_def free_bufs_def e)
  show i: "idle_bufs s' = idle_bufs s" by (simp add: idle_bufs_def e)
  show "spare n s' = spare n s" by (simp add: spare_def ok io i e)
  show "users_kept s s'" by (simp add: users_kept_def e)
qed

subsection \<open>Entries of indirect blocks\<close>

definition entry_size :: "super_block \<Rightarrow> nat" where
  "entry_size sp = (if s_version sp = 1 then 2 else 4)"

definition entry :: "super_block \<Rightarrow> nat \<Rightarrow> bytes \<Rightarrow> u32" where
  "entry sp i d = (if s_version sp = 1 then conv2 (s_native sp) (ucast (get16 (2 * i) d))
     else conv4 (s_native sp) (get32 (4 * i) d))"

definition put_entry :: "super_block \<Rightarrow> nat \<Rightarrow> u32 \<Rightarrow> bytes \<Rightarrow> bytes" where
  "put_entry sp i z d = (if s_version sp = 1 then put16 (2 * i) (ucast (conv2 (s_native sp) z)) d
     else put32 (4 * i) (conv4 (s_native sp) z) d)"

lemma get32_cong:
  assumes "\<And>j. j < 4 \<Longrightarrow> d (off + j) = e (off + j)"
  shows "get32 off d = get32 off e"
  using assms [of 0] assms [of 1] assms [of 2] assms [of 3] by (simp add: get32_def)

lemma get_put32_other: "i \<noteq> j \<Longrightarrow> get32 (4 * i) (put32 (4 * j) w d) = get32 (4 * i) d"
proof (rule get32_cong)
  fix k :: nat assume "i \<noteq> j" "k < 4"
  then have "4 * i + k \<noteq> 4 * j + l" if "l < 4" for l using that by presburger
  from this [of 0] this [of 1] this [of 2] this [of 3] show "put32 (4 * j) w d (4 * i + k) = d (4 * i + k)"
    by (simp add: put32_def)
qed

lemma entry_cong:
  assumes "\<And>off. off < B \<Longrightarrow> d off = e off" "i * entry_size sp + entry_size sp \<le> B"
  shows "entry sp i d = entry sp i e"
proof (cases "s_version sp = 1")
  case True
  with assms(2) have "2 * i + 1 < B" by (simp add: entry_size_def)
  with assms(1) show ?thesis by (simp add: entry_def True get16_def)
next
  case False
  then have "get32 (4 * i) d = get32 (4 * i) e"
    using assms by (intro get32_cong) (simp add: entry_size_def)
  with False show ?thesis by (simp add: entry_def)
qed

lemma conv2_small: "(z :: u32) \<le> 0xFFFF \<Longrightarrow> conv2 n (ucast (ucast (conv2 n z) :: u16)) = z"
proof -
  assume z: "z \<le> 0xFFFF"
  have "z AND 0xFFFF = z"
  proof -
    have "z < 2 ^ 16" using z by (simp add: word_le_nat_alt word_less_nat_alt)
    then have "z AND mask 16 = z" by (rule less_mask_eq)
    then show ?thesis by (simp add: byte_masks)
  qed
  moreover have "ucast (ucast (conv2 n z) :: u16) = conv2 n z"
    by (rule bit_word_eqI) (auto simp: bit_simps bit_conv2)
  ultimately show ?thesis by (simp add: conv2_conv2)
qed

lemma entry_put:
  assumes "s_version sp = 1 \<Longrightarrow> z \<le> 0xFFFF"
  shows "entry sp j (put_entry sp i z d) = (if j = i then z else entry sp j d)"
  using assms by (auto simp: entry_def put_entry_def conv2_small conv4_conv4 get_put32_other)

lemma entry_zero: "(\<And>off. off < B \<Longrightarrow> d off = 0) \<Longrightarrow> i * entry_size sp + entry_size sp \<le> B \<Longrightarrow> entry sp i d = 0"
proof -
  assume a: "\<And>off. off < B \<Longrightarrow> d off = 0" "i * entry_size sp + entry_size sp \<le> B"
  have "entry sp i d = entry sp i (\<lambda>_. 0)" by (rule entry_cong [OF _ a(2)]) (simp add: a(1))
  also have "\<dots> = 0" by (simp add: entry_def get16_def get32_def conv2_def conv4_def)
  finally show ?thesis .
qed


subsection \<open>A volume: its used zones and the entries of its indirect blocks\<close>

definition zone_block :: "super_block \<Rightarrow> u32 \<Rightarrow> u32" where
  "zone_block sp z = push_bit (nat (s_log_zone_size sp)) z"

definition data_zone :: "fsstate \<Rightarrow> nat \<Rightarrow> u32 \<Rightarrow> bool" where
  "data_zone s spi z \<longleftrightarrow> ucast (s_firstdatazone (super_blocks s spi)) \<le> z \<and> z < s_zones (super_blocks s spi)"

definition in_block :: "fsstate \<Rightarrow> nat \<Rightarrow> nat \<Rightarrow> bool" where
  "in_block s spi i \<longleftrightarrow>
     (let sp = super_blocks s spi in i * entry_size sp + entry_size sp \<le> s_block_size sp)"

definition used :: "fsstate \<Rightarrow> nat \<Rightarrow> u32 set" where
  "used s spi = {z. data_zone s spi z \<and> zone_used s spi z}"

definition indz :: "fsstate \<Rightarrow> nat \<Rightarrow> u32 \<Rightarrow> nat \<Rightarrow> u32" where
  "indz s spi z i =
     (let sp = super_blocks s spi
      in if data_zone s spi z \<and> in_block s spi i then entry sp i (contents s (s_dev sp) (zone_block sp z)) else 0)"

text \<open>The data area lies behind the bit maps and inside the device, and the first blocks of its zones differ.\<close>

definition vol_ok :: "fsstate \<Rightarrow> nat \<Rightarrow> bool" where
  "vol_ok s spi \<longleftrightarrow>
     (let sp = super_blocks s spi in
      geom s spi ZMAP \<and> map_bit s spi ZMAP 0 \<and> get_super (s_dev sp) s = Some spi \<and> s_firstdatazone sp \<noteq> 0 \<and>
      ucast (s_firstdatazone sp) \<le> s_zones sp \<and> 0 \<le> s_log_zone_size sp \<and> s_log_zone_size sp \<le> 4 \<and>
      unat (s_zones sp) * 2 ^ nat (s_log_zone_size sp) < 2 ^ 32 \<and> (s_version sp = 1 \<longrightarrow> s_zones sp \<le> 0xFFFF) \<and>
      s_block_size sp \<le> (if s_version sp = 1 then 1024 else MAX_BLOCK_SIZE) \<and>
      (\<forall>z. data_zone s spi z \<longrightarrow> fits s (s_dev sp) (zone_block sp z) \<and>
         (\<forall>k<map_blocks s spi ZMAP. zone_block sp z \<noteq> map_start sp ZMAP + of_nat k)))"

lemma vol_okD:
  assumes "vol_ok s spi"
  shows "geom s spi ZMAP" "map_bit s spi ZMAP 0" "get_super (s_dev (super_blocks s spi)) s = Some spi"
    "s_firstdatazone (super_blocks s spi) \<noteq> 0" "ucast (s_firstdatazone (super_blocks s spi)) \<le> s_zones (super_blocks s spi)"
    "0 \<le> s_log_zone_size (super_blocks s spi)" "s_log_zone_size (super_blocks s spi) \<le> 4"
    "unat (s_zones (super_blocks s spi)) * 2 ^ nat (s_log_zone_size (super_blocks s spi)) < 2 ^ 32"
    "s_version (super_blocks s spi) = 1 \<Longrightarrow> s_zones (super_blocks s spi) \<le> 0xFFFF"
    "s_block_size (super_blocks s spi) \<le> (if s_version (super_blocks s spi) = 1 then 1024 else MAX_BLOCK_SIZE)"
    "data_zone s spi z \<Longrightarrow> fits s (s_dev (super_blocks s spi)) (zone_block (super_blocks s spi) z)"
    "data_zone s spi z \<Longrightarrow> k < map_blocks s spi ZMAP \<Longrightarrow>
       zone_block (super_blocks s spi) z \<noteq> map_start (super_blocks s spi) ZMAP + of_nat k"
  using assms unfolding vol_ok_def Let_def by blast+

lemma zone_kept:
  assumes "sup_kept spi s s'"
  shows "data_zone s' i z = data_zone s i z" "in_block s' i j = in_block s i j" "zone_block (super_blocks s' i) z = zone_block (super_blocks s i) z"
    "entry (super_blocks s' i) = entry (super_blocks s i)" "entry_size (super_blocks s' i) = entry_size (super_blocks s i)"
    "zone_used s' i z = map_bit s' i ZMAP (unat (z - (ucast (s_firstdatazone (super_blocks s i)) - 1)))"
  by (simp_all add: data_zone_def in_block_def zone_block_def entry_def entry_size_def zone_used_def fun_eq_iff
      sup_keptD [OF assms])

lemma vol_ok_kept:
  assumes "vol_ok s spi" "sup_kept spi s s'" "map_bit s' spi ZMAP 0"
  shows "vol_ok s' spi"
  using assms(1,3) unfolding vol_ok_def Let_def
  by (simp only: sup_keptD [OF assms(2)] zone_kept [OF assms(2)] geom_kept [OF assms(2)]) blast

lemma unat_fdz: "unat (ucast (f :: u16) :: u32) = unat f"
proof -
  have "unat f < 2 ^ LENGTH(16)" by (rule unsigned_less)
  then show ?thesis by (simp add: unsigned_ucast_eq take_bit_nat_eq_self)
qed

text \<open>The bit of a zone.\<close>

lemma zone_bit:
  assumes v: "vol_ok s spi" and z: "data_zone s spi z"
  shows "unat (z - (ucast (s_firstdatazone (super_blocks s spi)) - 1)) =
      unat z - (unat (s_firstdatazone (super_blocks s spi)) - 1)"
    "unat (z - (ucast (s_firstdatazone (super_blocks s spi)) - 1)) < map_limit s spi ZMAP"
    "0 < unat (z - (ucast (s_firstdatazone (super_blocks s spi)) - 1))"
proof -
  let ?f = "ucast (s_firstdatazone (super_blocks s spi)) :: u32" and ?Z = "s_zones (super_blocks s spi)"
  have f0: "0 < unat ?f" using vol_okD(4) [OF v] by (simp add: unat_fdz unat_gt_0)
  have u1: "unat (?f - 1) = unat ?f - 1" using f0 by (simp add: unat_sub word_le_nat_alt)
  have a: "unat ?f \<le> unat z" "unat z < unat ?Z" using z by (simp_all add: data_zone_def word_le_nat_alt word_less_nat_alt)
  have "?f - 1 \<le> z" "?f - 1 \<le> ?Z" using a u1 by (simp_all add: word_le_nat_alt)
  then have s: "unat (z - (?f - 1)) = unat z - unat (?f - 1)" "unat (?Z - (?f - 1)) = unat ?Z - unat (?f - 1)"
    by (simp_all only: unat_sub)
  then show "unat (z - (?f - 1)) = unat z - (unat (s_firstdatazone (super_blocks s spi)) - 1)"
    by (simp only: u1 unat_fdz)
  have "map_limit s spi ZMAP = unat (?Z - (?f - 1))" by (simp add: map_limit_def map_bits_def)
  then show "unat (z - (?f - 1)) < map_limit s spi ZMAP" "0 < unat (z - (?f - 1))"
    using s u1 a f0 by linarith+
qed

lemma zone_bit_inj:
  assumes v: "vol_ok s spi" and z: "data_zone s spi z" "data_zone s spi z'"
  shows "unat (z - (ucast (s_firstdatazone (super_blocks s spi)) - 1)) =
    unat (z' - (ucast (s_firstdatazone (super_blocks s spi)) - 1)) \<longleftrightarrow> z = z'"
  by (simp add: word_unat_eq_iff [symmetric])

lemma zone_block_inj:
  assumes v: "vol_ok s spi" and z: "data_zone s spi z" "data_zone s spi z'"
  shows "zone_block (super_blocks s spi) z = zone_block (super_blocks s spi) z' \<longleftrightarrow> z = z'"
proof -
  let ?c = "nat (s_log_zone_size (super_blocks s spi))" and ?Z = "s_zones (super_blocks s spi)"
  have u: "unat (zone_block (super_blocks s spi) y) = unat y * 2 ^ ?c" if "data_zone s spi y" for y
  proof -
    have "unat y \<le> unat ?Z" using that by (simp add: data_zone_def word_less_nat_alt)
    then have "unat y * 2 ^ ?c \<le> unat ?Z * 2 ^ ?c" by (rule mult_le_mono1)
    with vol_okD(8) [OF v] have "unat y * 2 ^ ?c < 2 ^ 32" by linarith
    then show ?thesis by (simp add: zone_block_def unsigned_push_bit_eq push_bit_nat_def take_bit_nat_eq_self)
  qed
  show ?thesis using u [OF z(1)] u [OF z(2)] by (auto simp: word_unat_eq_iff)
qed


subsection \<open>Steps on a volume\<close>

text \<open>The state of a volume as far as it depends on the cache: used zones and indirect entries.\<close>

lemma view_kept:
  assumes v: "vol_ok s spi" and k: "sup_kept spi s s'"
    and c: "\<And>n off. n < s_block_size (super_blocks s spi) \<Longrightarrow> off < map_blocks s spi ZMAP \<Longrightarrow>
      contents s' (s_dev (super_blocks s spi)) (map_start (super_blocks s spi) ZMAP + of_nat off) n =
      contents s (s_dev (super_blocks s spi)) (map_start (super_blocks s spi) ZMAP + of_nat off) n"
  shows "vol_ok s' spi" "used s' spi = used s spi"
proof -
  let ?sp = "super_blocks s spi"
  note g = vol_okD(1) [OF v]
  have mb: "map_bit s' spi ZMAP n = map_bit s spi ZMAP n" if n: "n < map_blocks s spi ZMAP * bits_per_block ?sp" for n
  proof -
    note ix = bit_index [OF n]
    have "map_chunk s' spi ZMAP (n div bits_per_block ?sp) (n mod bits_per_block ?sp div 16) =
      map_chunk s spi ZMAP (n div bits_per_block ?sp) (n mod bits_per_block ?sp div 16)"
      unfolding map_chunk_def Let_def sup_keptD [OF k] using c [OF _ ix(1)] chunk_off [OF ix(2)]
      by (intro get16_cong) simp_all
    then show ?thesis by (simp only: map_bit_def Let_def sup_keptD [OF k])
  qed
  have "0 < map_blocks s spi ZMAP * bits_per_block ?sp" using geomD(4,5) [OF g] by simp
  with mb vol_okD(2) [OF v] have "map_bit s' spi ZMAP 0" by simp
  then show "vol_ok s' spi" by (rule vol_ok_kept [OF v k])
  have "zone_used s' spi z = zone_used s spi z" if "data_zone s spi z" for z
  proof -
    have "unat (z - (ucast (s_firstdatazone ?sp) - 1)) < map_blocks s spi ZMAP * bits_per_block ?sp"
      using zone_bit(2) [OF v that] geomD(7) [OF g] by simp
    from mb [OF this] show ?thesis by (simp only: zone_used_def sup_keptD [OF k])
  qed
  then show "used s' spi = used s spi" by (auto simp: used_def zone_kept [OF k])
qed

lemma view_same:
  assumes v: "vol_ok s spi" and k: "sup_kept spi s s'" and c: "same_contents s s'"
  shows "vol_ok s' spi" "used s' spi = used s spi" "indz s' spi = indz s spi"
proof -
  let ?sp = "super_blocks s spi"
  note g = vol_okD(1) [OF v]
  have e: "contents s' (s_dev ?sp) (map_start ?sp ZMAP + of_nat off) n = contents s (s_dev ?sp) (map_start ?sp ZMAP + of_nat off) n"
    if "n < s_block_size ?sp" "off < map_blocks s spi ZMAP" for n off
    using c geomD(1,2) [OF g] geomD(8) [OF g that(2)] that(1) by (simp add: same_contents_def)
  note view_kept [OF v k e]
  then show "vol_ok s' spi" "used s' spi = used s spi" by blast+
  show "indz s' spi = indz s spi"
  proof (intro ext)
    fix z i
    have "entry ?sp i (contents s' (s_dev ?sp) (zone_block ?sp z)) = entry ?sp i (contents s (s_dev ?sp) (zone_block ?sp z))"
      if a: "data_zone s spi z" "in_block s spi i"
    proof (rule entry_cong)
      fix off assume "off < s_block_size ?sp"
      with c geomD(1,2) [OF g] vol_okD(11) [OF v a(1)]
      show "contents s' (s_dev ?sp) (zone_block ?sp z) off = contents s (s_dev ?sp) (zone_block ?sp z) off"
        by (simp add: same_contents_def)
    qed (use a in \<open>simp add: in_block_def Let_def\<close>)
    then show "indz s' spi z i = indz s spi z i"
      by (simp only: indz_def Let_def zone_kept [OF k] sup_keptD [OF k] cong: if_cong)
  qed
qed

lemma view_stored:
  assumes v: "vol_ok s spi" and z: "data_zone s spi z"
    and st: "stored (s_dev (super_blocks s spi)) (zone_block (super_blocks s spi) z) f s s'"
  shows "sup_kept spi s s'" "vol_ok s' spi" "used s' spi = used s spi"
    "indz s' spi = (indz s spi)(z := \<lambda>i. if in_block s spi i then entry (super_blocks s spi) i f else 0)"
proof -
  let ?sp = "super_blocks s spi"
  note g = vol_okD(1) [OF v]
  show k: "sup_kept spi s s'" using st by (intro sup_keptI) (simp add: stored_def cache_frame_sel)
  have e: "contents s' (s_dev ?sp) (map_start ?sp ZMAP + of_nat off) n = contents s (s_dev ?sp) (map_start ?sp ZMAP + of_nat off) n"
    if "n < s_block_size ?sp" "off < map_blocks s spi ZMAP" for n off
    using st geomD(1,2) [OF g] geomD(8) [OF g that(2)] that(1) vol_okD(12) [OF v z that(2)] by (auto simp: stored_def)
  note view_kept [OF v k e]
  then show "vol_ok s' spi" "used s' spi = used s spi" by blast+
  show "indz s' spi = (indz s spi)(z := \<lambda>i. if in_block s spi i then entry ?sp i f else 0)"
  proof (intro ext)
    fix y i
    have "entry ?sp i (contents s' (s_dev ?sp) (zone_block ?sp y)) =
        (if y = z then entry ?sp i f else entry ?sp i (contents s (s_dev ?sp) (zone_block ?sp y)))"
      if a: "data_zone s spi y" "in_block s spi i"
    proof -
      have b: "i * entry_size ?sp + entry_size ?sp \<le> s_block_size ?sp" using a(2) by (simp add: in_block_def Let_def)
      have "contents s' (s_dev ?sp) (zone_block ?sp y) off = (if y = z then f off else contents s (s_dev ?sp) (zone_block ?sp y) off)"
        if "off < s_block_size ?sp" for off
        using that st geomD(1,2) [OF g] vol_okD(11) [OF v a(1)] zone_block_inj [OF v a(1) z] by (auto simp: stored_def)
      then show ?thesis by (cases "y = z") (auto intro!: entry_cong [OF _ b])
    qed
    then show "indz s' spi y i = ((indz s spi)(z := \<lambda>i. if in_block s spi i then entry ?sp i f else 0)) y i"
      using z by (auto simp: indz_def Let_def zone_kept [OF k] sup_keptD [OF k])
  qed
qed

text \<open>Changes of other variables than the cache.\<close>

lemma view_core:
  assumes v: "vol_ok s spi" and k: "sup_kept spi s s'"
    and e: "bufs s' = bufs s" "buf_hash s' = buf_hash s" "front s' = front s" "rear s' = rear s" "disk s' = disk s"
      "io_ans s' = io_ans s"
  shows "vol_ok s' spi" "used s' spi = used s spi" "indz s' spi = indz s spi" "spare n s' = spare n s" "users_kept s s'"
proof -
  note c = core_cong [OF e k]
  have "same_contents s s'" by (simp add: same_contents_def c)
  from view_same [OF v k this] show "vol_ok s' spi" "used s' spi = used s spi" "indz s' spi = indz s spi" by blast+
  show "spare n s' = spare n s" "users_kept s s'" by (rule c)+
qed


subsection \<open>Allocating a zone\<close>

lemma indz_map_block:
  assumes v: "vol_ok s spi" and k: "k < map_blocks s spi ZMAP"
    and bs: "block_set (s_dev (super_blocks s spi)) (map_start (super_blocks s spi) ZMAP + of_nat k) x s s1"
  shows "indz s1 spi = indz s spi"
proof (intro ext)
  let ?sp = "super_blocks s spi"
  note g = vol_okD(1) [OF v]
  have k1: "sup_kept spi s s1" using bs by (intro sup_keptI) (simp add: block_set_def cache_frame_sel)
  fix y i
  have "entry ?sp i (contents s1 (s_dev ?sp) (zone_block ?sp y)) = entry ?sp i (contents s (s_dev ?sp) (zone_block ?sp y))"
    if a: "data_zone s spi y" "in_block s spi i"
  proof (rule entry_cong)
    fix off assume "off < s_block_size ?sp"
    with bs geomD(1,2) [OF g] vol_okD(11) [OF v a(1)] vol_okD(12) [OF v a(1) k]
    show "contents s1 (s_dev ?sp) (zone_block ?sp y) off = contents s (s_dev ?sp) (zone_block ?sp y) off"
      by (simp add: block_set_def)
  qed (use a in \<open>simp add: in_block_def Let_def\<close>)
  then show "indz s1 spi y i = indz s spi y i"
    by (simp only: indz_def Let_def zone_kept [OF k1] sup_keptD [OF k1] cong: if_cong)
qed

lemma alloc_zone_view:
  assumes sp: "spare (Suc n) s" and v: "vol_ok s spi" and dev: "dev = s_dev (super_blocks s spi)"
  shows "\<exists>z' s'. alloc_zone dev z s = Some (z', s') \<and> spare (Suc n) s' \<and> vol_ok s' spi \<and> users_kept s s' \<and>
    sup_kept spi s s' \<and> inodes s' = inodes s \<and> indz s' spi = indz s spi \<and>
    (z' = NO_ZONE \<and> err_code s' = ENOSPC \<and> used s' spi = used s spi \<and> used s spi = {z. data_zone s spi z} \<or>
     z' \<noteq> NO_ZONE \<and> data_zone s spi z' \<and> z' \<notin> used s spi \<and> used s' spi = insert z' (used s spi))"
proof -
  let ?sp = "super_blocks s spi"
  note g = vol_okD(1) [OF v]
  define fdz where "fdz = (ucast (s_firstdatazone ?sp) :: u32)"
  define org where "org = (if z = fdz then s_zsearch ?sp else z - (fdz - 1))"
  have r: "ready s" using sp by (rule spare_ready) simp
  from alloc_bit_spec [OF r g, of org] obtain b s1 where
    al: "alloc_bit spi ZMAP org s = Some (b, s1)" "ready s1"
    and or: "bit_taken spi ZMAP (unat b) s s1 \<or> b = NO_BIT \<and> unchanged s s1 \<and> (\<forall>n<map_limit s spi ZMAP. map_bit s spi ZMAP n)"
    by blast
  have az: "alloc_zone dev z s = (if b = NO_BIT
      then Some (NO_ZONE, fs_tell (Fs_printf ''No space on device'') (s1\<lparr>err_code := ENOSPC\<rparr>))
      else Some (fdz - 1 + b, if z = fdz then upd_super spi (\<lambda>sb. sb\<lparr>s_zsearch := b\<rparr>) s1 else s1))"
    by (simp only: alloc_zone_def Let_def dev vol_okD(3) [OF v] Option.bind.simps fdz_def [symmetric] org_def [symmetric] al(1) prod.case)
  show ?thesis
  proof (cases "b = NO_BIT")
    case True
    with or vol_okD(2) [OF v] have n: "unchanged s s1" "\<forall>n<map_limit s spi ZMAP. map_bit s spi ZMAP n"
      by (auto simp: bit_taken_def)
    define s2 where "s2 = fs_tell (Fs_printf ''No space on device'') (s1\<lparr>err_code := ENOSPC\<rparr>)"
    have e: "bufs s2 = bufs s1" "buf_hash s2 = buf_hash s1" "front s2 = front s1" "rear s2 = rear s1" "disk s2 = disk s1"
      "io_ans s2 = io_ans s1" "sup_kept spi s1 s2"
      by (simp_all add: s2_def fs_tell_def sup_keptI)
    have f: "cache_frame s s1" "users_kept s s1" "same_contents s s1" using n(1) by (simp_all add: unchanged_def)
    have k1: "sup_kept spi s s1" using f(1) by (intro sup_keptI) (simp add: cache_frame_sel)
    note v1 = view_same [OF v k1 f(3)]
    note v2 = view_core [OF v1(1) e(7) e(1-6)]
    have "spare (Suc n) s1" by (rule spare_ready_kept [OF sp f(2) al(2)])
    moreover have "used s spi = {z. data_zone s spi z}"
      using n(2) zone_bit(2) [OF v] by (auto simp: used_def zone_used_def)
    moreover have "err_code s2 = ENOSPC" "inodes s2 = inodes s" using f(1) by (simp_all add: s2_def fs_tell_def cache_frame_sel)
    moreover have "users_kept s s2" using f(2) v2(5) by (rule users_kept_trans)
    moreover have "sup_kept spi s s2" using k1 e(7) by (rule sup_kept_trans)
    ultimately show ?thesis using az True v1 v2 by (intro exI [of _ NO_ZONE] exI [of _ s2]) (simp add: s2_def)
  next
    case False
    with or have t: "bit_taken spi ZMAP (unat b) s s1" by blast
    then obtain k x where bs: "k < map_blocks s spi ZMAP" "block_set (s_dev ?sp) (map_start ?sp ZMAP + of_nat k) x s s1"
      by (auto simp: bit_taken_def)
    then have f: "cache_frame s s1" "users_kept s s1" by (simp_all add: block_set_def)
    have k1: "sup_kept spi s s1" using f(1) by (intro sup_keptI) (simp add: cache_frame_sel)
    have mb: "map_bit s1 spi ZMAP n \<longleftrightarrow> n = unat b \<or> map_bit s spi ZMAP n"
      if "n < map_blocks s spi ZMAP * bits_per_block ?sp" for n
      using t that by (simp add: bit_taken_def)
    have "0 < map_blocks s spi ZMAP * bits_per_block ?sp" using geomD(4,5) [OF g] by simp
    with mb vol_okD(2) [OF v] have "map_bit s1 spi ZMAP 0" by simp
    from vol_ok_kept [OF v k1 this] have v1: "vol_ok s1 spi" .
    note i1 = indz_map_block [OF v bs]
    define s2 where "s2 = (if z = fdz then upd_super spi (\<lambda>sb. sb\<lparr>s_zsearch := b\<rparr>) s1 else s1)"
    have e: "bufs s2 = bufs s1" "buf_hash s2 = buf_hash s1" "front s2 = front s1" "rear s2 = rear s1" "disk s2 = disk s1"
      "io_ans s2 = io_ans s1" "inodes s2 = inodes s1"
      by (simp_all add: s2_def upd_super_def)
    have k2: "sup_kept spi s1 s2" unfolding sup_kept_def s2_def
      by (intro exI [of _ "if z = fdz then b else s_zsearch (super_blocks s1 spi)"]) (simp add: upd_super_def fun_eq_iff)
    note v2 = view_core [OF v1 k2 e(1-6)]
    let ?z = "fdz - 1 + b"
    have bl: "unat b < map_limit s spi ZMAP" "\<not> map_bit s spi ZMAP (unat b)" using t by (simp_all add: bit_taken_def)
    have f0: "0 < unat fdz" using vol_okD(4) [OF v] by (simp add: fdz_def unat_fdz unat_gt_0)
    have u1: "unat (fdz - 1) = unat fdz - 1" using f0 by (simp add: unat_sub word_le_nat_alt)
    have "fdz - 1 \<le> s_zones ?sp" using vol_okD(5) [OF v] u1 by (simp add: word_le_nat_alt fdz_def)
    then have lim: "map_limit s spi ZMAP = unat (s_zones ?sp) - (unat fdz - 1)"
      using u1 by (simp add: map_limit_def map_bits_def fdz_def [symmetric] unat_sub)
    have "unat (s_zones ?sp) < 2 ^ LENGTH(32)" by (rule unsigned_less)
    then have uz: "unat ?z = unat fdz - 1 + unat b" using bl lim u1 by (subst unat_add_lem [THEN iffD1]) simp_all
    have b0: "0 < unat b" using False by (simp add: unat_gt_0)
    have dz: "data_zone s spi ?z"
      using uz b0 f0 bl lim by (simp add: data_zone_def fdz_def [symmetric] word_le_nat_alt word_less_nat_alt) arith
    have "?z \<noteq> NO_ZONE"
    proof
      assume "?z = NO_ZONE"
      then have "unat ?z = 0" by simp
      with uz b0 show False by simp
    qed
    moreover have ix: "unat (?z - (fdz - 1)) = unat b" by simp
    have "?z \<notin> used s spi" using bl(2) by (simp add: used_def zone_used_def fdz_def [symmetric])
    moreover have "zone_used s1 spi y \<longleftrightarrow> y = ?z \<or> zone_used s spi y" if y: "data_zone s spi y" for y
    proof -
      have "unat (y - (fdz - 1)) < map_blocks s spi ZMAP * bits_per_block ?sp"
        using zone_bit(2) [OF v y] geomD(7) [OF g] by (simp add: fdz_def)
      from mb [OF this] have "zone_used s1 spi y \<longleftrightarrow> unat (y - (fdz - 1)) = unat b \<or> zone_used s spi y"
        by (simp only: zone_used_def sup_keptD [OF k1] fdz_def)
      also have "unat (y - (fdz - 1)) = unat b \<longleftrightarrow> y = ?z"
        unfolding ix [symmetric] by (simp only: word_unat_eq_iff [symmetric]) auto
      finally show ?thesis .
    qed
    then have "used s1 spi = insert ?z (used s spi)" using dz by (auto simp: used_def zone_kept(1) [OF k1])
    moreover have "spare (Suc n) s1" by (rule spare_ready_kept [OF sp f(2) al(2)])
    moreover have "users_kept s s2" using f(2) v2(5) by (rule users_kept_trans)
    moreover have "sup_kept spi s s2" using k1 k2 by (rule sup_kept_trans)
    moreover have "inodes s2 = inodes s" using e(7) f(1) by (simp add: cache_frame_sel)
    ultimately show ?thesis using az False v2 i1 dz by (intro exI [of _ ?z] exI [of _ s2]) (simp add: s2_def [symmetric])
  qed
qed


subsection \<open>Reading and writing entries\<close>

lemma in_block_index:
  assumes "vol_ok s spi" "in_block s spi i"
  shows "s_version (super_blocks s spi) = 1 \<Longrightarrow> i < 512" "i < 1024"
  using vol_okD(10) [OF assms(1)] assms(2) by (auto simp: in_block_def Let_def entry_size_def split: if_splits)

lemma data_zone_entry: "vol_ok s spi \<Longrightarrow> z = NO_ZONE \<or> data_zone s spi z \<Longrightarrow> s_version (super_blocks s spi) = 1 \<Longrightarrow> z \<le> 0xFFFF"
  using vol_okD(9) [of s spi] by (auto simp: data_zone_def)

lemma rd_indir_view:
  assumes sp: "spare n s" and h: "holds s bp (s_dev (super_blocks s spi)) (zone_block (super_blocks s spi) z)"
    and v: "vol_ok s spi" and z: "data_zone s spi z" and i: "in_block s spi i"
    and e: "indz s spi z i = NO_ZONE \<or> data_zone s spi (indz s spi z i)"
  shows "rd_indir bp i s = Some (indz s spi z i)"
proof -
  have d: "b_data (bufs s bp) = contents s (s_dev (super_blocks s spi)) (zone_block (super_blocks s spi) z)"
    by (intro ext) (rule holds_data [OF sp h])
  have "b_dev (bufs s bp) = s_dev (super_blocks s spi)" using h by (simp add: holds_def)
  moreover have "entry (super_blocks s spi) i (b_data (bufs s bp)) = indz s spi z i" using z i by (simp add: indz_def d Let_def)
  ultimately show ?thesis
    using e in_block_index [OF v i] vol_okD(3) [OF v] unfolding rd_indir_def data_zone_def
    by (cases "s_version (super_blocks s spi) = 1") (simp_all add: entry_def)
qed

lemma wr_indir_dirty:
  assumes "b_dev (bufs s bp) = s_dev (super_blocks s spi)" "vol_ok s spi" "in_block s spi i"
  shows "\<exists>s'. wr_indir bp i z s = Some s' \<and>
    set_dirty bp s' = set_data bp (put_entry (super_blocks s spi) i z (b_data (bufs s bp))) s"
  using assms(1) in_block_index [OF assms(2,3)] vol_okD(3) [OF assms(2)]
  by (auto simp: wr_indir_def put_entry_def set_dirty_def set_data_def upd_buf_def)

lemma set_data_twice [simp]: "set_data bp f (set_data bp g s) = set_data bp f s"
  by (simp add: set_data_def upd_buf_def)

lemma set_data_sel [simp]:
  "super_blocks (set_data bp f s) = super_blocks s" "inodes (set_data bp f s) = inodes s"
  "b_data (bufs (set_data bp f s) bp) = f" "b_dev (bufs (set_data bp f s) bp) = b_dev (bufs s bp)"
  by (simp_all add: set_data_def upd_buf_def)

lemma holds_set_data: "holds (set_data bp f s) bp d k \<Longrightarrow> b_dev (bufs s bp) = d"
  by (simp add: holds_def)

text \<open>A zeroed block has no entries.\<close>

lemma zero_entries:
  assumes "vol_ok s spi" "in_block s spi i"
  shows "entry (super_blocks s spi) i (\<lambda>i. if i < MAX_BLOCK_SIZE then 0 else g i) = 0"
  using vol_okD(10) [OF assms(1)] assms(2)
  by (intro entry_zero [where B = "s_block_size (super_blocks s spi)"]) (auto simp: in_block_def Let_def split: if_splits)

text \<open>
  Taking the block of a zone, read or zeroed; changing an entry in it; releasing it. In between the
  buffer stays in use, whatever else is done.
\<close>

lemma take_indirect:
  assumes sp: "spare (Suc n) s" and v: "vol_ok s spi" and z: "data_zone s spi z"
  shows "\<exists>bp s1. get_block (s_dev (super_blocks s spi)) (zone_block (super_blocks s spi) z) (if new then NO_READ else NORMAL) s = Some (bp, s1) \<and>
    (let s2 = (if new then zero_block bp s1 else s1) in
     spare n s2 \<and> holds s2 bp (s_dev (super_blocks s spi)) (zone_block (super_blocks s spi) z) \<and> in_use bp s s2 \<and>
     cache_frame s s2 \<and> vol_ok s2 spi \<and> used s2 spi = used s spi \<and>
     indz s2 spi = (if new then (indz s spi)(z := \<lambda>_. NO_ZONE) else indz s spi))"
proof (cases new)
  case True
  let ?sp = "super_blocks s spi"
  from hold_new [OF sp geomD(1) [OF vol_okD(1) [OF v]] vol_okD(11) [OF v z]] obtain bp s1 where
    b: "get_block (s_dev ?sp) (zone_block ?sp z) NO_READ s = Some (bp, s1)"
    "\<And>f. spare n (set_data bp f s1) \<and> holds (set_data bp f s1) bp (s_dev ?sp) (zone_block ?sp z) \<and>
      in_use bp s (set_data bp f s1) \<and> stored (s_dev ?sp) (zone_block ?sp z) f s (set_data bp f s1)" by blast
  define Z where "Z = (\<lambda>i. if i < MAX_BLOCK_SIZE then 0 else b_data (bufs s1 bp) i)"
  have zb: "zero_block bp s1 = set_data bp Z s1" by (simp add: zero_block_def Z_def)
  have st: "stored (s_dev ?sp) (zone_block ?sp z) Z s (set_data bp Z s1)" using b(2) by blast
  note vz = view_stored [OF v z st]
  have "indz (set_data bp Z s1) spi = (indz s spi)(z := \<lambda>_. NO_ZONE)"
    unfolding vz(4) using zero_entries [OF v] by (simp add: fun_eq_iff Z_def)
  with b True vz st show ?thesis
    by (intro exI [of _ bp] exI [of _ s1]) (simp add: zb stored_def)
next
  case False
  from hold_get [OF sp geomD(1) [OF vol_okD(1) [OF v]] vol_okD(11) [OF v z]] obtain bp s1 where
    b: "get_block (s_dev (super_blocks s spi)) (zone_block (super_blocks s spi) z) NORMAL s = Some (bp, s1)" "spare n s1"
    "holds s1 bp (s_dev (super_blocks s spi)) (zone_block (super_blocks s spi) z)" "in_use bp s s1" "cache_frame s s1" "same_contents s s1"
    by blast
  have k1: "sup_kept spi s s1" using b(5) by (intro sup_keptI) (simp add: cache_frame_sel)
  from view_same [OF v k1 b(6)] b False show ?thesis by (intro exI [of _ bp] exI [of _ s1]) simp
qed

lemma poke_indirect:
  assumes sp: "spare n s" and v: "vol_ok s spi" and z: "data_zone s spi z" and i: "in_block s spi i"
    and nz: "nz = NO_ZONE \<or> data_zone s spi nz"
    and h: "holds s bp (s_dev (super_blocks s spi)) (zone_block (super_blocks s spi) z)"
  shows "\<exists>s1. wr_indir bp i nz s = Some s1 \<and> (let s2 = set_dirty bp s1 in
    spare n s2 \<and> holds s2 bp (s_dev (super_blocks s spi)) (zone_block (super_blocks s spi) z) \<and> users_kept s s2 \<and>
    cache_frame s s2 \<and> vol_ok s2 spi \<and> used s2 spi = used s spi \<and>
    indz s2 spi = (indz s spi)(z := (indz s spi z)(i := nz)))"
proof -
  let ?sp = "super_blocks s spi" and ?e = "b_data (bufs s bp)"
  have "b_dev (bufs s bp) = s_dev ?sp" using h by (simp add: holds_def)
  from wr_indir_dirty [OF this v i, of nz] obtain s1 where
    w: "wr_indir bp i nz s = Some s1" "set_dirty bp s1 = set_data bp (put_entry ?sp i nz ?e) s" by blast
  note hs = hold_set [OF sp h, of "put_entry ?sp i nz ?e", folded w(2)]
  then have st: "stored (s_dev ?sp) (zone_block ?sp z) (put_entry ?sp i nz ?e) s (set_dirty bp s1)"
    and u: "users_kept s (set_dirty bp s1)" by (simp_all add: block_set_stored)
  note vt = view_stored [OF v z st]
  have ver: "s_version ?sp = 1 \<Longrightarrow> nz \<le> 0xFFFF" by (rule data_zone_entry [OF v nz])
  have d: "?e = contents s (s_dev ?sp) (zone_block ?sp z)" by (intro ext) (rule holds_data [OF sp h])
  have "(if in_block s spi j then entry ?sp j (put_entry ?sp i nz ?e) else 0) = ((indz s spi z)(i := nz)) j" for j
    using i z entry_put [where sp = ?sp and z = nz and j = j and i = i and d = ?e, OF ver]
    by (auto simp: indz_def Let_def d)
  then have "indz (set_dirty bp s1) spi = (indz s spi)(z := (indz s spi z)(i := nz))"
    unfolding vt(4) by (simp add: fun_eq_iff)
  with w(1) hs(1,3) u st vt show ?thesis by (intro exI [of _ s1]) (simp add: Let_def stored_def)
qed

lemma put_indirect:
  assumes sp: "spare (Suc n) s" and u: "in_use bp s t" and t: "spare m t" and h: "holds t bp d k" and v: "vol_ok t spi"
  shows "\<exists>s2. put_block (Some bp) INDIRECT_BLOCK t = Some s2 \<and> spare (Suc n) s2 \<and> cache_frame t s2 \<and> users_kept s s2 \<and>
    vol_ok s2 spi \<and> used s2 spi = used t spi \<and> indz s2 spi = indz t spi"
proof -
  from hold_put [OF sp u t h, of INDIRECT_BLOCK] obtain s2 where s2: "put_block (Some bp) INDIRECT_BLOCK t = Some s2"
    "spare (Suc n) s2" "cache_frame t s2" "same_contents t s2" "users_kept s s2" by blast
  have k2: "sup_kept spi t s2" using s2(3) by (intro sup_keptI) (simp only: cache_frame_sel)
  from view_same [OF v k2 s2(4)] s2 show ?thesis by blast
qed

lemma frame_kept: "cache_frame s s' \<Longrightarrow> sup_kept spi s s' \<and> inodes s' = inodes s \<and> err_code s' = err_code s"
  by (simp add: sup_keptI cache_frame_sel)

lemma fill_indirect_spec:
  assumes sp: "spare (Suc n) s" and v: "vol_ok s spi" and z1: "data_zone s spi z1" and ex: "in_block s spi ex"
    and nz: "nz = NO_ZONE \<or> data_zone s spi nz"
    and dev: "i_dev (inodes s rip) = s_dev (super_blocks s spi)" and sc: "scale = nat (s_log_zone_size (super_blocks s spi))"
  shows "\<exists>s'. fill_indirect rip scale z1 new ex nz s = Some (OK, s') \<and> spare (Suc n) s' \<and> vol_ok s' spi \<and>
    users_kept s s' \<and> sup_kept spi s s' \<and> inodes s' = inodes s \<and> used s' spi = used s spi \<and>
    indz s' spi = (indz s spi)(z1 := (if new then (\<lambda>_. 0) else indz s spi z1)(ex := nz))"
proof -
  let ?sp = "super_blocks s spi"
  let ?d = "s_dev ?sp" and ?k = "zone_block ?sp z1"
  have blk: "push_bit scale z1 = ?k" by (simp add: zone_block_def sc)
  from take_indirect [OF sp v z1, of new] obtain bp s1 where g: "get_block ?d ?k (if new then NO_READ else NORMAL) s = Some (bp, s1)"
    and t: "(let s2 = (if new then zero_block bp s1 else s1) in
     spare n s2 \<and> holds s2 bp ?d ?k \<and> in_use bp s s2 \<and> cache_frame s s2 \<and> vol_ok s2 spi \<and> used s2 spi = used s spi \<and>
     indz s2 spi = (if new then (indz s spi)(z1 := \<lambda>_. NO_ZONE) else indz s spi))" by blast
  define s2 where "s2 = (if new then zero_block bp s1 else s1)"
  from t have t: "spare n s2" "holds s2 bp ?d ?k" "in_use bp s s2" "cache_frame s s2" "vol_ok s2 spi" "used s2 spi = used s spi"
    "indz s2 spi = (if new then (indz s spi)(z1 := \<lambda>_. NO_ZONE) else indz s spi)" by (simp_all add: s2_def Let_def)
  have e: "super_blocks s2 = super_blocks s" using t(4) by (simp add: cache_frame_sel)
  have k2: "sup_kept spi s s2" using e by (rule sup_keptI)
  have "data_zone s2 spi z1" "in_block s2 spi ex" "nz = NO_ZONE \<or> data_zone s2 spi nz"
    "holds s2 bp (s_dev (super_blocks s2 spi)) (zone_block (super_blocks s2 spi) z1)"
    using z1 ex nz t(2) by (simp_all add: zone_kept [OF k2] e)
  from poke_indirect [OF t(1,5) this] obtain s3 where w: "wr_indir bp ex nz s2 = Some s3"
    and p: "spare n (set_dirty bp s3)" "holds (set_dirty bp s3) bp ?d ?k" "users_kept s2 (set_dirty bp s3)"
      "cache_frame s2 (set_dirty bp s3)" "vol_ok (set_dirty bp s3) spi" "used (set_dirty bp s3) spi = used s2 spi"
      "indz (set_dirty bp s3) spi = (indz s2 spi)(z1 := (indz s2 spi z1)(ex := nz))" by (auto simp: Let_def e)
  have "cache_ok s" using sp by (simp add: spare_def)
  with in_use_kept [OF t(3) p(3)] have iu: "in_use bp s (set_dirty bp s3)" by blast
  from put_indirect [OF sp iu p(1,2,5)] obtain s4 where s4: "put_block (Some bp) INDIRECT_BLOCK (set_dirty bp s3) = Some s4"
    "spare (Suc n) s4" "cache_frame (set_dirty bp s3) s4" "users_kept s s4" "vol_ok s4 spi"
    "used s4 spi = used (set_dirty bp s3) spi" "indz s4 spi = indz (set_dirty bp s3) spi" by blast
  have "cache_frame s s4" using t(4) p(4) s4(3) by (blast intro: cache_frame_trans)
  note f = frame_kept [OF this]
  have "fill_indirect rip scale z1 new ex nz s = Some (OK, s4)"
    using g w s4(1) unfolding fill_indirect_def dev blk by (simp add: Let_def s2_def [symmetric])
  with s4 f t p show ?thesis by (intro exI [of _ s4]) (auto simp: fun_eq_iff)
qed

subsection \<open>The tree of an inode\<close>

text \<open>
  The zones of a file, given the inode, the entries \<open>E\<close> of the indirect blocks, and the set \<open>U\<close> of the
  zones in use: the function from relative zone numbers, the zones that hold indirect blocks, and what
  makes them a tree.
\<close>

definition ref :: "(u32 \<Rightarrow> nat \<Rightarrow> u32) \<Rightarrow> u32 \<Rightarrow> nat \<Rightarrow> u32" where
  "ref E z i = (if z = NO_ZONE then NO_ZONE else E z i)"

lemma ref_none [simp]: "ref E NO_ZONE i = NO_ZONE"
  by (simp add: ref_def)

definition single :: "inode \<Rightarrow> u32" where "single ip = i_zone ip (i_ndzones ip)"
definition double :: "inode \<Rightarrow> u32" where "double ip = i_zone ip (i_ndzones ip + 1)"

definition max_zones :: "inode \<Rightarrow> nat" where
  "max_zones ip = i_ndzones ip + i_nindirs ip + i_nindirs ip * i_nindirs ip"

definition tree_zone :: "inode \<Rightarrow> (u32 \<Rightarrow> nat \<Rightarrow> u32) \<Rightarrow> nat \<Rightarrow> u32" where
  "tree_zone ip E j =
     (let D = i_ndzones ip; N = i_nindirs ip in
      if j < D then i_zone ip j
      else if j - D < N then ref E (single ip) (j - D)
      else ref E (ref E (double ip) ((j - D - N) div N)) ((j - D - N) mod N))"

definition tree_nodes :: "inode \<Rightarrow> (u32 \<Rightarrow> nat \<Rightarrow> u32) \<Rightarrow> u32 set" where
  "tree_nodes ip E = ({single ip, double ip} \<union> ref E (double ip) ` {..<i_nindirs ip}) - {NO_ZONE}"

definition tree_ok :: "inode \<Rightarrow> (u32 \<Rightarrow> nat \<Rightarrow> u32) \<Rightarrow> u32 set \<Rightarrow> (u32 \<Rightarrow> bool) \<Rightarrow> bool" where
  "tree_ok ip E U dz \<longleftrightarrow>
     (let N = i_nindirs ip; S = single ip; T = double ip; L = ref E T in
      0 < N \<and> tree_nodes ip E \<subseteq> U \<and> (S \<noteq> NO_ZONE \<longrightarrow> S \<noteq> T) \<and>
      (\<forall>i<N. L i \<noteq> NO_ZONE \<longrightarrow> L i \<noteq> S \<and> L i \<noteq> T) \<and>
      (\<forall>i<N. \<forall>j<N. L i \<noteq> NO_ZONE \<longrightarrow> L i = L j \<longrightarrow> i = j) \<and>
      (\<forall>z \<in> insert S (L ` {..<N}). \<forall>j<N. ref E z j = NO_ZONE \<or> dz (ref E z j)))"

lemma tree_okD:
  assumes "tree_ok ip E U dz"
  shows "0 < i_nindirs ip" "tree_nodes ip E \<subseteq> U" "single ip \<noteq> NO_ZONE \<Longrightarrow> single ip \<in> U" "double ip \<noteq> NO_ZONE \<Longrightarrow> double ip \<in> U"
    "i < i_nindirs ip \<Longrightarrow> ref E (double ip) i \<noteq> NO_ZONE \<Longrightarrow> ref E (double ip) i \<in> U"
    "single ip \<noteq> NO_ZONE \<Longrightarrow> single ip \<noteq> double ip"
    "i < i_nindirs ip \<Longrightarrow> ref E (double ip) i \<noteq> NO_ZONE \<Longrightarrow> ref E (double ip) i \<noteq> single ip"
    "i < i_nindirs ip \<Longrightarrow> ref E (double ip) i \<noteq> NO_ZONE \<Longrightarrow> ref E (double ip) i \<noteq> double ip"
    "i < i_nindirs ip \<Longrightarrow> j < i_nindirs ip \<Longrightarrow> ref E (double ip) i \<noteq> NO_ZONE \<Longrightarrow> ref E (double ip) i = ref E (double ip) j \<Longrightarrow> i = j"
    "j < i_nindirs ip \<Longrightarrow> ref E (single ip) j = NO_ZONE \<or> dz (ref E (single ip) j)"
    "i < i_nindirs ip \<Longrightarrow> j < i_nindirs ip \<Longrightarrow> ref E (ref E (double ip) i) j = NO_ZONE \<or> dz (ref E (ref E (double ip) i) j)"
  using assms unfolding tree_ok_def Let_def tree_nodes_def by (blast | fastforce)+

lemma zone_upd_sel:
  "single (ip\<lparr>i_zone := (i_zone ip)(k := z)\<rparr>) = (if k = i_ndzones ip then z else single ip)"
  "double (ip\<lparr>i_zone := (i_zone ip)(k := z)\<rparr>) = (if k = i_ndzones ip + 1 then z else double ip)"
  by (auto simp: single_def double_def)

text \<open>Indexes of the double indirect part.\<close>

lemma double_index:
  assumes "j < max_zones ip" "\<not> j < i_ndzones ip" "\<not> j - i_ndzones ip < i_nindirs ip"
  shows "(j - i_ndzones ip - i_nindirs ip) div i_nindirs ip < i_nindirs ip"
    "(j - i_ndzones ip - i_nindirs ip) mod i_nindirs ip < i_nindirs ip"
proof -
  have n: "0 < i_nindirs ip" using assms by (cases "i_nindirs ip") (auto simp: max_zones_def)
  show "(j - i_ndzones ip - i_nindirs ip) div i_nindirs ip < i_nindirs ip"
    using assms by (intro less_mult_imp_div_less) (simp add: max_zones_def)
  show "(j - i_ndzones ip - i_nindirs ip) mod i_nindirs ip < i_nindirs ip" using n by simp
qed

lemma tree_zone_cong:
  assumes "i_ndzones ip' = i_ndzones ip" "i_nindirs ip' = i_nindirs ip"
    and "\<And>i. i < i_ndzones ip \<Longrightarrow> i_zone ip' i = i_zone ip i"
    and "\<And>k. ref E' (single ip') k = ref E (single ip) k"
    and "\<And>i k. i < i_nindirs ip \<Longrightarrow> ref E' (ref E' (double ip') i) k = ref E (ref E (double ip) i) k"
    and "j < max_zones ip"
  shows "tree_zone ip' E' j = tree_zone ip E j"
  using assms(3,4) assms(5) [OF double_index(1) [OF assms(6)]] unfolding tree_zone_def Let_def assms(1,2) by simp

text \<open>A new, empty indirect block changes no zone of the file.\<close>

lemma grow_single:
  assumes t: "tree_ok ip E U dz" and s: "single ip = NO_ZONE" and w: "w \<notin> U" "w \<noteq> NO_ZONE"
  defines "ip' \<equiv> ip\<lparr>i_zone := (i_zone ip)(i_ndzones ip := w)\<rparr>" and "E' \<equiv> E(w := \<lambda>_. NO_ZONE)"
  shows "tree_ok ip' E' (insert w U) dz" "j < max_zones ip \<Longrightarrow> tree_zone ip' E' j = tree_zone ip E j"
    "tree_nodes ip' E' = insert w (tree_nodes ip E)" "single ip' = w"
proof -
  note o = tree_okD [OF t]
  have wT: "w \<noteq> double ip" using o(4) w by blast
  have sel: "single ip' = w" "double ip' = double ip" "i_nindirs ip' = i_nindirs ip" "i_ndzones ip' = i_ndzones ip"
    by (simp_all add: ip'_def zone_upd_sel)
  then show "single ip' = w" by simp
  have Z: "i_zone ip' i = i_zone ip i" if "i < i_ndzones ip" for i using that by (simp add: ip'_def)
  have L: "ref E' (double ip) i = ref E (double ip) i" for i using wT by (simp add: ref_def E'_def)
  have wL: "ref E (double ip) i \<noteq> w" if "i < i_nindirs ip" for i using o(5) [OF that] w by blast
  have LL: "ref E' (ref E (double ip) i) k = ref E (ref E (double ip) i) k" if "i < i_nindirs ip" for i k
    using wL [OF that] by (simp add: ref_def E'_def)
  have W: "ref E' w k = NO_ZONE" for k by (simp add: ref_def E'_def)
  show nodes: "tree_nodes ip' E' = insert w (tree_nodes ip E)"
    using w(2) s by (auto simp: tree_nodes_def sel L)
  show "tree_ok ip' E' (insert w U) dz"
    unfolding tree_ok_def Let_def sel nodes L
    using o(1,2,8) wT wL o(9) o(11) w by (auto simp: W LL)
  show "tree_zone ip' E' j = tree_zone ip E j" if "j < max_zones ip"
    by (rule tree_zone_cong [OF sel(4,3) _ _ _ that]) (simp_all add: sel L LL W s Z)
qed

lemma grow_double:
  assumes t: "tree_ok ip E U dz" and s: "double ip = NO_ZONE" and w: "w \<notin> U" "w \<noteq> NO_ZONE"
  defines "ip' \<equiv> ip\<lparr>i_zone := (i_zone ip)(i_ndzones ip + 1 := w)\<rparr>" and "E' \<equiv> E(w := \<lambda>_. NO_ZONE)"
  shows "tree_ok ip' E' (insert w U) dz" "j < max_zones ip \<Longrightarrow> tree_zone ip' E' j = tree_zone ip E j"
    "tree_nodes ip' E' = insert w (tree_nodes ip E)" "double ip' = w"
proof -
  note o = tree_okD [OF t]
  have sel: "single ip' = single ip" "double ip' = w" "i_nindirs ip' = i_nindirs ip" "i_ndzones ip' = i_ndzones ip"
    by (simp_all add: ip'_def zone_upd_sel)
  then show "double ip' = w" by simp
  have Z: "i_zone ip' i = i_zone ip i" if "i < i_ndzones ip" for i using that by (simp add: ip'_def)
  have wS: "single ip \<noteq> w" using o(3) w by blast
  have L0: "ref E (double ip) i = NO_ZONE" for i by (simp add: ref_def s)
  have L: "ref E' w i = NO_ZONE" for i by (simp add: ref_def E'_def)
  have S: "ref E' (single ip) i = ref E (single ip) i" for i using wS by (simp add: ref_def E'_def)
  show nodes: "tree_nodes ip' E' = insert w (tree_nodes ip E)"
    using w(2) s by (auto simp: tree_nodes_def sel L)
  show "tree_ok ip' E' (insert w U) dz"
    unfolding tree_ok_def Let_def sel nodes L
    using o(1,2) wS o(10) by (auto simp: S)
  show "tree_zone ip' E' j = tree_zone ip E j" if "j < max_zones ip"
    by (rule tree_zone_cong [OF sel(4,3) _ _ _ that]) (simp_all add: sel L L0 S Z)
qed

lemma grow_leaf:
  assumes t: "tree_ok ip E U dz" and s: "double ip \<noteq> NO_ZONE" and w: "w \<notin> U" "w \<noteq> NO_ZONE"
    and i: "i < i_nindirs ip" "ref E (double ip) i = NO_ZONE"
  defines "E' \<equiv> E(double ip := (E (double ip))(i := w), w := \<lambda>_. NO_ZONE)"
  shows "tree_ok ip E' (insert w U) dz" "j < max_zones ip \<Longrightarrow> tree_zone ip E' j = tree_zone ip E j"
    "tree_nodes ip E' = insert w (tree_nodes ip E)" "ref E' (double ip) i = w"
proof -
  note o = tree_okD [OF t]
  have wS: "single ip \<noteq> w" and wT: "double ip \<noteq> w" using o(3,4) w s by blast+
  have L: "ref E' (double ip) k = (if k = i then w else ref E (double ip) k)" for k
    using wT s by (simp add: ref_def E'_def)
  then show "ref E' (double ip) i = w" by simp
  have ST: "single ip = NO_ZONE \<or> single ip \<noteq> double ip" using o(6) by blast
  have S: "ref E' (single ip) k = ref E (single ip) k" for k
    using wS ST by (auto simp: ref_def E'_def)
  have wL: "ref E (double ip) k \<noteq> w" if "k < i_nindirs ip" for k using o(5) [OF that] w by blast
  have LL: "ref E' (ref E (double ip) k) l = ref E (ref E (double ip) k) l" if "k < i_nindirs ip" for k l
  proof (cases "ref E (double ip) k = NO_ZONE")
    case False
    with wL [OF that] o(8) [OF that] show ?thesis by (simp add: ref_def [of _ "ref E (double ip) k"] E'_def)
  qed simp
  have W: "ref E' w k = NO_ZONE" for k by (simp add: ref_def E'_def)
  show nodes: "tree_nodes ip E' = insert w (tree_nodes ip E)"
    using w(2) i by (auto simp: tree_nodes_def L image_iff)
  show "tree_ok ip E' (insert w U) dz"
    unfolding tree_ok_def Let_def nodes
    using o wS wT wL i w by (auto simp: L S W LL split: if_splits)
  show "tree_zone ip E' j = tree_zone ip E j" if "j < max_zones ip"
    by (rule tree_zone_cong [OF refl refl _ _ _ that]) (simp_all add: L LL S W i(2))
qed

text \<open>Entering a zone into a single indirect block of the tree.\<close>

lemma set_leaf_single:
  assumes t: "tree_ok ip E U dz" and s: "single ip \<noteq> NO_ZONE" and k: "k < i_nindirs ip" and z: "z = NO_ZONE \<or> dz z"
  defines "E' \<equiv> E(single ip := (E (single ip))(k := z))"
  shows "tree_ok ip E' U dz" "j < max_zones ip \<Longrightarrow> tree_zone ip E' j = (if j = i_ndzones ip + k then z else tree_zone ip E j)"
    "tree_nodes ip E' = tree_nodes ip E"
proof -
  note o = tree_okD [OF t]
  have L: "ref E' (double ip) i = ref E (double ip) i" for i using o(6) s by (simp add: ref_def E'_def)
  have S: "ref E' (single ip) i = (if i = k then z else ref E (single ip) i)" for i using s by (simp add: ref_def E'_def)
  have LL: "ref E' (ref E (double ip) i) l = ref E (ref E (double ip) i) l" if "i < i_nindirs ip" for i l
  proof (cases "ref E (double ip) i = NO_ZONE")
    case False
    with o(7) [OF that] show ?thesis by (simp add: ref_def [of _ "ref E (double ip) i"] E'_def)
  qed simp
  show nodes: "tree_nodes ip E' = tree_nodes ip E" by (simp add: tree_nodes_def L)
  show "tree_ok ip E' U dz"
    unfolding tree_ok_def Let_def nodes L using o z by (auto simp: S LL)
  show "tree_zone ip E' j = (if j = i_ndzones ip + k then z else tree_zone ip E j)" if "j < max_zones ip"
    using LL double_index [OF that] k by (auto simp: tree_zone_def Let_def L S)
qed

lemma set_leaf_double:
  assumes t: "tree_ok ip E U dz" and i: "i < i_nindirs ip" and s: "ref E (double ip) i \<noteq> NO_ZONE" and k: "k < i_nindirs ip"
    and z: "z = NO_ZONE \<or> dz z"
  defines "w \<equiv> ref E (double ip) i"
  defines "E' \<equiv> E(w := (E w)(k := z))"
  shows "tree_ok ip E' U dz" "j < max_zones ip \<Longrightarrow> tree_zone ip E' j =
      (if j = i_ndzones ip + i_nindirs ip + i * i_nindirs ip + k then z else tree_zone ip E j)"
    "tree_nodes ip E' = tree_nodes ip E"
proof -
  note o = tree_okD [OF t]
  have wn: "w \<noteq> NO_ZONE" "w \<noteq> double ip" "w \<noteq> single ip" using s o(7,8) [OF i s] by (simp_all add: w_def)
  have L: "ref E' (double ip) l = ref E (double ip) l" for l using wn by (simp add: ref_def E'_def)
  have S: "ref E' (single ip) l = ref E (single ip) l" for l using wn by (simp add: ref_def E'_def)
  have LL: "ref E' (ref E (double ip) m) l = (if m = i \<and> l = k then z else ref E (ref E (double ip) m) l)"
    if m: "m < i_nindirs ip" for m l
  proof (cases "ref E (double ip) m = NO_ZONE")
    case True
    with s show ?thesis by (auto simp: ref_def [of _ NO_ZONE])
  next
    case False
    with o(9) [OF m i] have "ref E (double ip) m = w \<longleftrightarrow> m = i" by (auto simp: w_def)
    with False show ?thesis by (auto simp: ref_def [of _ "ref E (double ip) m"] E'_def w_def [symmetric])
  qed
  show nodes: "tree_nodes ip E' = tree_nodes ip E" by (simp add: tree_nodes_def L)
  show "tree_ok ip E' U dz"
    unfolding tree_ok_def Let_def nodes L using o z by (auto simp: S LL)
  show "tree_zone ip E' j = (if j = i_ndzones ip + i_nindirs ip + i * i_nindirs ip + k then z else tree_zone ip E j)"
    if j: "j < max_zones ip"
  proof -
    consider "j < i_ndzones ip" | "\<not> j < i_ndzones ip" "j - i_ndzones ip < i_nindirs ip"
      | "\<not> j < i_ndzones ip" "\<not> j - i_ndzones ip < i_nindirs ip" by blast
    then show ?thesis
    proof cases
      case 3
      let ?m = "(j - i_ndzones ip - i_nindirs ip) div i_nindirs ip" and ?l = "(j - i_ndzones ip - i_nindirs ip) mod i_nindirs ip"
      note ml = double_index [OF j 3]
      have "?m * i_nindirs ip + ?l = j - i_ndzones ip - i_nindirs ip" by (rule div_mult_mod_eq)
      then have "j = i_ndzones ip + i_nindirs ip + i * i_nindirs ip + k \<longleftrightarrow> ?m = i \<and> ?l = k"
        using 3 k by auto
      then show ?thesis using 3 LL [OF ml(1)] by (simp add: tree_zone_def Let_def L)
    qed (auto simp: tree_zone_def Let_def S)
  qed
qed


subsection \<open>Writing the map\<close>

definition inode_ok :: "fsstate \<Rightarrow> nat \<Rightarrow> nat \<Rightarrow> bool" where
  "inode_ok s spi rip \<longleftrightarrow>
     (let ip = inodes s rip in
      i_sp ip = Some spi \<and> i_dev ip = s_dev (super_blocks s spi) \<and>
      tree_ok ip (indz s spi) (used s spi) (data_zone s spi) \<and> (\<forall>i<i_nindirs ip. in_block s spi i))"

definition file_zone :: "fsstate \<Rightarrow> nat \<Rightarrow> nat \<Rightarrow> u32" where
  "file_zone s rip j =
     (case i_sp (inodes s rip) of None \<Rightarrow> NO_ZONE | Some spi \<Rightarrow> tree_zone (inodes s rip) (indz s spi) j)"

text \<open>
  The outcome of writing zone \<open>nz\<close> at the relative zone number \<open>j\<close>: the map of the file is updated at
  \<open>j\<close> or, if the device is full, as it was. Volume and inode stay well formed, only zone numbers of this
  inode change, zones in use stay in use, and indirect blocks of other files keep their entries.
\<close>

definition map_updated :: "nat \<Rightarrow> nat \<Rightarrow> nat \<Rightarrow> u32 \<Rightarrow> int \<Rightarrow> fsstate \<Rightarrow> fsstate \<Rightarrow> bool" where
  "map_updated spi rip j nz r s s' \<longleftrightarrow>
     vol_ok s' spi \<and> inode_ok s' spi rip \<and> sup_kept spi s s' \<and> users_kept s s' \<and>
     (\<exists>d Z. inodes s' = (inodes s)(rip := (inodes s rip)\<lparr>i_zone := Z, i_dirt := d\<rparr>)) \<and> used s spi \<subseteq> used s' spi \<and>
     (\<forall>z\<in>used s spi - tree_nodes (inodes s rip) (indz s spi). indz s' spi z = indz s spi z) \<and>
     (r = OK \<and> (\<forall>k<max_zones (inodes s rip). file_zone s' rip k = (if k = j then nz else file_zone s rip k)) \<or>
      r = ENOSPC \<and> used s' spi = {z. data_zone s spi z} \<and>
        (\<forall>k<max_zones (inodes s rip). file_zone s' rip k = file_zone s rip k))"

lemma inode_okD:
  assumes "inode_ok s spi rip"
  shows "i_sp (inodes s rip) = Some spi" "i_dev (inodes s rip) = s_dev (super_blocks s spi)"
    "tree_ok (inodes s rip) (indz s spi) (used s spi) (data_zone s spi)" "i < i_nindirs (inodes s rip) \<Longrightarrow> in_block s spi i"
    "file_zone s rip j = tree_zone (inodes s rip) (indz s spi) j"
  using assms by (simp_all add: inode_ok_def Let_def file_zone_def)

lemma used_data: "z \<in> used s spi \<Longrightarrow> data_zone s spi z"
  by (simp add: used_def)

lemma set_zone_view:
  assumes "vol_ok s spi"
  shows "vol_ok (set_zone rip k z s) spi" "used (set_zone rip k z s) spi = used s spi" "indz (set_zone rip k z s) spi = indz s spi"
    "spare n (set_zone rip k z s) = spare n s" "users_kept s (set_zone rip k z s)" "sup_kept spi s (set_zone rip k z s)"
    "super_blocks (set_zone rip k z s) = super_blocks s" "err_code (set_zone rip k z s) = err_code s"
    "inodes (set_zone rip k z s) = (inodes s)(rip := (inodes s rip)\<lparr>i_zone := (i_zone (inodes s rip))(k := z)\<rparr>)"
proof -
  have k: "sup_kept spi s (set_zone rip k z s)" by (rule sup_keptI) (simp add: set_zone_def upd_inode_def)
  then show "sup_kept spi s (set_zone rip k z s)" .
  note view_core [OF assms k]
  then show "vol_ok (set_zone rip k z s) spi" "used (set_zone rip k z s) spi = used s spi" "indz (set_zone rip k z s) spi = indz s spi"
    "spare n (set_zone rip k z s) = spare n s" "users_kept s (set_zone rip k z s)"
    by (simp_all add: set_zone_def upd_inode_def)
qed (simp_all add: set_zone_def upd_inode_def)

text \<open>How the outcome follows from the effect on the tree.\<close>

lemma map_updatedI:
  assumes i: "inode_ok s spi rip" and v: "vol_ok s' spi" and k: "sup_kept spi s s'" and u: "users_kept s s'"
    and n: "inodes s' = (inodes s)(rip := ip')" and ip: "ip' = (inodes s rip)\<lparr>i_zone := Z\<rparr>"
    and t: "tree_ok ip' (indz s' spi) (used s' spi) (data_zone s spi)" and us: "used s spi \<subseteq> used s' spi"
    and o: "\<And>z. z \<in> used s spi \<Longrightarrow> z \<notin> tree_nodes (inodes s rip) (indz s spi) \<Longrightarrow> indz s' spi z = indz s spi z"
    and r: "r = OK \<and> (\<forall>k<max_zones (inodes s rip). tree_zone ip' (indz s' spi) k =
          (if k = j then nz else tree_zone (inodes s rip) (indz s spi) k)) \<or>
      r = ENOSPC \<and> used s' spi = {z. data_zone s spi z} \<and>
        (\<forall>k<max_zones (inodes s rip). tree_zone ip' (indz s' spi) k = tree_zone (inodes s rip) (indz s spi) k)"
  shows "map_updated spi rip j nz r s s'"
proof -
  note io = inode_okD [OF i]
  have e: "inodes s' rip = ip'" "i_sp ip' = Some spi" "i_dev ip' = s_dev (super_blocks s spi)" "i_nindirs ip' = i_nindirs (inodes s rip)"
    by (simp_all add: n ip io)
  have dz: "data_zone s' spi = data_zone s spi" by (intro ext) (rule zone_kept(1) [OF k])
  have "inode_ok s' spi rip"
    unfolding inode_ok_def Let_def e dz sup_keptD [OF k] zone_kept(2) [OF k] using t io(4) by simp
  moreover from inode_okD(5) [OF this] have "file_zone s' rip k = tree_zone ip' (indz s' spi) k" for k by (simp only: e)
  moreover have "\<exists>d Z. inodes s' = (inodes s)(rip := (inodes s rip)\<lparr>i_zone := Z, i_dirt := d\<rparr>)"
    unfolding n ip by (intro exI [of _ "i_dirt (inodes s rip)"] exI [of _ Z]) (cases "inodes s rip", simp)
  ultimately show ?thesis using v k u us o r by (auto simp: map_updated_def io(5))
qed

lemma write_single_spec:
  assumes sp: "spare (Suc n) s" and v: "vol_ok s spi" and i: "inode_ok s spi rip" and ex: "ex < i_nindirs (inodes s rip)"
    and nz: "nz = NO_ZONE \<or> data_zone s spi nz" and sc: "scale = nat (s_log_zone_size (super_blocks s spi))"
  shows "\<exists>r s'. write_single rip scale ex nz s = Some (r, s') \<and> spare (Suc n) s' \<and>
    map_updated spi rip (i_ndzones (inodes s rip) + ex) nz r s s'"
proof -
  let ?ip = "inodes s rip"
  note io = inode_okD [OF i]
  note t = tree_okD [OF io(3)]
  show ?thesis
  proof (cases "single ?ip = NO_ZONE")
    case False
    have "data_zone s spi (single ?ip)" by (rule used_data [OF t(3) [OF False]])
    from fill_indirect_spec [OF sp v this io(4) [OF ex] nz io(2) sc, of False] obtain s' where
      s': "fill_indirect rip scale (single ?ip) False ex nz s = Some (OK, s')" "spare (Suc n) s'" "vol_ok s' spi"
        "users_kept s s'" "sup_kept spi s s'" "inodes s' = inodes s" "used s' spi = used s spi"
        "indz s' spi = (indz s spi)(single ?ip := (indz s spi (single ?ip))(ex := nz))" by auto
    note l = set_leaf_single [OF io(3) False ex nz, folded s'(8)]
    have "map_updated spi rip (i_ndzones ?ip + ex) nz OK s s'"
    proof (rule map_updatedI [OF i s'(3,5,4), where ip' = ?ip and Z = "i_zone ?ip"])
      show "indz s' spi z = indz s spi z" if "z \<notin> tree_nodes ?ip (indz s spi)" for z
        using that False by (auto simp: s'(8) tree_nodes_def)
    qed (use l(1,2) s' in simp_all)
    moreover have "write_single rip scale ex nz s = Some (OK, s')"
      using False s'(1) by (simp add: write_single_def Let_def single_def)
    ultimately show ?thesis using s'(2) by blast
  next
    case True
    from alloc_zone_view [OF sp v io(2), of "i_zone ?ip 0"] obtain z s1 where
      a: "alloc_zone (i_dev ?ip) (i_zone ?ip 0) s = Some (z, s1)" "spare (Suc n) s1" "vol_ok s1 spi" "users_kept s s1"
        "sup_kept spi s s1" "inodes s1 = inodes s" "indz s1 spi = indz s spi"
      and or: "z = NO_ZONE \<and> err_code s1 = ENOSPC \<and> used s1 spi = used s spi \<and> used s spi = {z. data_zone s spi z} \<or>
        z \<noteq> NO_ZONE \<and> data_zone s spi z \<and> z \<notin> used s spi \<and> used s1 spi = insert z (used s spi)" by blast
    define s2 where "s2 = set_zone rip (i_ndzones ?ip) z s1"
    note v2 = set_zone_view [OF a(3), where rip = rip and k = "i_ndzones ?ip" and z = z, folded s2_def]
    have k2: "sup_kept spi s s2" using a(5) v2(6) by (rule sup_kept_trans)
    have u2: "users_kept s s2" using a(4) v2(5) by (rule users_kept_trans)
    have ws: "write_single rip scale ex nz s = (if z = NO_ZONE then Some (err_code s2, s2)
        else fill_indirect rip scale z True ex nz s2)"
      using True a(1) by (simp add: write_single_def Let_def single_def s2_def)
    show ?thesis
    proof (cases "z = NO_ZONE")
      case z: True
      with or have f: "err_code s1 = ENOSPC" "used s1 spi = used s spi" "used s spi = {z. data_zone s spi z}" by blast+
      have "?ip\<lparr>i_zone := (i_zone ?ip)(i_ndzones ?ip := z)\<rparr> = ?ip"
        using True z by (metis fun_upd_triv single_def inode.surjective inode.update_convs(9))
      then have ip: "inodes s2 = inodes s" by (simp add: v2(9) a(6) fun_upd_idem)
      have "map_updated spi rip (i_ndzones ?ip + ex) nz ENOSPC s s2"
        by (rule map_updatedI [OF i v2(1) k2 u2, where ip' = ?ip and Z = "i_zone ?ip"])
          (use io(3) f in \<open>simp_all add: ip v2 a\<close>)
      then show ?thesis using ws z f(1) v2(4) a(2) by (auto simp: v2(8))
    next
      case z: False
      with or have w: "data_zone s spi z" "z \<notin> used s spi" "used s1 spi = insert z (used s spi)" by blast+
      let ?ip2 = "?ip\<lparr>i_zone := (i_zone ?ip)(i_ndzones ?ip := z)\<rparr>" and ?E = "(indz s spi)(z := \<lambda>_. NO_ZONE)"
      have dz: "data_zone s2 spi = data_zone s spi" by (intro ext) (rule zone_kept(1) [OF k2])
      have sp2: "spare (Suc n) s2" using a(2) v2(4) by simp
      have p: "data_zone s2 spi z" "in_block s2 spi ex" "nz = NO_ZONE \<or> data_zone s2 spi nz"
        "i_dev (inodes s2 rip) = s_dev (super_blocks s2 spi)" "scale = nat (s_log_zone_size (super_blocks s2 spi))"
        using w nz sc io(4) [OF ex] io(2) by (simp_all add: dz zone_kept(2) [OF k2] sup_keptD [OF k2] v2(9) a(6))
      from fill_indirect_spec [OF sp2 v2(1) p, of True] obtain s' where
        s': "fill_indirect rip scale z True ex nz s2 = Some (OK, s')" "spare (Suc n) s'" "vol_ok s' spi"
          "users_kept s2 s'" "sup_kept spi s2 s'" "inodes s' = inodes s2" "used s' spi = used s2 spi"
          "indz s' spi = (indz s2 spi)(z := (\<lambda>_. 0)(ex := nz))" by auto
      note g = grow_single [OF io(3) True w(2) z]
      have e: "ex < i_nindirs ?ip2" "single ?ip2 \<noteq> NO_ZONE" using ex z g(4) by simp_all
      have E: "indz s' spi = ?E(single ?ip2 := (?E (single ?ip2))(ex := nz))" by (simp add: s'(8) v2(3) a(7) g(4) fun_eq_iff)
      note l = set_leaf_single [OF g(1) e(2,1) nz, folded E]
      have mz: "max_zones ?ip2 = max_zones ?ip" "i_ndzones ?ip2 = i_ndzones ?ip" by (simp_all add: max_zones_def)
      have "map_updated spi rip (i_ndzones ?ip + ex) nz OK s s'"
      proof (rule map_updatedI [OF i s'(3), where ip' = ?ip2 and Z = "(i_zone ?ip)(i_ndzones ?ip := z)"])
        show "sup_kept spi s s'" using k2 s'(5) by (rule sup_kept_trans)
        show "users_kept s s'" using u2 s'(4) by (rule users_kept_trans)
        show "indz s' spi y = indz s spi y" if "y \<in> used s spi" for y
          using that w(2) by (auto simp: s'(8) v2(3) a(7))
      qed (use l(1,2) g(2) s' w in \<open>simp_all add: v2 a mz subset_insertI\<close>)
      then show ?thesis using ws z s'(1,2) by auto
    qed
  qed
qed


lemma write_double_spec:
  assumes sp: "spare (Suc (Suc n)) s" and v: "vol_ok s spi" and dev: "i_dev (inodes s rip) = s_dev (super_blocks s spi)"
    and ib: "\<forall>i<i_nindirs (inodes s rip). in_block s spi i"
    and E: "E = (if new then (indz s spi)(double (inodes s rip) := \<lambda>_. NO_ZONE) else indz s spi)"
    and t: "tree_ok (inodes s rip) E (used s spi) (data_zone s spi)" and d: "double (inodes s rip) \<noteq> NO_ZONE"
    and ix: "ix < i_nindirs (inodes s rip)" and ex: "ex < i_nindirs (inodes s rip)"
    and nz: "nz = NO_ZONE \<or> data_zone s spi nz" and sc: "scale = nat (s_log_zone_size (super_blocks s spi))"
  shows "\<exists>r s'. write_double rip scale (double (inodes s rip)) new ix ex nz s = Some (r, s') \<and> spare (Suc (Suc n)) s' \<and>
    vol_ok s' spi \<and> users_kept s s' \<and> sup_kept spi s s' \<and> inodes s' = inodes s \<and>
    tree_ok (inodes s rip) (indz s' spi) (used s' spi) (data_zone s spi) \<and> used s spi \<subseteq> used s' spi \<and>
    (\<forall>y\<in>used s spi - tree_nodes (inodes s rip) E. indz s' spi y = indz s spi y) \<and>
    (r = OK \<and> (\<forall>k<max_zones (inodes s rip). tree_zone (inodes s rip) (indz s' spi) k =
        (if k = i_ndzones (inodes s rip) + i_nindirs (inodes s rip) + ix * i_nindirs (inodes s rip) + ex
         then nz else tree_zone (inodes s rip) E k)) \<or>
     r = ENOSPC \<and> used s' spi = {z. data_zone s spi z} \<and>
       (\<forall>k<max_zones (inodes s rip). tree_zone (inodes s rip) (indz s' spi) k = tree_zone (inodes s rip) E k))"
proof -
  let ?ip = "inodes s rip" and ?sp = "super_blocks s spi" and ?U = "used s spi"
  define T where "T = double ?ip"
  let ?d = "s_dev ?sp" and ?k = "zone_block ?sp T"
  note o = tree_okD [OF t]
  have dT: "data_zone s spi T" using o(4) d by (simp add: T_def used_data)
  have blk: "push_bit scale T = ?k" by (simp add: zone_block_def sc)
  from take_indirect [OF sp v dT, of new] obtain bp s1 where g: "get_block ?d ?k (if new then NO_READ else NORMAL) s = Some (bp, s1)"
    and "(let s2 = (if new then zero_block bp s1 else s1) in
     spare (Suc n) s2 \<and> holds s2 bp ?d ?k \<and> in_use bp s s2 \<and> cache_frame s s2 \<and> vol_ok s2 spi \<and> used s2 spi = used s spi \<and>
     indz s2 spi = (if new then (indz s spi)(T := \<lambda>_. NO_ZONE) else indz s spi))" by blast
  define s2 where "s2 = (if new then zero_block bp s1 else s1)"
  have s2: "spare (Suc n) s2" "holds s2 bp ?d ?k" "in_use bp s s2" "cache_frame s s2" "vol_ok s2 spi" "used s2 spi = ?U"
    "indz s2 spi = E" using \<open>let s2 = _ in _\<close> by (simp_all add: s2_def Let_def E T_def)
  have e2: "super_blocks s2 = super_blocks s" "inodes s2 = inodes s" using s2(4) by (simp_all add: cache_frame_sel)
  have k2: "sup_kept spi s s2" using e2(1) by (rule sup_keptI)
  have z2: "data_zone s2 spi = data_zone s spi" "in_block s2 spi = in_block s spi"
    by (intro ext zone_kept(1,2) [OF k2])+
  have ib': "in_block s spi ix" "in_block s spi ex" using ib ix ex by blast+
  have okz: "ref E T ix = NO_ZONE \<or> data_zone s spi (ref E T ix)" using o(5) [OF ix] used_data by (auto simp: T_def)
  have L: "ref E T ix = E T ix" using d by (simp add: ref_def T_def)
  have "rd_indir bp ix s2 = Some (indz s2 spi T ix)"
    by (rule rd_indir_view [OF s2(1) _ s2(5)]) (use s2(2,7) dT ib'(1) okz L in \<open>simp_all add: e2 z2\<close>)
  then have rd: "rd_indir bp ix s2 = Some (ref E T ix)" by (simp add: s2(7) L)
  have ok: "cache_ok s" using sp by (simp add: spare_def)
  show ?thesis
  proof (cases "ref E T ix = NO_ZONE")
    case False
    from put_indirect [OF sp s2(3,1,2,5)] obtain s3 where s3: "put_block (Some bp) INDIRECT_BLOCK s2 = Some s3"
      "spare (Suc (Suc n)) s3" "cache_frame s2 s3" "users_kept s s3" "vol_ok s3 spi" "used s3 spi = used s2 spi" "indz s3 spi = indz s2 spi" by blast
    have f3: "cache_frame s s3" using s2(4) s3(3) by (rule cache_frame_trans)
    then have e3: "super_blocks s3 = super_blocks s" "inodes s3 = inodes s" by (simp_all add: cache_frame_sel)
    have k3: "sup_kept spi s s3" using e3(1) by (rule sup_keptI)
    have "data_zone s3 spi (ref E T ix)" "in_block s3 spi ex" "nz = NO_ZONE \<or> data_zone s3 spi nz"
      "i_dev (inodes s3 rip) = s_dev (super_blocks s3 spi)" "scale = nat (s_log_zone_size (super_blocks s3 spi))"
      using okz False ib'(2) nz dev sc by (simp_all add: zone_kept [OF k3] e3)
    from fill_indirect_spec [OF s3(2,5) this, of False] obtain s' where
      s': "fill_indirect rip scale (ref E T ix) False ex nz s3 = Some (OK, s')" "spare (Suc (Suc n)) s'" "vol_ok s' spi"
        "users_kept s3 s'" "sup_kept spi s3 s'" "inodes s' = inodes s3" "used s' spi = used s3 spi"
        "indz s' spi = (indz s3 spi)(ref E T ix := (indz s3 spi (ref E T ix))(ex := nz))" by auto
    have E': "indz s' spi = E(ref E T ix := (E (ref E T ix))(ex := nz))" by (simp add: s'(8) s3(7) s2(7))
    note l = set_leaf_double [OF t ix False [unfolded T_def] ex nz, folded T_def, folded E']
    have wd: "write_double rip scale (double ?ip) new ix ex nz s = Some (OK, s')"
      using g rd False s3(1) s'(1) unfolding write_double_def T_def [symmetric] dev blk by (simp add: Let_def s2_def [symmetric])
    have "indz s' spi y = indz s spi y" if "y \<in> ?U" "y \<notin> tree_nodes ?ip E" for y
    proof -
      have "y \<noteq> T" "y \<noteq> ref E T ix" using that(2) d False ix by (auto simp: tree_nodes_def T_def)
      then show ?thesis by (simp add: E' E T_def)
    qed
    moreover have "users_kept s s'" using s3(4) s'(4) by (rule users_kept_trans)
    moreover have "sup_kept spi s s'" using k3 s'(5) by (rule sup_kept_trans)
    ultimately show ?thesis using wd s'(2,3) l(1,2) s'(6,7) e3 s3(6) s2(6)
      by (intro exI [of _ OK] exI [of _ s']) (simp add: T_def)
  next
    case True
    have dev2: "i_dev (inodes s2 rip) = s_dev (super_blocks s2 spi)" by (simp add: e2 dev)
    from alloc_zone_view [OF s2(1,5) dev2, of "i_zone (inodes s2 rip) 0"] obtain w s3 where
      a: "alloc_zone (i_dev (inodes s2 rip)) (i_zone (inodes s2 rip) 0) s2 = Some (w, s3)" "spare (Suc n) s3" "vol_ok s3 spi"
        "users_kept s2 s3" "sup_kept spi s2 s3" "inodes s3 = inodes s2" "indz s3 spi = indz s2 spi"
      and or: "w = NO_ZONE \<and> err_code s3 = ENOSPC \<and> used s3 spi = used s2 spi \<and> used s2 spi = {z. data_zone s2 spi z} \<or>
        w \<noteq> NO_ZONE \<and> data_zone s2 spi w \<and> w \<notin> used s2 spi \<and> used s3 spi = insert w (used s2 spi)" by blast
    have k3: "sup_kept spi s s3" using k2 a(5) by (rule sup_kept_trans)
    have z3: "data_zone s3 spi = data_zone s spi" "in_block s3 spi = in_block s spi"
      by (intro ext zone_kept(1,2) [OF k3])+
    have h3: "holds s3 bp (s_dev (super_blocks s3 spi)) (zone_block (super_blocks s3 spi) T)"
      using holds_kept [OF s2(2) a(4)] by (simp add: sup_keptD [OF k3] zone_kept [OF k3])
    have "w = NO_ZONE \<or> data_zone s3 spi w" using or by (auto simp: z2 z3)
    from poke_indirect [OF a(2,3) _ _ this h3, of ix] dT ib'(1) obtain s4 where wr: "wr_indir bp ix w s3 = Some s4"
      and p: "spare (Suc n) (set_dirty bp s4)" "holds (set_dirty bp s4) bp (s_dev (super_blocks s3 spi)) (zone_block (super_blocks s3 spi) T)"
        "users_kept s3 (set_dirty bp s4)" "cache_frame s3 (set_dirty bp s4)" "vol_ok (set_dirty bp s4) spi"
        "used (set_dirty bp s4) spi = used s3 spi"
        "indz (set_dirty bp s4) spi = (indz s3 spi)(T := (indz s3 spi T)(ix := w))" by (auto simp: Let_def z3)
    have "users_kept s2 (set_dirty bp s4)" using a(4) p(3) by (rule users_kept_trans)
    from in_use_kept [OF s2(3) this ok] have iu: "in_use bp s (set_dirty bp s4)" .
    from put_indirect [OF sp iu p(1,2,5)] obtain s5 where s5: "put_block (Some bp) INDIRECT_BLOCK (set_dirty bp s4) = Some s5"
      "spare (Suc (Suc n)) s5" "cache_frame (set_dirty bp s4) s5" "users_kept s s5" "vol_ok s5 spi"
      "used s5 spi = used (set_dirty bp s4) spi" "indz s5 spi = indz (set_dirty bp s4) spi" by blast
    have f5: "cache_frame s3 s5" using p(4) s5(3) by (rule cache_frame_trans)
    then have e5: "inodes s5 = inodes s" "err_code s5 = err_code s3" by (simp_all add: cache_frame_sel a(6) e2)
    have k5: "sup_kept spi s s5" using k3 frame_kept [OF f5] by (blast intro: sup_kept_trans)
    have E5: "indz s5 spi = E(T := (E T)(ix := w))" by (simp add: s5(7) p(7) a(7) s2(7))
    have wd: "write_double rip scale (double ?ip) new ix ex nz s =
        (if w = NO_ZONE then Some (err_code s5, s5) else fill_indirect rip scale w True ex nz s5)"
      using g rd True a(1) wr s5(1) unfolding write_double_def T_def [symmetric] dev blk
      by (simp add: Let_def s2_def [symmetric])
    show ?thesis
    proof (cases "w = NO_ZONE")
      case w: True
      with or have f: "err_code s3 = ENOSPC" "used s3 spi = used s2 spi" "used s2 spi = {z. data_zone s2 spi z}" by blast+
      have "indz s5 spi = E" using True w L by (auto simp: E5 fun_eq_iff)
      moreover have "E y = indz s spi y" if "y \<notin> tree_nodes ?ip E" for y
        using that d by (auto simp: E tree_nodes_def)
      ultimately show ?thesis using wd w f s5 e5 k5 t p(6) s2(6)
        by (intro exI [of _ ENOSPC] exI [of _ s5]) (simp add: z2)
    next
      case w: False
      with or have wn: "data_zone s spi w" "w \<notin> ?U" "used s3 spi = insert w ?U" by (auto simp: z2 s2(6))
      have "data_zone s5 spi w" "in_block s5 spi ex" "nz = NO_ZONE \<or> data_zone s5 spi nz"
        "i_dev (inodes s5 rip) = s_dev (super_blocks s5 spi)" "scale = nat (s_log_zone_size (super_blocks s5 spi))"
        using wn(1) ib'(2) nz dev sc by (simp_all add: zone_kept [OF k5] sup_keptD [OF k5] e5)
      from fill_indirect_spec [OF s5(2,5) this, of True] obtain s' where
        s': "fill_indirect rip scale w True ex nz s5 = Some (OK, s')" "spare (Suc (Suc n)) s'" "vol_ok s' spi"
          "users_kept s5 s'" "sup_kept spi s5 s'" "inodes s' = inodes s5" "used s' spi = used s5 spi"
          "indz s' spi = (indz s5 spi)(w := (\<lambda>_. 0)(ex := nz))" by auto
      let ?E = "E(T := (E T)(ix := w), w := \<lambda>_. NO_ZONE)"
      note gl = grow_leaf [OF t d wn(2) w ix True [unfolded T_def], folded T_def]
      have rn: "ref ?E (double ?ip) ix \<noteq> NO_ZONE" using gl(4) w unfolding T_def by simp
      have E': "indz s' spi = ?E(ref ?E T ix := (?E (ref ?E T ix))(ex := nz))"
        unfolding gl(4) by (simp add: s'(8) E5)
      note l = set_leaf_double [OF gl(1) ix rn ex nz, folded T_def, folded E']
      have "indz s' spi y = indz s spi y" if "y \<in> ?U" "y \<notin> tree_nodes ?ip E" for y
      proof -
        have "y \<noteq> T" "y \<noteq> w" using that d wn(2) by (auto simp: tree_nodes_def T_def)
        then show ?thesis by (simp add: s'(8) E5 E T_def)
      qed
      moreover have "users_kept s s'" using s5(4) s'(4) by (rule users_kept_trans)
      moreover have "sup_kept spi s s'" using k5 s'(5) by (rule sup_kept_trans)
      moreover have "used s' spi = insert w ?U" by (simp add: s'(7) s5(6) p(6) wn(3))
      ultimately show ?thesis using wd w s'(1,2,3) l(1,2) gl(2) s'(6) e5
        by (intro exI [of _ OK] exI [of _ s']) (simp add: T_def subset_insertI)
    qed
  qed
qed


definition rel_zone :: "super_block \<Rightarrow> u32 \<Rightarrow> nat" where
  "rel_zone sp position = drop_bit (nat (s_log_zone_size sp)) (unat position div s_block_size sp)"

lemma vol_block_size: "vol_ok s spi \<Longrightarrow> 0 < s_block_size (super_blocks s spi)"
  using geomD(4) [OF vol_okD(1), of s spi] by (auto simp: bits_per_block_def bitmap_chunks_def intro: ccontr)

lemma map_geom_ok:
  assumes v: "vol_ok s spi" and i: "i_sp (inodes s rip) = Some spi"
  shows "map_geom rip position s = Some (nat (s_log_zone_size (super_blocks s spi)),
    unat position div s_block_size (super_blocks s spi))"
  using vol_okD(6,7) [OF v] vol_block_size [OF v] by (simp add: map_geom_def i Let_def)

lemma write_map_dirty:
  assumes sp: "spare 2 s" and v: "vol_ok s spi" and i: "inode_ok s spi rip"
    and nz: "nz = NO_ZONE \<or> data_zone s spi nz" and dt: "i_dirt (inodes s rip)"
    and j: "rel_zone (super_blocks s spi) position < max_zones (inodes s rip)"
  shows "\<exists>r s'. write_map rip position nz s = Some (r, s') \<and> spare 2 s' \<and>
    map_updated spi rip (rel_zone (super_blocks s spi) position) nz r s s'"
proof -
  let ?ip = "inodes s rip" and ?sp = "super_blocks s spi"
  let ?j = "rel_zone ?sp position" and ?sc = "nat (s_log_zone_size ?sp)"
  let ?D = "i_ndzones ?ip" and ?N = "i_nindirs ?ip"
  note io = inode_okD [OF i]
  note t = tree_okD [OF io(3)]
  have sp2: "spare (Suc (Suc 0)) s" using sp by (simp add: numeral_2_eq_2)
  have s0: "upd_inode rip (\<lambda>ip. ip\<lparr>i_dirt := True\<rparr>) s = s"
  proof -
    have "?ip\<lparr>i_dirt := True\<rparr> = ?ip" using dt by (cases ?ip) simp
    then show ?thesis by (cases s) (simp add: upd_inode_def fun_eq_iff)
  qed
  have zone: "drop_bit ?sc (unat position div s_block_size ?sp) = ?j" by (simp add: rel_zone_def)
  note wm = write_map_def [of rip position nz s, unfolded s0 map_geom_ok [OF v io(1)] Let_def, simplified, unfolded zone]
  consider "?j < ?D" | "\<not> ?j < ?D" "?j - ?D < ?N" | "\<not> ?j < ?D" "\<not> ?j - ?D < ?N" by blast
  then show ?thesis
  proof cases
    case 1
    let ?s' = "set_zone rip ?j nz s" and ?ip' = "?ip\<lparr>i_zone := (i_zone ?ip)(?j := nz)\<rparr>"
    note w = set_zone_view [OF v, where rip = rip and k = ?j and z = nz]
    have sel: "single ?ip' = single ?ip" "double ?ip' = double ?ip" "i_nindirs ?ip' = ?N" "i_ndzones ?ip' = ?D"
      using 1 by (simp_all add: zone_upd_sel)
    have nodes: "tree_nodes ?ip' (indz s spi) = tree_nodes ?ip (indz s spi)" by (simp only: tree_nodes_def sel)
    have t': "tree_ok ?ip' (indz s spi) (used s spi) (data_zone s spi)"
      using io(3) unfolding tree_ok_def Let_def nodes sel .
    have "tree_zone ?ip' (indz s spi) k = (if k = ?j then nz else tree_zone ?ip (indz s spi) k)" for k
      using 1 unfolding tree_zone_def Let_def sel by auto
    then have "map_updated spi rip ?j nz OK s ?s'"
      using t' by (intro map_updatedI [OF i w(1,6,5,9) refl]) (simp_all add: w(2,3))
    then show ?thesis using wm 1 w(4) sp by auto
  next
    case 2
    from write_single_spec [OF sp2 v i 2(2) nz refl] obtain r s' where
      "write_single rip ?sc (?j - ?D) nz s = Some (r, s')" "spare (Suc (Suc 0)) s'" "map_updated spi rip (?D + (?j - ?D)) nz r s s'" by blast
    moreover have "?D + (?j - ?D) = ?j" using 2 by simp
    ultimately show ?thesis using wm 2 by (auto simp: numeral_2_eq_2)
  next
    case 3
    let ?ix = "(?j - ?D - ?N) div ?N" and ?ex = "(?j - ?D - ?N) mod ?N"
    note ix = double_index [OF j 3]
    have "?ix * ?N + ?ex = ?j - ?D - ?N" by (rule div_mult_mod_eq)
    then have je: "?D + ?N + ?ix * ?N + ?ex = ?j" using 3 by simp
    have n: "\<not> ?N \<le> ?ix" using ix(1) by simp
    have ib: "\<forall>i<?N. in_block s spi i" using io(4) by blast
    show ?thesis
    proof (cases "double ?ip = NO_ZONE")
      case False
      from write_double_spec [OF sp2 v io(2) ib _ io(3) False ix nz refl, of False] obtain r s' where
        w: "write_double rip ?sc (double ?ip) False ?ix ?ex nz s = Some (r, s')" "spare (Suc (Suc 0)) s'" "vol_ok s' spi"
          "users_kept s s'" "sup_kept spi s s'" "inodes s' = inodes s"
          "tree_ok ?ip (indz s' spi) (used s' spi) (data_zone s spi)" "used s spi \<subseteq> used s' spi"
          "\<forall>y\<in>used s spi - tree_nodes ?ip (indz s spi). indz s' spi y = indz s spi y"
        and r: "r = OK \<and> (\<forall>k<max_zones ?ip. tree_zone ?ip (indz s' spi) k =
            (if k = ?j then nz else tree_zone ?ip (indz s spi) k)) \<or>
          r = ENOSPC \<and> used s' spi = {z. data_zone s spi z} \<and>
            (\<forall>k<max_zones ?ip. tree_zone ?ip (indz s' spi) k = tree_zone ?ip (indz s spi) k)"
        unfolding je by auto
      have "inodes s' = (inodes s)(rip := ?ip)" "?ip = ?ip\<lparr>i_zone := i_zone ?ip\<rparr>" by (simp_all add: w(6))
      then have "map_updated spi rip ?j nz r s s'" using w(9) r by (intro map_updatedI [OF i w(3,5,4) _ _ w(7,8)]) blast+
      then show ?thesis using wm 3 False w(1,2) t(1) n by (auto simp: double_def numeral_2_eq_2)
    next
      case True
      from alloc_zone_view [OF sp2 v io(2), of "i_zone ?ip 0"] obtain z s1 where
        a: "alloc_zone (i_dev ?ip) (i_zone ?ip 0) s = Some (z, s1)" "spare (Suc (Suc 0)) s1" "vol_ok s1 spi" "users_kept s s1"
          "sup_kept spi s s1" "inodes s1 = inodes s" "indz s1 spi = indz s spi"
        and or: "z = NO_ZONE \<and> err_code s1 = ENOSPC \<and> used s1 spi = used s spi \<and> used s spi = {z. data_zone s spi z} \<or>
          z \<noteq> NO_ZONE \<and> data_zone s spi z \<and> z \<notin> used s spi \<and> used s1 spi = insert z (used s spi)" by blast
      have dz0: "i_zone ?ip (Suc ?D) = NO_ZONE" using True by (simp add: double_def)
      show ?thesis
      proof (cases "z = NO_ZONE")
        case z: True
        with or have f: "err_code s1 = ENOSPC" "used s1 spi = used s spi" "used s spi = {z. data_zone s spi z}" by blast+
        have "inodes s1 = (inodes s)(rip := ?ip)" "?ip = ?ip\<lparr>i_zone := i_zone ?ip\<rparr>" by (simp_all add: a(6))
        then have "map_updated spi rip ?j nz ENOSPC s s1"
          using io(3) f by (intro map_updatedI [OF i a(3,5,4), where ip' = ?ip and Z = "i_zone ?ip"]) (auto simp: a(7))
        then show ?thesis using wm 3 dz0 a(1,2) z f(1) by (auto simp: numeral_2_eq_2)
      next
        case z: False
        with or have w: "data_zone s spi z" "z \<notin> used s spi" "used s1 spi = insert z (used s spi)" by blast+
        define s2 where "s2 = set_zone rip (?D + 1) z s1"
        note v2 = set_zone_view [OF a(3), where rip = rip and k = "?D + 1" and z = z, folded s2_def]
        let ?ip2 = "?ip\<lparr>i_zone := (i_zone ?ip)(?D + 1 := z)\<rparr>" and ?E = "(indz s spi)(z := \<lambda>_. NO_ZONE)"
        have k2: "sup_kept spi s s2" using a(5) v2(6) by (rule sup_kept_trans)
        have u2: "users_kept s s2" using a(4) v2(5) by (rule users_kept_trans)
        have ip2: "inodes s2 rip = ?ip2" by (simp add: v2(9) a(6))
        note g = grow_double [OF io(3) True w(2) z]
        have sel: "i_nindirs ?ip2 = ?N" "i_ndzones ?ip2 = ?D" "max_zones ?ip2 = max_zones ?ip" by (simp_all add: max_zones_def)
        have us: "used s2 spi = insert z (used s spi)" "indz s2 spi = indz s spi" by (simp_all add: v2(2,3) w(3) a(7))
        have dz: "data_zone s2 spi = data_zone s spi" by (intro ext) (rule zone_kept(1) [OF k2])
        have "spare (Suc (Suc 0)) s2" using v2(4) a(2) by simp
        moreover have "i_dev (inodes s2 rip) = s_dev (super_blocks s2 spi)" using io(2) by (simp add: ip2 sup_keptD [OF k2])
        moreover have "\<forall>i<i_nindirs (inodes s2 rip). in_block s2 spi i" using io(4) by (simp add: ip2 zone_kept(2) [OF k2])
        moreover have "?E = (if True then (indz s2 spi)(double (inodes s2 rip) := \<lambda>_. NO_ZONE) else indz s2 spi)"
          by (simp only: ip2 g(4) us if_True)
        moreover have "tree_ok (inodes s2 rip) ?E (used s2 spi) (data_zone s2 spi)" using g(1) by (simp only: ip2 us dz)
        moreover have "double (inodes s2 rip) \<noteq> NO_ZONE" unfolding ip2 g(4) by (rule z)
        moreover have "?ix < i_nindirs (inodes s2 rip)" "?ex < i_nindirs (inodes s2 rip)" using ix by (simp_all add: ip2)
        moreover have "nz = NO_ZONE \<or> data_zone s2 spi nz" "?sc = nat (s_log_zone_size (super_blocks s2 spi))"
          using nz by (simp_all add: dz sup_keptD [OF k2])
        ultimately obtain r s' where
          d: "write_double rip ?sc (double (inodes s2 rip)) True ?ix ?ex nz s2 = Some (r, s')" "spare (Suc (Suc 0)) s'" "vol_ok s' spi"
            "users_kept s2 s'" "sup_kept spi s2 s'" "inodes s' = inodes s2"
            "tree_ok (inodes s2 rip) (indz s' spi) (used s' spi) (data_zone s2 spi)" "used s2 spi \<subseteq> used s' spi"
            "\<forall>y\<in>used s2 spi - tree_nodes (inodes s2 rip) ?E. indz s' spi y = indz s2 spi y"
          and r: "r = OK \<and> (\<forall>k<max_zones (inodes s2 rip). tree_zone (inodes s2 rip) (indz s' spi) k =
              (if k = i_ndzones (inodes s2 rip) + i_nindirs (inodes s2 rip) + ?ix * i_nindirs (inodes s2 rip) + ?ex
               then nz else tree_zone (inodes s2 rip) ?E k)) \<or>
            r = ENOSPC \<and> used s' spi = {z. data_zone s2 spi z} \<and>
              (\<forall>k<max_zones (inodes s2 rip). tree_zone (inodes s2 rip) (indz s' spi) k = tree_zone (inodes s2 rip) ?E k)"
          using write_double_spec [OF _ v2(1), where rip = rip and E = ?E and new = True and n = 0 and ix = ?ix and ex = ?ex
              and nz = nz and scale = ?sc] by blast
        have r': "r = OK \<and> (\<forall>k<max_zones ?ip. tree_zone ?ip2 (indz s' spi) k =
              (if k = ?j then nz else tree_zone ?ip (indz s spi) k)) \<or>
            r = ENOSPC \<and> used s' spi = {z. data_zone s spi z} \<and>
              (\<forall>k<max_zones ?ip. tree_zone ?ip2 (indz s' spi) k = tree_zone ?ip (indz s spi) k)"
          using r g(2) unfolding ip2 sel je dz by (elim disjE) (rule disjI1, simp, rule disjI2, simp)
        have "map_updated spi rip ?j nz r s s'"
        proof (rule map_updatedI [OF i d(3), where ip' = ?ip2 and Z = "(i_zone ?ip)(?D + 1 := z)"])
          show "sup_kept spi s s'" using k2 d(5) by (rule sup_kept_trans)
          show "users_kept s s'" using u2 d(4) by (rule users_kept_trans)
          show "inodes s' = (inodes s)(rip := ?ip2)" by (simp add: d(6) v2(9) a(6))
          show "tree_ok ?ip2 (indz s' spi) (used s' spi) (data_zone s spi)" using d(7) by (simp only: ip2 dz)
          show "used s spi \<subseteq> used s' spi" using d(8) us by blast
          show "indz s' spi y = indz s spi y" if "y \<in> used s spi" "y \<notin> tree_nodes ?ip (indz s spi)" for y
            using d(9) that w(2) unfolding ip2 g(3) us by auto
        qed (use r' in auto)
        moreover have "write_map rip position nz s = Some (r, s')"
          using wm 3 dz0 a(1) z n t(1) d(1) [unfolded ip2 g(4)] by (simp add: s2_def)
        ultimately show ?thesis using d(2) by (auto simp: numeral_2_eq_2)
      qed
    qed
  qed
qed


lemma write_map_spec:
  assumes sp: "spare 2 s" and v: "vol_ok s spi" and i: "inode_ok s spi rip"
    and nz: "nz = NO_ZONE \<or> data_zone s spi nz"
    and j: "rel_zone (super_blocks s spi) position < max_zones (inodes s rip)"
  shows "\<exists>r s'. write_map rip position nz s = Some (r, s') \<and> spare 2 s' \<and>
    map_updated spi rip (rel_zone (super_blocks s spi) position) nz r s s'"
proof -
  define t where "t = upd_inode rip (\<lambda>ip. ip\<lparr>i_dirt := True\<rparr>) s"
  have e: "bufs t = bufs s" "buf_hash t = buf_hash s" "front t = front s" "rear t = rear s" "disk t = disk s"
    "io_ans t = io_ans s" "super_blocks t = super_blocks s" "inodes t = (inodes s)(rip := (inodes s rip)\<lparr>i_dirt := True\<rparr>)"
    by (simp_all add: t_def upd_inode_def)
  have k: "sup_kept spi s t" using e(7) by (rule sup_keptI)
  note w = view_core [OF v k e(1-6)]
  have tree: "tree_zone (ip\<lparr>i_dirt := True\<rparr>) E = tree_zone ip E" "tree_ok (ip\<lparr>i_dirt := True\<rparr>) E U dz = tree_ok ip E U dz"
    "tree_nodes (ip\<lparr>i_dirt := True\<rparr>) E = tree_nodes ip E" "max_zones (ip\<lparr>i_dirt := True\<rparr>) = max_zones ip" for ip E U dz
    by (simp_all add: tree_zone_def tree_ok_def tree_nodes_def max_zones_def single_def double_def Let_def fun_eq_iff)
  have dz: "data_zone t spi = data_zone s spi" "in_block t spi = in_block s spi" by (intro ext zone_kept(1,2) [OF k])+
  have it: "inode_ok t spi rip" using i by (simp add: inode_ok_def Let_def e w dz tree)
  have fz: "file_zone t rip = file_zone s rip" by (simp add: inode_okD(5) [OF i] inode_okD(5) [OF it] e w tree fun_eq_iff)
  have same: "write_map rip position nz s = write_map rip position nz t"
  proof -
    have "upd_inode rip (\<lambda>ip. ip\<lparr>i_dirt := True\<rparr>) t = t" by (simp add: t_def upd_inode_def)
    then show ?thesis by (simp only: write_map_def t_def [symmetric] Let_def)
  qed
  from write_map_dirty [where s = t and spi = spi and rip = rip and position = position and nz = nz] sp v it nz j obtain r s' where
    r: "write_map rip position nz t = Some (r, s')" "spare 2 s'" "map_updated spi rip (rel_zone (super_blocks s spi) position) nz r t s'"
    by (auto simp: w dz e tree)
  have "map_updated spi rip (rel_zone (super_blocks s spi) position) nz r s s'"
  proof -
    from r(3) obtain d Z where "inodes s' = (inodes t)(rip := (inodes t rip)\<lparr>i_zone := Z, i_dirt := d\<rparr>)" by (auto simp: map_updated_def)
    then have "inodes s' = (inodes s)(rip := (inodes s rip)\<lparr>i_zone := Z, i_dirt := d\<rparr>)" by (simp add: e)
    moreover have "sup_kept spi s s'" using r(3) k by (auto simp: map_updated_def intro: sup_kept_trans)
    moreover have "users_kept s s'" using r(3) w(5) by (auto simp: map_updated_def intro: users_kept_trans)
    ultimately show ?thesis using r(3) unfolding map_updated_def by (auto simp: w dz fz e tree)
  qed
  with r same show ?thesis by auto
qed

text \<open>
  C4. The three-level map of a file. On a well-formed volume, for a well-formed inode, and at a position
  the map has room for, \<open>write_map\<close> returns, and the function from relative zone numbers to zones is
  updated at exactly the zone of the position; indirect blocks are allocated as needed, and only if the
  device is full does it report \<^verbatim>\<open>ENOSPC\<close> and leave the function as it was. Volume and inode stay
  well formed; zones in use stay in use, and the indirect blocks of other files keep their entries.
\<close>

theorem write_map_updates:
  assumes "spare 2 s" and "vol_ok s spi" and "inode_ok s spi rip"
    and "nz = NO_ZONE \<or> data_zone s spi nz"
    and "rel_zone (super_blocks s spi) position < max_zones (inodes s rip)"
  shows "\<exists>r s'. write_map rip position nz s = Some (r, s') \<and> spare 2 s' \<and>
    map_updated spi rip (rel_zone (super_blocks s spi) position) nz r s s'"
  using assms by (rule write_map_spec)

text \<open>A file with an empty map on the small volume.\<close>

definition demo_file :: fsstate where
  "demo_file = upd_inode 0 (\<lambda>ip. ip\<lparr>i_ndzones := 7, i_nindirs := 256, i_sp := Some 0, i_dev := 5\<rparr>) demo_vol"

lemma demo_file_sel:
  "bufs demo_file = bufs demo_vol" "buf_hash demo_file = buf_hash demo_vol" "front demo_file = front demo_vol"
  "rear demo_file = rear demo_vol" "disk demo_file = disk demo_vol" "io_ans demo_file = io_ans demo_vol"
  "super_blocks demo_file = super_blocks demo_vol"
  "inodes demo_file 0 = zero_inode\<lparr>i_ndzones := 7, i_nindirs := 256, i_sp := Some 0, i_dev := 5\<rparr>"
proof -
  have fr: "no_cache (buf_pool s) = no_cache s" for s
    by (simp add: buf_pool_def no_cache_def Let_def)
  have "inodes (no_cache s) = inodes s" for s by (simp add: no_cache_def)
  with fr have "inodes (buf_pool s) = inodes s" for s by metis
  then have "inodes demo_vol = (\<lambda>_. zero_inode)" by (simp add: demo_vol_def fs_zero_def)
  then show "inodes demo_file 0 = zero_inode\<lparr>i_ndzones := 7, i_nindirs := 256, i_sp := Some 0, i_dev := 5\<rparr>"
    by (simp add: demo_file_def upd_inode_def)
qed (simp_all add: demo_file_def upd_inode_def)


lemma demo_file_ok: "spare 2 demo_file" "vol_ok demo_file 0" "inode_ok demo_file 0 0"
proof -
  let ?s = "(fs_zero demo_msg (\<lambda>_ a. if a = 3072 then 1 else 0))\<lparr>super_blocks := (\<lambda>i. if i = 0 then demo_super else zero_super)\<rparr>"
  have z: "\<forall>i<NR_BUFS. b_count (bufs ?s i) = 0" "\<forall>h. buf_hash ?s h = None" by (simp_all add: fs_zero_def zero_buf_def)
  have cnt: "\<forall>i<NR_BUFS. b_count (bufs demo_vol i) = 0" using buf_pool_cache(7) [OF z] by (simp add: demo_vol_def)
  then have "idle_bufs demo_vol = {..<NR_BUFS}" by (auto simp: idle_bufs_def)
  then have "card (idle_bufs demo_vol) = NR_BUFS" by simp
  then have sp: "spare 2 demo_vol" using demo_vol_facts(1) cnt by (simp add: spare_def ready_def NR_BUFS_def)
  have sel: "s_dev demo_super = 5" "s_firstdatazone demo_super = 10" "s_zones demo_super = 200" "s_log_zone_size demo_super = 0"
    "s_version demo_super = 3" "s_block_size demo_super = 1024"
    by (simp_all add: demo_super_def zero_super_def)
  have n: "super_nrs = 0 # [1..<8]" by (simp add: super_nrs_def upt_rec)
  have gs: "get_super 5 demo_vol = Some 0" unfolding get_super_def n by (simp add: demo_vol_facts(2) sel)
  have mb: "map_blocks demo_vol 0 ZMAP = 1" "map_start demo_super ZMAP = 3"
    by (simp_all add: map_blocks_def bit_blocks_def demo_vol_facts(2) map_start_def) (simp_all add: demo_super_def)
  have zb: "zone_block demo_super z = z" for z by (simp add: zone_block_def sel)
  have fit: "fits demo_vol 5 z" if "z < 200" for z
  proof -
    from that have "unat z < 200" by (simp add: word_less_nat_alt)
    then have "unat z * 1024 + 1024 \<le> 2 ^ 32" by simp
    then show ?thesis by (simp add: fits_def demo_vol_facts(3) word_less_nat_alt)
  qed
  have v: "vol_ok demo_vol 0"
    unfolding vol_ok_def Let_def demo_vol_facts(2) sel mb zb data_zone_def
    using demo_vol_geom(1) demo_vol_bits(1) gs fit by auto
  have k: "sup_kept 0 demo_vol demo_file" by (rule sup_keptI) (rule demo_file_sel(7))
  note w = view_core [OF v k demo_file_sel(1-6)]
  show "spare 2 demo_file" "vol_ok demo_file 0" using w sp by simp_all
  have ip: "single (inodes demo_file 0) = 0" "double (inodes demo_file 0) = 0" "i_nindirs (inodes demo_file 0) = 256"
    by (simp_all add: demo_file_sel(8) single_def double_def zero_inode_def)
  have "tree_ok (inodes demo_file 0) E U dz" for E U dz by (auto simp: tree_ok_def tree_nodes_def Let_def ip)
  moreover have "in_block demo_file 0 i" if "i < 256" for i
    using that by (simp add: in_block_def Let_def demo_file_sel demo_vol_facts(2) sel entry_size_def)
  ultimately show "inode_ok demo_file 0 0"
    by (simp add: inode_ok_def Let_def ip) (simp add: demo_file_sel demo_vol_facts(2) sel)
qed

lemma demo_file_zones: "rel_zone (super_blocks demo_file 0) 8192 = 8" "max_zones (inodes demo_file 0) = 65799"
  "data_zone demo_file 0 20"
  by (simp_all add: rel_zone_def max_zones_def data_zone_def demo_file_sel demo_vol_facts(2) demo_super_def zero_super_def)

theorem write_map_updates_witness:
  "\<exists>r s'. write_map 0 8192 20 demo_file = Some (r, s') \<and> map_updated 0 0 8 20 r demo_file s'"
  using write_map_updates [OF demo_file_ok, where position = 8192 and nz = 20] by (simp add: demo_file_zones) blast

subsection \<open>Reading the map\<close>

text \<open>Looking up one entry of an indirect block.\<close>

lemma peek_indirect:
  assumes sp: "spare (Suc n) s" and v: "vol_ok s spi" and z: "data_zone s spi z" and i: "in_block s spi i"
    and e: "indz s spi z i = NO_ZONE \<or> data_zone s spi (indz s spi z i)"
  shows "\<exists>bp s1 s2. get_block (s_dev (super_blocks s spi)) (zone_block (super_blocks s spi) z) NORMAL s = Some (bp, s1) \<and>
    rd_indir bp i s1 = Some (indz s spi z i) \<and> put_block (Some bp) INDIRECT_BLOCK s1 = Some s2 \<and>
    spare (Suc n) s2 \<and> unchanged s s2"
proof -
  let ?sp = "super_blocks s spi"
  from hold_get [OF sp geomD(1) [OF vol_okD(1) [OF v]] vol_okD(11) [OF v z]] obtain bp s1 where
    b: "get_block (s_dev ?sp) (zone_block ?sp z) NORMAL s = Some (bp, s1)" "spare n s1"
    "holds s1 bp (s_dev ?sp) (zone_block ?sp z)" "in_use bp s s1" "cache_frame s s1" "same_contents s s1" by blast
  have eq: "super_blocks s1 = super_blocks s" using b(5) by (simp add: cache_frame_sel)
  have k1: "sup_kept spi s s1" using eq by (rule sup_keptI)
  note v1 = view_same [OF v k1 b(6)]
  have rd: "rd_indir bp i s1 = Some (indz s1 spi z i)"
    by (rule rd_indir_view [OF b(2) _ v1(1)]) (use b(3) z i e in \<open>simp_all add: zone_kept [OF k1] eq v1\<close>)
  from hold_put [OF sp b(4,2,3), of INDIRECT_BLOCK] obtain s2 where s2: "put_block (Some bp) INDIRECT_BLOCK s1 = Some s2"
    "spare (Suc n) s2" "cache_frame s1 s2" "same_contents s1 s2" "users_kept s s2" by blast
  have "unchanged s s2"
    using b(5,6) s2 same_contents_trans [OF b(6) s2(4) eq] by (auto simp: unchanged_def intro: cache_frame_trans)
  with b(1) rd v1(3) s2 show ?thesis by auto
qed

lemma unchanged_view:
  assumes "unchanged s s'" "vol_ok s spi"
  shows "sup_kept spi s s'" "vol_ok s' spi" "used s' spi = used s spi" "indz s' spi = indz s spi"
    "inodes s' = inodes s" "super_blocks s' = super_blocks s"
proof -
  show e: "super_blocks s' = super_blocks s" "inodes s' = inodes s" using assms(1) by (simp_all add: unchanged_def cache_frame_sel)
  then show k: "sup_kept spi s s'" by (intro sup_keptI)
  from view_same [OF assms(2) k] assms(1)
  show "vol_ok s' spi" "used s' spi = used s spi" "indz s' spi = indz s spi" by (simp_all add: unchanged_def)
qed

lemma unchanged_refl [simp]: "unchanged s s"
  by (simp add: unchanged_def same_contents_def)

text \<open>The block of a position in a zone of the file.\<close>

definition block_at :: "super_block \<Rightarrow> u32 \<Rightarrow> u32 \<Rightarrow> u32" where
  "block_at sp position z =
     (if z = NO_ZONE then NO_BLOCK
      else zone_block sp z + of_nat (unat position div s_block_size sp mod 2 ^ nat (s_log_zone_size sp)))"

lemma read_map_spec:
  assumes sp: "spare (Suc n) s" and v: "vol_ok s spi" and i: "inode_ok s spi rip"
    and j: "rel_zone (super_blocks s spi) position < max_zones (inodes s rip)"
  shows "\<exists>s'. read_map rip position s =
      Some (block_at (super_blocks s spi) position (file_zone s rip (rel_zone (super_blocks s spi) position)), s') \<and>
    spare (Suc n) s' \<and> unchanged s s'"
proof -
  let ?ip = "inodes s rip" and ?sp = "super_blocks s spi"
  let ?j = "rel_zone ?sp position" and ?sc = "nat (s_log_zone_size ?sp)"
  let ?b = "unat position div s_block_size ?sp"
  let ?D = "i_ndzones ?ip" and ?N = "i_nindirs ?ip"
  note io = inode_okD [OF i]
  note t = tree_okD [OF io(3)]
  have zone: "drop_bit ?sc ?b = ?j" by (simp add: rel_zone_def)
  have boff: "?b - push_bit ?sc ?j = ?b mod 2 ^ ?sc"
    unfolding zone [symmetric] drop_bit_nat_def push_bit_nat_def by (simp add: minus_div_mult_eq_mod)
  have blk: "push_bit ?sc z = zone_block ?sp z" for z by (simp add: zone_block_def)
  have fin: "(if z = NO_ZONE then NO_BLOCK else zone_block ?sp z + of_nat (?b mod 2 ^ ?sc)) = block_at ?sp position z" for z
    by (simp add: block_at_def)
  note rm = read_map_def [of rip position s, unfolded map_geom_ok [OF v io(1)] Let_def Option.bind.simps prod.case zone boff blk fin]
  have fz: "file_zone s rip ?j = tree_zone ?ip (indz s spi) ?j" by (rule io(5))
  have last: "\<exists>s'. (do { (bp, s2) \<leftarrow> get_block (i_dev ?ip) (zone_block ?sp z) NORMAL s1;
         z' \<leftarrow> rd_indir bp ex s2; s3 \<leftarrow> put_block (Some bp) INDIRECT_BLOCK s2; Some (block_at ?sp position z', s3) }) =
        Some (block_at ?sp position (ref (indz s spi) z ex), s') \<and> spare (Suc n) s' \<and> unchanged s s'"
    if z: "z \<noteq> NO_ZONE" "z \<in> used s spi" and ex: "ex < ?N" and e: "ref (indz s spi) z ex = NO_ZONE \<or> data_zone s spi (ref (indz s spi) z ex)"
      and s1: "spare (Suc n) s1" "unchanged s s1" for z ex s1
  proof -
    note u = unchanged_view [OF s1(2) v]
    have r: "ref (indz s spi) z ex = indz s spi z ex" using z(1) by (simp add: ref_def)
    from peek_indirect [OF s1(1) u(2), of z ex] z(2) io(4) [OF ex] e obtain bp s2 s3 where
      "get_block (s_dev ?sp) (zone_block ?sp z) NORMAL s1 = Some (bp, s2)" "rd_indir bp ex s2 = Some (indz s spi z ex)"
      "put_block (Some bp) INDIRECT_BLOCK s2 = Some s3" "spare (Suc n) s3" "unchanged s1 s3"
      by (auto simp: u zone_kept [OF u(1)] used_data r)
    with unchanged_trans [OF s1(2)] show ?thesis by (auto simp: io(2) r)
  qed
  consider "?j < ?D" | "\<not> ?j < ?D" "?j - ?D < ?N" | "\<not> ?j < ?D" "\<not> ?j - ?D < ?N" by blast
  then show ?thesis
  proof cases
    case 1
    then have "file_zone s rip ?j = i_zone ?ip ?j" unfolding fz tree_zone_def Let_def by simp
    with 1 sp rm show ?thesis by simp
  next
    case 2
    then have f: "file_zone s rip ?j = ref (indz s spi) (single ?ip) (?j - ?D)" unfolding fz tree_zone_def Let_def by simp
    show ?thesis
    proof (cases "single ?ip = NO_ZONE")
      case True
      with 2 sp rm show ?thesis unfolding f by (simp add: single_def block_at_def)
    next
      case False
      from last [OF False t(3) [OF False] 2(2) t(10) [OF 2(2)] sp unchanged_refl] 2 rm False show ?thesis
        unfolding f by (simp add: single_def [symmetric])
    qed
  next
    case 3
    let ?ix = "(?j - ?D - ?N) div ?N" and ?ex = "(?j - ?D - ?N) mod ?N"
    let ?z = "ref (indz s spi) (double ?ip) ?ix"
    note ix = double_index [OF j 3]
    from 3 have f: "file_zone s rip ?j = ref (indz s spi) ?z ?ex" unfolding fz tree_zone_def Let_def by simp
    show ?thesis
    proof (cases "double ?ip = NO_ZONE")
      case True
      with 3 sp rm show ?thesis unfolding f by (simp add: double_def block_at_def)
    next
      case False
      have r: "?z = indz s spi (double ?ip) ?ix" using False by (simp add: ref_def)
      have "?z = NO_ZONE \<or> data_zone s spi ?z" using t(5) [OF ix(1)] used_data by blast
      with peek_indirect [OF sp v used_data [OF t(4) [OF False]] io(4) [OF ix(1)]] obtain bp s1 s2 where
        p: "get_block (s_dev ?sp) (zone_block ?sp (double ?ip)) NORMAL s = Some (bp, s1)" "rd_indir bp ?ix s1 = Some ?z"
          "put_block (Some bp) INDIRECT_BLOCK s1 = Some s2" "spare (Suc n) s2" "unchanged s s2" unfolding r by blast
      have rm2: "read_map rip position s = (if ?z = NO_ZONE then Some (NO_BLOCK, s2)
          else do { (bp, s2) \<leftarrow> get_block (i_dev ?ip) (zone_block ?sp ?z) NORMAL s2;
            z' \<leftarrow> rd_indir bp ?ex s2; s3 \<leftarrow> put_block (Some bp) INDIRECT_BLOCK s2; Some (block_at ?sp position z', s3) })"
        using 3 rm p False t(1) by (simp add: io(2) double_def)
      show ?thesis
      proof (cases "?z = NO_ZONE")
        case True
        then show ?thesis using rm2 p(4,5) unfolding f True by (simp add: block_at_def)
      next
        case z: False
        from last [OF z t(5) [OF ix(1) z] ix(2) t(11) [OF ix] p(4,5)] show ?thesis
          unfolding f rm2 if_not_P [OF z] .
      qed
    qed
  qed
qed

text \<open>
  C39. \<open>read_map\<close> computes the block of a position from the map of the file: \<^verbatim>\<open>NO_BLOCK\<close> for a hole, and
  otherwise the block of the position in the zone. It changes the contents of no block.
\<close>

theorem read_map_evaluates:
  assumes "spare 1 s" and "vol_ok s spi" and "inode_ok s spi rip"
    and "rel_zone (super_blocks s spi) position < max_zones (inodes s rip)"
  shows "\<exists>s'. read_map rip position s =
      Some (block_at (super_blocks s spi) position (file_zone s rip (rel_zone (super_blocks s spi) position)), s') \<and>
    spare 1 s' \<and> unchanged s s'"
  using read_map_spec [of 0] assms by simp

theorem read_map_evaluates_witness:
  "\<exists>s'. read_map 0 8192 demo_file = Some (NO_BLOCK, s') \<and> unchanged demo_file s'"
proof -
  have "spare 1 demo_file" using demo_file_ok(1) by (rule spare_mono) simp
  moreover have "file_zone demo_file 0 8 = NO_ZONE"
    by (simp add: file_zone_def tree_zone_def demo_file_sel single_def Let_def zero_inode_def)
  ultimately show ?thesis
    using read_map_evaluates [OF _ demo_file_ok(2,3), of 8192] by (simp add: demo_file_zones block_at_def) blast
qed

end
