(* ===== verification/FS_Inode.thy ===== *)
theory FS_Inode
  imports FS_Map
begin

text \<open>
  The inode table (\<^verbatim>\<open>servers/fs/inode.c\<close>) and \<^verbatim>\<open>truncate\<close> of \<^verbatim>\<open>link.c\<close>. Inodes are copied from and
  to the blocks of the cache, in one of two layouts and two byte orders; the last user of an inode
  writes it back, and frees its zones and its bit if no directory refers to it any more.
\<close>

subsection \<open>Model: inodes on the disk\<close>

text \<open>Layout of a V1 inode (32 bytes).\<close>

definition read_d1 :: "bool \<Rightarrow> nat \<Rightarrow> bytes \<Rightarrow> inode \<Rightarrow> inode" where
  "read_d1 norm off d ip =
     (let mtime = sint (conv4 norm (get32 (off + 8) d)) in
      ip\<lparr>i_mode := conv_chunk norm (get16 off d), i_uid := sint (conv_chunk norm (get16 (off + 2) d)),
        i_size := conv4 norm (get32 (off + 4) d), i_mtime := mtime, i_atime := mtime, i_ctime := mtime,
        i_nlinks := uint (d (off + 13)), i_gid := sint (d (off + 12)), i_ndzones := 7, i_nindirs := 512,
        i_zone := (\<lambda>i. if i < V1_NR_TZONES then conv2 norm (ucast (get16 (off + 14 + 2 * i) d)) else i_zone ip i)\<rparr>)"

definition write_d1 :: "bool \<Rightarrow> nat \<Rightarrow> inode \<Rightarrow> bytes \<Rightarrow> bytes" where
  "write_d1 norm off ip d =
     (let d1 = put16 off (conv_chunk norm (i_mode ip)) d;
          d2 = put16 (off + 2) (conv_chunk norm (word_of_int (i_uid ip))) d1;
          d3 = put32 (off + 4) (conv4 norm (i_size ip)) d2;
          d4 = put32 (off + 8) (conv4 norm (word_of_int (i_mtime ip))) d3;
          d5 = d4(off + 13 := word_of_int (i_nlinks ip), off + 12 := word_of_int (i_gid ip))
      in fold (\<lambda>i. put16 (off + 14 + 2 * i) (ucast (conv2 norm (i_zone ip i)))) [0..<V1_NR_TZONES] d5)"

text \<open>Layout of a V2 or V3 inode (64 bytes).\<close>

definition read_d2 :: "bool \<Rightarrow> nat \<Rightarrow> nat \<Rightarrow> bytes \<Rightarrow> inode \<Rightarrow> inode" where
  "read_d2 norm block_size off d ip =
     ip\<lparr>i_mode := conv_chunk norm (get16 off d), i_uid := sint (conv_chunk norm (get16 (off + 4) d)),
       i_nlinks := sint (conv_chunk norm (get16 (off + 2) d)),
       i_gid := sint (ucast (conv_chunk norm (get16 (off + 6) d)) :: u8),
       i_size := conv4 norm (get32 (off + 8) d), i_atime := sint (conv4 norm (get32 (off + 12) d)),
       i_ctime := sint (conv4 norm (get32 (off + 20) d)), i_mtime := sint (conv4 norm (get32 (off + 16) d)),
       i_ndzones := 7, i_nindirs := block_size div 4,
       i_zone := (\<lambda>i. if i < V2_NR_TZONES then conv4 norm (get32 (off + 24 + 4 * i) d) else i_zone ip i)\<rparr>"

definition write_d2 :: "bool \<Rightarrow> nat \<Rightarrow> inode \<Rightarrow> bytes \<Rightarrow> bytes" where
  "write_d2 norm off ip d =
     (let d1 = put16 off (conv_chunk norm (i_mode ip)) d;
          d2 = put16 (off + 4) (conv_chunk norm (word_of_int (i_uid ip))) d1;
          d3 = put16 (off + 2) (conv_chunk norm (word_of_int (i_nlinks ip))) d2;
          d4 = put16 (off + 6) (conv_chunk norm (word_of_int (i_gid ip))) d3;
          d5 = put32 (off + 8) (conv4 norm (i_size ip)) d4;
          d6 = put32 (off + 12) (conv4 norm (word_of_int (i_atime ip))) d5;
          d7 = put32 (off + 20) (conv4 norm (word_of_int (i_ctime ip))) d6;
          d8 = put32 (off + 16) (conv4 norm (word_of_int (i_mtime ip))) d7
      in fold (\<lambda>i. put32 (off + 24 + 4 * i) (conv4 norm (i_zone ip i))) [0..<V2_NR_TZONES] d8)"

subsection \<open>Model: times\<close>

text \<open>The time in seconds; \<^verbatim>\<open>getuptime\<close> asks the kernel, and a failure is a panic.\<close>

definition clock_time :: "fsstate \<Rightarrow> (int \<times> fsstate) option" where
  "clock_time s =
     (let ((k, d), s1) = fs_do Fs_getuptime s in
      if k \<noteq> OK then None else Some (slong (fs_boottime s1 + cdiv (sint (get32 0 d)) 60), s1))"

definition stamp :: "int \<Rightarrow> inode \<Rightarrow> inode" where
  "stamp cur_time ip = ip\<lparr>
     i_atime := if ATIME \<in> i_update ip then cur_time else i_atime ip,
     i_ctime := if CTIME \<in> i_update ip then cur_time else i_ctime ip,
     i_mtime := if MTIME \<in> i_update ip then cur_time else i_mtime ip,
     i_update := {}\<rparr>"

definition update_times :: "nat \<Rightarrow> fsstate \<Rightarrow> fsstate option" where
  "update_times rip s = do {
     spi \<leftarrow> i_sp (inodes s rip);
     if s_rd_only (super_blocks s spi) then Some s
     else do {
       (cur_time, s1) \<leftarrow> clock_time s;
       Some (upd_inode rip (stamp cur_time) s1)
     }
   }"

subsection \<open>Model: reading and writing an inode\<close>

definition inode_block :: "super_block \<Rightarrow> u32 \<Rightarrow> u32" where
  "inode_block sp numb = (numb - 1) div of_nat (s_inodes_per_block sp) + word_of_int (s_imap_blocks sp + s_zmap_blocks sp + 2)"

definition inode_off :: "super_block \<Rightarrow> u32 \<Rightarrow> nat" where
  "inode_off sp numb =
     (if s_version sp = 1 then 32 * unat ((numb - 1) mod 32)
      else 64 * unat ((numb - 1) mod of_nat (s_block_size sp div 64)))"

definition rw_inode :: "nat \<Rightarrow> rw_flag \<Rightarrow> fsstate \<Rightarrow> fsstate option" where
  "rw_inode rip rw s = do {
     let dev = i_dev (inodes s rip);
     let numb = i_num (inodes s rip);
     spi \<leftarrow> get_super dev s;
     let sp = super_blocks s spi;
     let s1 = upd_inode rip (\<lambda>ip. ip\<lparr>i_sp := Some spi\<rparr>) s;
     guard (0 < s_inodes_per_block sp \<and> 64 \<le> s_block_size sp);
     (bp, s2) \<leftarrow> get_block dev (inode_block sp numb) NORMAL s1;
     let off = inode_off sp numb;
     s3 \<leftarrow> (case rw of
        READING \<Rightarrow> Some (upd_inode rip (\<lambda>ip.
          if s_version sp = 1 then read_d1 (s_native sp) off (b_data (bufs s2 bp)) ip
          else read_d2 (s_native sp) (s_block_size sp) off (b_data (bufs s2 bp)) ip) s2)
      | WRITING \<Rightarrow> do {
          t1 \<leftarrow> (if i_update (inodes s2 rip) \<noteq> {} then update_times rip s2 else Some s2);
          let t2 = (if s_rd_only sp then t1 else set_dirty bp t1);
          Some (upd_buf bp (\<lambda>b. b\<lparr>b_data :=
            (if s_version sp = 1 then write_d1 (s_native sp) off (inodes t2 rip) (b_data b)
             else write_d2 (s_native sp) off (inodes t2 rip) (b_data b))\<rparr>) t2)
        });
     s4 \<leftarrow> put_block (Some bp) INODE_BLOCK s3;
     Some (upd_inode rip (\<lambda>ip. ip\<lparr>i_dirt := False\<rparr>) s4)
   }"

subsection \<open>Model: the inode table\<close>

definition inode_nrs :: "nat list" where
  "inode_nrs = [0..<NR_INODES]"

text \<open>The slot that is in use for an inode, and the free slot found last; \<open>None\<close> in the result is \<^verbatim>\<open>NIL_INODE\<close>.\<close>

definition get_inode :: "int \<Rightarrow> u32 \<Rightarrow> fsstate \<Rightarrow> (nat option \<times> fsstate) option" where
  "get_inode dev numb s =
     (case find (\<lambda>r. 0 < i_count (inodes s r) \<and> i_dev (inodes s r) = dev \<and> i_num (inodes s r) = numb) inode_nrs of
        Some rip \<Rightarrow> Some (Some rip, upd_inode rip (\<lambda>ip. ip\<lparr>i_count := i_count ip + 1\<rparr>) s)
      | None \<Rightarrow>
          (case find (\<lambda>r. \<not> 0 < i_count (inodes s r)) (rev inode_nrs) of
             None \<Rightarrow> Some (None, s\<lparr>err_code := ENFILE\<rparr>)
           | Some xp \<Rightarrow> do {
               let s1 = upd_inode xp (\<lambda>ip. ip\<lparr>i_dev := dev, i_num := numb, i_count := 1\<rparr>) s;
               s2 \<leftarrow> (if dev \<noteq> NO_DEV then rw_inode xp READING s1 else Some s1);
               Some (Some xp, upd_inode xp (\<lambda>ip. ip\<lparr>i_update := {}\<rparr>) s2)
             }))"

definition dup_inode :: "nat \<Rightarrow> fsstate \<Rightarrow> fsstate" where
  "dup_inode rip s = upd_inode rip (\<lambda>ip. ip\<lparr>i_count := i_count ip + 1\<rparr>) s"

definition wipe_inode :: "nat \<Rightarrow> fsstate \<Rightarrow> fsstate" where
  "wipe_inode rip s = upd_inode rip (\<lambda>ip. ip\<lparr>i_size := 0, i_update := {ATIME, CTIME, MTIME}, i_dirt := True,
     i_zone := (\<lambda>i. if i < V2_NR_TZONES then NO_ZONE else i_zone ip i)\<rparr>) s"

definition free_inode :: "int \<Rightarrow> u32 \<Rightarrow> fsstate \<Rightarrow> fsstate option" where
  "free_inode dev inumb s = do {
     spi \<leftarrow> get_super dev s;
     if inumb = 0 \<or> s_ninodes (super_blocks s spi) < inumb then Some s
     else do {
       s1 \<leftarrow> free_bit spi IMAP inumb s;
       Some (if inumb < s_isearch (super_blocks s1 spi) then upd_super spi (\<lambda>sb. sb\<lparr>s_isearch := inumb\<rparr>) s1 else s1)
     }
   }"

definition alloc_inode :: "int \<Rightarrow> u16 \<Rightarrow> fsstate \<Rightarrow> (nat option \<times> fsstate) option" where
  "alloc_inode dev bits s = do {
     spi \<leftarrow> get_super dev s;
     if s_rd_only (super_blocks s spi) then Some (None, s\<lparr>err_code := EROFS\<rparr>)
     else do {
       (b, s1) \<leftarrow> alloc_bit spi IMAP (s_isearch (super_blocks s spi)) s;
       if b = NO_BIT then
         Some (None, fs_tell (Fs_printf ''Out of i-nodes'') (s1\<lparr>err_code := ENFILE\<rparr>))
       else do {
         let s2 = upd_super spi (\<lambda>sb. sb\<lparr>s_isearch := b\<rparr>) s1;
         (r, s3) \<leftarrow> get_inode NO_DEV b s2;
         case r of
           None \<Rightarrow> do { s4 \<leftarrow> free_bit spi IMAP b s3; Some (None, s4) }
         | Some rip \<Rightarrow>
             let sp = super_blocks s3 spi; rfp = fprocs s3 (fp s3);
                 s4 = upd_inode rip (\<lambda>ip. ip\<lparr>i_mode := bits, i_nlinks := 0, i_uid := fp_effuid rfp,
                   i_gid := fp_effgid rfp, i_dev := dev, i_ndzones := s_ndzones sp, i_nindirs := s_nindirs sp,
                   i_sp := Some spi\<rparr>) s3
             in Some (Some rip, wipe_inode rip s4)
       }
     }
   }"

subsection \<open>Model: truncate\<close>

text \<open>The loops over the positions of a file and over the entries of the double indirect block.\<close>

fun free_data :: "nat \<Rightarrow> nat \<Rightarrow> int \<Rightarrow> u32 list \<Rightarrow> fsstate \<Rightarrow> fsstate option" where
  "free_data rip scale dev [] s = Some s"
| "free_data rip scale dev (position # ps) s = do {
     (b, s1) \<leftarrow> read_map rip position s;
     s2 \<leftarrow> (if b \<noteq> NO_BLOCK then free_zone dev (drop_bit scale b) s1 else Some s1);
     free_data rip scale dev ps s2
   }"

fun free_singles :: "nat \<Rightarrow> int \<Rightarrow> nat list \<Rightarrow> fsstate \<Rightarrow> fsstate option" where
  "free_singles bp dev [] s = Some s"
| "free_singles bp dev (i # is) s = do {
     z1 \<leftarrow> rd_indir bp i s;
     s1 \<leftarrow> free_zone dev z1 s;
     free_singles bp dev is s1
   }"

text \<open>The positions 0, \<open>zone_size\<close>, \<dots> below the size; the loop does not end if the position wraps around.\<close>

definition zone_positions :: "u32 \<Rightarrow> u32 \<Rightarrow> u32 list option" where
  "zone_positions zone_size siz =
     (let n = (unat siz + unat zone_size - 1) div unat zone_size in
      if siz = 0 then Some []
      else if zone_size = 0 \<or> 2 ^ 32 \<le> n * unat zone_size then None
      else Some (map (\<lambda>k. of_nat k * zone_size) [0..<n]))"

definition truncate_inode :: "nat \<Rightarrow> fsstate \<Rightarrow> fsstate option" where
  "truncate_inode rip s = (
     let file_type = i_mode (inodes s rip) AND I_TYPE in
     if file_type = I_CHAR_SPECIAL \<or> file_type = I_BLOCK_SPECIAL then Some s
     else do {
       spi \<leftarrow> i_sp (inodes s rip);
       let sp = super_blocks s spi;
       let dev = i_dev (inodes s rip);
       guard (0 \<le> s_log_zone_size sp \<and> s_log_zone_size sp < 32);
       let scale = nat (s_log_zone_size sp);
       let zone_size = (push_bit scale (of_nat (s_block_size sp)) :: u32);
       let waspipe = i_pipe (inodes s rip);
       let s1 = (if waspipe then upd_inode rip (\<lambda>ip. ip\<lparr>i_size := of_nat (7 * s_block_size sp)\<rparr>) s else s);
       ps \<leftarrow> zone_positions zone_size (i_size (inodes s1 rip));
       s2 \<leftarrow> free_data rip scale dev ps s1;
       let s3 = upd_inode rip (\<lambda>ip. ip\<lparr>i_dirt := True\<rparr>) s2;
       if waspipe then Some (wipe_inode rip s3)
       else do {
         let ip = inodes s3 rip;
         s4 \<leftarrow> free_zone dev (i_zone ip (i_ndzones ip)) s3;
         let z = i_zone ip (i_ndzones ip + 1);
         if z = NO_ZONE then Some s4
         else do {
           (bp, s5) \<leftarrow> get_block dev (push_bit scale z) NORMAL s4;
           s6 \<leftarrow> free_singles bp dev [0..<i_nindirs ip] s5;
           s7 \<leftarrow> put_block (Some bp) INDIRECT_BLOCK s6;
           free_zone dev z s7
         }
       }
     })"

definition put_inode :: "nat option \<Rightarrow> fsstate \<Rightarrow> fsstate option" where
  "put_inode r s = (case r of None \<Rightarrow> Some s | Some rip \<Rightarrow> (
     let s1 = upd_inode rip (\<lambda>ip. ip\<lparr>i_count := i_count ip - 1\<rparr>) s in
     if i_count (inodes s1 rip) \<noteq> 0 then Some s1
     else do {
       s2 \<leftarrow> (if i_nlinks (inodes s1 rip) = 0 then do {
                 t1 \<leftarrow> truncate_inode rip s1;
                 let t2 = upd_inode rip (\<lambda>ip. ip\<lparr>i_mode := I_NOT_ALLOC, i_dirt := True\<rparr>) t1;
                 free_inode (i_dev (inodes t2 rip)) (i_num (inodes t2 rip)) t2
               } else if i_pipe (inodes s1 rip) then truncate_inode rip s1 else Some s1);
       let s3 = upd_inode rip (\<lambda>ip. ip\<lparr>i_pipe := False\<rparr>) s2;
       if i_dirt (inodes s3 rip) then rw_inode rip WRITING s3 else Some s3
     }))"


subsection \<open>Freeing a zone\<close>

lemma free_zone_none:
  assumes "vol_ok s spi" "dev = s_dev (super_blocks s spi)" "\<not> data_zone s spi z"
  shows "free_zone dev z s = Some s"
  using vol_okD(3) [OF assms(1)] assms(2,3) by (auto simp: free_zone_def data_zone_def Let_def not_le not_less)

lemma free_zone_view:
  assumes sp: "spare (Suc n) s" and v: "vol_ok s spi" and dev: "dev = s_dev (super_blocks s spi)" and z: "z \<in> used s spi"
  shows "\<exists>s'. free_zone dev z s = Some s' \<and> spare (Suc n) s' \<and> vol_ok s' spi \<and> users_kept s s' \<and> sup_kept spi s s' \<and>
    inodes s' = inodes s \<and> indz s' spi = indz s spi \<and> used s' spi = used s spi - {z}"
proof -
  let ?sp = "super_blocks s spi"
  note g = vol_okD(1) [OF v]
  define fdz where "fdz = (ucast (s_firstdatazone ?sp) :: u32)"
  let ?b = "z - (fdz - 1)"
  have dz: "data_zone s spi z" using z by (rule used_data)
  have r: "ready s" using sp by (rule spare_ready) simp
  have bl: "unat ?b < map_blocks s spi ZMAP * bits_per_block ?sp" "0 < unat ?b"
    using zone_bit(2,3) [OF v dz] geomD(7) [OF g] by (simp_all add: fdz_def)
  have mz: "map_bit s spi ZMAP (unat ?b)" using z by (simp add: used_def zone_used_def fdz_def)
  from free_bit_spec [OF r g bl(1)] mz obtain s1 k x where
    f: "free_bit spi ZMAP ?b s = Some s1" "ready s1"
    and mb: "\<forall>j<map_blocks s spi ZMAP * bits_per_block ?sp. map_bit s1 spi ZMAP j \<longleftrightarrow> j \<noteq> unat ?b \<and> map_bit s spi ZMAP j"
    and bs: "k < map_blocks s spi ZMAP" "block_set (s_dev ?sp) (map_start ?sp ZMAP + of_nat k) x s s1" by auto
  from bs have fr: "cache_frame s s1" "users_kept s s1" by (simp_all add: block_set_def)
  have k1: "sup_kept spi s s1" using fr(1) by (intro sup_keptI) (simp add: cache_frame_sel)
  have "0 < map_blocks s spi ZMAP * bits_per_block ?sp" using geomD(4,5) [OF g] by simp
  with mb vol_okD(2) [OF v] bl(2) have "map_bit s1 spi ZMAP 0" by simp
  from vol_ok_kept [OF v k1 this] have v1: "vol_ok s1 spi" .
  note i1 = indz_map_block [OF v bs]
  define s2 where "s2 = (if ?b < s_zsearch (super_blocks s1 spi) then upd_super spi (\<lambda>sb. sb\<lparr>s_zsearch := ?b\<rparr>) s1 else s1)"
  have e: "bufs s2 = bufs s1" "buf_hash s2 = buf_hash s1" "front s2 = front s1" "rear s2 = rear s1" "disk s2 = disk s1"
    "io_ans s2 = io_ans s1" "inodes s2 = inodes s1"
    by (simp_all add: s2_def upd_super_def)
  have k2: "sup_kept spi s1 s2" unfolding sup_kept_def s2_def
    by (intro exI [of _ "if ?b < s_zsearch (super_blocks s1 spi) then ?b else s_zsearch (super_blocks s1 spi)"])
      (simp add: upd_super_def fun_eq_iff)
  note v2 = view_core [OF v1 k2 e(1-6)]
  have "zone_used s1 spi y \<longleftrightarrow> y \<noteq> z \<and> zone_used s spi y" if y: "data_zone s spi y" for y
  proof -
    have "unat (y - (fdz - 1)) < map_blocks s spi ZMAP * bits_per_block ?sp"
      using zone_bit(2) [OF v y] geomD(7) [OF g] by (simp add: fdz_def)
    with mb have "zone_used s1 spi y \<longleftrightarrow> unat (y - (fdz - 1)) \<noteq> unat ?b \<and> zone_used s spi y"
      by (simp only: zone_used_def sup_keptD [OF k1] fdz_def)
    also have "unat (y - (fdz - 1)) = unat ?b \<longleftrightarrow> y = z" by (simp only: word_unat_eq_iff [symmetric]) auto
    finally show ?thesis .
  qed
  then have "used s1 spi = used s spi - {z}" by (auto simp: used_def zone_kept(1) [OF k1])
  moreover have "spare (Suc n) s1" by (rule spare_ready_kept [OF sp fr(2) f(2)])
  moreover have "users_kept s s2" using fr(2) v2(5) by (rule users_kept_trans)
  moreover have "sup_kept spi s s2" using k1 k2 by (rule sup_kept_trans)
  moreover have "inodes s2 = inodes s" using e(7) fr(1) by (simp add: cache_frame_sel)
  moreover have "free_zone dev z s = Some s2"
    using dz f(1) vol_okD(3) [OF v] unfolding free_zone_def dev Let_def
    by (auto simp: data_zone_def fdz_def [symmetric] s2_def not_less not_le)
  ultimately show ?thesis using v2 i1 by (intro exI [of _ s2]) simp
qed


text \<open>Zones were freed, and nothing else happened.\<close>

definition freed :: "nat \<Rightarrow> u32 set \<Rightarrow> fsstate \<Rightarrow> fsstate \<Rightarrow> bool" where
  "freed spi F s s' \<longleftrightarrow> vol_ok s' spi \<and> users_kept s s' \<and> sup_kept spi s s' \<and> inodes s' = inodes s \<and>
     indz s' spi = indz s spi \<and> used s' spi = used s spi - F"

lemma freed_refl: "vol_ok s spi \<Longrightarrow> freed spi {} s s"
  by (simp add: freed_def)

lemma freed_trans: "freed spi F s s1 \<Longrightarrow> freed spi G s1 s2 \<Longrightarrow> freed spi (F \<union> G) s s2"
  unfolding freed_def by (auto intro: users_kept_trans sup_kept_trans)

lemma unchanged_freed: "unchanged s s' \<Longrightarrow> vol_ok s spi \<Longrightarrow> freed spi {} s s'"
  using unchanged_view [of s s' spi] by (simp add: freed_def unchanged_def)

lemma freed_zone_kept:
  assumes "freed spi F s s'"
  shows "data_zone s' spi = data_zone s spi" "in_block s' spi = in_block s spi" "zone_block (super_blocks s' spi) = zone_block (super_blocks s spi)"
    "rel_zone (super_blocks s' spi) = rel_zone (super_blocks s spi)" "block_at (super_blocks s' spi) = block_at (super_blocks s spi)"
    "s_dev (super_blocks s' spi) = s_dev (super_blocks s spi)"
proof -
  have k: "sup_kept spi s s'" using assms by (simp add: freed_def)
  show "data_zone s' spi = data_zone s spi" "in_block s' spi = in_block s spi"
    "zone_block (super_blocks s' spi) = zone_block (super_blocks s spi)"
    by (intro ext zone_kept [OF k])+
  then show "rel_zone (super_blocks s' spi) = rel_zone (super_blocks s spi)" "block_at (super_blocks s' spi) = block_at (super_blocks s spi)"
    by (simp_all add: fun_eq_iff rel_zone_def block_at_def sup_keptD [OF k])
  show "s_dev (super_blocks s' spi) = s_dev (super_blocks s spi)" by (rule sup_keptD(3) [OF k])
qed

lemma freed_inode:
  assumes i: "inode_ok s spi rip" and f: "freed spi F s s'" and F: "F \<inter> tree_nodes (inodes s rip) (indz s spi) = {}"
  shows "inode_ok s' spi rip" "file_zone s' rip = file_zone s rip"
proof -
  have e: "inodes s' = inodes s" "indz s' spi = indz s spi" "used s' spi = used s spi - F" using f by (simp_all add: freed_def)
  have "tree_ok (inodes s rip) (indz s spi) (used s spi - F) (data_zone s spi)"
    using inode_okD(3) [OF i] F unfolding tree_ok_def Let_def by blast
  with i show "inode_ok s' spi rip" by (simp add: inode_ok_def Let_def e freed_zone_kept [OF f])
  then show "file_zone s' rip = file_zone s rip" by (intro ext) (simp add: inode_okD(5) [OF i] inode_okD(5) e)
qed

lemma free_zone_freed:
  assumes "spare (Suc n) s" "vol_ok s spi" "dev = s_dev (super_blocks s spi)" "z = NO_ZONE \<or> z \<in> used s spi"
  shows "\<exists>s'. free_zone dev z s = Some s' \<and> spare (Suc n) s' \<and> freed spi ({z} - {NO_ZONE}) s s'"
proof (cases "z = NO_ZONE")
  case True
  have "ucast (s_firstdatazone (super_blocks s spi)) \<noteq> (0 :: u32)"
    using vol_okD(4) [OF assms(2)] by (simp add: unat_fdz word_unat_eq_iff)
  then have "\<not> data_zone s spi z" using True by (simp add: data_zone_def)
  from free_zone_none [OF assms(2,3) this] assms(1,2) True show ?thesis by (simp add: freed_refl)
next
  case False
  with free_zone_view [OF assms(1-3), of z] assms(4) show ?thesis by (simp add: freed_def)
qed

subsection \<open>Truncating a file\<close>

text \<open>Finding the zone of a block again.\<close>

lemma block_zone:
  assumes v: "vol_ok s spi" and z: "data_zone s spi z"
  shows "drop_bit (nat (s_log_zone_size (super_blocks s spi))) (zone_block (super_blocks s spi) z) = z"
    "zone_block (super_blocks s spi) z \<noteq> 0"
proof -
  let ?c = "nat (s_log_zone_size (super_blocks s spi))" and ?Z = "s_zones (super_blocks s spi)"
  have "unat z \<le> unat ?Z" using z by (simp add: data_zone_def word_less_nat_alt)
  then have "unat z * 2 ^ ?c \<le> unat ?Z * 2 ^ ?c" by (rule mult_le_mono1)
  with vol_okD(8) [OF v] have lt: "unat z * 2 ^ ?c < 2 ^ 32" by linarith
  then have u: "unat (zone_block (super_blocks s spi) z) = unat z * 2 ^ ?c"
    by (simp add: zone_block_def unsigned_push_bit_eq push_bit_nat_def take_bit_nat_eq_self)
  then show "drop_bit ?c (zone_block (super_blocks s spi) z) = z"
  proof -
    have "take_bit LENGTH(32) (unat z * 2 ^ ?c) = unat z * 2 ^ ?c" using lt by (intro take_bit_nat_eq_self) simp
    then show ?thesis by (simp only: word_unat_eq_iff unsigned_drop_bit_eq drop_bit_nat_def u) simp
  qed
  have "ucast (s_firstdatazone (super_blocks s spi)) \<noteq> (0 :: u32)"
    using vol_okD(4) [OF v] by (simp add: unat_fdz word_unat_eq_iff)
  with z have "z \<noteq> 0" by (auto simp: data_zone_def)
  then show "zone_block (super_blocks s spi) z \<noteq> 0" using u by (auto simp: word_unat_eq_iff)
qed

lemma free_data_spec:
  assumes "spare (Suc n) s" "vol_ok s spi" "inode_ok s spi rip" "distinct js"
    and "\<forall>j\<in>set js. j < max_zones (inodes s rip) \<and> rel_zone (super_blocks s spi) (pos j) = j \<and>
      block_at (super_blocks s spi) (pos j) = (\<lambda>z. if z = NO_ZONE then NO_BLOCK else zone_block (super_blocks s spi) z)"
    and "\<forall>j\<in>set js. file_zone s rip j = NO_ZONE \<or>
      file_zone s rip j \<in> used s spi \<and> file_zone s rip j \<notin> tree_nodes (inodes s rip) (indz s spi)"
    and "\<forall>i\<in>set js. \<forall>j\<in>set js. file_zone s rip i \<noteq> NO_ZONE \<longrightarrow> file_zone s rip i = file_zone s rip j \<longrightarrow> i = j"
  shows "\<exists>s'. free_data rip (nat (s_log_zone_size (super_blocks s spi))) (s_dev (super_blocks s spi)) (map pos js) s = Some s' \<and>
    spare (Suc n) s' \<and> freed spi (file_zone s rip ` set js - {NO_ZONE}) s s'"
  using assms
proof (induction js arbitrary: s)
  case Nil
  then show ?case by (simp add: freed_refl)
next
  case (Cons j js)
  let ?sp = "super_blocks s spi" and ?z = "file_zone s rip j"
  have j: "j < max_zones (inodes s rip)" "rel_zone ?sp (pos j) = j"
    "block_at ?sp (pos j) = (\<lambda>z. if z = NO_ZONE then NO_BLOCK else zone_block ?sp z)" using Cons.prems(5) by simp_all
  from read_map_spec [OF Cons.prems(1-3), of "pos j"] j obtain s1 where
    r: "read_map rip (pos j) s = Some (if ?z = NO_ZONE then NO_BLOCK else zone_block ?sp ?z, s1)" "spare (Suc n) s1" "unchanged s s1"
    by auto
  note f1 = unchanged_freed [OF r(3) Cons.prems(2)]
  have z: "?z = NO_ZONE \<or> ?z \<in> used s spi \<and> ?z \<notin> tree_nodes (inodes s rip) (indz s spi)" using Cons.prems(6) by simp
  have v1: "vol_ok s1 spi" using f1 by (simp add: freed_def)
  have "?z = NO_ZONE \<or> ?z \<in> used s1 spi" using z f1 by (auto simp: freed_def)
  from free_zone_freed [OF r(2) v1 _ this, of "s_dev ?sp"] freed_zone_kept(6) [OF f1] obtain s2 where
    s2: "free_zone (s_dev ?sp) ?z s1 = Some s2" "spare (Suc n) s2" "freed spi ({?z} - {NO_ZONE}) s1 s2" by auto
  have f2: "freed spi ({?z} - {NO_ZONE}) s s2" using freed_trans [OF f1 s2(3)] by simp
  have v2: "vol_ok s2 spi" "used s2 spi = used s spi - ({?z} - {NO_ZONE})" "inodes s2 = inodes s" "indz s2 spi = indz s spi"
    "sup_kept spi s s2" using f2 by (simp_all add: freed_def)
  have "({?z} - {NO_ZONE}) \<inter> tree_nodes (inodes s rip) (indz s spi) = {}" using z by auto
  note i2 = freed_inode [OF Cons.prems(3) f2 this]
  have sc: "s_log_zone_size (super_blocks s2 spi) = s_log_zone_size ?sp" "s_dev (super_blocks s2 spi) = s_dev ?sp"
    by (rule sup_keptD [OF v2(5)])+
  have step: "(if (if ?z = NO_ZONE then NO_BLOCK else zone_block ?sp ?z) \<noteq> NO_BLOCK
      then free_zone (s_dev ?sp) (drop_bit (nat (s_log_zone_size ?sp)) (if ?z = NO_ZONE then NO_BLOCK else zone_block ?sp ?z)) s1
      else Some s1) = Some (if ?z = NO_ZONE then s1 else s2)"
    using block_zone [OF Cons.prems(2), of ?z] z s2(1) by (auto dest: used_data)
  have s12: "?z = NO_ZONE \<Longrightarrow> s2 = s1"
  proof -
    assume "?z = NO_ZONE"
    moreover from this have "\<not> data_zone s1 spi ?z"
      using vol_okD(4) [OF v1] by (simp add: data_zone_def unat_fdz word_unat_eq_iff word_le_nat_alt)
    ultimately show "s2 = s1" using free_zone_none [OF v1 _ , of "s_dev ?sp" ?z] freed_zone_kept(6) [OF f1] s2(1) by simp
  qed
  have "\<forall>i\<in>set js. file_zone s rip i = NO_ZONE \<or> file_zone s rip i \<noteq> ?z"
    using Cons.prems(4,7) by (metis distinct.simps(2) list.set_intros(1) list.set_intros(2))
  then have "\<forall>i\<in>set js. file_zone s2 rip i = NO_ZONE \<or>
      file_zone s2 rip i \<in> used s2 spi \<and> file_zone s2 rip i \<notin> tree_nodes (inodes s2 rip) (indz s2 spi)"
    using Cons.prems(6) unfolding i2(2) v2 by auto
  from Cons.IH [OF s2(2) v2(1) i2(1) _ _ this] Cons.prems(4,5,7) obtain s' where
    s': "free_data rip (nat (s_log_zone_size ?sp)) (s_dev ?sp) (map pos js) s2 = Some s'" "spare (Suc n) s'"
      "freed spi (file_zone s rip ` set js - {NO_ZONE}) s2 s'"
    unfolding i2(2) v2(3) freed_zone_kept [OF f2] sc by auto
  have "free_data rip (nat (s_log_zone_size ?sp)) (s_dev ?sp) (map pos (j # js)) s = Some s'"
    using r(1) step s'(1) s12 by (simp only: free_data.simps list.map Option.bind.simps prod.case) (cases "?z = NO_ZONE"; simp)
  moreover have "({?z} - {NO_ZONE}) \<union> (file_zone s rip ` set js - {NO_ZONE}) = file_zone s rip ` set (j # js) - {NO_ZONE}" by auto
  ultimately have "freed spi (file_zone s rip ` set (j # js) - {NO_ZONE}) s s'" using freed_trans [OF f2 s'(3)] by simp
  with \<open>free_data rip _ _ (map pos (j # js)) s = Some s'\<close> s'(2) show ?case by blast
qed

lemma free_singles_spec:
  assumes "spare (Suc n) s" "vol_ok s spi" "holds s bp (s_dev (super_blocks s spi)) (zone_block (super_blocks s spi) T)"
    "data_zone s spi T" "distinct is"
    and "\<forall>i\<in>set is. in_block s spi i \<and> (indz s spi T i = NO_ZONE \<or> indz s spi T i \<in> used s spi)"
    and "\<forall>i\<in>set is. \<forall>j\<in>set is. indz s spi T i \<noteq> NO_ZONE \<longrightarrow> indz s spi T i = indz s spi T j \<longrightarrow> i = j"
  shows "\<exists>s'. free_singles bp (s_dev (super_blocks s spi)) is s = Some s' \<and> spare (Suc n) s' \<and>
    freed spi (indz s spi T ` set is - {NO_ZONE}) s s'"
  using assms
proof (induction "is" arbitrary: s)
  case Nil
  then show ?case by (simp add: freed_refl)
next
  case (Cons i "is")
  let ?sp = "super_blocks s spi" and ?z = "indz s spi T i"
  have z: "?z = NO_ZONE \<or> ?z \<in> used s spi" "in_block s spi i" using Cons.prems(6) by simp_all
  then have rd: "rd_indir bp i s = Some ?z"
    using used_data by (intro rd_indir_view [OF Cons.prems(1,3,2,4)]) auto
  from free_zone_freed [OF Cons.prems(1,2) refl z(1)] obtain s1 where
    s1: "free_zone (s_dev ?sp) ?z s = Some s1" "spare (Suc n) s1" "freed spi ({?z} - {NO_ZONE}) s s1" by blast
  have v1: "vol_ok s1 spi" "used s1 spi = used s spi - ({?z} - {NO_ZONE})" "indz s1 spi = indz s spi" "users_kept s s1"
    using s1(3) by (simp_all add: freed_def)
  note k1 = freed_zone_kept [OF s1(3)]
  have h1: "holds s1 bp (s_dev (super_blocks s1 spi)) (zone_block (super_blocks s1 spi) T)"
    using holds_kept [OF Cons.prems(3) v1(4)] by (simp add: k1)
  have "\<forall>j\<in>set is. indz s spi T j = NO_ZONE \<or> indz s spi T j \<noteq> ?z"
    using Cons.prems(5,7) by (metis distinct.simps(2) list.set_intros(1) list.set_intros(2))
  then have "\<forall>j\<in>set is. in_block s1 spi j \<and> (indz s1 spi T j = NO_ZONE \<or> indz s1 spi T j \<in> used s1 spi)"
    using Cons.prems(6) unfolding v1 k1 by auto
  from Cons.IH [OF s1(2) v1(1) h1 _ _ this] Cons.prems(4,5,7) obtain s' where
    s': "free_singles bp (s_dev ?sp) is s1 = Some s'" "spare (Suc n) s'" "freed spi (indz s spi T ` set is - {NO_ZONE}) s1 s'"
    unfolding v1 k1 by auto
  have "({?z} - {NO_ZONE}) \<union> (indz s spi T ` set is - {NO_ZONE}) = indz s spi T ` set (i # is) - {NO_ZONE}" by auto
  with freed_trans [OF s1(3) s'(3)] s'(1,2) rd s1(1) show ?case by simp
qed


text \<open>
  A file: a well-formed inode whose zones are in use, are no indirect blocks of it, and occur once.
\<close>

definition file_ok :: "fsstate \<Rightarrow> nat \<Rightarrow> nat \<Rightarrow> bool" where
  "file_ok s spi rip \<longleftrightarrow> inode_ok s spi rip \<and>
     (\<forall>j<max_zones (inodes s rip). file_zone s rip j = NO_ZONE \<or>
        file_zone s rip j \<in> used s spi \<and> file_zone s rip j \<notin> tree_nodes (inodes s rip) (indz s spi)) \<and>
     (\<forall>i<max_zones (inodes s rip). \<forall>j<max_zones (inodes s rip).
        file_zone s rip i \<noteq> NO_ZONE \<longrightarrow> file_zone s rip i = file_zone s rip j \<longrightarrow> i = j)"

definition zone_bytes :: "super_block \<Rightarrow> nat" where
  "zone_bytes sp = s_block_size sp * 2 ^ nat (s_log_zone_size sp)"

definition size_zones :: "super_block \<Rightarrow> u32 \<Rightarrow> nat" where
  "size_zones sp siz = (unat siz + zone_bytes sp - 1) div zone_bytes sp"

lemma zone_bytes_word:
  assumes v: "vol_ok s spi"
  shows "unat (push_bit (nat (s_log_zone_size (super_blocks s spi))) (of_nat (s_block_size (super_blocks s spi))) :: u32) =
      zone_bytes (super_blocks s spi)" "0 < zone_bytes (super_blocks s spi)"
proof -
  let ?sp = "super_blocks s spi" and ?c = "nat (s_log_zone_size (super_blocks s spi))"
  have b: "s_block_size ?sp \<le> 4096" using vol_okD(10) [OF v] by (auto split: if_splits)
  have "?c \<le> 4" using vol_okD(7) [OF v] by simp
  then have "(2::nat) ^ ?c \<le> 2 ^ 4" by (rule power_increasing) simp
  with b have "s_block_size ?sp * 2 ^ ?c \<le> 4096 * 2 ^ 4" by (rule mult_le_mono)
  then have lt: "s_block_size ?sp * 2 ^ ?c < 2 ^ LENGTH(32)" by simp
  have "unat (of_nat (s_block_size ?sp) :: u32) = s_block_size ?sp" using b by (intro of_nat_inverse) simp_all
  then show "unat (push_bit ?c (of_nat (s_block_size ?sp)) :: u32) = zone_bytes ?sp"
    using take_bit_nat_eq_self [OF lt] by (simp add: unsigned_push_bit_eq push_bit_nat_def zone_bytes_def)
  show "0 < zone_bytes ?sp" using vol_block_size [OF v] by (simp add: zone_bytes_def)
qed

lemma zone_position:
  assumes v: "vol_ok s spi" and k: "k * zone_bytes (super_blocks s spi) < 2 ^ 32"
  defines "p \<equiv> of_nat k * push_bit (nat (s_log_zone_size (super_blocks s spi))) (of_nat (s_block_size (super_blocks s spi))) :: u32"
  shows "rel_zone (super_blocks s spi) p = k"
    "block_at (super_blocks s spi) p = (\<lambda>z. if z = NO_ZONE then NO_BLOCK else zone_block (super_blocks s spi) z)"
proof -
  let ?sp = "super_blocks s spi" and ?c = "nat (s_log_zone_size (super_blocks s spi))"
  let ?w = "push_bit ?c (of_nat (s_block_size ?sp)) :: u32"
  note z = zone_bytes_word [OF v]
  have "p = of_nat (k * zone_bytes ?sp)"
  proof -
    have "?w = of_nat (zone_bytes ?sp)" by (metis z(1) word_unat_id)
    then show ?thesis by (simp only: p_def of_nat_mult)
  qed
  then have "unat p = k * zone_bytes ?sp" by (intro of_nat_inverse [OF sym]) (use k in simp_all)
  then have b: "unat p div s_block_size ?sp = k * 2 ^ ?c"
    using vol_block_size [OF v] by (simp add: zone_bytes_def)
  then show "rel_zone ?sp p = k" by (simp add: rel_zone_def drop_bit_nat_def)
  show "block_at ?sp p = (\<lambda>z. if z = NO_ZONE then NO_BLOCK else zone_block ?sp z)"
    by (simp add: fun_eq_iff block_at_def b)
qed

lemma truncate_spec:
  assumes sp: "spare 2 s" and v: "vol_ok s spi" and f: "file_ok s spi rip"
    and ty: "i_mode (inodes s rip) AND I_TYPE \<noteq> I_CHAR_SPECIAL" "i_mode (inodes s rip) AND I_TYPE \<noteq> I_BLOCK_SPECIAL"
    and pipe: "\<not> i_pipe (inodes s rip)"
    and n: "size_zones (super_blocks s spi) (i_size (inodes s rip)) \<le> max_zones (inodes s rip)"
    and nw: "size_zones (super_blocks s spi) (i_size (inodes s rip)) * zone_bytes (super_blocks s spi) < 2 ^ 32"
  shows "\<exists>s'. truncate_inode rip s = Some s' \<and> spare 2 s' \<and> vol_ok s' spi \<and> users_kept s s' \<and> sup_kept spi s s' \<and>
    inodes s' = (inodes s)(rip := (inodes s rip)\<lparr>i_dirt := True\<rparr>) \<and> indz s' spi = indz s spi \<and>
    used s' spi = used s spi - (file_zone s rip ` {..<size_zones (super_blocks s spi) (i_size (inodes s rip))} \<union>
      tree_nodes (inodes s rip) (indz s spi))"
proof -
  let ?ip = "inodes s rip" and ?sp = "super_blocks s spi"
  define N where "N = size_zones ?sp (i_size ?ip)"
  define F where "F = file_zone s rip ` set [0..<N] - {NO_ZONE}"
  let ?d = "s_dev ?sp" and ?c = "nat (s_log_zone_size ?sp)" and ?nodes = "tree_nodes ?ip (indz s spi)"
  let ?w = "push_bit ?c (of_nat (s_block_size ?sp)) :: u32"
  have i: "inode_ok s spi rip" using f by (simp add: file_ok_def)
  note io = inode_okD [OF i]
  note t = tree_okD [OF io(3)]
  note zb = zone_bytes_word [OF v]
  have sp2: "spare (Suc (Suc 0)) s" using sp by (simp add: numeral_2_eq_2)
  have ps: "zone_positions ?w (i_size ?ip) = Some (map (\<lambda>k. of_nat k * ?w) [0..<N])"
  proof -
    have "?w \<noteq> 0" using zb by (auto simp del: push_bit_of_nat)
    moreover have "i_size ?ip = 0 \<Longrightarrow> N = 0" using zb(2) by (simp add: N_def size_zones_def)
    moreover have "(unat (i_size ?ip) + unat ?w - 1) div unat ?w = N" by (simp only: zb N_def size_zones_def)
    ultimately show ?thesis using nw by (auto simp: zone_positions_def Let_def zb(1) N_def [symmetric] simp del: push_bit_of_nat)
  qed
  have pos: "\<forall>j\<in>set [0..<N]. j < max_zones ?ip \<and> rel_zone ?sp (of_nat j * ?w) = j \<and>
      block_at ?sp (of_nat j * ?w) = (\<lambda>z. if z = NO_ZONE then NO_BLOCK else zone_block ?sp z)"
  proof
    fix j assume "j \<in> set [0..<N]"
    then have j: "j < N" by simp
    then have "j * zone_bytes ?sp \<le> N * zone_bytes ?sp" by (intro mult_le_mono1) simp
    then have "j * zone_bytes ?sp < 2 ^ 32" by (rule le_less_trans) (rule nw [folded N_def])
    from zone_position [OF v this] j n show "j < max_zones ?ip \<and> rel_zone ?sp (of_nat j * ?w) = j \<and>
      block_at ?sp (of_nat j * ?w) = (\<lambda>z. if z = NO_ZONE then NO_BLOCK else zone_block ?sp z)" by (simp add: N_def)
  qed
  have "\<forall>j\<in>set [0..<N]. file_zone s rip j = NO_ZONE \<or> file_zone s rip j \<in> used s spi \<and> file_zone s rip j \<notin> ?nodes"
    "\<forall>i\<in>set [0..<N]. \<forall>j\<in>set [0..<N]. file_zone s rip i \<noteq> NO_ZONE \<longrightarrow> file_zone s rip i = file_zone s rip j \<longrightarrow> i = j"
    using f n by (auto simp: file_ok_def N_def)
  from free_data_spec [OF sp2 v i _ pos this] obtain s2 where
    s2: "free_data rip ?c ?d (map (\<lambda>k. of_nat k * ?w) [0..<N]) s = Some s2" "spare (Suc (Suc 0)) s2" "freed spi F s s2"
    unfolding F_def by auto
  have Fn: "F \<inter> ?nodes = {}"
  proof -
    have "file_zone s rip j = NO_ZONE \<or> file_zone s rip j \<notin> ?nodes" if "j < N" for j
      using f less_le_trans [OF that n [folded N_def]] by (auto simp: file_ok_def)
    then show ?thesis by (fastforce simp: F_def)
  qed
  define s3 where "s3 = upd_inode rip (\<lambda>ip. ip\<lparr>i_dirt := True\<rparr>) s2"
  have v2: "vol_ok s2 spi" "users_kept s s2" "sup_kept spi s s2" "inodes s2 = inodes s" "indz s2 spi = indz s spi"
    "used s2 spi = used s spi - F" using s2(3) by (simp_all add: freed_def)
  have k3: "sup_kept spi s2 s3" by (rule sup_keptI) (simp add: s3_def upd_inode_def)
  note v3 = view_core [OF v2(1) k3]
  have v3: "vol_ok s3 spi" "used s3 spi = used s spi - F" "indz s3 spi = indz s spi" "spare (Suc (Suc 0)) s3" "users_kept s s3"
    "inodes s3 = (inodes s)(rip := ?ip\<lparr>i_dirt := True\<rparr>)" "sup_kept spi s s3"
    using v3 v2 s2(2) users_kept_trans [OF v2(2)] sup_kept_trans [OF v2(3) k3] by (simp_all add: s3_def upd_inode_def)
  have dev3: "s_dev (super_blocks s3 spi) = ?d" by (rule sup_keptD(3) [OF v3(7)])
  have "single ?ip = NO_ZONE \<or> single ?ip \<in> used s3 spi"
    using t(3) Fn by (auto simp: v3(2) tree_nodes_def)
  from free_zone_freed [OF v3(4,1) dev3 [symmetric] this] obtain s4 where
    s4: "free_zone ?d (single ?ip) s3 = Some s4" "spare (Suc (Suc 0)) s4" "freed spi ({single ?ip} - {NO_ZONE}) s3 s4" by blast
  have v4: "vol_ok s4 spi" "users_kept s s4" "sup_kept spi s s4" "inodes s4 = (inodes s)(rip := ?ip\<lparr>i_dirt := True\<rparr>)"
    "indz s4 spi = indz s spi" "used s4 spi = used s spi - F - ({single ?ip} - {NO_ZONE})"
    using s4(3) v3 by (auto simp: freed_def intro: users_kept_trans sup_kept_trans)
  have tr: "truncate_inode rip s = (if double ?ip = NO_ZONE then Some s4 else do {
           (bp, s5) \<leftarrow> get_block ?d (zone_block ?sp (double ?ip)) NORMAL s4;
           s6 \<leftarrow> free_singles bp ?d [0..<i_nindirs ?ip] s5;
           s7 \<leftarrow> put_block (Some bp) INDIRECT_BLOCK s6;
           free_zone ?d (double ?ip) s7 })"
    using ty pipe vol_okD(6,7) [OF v] s2(1) s4(1)
    unfolding truncate_inode_def Let_def io(1,2) Option.bind.simps
    by (simp add: ps io(2) s3_def [symmetric] v3(6) single_def double_def zone_block_def del: push_bit_of_nat)
  have FN: "file_zone s rip ` {..<N} - {NO_ZONE} = F" by (auto simp: F_def)
  have nz: "NO_ZONE \<notin> used s spi" using zone_bit(3) [OF v] used_data
    by (metis (no_types) block_zone(2) [OF v] push_bit_of_0 zone_block_def)
  show ?thesis
  proof (cases "double ?ip = NO_ZONE")
    case True
    have "?nodes = {single ?ip} - {NO_ZONE}" using True t(1) by (auto simp: tree_nodes_def)
    then have "used s4 spi = used s spi - (file_zone s rip ` {..<N} \<union> ?nodes)" using v4(6) FN nz by auto
    with True tr v4 s4(2) show ?thesis by (auto simp: numeral_2_eq_2 N_def)
  next
    case False
    let ?T = "double ?ip"
    let ?L = "indz s spi ?T ` set [0..<i_nindirs ?ip]"
    have L: "ref (indz s spi) ?T j = indz s spi ?T j" for j using False by (simp add: ref_def)
    have dT: "data_zone s spi ?T" using t(4) [OF False] by (rule used_data)
    note d4 = zone_kept [OF v4(3)]
    from hold_get [OF s4(2), of ?d "zone_block ?sp ?T"] geomD(1) [OF vol_okD(1) [OF v]] vol_okD(11) [OF v dT] sup_keptD(2) [OF v4(3)]
    obtain bp s5 where s5: "get_block ?d (zone_block ?sp ?T) NORMAL s4 = Some (bp, s5)" "spare (Suc 0) s5"
      "holds s5 bp ?d (zone_block ?sp ?T)" "in_use bp s4 s5" "cache_frame s4 s5" "same_contents s4 s5" by auto
    have k5: "sup_kept spi s4 s5" using s5(5) by (intro sup_keptI) (simp add: cache_frame_sel)
    note v5 = view_same [OF v4(1) k5 s5(6)]
    have k5': "sup_kept spi s s5" using v4(3) k5 by (rule sup_kept_trans)
    note d5 = zone_kept [OF k5'] sup_keptD(3) [OF k5']
    have nodes5: "indz s spi ?T j \<in> used s5 spi" if "j < i_nindirs ?ip" "indz s spi ?T j \<noteq> NO_ZONE" for j
    proof -
      have "indz s spi ?T j \<in> used s spi" "indz s spi ?T j \<noteq> single ?ip" "indz s spi ?T j \<in> ?nodes"
        using t(5,7) [OF that(1)] that False by (auto simp: L tree_nodes_def)
      with Fn show ?thesis by (auto simp: v5(2) v4(6))
    qed
    have "\<exists>s6. free_singles bp (s_dev (super_blocks s5 spi)) [0..<i_nindirs ?ip] s5 = Some s6 \<and> spare (Suc 0) s6 \<and>
        freed spi (indz s5 spi ?T ` set [0..<i_nindirs ?ip] - {NO_ZONE}) s5 s6"
    proof (rule free_singles_spec [OF s5(2) v5(1)])
      show "\<forall>i\<in>set [0..<i_nindirs ?ip]. in_block s5 spi i \<and> (indz s5 spi ?T i = NO_ZONE \<or> indz s5 spi ?T i \<in> used s5 spi)"
        using io(4) nodes5 by (fastforce simp: d5 v5(3) v4(5))
      show "\<forall>i\<in>set [0..<i_nindirs ?ip]. \<forall>j\<in>set [0..<i_nindirs ?ip].
          indz s5 spi ?T i \<noteq> NO_ZONE \<longrightarrow> indz s5 spi ?T i = indz s5 spi ?T j \<longrightarrow> i = j"
        using t(9) by (simp add: v5(3) v4(5) L)
    qed (use s5(3) dT in \<open>simp_all add: d5\<close>)
    then obtain s6 where s6: "free_singles bp ?d [0..<i_nindirs ?ip] s5 = Some s6" "spare (Suc 0) s6" "freed spi (?L - {NO_ZONE}) s5 s6"
      by (auto simp: d5 v5(3) v4(5))
    have v6: "vol_ok s6 spi" "users_kept s5 s6" "sup_kept spi s5 s6" "inodes s6 = inodes s5" "indz s6 spi = indz s5 spi"
      "used s6 spi = used s5 spi - (?L - {NO_ZONE})" using s6(3) by (simp_all add: freed_def)
    have "cache_ok s4" using s4(2) by (simp add: spare_def)
    from put_indirect [OF s4(2) in_use_kept [OF s5(4) v6(2) this] s6(2) holds_kept [OF s5(3) v6(2)] v6(1)] obtain s7 where
      s7: "put_block (Some bp) INDIRECT_BLOCK s6 = Some s7" "spare (Suc (Suc 0)) s7" "cache_frame s6 s7" "users_kept s4 s7"
        "vol_ok s7 spi" "used s7 spi = used s6 spi" "indz s7 spi = indz s6 spi" by blast
    have f7: "sup_kept spi s6 s7 \<and> inodes s7 = inodes s6" using frame_kept [OF s7(3)] by blast
    then have k7: "sup_kept spi s s7" using k5' v6(3) by (blast intro: sup_kept_trans)
    have T7: "?T = NO_ZONE \<or> ?T \<in> used s7 spi"
    proof -
      have "?T \<in> ?nodes" using False by (simp add: tree_nodes_def)
      then have "?T \<notin> F" using Fn by blast
      moreover have "?T \<noteq> single ?ip" using t(6) False by metis
      moreover have "indz s spi ?T x \<noteq> ?T" if "x < i_nindirs ?ip" for x using t(8) [OF that] False unfolding L by metis
      then have "?T \<notin> ?L - {NO_ZONE}" by fastforce
      ultimately show ?thesis using t(4) [OF False] by (auto simp: s7(6) v6(6) v5(2) v4(6))
    qed
    from free_zone_freed [OF s7(2,5) sup_keptD(3) [OF k7, symmetric] T7] False obtain s8 where
      s8: "free_zone ?d ?T s7 = Some s8" "spare (Suc (Suc 0)) s8" "freed spi {?T} s7 s8" by auto
    have v8: "vol_ok s8 spi" "users_kept s7 s8" "sup_kept spi s7 s8" "inodes s8 = inodes s7" "indz s8 spi = indz s7 spi"
      "used s8 spi = used s7 spi - {?T}" using s8(3) by (simp_all add: freed_def)
    have nodes: "?nodes = ({single ?ip} - {NO_ZONE}) \<union> {?T} \<union> (?L - {NO_ZONE})"
      using False by (auto simp: tree_nodes_def L)
    have "used s8 spi = used s spi - (file_zone s rip ` {..<N} \<union> ?nodes)"
      unfolding nodes v8(6) s7(6) v6(6) v5(2) v4(6) using FN nz by auto
    moreover have "users_kept s s8" using v4(2) s7(4) v8(2) by (blast intro: users_kept_trans)
    moreover have "sup_kept spi s s8" using k7 v8(3) by (rule sup_kept_trans)
    moreover have "inodes s8 = (inodes s)(rip := ?ip\<lparr>i_dirt := True\<rparr>)"
      using v8(4) f7 v6(4) cache_frame_sel(3) [OF s5(5)] v4(4) by simp
    moreover have "indz s8 spi = indz s spi" using v8(5) s7(7) v6(5) v5(3) v4(5) by simp
    moreover have "truncate_inode rip s = Some s8" using tr False s5(1) s6(1) s7(1) s8(1) by simp
    ultimately show ?thesis using s8(2) v8(1) by (auto simp: numeral_2_eq_2 N_def)
  qed
qed


text \<open>
  C9. Truncating a file (not a device, not a pipe) on a well-formed volume returns, and exactly the zones
  of the file below its size, and its indirect blocks, are free afterwards: no zone is freed twice
  (which would be a panic) and no other zone is freed. The zone numbers stay in the inode, which is
  marked dirty, and in the indirect blocks, so that a removed file can be recovered.
\<close>

theorem truncate_frees:
  assumes "spare 2 s" and "vol_ok s spi" and "file_ok s spi rip"
    and "i_mode (inodes s rip) AND I_TYPE \<noteq> I_CHAR_SPECIAL" and "i_mode (inodes s rip) AND I_TYPE \<noteq> I_BLOCK_SPECIAL"
    and "\<not> i_pipe (inodes s rip)"
    and "size_zones (super_blocks s spi) (i_size (inodes s rip)) \<le> max_zones (inodes s rip)"
    and "size_zones (super_blocks s spi) (i_size (inodes s rip)) * zone_bytes (super_blocks s spi) < 2 ^ 32"
  shows "\<exists>s'. truncate_inode rip s = Some s' \<and> spare 2 s' \<and> vol_ok s' spi \<and> users_kept s s' \<and> sup_kept spi s s' \<and>
    inodes s' = (inodes s)(rip := (inodes s rip)\<lparr>i_dirt := True\<rparr>) \<and> indz s' spi = indz s spi \<and>
    used s' spi = used s spi - (file_zone s rip ` {..<size_zones (super_blocks s spi) (i_size (inodes s rip))} \<union>
      tree_nodes (inodes s rip) (indz s spi))"
  using assms by (rule truncate_spec)

theorem truncate_frees_witness:
  "\<exists>z s1 s'. alloc_zone 5 10 demo_file = Some (z, s1) \<and> z \<in> used s1 0 \<and>
     truncate_inode 0 (upd_inode 0 (\<lambda>ip. ip\<lparr>i_size := 1000\<rparr>) (set_zone 0 0 z s1)) = Some s' \<and> z \<notin> used s' 0"
proof -
  note ok = demo_file_ok
  have sel: "s_dev demo_super = 5" "s_firstdatazone demo_super = 10" "s_zones demo_super = 200" "s_block_size demo_super = 1024"
    "s_log_zone_size demo_super = 0" by (simp_all add: demo_super_def zero_super_def)
  have sb: "super_blocks demo_file 0 = demo_super" by (simp add: demo_file_sel demo_vol_facts(2))
  have sp: "spare (Suc (Suc 0)) demo_file" using ok(1) by (simp add: numeral_2_eq_2)
  from alloc_zone_view [OF sp ok(2), of 5 10] obtain z s1 where
    a: "alloc_zone 5 10 demo_file = Some (z, s1)" "spare (Suc (Suc 0)) s1" "vol_ok s1 0" "sup_kept 0 demo_file s1"
      "inodes s1 = inodes demo_file" "indz s1 0 = indz demo_file 0"
    and or: "z = NO_ZONE \<and> used demo_file 0 = {z. data_zone demo_file 0 z} \<or>
      z \<noteq> NO_ZONE \<and> data_zone demo_file 0 z \<and> used s1 0 = insert z (used demo_file 0)" by (auto simp: sb sel)
  have "contents demo_file = contents demo_vol" by (rule core_cong(1) [OF demo_file_sel(1-6)]) (rule sup_keptI [OF demo_file_sel(7)])
  then have "map_bit demo_file 0 ZMAP 1 = map_bit demo_vol 0 ZMAP 1" by (simp add: map_bit_def map_chunk_def Let_def demo_file_sel)
  then have "\<not> zone_used demo_file 0 10" using demo_vol_bits(2) by (simp add: zone_used_def sb sel)
  moreover have "data_zone demo_file 0 10" by (simp add: data_zone_def sb sel)
  ultimately have "used demo_file 0 \<noteq> {z. data_zone demo_file 0 z}" by (auto simp: used_def)
  with or have z: "z \<noteq> NO_ZONE" "data_zone demo_file 0 z" "used s1 0 = insert z (used demo_file 0)" by auto
  define s2 where "s2 = upd_inode 0 (\<lambda>ip. ip\<lparr>i_size := 1000\<rparr>) (set_zone 0 0 z s1)"
  have k2: "sup_kept 0 s1 s2" by (rule sup_keptI) (simp add: s2_def set_zone_def upd_inode_def)
  have k: "sup_kept 0 demo_file s2" using a(4) k2 by (rule sup_kept_trans)
  note v = view_core [OF a(3) k2]
  have v2: "vol_ok s2 0" "used s2 0 = used s1 0" "spare (Suc (Suc 0)) s2" using v a(2) by (simp_all add: s2_def set_zone_def upd_inode_def)
  have ip: "inodes s2 0 = zero_inode\<lparr>i_ndzones := 7, i_nindirs := 256, i_sp := Some 0, i_dev := 5, i_zone := (\<lambda>_. 0)(0 := z), i_size := 1000\<rparr>"
    by (simp add: s2_def set_zone_def upd_inode_def a(5) demo_file_sel zero_inode_def)
  have nodes: "single (inodes s2 0) = 0" "double (inodes s2 0) = 0" "i_nindirs (inodes s2 0) = 256" "i_ndzones (inodes s2 0) = 7"
    by (simp_all add: ip single_def double_def)
  have tn: "tree_nodes (inodes s2 0) E = {}" for E by (auto simp: tree_nodes_def nodes)
  have "tree_ok (inodes s2 0) E U dz" for E U dz by (auto simp: tree_ok_def Let_def tn nodes)
  moreover have "in_block s2 0 i" if "i < 256" for i
    using inode_okD(4) [OF ok(3)] that by (simp add: zone_kept [OF k] demo_file_sel)
  ultimately have i2: "inode_ok s2 0 0"
    by (simp add: inode_ok_def Let_def nodes) (simp add: ip sup_keptD [OF k] sb sel)
  have fz: "file_zone s2 0 j = (if j = 0 then z else 0)" for j
    by (simp add: inode_okD(5) [OF i2] tree_zone_def Let_def nodes) (simp add: ip)
  have "file_ok s2 0 0" using i2 z by (auto simp: file_ok_def fz tn v2(2))
  moreover have nb: "s_block_size (super_blocks s2 0) = 1024" "s_log_zone_size (super_blocks s2 0) = 0"
    by (simp_all add: sup_keptD [OF k] sb sel)
  moreover have zb: "size_zones (super_blocks s2 0) 1000 = 1" "zone_bytes (super_blocks s2 0) = 1024"
    by (simp_all add: size_zones_def zone_bytes_def nb)
  moreover have f: "i_mode (inodes s2 0) = 0" "\<not> i_pipe (inodes s2 0)" "i_size (inodes s2 0) = 1000" "max_zones (inodes s2 0) = 65799"
    by (simp_all add: ip zero_inode_def max_zones_def)
  moreover have "spare 2 s2" using v2(3) by (simp add: numeral_2_eq_2)
  ultimately obtain s' where "truncate_inode 0 s2 = Some s'"
    "used s' 0 = used s2 0 - (file_zone s2 0 ` {..<size_zones (super_blocks s2 0) (i_size (inodes s2 0))} \<union> tree_nodes (inodes s2 0) (indz s2 0))"
    using truncate_frees [OF _ v2(1), of 0] by auto
  then show ?thesis using a(1) z by (auto simp: s2_def [symmetric] zb f fz)
qed


subsection \<open>The layouts\<close>

















lemma read_d2_cong:
  assumes "\<And>k. off \<le> k \<Longrightarrow> k < off + 64 \<Longrightarrow> d k = e k"
  shows "read_d2 norm bs off d x = read_d2 norm bs off e x"
proof -
  have g16: "get16 (off + a) d = get16 (off + a) e" if "a < 63" for a using assms that by (simp add: get16_def)
  have g32: "get32 (off + a) d = get32 (off + a) e" if "a < 61" for a using assms that by (simp add: get32_def)
  have "get32 (off + 24 + 4 * i) d = get32 (off + 24 + 4 * i) e" if "i < 10" for i
    using g32 [of "24 + 4 * i"] that by (simp add: add.assoc)
  then show ?thesis
    using g16 [of 0] g16 [of 2] g16 [of 4] g16 [of 6] g32 [of 8] g32 [of 12] g32 [of 16] g32 [of 20]
    unfolding read_d2_def by (simp cong: if_cong)
qed

lemma read_d1_cong:
  assumes "\<And>k. off \<le> k \<Longrightarrow> k < off + 32 \<Longrightarrow> d k = e k"
  shows "read_d1 norm off d x = read_d1 norm off e x"
proof -
  have g16: "get16 (off + a) d = get16 (off + a) e" if "a < 31" for a using assms that by (simp add: get16_def)
  have g32: "get32 (off + a) d = get32 (off + a) e" if "a < 29" for a using assms that by (simp add: get32_def)
  have "get16 (off + 14 + 2 * i) d = get16 (off + 14 + 2 * i) e" if "i < 9" for i
    using g16 [of "14 + 2 * i"] that by (simp add: add.assoc)
  moreover have "d (off + 12) = e (off + 12)" "d (off + 13) = e (off + 13)" using assms by simp_all
  ultimately show ?thesis
    using g16 [of 0] g16 [of 2] g32 [of 4] g32 [of 8] unfolding read_d1_def by (simp cong: if_cong)
qed

text \<open>Either layout, as the version says.\<close>

definition inode_size :: "int \<Rightarrow> nat" where
  "inode_size v = (if v = 1 then 32 else 64)"

definition read_d :: "int \<Rightarrow> bool \<Rightarrow> nat \<Rightarrow> nat \<Rightarrow> bytes \<Rightarrow> inode \<Rightarrow> inode" where
  "read_d v norm bs off d ip = (if v = 1 then read_d1 norm off d ip else read_d2 norm bs off d ip)"




lemma read_d_cong:
  assumes "\<And>k. off \<le> k \<Longrightarrow> k < off + inode_size v \<Longrightarrow> d k = e k"
  shows "read_d v norm bs off d x = read_d v norm bs off e x"
  using assms read_d1_cong [of off d e norm x] read_d2_cong [of off d e norm bs x]
  by (simp add: read_d_def inode_size_def split: if_splits)


subsection \<open>Inodes in the blocks of a device\<close>

text \<open>A file system, of any version, whose inode blocks are on the device.\<close>

definition itab_ok :: "fsstate \<Rightarrow> nat \<Rightarrow> bool" where
  "itab_ok s spi \<longleftrightarrow>
     (let sp = super_blocks s spi in
      get_super (s_dev sp) s = Some spi \<and> s_dev sp \<noteq> NO_DEV \<and> bsz s (s_dev sp) = s_block_size sp \<and>
      64 \<le> s_block_size sp \<and> s_block_size sp \<le> MAX_BLOCK_SIZE \<and>
      s_inodes_per_block sp = s_block_size sp div inode_size (s_version sp) \<and>
      (s_version sp = 1 \<longrightarrow> s_block_size sp = 1024) \<and>
      (\<forall>numb. 0 < numb \<longrightarrow> numb \<le> s_ninodes sp \<longrightarrow> fits s (s_dev sp) (inode_block sp numb)))"

definition inode_at :: "fsstate \<Rightarrow> nat \<Rightarrow> u32 \<Rightarrow> inode \<Rightarrow> inode" where
  "inode_at s spi numb x =
     (let sp = super_blocks s spi in
      read_d (s_version sp) (s_native sp) (s_block_size sp) (inode_off sp numb) (contents s (s_dev sp) (inode_block sp numb)) x)"

lemma itab_okD:
  assumes "itab_ok s spi"
  shows "get_super (s_dev (super_blocks s spi)) s = Some spi" "s_dev (super_blocks s spi) \<noteq> NO_DEV"
    "bsz s (s_dev (super_blocks s spi)) = s_block_size (super_blocks s spi)" "64 \<le> s_block_size (super_blocks s spi)"
    "s_block_size (super_blocks s spi) \<le> MAX_BLOCK_SIZE"
    "s_inodes_per_block (super_blocks s spi) = s_block_size (super_blocks s spi) div inode_size (s_version (super_blocks s spi))"
    "s_version (super_blocks s spi) = 1 \<longrightarrow> s_block_size (super_blocks s spi) = 1024"
    "0 < numb \<Longrightarrow> numb \<le> s_ninodes (super_blocks s spi) \<Longrightarrow> fits s (s_dev (super_blocks s spi)) (inode_block (super_blocks s spi) numb)"
  using assms unfolding itab_ok_def Let_def by blast+

lemma inode_off_bound:
  assumes i: "itab_ok s spi"
  defines "z \<equiv> inode_size (s_version (super_blocks s spi))"
  shows "inode_off (super_blocks s spi) numb = z * (unat (numb - 1) mod (s_block_size (super_blocks s spi) div z))"
    "inode_off (super_blocks s spi) numb + z \<le> s_block_size (super_blocks s spi)"
    "0 < s_block_size (super_blocks s spi) div z" "unat (of_nat (s_block_size (super_blocks s spi) div z) :: u32) = s_block_size (super_blocks s spi) div z"
proof -
  let ?m = "s_block_size (super_blocks s spi) div z"
  have m: "0 < ?m" "?m < 2 ^ LENGTH(32)" using itab_okD(4,5,7) [OF i] by (auto simp: z_def inode_size_def)
  then show "0 < ?m" and u: "unat (of_nat ?m :: u32) = ?m" by (simp, intro of_nat_inverse) simp_all
  show o: "inode_off (super_blocks s spi) numb = z * (unat (numb - 1) mod ?m)"
  proof (cases "s_version (super_blocks s spi) = 1")
    case True
    with itab_okD(7) [OF i] show ?thesis by (simp add: inode_off_def z_def inode_size_def unat_mod)
  next
    case False
    with u show ?thesis by (simp only: inode_off_def if_False unat_mod z_def inode_size_def)
  qed
  have "unat (numb - 1) mod ?m < ?m" using m(1) by simp
  then have "z * (unat (numb - 1) mod ?m) + z \<le> z * ?m" by (metis add.commute less_eq_Suc_le mult_Suc_right mult_le_mono2)
  also have "z * ?m \<le> s_block_size (super_blocks s spi)" by simp
  finally show "inode_off (super_blocks s spi) numb + z \<le> s_block_size (super_blocks s spi)" using o by simp
qed


lemma inode_at_cong:
  assumes i: "itab_ok s spi" and e: "super_blocks s' = super_blocks s" and v: "0 < numb" "numb \<le> s_ninodes (super_blocks s spi)"
    and c: "\<And>off. inode_off (super_blocks s spi) numb \<le> off \<Longrightarrow> off < inode_off (super_blocks s spi) numb + inode_size (s_version (super_blocks s spi)) \<Longrightarrow>
      contents s' (s_dev (super_blocks s spi)) (inode_block (super_blocks s spi) numb) off =
      contents s (s_dev (super_blocks s spi)) (inode_block (super_blocks s spi) numb) off"
  shows "inode_at s' spi numb x = inode_at s spi numb x"
  unfolding inode_at_def Let_def e by (rule read_d_cong) (rule c)

lemma inode_at_same:
  assumes "itab_ok s spi" "same_contents s s'" "super_blocks s' = super_blocks s" "0 < numb" "numb \<le> s_ninodes (super_blocks s spi)"
  shows "inode_at s' spi numb x = inode_at s spi numb x"
  using assms(2) itab_okD(2,3) [OF assms(1)] itab_okD(8) [OF assms(1,4,5)] inode_off_bound(2) [OF assms(1), of numb]
  by (intro inode_at_cong [OF assms(1,3,4,5)]) (simp add: same_contents_def)

















end
