(* ===== verification/FS_Pipe.thy ===== *)
theory FS_Pipe
  imports FS_Inode
begin

text \<open>
  File descriptors (\<^verbatim>\<open>servers/fs/filedes.c\<close>), and the suspension and revival of processes
  (\<^verbatim>\<open>servers/fs/pipe.c\<close>, \<^verbatim>\<open>reply\<close> and \<^verbatim>\<open>get_work\<close> of \<^verbatim>\<open>servers/fs/main.c\<close>). A process that has to wait
  for a pipe or a lock is suspended: the parameters of its call are kept in its entry of the process
  table, and when it is revived \<^verbatim>\<open>get_work\<close> makes the call again, as if it had just been received.

  The part of \<^verbatim>\<open>select\<close> that is called from here (\<^verbatim>\<open>select_callback\<close>, \<^verbatim>\<open>select_forget\<close> of
  \<^verbatim>\<open>select.c\<close>) and the cancellation of device I/O (\<^verbatim>\<open>dmap_io\<close> of \<^verbatim>\<open>dmap.c\<close>) are parameters.
\<close>

subsection \<open>Model: constants and messages\<close>

abbreviation (input) XPIPE :: int where "XPIPE \<equiv> - 5"
abbreviation (input) XLOCK :: int where "XLOCK \<equiv> - 6"
abbreviation (input) XPOPEN :: int where "XPOPEN \<equiv> - 7"
abbreviation (input) XSELECT :: int where "XSELECT \<equiv> - 8"
abbreviation (input) CALL_READ :: int where "CALL_READ \<equiv> 3"
abbreviation (input) CALL_WRITE :: int where "CALL_WRITE \<equiv> 4"
abbreviation (input) CALL_OPEN :: int where "CALL_OPEN \<equiv> 5"
abbreviation (input) CALL_CREAT :: int where "CALL_CREAT \<equiv> 8"
abbreviation (input) SEL_RD :: u32 where "SEL_RD \<equiv> 1"
abbreviation (input) SEL_WR :: u32 where "SEL_WR \<equiv> 2"
abbreviation (input) O_WRONLY :: u32 where "O_WRONLY \<equiv> 1"
abbreviation (input) O_APPEND :: u32 where "O_APPEND \<equiv> 0x400"
abbreviation (input) O_NONBLOCK :: u32 where "O_NONBLOCK \<equiv> 0x800"
abbreviation (input) SIGPIPE :: int where "SIGPIPE \<equiv> 13"
abbreviation (input) EGENERIC :: int where "EGENERIC \<equiv> - 99"

definition m_fd :: "message \<Rightarrow> int" where "m_fd m = sint (m_w0 m)"
definition m_nbytes :: "message \<Rightarrow> int" where "m_nbytes m = sint (m_w1 m)"
definition m_buffer :: "message \<Rightarrow> u32" where "m_buffer m = m_w3 m"

text \<open>A message as it lies in memory.\<close>

definition mess_of :: "bytes \<Rightarrow> message" where
  "mess_of d = \<lparr>m_source = sint (get32 0 d), m_type = sint (get32 4 d), m_w0 = get32 8 d, m_w1 = get32 12 d,
     m_w2 = get32 16 d, m_w3 = get32 20 d, m_w4 = get32 24 d, m_w5 = get32 28 d, m_w6 = get32 32 d\<rparr>"

subsection \<open>Model: file descriptors\<close>

text \<open>The result is an error, or the file descriptor and the filp slot.\<close>

definition get_fd :: "nat \<Rightarrow> u16 \<Rightarrow> fsstate \<Rightarrow> (int + nat \<times> nat) \<times> fsstate" where
  "get_fd start bits s =
     (case find (\<lambda>i. fp_filp (fprocs s (fp s)) i = None) [start..<OPEN_MAX] of
        None \<Rightarrow> (Inl EMFILE, s)
      | Some k \<Rightarrow>
          (case find (\<lambda>f. filp_count (filps s f) = 0) [0..<NR_FILPS] of
             None \<Rightarrow> (Inl ENFILE, s)
           | Some f \<Rightarrow> (Inr (k, f), upd_filp f (\<lambda>fl. fl\<lparr>filp_mode := bits, filp_pos := 0, filp_selectors := 0,
               filp_select_ops := 0, filp_pipe_select_ops := 0, filp_flags := 0\<rparr>) s)))"

definition get_filp :: "int \<Rightarrow> fsstate \<Rightarrow> nat option \<times> fsstate" where
  "get_filp fild s =
     (let s1 = s\<lparr>err_code := EBADF\<rparr>
      in if fild < 0 \<or> int OPEN_MAX \<le> fild then (None, s1) else (fp_filp (fprocs s1 (fp s1)) (nat fild), s1))"

definition find_filp :: "nat \<Rightarrow> u16 \<Rightarrow> fsstate \<Rightarrow> nat option" where
  "find_filp rip bits s =
     find (\<lambda>f. filp_count (filps s f) \<noteq> 0 \<and> filp_ino (filps s f) = Some rip \<and> filp_mode (filps s f) AND bits \<noteq> 0)
       [0..<NR_FILPS]"

subsection \<open>Model: replies, suspension and revival\<close>

definition reply :: "int \<Rightarrow> int \<Rightarrow> fsstate \<Rightarrow> fsstate" where
  "reply whom result s = (
     let s1 = s\<lparr>fs_m_out := (fs_m_out s)\<lparr>m_type := result\<rparr>\<rparr>;
         ((r, d), s2) = fs_do (Fs_send whom (fs_m_out s1)) s1
     in if r \<noteq> OK then fs_tell (Fs_printf ''FS: couldn't send reply'') s2 else s2)"

definition suspend :: "int \<Rightarrow> fsstate \<Rightarrow> fsstate" where
  "suspend task s = (
     let s1 = (if task = XPIPE \<or> task = XPOPEN then s\<lparr>susp_count := susp_count s + 1\<rparr> else s)
     in upd_fproc (fp s1) (\<lambda>p. p\<lparr>fp_suspended := True,
          fp_fd := sint (push_bit 8 (m_w0 (fs_m_in s1)) OR word_of_int (fs_call_nr s1)),
          fp_task := schar (- task), fp_buffer := m_buffer (fs_m_in s1), fp_nbytes := m_nbytes (fs_m_in s1)\<rparr>) s1)"

definition revive :: "int \<Rightarrow> int \<Rightarrow> fsstate \<Rightarrow> fsstate option" where
  "revive proc_nr returned s =
     (if proc_nr < 0 \<or> NR_PROCS \<le> proc_nr then None
      else (let p = nat proc_nr; rfp = fprocs s p in
        if \<not> fp_suspended rfp \<or> fp_revived rfp then Some s
        else (let task = - fp_task rfp in
          if task = XPIPE \<or> task = XLOCK then
            Some ((upd_fproc p (\<lambda>q. q\<lparr>fp_revived := True\<rparr>) s)\<lparr>reviving := reviving s + 1\<rparr>)
          else (let s1 = upd_fproc p (\<lambda>q. q\<lparr>fp_suspended := False\<rparr>) s in
            if task = XPOPEN then Some (reply proc_nr (drop_bit 8 (fp_fd rfp)) s1)
            else if task = XSELECT then Some (reply proc_nr returned s1)
            else Some (reply proc_nr returned (upd_fproc p (\<lambda>q. q\<lparr>fp_nbytes := returned\<rparr>) s1))))))"

text \<open>
  The process \<open>get_work\<close> finds to revive; otherwise a message is received. A receive that fails is a panic.
\<close>

definition get_work :: "fsstate \<Rightarrow> fsstate option" where
  "get_work s =
     (if reviving s \<noteq> 0 then
        (case find (\<lambda>p. fp_revived (fprocs s p)) [0..<FS_NR_PROCS] of
           None \<Rightarrow> None
         | Some p \<Rightarrow> (let rp = fprocs s p in
             Some ((upd_fproc p (\<lambda>q. q\<lparr>fp_suspended := False, fp_revived := False\<rparr>) s)
               \<lparr>fs_who := int p, fs_call_nr := take_bit 8 (fp_fd rp),
                fs_m_in := (fs_m_in s)\<lparr>m_w0 := word_of_int (take_bit 8 (drop_bit 8 (fp_fd rp))),
                  m_w3 := fp_buffer rp, m_w1 := word_of_int (fp_nbytes rp)\<rparr>,
                reviving := reviving s - 1\<rparr>)))
      else (let ((r, d), s1) = fs_do Fs_receive s; m = mess_of d in
        if r \<noteq> OK then None
        else Some (s1\<lparr>fs_m_in := m, fs_who := m_source m, fs_call_nr := m_type m\<rparr>)))"

subsection \<open>Model: pipes\<close>

type_synonym select_cb = "nat \<Rightarrow> u32 \<Rightarrow> fsstate \<Rightarrow> fsstate option"

fun select_loop :: "select_cb \<Rightarrow> nat \<Rightarrow> u32 \<Rightarrow> nat list \<Rightarrow> fsstate \<Rightarrow> fsstate option" where
  "select_loop select_callback ip ops [] s = Some s"
| "select_loop select_callback ip ops (f # fs) s =
     (if filp_count (filps s f) < 1 \<or> filp_pipe_select_ops (filps s f) AND ops = 0 \<or> filp_ino (filps s f) \<noteq> Some ip
      then select_loop select_callback ip ops fs s
      else do {
        s1 \<leftarrow> select_callback f ops s;
        select_loop select_callback ip ops fs
          (upd_filp f (\<lambda>fl. fl\<lparr>filp_pipe_select_ops := filp_pipe_select_ops fl AND NOT ops\<rparr>) s1)
      })"

text \<open>Is process \<open>p\<close> waiting to make call \<open>call\<close> on the pipe? A file descriptor without a file has no inode.\<close>

definition hanging :: "nat \<Rightarrow> int \<Rightarrow> nat \<Rightarrow> fsstate \<Rightarrow> bool option" where
  "hanging ip call p s = (
     let rp = fprocs s p in
     if fp_suspended rp \<and> \<not> fp_revived rp \<and> take_bit 8 (fp_fd rp) = call then do {
       guard (0 \<le> drop_bit 8 (fp_fd rp) \<and> drop_bit 8 (fp_fd rp) < int OPEN_MAX);
       f \<leftarrow> fp_filp rp (nat (drop_bit 8 (fp_fd rp)));
       Some (filp_ino (filps s f) = Some ip)
     } else Some False)"

fun release_loop :: "nat \<Rightarrow> int \<Rightarrow> int \<Rightarrow> nat list \<Rightarrow> fsstate \<Rightarrow> fsstate option" where
  "release_loop ip call cnt [] s = Some s"
| "release_loop ip call cnt (p # ps) s = do {
     h \<leftarrow> hanging ip call p s;
     if h then do {
       s1 \<leftarrow> revive (int p) 0 s;
       let s2 = s1\<lparr>susp_count := susp_count s1 - 1\<rparr>;
       if cnt - 1 = 0 then Some s2 else release_loop ip call (cnt - 1) ps s2
     } else release_loop ip call cnt ps s
   }"

definition release :: "select_cb \<Rightarrow> nat \<Rightarrow> int \<Rightarrow> int \<Rightarrow> fsstate \<Rightarrow> fsstate option" where
  "release select_callback ip call cnt s = do {
     s1 \<leftarrow> (if call = CALL_READ \<or> call = CALL_WRITE
           then select_loop select_callback ip (if call = CALL_READ then SEL_RD else SEL_WR) [0..<NR_FILPS] s
           else Some s);
     release_loop ip call cnt [0..<FS_NR_PROCS] s1
   }"

text \<open>\<open>pipe_check\<close> returns its result and \<^verbatim>\<open>*canwrite\<close>.\<close>

definition pipe_size :: "super_block \<Rightarrow> int" where
  "pipe_size sp = 7 * int (s_block_size sp)"

definition pipe_check :: "select_cb \<Rightarrow> nat \<Rightarrow> rw_flag \<Rightarrow> u32 \<Rightarrow> int \<Rightarrow> u32 \<Rightarrow> int \<Rightarrow> bool \<Rightarrow> fsstate \<Rightarrow> (int \<times> int \<times> fsstate) option" where
  "pipe_check select_callback rip rw oflags nbytes position canwrite notouch s = (
     let nonblock = (oflags AND O_NONBLOCK \<noteq> 0) in
     case rw of
       READING \<Rightarrow>
         if i_size (inodes s rip) \<le> position then
           (if find_filp rip W_BIT s \<noteq> None then do {
              let (r, s1) = (if nonblock then (EAGAIN, s) else (SUSPEND, if notouch then s else suspend XPIPE s));
              s2 \<leftarrow> (if 0 < susp_count s1 \<and> \<not> notouch then release select_callback rip CALL_WRITE (susp_count s1) s1
                    else Some s1);
              Some (r, canwrite, s2)
            } else Some (0, canwrite, s))
         else Some (1, 0, s)
     | WRITING \<Rightarrow>
         if find_filp rip R_BIT s = None then
           Some (EPIPE, canwrite, if notouch then s else snd (fs_do (Fs_kill (int (fp s)) SIGPIPE) s))
         else do {
           spi \<leftarrow> i_sp (inodes s rip);
           let psize = pipe_size (super_blocks s spi);
           let room = sint (word_of_int psize - position);
           if word_of_int psize < position + word_of_int nbytes then
             (if nonblock \<and> nbytes < psize then Some (EAGAIN, canwrite, s)
              else if nonblock \<and> psize < nbytes then
                (if 0 < room then do {
                   s1 \<leftarrow> (if notouch then Some s else release select_callback rip CALL_READ (susp_count s) s);
                   Some (1, room, s1)
                 } else Some (EAGAIN, room, s))
              else if psize < nbytes \<and> 0 < room then do {
                s1 \<leftarrow> release select_callback rip CALL_READ (susp_count s) s;
                Some (1, room, s1)
              } else Some (SUSPEND, if psize < nbytes then room else canwrite, if notouch then s else suspend XPIPE s))
           else do {
             s1 \<leftarrow> (if position = 0 \<and> \<not> notouch then release select_callback rip CALL_READ (susp_count s) s else Some s);
             Some (1, 0, s1)
           }
         })"

definition read_only :: "nat \<Rightarrow> fsstate \<Rightarrow> int option" where
  "read_only ip s = do {
     spi \<leftarrow> i_sp (inodes s ip);
     Some (if s_rd_only (super_blocks s spi) then EROFS else OK)
   }"

definition set_fd :: "nat \<Rightarrow> nat \<Rightarrow> nat option \<Rightarrow> fsstate \<Rightarrow> fsstate" where
  "set_fd p i f s = upd_fproc p (\<lambda>q. q\<lparr>fp_filp := (fp_filp q)(i := f)\<rparr>) s"

definition do_pipe :: "fsstate \<Rightarrow> (int \<times> fsstate) option" where
  "do_pipe s = (
     case get_fd 0 R_BIT s of
       (Inl r, s1) \<Rightarrow> Some (r, s1)
     | (Inr (fd0, f0), s1) \<Rightarrow>
         (let s2 = upd_filp f0 (\<lambda>f. f\<lparr>filp_count := 1\<rparr>) (set_fd (fp s) fd0 (Some f0) s1) in
          case get_fd 0 W_BIT s2 of
            (Inl r, s3) \<Rightarrow> Some (r, upd_filp f0 (\<lambda>f. f\<lparr>filp_count := 0\<rparr>) (set_fd (fp s) fd0 None s3))
          | (Inr (fd1, f1), s3) \<Rightarrow> do {
              let s4 = upd_filp f1 (\<lambda>f. f\<lparr>filp_count := 1\<rparr>) (set_fd (fp s) fd1 (Some f1) s3);
              (rip, s5) \<leftarrow> alloc_inode (root_dev s4) I_REGULAR s4;
              case rip of
                None \<Rightarrow>
                  (let s6 = upd_filp f0 (\<lambda>f. f\<lparr>filp_count := 0\<rparr>) (set_fd (fp s) fd0 None s5);
                       s7 = upd_filp f1 (\<lambda>f. f\<lparr>filp_count := 0\<rparr>) (set_fd (fp s) fd1 None s6)
                   in Some (err_code s7, s7))
              | Some rip \<Rightarrow> do {
                  ro \<leftarrow> read_only rip s5;
                  guard (ro = OK);
                  let s6 = upd_inode rip (\<lambda>ip. ip\<lparr>i_pipe := True, i_mode := (i_mode ip AND NOT I_REGULAR) OR I_NAMED_PIPE\<rparr>) s5;
                  let s7 = dup_inode rip (upd_filp f0 (\<lambda>f. f\<lparr>filp_ino := Some rip, filp_flags := 0\<rparr>) s6);
                  let s8 = upd_filp f1 (\<lambda>f. f\<lparr>filp_ino := Some rip, filp_flags := O_WRONLY\<rparr>) s7;
                  s9 \<leftarrow> rw_inode rip WRITING s8;
                  let s10 = s9\<lparr>fs_m_out := (fs_m_out s9)\<lparr>m_w0 := of_nat fd0, m_w1 := of_nat fd1\<rparr>\<rparr>;
                  Some (OK, upd_inode rip (\<lambda>ip. ip\<lparr>i_update := {ATIME, CTIME, MTIME}\<rparr>) s10)
                }
            }))"

text \<open>
  A signal ends the call of a suspended process. \<open>select_forget\<close> and \<open>dmap_io\<close> stand for the operations
  of \<^verbatim>\<open>select.c\<close> and \<^verbatim>\<open>dmap.c\<close>; \<open>dmap_io\<close> takes what the \<^verbatim>\<open>CANCEL\<close> message says: the device, the task,
  the process and the direction.
\<close>

definition do_unpause :: "(int \<Rightarrow> fsstate \<Rightarrow> fsstate option) \<Rightarrow> (int \<Rightarrow> int \<Rightarrow> int \<Rightarrow> u16 \<Rightarrow> fsstate \<Rightarrow> fsstate option)
    \<Rightarrow> fsstate \<Rightarrow> (int \<times> fsstate) option" where
  "do_unpause select_forget dmap_io s =
     (if PM_PROC_NR < fs_who s then Some (EPERM, s)
      else do {
        let proc_nr = sint (m_w0 (fs_m_in s));
        guard (0 \<le> proc_nr \<and> proc_nr < NR_PROCS);
        let p = nat proc_nr;
        let rfp = fprocs s p;
        if \<not> fp_suspended rfp then Some (OK, s)
        else do {
          let task = - fp_task rfp;
          s1 \<leftarrow> (if task = XPIPE \<or> task = XLOCK \<or> task = XPOPEN then Some s
            else if task = XSELECT then select_forget proc_nr s
            else do {
              let fild = take_bit 8 (drop_bit 8 (fp_fd rfp));
              guard (fild < int OPEN_MAX);
              f \<leftarrow> fp_filp rfp (nat fild);
              ino \<leftarrow> filp_ino (filps s f);
              let dev = sshort (uint (i_zone (inodes s ino) 0));
              dmap_io dev task proc_nr (if take_bit 8 (fp_fd rfp) = CALL_READ then R_BIT else W_BIT) (s\<lparr>fp := p\<rparr>)
            });
          let s2 = upd_fproc p (\<lambda>q. q\<lparr>fp_suspended := False\<rparr>) s1;
          Some (OK, reply proc_nr EINTR s2)
        }
      })"

end
