(* ===== verification/FS_Lock.thy ===== *)
theory FS_Lock
  imports FS_Pipe
begin

text \<open>
  Advisory locks on regions of files (\<^verbatim>\<open>servers/fs/lock.c\<close>, and the release of the locks of a process in
  \<^verbatim>\<open>do_close\<close> of \<^verbatim>\<open>open.c\<close>). The table of \<^verbatim>\<open>NR_LOCKS\<close> regions represents a set of locked bytes, \<open>held\<close>; the
  operations are shown to act on that set as locks should, and no two processes ever hold conflicting
  locks on a byte.
\<close>

subsection \<open>Model\<close>

abbreviation (input) F_GETLK :: int where "F_GETLK \<equiv> 5"
abbreviation (input) F_SETLK :: int where "F_SETLK \<equiv> 6"
abbreviation (input) F_SETLKW :: int where "F_SETLKW \<equiv> 7"
abbreviation (input) F_RDLCK :: int where "F_RDLCK \<equiv> 1"
abbreviation (input) F_WRLCK :: int where "F_WRLCK \<equiv> 2"
abbreviation (input) F_UNLCK :: int where "F_UNLCK \<equiv> 3"
abbreviation (input) MAX_FILE_POS :: u32 where "MAX_FILE_POS \<equiv> 0xFFFFFFFF"
abbreviation (input) FLOCK_SIZE :: nat where "FLOCK_SIZE \<equiv> 16"

definition lock_nrs :: "nat list" where
  "lock_nrs = [0..<NR_LOCKS]"

text \<open>
  The processes that wait for a lock are revived. The loop of \<^verbatim>\<open>lock_revive\<close> starts behind the slot of
  init, so a waiter in the slots 0 to 7 is passed over.
\<close>

fun revive_waiters :: "nat list \<Rightarrow> fsstate \<Rightarrow> fsstate option" where
  "revive_waiters [] s = Some s"
| "revive_waiters (p # ps) s =
     (if fp_suspended (fprocs s p) \<and> - fp_task (fprocs s p) = XLOCK
      then do { s1 \<leftarrow> revive (int p) 0 s; revive_waiters ps s1 }
      else revive_waiters ps s)"

definition user_procs :: "nat list" where
  "user_procs = [nat (INIT_PROC_NR + 1)..<FS_NR_PROCS]"

definition lock_revive :: "fsstate \<Rightarrow> fsstate option" where
  "lock_revive s = revive_waiters user_procs s"

text \<open>
  The loop over the table: it returns from the function, or ends at a conflicting lock
  (\<^verbatim>\<open>F_GETLK\<close>), or runs to its end with the first free slot and whether something was unlocked.
\<close>

datatype scan_result =
    Scan_return int fsstate
  | Scan_found nat fsstate
  | Scan_end "nat option" bool fsstate

definition skipped :: "nat \<Rightarrow> int \<Rightarrow> u32 \<Rightarrow> u32 \<Rightarrow> int \<Rightarrow> file_lock \<Rightarrow> bool" where
  "skipped ino ltype first final pid flp \<longleftrightarrow>
     lock_inode flp \<noteq> Some ino \<or> final < lock_first flp \<or> lock_last flp < first \<or>
     ltype = F_RDLCK \<and> lock_type flp = F_RDLCK \<or> ltype \<noteq> F_UNLCK \<and> lock_pid flp = pid"

text \<open>Unlocking a region that overlaps the lock in slot \<open>i\<close>; \<open>Inl\<close> is a full table.\<close>

definition unlock_slot :: "u32 \<Rightarrow> u32 \<Rightarrow> nat \<Rightarrow> fsstate \<Rightarrow> (int + fsstate) option" where
  "unlock_slot first final i s = (
     let flp = file_locks s i in
     if first \<le> lock_first flp \<and> lock_last flp \<le> final then
       Some (Inr ((upd_lock i (\<lambda>l. l\<lparr>lock_type := 0\<rparr>) s)\<lparr>nr_locks := nr_locks s - 1\<rparr>))
     else if first \<le> lock_first flp then Some (Inr (upd_lock i (\<lambda>l. l\<lparr>lock_first := final + 1\<rparr>) s))
     else if lock_last flp \<le> final then Some (Inr (upd_lock i (\<lambda>l. l\<lparr>lock_last := first - 1\<rparr>) s))
     else if nr_locks s = int NR_LOCKS then Some (Inl ENOLCK)
     else do {
       j \<leftarrow> find (\<lambda>j. lock_type (file_locks s j) = 0) lock_nrs;
       let s1 = upd_lock j (\<lambda>_. \<lparr>lock_type = lock_type flp, lock_pid = lock_pid flp, lock_inode = lock_inode flp,
         lock_first = final + 1, lock_last = lock_last flp\<rparr>) s;
       Some (Inr ((upd_lock i (\<lambda>l. l\<lparr>lock_last := first - 1\<rparr>) s1)\<lparr>nr_locks := nr_locks s1 + 1\<rparr>))
     })"

fun lock_scan :: "nat \<Rightarrow> int \<Rightarrow> int \<Rightarrow> u32 \<Rightarrow> u32 \<Rightarrow> nat option \<Rightarrow> bool \<Rightarrow> nat list \<Rightarrow> fsstate \<Rightarrow> scan_result option" where
  "lock_scan ino req ltype first final slot unlocking [] s = Some (Scan_end slot unlocking s)"
| "lock_scan ino req ltype first final slot unlocking (i # is) s = (
     let flp = file_locks s i in
     if lock_type flp = 0 then
       lock_scan ino req ltype first final (if slot = None then Some i else slot) unlocking is s
     else if skipped ino ltype first final (fp_pid (fprocs s (fp s))) flp then
       lock_scan ino req ltype first final slot unlocking is s
     else if req = F_GETLK then Some (Scan_found i s)
     else if ltype = F_RDLCK \<or> ltype = F_WRLCK then
       Some (if req = F_SETLK then Scan_return EAGAIN s else Scan_return SUSPEND (suspend XLOCK s))
     else do {
       r \<leftarrow> unlock_slot first final i s;
       case r of
         Inl e \<Rightarrow> Some (Scan_return e s)
       | Inr s1 \<Rightarrow> lock_scan ino req ltype first final slot True is s1
     })"

text \<open>The checks of the arguments, and the region: an error, or the type and the first and last byte.\<close>

definition flock_type :: "bytes \<Rightarrow> int" where
  "flock_type d = sint (get16 0 d)"

definition lock_args :: "nat \<Rightarrow> int \<Rightarrow> bytes \<Rightarrow> fsstate \<Rightarrow> (int + u32 \<times> u32) option" where
  "lock_args f req d s = do {
     ino \<leftarrow> filp_ino (filps s f);
     let ltype = flock_type d;
     let mo = filp_mode (filps s f);
     let l_whence = sint (get16 2 d);
     let l_start = get32 4 d;
     let l_len = get32 8 d;
     Some (
       if ltype \<noteq> F_UNLCK \<and> ltype \<noteq> F_RDLCK \<and> ltype \<noteq> F_WRLCK then Inl EINVAL
       else if req = F_GETLK \<and> ltype = F_UNLCK then Inl EINVAL
       else if i_mode (inodes s ino) AND I_TYPE \<noteq> I_REGULAR then Inl EINVAL
       else if req \<noteq> F_GETLK \<and> ltype = F_RDLCK \<and> mo AND R_BIT = 0 then Inl EBADF
       else if req \<noteq> F_GETLK \<and> ltype = F_WRLCK \<and> mo AND W_BIT = 0 then Inl EBADF
       else if l_whence \<noteq> 0 \<and> l_whence \<noteq> 1 \<and> l_whence \<noteq> 2 then Inl EINVAL
       else (let base = (if l_whence = 0 then 0 else if l_whence = 1 then filp_pos (filps s f) else i_size (inodes s ino)) in
         if 0 < sint l_start \<and> base + l_start < base then Inl EINVAL
         else if sint l_start < 0 \<and> base < base + l_start then Inl EINVAL
         else (let first = base + l_start; final = (if l_len = 0 then MAX_FILE_POS else first + l_len - 1) in
           if final < first then Inl EINVAL else Inr (first, final))))
   }"

definition flock_of :: "file_lock \<Rightarrow> bytes \<Rightarrow> bytes" where
  "flock_of flp d = put32 12 (word_of_int (lock_pid flp)) (put32 8 (lock_last flp - lock_first flp + 1)
     (put32 4 (lock_first flp) (put16 2 0 (put16 0 (word_of_int (lock_type flp)) d))))"

text \<open>After the loop.\<close>

definition lock_finish :: "int \<Rightarrow> u32 \<Rightarrow> bytes \<Rightarrow> nat \<Rightarrow> u32 \<Rightarrow> u32 \<Rightarrow> scan_result \<Rightarrow> (int \<times> fsstate) option" where
  "lock_finish req user_flock d ino first final res = (
     let ltype = flock_type d in
     case res of
       Scan_return e s1 \<Rightarrow> Some (e, s1)
     | Scan_found i s1 \<Rightarrow>
         (let ((r, d2), s2) = fs_do (Fs_datacopy_out (fs_who s1) user_flock (flock_of (file_locks s1 i) d) FLOCK_SIZE) s1
          in Some (r, s2))
     | Scan_end slot unlocking s1 \<Rightarrow> do {
         s2 \<leftarrow> (if unlocking then lock_revive s1 else Some s1);
         if req = F_GETLK then
           (let ((r, d2), s3) = fs_do (Fs_datacopy_out (fs_who s2) user_flock (put16 0 (word_of_int F_UNLCK) d) FLOCK_SIZE) s2
            in Some (r, s3))
         else if ltype = F_UNLCK then Some (OK, s2)
         else (case slot of
             None \<Rightarrow> Some (ENOLCK, s2)
           | Some e \<Rightarrow> Some (OK, (upd_lock e (\<lambda>_. \<lparr>lock_type = ltype, lock_pid = fp_pid (fprocs s2 (fp s2)),
               lock_inode = Some ino, lock_first = first, lock_last = final\<rparr>) s2)\<lparr>nr_locks := nr_locks s2 + 1\<rparr>))
       })"

definition lock_op :: "nat \<Rightarrow> int \<Rightarrow> fsstate \<Rightarrow> (int \<times> fsstate) option" where
  "lock_op f req s = (
     let user_flock = m_buffer (fs_m_in s);
         ((r, d), s0) = fs_do (Fs_datacopy_in (fs_who s) user_flock FLOCK_SIZE) s in
     if r \<noteq> OK then Some (EINVAL, s0)
     else do {
       a \<leftarrow> lock_args f req d s0;
       case a of
         Inl e \<Rightarrow> Some (e, s0)
       | Inr (first, final) \<Rightarrow> do {
           ino \<leftarrow> filp_ino (filps s0 f);
           res \<leftarrow> lock_scan ino req (flock_type d) first final None False lock_nrs s0;
           lock_finish req user_flock d ino first final res
         }
     })"

text \<open>The end of \<^verbatim>\<open>do_close\<close>: the locks of the process on the file are released.\<close>

fun drop_locks :: "nat \<Rightarrow> nat list \<Rightarrow> fsstate \<Rightarrow> fsstate" where
  "drop_locks rip [] s = s"
| "drop_locks rip (i # is) s = (
     let flp = file_locks s i in
     drop_locks rip is
       (if lock_type flp \<noteq> 0 \<and> lock_inode flp = Some rip \<and> lock_pid flp = fp_pid (fprocs s (fp s))
        then (upd_lock i (\<lambda>l. l\<lparr>lock_type := 0\<rparr>) s)\<lparr>nr_locks := nr_locks s - 1\<rparr> else s))"

definition close_locks :: "nat \<Rightarrow> fsstate \<Rightarrow> fsstate option" where
  "close_locks rip s =
     (if nr_locks s = 0 then Some s
      else (let s1 = drop_locks rip lock_nrs s in
        if nr_locks s1 < nr_locks s then lock_revive s1 else Some s1))"


subsection \<open>The set of locked bytes\<close>

text \<open>Process, type of the lock, inode and byte.\<close>

type_synonym held_locks = "(int \<times> int \<times> nat \<times> u32) set"

definition region :: "file_lock \<Rightarrow> held_locks" where
  "region l = (if lock_type l = 0 then {}
     else {(lock_pid l, lock_type l, ino, x) | ino x. lock_inode l = Some ino \<and> lock_first l \<le> x \<and> x \<le> lock_last l})"

definition held :: "fsstate \<Rightarrow> held_locks" where
  "held s = (\<Union>i<NR_LOCKS. region (file_locks s i))"

definition span :: "nat \<Rightarrow> u32 \<Rightarrow> u32 \<Rightarrow> held_locks" where
  "span ino a b = {(p, t, i, x). i = ino \<and> a \<le> x \<and> x \<le> b}"

definition compatible :: "held_locks \<Rightarrow> bool" where
  "compatible H \<longleftrightarrow> (\<forall>p t p' t' i x. (p, t, i, x) \<in> H \<longrightarrow> (p', t', i, x) \<in> H \<longrightarrow> p \<noteq> p' \<longrightarrow> t = F_RDLCK \<and> t' = F_RDLCK)"

definition conflicts :: "held_locks \<Rightarrow> int \<Rightarrow> int \<Rightarrow> nat \<Rightarrow> u32 \<Rightarrow> u32 \<Rightarrow> bool" where
  "conflicts H pid ty ino a b \<longleftrightarrow> (\<exists>p t x. (p, t, ino, x) \<in> H \<and> a \<le> x \<and> x \<le> b \<and> p \<noteq> pid \<and> \<not> (t = F_RDLCK \<and> ty = F_RDLCK))"

definition slot_ok :: "file_lock \<Rightarrow> bool" where
  "slot_ok l \<longleftrightarrow> lock_type l \<noteq> 0 \<longrightarrow>
     (lock_type l = F_RDLCK \<or> lock_type l = F_WRLCK) \<and> lock_first l \<le> lock_last l \<and> lock_inode l \<noteq> None"

definition busy_slots :: "fsstate \<Rightarrow> nat set" where
  "busy_slots s = {i. i < NR_LOCKS \<and> lock_type (file_locks s i) \<noteq> 0}"

definition table_ok :: "fsstate \<Rightarrow> bool" where
  "table_ok s \<longleftrightarrow> (\<forall>i<NR_LOCKS. slot_ok (file_locks s i)) \<and> nr_locks s = int (card (busy_slots s))"

definition locks_ok :: "fsstate \<Rightarrow> bool" where
  "locks_ok s \<longleftrightarrow> table_ok s \<and> compatible (held s)"

lemma table_cong:
  assumes "file_locks s' = file_locks s" "nr_locks s' = nr_locks s"
  shows "held s' = held s" "table_ok s' = table_ok s" "locks_ok s' = locks_ok s" "busy_slots s' = busy_slots s"
  using assms by (simp_all add: held_def table_ok_def locks_ok_def busy_slots_def)

lemma upd_lock_sel [simp]:
  "file_locks (upd_lock i f s) = (file_locks s)(i := f (file_locks s i))" "nr_locks (upd_lock i f s) = nr_locks s"
  "fprocs (upd_lock i f s) = fprocs s" "fp (upd_lock i f s) = fp s" "reviving (upd_lock i f s) = reviving s"
  by (simp_all add: upd_lock_def)

lemma finite_busy [simp]: "finite (busy_slots s)"
  by (simp add: busy_slots_def)

lemma busy_le: "card (busy_slots s) \<le> NR_LOCKS"
  using card_mono [of "{..<NR_LOCKS}" "busy_slots s"] by (auto simp: busy_slots_def)

lemma lock_nrs_set [simp]: "set lock_nrs = {..<NR_LOCKS}" "distinct lock_nrs"
  by (auto simp: lock_nrs_def)

lemma compatible_mono: "compatible H \<Longrightarrow> H' \<subseteq> H \<Longrightarrow> compatible H'"
  unfolding compatible_def by blast

lemma region_in_held: "i < NR_LOCKS \<Longrightarrow> region (file_locks s i) \<subseteq> held s"
  by (auto simp: held_def)

lemma find_SomeD: "find P xs = Some x \<Longrightarrow> P x \<and> x \<in> set xs"
  by (induction xs) (auto split: if_splits)

text \<open>A free slot exists unless the table is full.\<close>

lemma find_free_slot:
  assumes t: "table_ok s" and n: "nr_locks s \<noteq> int NR_LOCKS"
  shows "\<exists>j<NR_LOCKS. find (\<lambda>j. lock_type (file_locks s j) = 0) lock_nrs = Some j \<and> lock_type (file_locks s j) = 0"
proof (cases "find (\<lambda>j. lock_type (file_locks s j) = 0) lock_nrs")
  case None
  then have "busy_slots s = {..<NR_LOCKS}" by (auto simp: find_None_iff busy_slots_def)
  with t have "nr_locks s = int NR_LOCKS" by (simp add: table_ok_def)
  with n show ?thesis by simp
next
  case (Some j)
  from find_SomeD [OF this] Some show ?thesis by simp
qed

text \<open>A slot is taken or given back.\<close>

lemma busy_upd:
  assumes "i < NR_LOCKS"
  shows "busy_slots (s\<lparr>file_locks := (file_locks s)(i := l), nr_locks := n\<rparr>) =
    (if lock_type l = 0 then busy_slots s - {i} else insert i (busy_slots s))"
  using assms by (auto simp: busy_slots_def)

lemma held_upd:
  assumes "i < NR_LOCKS" "file_locks s' = (file_locks s)(i := l)"
  shows "held s' = region l \<union> (\<Union>j\<in>{..<NR_LOCKS} - {i}. region (file_locks s j))"
  using assms by (fastforce simp: held_def split: if_splits)

lemma table_take:
  assumes t: "table_ok s" and j: "j < NR_LOCKS" "lock_type (file_locks s j) = 0" and l: "slot_ok l" "lock_type l \<noteq> 0"
  shows "table_ok (s\<lparr>file_locks := (file_locks s)(j := l), nr_locks := nr_locks s + 1\<rparr>)"
    "held (s\<lparr>file_locks := (file_locks s)(j := l), nr_locks := nr_locks s + 1\<rparr>) = held s \<union> region l"
proof -
  let ?s = "s\<lparr>file_locks := (file_locks s)(j := l), nr_locks := nr_locks s + 1\<rparr>"
  have "j \<notin> busy_slots s" using j by (simp add: busy_slots_def)
  then have "card (busy_slots ?s) = Suc (card (busy_slots s))" using l j(1) by (simp add: busy_upd)
  then show "table_ok ?s" using t l by (simp add: table_ok_def)
  have "region (file_locks s j) = {}" using j by (simp add: region_def)
  then have "held s = (\<Union>k\<in>{..<NR_LOCKS} - {j}. region (file_locks s k))" using j(1) by (fastforce simp: held_def)
  then show "held ?s = held s \<union> region l" using held_upd [OF j(1), of ?s s l] by auto
qed

lemma table_give:
  assumes t: "table_ok s" and i: "i < NR_LOCKS" "lock_type (file_locks s i) \<noteq> 0"
  shows "table_ok ((upd_lock i (\<lambda>l. l\<lparr>lock_type := 0\<rparr>) s)\<lparr>nr_locks := nr_locks s - 1\<rparr>)"
    "held ((upd_lock i (\<lambda>l. l\<lparr>lock_type := 0\<rparr>) s)\<lparr>nr_locks := nr_locks s - 1\<rparr>) =
       (\<Union>k\<in>{..<NR_LOCKS} - {i}. region (file_locks s k))"
proof -
  let ?l = "(file_locks s i)\<lparr>lock_type := 0\<rparr>"
  let ?s = "(upd_lock i (\<lambda>l. l\<lparr>lock_type := 0\<rparr>) s)\<lparr>nr_locks := nr_locks s - 1\<rparr>"
  have e: "?s = s\<lparr>file_locks := (file_locks s)(i := ?l), nr_locks := nr_locks s - 1\<rparr>" by (simp add: upd_lock_def)
  have b: "i \<in> busy_slots s" using i by (simp add: busy_slots_def)
  then have "card (busy_slots ?s) = card (busy_slots s) - 1" "0 < card (busy_slots s)"
    using i unfolding e by (auto simp: busy_upd card_gt_0_iff)
  then show "table_ok ?s" using t by (simp add: table_ok_def slot_ok_def)
  show "held ?s = (\<Union>k\<in>{..<NR_LOCKS} - {i}. region (file_locks s k))"
    using held_upd [OF i(1), of ?s s ?l] by (simp add: region_def)
qed


subsection \<open>Unlocking\<close>

lemma above_word: "(a :: u32) < c \<Longrightarrow> a + 1 \<le> x \<longleftrightarrow> a < x"
proof -
  assume "a < c"
  then have "unat a + 1 < 2 ^ 32" 
  proof -
    have "unat c < 2 ^ LENGTH(32)" by (rule unsigned_less)
    with \<open>a < c\<close> show ?thesis by (simp add: word_less_nat_alt)
  qed
  then have "unat (a + 1) = unat a + 1" using unat_plus_if' [of a 1] by simp
  then show ?thesis by (simp add: word_less_nat_alt word_le_nat_alt Suc_le_eq)
qed

lemma below_word: "(c :: u32) < a \<Longrightarrow> x \<le> a - 1 \<longleftrightarrow> x < a"
proof -
  assume "c < a"
  then have "0 < unat a" by (simp add: word_less_nat_alt)
  then have "unat (a - 1) = unat a - 1" by (simp add: unat_sub word_le_nat_alt)
  with \<open>0 < unat a\<close> show ?thesis by (auto simp: word_less_nat_alt word_le_nat_alt)
qed

text \<open>A slot is replaced by one whose region is a part of the old one.\<close>

lemma table_shrink:
  assumes t: "table_ok s" and i: "i < NR_LOCKS" "lock_type (file_locks s i) \<noteq> 0"
    and l: "slot_ok l" "lock_type l \<noteq> 0" "region l \<subseteq> region (file_locks s i)"
      "region (file_locks s i) - span ino a b \<subseteq> region l \<union> K"
  shows "table_ok (s\<lparr>file_locks := (file_locks s)(i := l)\<rparr>)"
    "held (s\<lparr>file_locks := (file_locks s)(i := l)\<rparr>) \<subseteq> held s"
    "held s - span ino a b \<subseteq> held (s\<lparr>file_locks := (file_locks s)(i := l)\<rparr>) \<union> K"
proof -
  let ?s = "s\<lparr>file_locks := (file_locks s)(i := l)\<rparr>"
  have "busy_slots ?s = busy_slots s" using i l(2) by (auto simp: busy_slots_def)
  then show "table_ok ?s" using t l(1) by (simp add: table_ok_def)
  have h: "held ?s = region l \<union> (\<Union>j\<in>{..<NR_LOCKS} - {i}. region (file_locks s j))"
    by (rule held_upd [OF i(1)]) simp
  have h0: "held s = region (file_locks s i) \<union> (\<Union>j\<in>{..<NR_LOCKS} - {i}. region (file_locks s j))"
    using i(1) by (auto simp: held_def)
  show "held ?s \<subseteq> held s" "held s - span ino a b \<subseteq> held ?s \<union> K" unfolding h h0 using l(3,4) by blast+
qed

definition locks_only :: "fsstate \<Rightarrow> fsstate \<Rightarrow> bool" where
  "locks_only s s' \<longleftrightarrow> (\<exists>T n. s' = s\<lparr>file_locks := T, nr_locks := n\<rparr>)"

lemma locks_only_refl [simp]: "locks_only s s"
  unfolding locks_only_def by (intro exI [of _ "file_locks s"] exI [of _ "nr_locks s"]) simp

lemma locks_only_upd [simp]: "locks_only s ((upd_lock i f s)\<lparr>nr_locks := n\<rparr>)" "locks_only s (upd_lock i f s)"
proof -
  show "locks_only s ((upd_lock i f s)\<lparr>nr_locks := n\<rparr>)" by (auto simp: upd_lock_def locks_only_def)
  have "upd_lock i f s = s\<lparr>file_locks := (file_locks s)(i := f (file_locks s i)), nr_locks := nr_locks s\<rparr>"
    by (simp add: upd_lock_def)
  then show "locks_only s (upd_lock i f s)" unfolding locks_only_def by blast
qed

lemma locks_only_table [simp]: "locks_only s (s\<lparr>file_locks := T\<rparr>)" "locks_only s (s\<lparr>file_locks := T, nr_locks := n\<rparr>)"
  "locks_only s (s\<lparr>nr_locks := n, file_locks := T\<rparr>)"
proof -
  have "s\<lparr>file_locks := T\<rparr> = s\<lparr>file_locks := T, nr_locks := nr_locks s\<rparr>" by simp
  then show "locks_only s (s\<lparr>file_locks := T\<rparr>)" unfolding locks_only_def by blast
  have "s\<lparr>nr_locks := n, file_locks := T\<rparr> = s\<lparr>file_locks := T, nr_locks := n\<rparr>" by simp
  then show "locks_only s (s\<lparr>nr_locks := n, file_locks := T\<rparr>)" unfolding locks_only_def by blast
qed (auto simp: locks_only_def)

lemma locks_only_trans: "locks_only s s1 \<Longrightarrow> locks_only s1 s2 \<Longrightarrow> locks_only s s2"
proof -
  assume "locks_only s s1" "locks_only s1 s2"
  then obtain T n where "s2 = s1\<lparr>file_locks := T, nr_locks := n\<rparr>" and "locks_only s s1" by (auto simp: locks_only_def)
  then have "s2 = s\<lparr>file_locks := T, nr_locks := n\<rparr>" by (auto simp: locks_only_def)
  then show ?thesis unfolding locks_only_def by blast
qed

lemma locks_onlyD:
  assumes "locks_only s s'"
  shows "fprocs s' = fprocs s" "fp s' = fp s" "reviving s' = reviving s" "filps s' = filps s" "inodes s' = inodes s"
    "fs_who s' = fs_who s" "fs_log s' = fs_log s"
  using assms by (auto simp: locks_only_def)

definition unlocked :: "nat \<Rightarrow> u32 \<Rightarrow> u32 \<Rightarrow> fsstate \<Rightarrow> fsstate \<Rightarrow> bool" where
  "unlocked ino a b s s' \<longleftrightarrow> table_ok s' \<and> held s' \<subseteq> held s \<and> held s - span ino a b \<subseteq> held s' \<and> locks_only s s' \<and>
     (\<forall>k<NR_LOCKS. region (file_locks s k) \<inter> span ino a b = {} \<longrightarrow> region (file_locks s' k) \<inter> span ino a b = {})"

lemma unlocked_refl: "table_ok s \<Longrightarrow> unlocked ino a b s s"
  by (auto simp: unlocked_def)

lemma unlocked_trans: "unlocked ino a b s s1 \<Longrightarrow> unlocked ino a b s1 s2 \<Longrightarrow> unlocked ino a b s s2"
  unfolding unlocked_def by (blast intro: locks_only_trans)

lemma unlock_slot_spec:
  assumes t: "table_ok s" and i: "i < NR_LOCKS" "lock_type (file_locks s i) \<noteq> 0" "lock_inode (file_locks s i) = Some ino"
    and o: "a \<le> lock_last (file_locks s i)" "lock_first (file_locks s i) \<le> b" "a \<le> b"
  shows "unlock_slot a b i s = Some (Inl ENOLCK) \<and> nr_locks s = int NR_LOCKS \<or>
    (\<exists>s'. unlock_slot a b i s = Some (Inr s') \<and> unlocked ino a b s s' \<and> region (file_locks s' i) \<inter> span ino a b = {})"
proof -
  let ?l = "file_locks s i"
  have ok: "slot_ok ?l" using t i(1) by (simp add: table_ok_def)
  have reg: "region (?l\<lparr>lock_first := f, lock_last := g\<rparr>) = {(lock_pid ?l, lock_type ?l, ino, x) | x. f \<le> x \<and> x \<le> g}" for f g
    using i by (auto simp: region_def)
  have reg0: "region ?l = {(lock_pid ?l, lock_type ?l, ino, x) | x. lock_first ?l \<le> x \<and> x \<le> lock_last ?l}"
    using i by (auto simp: region_def)
  have cut: "region (l :: file_lock) \<inter> span ino a b = {}" if "\<And>p t x. (p, t, ino, x) \<in> region l \<Longrightarrow> x < a \<or> b < x" for l
    using that by (fastforce simp: span_def)
  consider "a \<le> lock_first ?l" "lock_last ?l \<le> b" | "a \<le> lock_first ?l" "b < lock_last ?l"
    | "lock_first ?l < a" "lock_last ?l \<le> b" | "lock_first ?l < a" "b < lock_last ?l" by fastforce
  then show ?thesis
  proof cases
    case 1
    let ?s = "(upd_lock i (\<lambda>l. l\<lparr>lock_type := 0\<rparr>) s)\<lparr>nr_locks := nr_locks s - 1\<rparr>"
    note g = table_give [OF t i(1,2)]
    have "region ?l \<subseteq> span ino a b" unfolding reg0 using 1 by (auto simp: span_def)
    then have "held s - span ino a b \<subseteq> held ?s" unfolding g(2) using i(1) by (auto simp: held_def)
    moreover have "held ?s \<subseteq> held s" unfolding g(2) by (auto simp: held_def)
    ultimately have "unlocked ino a b s ?s" using g(1) by (auto simp: unlocked_def region_def)
    then show ?thesis using 1 by (intro disjI2 exI [of _ ?s]) (simp add: unlock_slot_def Let_def region_def)
  next
    case 2
    let ?n = "?l\<lparr>lock_first := b + 1\<rparr>"
    let ?s = "upd_lock i (\<lambda>l. l\<lparr>lock_first := b + 1\<rparr>) s"
    have e: "?s = s\<lparr>file_locks := (file_locks s)(i := ?n)\<rparr>" by (simp add: upd_lock_def)
    have r: "region ?n = {(lock_pid ?l, lock_type ?l, ino, x) | x. b < x \<and> x \<le> lock_last ?l}"
      using reg [where f = "b + 1" and g = "lock_last ?l"] above_word [OF 2(2)] by simp
    have c: "region ?n \<inter> span ino a b = {}" unfolding r by (auto simp: span_def)
    have so: "slot_ok ?n" using ok 2 above_word [OF 2(2)] by (auto simp: slot_ok_def)
    have "region ?n \<subseteq> region ?l" unfolding r reg0 using o(2) by auto
    moreover have "region ?l - span ino a b \<subseteq> region ?n \<union> {}" unfolding r reg0 using 2(1) by (auto simp: span_def)
    ultimately have "unlocked ino a b s ?s"
      using table_shrink [OF t i(1,2) so, of ino a b "{}"] c i(2) unfolding e unlocked_def by auto
    then show ?thesis using 2 c by (intro disjI2 exI [of _ ?s]) (simp add: unlock_slot_def Let_def)
  next
    case 3
    let ?n = "?l\<lparr>lock_last := a - 1\<rparr>"
    let ?s = "upd_lock i (\<lambda>l. l\<lparr>lock_last := a - 1\<rparr>) s"
    have e: "?s = s\<lparr>file_locks := (file_locks s)(i := ?n)\<rparr>" by (simp add: upd_lock_def)
    have r: "region ?n = {(lock_pid ?l, lock_type ?l, ino, x) | x. lock_first ?l \<le> x \<and> x < a}"
      using reg [where f = "lock_first ?l" and g = "a - 1"] below_word [OF 3(1)] by simp
    have c: "region ?n \<inter> span ino a b = {}" unfolding r by (auto simp: span_def)
    have so: "slot_ok ?n" using ok 3 below_word [OF 3(1)] by (auto simp: slot_ok_def)
    have "region ?n \<subseteq> region ?l" unfolding r reg0 using o(1) by auto
    moreover have "region ?l - span ino a b \<subseteq> region ?n \<union> {}" unfolding r reg0 using 3(2) by (auto simp: span_def)
    ultimately have "unlocked ino a b s ?s"
      using table_shrink [OF t i(1,2) so, of ino a b "{}"] c i(2) unfolding e unlocked_def by auto
    then show ?thesis using 3 c by (intro disjI2 exI [of _ ?s]) (simp add: unlock_slot_def Let_def)
  next
    case 4
    have nb: "\<not> a \<le> lock_first ?l" "\<not> lock_last ?l \<le> b" using 4 by simp_all
    show ?thesis
    proof (cases "nr_locks s = int NR_LOCKS")
      case True
      then show ?thesis using nb by (simp add: unlock_slot_def Let_def)
    next
      case False
      from find_free_slot [OF t False] obtain j where j: "j < NR_LOCKS" "lock_type (file_locks s j) = 0"
        "find (\<lambda>j. lock_type (file_locks s j) = 0) lock_nrs = Some j" by blast
      let ?m = "\<lparr>lock_type = lock_type ?l, lock_pid = lock_pid ?l, lock_inode = lock_inode ?l, lock_first = b + 1, lock_last = lock_last ?l\<rparr>"
      let ?n = "?l\<lparr>lock_last := a - 1\<rparr>"
      let ?s1 = "s\<lparr>file_locks := (file_locks s)(j := ?m), nr_locks := nr_locks s + 1\<rparr>"
      let ?s2 = "?s1\<lparr>file_locks := (file_locks ?s1)(i := ?n)\<rparr>"
      have ij: "i \<noteq> j" using j(2) i(2) by auto
      have rm: "region ?m = {(lock_pid ?l, lock_type ?l, ino, x) | x. b < x \<and> x \<le> lock_last ?l}"
        using i above_word [OF 4(2)] by (auto simp: region_def)
      have rn: "region ?n = {(lock_pid ?l, lock_type ?l, ino, x) | x. lock_first ?l \<le> x \<and> x < a}"
        using reg [where f = "lock_first ?l" and g = "a - 1"] below_word [OF 4(1)] by simp
      have so: "slot_ok ?m" "slot_ok ?n" using ok i above_word [OF 4(2)] below_word [OF 4(1)] 4 by (auto simp: slot_ok_def)
      have sub: "region ?m \<subseteq> region ?l" "region ?n \<subseteq> region ?l" unfolding rm rn reg0 using o by auto
      note tk = table_take [OF t j(1,2) so(1)]
      have il: "file_locks ?s1 i = ?l" using ij by simp
      have tk': "table_ok ?s1" "held ?s1 = held s \<union> region ?m" using tk i(2) by simp_all
      have "region ?l - span ino a b \<subseteq> region ?n \<union> region ?m" unfolding rm rn reg0 by (auto simp: span_def)
      with table_shrink [OF tk'(1) i(1), of ?n ino a b "region ?m"] so(2) sub(2) i(2) ij
      have sh: "table_ok ?s2" "held ?s2 \<subseteq> held ?s1" "held ?s1 - span ino a b \<subseteq> held ?s2 \<union> region ?m" by simp_all
      have "region ?m \<subseteq> held ?s2" using region_in_held [OF j(1), of ?s2] ij by simp
      then have "held s - span ino a b \<subseteq> held ?s2" using sh(3) tk'(2) by blast
      moreover have "held ?s2 \<subseteq> held s" using sh(2) tk'(2) sub(1) region_in_held [OF i(1), of s] by blast
      moreover have c: "region ?m \<inter> span ino a b = {}" "region ?n \<inter> span ino a b = {}"
        unfolding rm rn by (auto simp: span_def)
      ultimately have u: "unlocked ino a b s ?s2" using sh(1) ij by (auto simp: unlocked_def)
      have "unlock_slot a b i s = Some (Inr ?s2)"
        using nb False j(3) ij by (simp add: unlock_slot_def Let_def upd_lock_def)
      with u c ij show ?thesis by (intro disjI2 exI [of _ ?s2]) simp
    qed
  qed
qed


text \<open>A lock that unlocking the region would split in two.\<close>

definition surrounds :: "file_lock \<Rightarrow> nat \<Rightarrow> u32 \<Rightarrow> u32 \<Rightarrow> bool" where
  "surrounds l ino a b \<longleftrightarrow> lock_type l \<noteq> 0 \<and> lock_inode l = Some ino \<and> lock_first l < a \<and> b < lock_last l"

lemma unlock_slot_full:
  assumes "unlock_slot a b i s = Some (Inl e)"
  shows "e = ENOLCK" "nr_locks s = int NR_LOCKS" "lock_first (file_locks s i) < a" "b < lock_last (file_locks s i)"
  using assms by (auto simp: unlock_slot_def Let_def split: if_splits)

lemma unlock_slot_others:
  assumes "unlock_slot a b i s = Some (Inr s')" "k \<noteq> i" "lock_type (file_locks s k) \<noteq> 0"
  shows "file_locks s' k = file_locks s k"
  using assms by (auto simp: unlock_slot_def Let_def dest!: find_SomeD split: if_splits)

text \<open>The locked bytes after the slots \<open>us\<close> have been treated: outside the region, and in the other slots.\<close>

definition held_but :: "nat \<Rightarrow> u32 \<Rightarrow> u32 \<Rightarrow> nat set \<Rightarrow> fsstate \<Rightarrow> held_locks" where
  "held_but ino a b us s = (held s - span ino a b) \<union> (\<Union>j\<in>{..<NR_LOCKS} - us. region (file_locks s j))"

lemma held_but_empty [simp]: "held_but ino a b {} s = held s"
  by (auto simp: held_but_def held_def)

lemma held_but_step:
  assumes u: "unlocked ino a b s s1" and i: "i < NR_LOCKS" "region (file_locks s1 i) \<inter> span ino a b = {}"
    and others: "\<And>k. k \<noteq> i \<Longrightarrow> lock_type (file_locks s k) \<noteq> 0 \<Longrightarrow> file_locks s1 k = file_locks s k"
  shows "held_but ino a b us s1 = held_but ino a b (insert i us) s"
proof -
  have sub: "held s1 \<subseteq> held s" "held s - span ino a b \<subseteq> held s1"
    and free: "\<And>k. k < NR_LOCKS \<Longrightarrow> region (file_locks s k) \<inter> span ino a b = {} \<Longrightarrow> region (file_locks s1 k) \<inter> span ino a b = {}"
    using u by (simp_all add: unlocked_def)
  have eq: "region (file_locks s1 k) \<inter> span ino a b = region (file_locks s k) \<inter> span ino a b" if "k < NR_LOCKS" "k \<noteq> i" for k
  proof (cases "lock_type (file_locks s k) = 0")
    case True
    then have "region (file_locks s k) = {}" by (simp add: region_def)
    with free [OF that(1)] show ?thesis by simp
  qed (simp add: others that)
  have dec: "held_but ino a b vs t = (held t - span ino a b) \<union> (\<Union>j\<in>{..<NR_LOCKS} - vs. region (file_locks t j) \<inter> span ino a b)" for vs t
    unfolding held_but_def using region_in_held [of _ t] by fastforce
  have "(\<Union>j\<in>{..<NR_LOCKS} - us. region (file_locks s1 j) \<inter> span ino a b) =
      (\<Union>j\<in>{..<NR_LOCKS} - insert i us. region (file_locks s1 j) \<inter> span ino a b)"
    using i(2) by blast
  also have "\<dots> = (\<Union>j\<in>{..<NR_LOCKS} - insert i us. region (file_locks s j) \<inter> span ino a b)"
    by (rule SUP_cong [OF refl]) (rule eq, auto)
  finally have "(\<Union>j\<in>{..<NR_LOCKS} - us. region (file_locks s1 j) \<inter> span ino a b) = \<dots>" .
  moreover have "held s1 - span ino a b = held s - span ino a b" using sub by blast
  ultimately show ?thesis unfolding dec by simp
qed

lemma unlock_scan:
  assumes "table_ok s" "req \<noteq> F_GETLK" "a \<le> b" "set is \<subseteq> {..<NR_LOCKS}" "distinct is"
  shows "(\<exists>sl' u s'. lock_scan ino req F_UNLCK a b sl un is s = Some (Scan_end sl' u s') \<and> unlocked ino a b s s' \<and>
      (\<not> u \<longrightarrow> s' = s) \<and> (\<forall>i\<in>set is. region (file_locks s' i) \<inter> span ino a b = {})) \<or>
    (\<exists>us k vs s'. lock_scan ino req F_UNLCK a b sl un is s = Some (Scan_return ENOLCK s') \<and> unlocked ino a b s s' \<and>
      is = us @ k # vs \<and> surrounds (file_locks s k) ino a b \<and> nr_locks s' = int NR_LOCKS \<and>
      held s' = held_but ino a b (set us) s)"
  using assms
proof (induction "is" arbitrary: s sl un)
  case Nil
  then show ?case by (simp add: unlocked_refl)
next
  case (Cons i "is")
  let ?l = "file_locks s i"
  have i: "i < NR_LOCKS" "i \<notin> set is" using Cons.prems(4,5) by simp_all
  have pre: "set is \<subseteq> {..<NR_LOCKS}" "distinct is" using Cons.prems(4,5) by simp_all
  have keep: "region (file_locks s' i) \<inter> span ino a b = {}" if "unlocked ino a b s1 s'" "region (file_locks s1 i) \<inter> span ino a b = {}" for s1 s'
    using that i by (simp add: unlocked_def)
  show ?case
  proof (cases "lock_type ?l = 0 \<or> skipped ino F_UNLCK a b (fp_pid (fprocs s (fp s))) ?l")
    case True
    have ri: "region ?l \<inter> span ino a b = {}" using True by (auto simp: region_def span_def skipped_def)
    from keep [OF _ this] have k: "region (file_locks s' i) \<inter> span ino a b = {}" if "unlocked ino a b s s'" for s'
      using that by blast
    have hb: "held_but ino a b us s = held_but ino a b (insert i us) s" for us
      by (rule held_but_step [OF unlocked_refl [OF Cons.prems(1)] i(1) ri]) simp
    have "lock_scan ino req F_UNLCK a b sl un (i # is) s =
        lock_scan ino req F_UNLCK a b (if lock_type ?l = 0 \<and> sl = None then Some i else sl) un is s"
      using True by (auto simp: Let_def)
    from Cons.IH [OF Cons.prems(1-3) pre, of "if lock_type ?l = 0 \<and> sl = None then Some i else sl" un, folded this]
    show ?thesis
    proof (elim disjE exE conjE)
      fix us v vs s' assume "lock_scan ino req F_UNLCK a b sl un (i # is) s =
          Some (Scan_return ENOLCK s')" "unlocked ino a b s s'" "is = us @ v # vs" "surrounds (file_locks s v) ino a b"
        "nr_locks s' = int NR_LOCKS" "held s' = held_but ino a b (set us) s"
      then show ?thesis unfolding hb [of "set us"] by (intro disjI2 exI [of _ "i # us"] exI [of _ v] exI [of _ vs] exI [of _ s']) simp
    qed (use k in \<open>auto simp del: lock_scan.simps\<close>)
  next
    case False
    then have ov: "lock_type ?l \<noteq> 0" "lock_inode ?l = Some ino" "a \<le> lock_last ?l" "lock_first ?l \<le> b"
      by (auto simp: skipped_def)
    have sc: "lock_scan ino req F_UNLCK a b sl un (i # is) s = do {
       r \<leftarrow> unlock_slot a b i s;
       case r of Inl e \<Rightarrow> Some (Scan_return e s) | Inr s1 \<Rightarrow> lock_scan ino req F_UNLCK a b sl True is s1 }"
      using False Cons.prems(2) by (simp add: Let_def)
    from unlock_slot_spec [OF Cons.prems(1) i(1) ov Cons.prems(3)] show ?thesis
    proof (elim disjE exE conjE)
      assume f: "unlock_slot a b i s = Some (Inl ENOLCK)"
      from unlock_slot_full [OF this] ov have "surrounds ?l ino a b" "nr_locks s = int NR_LOCKS" by (simp_all add: surrounds_def)
      then show ?thesis unfolding sc using f Cons.prems(1)
        by (intro disjI2 exI [of _ "[]"] exI [of _ i] exI [of _ "is"] exI [of _ s]) (simp add: unlocked_refl)
    next
      fix s1 assume u: "unlock_slot a b i s = Some (Inr s1)" "unlocked ino a b s s1" "region (file_locks s1 i) \<inter> span ino a b = {}"
      have "table_ok s1" using u(2) by (simp add: unlocked_def)
      have e: "lock_scan ino req F_UNLCK a b sl un (i # is) s = lock_scan ino req F_UNLCK a b sl True is s1"
        unfolding sc u(1) by simp
      note ot = unlock_slot_others [OF u(1)]
      have un: "lock_scan ino req F_UNLCK a b sl True js t = Some (Scan_end sl' w t') \<Longrightarrow> w" for js t sl sl' w t'
        by (induction js arbitrary: t sl) (auto simp: Let_def split: if_splits sum.split_asm, metis old.sum.exhaust)
      from Cons.IH [OF \<open>table_ok s1\<close> Cons.prems(2,3) pre, of sl True, folded e] show ?thesis
      proof (elim disjE exE conjE)
        fix sl' w s' assume v: "lock_scan ino req F_UNLCK a b sl un (i # is) s = Some (Scan_end sl' w s')" "unlocked ino a b s1 s'"
          "\<not> w \<longrightarrow> s' = s1" "\<forall>j\<in>set is. region (file_locks s' j) \<inter> span ino a b = {}"
        then show ?thesis using unlocked_trans [OF u(2) v(2)] keep [OF v(2) u(3)] un [OF v(1) [unfolded e]]
          by (intro disjI1 exI [of _ sl'] exI [of _ w] exI [of _ s']) simp
      next
        fix us k vs s' assume v: "lock_scan ino req F_UNLCK a b sl un (i # is) s = Some (Scan_return ENOLCK s')" "unlocked ino a b s1 s'"
          "is = us @ k # vs" "surrounds (file_locks s1 k) ino a b" "nr_locks s' = int NR_LOCKS"
          "held s' = held_but ino a b (set us) s1"
        have k: "k < NR_LOCKS" "k \<noteq> i" using v(3) pre(1) i(2) by auto
        have "region (file_locks s1 k) \<inter> span ino a b \<noteq> {}"
        proof -
          have "(lock_pid (file_locks s1 k), lock_type (file_locks s1 k), ino, a) \<in> region (file_locks s1 k) \<inter> span ino a b"
            using v(4) Cons.prems(3) by (auto simp: surrounds_def region_def span_def)
          then show ?thesis by blast
        qed
        then have "lock_type (file_locks s k) \<noteq> 0" using u(2) k(1) by (auto simp: unlocked_def region_def)
        with ot k(2) v(4) have "surrounds (file_locks s k) ino a b" by simp
        moreover have "held s' = held_but ino a b (set (i # us)) s"
          using v(6) held_but_step [OF u(2) i(1) u(3) ot, of "set us"] by simp
        ultimately show ?thesis using v unlocked_trans [OF u(2) v(2)]
          by (intro disjI2 exI [of _ "i # us"] exI [of _ k] exI [of _ vs] exI [of _ s']) simp
      qed
    qed
  qed
qed

subsection \<open>Setting and testing\<close>

text \<open>The slot of a lock that stands in the way.\<close>

definition blocking :: "nat \<Rightarrow> int \<Rightarrow> u32 \<Rightarrow> u32 \<Rightarrow> fsstate \<Rightarrow> nat \<Rightarrow> bool" where
  "blocking ino ty a b s i \<longleftrightarrow>
     lock_type (file_locks s i) \<noteq> 0 \<and> \<not> skipped ino ty a b (fp_pid (fprocs s (fp s))) (file_locks s i)"

lemma lock_scan_set:
  assumes "ty = F_RDLCK \<or> ty = F_WRLCK"
  shows "lock_scan ino req ty a b sl un is s =
    Some (case find (blocking ino ty a b s) is of
        None \<Rightarrow> Scan_end (if sl = None then find (\<lambda>i. lock_type (file_locks s i) = 0) is else sl) un s
      | Some i \<Rightarrow> if req = F_GETLK then Scan_found i s
          else if req = F_SETLK then Scan_return EAGAIN s else Scan_return SUSPEND (suspend XLOCK s))"
  using assms by (induction "is" arbitrary: sl) (auto simp: Let_def blocking_def split: option.split)

lemma blocking_conflicts:
  assumes t: "table_ok s" and ab: "a \<le> b" and ty: "ty \<noteq> F_UNLCK"
  shows "(\<exists>i<NR_LOCKS. blocking ino ty a b s i) \<longleftrightarrow> conflicts (held s) (fp_pid (fprocs s (fp s))) ty ino a b"
proof
  assume "\<exists>i<NR_LOCKS. blocking ino ty a b s i"
  then obtain i where i: "i < NR_LOCKS" "blocking ino ty a b s i" by blast
  let ?l = "file_locks s i"
  have l: "lock_type ?l \<noteq> 0" "lock_inode ?l = Some ino" "a \<le> lock_last ?l" "lock_first ?l \<le> b"
    "lock_pid ?l \<noteq> fp_pid (fprocs s (fp s))" "\<not> (ty = F_RDLCK \<and> lock_type ?l = F_RDLCK)"
    using i(2) ty by (auto simp: blocking_def skipped_def not_less)
  have "lock_first ?l \<le> lock_last ?l" using t i(1) l(1) by (simp add: table_ok_def slot_ok_def)
  then have "(lock_pid ?l, lock_type ?l, ino, max a (lock_first ?l)) \<in> region ?l" using l by (auto simp: region_def max_def)
  then have "(lock_pid ?l, lock_type ?l, ino, max a (lock_first ?l)) \<in> held s" using region_in_held [OF i(1)] by blast
  moreover have "a \<le> max a (lock_first ?l)" "max a (lock_first ?l) \<le> b" using l(4) ab by (simp_all add: max_def)
  ultimately show "conflicts (held s) (fp_pid (fprocs s (fp s))) ty ino a b" using l(5,6) unfolding conflicts_def by blast
next
  assume "conflicts (held s) (fp_pid (fprocs s (fp s))) ty ino a b"
  then obtain p t x where c: "(p, t, ino, x) \<in> held s" "a \<le> x" "x \<le> b" "p \<noteq> fp_pid (fprocs s (fp s))"
    "\<not> (t = F_RDLCK \<and> ty = F_RDLCK)" by (auto simp: conflicts_def)
  from c(1) obtain i where i: "i < NR_LOCKS" "(p, t, ino, x) \<in> region (file_locks s i)" by (auto simp: held_def)
  then have "blocking ino ty a b s i" using c(2-5) ty by (auto simp: blocking_def skipped_def region_def split: if_splits)
  with i(1) show "\<exists>i<NR_LOCKS. blocking ino ty a b s i" by blast
qed

subsection \<open>Reviving the waiting processes\<close>

definition waits :: "fsstate \<Rightarrow> nat \<Rightarrow> bool" where
  "waits s p \<longleftrightarrow> fp_suspended (fprocs s p) \<and> - fp_task (fprocs s p) = XLOCK"

lemma revive_waiter:
  assumes "waits s p" "p < FS_NR_PROCS"
  shows "revive (int p) 0 s = Some (if fp_revived (fprocs s p) then s
    else (upd_fproc p (\<lambda>q. q\<lparr>fp_revived := True\<rparr>) s)\<lparr>reviving := reviving s + 1\<rparr>)"
  using assms by (simp add: waits_def revive_def Let_def)

definition mark_waiters :: "nat list \<Rightarrow> fsstate \<Rightarrow> fsstate" where
  "mark_waiters ps s = s\<lparr>
     fprocs := (\<lambda>p. if p \<in> set ps \<and> waits s p then (fprocs s p)\<lparr>fp_revived := True\<rparr> else fprocs s p),
     reviving := reviving s + int (card {p \<in> set ps. waits s p \<and> \<not> fp_revived (fprocs s p)})\<rparr>"

lemma revive_waiters_mark:
  assumes "distinct ps" "set ps \<subseteq> {..<FS_NR_PROCS}"
  shows "revive_waiters ps s = Some (mark_waiters ps s)"
  using assms
proof (induction ps arbitrary: s)
  case Nil
  then show ?case by (simp add: mark_waiters_def)
next
  case (Cons p ps)
  have id: "(fprocs s p)\<lparr>fp_revived := True\<rparr> = fprocs s p" if "fp_revived (fprocs s p)"
    using that by (cases "fprocs s p") simp
  show ?case
  proof (cases "waits s p \<and> \<not> fp_revived (fprocs s p)")
    case True
    define s1 where "s1 = (upd_fproc p (\<lambda>q. q\<lparr>fp_revived := True\<rparr>) s)\<lparr>reviving := reviving s + 1\<rparr>"
    have w: "waits s1 = waits s" by (auto simp: s1_def waits_def upd_fproc_def fun_eq_iff)
    have ins: "{q \<in> set (p # ps). waits s q \<and> \<not> fp_revived (fprocs s q)} =
        insert p {q \<in> set ps. waits s1 q \<and> \<not> fp_revived (fprocs s1 q)}"
      using True Cons.prems(1) unfolding w by (auto simp: s1_def upd_fproc_def)
    then have "card {q \<in> set (p # ps). waits s q \<and> \<not> fp_revived (fprocs s q)} =
        Suc (card {q \<in> set ps. waits s1 q \<and> \<not> fp_revived (fprocs s1 q)})"
      using Cons.prems(1) by simp
    moreover have "(\<lambda>q. if q \<in> set ps \<and> waits s1 q then (fprocs s1 q)\<lparr>fp_revived := True\<rparr> else fprocs s1 q) =
        (\<lambda>q. if q \<in> set (p # ps) \<and> waits s q then (fprocs s q)\<lparr>fp_revived := True\<rparr> else fprocs s q)"
      using True Cons.prems(1) unfolding w by (intro ext) (simp add: s1_def upd_fproc_def)
    moreover have "s1\<lparr>fprocs := A, reviving := m\<rparr> = s\<lparr>fprocs := A, reviving := m\<rparr>" for A m
      by (simp add: s1_def upd_fproc_def)
    moreover have "reviving s1 + int n = reviving s + int (Suc n)" for n by (simp add: s1_def upd_fproc_def)
    ultimately have "mark_waiters ps s1 = mark_waiters (p # ps) s"
      unfolding mark_waiters_def by (simp only:)
    moreover have "revive_waiters (p # ps) s = revive_waiters ps s1"
      using True Cons.prems(2) revive_waiter [of s p] by (simp add: s1_def waits_def)
    ultimately show ?thesis using Cons by simp
  next
    case False
    have "revive_waiters (p # ps) s = revive_waiters ps s"
      using False Cons.prems(2) revive_waiter [of s p] by (auto simp: waits_def)
    moreover have "{q \<in> set (p # ps). waits s q \<and> \<not> fp_revived (fprocs s q)} =
        {q \<in> set ps. waits s q \<and> \<not> fp_revived (fprocs s q)}" using False by auto
    moreover have "(\<lambda>q. if q \<in> set (p # ps) \<and> waits s q then (fprocs s q)\<lparr>fp_revived := True\<rparr> else fprocs s q) =
        (\<lambda>q. if q \<in> set ps \<and> waits s q then (fprocs s q)\<lparr>fp_revived := True\<rparr> else fprocs s q)"
    proof
      fix q show "(if q \<in> set (p # ps) \<and> waits s q then (fprocs s q)\<lparr>fp_revived := True\<rparr> else fprocs s q) =
          (if q \<in> set ps \<and> waits s q then (fprocs s q)\<lparr>fp_revived := True\<rparr> else fprocs s q)"
        using False id by (cases "q = p") simp_all
    qed
    ultimately have "mark_waiters (p # ps) s = mark_waiters ps s" "revive_waiters (p # ps) s = revive_waiters ps s"
      unfolding mark_waiters_def by simp_all
    then show ?thesis using Cons by simp
  qed
qed

lemma user_procs_set: "set user_procs = {8..<FS_NR_PROCS}" "distinct user_procs"
  by (simp_all only: user_procs_def set_upt distinct_upt) simp

lemma lock_revive_marks: "lock_revive s = Some (mark_waiters user_procs s)"
  unfolding lock_revive_def using user_procs_set by (intro revive_waiters_mark) auto

lemma mark_waiters_sel [simp]:
  "file_locks (mark_waiters ps s) = file_locks s" "nr_locks (mark_waiters ps s) = nr_locks s"
  "fp (mark_waiters ps s) = fp s" "fs_log (mark_waiters ps s) = fs_log s" "fs_who (mark_waiters ps s) = fs_who s"
  "fs_ans (mark_waiters ps s) = fs_ans s" "fp_pid (fprocs (mark_waiters ps s) p) = fp_pid (fprocs s p)"
  by (simp_all add: mark_waiters_def)


subsection \<open>The operation on the set of locked bytes\<close>

text \<open>A request that passes the checks: file, type and region.\<close>

definition lock_request :: "nat \<Rightarrow> int \<Rightarrow> fsstate \<Rightarrow> (nat \<times> int \<times> u32 \<times> u32) option" where
  "lock_request f req s = (
     let ((r, d), s0) = fs_do (Fs_datacopy_in (fs_who s) (m_buffer (fs_m_in s)) FLOCK_SIZE) s in
     if r \<noteq> OK then None
     else case filp_ino (filps s f) of None \<Rightarrow> None
       | Some ino \<Rightarrow> (case lock_args f req d s0 of Some (Inr (a, b)) \<Rightarrow> Some (ino, flock_type d, a, b) | _ \<Rightarrow> None))"

text \<open>
  What a lock request may answer, and what it does to the locked bytes and to the processes. The
  \<^verbatim>\<open>flock\<close> structure of the request is the answer to the first copy; \<open>answered\<close> states that a
  \<^verbatim>\<open>flock\<close> structure is copied back to the caller, and the status of that copy returned.
\<close>

definition flock_data :: "fsstate \<Rightarrow> bytes" where
  "flock_data s = snd (fs_ans s (length (fs_log s)))"

definition answered :: "fsstate \<Rightarrow> bytes \<Rightarrow> int \<Rightarrow> fsstate \<Rightarrow> bool" where
  "answered s x e s' \<longleftrightarrow> e = fst (fs_ans s (length (fs_log s) + 1)) \<and>
     fs_log s' = fs_log s @ [Fs_datacopy_in (fs_who s) (m_buffer (fs_m_in s)) FLOCK_SIZE,
       Fs_datacopy_out (fs_who s) (m_buffer (fs_m_in s)) x FLOCK_SIZE]"

text \<open>
  The rules: unlocking removes the bytes of the region. Only if the table is full when a lock would
  have to be split does it fail; then exactly the slots in front of that one have been treated. Setting
  enters the region, or finds the table full, or meets a conflicting lock and fails or suspends the
  caller. Testing reports a conflicting lock, with all its bytes, or that there is none.
\<close>

inductive lock_spec :: "int \<Rightarrow> fsstate \<Rightarrow> nat \<times> int \<times> u32 \<times> u32 \<Rightarrow> int \<Rightarrow> fsstate \<Rightarrow> bool" for req :: int and s :: fsstate where
  release: "req \<noteq> F_GETLK \<Longrightarrow> held s' = held s - span ino a b \<Longrightarrow> lock_spec req s (ino, F_UNLCK, a, b) OK s'"
| release_part: "req \<noteq> F_GETLK \<Longrightarrow> k < NR_LOCKS \<Longrightarrow> surrounds (file_locks s k) ino a b \<Longrightarrow>
    card (busy_slots s') = NR_LOCKS \<Longrightarrow>
    held s' = (held s - span ino a b) \<union> (\<Union>j\<in>{k..<NR_LOCKS}. region (file_locks s j)) \<Longrightarrow> fprocs s' = fprocs s \<Longrightarrow>
    lock_spec req s (ino, F_UNLCK, a, b) ENOLCK s'"
| grant: "req \<noteq> F_GETLK \<Longrightarrow> ty = F_RDLCK \<or> ty = F_WRLCK \<Longrightarrow> \<not> conflicts (held s) (fp_pid (fprocs s (fp s))) ty ino a b \<Longrightarrow>
    card (busy_slots s) < NR_LOCKS \<Longrightarrow>
    held s' = held s \<union> {(fp_pid (fprocs s (fp s)), ty, ino, x) | x. a \<le> x \<and> x \<le> b} \<Longrightarrow> fprocs s' = fprocs s \<Longrightarrow>
    lock_spec req s (ino, ty, a, b) OK s'"
| full: "req \<noteq> F_GETLK \<Longrightarrow> ty = F_RDLCK \<or> ty = F_WRLCK \<Longrightarrow> \<not> conflicts (held s) (fp_pid (fprocs s (fp s))) ty ino a b \<Longrightarrow>
    card (busy_slots s) = NR_LOCKS \<Longrightarrow> held s' = held s \<Longrightarrow> fprocs s' = fprocs s \<Longrightarrow>
    lock_spec req s (ino, ty, a, b) ENOLCK s'"
| refuse: "req = F_SETLK \<Longrightarrow> ty = F_RDLCK \<or> ty = F_WRLCK \<Longrightarrow> conflicts (held s) (fp_pid (fprocs s (fp s))) ty ino a b \<Longrightarrow>
    held s' = held s \<Longrightarrow> fprocs s' = fprocs s \<Longrightarrow> lock_spec req s (ino, ty, a, b) EAGAIN s'"
| wait: "req \<noteq> F_GETLK \<Longrightarrow> req \<noteq> F_SETLK \<Longrightarrow> ty = F_RDLCK \<or> ty = F_WRLCK \<Longrightarrow>
    conflicts (held s) (fp_pid (fprocs s (fp s))) ty ino a b \<Longrightarrow> held s' = held s \<Longrightarrow>
    waits s' (fp s) \<Longrightarrow> \<forall>q. q \<noteq> fp s \<longrightarrow> fprocs s' q = fprocs s q \<Longrightarrow>
    lock_spec req s (ino, ty, a, b) SUSPEND s'"
| test_held: "req = F_GETLK \<Longrightarrow> p \<noteq> fp_pid (fprocs s (fp s)) \<Longrightarrow> \<not> (t = F_RDLCK \<and> ty = F_RDLCK) \<Longrightarrow>
    u \<le> v \<Longrightarrow> u \<le> b \<Longrightarrow> a \<le> v \<Longrightarrow> {(p, t, ino, x) | x. u \<le> x \<and> x \<le> v} \<subseteq> held s \<Longrightarrow>
    answered s (put32 12 (word_of_int p) (put32 8 (v - u + 1) (put32 4 u (put16 2 0 (put16 0 (word_of_int t) (flock_data s)))))) e s' \<Longrightarrow>
    held s' = held s \<Longrightarrow> fprocs s' = fprocs s \<Longrightarrow> lock_spec req s (ino, ty, a, b) e s'"
| test_free: "req = F_GETLK \<Longrightarrow> \<not> conflicts (held s) (fp_pid (fprocs s (fp s))) ty ino a b \<Longrightarrow>
    answered s (put16 0 (word_of_int F_UNLCK) (flock_data s)) e s' \<Longrightarrow>
    held s' = held s \<Longrightarrow> fprocs s' = fprocs s \<Longrightarrow> lock_spec req s (ino, ty, a, b) e s'"

lemma lock_args_ok:
  assumes "lock_args f req d s = Some (Inr (a, b))"
  shows "a \<le> b" "flock_type d = F_UNLCK \<or> flock_type d = F_RDLCK \<or> flock_type d = F_WRLCK"
    "req = F_GETLK \<Longrightarrow> flock_type d \<noteq> F_UNLCK"
proof -
  have i: "(if A then Inl e else X) = Inr y \<longleftrightarrow> \<not> A \<and> X = Inr y" for A e and X :: "int + u32 \<times> u32" and y by simp
  note u = assms [unfolded lock_args_def Let_def bind_Some_iff option.inject i sum.inject prod.inject]
  show "a \<le> b" using u by (elim exE conjE) (simp only: not_less)
  show "flock_type d = F_UNLCK \<or> flock_type d = F_RDLCK \<or> flock_type d = F_WRLCK" using u by blast
  show "req = F_GETLK \<Longrightarrow> flock_type d \<noteq> F_UNLCK" using u by blast
qed

text \<open>A request is granted: the new region is entered.\<close>

lemma grant_lock:
  fixes pid :: int and ino :: nat
  assumes t: "table_ok s" and ty: "ty = F_RDLCK \<or> ty = F_WRLCK" and ab: "a \<le> b"
    and e: "e < NR_LOCKS" "lock_type (file_locks s e) = 0"
  defines "s' \<equiv> (upd_lock e (\<lambda>_. \<lparr>lock_type = ty, lock_pid = pid, lock_inode = Some ino, lock_first = a, lock_last = b\<rparr>) s)
    \<lparr>nr_locks := nr_locks s + 1\<rparr>"
  shows "table_ok s'" "held s' = held s \<union> {(pid, ty, ino, x) | x. a \<le> x \<and> x \<le> b}"
proof -
  let ?l = "\<lparr>lock_type = ty, lock_pid = pid, lock_inode = Some ino, lock_first = a, lock_last = b\<rparr>"
  have s': "s' = s\<lparr>file_locks := (file_locks s)(e := ?l), nr_locks := nr_locks s + 1\<rparr>"
    by (simp add: s'_def upd_lock_def)
  have "slot_ok ?l" "lock_type ?l \<noteq> 0" using ty ab by (auto simp: slot_ok_def)
  note k = table_take [OF t e this]
  show "table_ok s'" unfolding s' by (rule k(1))
  have "region ?l = {(pid, ty, ino, x) | x. a \<le> x \<and> x \<le> b}" using ty by (auto simp: region_def)
  then show "held s' = held s \<union> {(pid, ty, ino, x) | x. a \<le> x \<and> x \<le> b}" unfolding s' using k(2) by simp
qed

lemma grant_compatible:
  assumes "compatible H" "\<not> conflicts H pid ty ino a b" "ty = F_RDLCK \<or> ty = F_WRLCK"
  shows "compatible (H \<union> {(pid, ty, ino, x) | x. a \<le> x \<and> x \<le> b})"
  using assms unfolding compatible_def conflicts_def by blast

text \<open>A request that passes the checks: the scan of the table and what follows it.\<close>

lemma lock_op_request_data:
  assumes r: "lock_request f req s = Some (ino, ty, a, b)"
  obtains s0 d where "fs_do (Fs_datacopy_in (fs_who s) (m_buffer (fs_m_in s)) FLOCK_SIZE) s = ((OK, d), s0)"
    "flock_type d = ty" "a \<le> b" "ty = F_UNLCK \<or> ty = F_RDLCK \<or> ty = F_WRLCK" "req = F_GETLK \<longrightarrow> ty \<noteq> F_UNLCK"
    "file_locks s0 = file_locks s" "nr_locks s0 = nr_locks s" "fp s0 = fp s" "fprocs s0 = fprocs s" "reviving s0 = reviving s"
    "d = flock_data s" "s0 = s\<lparr>fs_log := fs_log s @ [Fs_datacopy_in (fs_who s) (m_buffer (fs_m_in s)) FLOCK_SIZE]\<rparr>"
    "lock_op f req s = do { res \<leftarrow> lock_scan ino req ty a b None False lock_nrs s0;
      lock_finish req (m_buffer (fs_m_in s)) d ino a b res }"
proof -
  define s0 where "s0 = snd (fs_do (Fs_datacopy_in (fs_who s) (m_buffer (fs_m_in s)) FLOCK_SIZE) s)"
  define d where "d = snd (fs_ans s (length (fs_log s)))"
  have q: "fst (fs_ans s (length (fs_log s))) = OK" "filp_ino (filps s f) = Some ino"
    "lock_args f req d s0 = Some (Inr (a, b))" "ty = flock_type d"
    using r by (auto simp: lock_request_def fs_do_def s0_def d_def Let_def split: if_splits option.splits sum.splits prod.splits)
  have s0: "file_locks s0 = file_locks s" "nr_locks s0 = nr_locks s" "fp s0 = fp s" "fprocs s0 = fprocs s" "reviving s0 = reviving s"
    "filps s0 = filps s"
    by (simp_all add: s0_def fs_do_def)
  have ds: "fs_do (Fs_datacopy_in (fs_who s) (m_buffer (fs_m_in s)) FLOCK_SIZE) s = ((OK, d), s0)"
    using q(1) by (simp add: fs_do_def s0_def d_def prod_eq_iff)
  show ?thesis
  proof (rule that [OF ds q(4) [symmetric]])
    show "a \<le> b" "ty = F_UNLCK \<or> ty = F_RDLCK \<or> ty = F_WRLCK" "req = F_GETLK \<longrightarrow> ty \<noteq> F_UNLCK"
      using lock_args_ok [OF q(3)] unfolding q(4) by blast+
    show "d = flock_data s" by (simp add: d_def flock_data_def)
    show "s0 = s\<lparr>fs_log := fs_log s @ [Fs_datacopy_in (fs_who s) (m_buffer (fs_m_in s)) FLOCK_SIZE]\<rparr>"
      by (simp add: s0_def fs_do_def)
  qed (fact s0, fact s0, fact s0, fact s0, fact s0, simp add: lock_op_def Let_def ds q(2,3,4) s0(6))
qed

lemma lock_op_request:
  assumes "lock_request f req s = Some (ino, ty, a, b)"
  obtains s0 d where "fs_do (Fs_datacopy_in (fs_who s) (m_buffer (fs_m_in s)) FLOCK_SIZE) s = ((OK, d), s0)"
    "flock_type d = ty" "a \<le> b" "ty = F_UNLCK \<or> ty = F_RDLCK \<or> ty = F_WRLCK" "req = F_GETLK \<longrightarrow> ty \<noteq> F_UNLCK"
    "file_locks s0 = file_locks s" "nr_locks s0 = nr_locks s" "fp s0 = fp s" "fprocs s0 = fprocs s" "reviving s0 = reviving s"
    "lock_op f req s = do { res \<leftarrow> lock_scan ino req ty a b None False lock_nrs s0;
      lock_finish req (m_buffer (fs_m_in s)) d ino a b res }"
  using assms by (rule lock_op_request_data) (rule that)

lemma upt_split:
  assumes "[0..<n] = us @ k # vs"
  shows "us = [0..<k]" "k < n"
proof -
  have len: "length us < n" using arg_cong [OF assms, of length] by simp
  have "[0..<n] ! length us = k" unfolding assms by simp
  with len have k: "k = length us" by simp
  have "take (length us) [0..<n] = us" unfolding assms by simp
  with len k show "us = [0..<k]" "k < n" by simp_all
qed

lemma lock_op_unlock:
  assumes t: "table_ok s" and r: "lock_request f req s = Some (ino, F_UNLCK, a, b)"
  obtains (ok) u s0 s1 where "lock_op f req s = Some (OK, if u then mark_waiters user_procs s1 else s1)"
      "unlocked ino a b s0 s1" "held s1 = held s - span ino a b" "\<not> u \<Longrightarrow> held s1 = held s" "fprocs s1 = fprocs s" "reviving s1 = reviving s"
    | (full) s0 s1 k where "lock_op f req s = Some (ENOLCK, s1)" "unlocked ino a b s0 s1" "held s0 = held s" "fprocs s1 = fprocs s"
      "k < NR_LOCKS" "surrounds (file_locks s k) ino a b" "card (busy_slots s1) = NR_LOCKS"
      "held s1 = (held s - span ino a b) \<union> (\<Union>j\<in>{k..<NR_LOCKS}. region (file_locks s j))"
proof -
  from r obtain s0 d where fd: "flock_type d = F_UNLCK" and D: "a \<le> b" "req = F_GETLK \<longrightarrow> False" "file_locks s0 = file_locks s" "nr_locks s0 = nr_locks s"
    "fprocs s0 = fprocs s" "reviving s0 = reviving s"
    and op: "lock_op f req s = do { res \<leftarrow> lock_scan ino req F_UNLCK a b None False lock_nrs s0;
      lock_finish req (m_buffer (fs_m_in s)) d ino a b res }"
    by (rule lock_op_request) blast
  note c0 = table_cong [OF D(3,4)]
  have t0: "table_ok s0" using t c0 by simp
  have g: "req \<noteq> F_GETLK" using D(2) by simp
  have "set lock_nrs \<subseteq> {..<NR_LOCKS}" by simp
  from unlock_scan [OF t0 g D(1) this lock_nrs_set(2), of ino None False] show ?thesis
  proof (elim disjE exE conjE)
    fix sl' u s1 assume u: "lock_scan ino req F_UNLCK a b None False lock_nrs s0 = Some (Scan_end sl' u s1)"
      "unlocked ino a b s0 s1" "\<not> u \<longrightarrow> s1 = s0" "\<forall>i\<in>set lock_nrs. region (file_locks s1 i) \<inter> span ino a b = {}"
    have "held s1 \<inter> span ino a b = {}" using u(4) by (auto simp: held_def)
    then have "held s1 = held s - span ino a b" using u(2) c0(1) unfolding unlocked_def by blast
    moreover have "lock_op f req s = Some (OK, if u then mark_waiters user_procs s1 else s1)"
      unfolding op u(1) using g by (simp add: lock_finish_def fd lock_revive_marks)
    moreover have "fprocs s1 = fprocs s" "reviving s1 = reviving s"
      using u(2) D(5,6) by (auto simp: unlocked_def dest: locks_onlyD)
    ultimately show ?thesis using ok u(2,3) c0(1) by blast
  next
    fix us k vs s1 assume u: "lock_scan ino req F_UNLCK a b None False lock_nrs s0 = Some (Scan_return ENOLCK s1)" "unlocked ino a b s0 s1"
      "lock_nrs = us @ k # vs" "surrounds (file_locks s0 k) ino a b" "nr_locks s1 = int NR_LOCKS" "held s1 = held_but ino a b (set us) s0"
    note sp = upt_split [OF u(3) [unfolded lock_nrs_def]]
    then have us: "{..<NR_LOCKS} - set us = {k..<NR_LOCKS}" by auto
    have "lock_op f req s = Some (ENOLCK, s1)" unfolding op u(1) by (simp add: lock_finish_def)
    moreover have "held s1 = (held s - span ino a b) \<union> (\<Union>j\<in>{k..<NR_LOCKS}. region (file_locks s j))"
      using u(6) unfolding held_but_def us c0(1) D(3) .
    moreover have "card (busy_slots s1) = NR_LOCKS" using u(2,5) by (simp add: unlocked_def table_ok_def)
    moreover have "fprocs s1 = fprocs s" using u(2) D(5) by (auto simp: unlocked_def dest: locks_onlyD)
    ultimately show ?thesis using full u(2,4) c0(1) sp D(3) by simp
  qed
qed

text \<open>A lock that stands in the way.\<close>

lemma blocking_region:
  assumes t: "table_ok s" and i: "i < NR_LOCKS" "blocking ino ty a b s i" and ty: "ty \<noteq> F_UNLCK"
  defines "l \<equiv> file_locks s i"
  shows "lock_pid l \<noteq> fp_pid (fprocs s (fp s))" "\<not> (lock_type l = F_RDLCK \<and> ty = F_RDLCK)" "lock_first l \<le> lock_last l"
    "lock_first l \<le> b" "a \<le> lock_last l"
    "{(lock_pid l, lock_type l, ino, x) | x. lock_first l \<le> x \<and> x \<le> lock_last l} \<subseteq> held s"
proof -
  have k: "lock_type l \<noteq> 0" "lock_inode l = Some ino" "a \<le> lock_last l" "lock_first l \<le> b"
    "lock_pid l \<noteq> fp_pid (fprocs s (fp s))" "\<not> (ty = F_RDLCK \<and> lock_type l = F_RDLCK)"
    using i(2) ty by (auto simp: blocking_def skipped_def not_less l_def)
  then show "lock_pid l \<noteq> fp_pid (fprocs s (fp s))" "\<not> (lock_type l = F_RDLCK \<and> ty = F_RDLCK)"
    "lock_first l \<le> b" "a \<le> lock_last l" by auto
  show "lock_first l \<le> lock_last l" using t i(1) k(1) by (simp add: table_ok_def slot_ok_def l_def)
  show "{(lock_pid l, lock_type l, ino, x) | x. lock_first l \<le> x \<and> x \<le> lock_last l} \<subseteq> held s"
    using region_in_held [OF i(1), of s] k(1,2) by (auto simp: region_def l_def)
qed

text \<open>\<^verbatim>\<open>F_GETLK\<close>.\<close>

lemma lock_op_test:
  assumes l: "locks_ok s" and r: "lock_request F_id F_GETLK s = Some (ino, ty, a, b)"
  shows "\<exists>e s'. lock_op F_id F_GETLK s = Some (e, s') \<and> locks_ok s' \<and> lock_spec F_GETLK s (ino, ty, a, b) e s'"
proof -
  from r obtain s0 d where ab: "a \<le> b" and A: "ty = F_UNLCK \<or> ty = F_RDLCK \<or> ty = F_WRLCK" "F_GETLK = F_GETLK \<longrightarrow> ty \<noteq> F_UNLCK"
    and s0: "file_locks s0 = file_locks s" "nr_locks s0 = nr_locks s" "fp s0 = fp s" "fprocs s0 = fprocs s"
    and d: "d = flock_data s" "s0 = s\<lparr>fs_log := fs_log s @ [Fs_datacopy_in (fs_who s) (m_buffer (fs_m_in s)) FLOCK_SIZE]\<rparr>"
    and op: "lock_op F_id F_GETLK s = do { res \<leftarrow> lock_scan ino F_GETLK ty a b None False lock_nrs s0;
      lock_finish F_GETLK (m_buffer (fs_m_in s)) d ino a b res }"
    by (rule lock_op_request_data) blast
  note c0 = table_cong [OF s0(1,2)]
  have t: "table_ok s0" using l c0 by (simp add: locks_ok_def)
  have ty: "ty = F_RDLCK \<or> ty = F_WRLCK" "ty \<noteq> F_UNLCK" using A by auto
  note sc = lock_scan_set [OF ty(1), of ino F_GETLK a b None False lock_nrs s0]
  define out where "out x = s0\<lparr>fs_log := fs_log s0 @ [Fs_datacopy_out (fs_who s) (m_buffer (fs_m_in s)) x FLOCK_SIZE]\<rparr>" for x
  let ?e = "fst (fs_ans s (length (fs_log s) + 1))"
  have an: "answered s x ?e (out x)" for x by (simp add: answered_def out_def d(2))
  have k: "held (out x) = held s" "fprocs (out x) = fprocs s" "locks_ok (out x)" for x
    using table_cong [of s "out x"] l by (simp_all add: out_def d(2))
  show ?thesis
  proof (cases "find (blocking ino ty a b s0) lock_nrs")
    case (Some i)
    let ?l = "file_locks s i"
    from find_SomeD [OF Some] have i: "i < NR_LOCKS" "blocking ino ty a b s0 i" by simp_all
    note br = blocking_region [OF t i ty(2), unfolded s0 c0(1)]
    have "lock_op F_id F_GETLK s = Some (?e, out (flock_of ?l d))"
      unfolding op sc Some by (simp add: lock_finish_def fs_do_def out_def s0(1) d(2) split: prod.split)
    moreover have "lock_spec F_GETLK s (ino, ty, a, b) ?e (out (flock_of ?l d))"
      using an [of "flock_of ?l d"] unfolding flock_of_def d(1)
      by (rule lock_spec.test_held [OF refl br(1-6)]) (fact k(1,2))+
    ultimately show ?thesis using k(3) by blast
  next
    case None
    have "\<not> conflicts (held s) (fp_pid (fprocs s (fp s))) ty ino a b"
      using blocking_conflicts [OF t ab ty(2), of ino] c0(1) s0(3,4) None by (auto simp: find_None_iff lessThan_iff)
    moreover have "lock_op F_id F_GETLK s = Some (?e, out (put16 0 (word_of_int F_UNLCK) d))"
      unfolding op sc None by (simp add: lock_finish_def fs_do_def out_def d(2) split: prod.split)
    moreover have "lock_spec F_GETLK s (ino, ty, a, b) ?e (out (put16 0 (word_of_int F_UNLCK) d))"
      using an [of "put16 0 (word_of_int F_UNLCK) d"] unfolding d(1)
      by (rule lock_spec.test_free [OF refl calculation(1)]) (fact k(1,2))+
    ultimately show ?thesis using k(3) by blast
  qed
qed

text \<open>\<^verbatim>\<open>F_SETLK\<close> and \<^verbatim>\<open>F_SETLKW\<close> of a read or write lock.\<close>

lemma lock_op_set:
  assumes l: "locks_ok s" and r: "lock_request f req s = Some (ino, ty, a, b)"
    and g: "req \<noteq> F_GETLK" and ty: "ty = F_RDLCK \<or> ty = F_WRLCK"
  shows "\<exists>e s'. lock_op f req s = Some (e, s') \<and> locks_ok s' \<and> lock_spec req s (ino, ty, a, b) e s'"
proof -
  from r obtain s0 d where fd: "flock_type d = ty" and ab: "a \<le> b"
    and s0: "file_locks s0 = file_locks s" "nr_locks s0 = nr_locks s" "fp s0 = fp s" "fprocs s0 = fprocs s"
    and op: "lock_op f req s = do { res \<leftarrow> lock_scan ino req ty a b None False lock_nrs s0;
      lock_finish req (m_buffer (fs_m_in s)) d ino a b res }"
    by (rule lock_op_request) blast
  note c0 = table_cong [OF s0(1,2)]
  let ?pid = "fp_pid (fprocs s (fp s))"
  have t: "table_ok s0" "table_ok s" and H: "compatible (held s)" using l c0 by (simp_all add: locks_ok_def)
  have n: "card (busy_slots s) = nat (nr_locks s0)" using t c0(4) by (simp add: table_ok_def)
  have tu: "ty \<noteq> F_UNLCK" using ty by auto
  note sc = lock_scan_set [OF ty, of ino req a b None False lock_nrs s0]
  have cf: "conflicts (held s) ?pid ty ino a b \<longleftrightarrow> find (blocking ino ty a b s0) lock_nrs \<noteq> None"
    using blocking_conflicts [OF t(1) ab tu, of ino] c0(1) s0(3,4) by (auto simp: find_None_iff lessThan_iff)
  show ?thesis
  proof (cases "find (blocking ino ty a b s0) lock_nrs")
    case (Some i)
    then have c: "conflicts (held s) ?pid ty ino a b" using cf by simp
    have op': "lock_op f req s = Some (if req = F_SETLK then (EAGAIN, s0) else (SUSPEND, suspend XLOCK s0))"
      unfolding op sc Some using g by (simp add: lock_finish_def)
    have e: "file_locks (suspend XLOCK s0) = file_locks s" "nr_locks (suspend XLOCK s0) = nr_locks s"
      using s0 by (simp_all add: suspend_def Let_def upd_fproc_def)
    have w: "waits (suspend XLOCK s0) (fp s)" "\<forall>q. q \<noteq> fp s \<longrightarrow> fprocs (suspend XLOCK s0) q = fprocs s q"
      using s0 by (simp_all add: suspend_def Let_def upd_fproc_def waits_def schar_def)
    show ?thesis
    proof (cases "req = F_SETLK")
      case True
      with op' lock_spec.refuse [OF True ty c c0(1) s0(4)] c0(3) l show ?thesis by auto
    next
      case False
      with op' lock_spec.wait [OF g False ty c table_cong(1) [OF e] w] table_cong(3) [OF e] l show ?thesis by auto
    qed
  next
    case None
    then have nc: "\<not> conflicts (held s) ?pid ty ino a b" using cf by simp
    show ?thesis
    proof (cases "nr_locks s0 = int NR_LOCKS")
      case True
      then have "card (busy_slots s0) = card {..<NR_LOCKS}" using t by (simp add: table_ok_def)
      then have "busy_slots s0 = {..<NR_LOCKS}" by (intro card_subset_eq) (auto simp: busy_slots_def)
      then have "find (\<lambda>i. lock_type (file_locks s0 i) = 0) lock_nrs = None" by (auto simp: find_None_iff busy_slots_def)
      then have "lock_op f req s = Some (ENOLCK, s0)" unfolding op sc None using g tu by (simp add: lock_finish_def fd)
      with lock_spec.full [OF g ty nc _ c0(1) s0(4)] True n c0(3) l show ?thesis by auto
    next
      case nf: False
      from find_free_slot [OF t(1) nf] obtain e where e: "e < NR_LOCKS" "lock_type (file_locks s0 e) = 0"
        "find (\<lambda>j. lock_type (file_locks s0 j) = 0) lock_nrs = Some e" by blast
      note k = grant_lock [OF t(1) ty ab e(1,2), of ?pid ino]
      have "nat (nr_locks s0) < NR_LOCKS" using t nf busy_le [of s0] by (simp add: table_ok_def)
      then have lt: "card (busy_slots s) < NR_LOCKS" using n by simp
      let ?s = "(upd_lock e (\<lambda>_. \<lparr>lock_type = ty, lock_pid = ?pid, lock_inode = Some ino, lock_first = a, lock_last = b\<rparr>) s0)
        \<lparr>nr_locks := nr_locks s0 + 1\<rparr>"
      have "lock_op f req s = Some (OK, ?s)" unfolding op sc None using g tu e(3) s0(3,4) by (simp add: lock_finish_def fd)
      moreover have "locks_ok ?s" using k grant_compatible [OF H nc ty] unfolding locks_ok_def c0(1) by (simp only:)
      moreover have "fprocs ?s = fprocs s" using s0(4) by simp
      ultimately show ?thesis using lock_spec.grant [OF g ty nc lt k(2) [unfolded c0(1)]] by blast
    qed
  qed
qed

lemma lock_op_spec:
  assumes l: "locks_ok s" and r: "lock_request f req s = Some (ino, ty, a, b)"
  shows "\<exists>e s'. lock_op f req s = Some (e, s') \<and> locks_ok s' \<and> lock_spec req s (ino, ty, a, b) e s'"
proof -
  have A: "(ty = F_UNLCK \<or> ty = F_RDLCK \<or> ty = F_WRLCK) \<and> (req = F_GETLK \<longrightarrow> ty \<noteq> F_UNLCK)"
    by (rule lock_op_request [OF r]) (intro conjI)
  consider (get) "req = F_GETLK" | (set) "req \<noteq> F_GETLK" "ty = F_RDLCK \<or> ty = F_WRLCK" | (release) "req \<noteq> F_GETLK" "ty = F_UNLCK"
    using A by blast
  then show ?thesis
  proof cases
    case get
    from lock_op_test [OF l r [unfolded get]] show ?thesis unfolding get .
  next
    case set
    from lock_op_set [OF l r set] show ?thesis .
  next
    case release
    have t: "table_ok s" and H: "compatible (held s)" using l by (simp_all add: locks_ok_def)
    from t r [unfolded release(2)] show ?thesis
    proof (cases rule: lock_op_unlock)
      case (ok u s0 s1)
      let ?s = "if u then mark_waiters user_procs s1 else s1"
      have e: "file_locks ?s = file_locks s1" "nr_locks ?s = nr_locks s1" by simp_all
      have h: "held ?s = held s - span ino a b" using ok(3) table_cong(1) [OF e] by simp
      have "locks_ok ?s" using ok(2) compatible_mono [OF H, of "held ?s"] table_cong(2) [OF e] h
        by (simp add: locks_ok_def unlocked_def)
      with ok(1) lock_spec.release [OF release(1) h] release(2) show ?thesis by blast
    next
      case (full s0 s1 k)
      then have "held s1 \<subseteq> held s" by (simp add: unlocked_def)
      then have "locks_ok s1" using full(2) compatible_mono [OF H] by (simp add: locks_ok_def unlocked_def)
      with full(1) lock_spec.release_part [OF release(1) full(5-8,4)] release(2) show ?thesis by blast
    qed
  qed
qed

text \<open>Requests that fail the checks change nothing in the table.\<close>

lemma lock_op_refused:
  assumes "lock_request f req s = None" "lock_op f req s = Some (e, s')"
  shows "file_locks s' = file_locks s" "nr_locks s' = nr_locks s"
proof -
  let ?c = "Fs_datacopy_in (fs_who s) (m_buffer (fs_m_in s)) FLOCK_SIZE"
  obtain r d s0 where ds: "fs_do ?c s = ((r, d), s0)" by (metis prod.exhaust)
  then have s0: "file_locks s0 = file_locks s" "nr_locks s0 = nr_locks s" "filps s0 = filps s" by (auto simp: fs_do_def)
  have "s' = s0"
  proof (cases "r = OK")
    case False
    then show ?thesis using assms(2) by (simp add: lock_op_def ds)
  next
    case True
    from assms(2) obtain a where a: "lock_args f req d s0 = Some a" by (auto simp: lock_op_def Let_def ds True)
    then obtain ino where "filp_ino (filps s f) = Some ino" using s0(3) by (auto simp: lock_args_def)
    then obtain x where "a = Inl x" using assms(1) a True by (cases a) (auto simp: lock_request_def ds)
    then show ?thesis using assms(2) a True by (simp add: lock_op_def Let_def ds)
  qed
  then show "file_locks s' = file_locks s" "nr_locks s' = nr_locks s" using s0 by simp_all
qed

lemma drop_locks_ok:
  assumes "table_ok s" "set is \<subseteq> {..<NR_LOCKS}"
  shows "table_ok (drop_locks rip is s) \<and> held (drop_locks rip is s) \<subseteq> held s"
  using assms
proof (induction "is" arbitrary: s)
  case (Cons i "is")
  show ?case
  proof (cases "lock_type (file_locks s i) \<noteq> 0 \<and> lock_inode (file_locks s i) = Some rip \<and> lock_pid (file_locks s i) = fp_pid (fprocs s (fp s))")
    case True
    have i: "i < NR_LOCKS" using Cons.prems(2) by simp
    note g = table_give [OF Cons.prems(1) i conjunct1 [OF True]]
    let ?s = "(upd_lock i (\<lambda>l. l\<lparr>lock_type := 0\<rparr>) s)\<lparr>nr_locks := nr_locks s - 1\<rparr>"
    have "held ?s \<subseteq> held s" unfolding g(2) by (auto simp: held_def)
    moreover have "drop_locks rip (i # is) s = drop_locks rip is ?s" using True by (simp add: Let_def)
    ultimately show ?thesis using Cons.IH [OF g(1)] Cons.prems(2) by auto
  next
    case False
    then have "drop_locks rip (i # is) s = drop_locks rip is s" by (auto simp: Let_def)
    then show ?thesis using Cons by simp
  qed
qed simp

lemma close_locks_ok:
  assumes "locks_ok s" "close_locks rip s = Some s'"
  shows "locks_ok s'"
proof -
  have "locks_ok (drop_locks rip lock_nrs s)"
    using drop_locks_ok [of s lock_nrs rip] assms(1) by (auto simp: locks_ok_def intro: compatible_mono)
  moreover have "locks_ok (mark_waiters ps t) = locks_ok t" for ps t by (rule table_cong) simp_all
  ultimately show ?thesis using assms by (auto simp: close_locks_def Let_def lock_revive_marks split: if_splits)
qed

subsection \<open>All states the table can reach\<close>

text \<open>
  The table starts empty; lock requests of any process and the closing of files change it, in any
  order, and between them everything else may change.
\<close>

inductive lock_reach :: "fsstate \<Rightarrow> bool" where
  start: "\<forall>i<NR_LOCKS. lock_type (file_locks s i) = 0 \<Longrightarrow> nr_locks s = 0 \<Longrightarrow> lock_reach s"
| other: "lock_reach s \<Longrightarrow> file_locks s' = file_locks s \<Longrightarrow> nr_locks s' = nr_locks s \<Longrightarrow> lock_reach s'"
| request: "lock_reach s \<Longrightarrow> lock_op f req s = Some (e, s') \<Longrightarrow> lock_reach s'"
| closing: "lock_reach s \<Longrightarrow> close_locks rip s = Some s' \<Longrightarrow> lock_reach s'"

lemma lock_reach_ok: "lock_reach s \<Longrightarrow> locks_ok s"
proof (induction rule: lock_reach.induct)
  case (start s)
  then have "held s = {}" "busy_slots s = {}" by (auto simp: held_def region_def busy_slots_def)
  with start show ?case by (simp add: locks_ok_def table_ok_def compatible_def slot_ok_def)
next
  case (other s s')
  then show ?case using table_cong by metis
next
  case (request s f req e s')
  show ?case
  proof (cases "lock_request f req s")
    case None
    from lock_op_refused [OF None request(2)] request(3) show ?thesis using table_cong by metis
  next
    case (Some q)
    obtain ino ty a b where q: "q = (ino, ty, a, b)" by (cases q) auto
    from lock_op_spec [OF request(3) Some [unfolded q]] request(2) show ?thesis by auto
  qed
next
  case (closing s rip s')
  then show ?case by (blast intro: close_locks_ok)
qed

subsection \<open>Replay of suspended calls\<close>

type_synonym call = "int \<times> int \<times> int \<times> u32 \<times> int"

text \<open>The next \<open>n\<close> pieces of work: process, call number, file descriptor, buffer and number of bytes.\<close>

fun next_calls :: "nat \<Rightarrow> fsstate \<Rightarrow> (call list \<times> fsstate) option" where
  "next_calls 0 s = Some ([], s)"
| "next_calls (Suc n) s = do {
     s1 \<leftarrow> get_work s;
     (cs, s2) \<leftarrow> next_calls n s1;
     Some ((fs_who s1, fs_call_nr s1, m_fd (fs_m_in s1), m_buffer (fs_m_in s1), m_nbytes (fs_m_in s1)) # cs, s2)
   }"

definition saved_call :: "fsstate \<Rightarrow> nat \<Rightarrow> call" where
  "saved_call s p = (let rp = fprocs s p in
     (int p, take_bit 8 (fp_fd rp), take_bit 8 (drop_bit 8 (fp_fd rp)), fp_buffer rp, slong (fp_nbytes rp)))"

definition to_revive :: "fsstate \<Rightarrow> nat list" where
  "to_revive s = filter (\<lambda>p. fp_revived (fprocs s p)) [0..<FS_NR_PROCS]"

lemma find_filter: "find P xs = (case filter P xs of [] \<Rightarrow> None | x # _ \<Rightarrow> Some x)"
  by (induction xs) auto

lemma filter_tail: "distinct xs \<Longrightarrow> filter P xs = y # ys \<Longrightarrow> filter (\<lambda>x. x \<noteq> y \<and> P x) xs = ys"
proof -
  assume "distinct xs" "filter P xs = y # ys"
  then have "distinct (y # ys)" by (metis distinct_filter)
  then have "filter (\<lambda>x. x \<noteq> y) (y # ys) = ys" by (auto simp: filter_id_conv)
  moreover have "filter (\<lambda>x. x \<noteq> y \<and> P x) xs = filter (\<lambda>x. x \<noteq> y) (filter P xs)" by (simp add: conj_commute)
  ultimately show ?thesis using \<open>filter P xs = y # ys\<close> by simp
qed

lemma get_work_revives:
  assumes "to_revive s = p # ps" "reviving s = int (length (to_revive s))"
  shows "\<exists>s1. get_work s = Some s1 \<and> to_revive s1 = ps \<and> reviving s1 = int (length ps) \<and>
    (fs_who s1, fs_call_nr s1, m_fd (fs_m_in s1), m_buffer (fs_m_in s1), m_nbytes (fs_m_in s1)) = saved_call s p \<and>
    (\<forall>q. q \<noteq> p \<longrightarrow> fprocs s1 q = fprocs s q) \<and> \<not> fp_suspended (fprocs s1 p)"
proof -
  define s1 where "s1 = (upd_fproc p (\<lambda>q. q\<lparr>fp_suspended := False, fp_revived := False\<rparr>) s)
       \<lparr>fs_who := int p, fs_call_nr := take_bit 8 (fp_fd (fprocs s p)),
        fs_m_in := (fs_m_in s)\<lparr>m_w0 := word_of_int (take_bit 8 (drop_bit 8 (fp_fd (fprocs s p)))),
          m_w3 := fp_buffer (fprocs s p), m_w1 := word_of_int (fp_nbytes (fprocs s p))\<rparr>,
        reviving := reviving s - 1\<rparr>"
  have f: "find (\<lambda>q. fp_revived (fprocs s q)) [0..<FS_NR_PROCS] = Some p"
    using assms(1) by (simp add: find_filter to_revive_def)
  have g: "get_work s = Some s1" using assms f by (simp add: get_work_def s1_def Let_def)
  have P: "fp_revived (fprocs s1 q) \<longleftrightarrow> q \<noteq> p \<and> fp_revived (fprocs s q)" for q by (simp add: s1_def upd_fproc_def)
  have "to_revive s1 = ps"
    unfolding to_revive_def P using assms(1) by (intro filter_tail) (simp_all add: to_revive_def)
  moreover have "sint (word_of_int (take_bit 8 x) :: u32) = take_bit 8 x" for x :: int
  proof -
    have "- (2 ^ 31) \<le> take_bit 8 x" by (rule order_trans [OF _ take_bit_nonnegative]) simp
    moreover have "take_bit 8 x < 2 ^ 31" by (rule less_trans [OF take_bit_int_less_exp]) simp
    moreover note slong_id
    ultimately have "slong (take_bit 8 x) = take_bit 8 x" by blast
    then show ?thesis by (simp only: slong_def)
  qed
  then have "(fs_who s1, fs_call_nr s1, m_fd (fs_m_in s1), m_buffer (fs_m_in s1), m_nbytes (fs_m_in s1)) = saved_call s p"
    by (simp add: s1_def saved_call_def Let_def m_fd_def m_buffer_def m_nbytes_def slong_def)
  moreover have "reviving s1 = int (length ps)" using assms by (simp add: s1_def)
  moreover have "\<forall>q. q \<noteq> p \<longrightarrow> fprocs s1 q = fprocs s q" "\<not> fp_suspended (fprocs s1 p)" by (simp_all add: s1_def upd_fproc_def)
  ultimately show ?thesis using g by blast
qed

lemma next_calls_revive:
  assumes "reviving s = int (length (to_revive s))"
  shows "\<exists>s'. next_calls (length (to_revive s)) s = Some (map (saved_call s) (to_revive s), s') \<and> to_revive s' = [] \<and>
    reviving s' = 0 \<and> (\<forall>p. if p \<in> set (to_revive s) then \<not> fp_suspended (fprocs s' p) else fprocs s' p = fprocs s p)"
  using assms
proof (induction "to_revive s" arbitrary: s)
  case Nil
  then have "to_revive s = []" by simp
  with Nil.prems show ?case by simp
next
  case (Cons p ps)
  from get_work_revives [OF Cons.hyps(2) [symmetric] Cons.prems] obtain s1 where
    s1: "get_work s = Some s1" "to_revive s1 = ps" "reviving s1 = int (length ps)"
      "(fs_who s1, fs_call_nr s1, m_fd (fs_m_in s1), m_buffer (fs_m_in s1), m_nbytes (fs_m_in s1)) = saved_call s p"
      "\<forall>q. q \<noteq> p \<longrightarrow> fprocs s1 q = fprocs s q" "\<not> fp_suspended (fprocs s1 p)" by blast
  from Cons.hyps(1) [OF s1(2) [symmetric]] s1(2,3) obtain s' where
    s': "next_calls (length ps) s1 = Some (map (saved_call s1) ps, s')" "to_revive s' = []" "reviving s' = 0"
      "\<forall>q. if q \<in> set ps then \<not> fp_suspended (fprocs s' q) else fprocs s' q = fprocs s1 q" by auto
  have d: "distinct (p # ps)" unfolding Cons.hyps(2) by (simp add: to_revive_def)
  then have m: "map (saved_call s1) ps = map (saved_call s) ps" using s1(5) by (auto simp: saved_call_def)
  have "next_calls (Suc (length ps)) s = Some (saved_call s p # map (saved_call s) ps, s')"
    using s1(1,4) s'(1) m by simp
  moreover have "\<forall>q. if q \<in> set (p # ps) then \<not> fp_suspended (fprocs s' q) else fprocs s' q = fprocs s q"
    using s'(4) s1(5,6) d by (metis distinct.simps(2) set_ConsD list.set_intros)
  ultimately show ?case unfolding Cons.hyps(2) [symmetric] using s'(2,3) by auto
qed


subsection \<open>Properties\<close>

text \<open>
  C6. Lock requests act on the set of locked bytes as locks should, errors included: whatever the table
  looks like, a request that passes the checks returns, keeps the table consistent, and does what
  \<open>lock_spec\<close> says to the set of (process, type, file, byte), to the processes and to the answer.
  Unlocking removes the bytes of the region (of all processes), and fails with \<^verbatim>\<open>ENOLCK\<close> only when a lock
  has to be split and the table is full, the locks in the slots in front of it having been treated.
  Setting adds the bytes for the caller, or is \<^verbatim>\<open>ENOLCK\<close> exactly when the table is full, unless another
  process holds a conflicting lock: then \<^verbatim>\<open>F_SETLK\<close> fails and \<^verbatim>\<open>F_SETLKW\<close> leaves the caller waiting for a
  lock. \<^verbatim>\<open>F_GETLK\<close> changes nothing and reports a conflicting lock, or \<^verbatim>\<open>F_UNLCK\<close> if there is none.
\<close>

theorem lock_op_refines:
  assumes "locks_ok s" "lock_request f req s = Some (ino, ty, a, b)"
  shows "\<exists>e s'. lock_op f req s = Some (e, s') \<and> locks_ok s' \<and> lock_spec req s (ino, ty, a, b) e s'"
  by (rule lock_op_spec [OF assms])

text \<open>
  A table with a write lock of process 7 on the bytes 100 to 199 of the file in inode slot 2; process 42
  asks for a read lock on the bytes 50 to 149, and process 43, in slot 10, is waiting for a lock.
\<close>

definition flock_bytes :: "u16 \<Rightarrow> u32 \<Rightarrow> u32 \<Rightarrow> bytes" where
  "flock_bytes ty start len = put32 8 len (put32 4 start (put16 2 0 (put16 0 ty (\<lambda>_. 0))))"

definition demo_locks :: "u16 \<Rightarrow> fsstate" where
  "demo_locks ty = (fs_zero \<lparr>m_source = 9, m_type = 55, m_w0 = 0, m_w1 = 6, m_w2 = 0, m_w3 = 0x1000, m_w4 = 0, m_w5 = 0, m_w6 = 0\<rparr>
      (\<lambda>_ _. 0))\<lparr>
    filps := (\<lambda>_. zero_filp)(0 := zero_filp\<lparr>filp_mode := 6, filp_count := 1, filp_ino := Some 2\<rparr>),
    inodes := (\<lambda>_. zero_inode)(2 := zero_inode\<lparr>i_mode := 0x81B4\<rparr>),
    fprocs := (\<lambda>_. zero_fproc)(9 := zero_fproc\<lparr>fp_pid := 42\<rparr>,
      10 := zero_fproc\<lparr>fp_pid := 43, fp_suspended := True, fp_task := 6, fp_fd := 0x0137, fp_buffer := 0x2000, fp_nbytes := 7\<rparr>),
    fp := 9, fs_who := 9,
    file_locks := (\<lambda>_. zero_lock)(3 := \<lparr>lock_type = F_WRLCK, lock_pid = 7, lock_inode = Some 2, lock_first = 100, lock_last = 199\<rparr>),
    nr_locks := 1, fs_ans := (\<lambda>_. (OK, flock_bytes ty 50 100))\<rparr>"

lemma flock_bytes_get: "get16 0 (flock_bytes t a l) = t" "get16 2 (flock_bytes t a l) = 0"
    "get32 4 (flock_bytes t a l) = a" "get32 8 (flock_bytes t a l) = l"
proof -
  have e: "get16 o1 (put32 o2 w d) = get16 o1 d" "get32 o1 (put32 o2 w d) = get32 o1 d" "get32 o2 (put16 o1 v d) = get32 o2 d"
    if "o1 + 4 \<le> o2" for o1 o2 w v d using that by (simp_all add: get16_def get32_def put32_def put16_def)
  have "get16 0 (put16 2 v d) = get16 0 d" "get16 2 (put32 4 w d) = get16 2 d" "get16 2 (put32 8 w d) = get16 2 d"
    "get32 4 (put16 0 v d) = get32 4 d" for d v w by (simp_all add: get16_def get32_def put32_def put16_def)
  then show "get16 0 (flock_bytes t a l) = t" "get16 2 (flock_bytes t a l) = 0"
    "get32 4 (flock_bytes t a l) = a" "get32 8 (flock_bytes t a l) = l"
    by (simp_all add: flock_bytes_def e)
qed

lemma demo_locks_ok:
  shows "locks_ok (demo_locks ty)" "held (demo_locks ty) = {(7, F_WRLCK, 2, x) | x. 100 \<le> x \<and> x \<le> 199}"
proof -
  let ?l = "\<lparr>lock_type = F_WRLCK, lock_pid = 7, lock_inode = Some 2, lock_first = 100, lock_last = 199\<rparr> :: file_lock"
  let ?s = "demo_locks ty"
  have fl: "file_locks ?s = (\<lambda>_. zero_lock)(3 := ?l)" "nr_locks ?s = 1" by (simp_all add: demo_locks_def)
  have "region zero_lock = {}" by (simp add: region_def zero_lock_def)
  then have "held ?s = region ?l" unfolding held_def fl(1) by (auto split: if_splits)
  then show h: "held ?s = {(7, F_WRLCK, 2, x) | x. 100 \<le> x \<and> x \<le> 199}" by (auto simp: region_def)
  have "busy_slots ?s = {3}" by (auto simp: busy_slots_def fl(1) zero_lock_def)
  moreover have "slot_ok (file_locks ?s i)" for i by (simp add: fl(1) slot_ok_def zero_lock_def)
  ultimately have "table_ok ?s" by (simp add: table_ok_def fl(2))
  moreover have "compatible (held ?s)" unfolding h by (simp add: compatible_def)
  ultimately show "locks_ok ?s" by (simp add: locks_ok_def)
qed

lemma demo_locks_request:
  "lock_request 0 F_SETLK (demo_locks 1) = Some (2, F_RDLCK, 50, 149)"
  "lock_request 0 F_SETLK (demo_locks 3) = Some (2, F_UNLCK, 50, 149)"
  by (simp_all add: lock_request_def fs_do_def lock_args_def flock_type_def demo_locks_def zero_filp_def zero_inode_def
      flock_bytes_get)

theorem lock_op_refines_witness: "\<exists>s'. lock_op 0 F_SETLK (demo_locks 1) = Some (EAGAIN, s') \<and> held s' = held (demo_locks 1)"
proof -
  let ?s = "demo_locks 1"
  have p: "fp_pid (fprocs ?s (fp ?s)) = 42" by (simp add: demo_locks_def)
  have "(7, F_WRLCK, 2, 100) \<in> held ?s" unfolding demo_locks_ok(2) by simp
  then have c: "conflicts (held ?s) 42 F_RDLCK 2 50 149" by (force simp: conflicts_def)
  from lock_op_refines [OF demo_locks_ok(1) demo_locks_request(1)] obtain e s' where
    e: "lock_op 0 F_SETLK ?s = Some (e, s')" "lock_spec F_SETLK ?s (2, F_RDLCK, 50, 149) e s'"
    by blast
  from e(2) have "e = EAGAIN \<and> held s' = held ?s" by (cases rule: lock_spec.cases) (use c p in auto)
  with e(1) show ?thesis by blast
qed

text \<open>
  C12. In every state the table of locks can reach, by lock requests and by closing files in any order,
  no byte is locked by two processes unless both have read locks.
\<close>

theorem lock_exclusion:
  assumes "lock_reach s" "(p, t, ino, x) \<in> held s" "(p', t', ino, x) \<in> held s" "p \<noteq> p'"
  shows "t = F_RDLCK \<and> t' = F_RDLCK"
  using lock_reach_ok [OF assms(1)] assms(2-4) unfolding locks_ok_def compatible_def by blast

text \<open>Two processes with a read lock on the same bytes.\<close>

definition demo_free :: "int \<Rightarrow> fsstate" where
  "demo_free pid = (demo_locks 1)\<lparr>file_locks := (\<lambda>_. zero_lock), nr_locks := 0,
     fprocs := (\<lambda>_. zero_fproc)(9 := zero_fproc\<lparr>fp_pid := pid\<rparr>)\<rparr>"

definition demo_reader :: "int \<Rightarrow> file_lock" where
  "demo_reader pid = \<lparr>lock_type = F_RDLCK, lock_pid = pid, lock_inode = Some 2, lock_first = 50, lock_last = 149\<rparr>"

lemma demo_lock_step:
  assumes "file_locks s = T" "T e = zero_lock" "\<forall>i<e. T i = demo_reader 42" "e < NR_LOCKS"
    and "\<forall>i. e < i \<longrightarrow> T i = zero_lock" and s: "s = (demo_free pid)\<lparr>file_locks := T, nr_locks := int e\<rparr>"
  shows "\<exists>s'. lock_op 0 F_SETLK s = Some (OK, s') \<and> file_locks s' = T(e := demo_reader pid) \<and> nr_locks s' = int e + 1"
proof -
  have r: "lock_request 0 F_SETLK s = Some (2, F_RDLCK, 50, 149)"
    by (simp add: s demo_free_def lock_request_def fs_do_def lock_args_def flock_type_def demo_locks_def zero_filp_def
        zero_inode_def flock_bytes_get)
  then obtain s0 d where fd: "flock_type d = F_RDLCK" and s0: "file_locks s0 = T" "nr_locks s0 = int e"
      "fp s0 = fp s" "fprocs s0 = fprocs s"
    and op: "lock_op 0 F_SETLK s = do { res \<leftarrow> lock_scan 2 F_SETLK F_RDLCK 50 149 None False lock_nrs s0;
      lock_finish F_SETLK (m_buffer (fs_m_in s)) d 2 50 149 res }"
    using assms(1) s by (auto elim!: lock_op_request)
  have T: "T i = (if i < e then demo_reader 42 else zero_lock)" for i using assms(2,3,5) by (metis linorder_neqE_nat)
  have nb: "find (blocking 2 F_RDLCK 50 149 s0) lock_nrs = None"
    by (auto simp: find_None_iff blocking_def skipped_def s0(1) T demo_reader_def zero_lock_def)
  have "find (\<lambda>i. lock_type (T i) = 0) lock_nrs = Some e"
  proof -
    have "lock_type (T i) = 0 \<longleftrightarrow> e \<le> i" for i by (auto simp: T demo_reader_def zero_lock_def)
    then show ?thesis using assms(4) by (auto simp: find_filter lock_nrs_def upt_rec)
  qed
  moreover have "fp_pid (fprocs s (fp s)) = pid" by (simp add: s demo_free_def demo_locks_def)
  ultimately show ?thesis
    unfolding op using nb s0 fd
    by (simp add: lock_scan_set lock_finish_def demo_reader_def upd_lock_def)
qed

theorem lock_exclusion_witness:
  "\<exists>s. lock_reach s \<and> (42, F_RDLCK, 2, 60) \<in> held s \<and> (7, F_RDLCK, 2, 60) \<in> held s"
proof -
  let ?s = "(demo_free 42)\<lparr>file_locks := (\<lambda>_. zero_lock), nr_locks := int 0\<rparr>"
  let ?T = "(\<lambda>_. zero_lock)(0 := demo_reader 42)"
  from demo_lock_step [of ?s "\<lambda>_. zero_lock" 0 42] obtain s1 where
    s1: "lock_op 0 F_SETLK ?s = Some (OK, s1)" "file_locks s1 = ?T" "nr_locks s1 = 1" by auto
  let ?t = "(demo_free 7)\<lparr>file_locks := ?T, nr_locks := int 1\<rparr>"
  from demo_lock_step [of ?t ?T 1 7] obtain s2 where
    s2: "lock_op 0 F_SETLK ?t = Some (OK, s2)" "file_locks s2 = ?T(1 := demo_reader 7)" by auto
  have "lock_reach ?s" by (rule lock_reach.start) (simp_all add: zero_lock_def)
  from lock_reach.request [OF this s1(1)] have "lock_reach ?t" by (rule lock_reach.other) (simp_all add: s1)
  from lock_reach.request [OF this s2(1)] have r: "lock_reach s2" .
  have "(42, F_RDLCK, 2, 60) \<in> region (file_locks s2 0)" "(7, F_RDLCK, 2, 60) \<in> region (file_locks s2 1)"
    by (simp_all add: s2(2) region_def demo_reader_def)
  then have h: "(42, F_RDLCK, 2, 60) \<in> held s2" "(7, F_RDLCK, 2, 60) \<in> held s2"
    using region_in_held [of 0 s2] region_in_held [of 1 s2] by auto
  from lock_exclusion [OF r this] r h show ?thesis by auto
qed

text \<open>
  C13. When a lock is released, every process in a slot above that of init (8 to 63) that waits for a
  lock has its call made again: after the request that unlocked something, the next pieces of work of
  the main loop are exactly the saved calls of these processes, in the order of the process table, each
  once; then nothing is left to revive. A waiter in the slots 0 to 7, such as init, is left waiting,
  because the loop of \<^verbatim>\<open>lock_revive\<close> starts at slot 8.
\<close>

theorem unlock_retries_waiters:
  assumes l: "locks_ok s" and r: "lock_request f req s = Some (ino, F_UNLCK, a, b)"
    and hit: "held s \<inter> span ino a b \<noteq> {}" and quiet: "reviving s = 0" "to_revive s = []"
    and op: "lock_op f req s = Some (OK, s')"
  shows "\<exists>s''. next_calls (length (filter (waits s) user_procs)) s' =
      Some (map (saved_call s) (filter (waits s) user_procs), s'') \<and>
    reviving s'' = 0 \<and> to_revive s'' = [] \<and> (\<forall>p. 8 \<le> p \<and> p < FS_NR_PROCS \<longrightarrow> \<not> waits s'' p) \<and>
    (\<forall>p < 8. fprocs s'' p = fprocs s p)"
proof -
  have t: "table_ok s" using l by (simp add: locks_ok_def)
  from t r obtain s1 where s1: "s' = mark_waiters user_procs s1" "fprocs s1 = fprocs s" "reviving s1 = reviving s"
  proof (cases rule: lock_op_unlock)
    case (ok u s0 s1)
    then have "u" using hit by blast
    with ok op that show ?thesis by auto
  qed (use op in auto)
  have w: "waits s1 = waits s" by (simp add: waits_def fun_eq_iff s1(2))
  have nr: "\<not> fp_revived (fprocs s p)" if "p < FS_NR_PROCS" for p
    using quiet(2) that by (auto simp: to_revive_def filter_empty_conv)
  have rv: "fp_revived (fprocs s' p) \<longleftrightarrow> 8 \<le> p \<and> waits s p" if "p < FS_NR_PROCS" for p
    using nr [OF that] that user_procs_set(1) unfolding s1(1) mark_waiters_def by (auto simp: w s1(2))
  let ?ws = "filter (waits s) user_procs"
  have "to_revive s' = filter (\<lambda>p. 8 \<le> p \<and> waits s p) [0..<FS_NR_PROCS]"
    unfolding to_revive_def by (rule filter_cong) (simp_all add: rv)
  also have "[0..<FS_NR_PROCS] = [0..<8] @ user_procs"
    unfolding user_procs_def using upt_add_eq_append [of 0 8 56] by (simp del: upt_rec_numeral)
  also have "filter (\<lambda>p. 8 \<le> p \<and> waits s p) ([0..<8] @ user_procs) = ?ws"
    using user_procs_set(1) by (auto simp: filter_empty_conv simp del: upt_rec_numeral intro: filter_cong)
  finally have tr: "to_revive s' = ?ws" .
  have "{p \<in> set user_procs. waits s1 p \<and> \<not> fp_revived (fprocs s1 p)} = set ?ws" using nr user_procs_set(1) by (auto simp: w s1(2))
  then have "reviving s' = int (card (set ?ws))" unfolding s1(1) mark_waiters_def using quiet(1) s1(3) by simp
  moreover have "card (set ?ws) = length ?ws" by (rule distinct_card) (rule distinct_filter [OF user_procs_set(2)])
  ultimately have n: "reviving s' = int (length ?ws)" by (simp only:)
  from next_calls_revive [of s'] n obtain s'' where
    s'': "next_calls (length ?ws) s' = Some (map (saved_call s') ?ws, s'')" "to_revive s'' = []" "reviving s'' = 0"
      "\<forall>p. if p \<in> set ?ws then \<not> fp_suspended (fprocs s'' p) else fprocs s'' p = fprocs s' p"
    unfolding tr by auto
  have sv: "saved_call s' p = saved_call s p" for p
    unfolding s1(1) mark_waiters_def by (simp add: saved_call_def Let_def s1(2))
  have "waits s' p = waits s p" for p unfolding s1(1) mark_waiters_def by (simp add: waits_def s1(2))
  then have "\<not> waits s'' p" if "8 \<le> p" "p < FS_NR_PROCS" for p
    using s''(4) that user_procs_set(1) by (cases "waits s p") (auto simp: waits_def split: if_splits)
  moreover have "fprocs s'' p = fprocs s p" if "p < 8" for p
  proof -
    have "p \<notin> set user_procs" using that user_procs_set(1) by auto
    then show ?thesis using s''(4) unfolding s1(1) mark_waiters_def by (auto simp: s1(2))
  qed
  ultimately show ?thesis using s'' unfolding sv by auto
qed

theorem unlock_retries_waiters_witness:
  "\<exists>s' s''. lock_op 0 F_SETLK (demo_locks 3) = Some (OK, s') \<and> next_calls 1 s' = Some ([(10, 55, 1, 0x2000, 7)], s'')"
proof -
  let ?s = "demo_locks 3"
  have "(7, F_WRLCK, 2, 100) \<in> held ?s \<inter> span 2 50 149" unfolding demo_locks_ok(2) by (simp add: span_def)
  then have h: "held ?s \<inter> span 2 50 149 \<noteq> {}" by blast
  obtain s' where op: "lock_op 0 F_SETLK ?s = Some (OK, s')"
  proof -
    from demo_locks_request(2) obtain s0 d where fd: "flock_type d = F_UNLCK" and s0: "file_locks s0 = file_locks ?s"
      and op: "lock_op 0 F_SETLK ?s = do { res \<leftarrow> lock_scan 2 F_SETLK F_UNLCK 50 149 None False lock_nrs s0;
        lock_finish F_SETLK (m_buffer (fs_m_in ?s)) d 2 50 149 res }" by (auto elim!: lock_op_request)
    have n: "lock_nrs = [0, 1, 2, 3, 4, 5, 6, 7]" by (simp add: lock_nrs_def upt_rec)
    have "\<exists>sl u s1. lock_scan 2 F_SETLK F_UNLCK 50 149 None False lock_nrs s0 = Some (Scan_end sl u s1)"
      unfolding n by (simp add: s0 demo_locks_def zero_lock_def Let_def skipped_def unlock_slot_def) blast
    then have "\<exists>s'. lock_op 0 F_SETLK ?s = Some (OK, s')"
      unfolding op by (auto simp: lock_finish_def fd lock_revive_marks)
    with that show ?thesis by blast
  qed
  have ws: "filter (waits ?s) user_procs = [10]"
    by (simp add: user_procs_def waits_def demo_locks_def zero_fproc_def)
  have "to_revive ?s = []" by (simp add: to_revive_def demo_locks_def zero_fproc_def)
  moreover have "reviving ?s = 0" by (simp add: demo_locks_def fs_zero_def)
  moreover have "saved_call ?s 10 = (10, 55, 1, 0x2000, 7)" by (simp add: saved_call_def demo_locks_def)
  ultimately show ?thesis
    using unlock_retries_waiters [OF demo_locks_ok(1) demo_locks_request(2) h _ _ op] op ws by auto
qed


subsection \<open>Suspended calls\<close>

lemma saved_fd:
  fixes f c :: int
  assumes "0 \<le> f" "f < 256" "0 \<le> c" "c < 256"
  shows "take_bit 8 (sint (push_bit 8 (word_of_int f) OR word_of_int c :: u32)) = c"
    "take_bit 8 (drop_bit 8 (sint (push_bit 8 (word_of_int f) OR word_of_int c :: u32))) = f"
proof -
  have c: "take_bit 8 c = c" "take_bit 8 f = f" using assms by (simp_all add: take_bit_int_eq_self)
  have b: "bit c n \<Longrightarrow> n < 8" "bit f n \<Longrightarrow> n < 8" for n using c by (metis bit_take_bit_iff)+
  have e: "(push_bit 8 (word_of_int f) OR word_of_int c :: u32) = word_of_int (push_bit 8 f OR c)"
    by (rule bit_word_eqI) (auto simp: bit_simps)
  have "push_bit 8 f OR c = take_bit 16 (push_bit 8 f OR c)"
    using b by (intro bit_eqI) (fastforce simp: bit_simps)
  then have "push_bit 8 f OR c < 2 ^ 16" by (metis take_bit_int_less_exp)
  then have "push_bit 8 f OR c < 2 ^ 31" by (rule less_trans) simp
  moreover have "- (2 ^ 31) \<le> push_bit 8 f OR c" by (rule order_trans [of _ 0]) (use assms in simp_all)
  moreover note slong_id
  ultimately have s: "sint (word_of_int (push_bit 8 f OR c) :: u32) = push_bit 8 f OR c" unfolding slong_def by blast
  show "take_bit 8 (sint (push_bit 8 (word_of_int f) OR word_of_int c :: u32)) = c"
    unfolding e s using b(1) by (intro bit_eqI) (auto simp: bit_simps)
  show "take_bit 8 (drop_bit 8 (sint (push_bit 8 (word_of_int f) OR word_of_int c :: u32))) = f"
    unfolding e s using b by (intro bit_eqI) (auto simp: bit_simps dest: b(1))
qed

text \<open>
  C40. A call that is suspended on a pipe or a lock is resumed exactly: when the process is revived, the
  next piece of work is its call again, with the same file descriptor, buffer and number of bytes.
\<close>

theorem suspended_call_resumes:
  assumes p: "fp s < FS_NR_PROCS" "\<not> fp_revived (fprocs s (fp s))" and t: "task = XPIPE \<or> task = XLOCK"
    and quiet: "reviving s = 0" "to_revive s = []"
    and fd: "0 \<le> m_fd (fs_m_in s)" "m_fd (fs_m_in s) < 256" and c: "0 \<le> fs_call_nr s" "fs_call_nr s < 256"
  shows "\<exists>s1 s2. revive (int (fp s)) v (suspend task s) = Some s1 \<and> get_work s1 = Some s2 \<and>
    fs_who s2 = int (fp s) \<and> fs_call_nr s2 = fs_call_nr s \<and> m_fd (fs_m_in s2) = m_fd (fs_m_in s) \<and>
    m_buffer (fs_m_in s2) = m_buffer (fs_m_in s) \<and> m_nbytes (fs_m_in s2) = m_nbytes (fs_m_in s) \<and>
    \<not> fp_suspended (fprocs s2 (fp s)) \<and> reviving s2 = 0"
proof -
  let ?p = "fp s" and ?s = "suspend task s"
  define s1 where "s1 = (upd_fproc ?p (\<lambda>q. q\<lparr>fp_revived := True\<rparr>) ?s)\<lparr>reviving := 1\<rparr>"
  have e: "fprocs ?s = (fprocs s)(?p := (fprocs s ?p)\<lparr>fp_suspended := True,
      fp_fd := sint (push_bit 8 (m_w0 (fs_m_in s)) OR word_of_int (fs_call_nr s)), fp_task := - task,
      fp_buffer := m_buffer (fs_m_in s), fp_nbytes := m_nbytes (fs_m_in s)\<rparr>)" "reviving ?s = 0"
    using t quiet(1) by (auto simp: suspend_def Let_def upd_fproc_def)
  have r: "revive (int ?p) v ?s = Some s1"
    using p t quiet(1) by (auto simp: revive_def Let_def e s1_def)
  have "fp_revived (fprocs s1 q) \<longleftrightarrow> q = ?p" if "q < FS_NR_PROCS" for q
    using quiet(2) that by (auto simp: s1_def upd_fproc_def e to_revive_def filter_empty_conv)
  then have "to_revive s1 = filter (\<lambda>q. q = ?p) [0..<FS_NR_PROCS]"
    unfolding to_revive_def by (intro filter_cong) simp_all
  also have "\<dots> = [?p]"
  proof -
    have "filter (\<lambda>q. q = x) xs = [x]" if "x \<in> set xs" "distinct xs" for x :: nat and xs
      using that by (induction xs) (auto simp: filter_empty_conv)
    then show ?thesis using p(1) by (simp del: upt_rec_numeral)
  qed
  finally have tr: "to_revive s1 = [?p]" .
  moreover have "reviving s1 = int (length (to_revive s1))" unfolding tr by (simp add: s1_def)
  ultimately obtain s2 where s2: "get_work s1 = Some s2" "reviving s2 = int (length ([] :: nat list))"
      "(fs_who s2, fs_call_nr s2, m_fd (fs_m_in s2), m_buffer (fs_m_in s2), m_nbytes (fs_m_in s2)) = saved_call s1 ?p"
      "\<not> fp_suspended (fprocs s2 ?p)"
    using get_work_revives [of s1 ?p "[]"] by blast
  have "m_w0 (fs_m_in s) = word_of_int (m_fd (fs_m_in s))" by (simp add: m_fd_def)
  then have "saved_call s1 ?p = (int ?p, fs_call_nr s, m_fd (fs_m_in s), m_buffer (fs_m_in s), m_nbytes (fs_m_in s))"
    using saved_fd [OF fd c] by (simp add: saved_call_def Let_def s1_def upd_fproc_def e slong_def m_nbytes_def)
  with r s2 show ?thesis by auto
qed

theorem suspended_call_resumes_witness:
  "\<exists>s1 s2. revive 9 0 (suspend XLOCK ((demo_locks 1)\<lparr>fs_call_nr := 55\<rparr>)) = Some s1 \<and> get_work s1 = Some s2 \<and> fs_who s2 = 9 \<and>
     fs_call_nr s2 = 55 \<and> m_buffer (fs_m_in s2) = 0x1000"
proof -
  let ?s = "(demo_locks 1)\<lparr>fs_call_nr := 55\<rparr>"
  have "fp ?s = 9" "fs_call_nr ?s = 55" "m_fd (fs_m_in ?s) = 0" "m_buffer (fs_m_in ?s) = 0x1000" "reviving ?s = 0"
    "\<not> fp_revived (fprocs ?s 9)" "to_revive ?s = []"
    by (simp_all add: demo_locks_def fs_zero_def m_fd_def m_buffer_def to_revive_def zero_fproc_def)
  then show ?thesis using suspended_call_resumes [of ?s XLOCK 0] by auto
qed

text \<open>
  A signal to a process that is just being revived: the call is answered with \<^verbatim>\<open>EINTR\<close>, but the process
  stays marked, and \<^verbatim>\<open>get_work\<close> makes the interrupted call again.
\<close>

lemma unpause_keeps_revival:
  assumes "fs_who s = 0" "m_w0 (fs_m_in s) = of_nat p" "p < FS_NR_PROCS" "fp_suspended (fprocs s p)" "fp_task (fprocs s p) = 5"
    and "fp_revived (fprocs s p)"
  shows "\<exists>s'. do_unpause f g s = Some (OK, s') \<and> fp_revived (fprocs s' p) \<and> reviving s' = reviving s"
proof -
  have "sint (of_nat p :: u32) = int p"
  proof -
    have "slong (int p) = int p" using assms(3) by (intro slong_id) simp_all
    then show ?thesis by (simp add: slong_def)
  qed
  then show ?thesis
    using assms by (auto simp: do_unpause_def Let_def upd_fproc_def reply_def fs_do_def fs_tell_def split: prod.split)
qed

end
