(* ===== verification/FS_Frame.thy ===== *)
theory FS_Frame
  imports FS_Inode
begin

text \<open>
  What the operations on blocks, zones and inodes leave alone, whatever their outcome: the open files, the
  processes, the locks, the request and the other variables outside of the cache, the tables of inodes and
  super blocks and the error variables. No hypothesis on the state is needed; the lemmas of the collection
  \<open>keeps\<close> read "if the operation returns, \<open>rest\<close> is as it was".
\<close>

named_theorems keeps \<open>operations keep the rest of the state\<close>

definition rest :: "fsstate \<Rightarrow> fsstate" where
  "rest s = s\<lparr>bufs := (\<lambda>_. zero_buf), buf_hash := (\<lambda>_. None), front := None, rear := None, bufs_in_use := 0,
     disk := (\<lambda>_ _. 0), io_cnt := 0, rdwt_err := 0, err_code := 0, fs_log := [], inodes := (\<lambda>_. zero_inode),
     super_blocks := (\<lambda>_. zero_super)\<rparr>"

lemma rest_upd [simp]:
  "rest (s\<lparr>bufs := bf\<rparr>) = rest s" "rest (s\<lparr>buf_hash := hh\<rparr>) = rest s" "rest (s\<lparr>front := f\<rparr>) = rest s"
  "rest (s\<lparr>rear := f\<rparr>) = rest s" "rest (s\<lparr>bufs_in_use := n\<rparr>) = rest s" "rest (s\<lparr>disk := D\<rparr>) = rest s"
  "rest (s\<lparr>io_cnt := c\<rparr>) = rest s" "rest (s\<lparr>rdwt_err := e\<rparr>) = rest s" "rest (s\<lparr>err_code := e\<rparr>) = rest s"
  "rest (s\<lparr>fs_log := l\<rparr>) = rest s" "rest (s\<lparr>inodes := ii\<rparr>) = rest s" "rest (s\<lparr>super_blocks := sb\<rparr>) = rest s"
  by (simp_all add: rest_def)

lemma rest_ops [simp]:
  "rest (upd_buf i f s) = rest s" "rest (upd_inode i g s) = rest s" "rest (upd_super i h s) = rest s"
  "rest (fs_tell c s) = rest s" "rest (rm_lru bp s) = rest s" "rest (set_data bp d s) = rest s"
  "rest (set_dirty bp s) = rest s" "rest (zero_block bp s) = rest s" "rest (set_zone r i z s) = rest s"
  "rest (disk_write dev pos n d s) = rest s" "rest (dup_inode r s) = rest s" "rest (wipe_inode r s) = rest s"
  by (simp_all add: upd_buf_def upd_inode_def upd_super_def fs_tell_def rm_lru_def set_data_def set_dirty_def
      zero_block_def set_zone_def disk_write_def dup_inode_def wipe_inode_def Let_def split: option.split)

lemma rest_sel:
  assumes "rest s' = rest s"
  shows "filps s' = filps s" "fprocs s' = fprocs s" "file_locks s' = file_locks s" "fp s' = fp s" "fs_m_in s' = fs_m_in s"
    "fs_m_out s' = fs_m_out s" "fs_who s' = fs_who s" "fs_call_nr s' = fs_call_nr s" "super_user s' = super_user s"
    "susp_count s' = susp_count s" "nr_locks s' = nr_locks s" "reviving s' = reviving s" "fs_ans s' = fs_ans s"
    "io_ans s' = io_ans s" "rdahed_inode s' = rdahed_inode s" "root_dev s' = root_dev s"
proof -
  have sel: "filps (rest t) = filps t" "fprocs (rest t) = fprocs t" "file_locks (rest t) = file_locks t" "fp (rest t) = fp t"
    "fs_m_in (rest t) = fs_m_in t" "fs_m_out (rest t) = fs_m_out t" "fs_who (rest t) = fs_who t" "fs_call_nr (rest t) = fs_call_nr t"
    "super_user (rest t) = super_user t" "susp_count (rest t) = susp_count t" "nr_locks (rest t) = nr_locks t"
    "reviving (rest t) = reviving t" "fs_ans (rest t) = fs_ans t" "io_ans (rest t) = io_ans t"
    "rdahed_inode (rest t) = rdahed_inode t" "root_dev (rest t) = root_dev t" for t
    by (simp_all add: rest_def)
  show "filps s' = filps s" "fprocs s' = fprocs s" "file_locks s' = file_locks s" "fp s' = fp s" "fs_m_in s' = fs_m_in s"
    "fs_m_out s' = fs_m_out s" "fs_who s' = fs_who s" "fs_call_nr s' = fs_call_nr s" "super_user s' = super_user s"
    "susp_count s' = susp_count s" "nr_locks s' = nr_locks s" "reviving s' = reviving s" "fs_ans s' = fs_ans s"
    "io_ans s' = io_ans s" "rdahed_inode s' = rdahed_inode s" "root_dev s' = root_dev s"
    using sel [of s] sel [of s'] assms by simp_all
qed

subsection \<open>Rules\<close>

text \<open>A computation keeps the rest; its state is its result, or the last component of it.\<close>

definition kept :: "fsstate \<Rightarrow> fsstate option \<Rightarrow> bool" where
  "kept s m \<longleftrightarrow> (\<forall>t. m = Some t \<longrightarrow> rest t = rest s)"

definition kept2 :: "fsstate \<Rightarrow> ('a \<times> fsstate) option \<Rightarrow> bool" where
  "kept2 s m \<longleftrightarrow> (\<forall>a t. m = Some (a, t) \<longrightarrow> rest t = rest s)"

definition kept3 :: "fsstate \<Rightarrow> ('a \<times> 'b \<times> fsstate) option \<Rightarrow> bool" where
  "kept3 s m \<longleftrightarrow> (\<forall>a b t. m = Some (a, b, t) \<longrightarrow> rest t = rest s)"

lemma kept_bind:
  "kept s m \<Longrightarrow> (\<And>t. rest t = rest s \<Longrightarrow> kept s (f t)) \<Longrightarrow> kept s (Option.bind m f)"
  "kept s m \<Longrightarrow> (\<And>t. rest t = rest s \<Longrightarrow> kept2 s (g t)) \<Longrightarrow> kept2 s (Option.bind m g)"
  "kept s m \<Longrightarrow> (\<And>t. rest t = rest s \<Longrightarrow> kept3 s (h t)) \<Longrightarrow> kept3 s (Option.bind m h)"
  unfolding kept_def kept2_def kept3_def bind_Some_iff split_paired_Ex prod.case by blast+

lemma kept_bind2:
  "kept2 s m \<Longrightarrow> (\<And>a t. rest t = rest s \<Longrightarrow> kept s (f a t)) \<Longrightarrow> kept s (Option.bind m (\<lambda>(a, t). f a t))"
  "kept2 s m \<Longrightarrow> (\<And>a t. rest t = rest s \<Longrightarrow> kept2 s (g a t)) \<Longrightarrow> kept2 s (Option.bind m (\<lambda>(a, t). g a t))"
  "kept2 s m \<Longrightarrow> (\<And>a t. rest t = rest s \<Longrightarrow> kept3 s (h a t)) \<Longrightarrow> kept3 s (Option.bind m (\<lambda>(a, t). h a t))"
  unfolding kept_def kept2_def kept3_def bind_Some_iff split_paired_Ex prod.case by blast+

lemma kept_bind3:
  "kept3 s m \<Longrightarrow> (\<And>a b t. rest t = rest s \<Longrightarrow> kept s (f a b t)) \<Longrightarrow> kept s (Option.bind m (\<lambda>(a, b, t). f a b t))"
  "kept3 s m \<Longrightarrow> (\<And>a b t. rest t = rest s \<Longrightarrow> kept2 s (g a b t)) \<Longrightarrow> kept2 s (Option.bind m (\<lambda>(a, b, t). g a b t))"
  unfolding kept_def kept2_def kept3_def bind_Some_iff split_paired_Ex prod.case by blast+

lemma kept_pure:
  "(\<And>a. kept s (f a)) \<Longrightarrow> kept s (Option.bind m f)" "(\<And>a. kept2 s (g a)) \<Longrightarrow> kept2 s (Option.bind m g)"
  "(\<And>a. kept3 s (h a)) \<Longrightarrow> kept3 s (Option.bind m h)"
  unfolding kept_def kept2_def kept3_def bind_Some_iff split_paired_Ex prod.case by blast+

lemma kept_cases:
  "(b \<Longrightarrow> kept s x) \<Longrightarrow> (\<not> b \<Longrightarrow> kept s y) \<Longrightarrow> kept s (if b then x else y)"
  "(b \<Longrightarrow> kept2 s x2) \<Longrightarrow> (\<not> b \<Longrightarrow> kept2 s y2) \<Longrightarrow> kept2 s (if b then x2 else y2)"
  "(b \<Longrightarrow> kept3 s x3) \<Longrightarrow> (\<not> b \<Longrightarrow> kept3 s y3) \<Longrightarrow> kept3 s (if b then x3 else y3)"
  "kept s x \<Longrightarrow> (\<And>a. kept s (k a)) \<Longrightarrow> kept s (case v of None \<Rightarrow> x | Some a \<Rightarrow> k a)"
  "kept2 s x2 \<Longrightarrow> (\<And>a. kept2 s (k2 a)) \<Longrightarrow> kept2 s (case v of None \<Rightarrow> x2 | Some a \<Rightarrow> k2 a)"
  "(\<And>a c. kept s (p a c)) \<Longrightarrow> kept s (case w of (a, c) \<Rightarrow> p a c)"
  "(\<And>a c. kept2 s (p2 a c)) \<Longrightarrow> kept2 s (case w of (a, c) \<Rightarrow> p2 a c)"
  "kept s x \<Longrightarrow> kept s y \<Longrightarrow> kept s (case fl of READING \<Rightarrow> x | WRITING \<Rightarrow> y)"
  "kept2 s x2 \<Longrightarrow> kept2 s y2 \<Longrightarrow> kept2 s (case fl of READING \<Rightarrow> x2 | WRITING \<Rightarrow> y2)"
  by (auto split: option.split prod.split rw_flag.split)

lemma kept_Some:
  "rest t = rest s \<Longrightarrow> kept s (Some t)" "rest t = rest s \<Longrightarrow> kept2 s (Some (a, t))" "rest t = rest s \<Longrightarrow> kept3 s (Some (a, b, t))"
  "kept s None" "kept2 s None" "kept3 s None"
  by (simp_all add: kept_def kept2_def kept3_def)

lemmas kept_rules = kept_Some kept_cases kept_bind kept_bind2 kept_bind3

lemma keptD: "kept s m \<Longrightarrow> m = Some t \<Longrightarrow> rest t = rest s" "kept2 s m2 \<Longrightarrow> m2 = Some (a, t) \<Longrightarrow> rest t = rest s"
  by (simp_all add: kept_def kept2_def)

subsection \<open>Blocks\<close>

lemma kept_rw_block [keeps]: "rest t = rest s \<Longrightarrow> kept s (rw_block bp fl t)"
  unfolding rw_block_def Let_def by (intro kept_pure kept_Some) (cases fl; simp)

lemma kept_unlink_after [keeps]: "rest t = rest s \<Longrightarrow> kept s (unlink_after bp q t)"
proof -
  have "rest t' = rest t" if "unlink_after bp q t = Some t'" for t'
  proof (rule unlink_after.raw_induct [where P = "\<lambda>bp q s s'. rest s' = rest s", OF _ that])
    fix unl bp q s s'
    assume "\<And>q s b y. unl q s b = Some y \<Longrightarrow> rest y = rest b"
      and "(case b_hash (bufs s q) of None \<Rightarrow> Some s | Some r \<Rightarrow> if r = bp
        then Some (upd_buf q (b_hash_update (\<lambda>_. b_hash (bufs s bp))) s) else unl bp r s) = Some s'"
    then show "rest s' = rest s" by (auto split: option.splits if_splits)
  qed
  then show "rest t = rest s \<Longrightarrow> kept s (unlink_after bp q t)" by (simp add: kept_def)
qed

lemma kept_hash_unlink [keeps]: "rest t = rest s \<Longrightarrow> kept s (hash_unlink bp t)"
  unfolding hash_unlink_def Let_def by (rule kept_rules kept_pure keeps | simp)+

lemma put_block_lru: "put_block (Some bp) t s = (
    let s1 = upd_buf bp (\<lambda>b. b\<lparr>b_count := schar (b_count b - 1)\<rparr>) s;
        s2 = s1\<lparr>bufs_in_use := bufs_in_use s1 - 1\<rparr>;
        s3 = lru_add (b_dev (bufs s2 bp) = DEV_RAM \<or> t AND ONE_SHOT \<noteq> 0) bp s2
    in if b_count (bufs s1 bp) \<noteq> 0 then Some s1
       else if t AND WRITE_IMMED \<noteq> 0 \<and> b_dirt (bufs s3 bp) \<and> b_dev (bufs s3 bp) \<noteq> NO_DEV then rw_block bp WRITING s3 else Some s3)"
  by (simp add: put_block_def lru_add_def Let_def)

lemma rest_lru_add [simp]: "rest (lru_add w bp s) = rest s"
  by (auto simp: lru_add_def Let_def split: option.split)

lemma kept_put_block [keeps]: "rest t = rest s \<Longrightarrow> kept s (put_block bq ty t)"
proof (cases bq)
  case (Some bp)
  assume "rest t = rest s"
  then show ?thesis unfolding Some put_block_lru Let_def by (intro kept_rules keeps) simp_all
qed (simp add: put_block_def kept_def)

lemma rest_move_blocks [simp]: "rest (move_blocks fl dev bs q s) = rest s"
  by (induction q arbitrary: s) (auto simp: Let_def split: rw_flag.split)

lemma kept_harvest [keeps]: "rest t = rest s \<Longrightarrow> kept s (harvest fl dev q t)"
  by (induction q arbitrary: t) (auto intro!: kept_rules keeps)

lemma kept_put_all [keeps]: "rest t = rest s \<Longrightarrow> kept s (put_all q t)"
  by (induction q arbitrary: t) (auto intro!: kept_rules keeps)

lemma kept_scatter [keeps]: "rest t = rest s \<Longrightarrow> kept s (scatter fl dev bs q t)"
proof -
  have "rest t' = rest t" if "scatter fl dev bs q t = Some t'" for t'
  proof (rule scatter.raw_induct [where P = "\<lambda>fl dev bs q s s'. rest s' = rest s", OF _ that], goal_cases)
    case (1 sc fl dev bs q s s')
    have sc: "rest t = rest s \<Longrightarrow> kept s (sc fl dev bs q t)" for q t
      using 1(1) by (auto simp: kept_def)
    show ?case
      by (rule keptD(1) [OF _ 1(2)], unfold Let_def) (rule kept_rules keeps sc | simp)+
  qed
  then show "rest t = rest s \<Longrightarrow> kept s (scatter fl dev bs q t)" by (simp add: kept_def)
qed

lemma kept_rw_scattered [keeps]: "rest t = rest s \<Longrightarrow> kept s (rw_scattered dev q fl t)"
  unfolding rw_scattered_def by (intro kept_pure keeps)

lemma kept_flushall [keeps]: "rest t = rest s \<Longrightarrow> kept s (flushall dev t)"
  unfolding flushall_def by (rule keeps)

lemma kept_new_block [keeps]: "rest t = rest s \<Longrightarrow> kept2 s (new_block dev k m t)"
  unfolding new_block_def Let_def
  by (rule kept_pure(2), rule kept_bind(2), rule keeps, simp) (rule kept_rules keeps | simp)+

lemma kept_get_block [keeps]: "rest t = rest s \<Longrightarrow> kept2 s (get_block dev k m t)"
  unfolding get_block_def Let_def by (rule kept_pure(2)) (rule kept_rules keeps | simp)+

subsection \<open>Bit maps and zones\<close>

lemma kept_alloc_loop [keeps]: "rest t = rest s \<Longrightarrow> kept2 s (alloc_loop n sp start limit blocks block word t)"
proof (induction n arbitrary: block word t)
  case (Suc n)
  show ?case
    unfolding alloc_loop.simps Let_def
    by (rule kept_bind2, rule keeps, rule Suc.prems) (auto intro!: kept_rules keeps Suc.IH split: option.split)
qed (simp add: kept2_def)

lemma kept_alloc_bit [keeps]: "rest t = rest s \<Longrightarrow> kept2 s (alloc_bit spi m origin t)"
  unfolding alloc_bit_def Let_def by (intro kept_pure keeps)

lemma kept_free_bit [keeps]: "rest t = rest s \<Longrightarrow> kept s (free_bit spi m b t)"
  unfolding free_bit_def Let_def by (rule kept_pure) (rule kept_rules keeps kept_pure | simp)+

lemma kept_alloc_zone [keeps]: "rest t = rest s \<Longrightarrow> kept2 s (alloc_zone dev z t)"
  unfolding alloc_zone_def Let_def by (rule kept_pure) (rule kept_rules keeps | simp)+

lemma kept_free_zone [keeps]: "rest t = rest s \<Longrightarrow> kept s (free_zone dev z t)"
  unfolding free_zone_def Let_def by (rule kept_pure) (rule kept_rules keeps | simp)+

subsection \<open>The map of a file\<close>

lemma kept_wr_indir [keeps]: "rest t = rest s \<Longrightarrow> kept s (wr_indir bp i z t)"
  unfolding wr_indir_def Let_def by (rule kept_pure) (rule kept_rules kept_pure | simp)+

lemma kept_read_map [keeps]: "rest t = rest s \<Longrightarrow> kept2 s (read_map rip position t)"
  unfolding read_map_def Let_def
  by (rule kept_rules keeps | rule kept_pure | simp)+

lemma kept_fill_indirect [keeps]: "rest t = rest s \<Longrightarrow> kept2 s (fill_indirect rip scale z1 new ex nz t)"
  unfolding fill_indirect_def Let_def by (rule kept_rules keeps | simp)+

lemma kept_write_single [keeps]: "rest t = rest s \<Longrightarrow> kept2 s (write_single rip scale excess nz t)"
  unfolding write_single_def Let_def by (rule kept_rules keeps | simp)+

lemma kept_write_double [keeps]: "rest t = rest s \<Longrightarrow> kept2 s (write_double rip scale z new ix ex nz t)"
  unfolding write_double_def Let_def
  by (rule kept_rules keeps | rule kept_pure | simp)+

lemma kept_write_map [keeps]: "rest t = rest s \<Longrightarrow> kept2 s (write_map rip position nz t)"
  unfolding write_map_def Let_def by (rule kept_rules keeps | rule kept_pure | simp)+

lemma kept_clear_blocks [keeps]: "rest t = rest s \<Longrightarrow> kept s (clear_blocks dev bs t)"
proof (induction bs arbitrary: t)
  case (Cons b bs)
  show ?case unfolding clear_blocks.simps by (insert Cons.prems, (rule kept_rules keeps Cons.IH | simp)+)
qed (simp add: kept_Some)

lemma kept_clear_zone [keeps]: "rest t = rest s \<Longrightarrow> kept s (clear_zone rip pos flag t)"
  unfolding clear_zone_def Let_def by (rule kept_rules keeps | rule kept_pure | simp)+

lemma kept_new_file_block [keeps]: "rest t = rest s \<Longrightarrow> kept2 s (new_file_block rip position t)"
  unfolding new_file_block_def Let_def by (rule kept_rules keeps | rule kept_pure | simp)+

subsection \<open>Inodes\<close>

lemma kept_clock_time [keeps]: "rest t = rest s \<Longrightarrow> kept2 s (clock_time t)"
  by (auto simp: kept2_def clock_time_def fs_do_def Let_def split: if_splits prod.splits)

lemma kept_update_times [keeps]: "rest t = rest s \<Longrightarrow> kept s (update_times rip t)"
  unfolding update_times_def by (rule kept_rules keeps | rule kept_pure | simp)+

lemma kept_rw_inode [keeps]: "rest t = rest s \<Longrightarrow> kept s (rw_inode rip rw t)"
  unfolding rw_inode_def Let_def by (rule kept_rules keeps | rule kept_pure | simp)+

lemma kept_get_inode [keeps]: "rest t = rest s \<Longrightarrow> kept2 s (get_inode dev numb t)"
  unfolding get_inode_def Let_def by (rule kept_rules keeps | rule kept_pure | simp)+

lemma kept_free_inode [keeps]: "rest t = rest s \<Longrightarrow> kept s (free_inode dev numb t)"
  unfolding free_inode_def Let_def by (rule kept_rules keeps | rule kept_pure | simp)+

lemma kept_alloc_inode [keeps]: "rest t = rest s \<Longrightarrow> kept2 s (alloc_inode dev bits t)"
  unfolding alloc_inode_def Let_def by (rule kept_rules keeps | rule kept_pure | simp)+

lemma kept_free_data [keeps]: "rest t = rest s \<Longrightarrow> kept s (free_data rip scale dev ps t)"
proof (induction ps arbitrary: t)
  case (Cons p ps)
  show ?case unfolding free_data.simps by (insert Cons.prems, (rule kept_rules keeps Cons.IH | simp)+)
qed (simp add: kept_Some)

lemma kept_free_singles [keeps]: "rest t = rest s \<Longrightarrow> kept s (free_singles bp dev is t)"
proof (induction "is" arbitrary: t)
  case (Cons i "is")
  show ?case unfolding free_singles.simps by (insert Cons.prems, (rule kept_rules keeps Cons.IH | rule kept_pure | simp)+)
qed (simp add: kept_Some)

lemma kept_truncate [keeps]: "rest t = rest s \<Longrightarrow> kept s (truncate_inode rip t)"
  unfolding truncate_inode_def Let_def by (rule kept_rules keeps | rule kept_pure | simp)+

lemma kept_put_inode [keeps]: "rest t = rest s \<Longrightarrow> kept s (put_inode r t)"
  unfolding put_inode_def Let_def by (rule kept_rules keeps | rule kept_pure | simp)+

text \<open>For use on an equation: the operations return with the rest of the state as it was.\<close>

lemma keeps_eq: "kept s (Some t) \<Longrightarrow> rest t = rest s" "kept2 s (Some (a, t)) \<Longrightarrow> rest t = rest s"
  by (simp_all add: kept_def kept2_def)

end
