(* ===== verification/FS_Rw.thy ===== *)
theory FS_Rw
  imports FS_Pipe FS_Frame
begin

text \<open>
  Reading and writing files (\<^verbatim>\<open>servers/fs/read.c\<close>, and \<^verbatim>\<open>do_write\<close> of \<^verbatim>\<open>servers/fs/write.c\<close>). A request
  is split into chunks that lie in one block each; a chunk is copied between the buffer of its block and
  the user. Before a block is read from the device, \<open>rahead\<close> takes buffers for the blocks that follow and
  reads them in one request.

  A division by a block size of 0 has no defined outcome. \<^verbatim>\<open>*completed\<close>, which \<^verbatim>\<open>rw_chunk\<close> sets to 0 and nobody
  reads, is left out. \<open>select_callback\<close> (\<^verbatim>\<open>select.c\<close>) and \<open>dev_io\<close> (\<^verbatim>\<open>device.c\<close>, for character devices) are
  parameters.
\<close>

subsection \<open>Model: reading ahead\<close>

abbreviation (input) BLOCKS_MINIMUM :: u32 where "BLOCKS_MINIMUM \<equiv> 32"

definition zone_dev :: "inode \<Rightarrow> int" where
  "zone_dev ip = sshort (uint (i_zone ip 0))"

definition block_special :: "inode \<Rightarrow> bool" where
  "block_special ip \<longleftrightarrow> i_mode ip AND I_TYPE = I_BLOCK_SPECIAL"

text \<open>How many blocks to read.\<close>

definition blocks_to_read :: "nat \<Rightarrow> nat \<Rightarrow> u32 \<Rightarrow> u32 \<Rightarrow> fsstate \<Rightarrow> u32 option" where
  "blocks_to_read rip block_size position bytes_ahead s = do {
     let ip = inodes s rip;
     let bs = (of_nat block_size :: u32);
     guard (bs \<noteq> 0);
     let fragment = position mod bs;
     let position = position - fragment;
     let blocks_ahead = (bytes_ahead + fragment + bs - 1) div bs;
     (blocks_ahead, blocks_left) \<leftarrow>
       (if block_special ip \<and> i_size ip = 0 then Some (blocks_ahead, of_nat NR_IOREQS)
        else do {
          let blocks_left = (i_size ip - position + bs - 1) div bs;
          if block_special ip then Some (blocks_ahead, blocks_left)
          else do {
            spi \<leftarrow> i_sp ip;
            let scale = s_log_zone_size (super_blocks s spi);
            guard (0 \<le> scale \<and> scale < 32);
            let ind1_pos = of_nat (i_ndzones ip) * push_bit (nat scale) bs;
            if position \<le> ind1_pos \<and> ind1_pos < i_size ip then Some (blocks_ahead + 1, blocks_left + 1)
            else Some (blocks_ahead, blocks_left)
          }
        });
     let blocks_ahead = min blocks_ahead (of_nat NR_IOREQS);
     let blocks_ahead = (if blocks_ahead < BLOCKS_MINIMUM \<and> \<not> i_seek ip then BLOCKS_MINIMUM else blocks_ahead);
     Some (min blocks_ahead blocks_left)
   }"

text \<open>Taking the buffers: the queue, with the buffer \<open>bp\<close> for \<open>block\<close> to be put into it.\<close>

partial_function (option) prefetch ::
  "int \<Rightarrow> u32 \<Rightarrow> u32 \<Rightarrow> nat \<Rightarrow> nat list \<Rightarrow> fsstate \<Rightarrow> (nat list \<times> fsstate) option" where
  "prefetch dev blocks_ahead block bp q s = (
     let q = q @ [bp]; blocks_ahead = blocks_ahead - 1 in
     if blocks_ahead = 0 then Some (q, s)
     else if int NR_BUFS - 4 \<le> bufs_in_use s then Some (q, s)
     else do {
       (bp, s1) \<leftarrow> get_block dev (block + 1) PREFETCH s;
       if b_dev (bufs s1 bp) \<noteq> NO_DEV then do {
         s2 \<leftarrow> put_block (Some bp) FULL_DATA_BLOCK s1;
         Some (q, s2)
       } else prefetch dev blocks_ahead (block + 1) bp q s1
     })"

definition rahead :: "nat \<Rightarrow> u32 \<Rightarrow> u32 \<Rightarrow> u32 \<Rightarrow> fsstate \<Rightarrow> (nat \<times> fsstate) option" where
  "rahead rip baseblock position bytes_ahead s = do {
     let ip = inodes s rip;
     let dev = (if block_special ip then zone_dev ip else i_dev ip);
     block_size \<leftarrow> get_block_size dev s;
     (bp, s1) \<leftarrow> get_block dev baseblock PREFETCH s;
     if b_dev (bufs s1 bp) \<noteq> NO_DEV then Some (bp, s1)
     else do {
       blocks_ahead \<leftarrow> blocks_to_read rip block_size position bytes_ahead s1;
       (read_q, s2) \<leftarrow> prefetch dev blocks_ahead baseblock bp [] s1;
       s3 \<leftarrow> rw_scattered dev read_q READING s2;
       get_block dev baseblock NORMAL s3
     }
   }"

definition read_ahead :: "fsstate \<Rightarrow> fsstate option" where
  "read_ahead s = do {
     rip \<leftarrow> rdahed_inode s;
     block_size \<leftarrow> get_block_size (i_dev (inodes s rip)) s;
     (b, s1) \<leftarrow> read_map rip (rdahedpos s) (s\<lparr>rdahed_inode := None\<rparr>);
     if b = NO_BLOCK then Some s1
     else do {
       (bp, s2) \<leftarrow> rahead rip b (rdahedpos s1) (of_nat block_size) s1;
       put_block (Some bp) PARTIAL_DATA_BLOCK s2
     }
   }"

subsection \<open>Model: one chunk\<close>

text \<open>The buffer of the chunk's block; \<open>None\<close> in the result is the failure of \<^verbatim>\<open>new_block\<close>.\<close>

definition chunk_block :: "nat \<Rightarrow> u32 \<Rightarrow> nat \<Rightarrow> nat \<Rightarrow> u32 \<Rightarrow> rw_flag \<Rightarrow> nat \<Rightarrow> fsstate \<Rightarrow> (nat option \<times> fsstate) option" where
  "chunk_block rip position off chunk left rw block_size s = do {
     let spec = block_special (inodes s rip);
     (b, dev, s0) \<leftarrow>
       (if spec then do {
          guard (0 < block_size);
          Some (of_nat (unat position div block_size), zone_dev (inodes s rip), s)
        } else do {
          (b, s0) \<leftarrow> read_map rip position s;
          Some (b, i_dev (inodes s0 rip), s0)
        });
     if \<not> spec \<and> b = NO_BLOCK then
       (case rw of
          READING \<Rightarrow> do {
            (bp, s1) \<leftarrow> get_block NO_DEV NO_BLOCK NORMAL s0;
            Some (Some bp, zero_block bp s1)
          }
        | WRITING \<Rightarrow> new_file_block rip position s0)
     else (case rw of
          READING \<Rightarrow> do {
            (bp, s1) \<leftarrow> rahead rip b position left s0;
            Some (Some bp, s1)
          }
        | WRITING \<Rightarrow> do {
            let n = (if chunk = block_size then NO_READ else NORMAL);
            let n = (if \<not> spec \<and> off = 0 \<and> i_size (inodes s0 rip) \<le> position then NO_READ else n);
            (bp, s1) \<leftarrow> get_block dev b n s0;
            Some (Some bp, s1)
          })
   }"

text \<open>Copying: the bytes that the user supplied go into the buffer if the copy succeeded.\<close>

definition copy_chunk :: "nat \<Rightarrow> nat \<Rightarrow> nat \<Rightarrow> rw_flag \<Rightarrow> u32 \<Rightarrow> int \<Rightarrow> int \<Rightarrow> fsstate \<Rightarrow> int \<times> fsstate" where
  "copy_chunk bp off chunk rw buff seg usr s =
     (case rw of
        READING \<Rightarrow>
          (let ((r, _), s1) = fs_do (Fs_copy_out usr seg buff (\<lambda>i. b_data (bufs s bp) (off + i)) chunk) s in (r, s1))
      | WRITING \<Rightarrow>
          (let ((r, d), s1) = fs_do (Fs_copy_in usr seg buff chunk) s in
           (r, set_data bp (\<lambda>i. if r = OK \<and> off \<le> i \<and> i < off + chunk then d (i - off) else b_data (bufs s1 bp) i) s1)))"

definition rw_chunk :: "nat \<Rightarrow> u32 \<Rightarrow> nat \<Rightarrow> nat \<Rightarrow> u32 \<Rightarrow> rw_flag \<Rightarrow> u32 \<Rightarrow> int \<Rightarrow> int \<Rightarrow> nat \<Rightarrow> fsstate
    \<Rightarrow> (int \<times> fsstate) option" where
  "rw_chunk rip position off chunk left rw buff seg usr block_size s = do {
     (bq, s1) \<leftarrow> chunk_block rip position off chunk left rw block_size s;
     case bq of
       None \<Rightarrow> Some (err_code s1, s1)
     | Some bp \<Rightarrow> do {
         let ip = inodes s1 rip;
         let s2 = (if rw = WRITING \<and> chunk \<noteq> block_size \<and> \<not> block_special ip \<and> i_size ip \<le> position \<and> off = 0
           then zero_block bp s1 else s1);
         let (r, s3) = copy_chunk bp off chunk rw buff seg usr s2;
         s4 \<leftarrow> put_block (Some bp) (if off + chunk = block_size then FULL_DATA_BLOCK else PARTIAL_DATA_BLOCK) s3;
         Some (r, s4)
       }
   }"

subsection \<open>Model: a request\<close>

type_synonym dev_ops = "rw_flag \<Rightarrow> int \<Rightarrow> int \<Rightarrow> u32 \<Rightarrow> u32 \<Rightarrow> int \<Rightarrow> u32 \<Rightarrow> fsstate \<Rightarrow> (int \<times> fsstate) option"

text \<open>\<^verbatim>\<open>m_in.buffer += n; m_in.nbytes -= n\<close>.\<close>

definition advance_request :: "int \<Rightarrow> fsstate \<Rightarrow> fsstate" where
  "advance_request n s = s\<lparr>fs_m_in := (fs_m_in s)\<lparr>m_w3 := m_w3 (fs_m_in s) + word_of_int n,
     m_w1 := m_w1 (fs_m_in s) - word_of_int n\<rparr>\<rparr>"

record progress =
  pg_r :: int
  pg_pos :: u32
  pg_cum :: int
  pg_partial :: int

text \<open>The size of the next chunk; \<open>None\<close> is the end of the file.\<close>

definition chunk_size :: "rw_flag \<Rightarrow> u32 \<Rightarrow> nat \<Rightarrow> bool \<Rightarrow> int \<Rightarrow> u32 \<Rightarrow> int \<Rightarrow> int option" where
  "chunk_size rw f_size block_size partial_pipe partial_cnt position nbytes = (
     let off = unat position mod block_size;
         room = int block_size - int off;
         chunk = min (if partial_pipe then partial_cnt else nbytes) room;
         chunk = (if chunk < 0 then room else chunk)
     in case rw of
          READING \<Rightarrow> if f_size \<le> position then None else Some (min chunk (uint (f_size - position)))
        | WRITING \<Rightarrow> Some chunk)"

partial_function (option) rw_loop ::
  "nat \<Rightarrow> rw_flag \<Rightarrow> u32 \<Rightarrow> nat \<Rightarrow> int \<Rightarrow> int \<Rightarrow> bool \<Rightarrow> progress \<Rightarrow> fsstate \<Rightarrow> (progress \<times> fsstate) option" where
  "rw_loop rip rw f_size block_size usr seg partial_pipe pg s =
     (if m_nbytes (fs_m_in s) = 0 then Some (pg, s)
      else do {
        guard (0 < block_size);
        case chunk_size rw f_size block_size partial_pipe (pg_partial pg) (pg_pos pg) (m_nbytes (fs_m_in s)) of
          None \<Rightarrow> Some (pg, s)
        | Some chunk \<Rightarrow> do {
            (r, s1) \<leftarrow> rw_chunk rip (pg_pos pg) (unat (pg_pos pg) mod block_size) (nat chunk)
              (word_of_int (m_nbytes (fs_m_in s))) rw (m_buffer (fs_m_in s)) seg usr block_size s;
            let pg = pg\<lparr>pg_r := r\<rparr>;
            if r \<noteq> OK \<or> rdwt_err s1 < 0 then Some (pg, s1)
            else do {
              let s2 = advance_request chunk s1;
              let pg = pg\<lparr>pg_cum := pg_cum pg + chunk, pg_pos := pg_pos pg + word_of_int chunk\<rparr>;
              if partial_pipe then do {
                let pg = pg\<lparr>pg_partial := pg_partial pg - chunk\<rparr>;
                if pg_partial pg \<le> 0 then Some (pg, s2)
                else rw_loop rip rw f_size block_size usr seg partial_pipe pg s2
              } else rw_loop rip rw f_size block_size usr seg partial_pipe pg s2
            }
          }
      })"

text \<open>The block size a request works with, and the size of its file; a special file without a device is a panic.\<close>

definition rw_block_size :: "inode \<Rightarrow> fsstate \<Rightarrow> nat option" where
  "rw_block_size ip s =
     (if i_mode ip AND I_TYPE = I_CHAR_SPECIAL \<or> block_special ip
      then do { guard (i_zone ip 0 \<noteq> 0); get_block_size (zone_dev ip) s }
      else do { spi \<leftarrow> i_sp ip; Some (s_block_size (super_blocks s spi)) })"

definition rw_file_size :: "inode \<Rightarrow> u32" where
  "rw_file_size ip = (if block_special ip then - 1 else i_size ip)"

text \<open>The transfer of a request that is not for a character device: an early error, or how far it came.\<close>

definition rw_blocks :: "select_cb \<Rightarrow> rw_flag \<Rightarrow> nat \<Rightarrow> u32 \<Rightarrow> nat \<Rightarrow> int \<Rightarrow> int \<Rightarrow> progress \<Rightarrow> fsstate
    \<Rightarrow> ((int + progress \<times> bool) \<times> fsstate) option" where
  "rw_blocks select_callback rw rip oflags block_size usr seg pg s = do {
     let ip = inodes s rip;
     let nbytes = m_nbytes (fs_m_in s);
     let f_size = rw_file_size ip;
     let grow = (rw = WRITING \<and> \<not> block_special ip);
     max_size \<leftarrow> (if grow then do { spi \<leftarrow> i_sp ip; Some (s_max_size (super_blocks s spi)) } else Some 0);
     if grow \<and> max_size - word_of_int nbytes < pg_pos pg then Some (Inl EFBIG, s)
     else do {
       let pg = (if grow \<and> oflags AND O_APPEND \<noteq> 0 then pg\<lparr>pg_pos := f_size\<rparr> else pg);
       s1 \<leftarrow> (if grow \<and> f_size < pg_pos pg then clear_zone rip f_size False s else Some s);
       (r, partial_cnt, s2) \<leftarrow>
         (if i_pipe ip then pipe_check select_callback rip rw oflags nbytes (pg_pos pg) 0 False s1
          else Some (OK, 0, s1));
       if i_pipe ip \<and> r \<le> 0 then Some (Inl r, s2)
       else do {
         let partial_pipe = (0 < partial_cnt);
         (pg, s3) \<leftarrow> rw_loop rip rw f_size block_size usr seg partial_pipe (pg\<lparr>pg_r := r, pg_partial := partial_cnt\<rparr>) s2;
         Some (Inr (pg, partial_pipe), s3)
       }
     }
   }"

text \<open>What remains to be done after the transfer: sizes, positions, read-ahead and times.\<close>

definition rw_position :: "rw_flag \<Rightarrow> nat \<Rightarrow> u32 \<Rightarrow> u32 \<Rightarrow> fsstate \<Rightarrow> u32 \<times> fsstate" where
  "rw_position rw rip f_size position s = (
     let ip = inodes s rip; mode_word = i_mode ip AND I_TYPE;
         regular = (mode_word = I_REGULAR \<or> mode_word = I_NAMED_PIPE)
     in case rw of
          WRITING \<Rightarrow> (position, if (regular \<or> mode_word = I_DIRECTORY) \<and> f_size < position
            then upd_inode rip (\<lambda>ip. ip\<lparr>i_size := position\<rparr>) s else s)
        | READING \<Rightarrow>
            if i_pipe ip \<and> i_size ip \<le> position then
              (let s1 = upd_inode rip (\<lambda>ip. ip\<lparr>i_size := 0\<rparr>) s in
               (0, case find_filp rip W_BIT s1 of None \<Rightarrow> s1 | Some w \<Rightarrow> upd_filp w (\<lambda>f. f\<lparr>filp_pos := 0\<rparr>) s1))
            else (position, s))"

definition plan_read_ahead :: "rw_flag \<Rightarrow> nat \<Rightarrow> u32 \<Rightarrow> nat \<Rightarrow> fsstate \<Rightarrow> fsstate" where
  "plan_read_ahead rw rip position block_size s = (
     let ip = inodes s rip; mode_word = i_mode ip AND I_TYPE
     in if rw = READING \<and> \<not> i_seek ip \<and> unat position mod block_size = 0 \<and>
           (mode_word = I_REGULAR \<or> mode_word = I_NAMED_PIPE \<or> mode_word = I_DIRECTORY)
        then s\<lparr>rdahed_inode := Some rip, rdahedpos := position\<rparr> else s)"

definition rw_finish :: "rw_flag \<Rightarrow> nat \<Rightarrow> nat \<Rightarrow> u32 \<Rightarrow> u32 \<Rightarrow> nat \<Rightarrow> progress \<Rightarrow> bool \<Rightarrow> fsstate \<Rightarrow> (int \<times> fsstate) option" where
  "rw_finish rw f rip oflags f_size block_size pg partial_pipe s = do {
     let (position, s1) = rw_position rw rip f_size (pg_pos pg) s;
     let s2 = upd_filp f (\<lambda>fl. fl\<lparr>filp_pos := position\<rparr>) s1;
     guard (rw = READING \<and> \<not> i_seek (inodes s2 rip) \<longrightarrow> 0 < block_size);
     let s3 = plan_read_ahead rw rip position block_size s2;
     let s4 = upd_inode rip (\<lambda>ip. ip\<lparr>i_seek := False\<rparr>) s3;
     let r = (if rdwt_err s4 = END_OF_FILE then OK else if rdwt_err s4 \<noteq> OK then rdwt_err s4 else pg_r pg);
     if r = OK then do {
       let s5 = upd_inode rip (\<lambda>ip. ip\<lparr>i_update := i_update ip \<union> (if rw = READING then {ATIME} else {CTIME, MTIME}), i_dirt := True\<rparr>) s4;
       if partial_pipe \<and> oflags AND O_NONBLOCK = 0 then
         Some (SUSPEND, suspend XPIPE (upd_fproc (fp s5) (\<lambda>p. p\<lparr>fp_cum_io_partial := pg_cum pg\<rparr>) s5))
       else Some (pg_cum pg, upd_fproc (fp s5) (\<lambda>p. p\<lparr>fp_cum_io_partial := 0\<rparr>) s5)
     } else do {
       guard (0 \<le> bufs_in_use s4);
       Some (r, s4)
     }
   }"

text \<open>A request on the open file \<open>f\<close>.\<close>

definition rw_file :: "select_cb \<Rightarrow> dev_ops \<Rightarrow> rw_flag \<Rightarrow> nat \<Rightarrow> int \<Rightarrow> int \<Rightarrow> fsstate \<Rightarrow> (int \<times> fsstate) option" where
  "rw_file select_callback dev_io rw f usr seg s = do {
     let oflags = filp_flags (filps s f);
     rip \<leftarrow> filp_ino (filps s f);
     let ip = inodes s rip;
     let pg = \<lparr>pg_r = OK, pg_pos = filp_pos (filps s f),
       pg_cum = (if i_pipe ip then fp_cum_io_partial (fprocs s (fp s)) else 0), pg_partial = 0\<rparr>;
     block_size \<leftarrow> rw_block_size ip s;
     let s1 = s\<lparr>rdwt_err := OK\<rparr>;
     (res, s2) \<leftarrow>
       (if i_mode ip AND I_TYPE = I_CHAR_SPECIAL then do {
          (r, s2) \<leftarrow> dev_io rw (zone_dev ip) usr (m_buffer (fs_m_in s1)) (pg_pos pg) (m_nbytes (fs_m_in s1)) oflags s1;
          Some (Inr (if 0 \<le> r then pg\<lparr>pg_cum := r, pg_pos := pg_pos pg + word_of_int r\<rparr> else pg\<lparr>pg_r := r\<rparr>, False), s2)
        } else rw_blocks select_callback rw rip oflags block_size usr seg pg s1);
     case res of
       Inl r \<Rightarrow> Some (r, s2)
     | Inr (pg, partial_pipe) \<Rightarrow> rw_finish rw f rip oflags (rw_file_size ip) block_size pg partial_pipe s2
   }"

text \<open>
  The call. The process manager puts the process and the segment for which it loads a program into the
  upper bits of the file descriptor.
\<close>

abbreviation (input) FILP_CLOSED :: u16 where "FILP_CLOSED \<equiv> 0"

definition rw_target :: "fsstate \<Rightarrow> int \<times> int \<times> fsstate" where
  "rw_target s = (
     let fd = m_w0 (fs_m_in s) in
     if fs_who s = PM_PROC_NR \<and> fd AND NOT 0xFF \<noteq> 0
     then (drop_bit 7 (sint fd), take_bit 2 (drop_bit 5 (sint fd)), s\<lparr>fs_m_in := (fs_m_in s)\<lparr>m_w0 := fd AND 0x1F\<rparr>\<rparr>)
     else (fs_who s, 1, s))"

definition read_write :: "select_cb \<Rightarrow> dev_ops \<Rightarrow> rw_flag \<Rightarrow> fsstate \<Rightarrow> (int \<times> fsstate) option" where
  "read_write select_callback dev_io rw s = do {
     guard (0 \<le> bufs_in_use s);
     let (usr, seg, s0) = rw_target s;
     let nbytes = m_nbytes (fs_m_in s0);
     if nbytes < 0 then Some (EINVAL, s0)
     else (case get_filp (m_fd (fs_m_in s0)) s0 of
       (None, s1) \<Rightarrow> Some (err_code s1, s1)
     | (Some f, s1) \<Rightarrow>
         if filp_mode (filps s1 f) AND (case rw of READING \<Rightarrow> R_BIT | WRITING \<Rightarrow> W_BIT) = 0
         then Some (if filp_mode (filps s1 f) = FILP_CLOSED then EIO else EBADF, s1)
         else if nbytes = 0 then Some (0, s1)
         else (let ((r, _), s2) = fs_do (Fs_umap usr seg (m_buffer (fs_m_in s1)) (nat nbytes)) s1 in
           if r \<noteq> OK then Some (r, s2) else rw_file select_callback dev_io rw f usr seg s2))
   }"

definition do_read :: "select_cb \<Rightarrow> dev_ops \<Rightarrow> fsstate \<Rightarrow> (int \<times> fsstate) option" where
  "do_read select_callback dev_io s = read_write select_callback dev_io READING s"

definition do_write :: "select_cb \<Rightarrow> dev_ops \<Rightarrow> fsstate \<Rightarrow> (int \<times> fsstate) option" where
  "do_write select_callback dev_io s = read_write select_callback dev_io WRITING s"

subsection \<open>Reading ahead changes nothing\<close>

lemma claim_block:
  assumes ok: "cache_ok s" and bp: "bp < NR_BUFS" "b_dev (bufs s bp) = NO_DEV" and d: "d \<noteq> NO_DEV"
    and new: "cached s d (b_blocknr (bufs s bp)) = None" "fits s d (b_blocknr (bufs s bp))"
      "\<forall>off<bsz s d. b_data (bufs s bp) off = contents s d (b_blocknr (bufs s bp)) off"
  defines "t \<equiv> upd_buf bp (\<lambda>b. b\<lparr>b_dev := d\<rparr>) s"
  shows "cache_ok t" "same_contents s t"
proof -
  have sel: "disk t = disk s" "super_blocks t = super_blocks s" "\<And>i. i \<noteq> bp \<Longrightarrow> bufs t i = bufs s i"
    "b_dev (bufs t bp) = d" "b_blocknr (bufs t bp) = b_blocknr (bufs s bp)" "b_data (bufs t bp) = b_data (bufs s bp)"
    by (simp_all add: t_def upd_buf_def)
  have co: "coherent s" using ok by (simp add: cache_ok_def)
  have "coherent t \<and> same_contents s t"
    by (intro conjI replace_block [OF co bp(1) disjI1 [OF bp(2)] sel(3,1,2)])
      (use new in \<open>simp_all add: sel(4-6) contents_def\<close>)
  then show "same_contents s t" by blast
  have "lru_chain t ys \<longleftrightarrow> lru_chain s ys" for ys by (rule lru_chain_cong) (simp_all add: t_def upd_buf_def)
  moreover have "hash_chains {} t \<longleftrightarrow> hash_chains {} s" by (rule hash_chains_cong) (simp_all add: t_def upd_buf_def)
  moreover have "b_count (bufs t i) = b_count (bufs s i)" for i by (simp add: t_def upd_buf_def)
  ultimately show "cache_ok t" using ok \<open>coherent t \<and> _\<close> by (simp add: cache_ok_def linked_def free_bufs_def)
qed

text \<open>The data of a buffer without a block plays no role.\<close>

lemma scratch_data:
  assumes ok: "cache_ok s" and e: "buf_hash t = buf_hash s" "front t = front s" "rear t = rear s" "disk t = disk s"
      "super_blocks t = super_blocks s"
    and b: "\<And>i. bufs t i = (bufs s i)\<lparr>b_data := b_data (bufs t i), b_dirt := b_dirt (bufs t i)\<rparr>"
    and n: "\<And>i. b_dev (bufs s i) \<noteq> NO_DEV \<Longrightarrow> bufs t i = bufs s i"
  shows "cache_ok t" "same_contents s t" "cached t = cached s"
proof -
  have sel: "b_dev (bufs t i) = b_dev (bufs s i)" "b_blocknr (bufs t i) = b_blocknr (bufs s i)" "b_count (bufs t i) = b_count (bufs s i)"
    "b_next (bufs t i) = b_next (bufs s i)" "b_prev (bufs t i) = b_prev (bufs s i)" "b_hash (bufs t i) = b_hash (bufs s i)" for i
    by (subst b, simp)+
  show c: "cached t = cached s" by (simp add: cached_def sel fun_eq_iff)
  have bs: "bsz t = bsz s" "fits t = fits s" by (intro ext bsz_cong fits_cong e(5))+
  have da: "b_data (bufs t i) = b_data (bufs s i)" "b_dirt (bufs t i) = b_dirt (bufs s i)" if "b_dev (bufs s i) \<noteq> NO_DEV" for i
    by (simp_all add: n [OF that])
  have "coherent t = coherent s" unfolding coherent_def sel bs e(4) by (simp add: da cong: conj_cong)
  moreover have "lru_chain t ys \<longleftrightarrow> lru_chain s ys" for ys by (rule lru_chain_cong) (simp_all add: sel e)
  moreover have "hash_chains {} t \<longleftrightarrow> hash_chains {} s" by (rule hash_chains_cong) (simp_all add: sel e)
  ultimately show "cache_ok t" using ok by (simp add: cache_ok_def linked_def free_bufs_def sel)
  show "same_contents s t"
    unfolding same_contents_def
  proof (intro allI impI)
    fix d k off assume "d \<noteq> NO_DEV"
    then show "contents t d k off = contents s d k off"
      using n cached_SomeD [of s d k] by (auto simp: contents_def c bs e split: option.split)
  qed
qed

lemma move_blocks_read:
  assumes "distinct q"
  shows "move_blocks READING d bs q s = s\<lparr>bufs := (\<lambda>i. if i \<in> set q
    then (bufs s i)\<lparr>b_data := disk_read d (b_blocknr (bufs s i) * of_nat bs) bs (b_data (bufs s i)) s\<rparr> else bufs s i)\<rparr>"
  using assms
proof (induction q arbitrary: s)
  case (Cons b q)
  let ?f = "\<lambda>i. (bufs s i)\<lparr>b_data := disk_read d (b_blocknr (bufs s i) * of_nat bs) bs (b_data (bufs s i)) s\<rparr>"
  define t where "t = s\<lparr>bufs := (bufs s)(b := ?f b)\<rparr>"
  have t: "disk_read d p n old t = disk_read d p n old s" for p n old by (simp add: t_def)
  have "move_blocks READING d bs (b # q) s = move_blocks READING d bs q t"
    by (simp add: t_def upd_buf_def Let_def)
  also have "\<dots> = t\<lparr>bufs := (\<lambda>i. if i \<in> set q
      then (bufs t i)\<lparr>b_data := disk_read d (b_blocknr (bufs t i) * of_nat bs) bs (b_data (bufs t i)) s\<rparr> else bufs t i)\<rparr>"
    using Cons by (simp add: t cong: if_cong)
  also have "(\<lambda>i. if i \<in> set q
      then (bufs t i)\<lparr>b_data := disk_read d (b_blocknr (bufs t i) * of_nat bs) bs (b_data (bufs t i)) s\<rparr> else bufs t i) =
      (\<lambda>i. if i \<in> set (b # q) then ?f i else bufs s i)"
    using Cons.prems by (auto simp: t_def)
  finally show ?case by (simp add: t_def)
qed simp

text \<open>Giving the blocks that were read to their buffers, and releasing them.\<close>

definition prefetched :: "int \<Rightarrow> nat list \<Rightarrow> fsstate \<Rightarrow> bool" where
  "prefetched d q s \<longleftrightarrow> cache_ok s \<and> io_works s \<and> distinct q \<and> inj_on (\<lambda>b. b_blocknr (bufs s b)) (set q) \<and>
     (\<forall>b\<in>set q. b < NR_BUFS \<and> b_dev (bufs s b) = NO_DEV \<and> b_count (bufs s b) = 1 \<and>
        cached s d (b_blocknr (bufs s b)) = None \<and> fits s d (b_blocknr (bufs s b)))"

lemma harvest_reads:
  assumes p: "prefetched d q s" and d: "d \<noteq> NO_DEV"
    and dat: "\<forall>b\<in>set q. \<forall>off<bsz s d. b_data (bufs s b) off = contents s d (b_blocknr (bufs s b)) off"
  shows "\<exists>s'. harvest READING d q s = Some s' \<and> cache_ok s' \<and> same_contents s s' \<and> cache_frame s s' \<and>
    (\<forall>i. b_count (bufs s' i) = (if i \<in> set q then 0 else b_count (bufs s i)) \<and>
       (i \<notin> set q \<longrightarrow> b_dev (bufs s' i) = b_dev (bufs s i) \<and> b_blocknr (bufs s' i) = b_blocknr (bufs s i)))"
  using p dat
proof (induction q arbitrary: s)
  case Nil
  then show ?case by (simp add: same_contents_def prefetched_def)
next
  case (Cons b q)
  define s1 where "s1 = upd_buf b (\<lambda>b. b\<lparr>b_dev := d\<rparr>) s"
  have H: "cache_ok s" "io_works s" "b < NR_BUFS" "b_dev (bufs s b) = NO_DEV" "b_count (bufs s b) = 1"
    "cached s d (b_blocknr (bufs s b)) = None" "fits s d (b_blocknr (bufs s b))" "b \<notin> set q"
    "\<forall>off<bsz s d. b_data (bufs s b) off = contents s d (b_blocknr (bufs s b)) off"
    using Cons.prems by (simp_all add: prefetched_def)
  have c1: "cache_ok s1" "same_contents s s1" unfolding s1_def by (rule claim_block [OF H(1,3,4) d H(6,7,9)])+
  have f1: "cache_frame s s1" by (simp add: s1_def)
  have io1: "io_works s1" by (rule io_works_frame [OF f1 H(2)])
  have b1: "b_count (bufs s1 b) = 1" "b_dev (bufs s1 b) = d" by (simp_all add: s1_def upd_buf_def H)
  from put_block_spec [OF c1(1) io1 H(3), of PARTIAL_DATA_BLOCK] b1 obtain s2 where
    s2: "put_block (Some b) PARTIAL_DATA_BLOCK s1 = Some s2" "cache_ok s2" "same_contents s1 s2" "kept_bufs b s1 s2"
      "b_count (bufs s2 b) = 0" "cache_frame s1 s2" "b_dev (bufs s2 b) = d" "b_blocknr (bufs s2 b) = b_blocknr (bufs s1 b)" by auto
  have f2: "cache_frame s s2" using f1 s2(6) by (rule cache_frame_trans)
  have sup: "super_blocks s1 = super_blocks s" "super_blocks s2 = super_blocks s" using f1 f2 by (simp_all add: cache_frame_sel)
  have e: "bsz s2 = bsz s" "fits s2 = fits s" by (intro ext bsz_cong fits_cong sup)+
  have sc: "same_contents s s2" by (rule same_contents_trans [OF c1(2) s2(3) sup(1)])
  have k: "b_dev (bufs s2 i) = b_dev (bufs s i)" "b_blocknr (bufs s2 i) = b_blocknr (bufs s i)" "b_data (bufs s2 i) = b_data (bufs s i)"
    "b_count (bufs s2 i) = b_count (bufs s i)" if "i \<noteq> b" for i
    using s2(4) that by (simp_all add: kept_bufs_def s1_def upd_buf_def)
  have bb: "b_blocknr (bufs s2 b) = b_blocknr (bufs s b)" using s2(8) by (simp add: s1_def upd_buf_def)
  have p2: "prefetched d q s2"
    unfolding prefetched_def
  proof (intro conjI ballI)
    show "cache_ok s2" "io_works s2" "distinct q"
      using s2(2) io_works_frame [OF f2 H(2)] Cons.prems(1) by (simp_all add: prefetched_def)
    have "b_blocknr (bufs s2 x) = b_blocknr (bufs s x)" for x using k(2) bb by (cases "x = b") auto
    then show "inj_on (\<lambda>b. b_blocknr (bufs s2 b)) (set q)" using Cons.prems(1) by (simp add: prefetched_def)
    fix x assume x: "x \<in> set q"
    then have xb: "x \<noteq> b" using H(8) by blast
    note X = Cons.prems(1) [unfolded prefetched_def]
    show "x < NR_BUFS" "b_dev (bufs s2 x) = NO_DEV" "b_count (bufs s2 x) = 1"
      "fits s2 d (b_blocknr (bufs s2 x))" using X x by (simp_all add: k [OF xb] e)
    have ne: "b_blocknr (bufs s b) \<noteq> b_blocknr (bufs s x)"
      using X x xb by (auto simp: inj_on_def)
    have "cached s d (b_blocknr (bufs s x)) = None" using X x by simp
    then show "cached s2 d (b_blocknr (bufs s2 x)) = None"
      unfolding cached_None_iff k(2) [OF xb] using k bb ne by metis
  qed
  have "\<forall>x\<in>set q. \<forall>off<bsz s2 d. b_data (bufs s2 x) off = contents s2 d (b_blocknr (bufs s2 x)) off"
  proof (intro ballI allI impI)
    fix x off assume x: "x \<in> set q" "off < bsz s2 d"
    then have xb: "x \<noteq> b" using H(8) by blast
    from x Cons.prems(1) have "fits s d (b_blocknr (bufs s x))" by (simp add: prefetched_def)
    with sc d x(2) have "contents s2 d (b_blocknr (bufs s x)) off = contents s d (b_blocknr (bufs s x)) off"
      by (simp add: same_contents_def e)
    with Cons.prems(2) x show "b_data (bufs s2 x) off = contents s2 d (b_blocknr (bufs s2 x)) off"
      by (simp add: k [OF xb] e)
  qed
  from Cons.IH [OF p2 this] obtain s' where s': "harvest READING d q s2 = Some s'" "cache_ok s'" "same_contents s2 s'" "cache_frame s2 s'"
    "\<forall>i. b_count (bufs s' i) = (if i \<in> set q then 0 else b_count (bufs s2 i)) \<and>
       (i \<notin> set q \<longrightarrow> b_dev (bufs s' i) = b_dev (bufs s2 i) \<and> b_blocknr (bufs s' i) = b_blocknr (bufs s2 i))" by blast
  have "harvest READING d (b # q) s = Some s'" using s2(1) s'(1) by (simp add: s1_def)
  moreover have "same_contents s s'" by (rule same_contents_trans [OF sc s'(3) sup(2)])
  moreover have "cache_frame s s'" using f2 s'(4) by (rule cache_frame_trans)
  moreover have "b_count (bufs s' i) = (if i \<in> set (b # q) then 0 else b_count (bufs s i)) \<and>
       (i \<notin> set (b # q) \<longrightarrow> b_dev (bufs s' i) = b_dev (bufs s i) \<and> b_blocknr (bufs s' i) = b_blocknr (bufs s i))" for i
    using s'(5) k [of i] s2(5) by (cases "i = b") auto
  ultimately show ?case using s'(2) by blast
qed

lemma prefetched_sub:
  assumes "prefetched d q s" "set p \<subseteq> set q" "distinct p"
  shows "prefetched d p s"
  using assms unfolding prefetched_def by (auto intro: inj_on_subset)

text \<open>The rest of the buffers is released unread.\<close>

definition released :: "nat list \<Rightarrow> fsstate \<Rightarrow> fsstate \<Rightarrow> bool" where
  "released q s s' \<longleftrightarrow> cache_ok s' \<and> io_works s' \<and> same_contents s s' \<and> cache_frame s s' \<and>
    (\<forall>i. b_count (bufs s' i) = (if i \<in> set q then 0 else b_count (bufs s i)) \<and>
       (i \<notin> set q \<longrightarrow> b_dev (bufs s' i) = b_dev (bufs s i) \<and> b_blocknr (bufs s' i) = b_blocknr (bufs s i)))"

lemma released_refl: "cache_ok s \<Longrightarrow> io_works s \<Longrightarrow> released [] s s"
  by (simp add: released_def same_contents_def)

lemma released_trans:
  assumes "released p s s1" "released q s1 s2"
  shows "released (p @ q) s s2"
proof -
  have "super_blocks s1 = super_blocks s" using assms(1) by (simp add: released_def cache_frame_sel)
  then have "same_contents s s2" using assms same_contents_trans [of s s1 s2] by (simp add: released_def)
  with assms show ?thesis unfolding released_def by (auto intro: cache_frame_trans)
qed

lemma put_all_releases:
  assumes "cache_ok s" "io_works s" "distinct q" "\<forall>b\<in>set q. b < NR_BUFS \<and> b_count (bufs s b) = 1"
  shows "\<exists>s'. put_all q s = Some s' \<and> released q s s'"
  using assms
proof (induction q arbitrary: s)
  case Nil
  then show ?case by (simp add: released_refl)
next
  case (Cons b q)
  from put_block_spec [of s b PARTIAL_DATA_BLOCK] Cons.prems obtain s2 where
    s2: "put_block (Some b) PARTIAL_DATA_BLOCK s = Some s2" "cache_ok s2" "same_contents s s2" "kept_bufs b s s2"
      "b_count (bufs s2 b) = 0" "cache_frame s s2" by auto
  have io2: "io_works s2" by (rule io_works_frame [OF s2(6) Cons.prems(2)])
  have "released [b] s s2" using s2 io2 by (simp add: released_def kept_bufs_def)
  have "\<forall>x\<in>set q. x < NR_BUFS \<and> b_count (bufs s2 x) = 1"
  proof
    fix x assume x: "x \<in> set q"
    then have "x \<noteq> b" using Cons.prems(3) by auto
    with s2(4) x Cons.prems(4) show "x < NR_BUFS \<and> b_count (bufs s2 x) = 1" by (simp add: kept_bufs_def)
  qed
  from Cons.IH [OF s2(2) io2 _ this] Cons.prems(3) obtain s' where "put_all q s2 = Some s'" "released q s2 s'" by auto
  with released_trans [OF \<open>released [b] s s2\<close>] s2(1) show ?case by auto
qed

lemma scatter_reads:
  assumes p: "prefetched d q s" and d: "d \<noteq> NO_DEV"
  shows "\<exists>s'. scatter READING d (bsz s d) q s = Some s' \<and> released q s s'"
proof (cases "q = []")
  case True
  with p show ?thesis by (subst scatter.simps) (simp add: prefetched_def released_refl)
next
  case False
  define j where "j = run_len (b_blocknr (bufs s (q ! 0))) 0 q s"
  define t where "t = s\<lparr>io_cnt := io_cnt s + 1\<rparr>"
  define s1 where "s1 = move_blocks READING d (bsz s d) (take j q) t"
  have io: "io_works s" "cache_ok s" using p by (simp_all add: prefetched_def)
  have j: "0 < j" using run_len_pos [of s "hd q" "tl q"] False by (cases q) (simp_all add: j_def del: run_len.simps)
  have bst: "bsz t = bsz s" "fits t = fits s" "cached t = cached s" "contents t = contents s"
    by (simp_all add: t_def cached_def fun_eq_iff)
  have ft: "cache_frame s t" by (simp add: t_def)
  have d1: "distinct (take j q)" using p by (simp add: prefetched_def)
  have mv: "s1 = t\<lparr>bufs := (\<lambda>i. if i \<in> set (take j q)
    then (bufs t i)\<lparr>b_data := disk_read d (b_blocknr (bufs t i) * of_nat (bsz s d)) (bsz s d) (b_data (bufs t i)) t\<rparr> else bufs t i)\<rparr>"
    unfolding s1_def by (rule move_blocks_read [OF d1])
  have tq: "b_dev (bufs t i) = NO_DEV" if "i \<in> set (take j q)" for i
    using p in_set_takeD [OF that] by (simp add: prefetched_def t_def)
  have okt: "cache_ok t" using io(2) by (simp add: t_def)
  have keep: "bufs s1 i = bufs t i" if "b_dev (bufs t i) \<noteq> NO_DEV" for i
    using tq [of i] that by (auto simp: mv)
  have sd: "cache_ok s1" "same_contents t s1" "cached s1 = cached t"
    using scratch_data [OF okt, of s1] keep by (simp_all add: mv)
  have f1: "cache_frame s s1" using ft by (simp add: mv)
  have bs1: "bsz s1 = bsz s" "fits s1 = fits s" by (intro ext bsz_cong fits_cong, simp add: mv t_def)+
  have sel1: "b_dev (bufs s1 i) = b_dev (bufs s i)" "b_blocknr (bufs s1 i) = b_blocknr (bufs s i)" "b_count (bufs s1 i) = b_count (bufs s i)" for i
    by (simp_all add: mv t_def)
  have io1: "io_works s1" by (rule io_works_frame [OF f1 io(1)])
  have sc1: "same_contents s s1" using sd(2) by (simp add: same_contents_def bst)
  have p1: "prefetched d (take j q) s1"
    using prefetched_sub [OF p set_take_subset d1] sd(1) io1
    unfolding prefetched_def sel1 sd(3) bst bs1 by simp
  have "\<forall>b\<in>set (take j q). \<forall>off<bsz s1 d. b_data (bufs s1 b) off = contents s1 d (b_blocknr (bufs s1 b)) off"
  proof (intro ballI allI impI)
    fix b off assume b: "b \<in> set (take j q)" "off < bsz s1 d"
    have "cached s1 d (b_blocknr (bufs s1 b)) = None" using p1 b(1) by (simp add: prefetched_def)
    then show "b_data (bufs s1 b) off = contents s1 d (b_blocknr (bufs s1 b)) off"
      using b by (simp add: contents_def bs1) (simp add: mv t_def disk_read_def byte_pos_def)
  qed
  from harvest_reads [OF p1 d this] obtain s2 where s2: "harvest READING d (take j q) s1 = Some s2" "cache_ok s2"
    "same_contents s1 s2" "cache_frame s1 s2"
    "\<forall>i. b_count (bufs s2 i) = (if i \<in> set (take j q) then 0 else b_count (bufs s1 i)) \<and>
       (i \<notin> set (take j q) \<longrightarrow> b_dev (bufs s2 i) = b_dev (bufs s1 i) \<and> b_blocknr (bufs s2 i) = b_blocknr (bufs s1 i))" by blast
  have io2: "io_works s2" by (rule io_works_frame [OF s2(4) io1])
  have rel: "released (take j q) s s2"
    unfolding released_def using s2(2) io2 s2(5) sel1 same_contents_trans [OF sc1 s2(3)] f1 s2(4)
    by (auto intro: cache_frame_trans simp: cache_frame_sel)
  have dq: "distinct q" using p by (simp add: prefetched_def)
  then have "set (take j q) \<inter> set (drop j q) = {}" by (rule set_take_disj_set_drop_if_distinct) simp
  with rel p have "\<forall>b\<in>set (drop j q). b < NR_BUFS \<and> b_count (bufs s2 b) = 1"
    by (auto simp: released_def prefetched_def dest: in_set_dropD)
  with put_all_releases [OF s2(2) io2] dq obtain s3 where s3: "put_all (drop j q) s2 = Some s3" "released (drop j q) s2 s3"
    by (metis distinct_drop)
  have "scatter READING d (bsz s d) q s = Some s3"
    using False io(1) s2(1) [unfolded s1_def t_def] s3(1)
    by (subst scatter.simps) (simp add: Let_def io_works_def j_def [symmetric])
  with released_trans [OF rel s3(2)] show ?thesis by simp
qed

lemma rw_scattered_reads:
  assumes p: "prefetched d q s" and d: "d \<noteq> NO_DEV"
  shows "\<exists>s'. rw_scattered d q READING s = Some s' \<and> released q s s'"
proof -
  let ?q = "shell_sort (\<lambda>i. b_blocknr (bufs s i)) q"
  have m: "mset ?q = mset q" by (rule shell_sort_mset)
  then have e: "set ?q = set q" "distinct ?q = distinct q" by (metis set_mset_mset, metis mset_eq_imp_distinct_iff)
  then have "prefetched d ?q s" using p prefetched_sub [OF p, of ?q] by (simp add: prefetched_def)
  from scatter_reads [OF this d] e show ?thesis by (simp add: rw_scattered_def get_block_size_bsz [OF d] released_def)
qed

text \<open>
  The queue \<open>q\<close> of buffers taken for the blocks from \<open>k\<close> on, since the state \<open>s0\<close>: none of the blocks is
  cached, and the buffers are not yet theirs.
\<close>

definition queued :: "fsstate \<Rightarrow> int \<Rightarrow> u32 \<Rightarrow> nat list \<Rightarrow> fsstate \<Rightarrow> bool" where
  "queued s0 d k q s \<longleftrightarrow> cache_ok s \<and> io_works s \<and> same_contents s0 s \<and> cache_frame s0 s \<and> distinct q \<and>
     (\<forall>i<NR_BUFS. b_count (bufs s i) = (if i \<in> set q then 1 else b_count (bufs s0 i)) \<and>
        (i \<in> set q \<longrightarrow> b_count (bufs s0 i) = 0) \<and>
        (0 < b_count (bufs s0 i) \<longrightarrow> b_dev (bufs s i) = b_dev (bufs s0 i) \<and> b_blocknr (bufs s i) = b_blocknr (bufs s0 i))) \<and>
     (\<forall>i<length q. q ! i < NR_BUFS \<and> b_dev (bufs s (q ! i)) = NO_DEV \<and> b_blocknr (bufs s (q ! i)) = k + of_nat i \<and>
        cached s d (k + of_nat i) = None)"

lemma idle_front:
  assumes "cache_ok s" "i < NR_BUFS" "b_count (bufs s i) = 0"
  shows "front s \<noteq> None"
proof
  assume f: "front s = None"
  from assms(1) obtain xs where "lru_chain s xs" "set xs = free_bufs s" by (auto simp: cache_ok_def linked_def)
  moreover from this(1) f have "xs = []" by (simp add: lru_chain_def)
  moreover from assms have "free_bufs s \<noteq> {}" by (auto simp: free_bufs_def)
  ultimately show False by simp
qed

lemma queued_step:
  assumes Q: "queued s0 d k q s" and sp: "spare (Suc (length q)) s0" and d: "d \<noteq> NO_DEV"
    and f: "fits s0 d (k + of_nat (length q))"
  obtains (taken) b s1 where "get_block d (k + of_nat (length q)) PREFETCH s = Some (b, s1)" "b_dev (bufs s1 b) = NO_DEV"
      "queued s0 d k (q @ [b]) s1"
  | (found) b s1 where "get_block d (k + of_nat (length q)) PREFETCH s = Some (b, s1)" "b_dev (bufs s1 b) \<noteq> NO_DEV"
      "cached s d (k + of_nat (length q)) = Some b"
      "\<And>ty. \<exists>s2. put_block (Some b) ty s1 = Some s2 \<and> queued s0 d k q s2"
proof -
  let ?k = "k + of_nat (length q)"
  have H: "cache_ok s" "io_works s" "same_contents s0 s" "cache_frame s0 s" "distinct q"
    and C: "\<And>i. i < NR_BUFS \<Longrightarrow> b_count (bufs s i) = (if i \<in> set q then 1 else b_count (bufs s0 i)) \<and>
        (i \<in> set q \<longrightarrow> b_count (bufs s0 i) = 0) \<and>
        (0 < b_count (bufs s0 i) \<longrightarrow> b_dev (bufs s i) = b_dev (bufs s0 i) \<and> b_blocknr (bufs s i) = b_blocknr (bufs s0 i))"
    and N: "\<And>i. i < length q \<Longrightarrow> q ! i < NR_BUFS \<and> b_dev (bufs s (q ! i)) = NO_DEV \<and> b_blocknr (bufs s (q ! i)) = k + of_nat i \<and>
        cached s d (k + of_nat i) = None"
    using Q by (simp_all add: queued_def)
  have sup: "super_blocks s = super_blocks s0" using H(4) by (simp add: cache_frame_sel)
  have fs: "fits s d ?k" using f fits_cong [OF sup] by simp
  have hc: "hash_chains {} s" "coherent s" using H(1) by (simp_all add: cache_ok_def linked_def)
  note hl = hash_lookup_cached [OF hc d, of ?k]
  have cnt: "b_count (bufs s i) < 127" "0 \<le> b_count (bufs s i)" if "i < NR_BUFS" for i
  proof -
    have "b_count (bufs s0 i) + int (Suc (length q)) \<le> 127" "0 \<le> b_count (bufs s0 i)"
      using sp that by (simp_all only: spare_def cache_ok_def)
    then show "b_count (bufs s i) < 127" "0 \<le> b_count (bufs s i)" using C [OF that] by auto
  qed
  show thesis
  proof (cases "cached s d ?k")
    case (Some b)
    note b = cached_SomeD [OF Some]
    from get_cached_spec [OF H(1) d Some, of PREFETCH] cnt b obtain s1 where
      s1: "get_block d ?k PREFETCH s = Some (b, s1)" "cache_ok s1" "same_store s s1" "cache_frame s s1"
        "\<forall>i. b_count (bufs s1 i) = (if i = b then b_count (bufs s i) + 1 else b_count (bufs s i))" by blast
    have id1: "b_dev (bufs s1 i) = b_dev (bufs s i)" "b_blocknr (bufs s1 i) = b_blocknr (bufs s i)" for i
      using s1(3) by (simp_all add: same_store_def)
    have "\<exists>s2. put_block (Some b) ty s1 = Some s2 \<and> queued s0 d k q s2" for ty
    proof -
      have io1: "io_works s1" by (rule io_works_frame [OF s1(4) H(2)])
      have "0 < b_count (bufs s1 b)" "b_count (bufs s1 b) \<le> 127" using s1(5) cnt [of b] b by auto
      from put_block_spec [OF s1(2) io1 _ this, of ty] b obtain s2 where
        s2: "put_block (Some b) ty s1 = Some s2" "cache_ok s2" "same_contents s1 s2" "kept_bufs b s1 s2"
          "b_count (bufs s2 b) = b_count (bufs s1 b) - 1" "cache_frame s1 s2"
          "b_dev (bufs s2 b) = b_dev (bufs s1 b)" "b_blocknr (bufs s2 b) = b_blocknr (bufs s1 b)" by blast
      have id2: "b_dev (bufs s2 i) = b_dev (bufs s i)" "b_blocknr (bufs s2 i) = b_blocknr (bufs s i)"
        "b_count (bufs s2 i) = b_count (bufs s i)" for i
        using s2(4,5,7,8) id1 s1(5) by (cases "i = b"; simp add: kept_bufs_def)+
      have fr: "cache_frame s s2" using s1(4) s2(6) by (rule cache_frame_trans)
      have "super_blocks s1 = super_blocks s" using s1(4) by (simp add: cache_frame_sel)
      from same_contents_trans [OF same_store_same_contents [OF s1(3)] s2(3) this]
      have "same_contents s0 s2" by (rule same_contents_trans [OF H(3) _ sup])
      moreover have "cached s2 = cached s" by (simp add: cached_def id2 fun_eq_iff)
      moreover have "io_works s2" "cache_frame s0 s2" using io_works_frame [OF fr H(2)] cache_frame_trans [OF H(4) fr] by simp_all
      ultimately have "queued s0 d k q s2" using Q s2(2) unfolding queued_def id2 by simp
      with s2(1) show ?thesis by blast
    qed
    then show thesis by (intro found [OF s1(1) _ Some]) (use id1 b d in simp_all)
  next
    case None
    have "card (idle_bufs s0) \<ge> Suc (length q)" using sp by (simp only: spare_def)
    moreover have "card (set q) = length q" using H(5) by (rule distinct_card)
    ultimately have "\<not> idle_bufs s0 \<subseteq> set q" using card_mono [of "set q" "idle_bufs s0"] by auto
    then obtain i where "i < NR_BUFS" "b_count (bufs s0 i) = 0" "i \<notin> set q" by (auto simp: idle_bufs_def)
    then have "front s \<noteq> None" using C [of i] by (intro idle_front [OF H(1)]) auto
    then obtain b where fb: "front s = Some b" by auto
    from new_block_spec [OF H(1,2) fb, of d ?k PREFETCH] None fs obtain s1 where
      s1: "new_block d ?k PREFETCH s = Some (b, s1)" "cache_ok s1" "same_contents s s1" "b < NR_BUFS"
        "b_count (bufs s b) = 0" "b_count (bufs s1 b) = 1" "b_blocknr (bufs s1 b) = ?k"
        "b_dev (bufs s1 b) = NO_DEV" "kept_bufs b s s1" "cache_frame s s1" by auto
    have g: "get_block d ?k PREFETCH s = Some (b, s1)" using hl None d s1(1) by (simp add: get_block_def)
    have bq: "b \<notin> set q" using C [OF s1(4)] s1(5) by auto
    have K: "b_dev (bufs s1 i) = b_dev (bufs s i)" "b_blocknr (bufs s1 i) = b_blocknr (bufs s i)" "b_count (bufs s1 i) = b_count (bufs s i)"
      if "i \<noteq> b" for i using s1(9) that by (simp_all add: kept_bufs_def)
    have c1: "cached s1 d x = None" if "cached s d x = None" for x
      unfolding cached_None_iff
    proof (intro allI impI)
      fix j assume "j < NR_BUFS"
      with that s1(8) d K [of j] show "\<not> (b_dev (bufs s1 j) = d \<and> b_blocknr (bufs s1 j) = x)"
        by (cases "j = b") (auto simp: cached_None_iff)
    qed
    have "queued s0 d k (q @ [b]) s1"
      unfolding queued_def
    proof (intro conjI allI impI)
      show "cache_ok s1" by fact
      show "io_works s1" by (rule io_works_frame [OF s1(10) H(2)])
      show "same_contents s0 s1" by (rule same_contents_trans [OF H(3) s1(3) sup])
      show "cache_frame s0 s1" using H(4) s1(10) by (rule cache_frame_trans)
      show "distinct (q @ [b])" using H(5) bq by simp
    next
      fix i assume i: "i < NR_BUFS"
      show "b_count (bufs s1 i) = (if i \<in> set (q @ [b]) then 1 else b_count (bufs s0 i))"
        using C [OF i] K [of i] s1(6) by (cases "i = b") auto
    next
      fix i assume "i < NR_BUFS" "i \<in> set (q @ [b])"
      then show "b_count (bufs s0 i) = 0" using C [of i] s1(5) bq by (cases "i = b") auto
    next
      fix i assume i: "i < NR_BUFS" "0 < b_count (bufs s0 i)"
      then have "i \<noteq> b" using C [of b] s1(5) bq by auto
      with i C [of i] K [of i] show "b_dev (bufs s1 i) = b_dev (bufs s0 i)" "b_blocknr (bufs s1 i) = b_blocknr (bufs s0 i)" by auto
    next
      fix i assume "i < length (q @ [b])"
      then consider "i < length q" | "i = length q" by fastforce
      note L = this
      from L show "(q @ [b]) ! i < NR_BUFS" using N s1(4) by cases (simp_all add: nth_append)
      from L show "b_dev (bufs s1 ((q @ [b]) ! i)) = NO_DEV"
        by cases (use N K bq s1(8) in \<open>auto simp: nth_append in_set_conv_nth\<close>)
      from L show "b_blocknr (bufs s1 ((q @ [b]) ! i)) = k + of_nat i"
        by cases (use N K bq s1(7) in \<open>auto simp: nth_append in_set_conv_nth\<close>)
      from L show "cached s1 d (k + of_nat i) = None"
        by cases (use N None c1 in auto)
    qed
    with g s1(8) show thesis by (rule taken)
  qed
qed

lemma prefetch_spec:
  assumes "queued s0 d k (q @ [bp]) s" "spare (length q + unat a) s0" "0 < unat a" "d \<noteq> NO_DEV"
    and "\<forall>i<length q + unat a. fits s0 d (k + of_nat i)"
  shows "\<exists>q' s'. prefetch d a (k + of_nat (length q)) bp q s = Some (q', s') \<and> queued s0 d k q' s' \<and>
    length q' \<le> length q + unat a"
  using assms
proof (induction "unat a" arbitrary: a q bp s)
  case (Suc n)
  have a1: "unat (a - 1) = n" using Suc.hyps(2) by (metis diff_Suc_1 unat_gt_0 unat_minus_one zero_less_Suc)
  show ?case
  proof (cases "a - 1 = 0 \<or> int NR_BUFS - 4 \<le> bufs_in_use s")
    case True
    then have "prefetch d a (k + of_nat (length q)) bp q s = Some (q @ [bp], s)"
      by (subst prefetch.simps) (auto simp: Let_def)
    with Suc.prems Suc.hyps(2) show ?thesis by (intro exI [of _ "q @ [bp]"] exI [of _ s]) simp
  next
    case False
    then have "unat (a - 1) \<noteq> 0" using unsigned_eq_0_iff [of "a - 1"] by blast
    then have n0: "0 < n" using a1 by simp
    have kk: "k + of_nat (length q) + 1 = k + of_nat (length (q @ [bp]))" by simp
    note P = prefetch.simps [of d a "k + of_nat (length q)" bp q s, unfolded Let_def kk]
    have sp: "spare (Suc (length (q @ [bp]))) s0"
      by (rule spare_mono [OF Suc.prems(2)]) (use Suc.hyps(2) n0 in simp)
    have f: "fits s0 d (k + of_nat (length (q @ [bp])))"
      using Suc.prems(5) Suc.hyps(2) n0 by (simp only: length_append_singleton)
    consider (taken) b s1 where "get_block d (k + of_nat (length (q @ [bp]))) PREFETCH s = Some (b, s1)"
        "b_dev (bufs s1 b) = NO_DEV" "queued s0 d k ((q @ [bp]) @ [b]) s1"
      | (found) b s1 where "get_block d (k + of_nat (length (q @ [bp]))) PREFETCH s = Some (b, s1)" "b_dev (bufs s1 b) \<noteq> NO_DEV"
        "\<exists>s2. put_block (Some b) FULL_DATA_BLOCK s1 = Some s2 \<and> queued s0 d k (q @ [bp]) s2"
      by (rule queued_step [OF Suc.prems(1) sp Suc.prems(4) f]) blast+
    then show ?thesis
    proof cases
      case (taken b s1)
      have la: "length (q @ [bp]) + unat (a - 1) = length q + unat a" using a1 Suc.hyps(2) by simp
      from Suc.hyps(1) [of "a - 1" "q @ [bp]" b s1, unfolded la] a1 n0 taken(3) Suc.prems
      obtain q' s' where "prefetch d (a - 1) (k + of_nat (length (q @ [bp]))) b (q @ [bp]) s1 = Some (q', s')"
        "queued s0 d k q' s'" "length q' \<le> length q + unat a" by auto
      with P False taken(1,2) show ?thesis by auto
    next
      case (found b s1)
      from found(3) obtain s2 where s2: "put_block (Some b) FULL_DATA_BLOCK s1 = Some s2" "queued s0 d k (q @ [bp]) s2"
        by blast
      with P False found(1,2) have "prefetch d a (k + of_nat (length q)) bp q s = Some (q @ [bp], s2)" by simp
      with s2(2) Suc.hyps(2) show ?thesis by auto
    qed
  qed
qed simp

lemma queued_prefetched:
  assumes Q: "queued s0 d k q s" and n: "unat k + length q \<le> 2 ^ 32" and f: "\<forall>i<length q. fits s0 d (k + of_nat i)"
  shows "prefetched d q s"
proof -
  have sup: "super_blocks s = super_blocks s0" using Q by (simp add: queued_def cache_frame_sel)
  have N: "q ! i < NR_BUFS \<and> b_dev (bufs s (q ! i)) = NO_DEV \<and> b_blocknr (bufs s (q ! i)) = k + of_nat i \<and>
        cached s d (k + of_nat i) = None \<and> b_count (bufs s (q ! i)) = 1 \<and> fits s d (k + of_nat i)" if "i < length q" for i
  proof -
    have "q ! i < NR_BUFS" using Q that by (simp add: queued_def)
    with Q that f show ?thesis by (simp add: queued_def fits_cong [OF sup])
  qed
  have inj: "i = j" if "i < length q" "j < length q" "(of_nat i :: u32) = of_nat j" for i j
  proof -
    have "unat (of_nat i :: u32) = i" "unat (of_nat j :: u32) = j" by (intro of_nat_inverse; use that n in simp)+
    with that(3) show ?thesis by metis
  qed
  have "inj_on (\<lambda>b. b_blocknr (bufs s b)) (set q)"
  proof (rule inj_onI)
    fix x y assume "x \<in> set q" "y \<in> set q" and e: "b_blocknr (bufs s x) = b_blocknr (bufs s y)"
    then obtain i j where "i < length q" "j < length q" "x = q ! i" "y = q ! j" by (auto simp: in_set_conv_nth)
    with e N [of i] N [of j] inj [of i j] show "x = y" by simp
  qed
  moreover have "\<forall>b\<in>set q. b < NR_BUFS \<and> b_dev (bufs s b) = NO_DEV \<and> b_count (bufs s b) = 1 \<and>
        cached s d (b_blocknr (bufs s b)) = None \<and> fits s d (b_blocknr (bufs s b))"
    using N by (auto simp: in_set_conv_nth)
  ultimately show ?thesis using Q by (simp add: prefetched_def queued_def)
qed

lemma get_block_cached_mode:
  assumes "cache_ok s" "d \<noteq> NO_DEV" "cached s d k = Some b"
  shows "get_block d k m s = get_block d k NORMAL s"
proof -
  have "hash_lookup d k (buf_hash s (hash_nr k)) s = Some (Some b)"
    using hash_lookup_cached [of s d k] assms by (simp add: cache_ok_def linked_def)
  with assms(2) show ?thesis by (simp add: get_block_def)
qed

lemma in_use_after: "users_kept s s1 \<Longrightarrow> in_use bp s1 t \<Longrightarrow> in_use bp s t"
  by (auto simp: users_kept_def in_use_def)

text \<open>\<open>rahead\<close> has the effect of \<open>get_block\<close>: the block that was asked for, and no other change of contents.\<close>

definition ahead_ok :: "nat \<Rightarrow> nat \<Rightarrow> u32 \<Rightarrow> u32 \<Rightarrow> fsstate \<Rightarrow> bool" where
  "ahead_ok rip bs position bytes_ahead s \<longleftrightarrow>
     (\<forall>s1. inodes s1 = inodes s \<longrightarrow> super_blocks s1 = super_blocks s \<longrightarrow>
        (\<exists>a. blocks_to_read rip bs position bytes_ahead s1 = Some a \<and> 0 < unat a \<and> unat a \<le> 64))"

lemma rahead_spec:
  assumes sp: "spare (Suc n) s" and n: "64 \<le> Suc n" and dv: "d = (if block_special (inodes s rip) then zone_dev (inodes s rip) else i_dev (inodes s rip))"
    and d: "d \<noteq> NO_DEV" and a: "ahead_ok rip (bsz s d) position bytes s"
    and f: "\<forall>i<64. fits s d (k + of_nat i)" and w: "unat k + 64 \<le> 2 ^ 32"
  shows "\<exists>bp s1. rahead rip k position bytes s = Some (bp, s1) \<and> spare n s1 \<and> holds s1 bp d k \<and> in_use bp s s1 \<and>
    cache_frame s s1 \<and> same_contents s s1"
proof -
  have ok: "cache_ok s" "io_works s" using sp by (simp_all add: spare_def)
  have f0: "fits s d k" using f [rule_format, of 0] by simp
  have Q0: "queued s d k [] s" using ok by (simp add: queued_def same_contents_def)
  have sp1: "spare (Suc (length [])) s" by (rule spare_mono [OF sp]) simp
  have R: "rahead rip k position bytes s = do {
     (bp, s1) \<leftarrow> get_block d k PREFETCH s;
     if b_dev (bufs s1 bp) \<noteq> NO_DEV then Some (bp, s1)
     else do {
       blocks_ahead \<leftarrow> blocks_to_read rip (bsz s d) position bytes s1;
       (read_q, s2) \<leftarrow> prefetch d blocks_ahead k bp [] s1;
       s3 \<leftarrow> rw_scattered d read_q READING s2;
       get_block d k NORMAL s3
     }}"
    by (simp only: rahead_def Let_def dv [symmetric] get_block_size_bsz [OF d] Option.bind.simps)
  have f0': "fits s d (k + of_nat (length ([] :: nat list)))" using f0 by simp
  consider (taken) b s1 where "get_block d k PREFETCH s = Some (b, s1)" "b_dev (bufs s1 b) = NO_DEV" "queued s d k [b] s1"
    | (found) b s1 where "get_block d k PREFETCH s = Some (b, s1)" "b_dev (bufs s1 b) \<noteq> NO_DEV" "cached s d k = Some b"
    by (rule queued_step [OF Q0 sp1 d f0']) simp_all
  then show ?thesis
  proof cases
    case (found b s1)
    then have "rahead rip k position bytes s = get_block d k NORMAL s"
      unfolding R using get_block_cached_mode [OF ok(1) d, of k b PREFETCH] by simp
    with hold_get [OF sp d f0] show ?thesis by simp
  next
    case (taken b s1)
    have fr1: "cache_frame s s1" using taken(3) by (simp add: queued_def)
    obtain x where x: "blocks_to_read rip (bsz s d) position bytes s1 = Some x" "0 < unat x" "unat x \<le> 64"
      using a [unfolded ahead_ok_def] cache_frame_sel(1,3) [OF fr1] by blast
    have "spare (length ([] :: nat list) + unat x) s" by (rule spare_mono [OF sp]) (use n x(3) in simp)
    moreover have "queued s d k ([] @ [b]) s1" "\<forall>i<length ([] :: nat list) + unat x. fits s d (k + of_nat i)"
      using taken(3) f x(3) by simp_all
    ultimately obtain q s2 where q: "prefetch d x k b [] s1 = Some (q, s2)" "queued s d k q s2" "length q \<le> unat x"
      using prefetch_spec [of s d k "[]" b s1 x] x(2) d by auto
    have "prefetched d q s2" by (rule queued_prefetched [OF q(2)]) (use q(3) x(3) w f in auto)
    from rw_scattered_reads [OF this d] obtain s3 where s3: "rw_scattered d q READING s2 = Some s3" "released q s2 s3" by blast
    have fr: "cache_frame s s3" using q(2) s3(2) by (auto simp: queued_def released_def intro: cache_frame_trans)
    have "same_contents s s3"
      using q(2) s3(2) same_contents_trans [of s s2 s3] by (simp add: queued_def released_def cache_frame_sel)
    note sc = this
    have uk: "users_kept s s3"
      using q(2) s3(2) unfolding users_kept_def queued_def released_def by auto
    have sp3: "spare (Suc n) s3" by (rule spare_kept [OF sp uk]) (use s3(2) in \<open>simp_all add: released_def\<close>)
    have sup: "super_blocks s3 = super_blocks s" using fr by (simp add: cache_frame_sel)
    have "fits s3 d k" using f0 by (simp add: fits_cong [OF sup])
    from hold_get [OF sp3 d this] obtain bp s4 where s4: "get_block d k NORMAL s3 = Some (bp, s4)" "spare n s4" "holds s4 bp d k"
      "in_use bp s3 s4" "cache_frame s3 s4" "same_contents s3 s4" by blast
    have "rahead rip k position bytes s = Some (bp, s4)" unfolding R using taken(1,2) x(1) q(1) s3(1) s4(1) by simp
    with s4 in_use_after [OF uk s4(4)] cache_frame_trans [OF fr s4(5)] same_contents_trans [OF sc s4(6) sup] show ?thesis by blast
  qed
qed

lemma ceil_word:
  assumes x: "0 < unat x" "unat x + unat bs \<le> 2 ^ 32" and bs: "1 < unat (bs :: u32)"
  shows "0 < unat ((x + bs - 1) div bs)" "unat ((x + bs - 1) div bs) < 2 ^ 32 - 1"
proof -
  have "x + bs - 1 = of_nat (unat x + unat bs - 1)" using x(1) by (simp add: of_nat_diff)
  then have u: "unat (x + bs - 1) = unat x + unat bs - 1"
    by (intro of_nat_inverse [OF sym]) (use x in simp_all)
  have e: "unat ((x + bs - 1) div bs) = (unat x + unat bs - 1) div unat bs" by (simp add: unat_div u)
  have "unat bs div unat bs \<le> (unat x + unat bs - 1) div unat bs" by (rule div_le_mono) (use x(1) in linarith)
  then show "0 < unat ((x + bs - 1) div bs)" unfolding e using bs by simp
  have "(unat x + unat bs - 1) div unat bs \<le> (unat x + unat bs - 1) div 2" by (rule div_le_mono2) (use bs in simp_all)
  also have "\<dots> < 2 ^ 32 - 1" using x(2) by simp
  finally show "unat ((x + bs - 1) div bs) < 2 ^ 32 - 1" unfolding e .
qed

lemma ahead_regular:
  assumes sp: "i_sp (inodes s rip) = Some spi" "0 \<le> s_log_zone_size (super_blocks s spi)" "s_log_zone_size (super_blocks s spi) < 32"
    and ns: "\<not> block_special (inodes s rip)" and bs: "1 < bs" "bs \<le> MAX_BLOCK_SIZE"
    and pos: "position < i_size (inodes s rip)" and n: "0 < unat bytes" "unat bytes < 2 ^ 31" and mx: "unat (i_size (inodes s rip)) < 2 ^ 31"
  shows "ahead_ok rip bs position bytes s"
  unfolding ahead_ok_def
proof (intro allI impI)
  fix t :: fsstate assume e: "inodes t = inodes s" "super_blocks t = super_blocks s"
  let ?b = "of_nat bs :: u32" and ?size = "i_size (inodes s rip)"
  have ub: "unat ?b = bs" by (rule of_nat_inverse) (use bs in simp_all)
  let ?f = "position mod ?b"
  have uf: "unat ?f < bs" using bs by (simp add: unat_mod ub)
  let ?x = "bytes + ?f" and ?y = "?size - (position - ?f)"
  have ux: "unat ?x = unat bytes + unat ?f" by (rule unat_add_lem [THEN iffD1]) (use uf bs n in simp)
  have "?f \<le> position" by (simp add: word_le_nat_alt unat_mod)
  then have up: "unat (position - ?f) = unat position - unat ?f" by (simp add: unat_sub)
  have "position - ?f \<le> ?size" using pos up by (simp add: word_le_nat_alt word_less_nat_alt)
  then have uy: "unat ?y = unat ?size - (unat position - unat ?f)" using up by (simp add: unat_sub)
  have "unat position < unat ?size" using pos by (simp add: word_less_nat_alt)
  then have y: "0 < unat ?y" "unat ?y + unat ?b \<le> 2 ^ 32" using uy mx bs by (simp_all add: ub)
  have x: "0 < unat ?x" "unat ?x + unat ?b \<le> 2 ^ 32" using ux n uf bs by (simp_all add: ub)
  have b1: "1 < unat ?b" using bs by (simp add: ub)
  define ba bl where "ba = (?x + ?b - 1) div ?b" and "bl = (?y + ?b - 1) div ?b"
  note c = ceil_word [OF x b1, folded ba_def] ceil_word [OF y b1, folded bl_def]
  have plus: "unat (w + 1) = unat w + 1" if "unat w < 2 ^ 32 - 1" for w :: u32
    using unat_add_lem [of w 1] that by simp
  let ?m = "\<lambda>a. if min a (of_nat NR_IOREQS) < BLOCKS_MINIMUM \<and> \<not> i_seek (inodes s rip) then BLOCKS_MINIMUM else min a (of_nat NR_IOREQS)"
  have bound: "0 < unat (min (?m a) l) \<and> unat (min (?m a) l) \<le> 64" if "0 < unat a" "0 < unat l" for a l
    using that by (auto simp: min_def word_le_nat_alt word_less_nat_alt)
  let ?ind = "of_nat (i_ndzones (inodes s rip)) * push_bit (nat (s_log_zone_size (super_blocks s spi))) ?b :: u32"
  have r: "blocks_to_read rip bs position bytes t = Some (min (?m (if position - ?f \<le> ?ind \<and> ?ind < ?size then ba + 1 else ba))
      (if position - ?f \<le> ?ind \<and> ?ind < ?size then bl + 1 else bl))"
  proof -
    have b0: "?b \<noteq> 0" using b1 by auto
    note B = blocks_to_read_def Let_def e sp ns b0 guard_bind not_False_eq_True simp_thms if_True if_False
      Option.bind.simps prod.case ba_def bl_def
    show ?thesis
    proof (cases "position - ?f \<le> ?ind \<and> ?ind < ?size")
      case True
      show ?thesis unfolding if_P [OF True] by (simp only: B if_P [OF True])
    next
      case False
      show ?thesis unfolding if_not_P [OF False] by (simp only: B if_not_P [OF False])
    qed
  qed
  have "0 < unat (if P then ba + 1 else ba)" "0 < unat (if P then bl + 1 else bl)" for P
    using c plus [of ba] plus [of bl] by simp_all
  from bound [OF this] show "\<exists>a. blocks_to_read rip bs position bytes t = Some a \<and> 0 < unat a \<and> unat a \<le> 64"
    unfolding r by blast
qed

subsection \<open>The bytes of a file\<close>

text \<open>The byte at position \<open>p\<close>: 0 in a hole, and otherwise what the block of the position holds.\<close>

definition file_byte :: "fsstate \<Rightarrow> nat \<Rightarrow> nat \<Rightarrow> nat \<Rightarrow> u8" where
  "file_byte s spi rip p =
     (let sp = super_blocks s spi; bs = s_block_size sp; sc = nat (s_log_zone_size sp);
          z = file_zone s rip (drop_bit sc (p div bs))
      in if z = NO_ZONE then 0
         else contents s (s_dev sp) (zone_block sp z + of_nat (p div bs mod 2 ^ sc)) (p mod bs))"

text \<open>A regular file of less than 2 gigabytes, on a volume that ends well before the last 32-bit position.\<close>

definition plain_file :: "fsstate \<Rightarrow> nat \<Rightarrow> nat \<Rightarrow> bool" where
  "plain_file s spi rip \<longleftrightarrow>
     (let sp = super_blocks s spi; ip = inodes s rip in
      vol_ok s spi \<and> file_ok s spi rip \<and> i_mode ip AND I_TYPE = I_REGULAR \<and> \<not> i_pipe ip \<and>
      unat (i_size ip) < 2 ^ 31 \<and> unat (i_size ip) \<le> max_zones ip * zone_bytes sp \<and>
      (unat (s_zones sp) * 2 ^ nat (s_log_zone_size sp) + 64) * s_block_size sp \<le> 2 ^ 32)"

lemma plain_fileD:
  assumes "plain_file s spi rip"
  shows "vol_ok s spi" "file_ok s spi rip" "inode_ok s spi rip" "i_mode (inodes s rip) AND I_TYPE = I_REGULAR"
    "\<not> i_pipe (inodes s rip)" "\<not> block_special (inodes s rip)"
    "unat (i_size (inodes s rip)) < 2 ^ 31" "unat (i_size (inodes s rip)) \<le> max_zones (inodes s rip) * zone_bytes (super_blocks s spi)"
    "(unat (s_zones (super_blocks s spi)) * 2 ^ nat (s_log_zone_size (super_blocks s spi)) + 64) * s_block_size (super_blocks s spi) \<le> 2 ^ 32"
    "1 < s_block_size (super_blocks s spi)" "s_block_size (super_blocks s spi) \<le> MAX_BLOCK_SIZE"
proof -
  show h: "vol_ok s spi" "file_ok s spi rip" "inode_ok s spi rip" "i_mode (inodes s rip) AND I_TYPE = I_REGULAR"
    "\<not> i_pipe (inodes s rip)" "unat (i_size (inodes s rip)) < 2 ^ 31"
    "unat (i_size (inodes s rip)) \<le> max_zones (inodes s rip) * zone_bytes (super_blocks s spi)"
    "(unat (s_zones (super_blocks s spi)) * 2 ^ nat (s_log_zone_size (super_blocks s spi)) + 64) * s_block_size (super_blocks s spi) \<le> 2 ^ 32"
    using assms by (simp_all add: plain_file_def Let_def file_ok_def)
  show "\<not> block_special (inodes s rip)" using h(4) by (simp add: block_special_def)
  have "in_block s spi 0" using inode_okD(3,4) [OF h(3)] by (auto simp: tree_ok_def Let_def)
  then show "1 < s_block_size (super_blocks s spi)" by (auto simp: in_block_def Let_def entry_size_def split: if_splits)
  show "s_block_size (super_blocks s spi) \<le> MAX_BLOCK_SIZE" using vol_okD(10) [OF h(1)] by (auto split: if_splits)
qed

lemma file_position:
  assumes P: "plain_file s spi rip" and p: "p < unat (i_size (inodes s rip))"
  shows "drop_bit (nat (s_log_zone_size (super_blocks s spi))) (p div s_block_size (super_blocks s spi)) < max_zones (inodes s rip)"
proof -
  let ?sp = "super_blocks s spi"
  have "p < max_zones (inodes s rip) * (s_block_size ?sp * 2 ^ nat (s_log_zone_size ?sp))"
    using p plain_fileD(8) [OF P] by (simp add: zone_bytes_def)
  then have "p div s_block_size ?sp div 2 ^ nat (s_log_zone_size ?sp) < max_zones (inodes s rip)"
    using div_less_iff_less_mult [of "s_block_size ?sp * 2 ^ nat (s_log_zone_size ?sp)" p "max_zones (inodes s rip)"]
      vol_block_size [OF plain_fileD(1) [OF P]] by (simp add: div_mult2_eq)
  then show ?thesis by (simp add: drop_bit_nat_def)
qed

lemma block_in_zone:
  assumes P: "plain_file s spi rip" and z: "data_zone s spi z" and b: "b < 2 ^ nat (s_log_zone_size (super_blocks s spi))"
    and i: "i < 64"
  shows "fits s (s_dev (super_blocks s spi)) (zone_block (super_blocks s spi) z + of_nat b + of_nat i)"
    "unat (zone_block (super_blocks s spi) z + of_nat b) + 64 \<le> 2 ^ 32"
    "unat (zone_block (super_blocks s spi) z + of_nat b) = unat z * 2 ^ nat (s_log_zone_size (super_blocks s spi)) + b"
proof -
  let ?sp = "super_blocks s spi" and ?c = "nat (s_log_zone_size (super_blocks s spi))"
  note v = plain_fileD(1) [OF P]
  have "unat z < unat (s_zones ?sp)" using z by (simp add: data_zone_def word_less_nat_alt)
  then have "Suc (unat z) * 2 ^ ?c \<le> unat (s_zones ?sp) * 2 ^ ?c" by (intro mult_le_mono1) simp
  then have lt: "unat z * 2 ^ ?c + b < unat (s_zones ?sp) * 2 ^ ?c" using b by simp
  let ?n = "unat z * 2 ^ ?c + b"
  have room: "(?n + i + 1) * s_block_size ?sp \<le> 2 ^ 32" "(?n + 64) * s_block_size ?sp \<le> 2 ^ 32"
    using plain_fileD(9) [OF P] mult_le_mono1 [of "?n + i + 1" "unat (s_zones ?sp) * 2 ^ ?c + 64" "s_block_size ?sp"]
      mult_le_mono1 [of "?n + 64" "unat (s_zones ?sp) * 2 ^ ?c + 64" "s_block_size ?sp"] lt i by linarith+
  have bs: "1 < s_block_size ?sp" by (rule plain_fileD(10) [OF P])
  have n32: "?n + 64 \<le> 2 ^ 32"
  proof -
    have "?n + 64 \<le> (?n + 64) * s_block_size ?sp" using bs by simp
    then show ?thesis using room(2) by (rule order_trans)
  qed
  have e: "zone_block ?sp z + of_nat b + of_nat j = of_nat (?n + j)" for j
    by (simp add: zone_block_def push_bit_eq_mult)
  have u: "unat (zone_block ?sp z + of_nat b + of_nat j) = ?n + j" if "j < 64" for j
    unfolding e by (rule of_nat_inverse [OF refl]) (use n32 that in simp)
  show "unat (zone_block ?sp z + of_nat b) = ?n" "unat (zone_block ?sp z + of_nat b) + 64 \<le> 2 ^ 32"
    using u [of 0] n32 by simp_all
  show "fits s (s_dev ?sp) (zone_block ?sp z + of_nat b + of_nat i)"
    unfolding fits_def u [OF i] geomD(2) [OF vol_okD(1) [OF v]] using room(1) bs by simp
qed

lemma file_block:
  assumes P: "plain_file s spi rip" and p: "unat position < unat (i_size (inodes s rip))"
  defines "z \<equiv> file_zone s rip (rel_zone (super_blocks s spi) position)"
  defines "k \<equiv> block_at (super_blocks s spi) position z"
  shows "z = NO_ZONE \<or> data_zone s spi z" "k = NO_BLOCK \<longleftrightarrow> z = NO_ZONE"
    "z \<noteq> NO_ZONE \<Longrightarrow> i < 64 \<Longrightarrow> fits s (s_dev (super_blocks s spi)) (k + of_nat i)"
    "z \<noteq> NO_ZONE \<Longrightarrow> unat k + 64 \<le> 2 ^ 32"
    "n < s_block_size (super_blocks s spi) - unat position mod s_block_size (super_blocks s spi) \<Longrightarrow>
      file_byte s spi rip (unat position + n) =
        (if z = NO_ZONE then 0 else contents s (s_dev (super_blocks s spi)) k (unat position mod s_block_size (super_blocks s spi) + n))"
proof -
  let ?sp = "super_blocks s spi"
  let ?bs = "s_block_size ?sp" and ?c = "nat (s_log_zone_size ?sp)" and ?p = "unat position"
  have rz: "rel_zone ?sp position = drop_bit ?c (?p div ?bs)" by (simp add: rel_zone_def)
  have "rel_zone ?sp position < max_zones (inodes s rip)" unfolding rz by (rule file_position [OF P p])
  then show dz: "z = NO_ZONE \<or> data_zone s spi z"
    using plain_fileD(2) [OF P] used_data unfolding z_def file_ok_def by blast
  have k: "k = zone_block ?sp z + of_nat (?p div ?bs mod 2 ^ ?c)" if "z \<noteq> NO_ZONE" using that by (simp add: k_def block_at_def)
  have b: "?p div ?bs mod 2 ^ ?c < 2 ^ ?c" by simp
  note B = block_in_zone [OF P _ b]
  show "z \<noteq> NO_ZONE \<Longrightarrow> i < 64 \<Longrightarrow> fits s (s_dev ?sp) (k + of_nat i)" "z \<noteq> NO_ZONE \<Longrightarrow> unat k + 64 \<le> 2 ^ 32"
    using dz k B(1) [of z i] B(2) [of z 0] by auto
  show "k = NO_BLOCK \<longleftrightarrow> z = NO_ZONE"
  proof
    assume "k = NO_BLOCK"
    show "z = NO_ZONE"
    proof (rule ccontr)
      assume z: "z \<noteq> NO_ZONE"
      then have "0 < unat z" by (simp add: unat_gt_0)
      then have "0 < unat z * 2 ^ ?c" by simp
      with B(3) [of z 0] dz z k \<open>k = NO_BLOCK\<close> show False by simp
    qed
  qed (simp add: k_def block_at_def)
  show "file_byte s spi rip (?p + n) = (if z = NO_ZONE then 0 else contents s (s_dev ?sp) k (?p mod ?bs + n))"
    if n: "n < ?bs - ?p mod ?bs"
  proof -
    have "?p + n = (?p mod ?bs + n) + ?p div ?bs * ?bs" by simp
    moreover have "?p mod ?bs + n < ?bs" using n by simp
    ultimately have "(?p + n) div ?bs = ?p div ?bs" "(?p + n) mod ?bs = ?p mod ?bs + n"
      by (metis add.commute div_mult_self3 div_less add_0 less_nat_zero_code, metis mod_mult_self1 mod_less)
    then show ?thesis by (simp add: file_byte_def Let_def rz [symmetric] z_def [symmetric] k)
  qed
qed

subsection \<open>Reading\<close>

lemma hole_block:
  assumes sp: "spare (Suc n) s"
  shows "\<exists>bp s1. get_block NO_DEV k NORMAL s = Some (bp, s1) \<and> in_use bp s (zero_block bp s1) \<and> cache_frame s (zero_block bp s1) \<and>
    same_contents s (zero_block bp s1) \<and> cache_ok (zero_block bp s1) \<and> io_works (zero_block bp s1) \<and> bp < NR_BUFS \<and>
    (\<forall>i<MAX_BLOCK_SIZE. b_data (bufs (zero_block bp s1) bp) i = 0)"
proof -
  have ok: "cache_ok s" "io_works s" using sp by (simp_all add: spare_def)
  have "front s \<noteq> None" by (rule ready_front [OF spare_ready [OF sp]]) simp
  then obtain bp where fb: "front s = Some bp" by auto
  from new_block_spec [OF ok fb, of NO_DEV k NORMAL] obtain s1 where
    s1: "new_block NO_DEV k NORMAL s = Some (bp, s1)" "cache_ok s1" "same_contents s s1" "bp < NR_BUFS"
      "b_count (bufs s bp) = 0" "b_count (bufs s1 bp) = 1" "b_dev (bufs s1 bp) = NO_DEV" "kept_bufs bp s s1" "cache_frame s s1" by auto
  let ?t = "zero_block bp s1"
  have "cache_ok ?t \<and> same_contents s1 ?t"
    by (intro conjI scratch_data [OF s1(2)]) (auto simp: zero_block_def set_data_def upd_buf_def s1(7))
  moreover have "super_blocks s1 = super_blocks s" using s1(9) by (simp add: cache_frame_sel)
  moreover have "cache_frame s ?t" using s1(9) by (simp add: zero_block_def set_data_def)
  moreover have "in_use bp s ?t"
    using s1(5,6,8) by (auto simp: in_use_def kept_bufs_def zero_block_def set_data_def upd_buf_def)
  moreover have "get_block NO_DEV k NORMAL s = Some (bp, s1)" using s1(1) by (simp add: get_block_def)
  ultimately show ?thesis
    using s1(3,4) same_contents_trans [OF s1(3)] io_works_frame [of s ?t] ok(2)
    by (intro exI [of _ bp] exI [of _ s1]) (auto simp: zero_block_def)
qed

lemma chunk_block_reads:
  assumes P: "plain_file s spi rip" and sp: "spare (Suc n) s" and n: "64 \<le> Suc n"
    and pos: "position < i_size (inodes s rip)" and l: "0 < unat left" "unat left < 2 ^ 31"
  shows "\<exists>bp s1. chunk_block rip position off chunk left READING (s_block_size (super_blocks s spi)) s = Some (Some bp, s1) \<and>
    in_use bp s s1 \<and> cache_frame s s1 \<and> same_contents s s1 \<and> cache_ok s1 \<and> io_works s1 \<and> bp < NR_BUFS \<and>
    (\<forall>i < s_block_size (super_blocks s spi) - unat position mod s_block_size (super_blocks s spi).
       b_data (bufs s1 bp) (unat position mod s_block_size (super_blocks s spi) + i) = file_byte s spi rip (unat position + i))"
proof -
  let ?sp = "super_blocks s spi" and ?ip = "inodes s rip"
  let ?bs = "s_block_size ?sp" and ?z = "file_zone s rip (rel_zone ?sp position)" and ?d = "s_dev ?sp"
  let ?k = "block_at ?sp position ?z"
  note v = plain_fileD(1) [OF P] and g = geomD(1,2) [OF vol_okD(1) [OF plain_fileD(1) [OF P]]]
  have p: "unat position < unat (i_size ?ip)" using pos by (simp add: word_less_nat_alt)
  note F = file_block [OF P p]
  have "rel_zone ?sp position < max_zones ?ip" using file_position [OF P p] by (simp add: rel_zone_def)
  from read_map_spec [OF sp v plain_fileD(3) [OF P] this] obtain s0 where
    rm: "read_map rip position s = Some (?k, s0)" "spare (Suc n) s0" "unchanged s s0" by blast
  note U = unchanged_view [OF rm(3) v]
  have u: "users_kept s s0" "same_contents s s0" "cache_frame s s0" using rm(3) by (simp_all add: unchanged_def)
  have bs0: "bsz s0 = bsz s" "fits s0 = fits s" by (intro ext bsz_cong fits_cong U(6))+
  have dev: "i_dev ?ip = ?d" by (rule inode_okD(2) [OF plain_fileD(3) [OF P]])
  show ?thesis
  proof (cases "?z = NO_ZONE")
    case True
    from hole_block [OF rm(2), of NO_BLOCK] obtain bp s1 where
      h: "get_block NO_DEV NO_BLOCK NORMAL s0 = Some (bp, s1)" "in_use bp s0 (zero_block bp s1)" "cache_frame s0 (zero_block bp s1)"
      "same_contents s0 (zero_block bp s1)" "cache_ok (zero_block bp s1)" "io_works (zero_block bp s1)" "bp < NR_BUFS"
      "\<forall>i<MAX_BLOCK_SIZE. b_data (bufs (zero_block bp s1) bp) i = 0" by blast
    have "chunk_block rip position off chunk left READING ?bs s = Some (Some bp, zero_block bp s1)"
      using rm(1) F(2) True h(1) plain_fileD(6) [OF P] by (simp add: chunk_block_def)
    moreover have "b_data (bufs (zero_block bp s1) bp) (unat position mod ?bs + i) = file_byte s spi rip (unat position + i)"
      if "i < ?bs - unat position mod ?bs" for i
      using that F(5) [OF that] True h(8) plain_fileD(11) [OF P] by simp
    ultimately show ?thesis
      using in_use_after [OF u(1) h(2)] cache_frame_trans [OF u(3) h(3)] same_contents_trans [OF u(2) h(4) U(6)] h(5-7) by blast
  next
    case False
    have "ahead_ok rip (bsz s0 ?d) position left s0"
      unfolding bs0 g(2)
      by (rule ahead_regular [where spi = spi])
        (use inode_okD(1) [OF plain_fileD(3) [OF P]] vol_okD(6,7) [OF v] plain_fileD(6,7,10,11) [OF P] pos l in \<open>simp_all add: U\<close>)
    moreover have "?d = (if block_special (inodes s0 rip) then zone_dev (inodes s0 rip) else i_dev (inodes s0 rip))"
      using plain_fileD(6) [OF P] dev by (simp add: U)
    moreover have "\<forall>i<64. fits s0 ?d (?k + of_nat i)" using F(3) [OF False] bs0 by simp
    ultimately obtain bp s1 where r: "rahead rip ?k position left s0 = Some (bp, s1)" "spare n s1" "holds s1 bp ?d ?k"
      "in_use bp s0 s1" "cache_frame s0 s1" "same_contents s0 s1"
      using rahead_spec [OF rm(2) n _ g(1) _ _ F(4) [OF False]] by blast
    have "chunk_block rip position off chunk left READING ?bs s = Some (Some bp, s1)"
      using rm(1) F(2) False r(1) plain_fileD(6) [OF P] by (simp add: chunk_block_def)
    moreover have sc: "same_contents s s1" by (rule same_contents_trans [OF u(2) r(6) U(6)])
    moreover have "b_data (bufs s1 bp) (unat position mod ?bs + i) = file_byte s spi rip (unat position + i)"
      if i: "i < ?bs - unat position mod ?bs" for i
    proof -
      have "fits s ?d ?k" using F(3) [OF False, of 0] by simp
      then have "contents s1 ?d ?k (unat position mod ?bs + i) = contents s ?d ?k (unat position mod ?bs + i)"
        using sc g i by (simp add: same_contents_def)
      then show ?thesis using holds_data [OF r(2,3)] F(5) [OF i] False by simp
    qed
    moreover have "cache_ok s1" "io_works s1" "bp < NR_BUFS" using r(2,3) by (simp_all add: spare_def holds_def)
    ultimately show ?thesis using in_use_after [OF u(1) r(4)] cache_frame_trans [OF u(3) r(5)] by blast
  qed
qed

lemma cache_frame_sel2:
  assumes "cache_frame s s'"
  shows "rdwt_err s' = rdwt_err s" "fs_who s' = fs_who s" "fs_m_out s' = fs_m_out s" "rdahed_inode s' = rdahed_inode s"
    "fs_call_nr s' = fs_call_nr s"
proof -
  have sel: "rdwt_err (no_cache t) = rdwt_err t" "fs_who (no_cache t) = fs_who t" "fs_m_out (no_cache t) = fs_m_out t"
    "rdahed_inode (no_cache t) = rdahed_inode t" "fs_call_nr (no_cache t) = fs_call_nr t" for t
    by (simp_all add: no_cache_def)
  have eq: "no_cache s' = no_cache s" using assms by (simp add: cache_frame_def)
  show "rdwt_err s' = rdwt_err s" "fs_who s' = fs_who s" "fs_m_out s' = fs_m_out s" "rdahed_inode s' = rdahed_inode s"
    "fs_call_nr s' = fs_call_nr s"
    using sel [of s] sel [of s'] eq by simp_all
qed

text \<open>Files and their bytes depend on the inodes, the super blocks and the contents of the blocks only.\<close>

lemma file_byte_fits:
  assumes P: "plain_file s spi rip" and p: "p < unat (i_size (inodes s rip))"
    and z: "file_zone s rip (drop_bit (nat (s_log_zone_size (super_blocks s spi))) (p div s_block_size (super_blocks s spi))) \<noteq> NO_ZONE"
  shows "fits s (s_dev (super_blocks s spi))
    (zone_block (super_blocks s spi) (file_zone s rip (drop_bit (nat (s_log_zone_size (super_blocks s spi))) (p div s_block_size (super_blocks s spi)))) +
      of_nat (p div s_block_size (super_blocks s spi) mod 2 ^ nat (s_log_zone_size (super_blocks s spi))))"
proof -
  let ?sp = "super_blocks s spi"
  let ?j = "drop_bit (nat (s_log_zone_size ?sp)) (p div s_block_size ?sp)"
  have "data_zone s spi (file_zone s rip ?j)"
    using plain_fileD(2) [OF P] file_position [OF P p] z used_data unfolding file_ok_def by blast
  from block_in_zone(1) [OF P this, of "p div s_block_size ?sp mod 2 ^ nat (s_log_zone_size ?sp)" 0] show ?thesis by simp
qed

lemma plain_file_kept:
  assumes P: "plain_file s spi rip" and i: "inodes s' = inodes s" and e: "super_blocks s' = super_blocks s" and c: "same_contents s s'"
  shows "plain_file s' spi rip" "p < unat (i_size (inodes s rip)) \<Longrightarrow> file_byte s' spi rip p = file_byte s spi rip p"
proof -
  have k: "sup_kept spi s s'" using e by (rule sup_keptI)
  note V = view_same [OF plain_fileD(1) [OF P] k c]
  have fz: "file_zone s' rip j = file_zone s rip j" for j
    using inode_okD(1) [OF plain_fileD(3) [OF P]] by (simp add: file_zone_def i V)
  have dz: "data_zone s' spi = data_zone s spi" by (simp add: fun_eq_iff zone_kept [OF k])
  show "plain_file s' spi rip"
    using P unfolding plain_file_def file_ok_def inode_ok_def Let_def i e V fz by (simp add: V dz zone_kept [OF k])
  assume p: "p < unat (i_size (inodes s rip))"
  let ?sp = "super_blocks s spi"
  have "p mod s_block_size ?sp < bsz s (s_dev ?sp)"
    using vol_block_size [OF plain_fileD(1) [OF P]] geomD(2) [OF vol_okD(1) [OF plain_fileD(1) [OF P]]] by simp
  with c file_byte_fits [OF P p] geomD(1) [OF vol_okD(1) [OF plain_fileD(1) [OF P]]]
  show "file_byte s' spi rip p = file_byte s spi rip p"
    by (simp add: file_byte_def Let_def e fz same_contents_def)
qed

lemma no_cache_log:
  "no_cache (t\<lparr>fs_log := L\<rparr>) = (no_cache t)\<lparr>fs_log := L\<rparr>" "no_cache (t\<lparr>fs_m_in := m\<rparr>) = (no_cache t)\<lparr>fs_m_in := m\<rparr>"
  by (simp_all add: no_cache_def)

lemma unchanged_log:
  "unchanged s s' \<Longrightarrow> unchanged (s\<lparr>fs_log := L\<rparr>) (s'\<lparr>fs_log := L\<rparr>)"
  "unchanged s s' \<Longrightarrow> unchanged (s\<lparr>fs_m_in := m\<rparr>) (s'\<lparr>fs_m_in := m\<rparr>)"
proof -
  have c: "contents (t\<lparr>fs_log := L\<rparr>) = contents t" "contents (t\<lparr>fs_m_in := m\<rparr>) = contents t"
    "bsz (t\<lparr>fs_log := L\<rparr>) = bsz t" "bsz (t\<lparr>fs_m_in := m\<rparr>) = bsz t" "fits (t\<lparr>fs_log := L\<rparr>) = fits t" "fits (t\<lparr>fs_m_in := m\<rparr>) = fits t" for t
    by (rule core_cong(1) [where spi = 0]; simp add: sup_keptI)+ (intro ext bsz_cong fits_cong; simp)+
  show "unchanged s s' \<Longrightarrow> unchanged (s\<lparr>fs_log := L\<rparr>) (s'\<lparr>fs_log := L\<rparr>)"
    "unchanged s s' \<Longrightarrow> unchanged (s\<lparr>fs_m_in := m\<rparr>) (s'\<lparr>fs_m_in := m\<rparr>)"
    by (simp_all add: unchanged_def cache_frame_def no_cache_log users_kept_def same_contents_def c)
qed

lemma cache_log [simp]:
  "spare n (s\<lparr>fs_log := L\<rparr>) = spare n s" "cache_ok (s\<lparr>fs_log := L\<rparr>) = cache_ok s" "io_works (s\<lparr>fs_log := L\<rparr>) = io_works s"
  "spare n (s\<lparr>fs_m_in := m\<rparr>) = spare n s" "same_contents s (s\<lparr>fs_log := L\<rparr>)" "same_contents s (s\<lparr>fs_m_in := m\<rparr>)"
  "ready (s\<lparr>fs_log := L\<rparr>) = ready s"
proof -
  note c = core_cong [where spi = 0 and s = s and s' = "s\<lparr>fs_log := L\<rparr>"]
  note d = core_cong [where spi = 0 and s = s and s' = "s\<lparr>fs_m_in := m\<rparr>"]
  show "spare n (s\<lparr>fs_log := L\<rparr>) = spare n s" "cache_ok (s\<lparr>fs_log := L\<rparr>) = cache_ok s" "io_works (s\<lparr>fs_log := L\<rparr>) = io_works s"
    by (rule c(5,2,3); simp add: sup_keptI)+
  then show "ready (s\<lparr>fs_log := L\<rparr>) = ready s" by (simp add: ready_def)
  show "spare n (s\<lparr>fs_m_in := m\<rparr>) = spare n s" by (rule d(5); simp add: sup_keptI)
  have "contents (s\<lparr>fs_log := L\<rparr>) = contents s" "contents (s\<lparr>fs_m_in := m\<rparr>) = contents s"
    by (rule c(1); simp add: sup_keptI) (rule d(1); simp add: sup_keptI)
  then show "same_contents s (s\<lparr>fs_log := L\<rparr>)" "same_contents s (s\<lparr>fs_m_in := m\<rparr>)" by (simp_all add: same_contents_def)
qed

lemma rw_chunk_reads:
  assumes P: "plain_file s spi rip" and sp: "spare (Suc n) s" and n: "64 \<le> Suc n"
    and pos: "position < i_size (inodes s rip)" and l: "0 < unat left" "unat left < 2 ^ 31"
    and c: "chunk \<le> s_block_size (super_blocks s spi) - off"
    and off: "off = unat position mod s_block_size (super_blocks s spi)"
  shows "\<exists>D s'. rw_chunk rip position off chunk left READING buff seg usr (s_block_size (super_blocks s spi)) s =
      Some (fst (fs_ans s (length (fs_log s))), s') \<and> spare (Suc n) s' \<and>
    unchanged (s\<lparr>fs_log := fs_log s @ [Fs_copy_out usr seg buff D chunk]\<rparr>) s' \<and>
    (\<forall>i<chunk. D i = file_byte s spi rip (unat position + i))"
proof -
  let ?bs = "s_block_size (super_blocks s spi)"
  from chunk_block_reads [OF P sp n pos l, of off chunk, folded off] obtain bp s1 where
    b: "chunk_block rip position off chunk left READING ?bs s = Some (Some bp, s1)" "in_use bp s s1" "cache_frame s s1"
      "same_contents s s1" "cache_ok s1" "io_works s1" "bp < NR_BUFS"
      "\<forall>i < ?bs - off. b_data (bufs s1 bp) (off + i) = file_byte s spi rip (unat position + i)" by blast
  define L where "L = fs_log s @ [Fs_copy_out usr seg buff (\<lambda>i. b_data (bufs s1 bp) (off + i)) chunk]"
  have lg: "fs_log s1 = fs_log s" "fs_ans s1 = fs_ans s" using b(3) by (simp_all add: cache_frame_sel)
  let ?t = "s1\<lparr>fs_log := L\<rparr>"
  have cp: "copy_chunk bp off chunk READING buff seg usr s1 = (fst (fs_ans s (length (fs_log s))), ?t)"
    by (simp add: copy_chunk_def fs_do_def lg L_def split: prod.split)
  have u: "in_use bp s ?t" using b(2) by (simp add: in_use_def)
  from put_in_use [OF u spare_ready [OF sp] _ _ b(7), of "if off + chunk = ?bs then FULL_DATA_BLOCK else PARTIAL_DATA_BLOCK"] b(5,6)
  obtain s2 where s2: "put_block (Some bp) (if off + chunk = ?bs then FULL_DATA_BLOCK else PARTIAL_DATA_BLOCK) ?t = Some s2"
    "ready s2" "same_contents ?t s2" "cache_frame ?t s2" "users_kept s s2" by auto
  have "rw_chunk rip position off chunk left READING buff seg usr ?bs s = Some (fst (fs_ans s (length (fs_log s))), s2)"
    using b(1) s2(1) by (simp add: rw_chunk_def cp)
  moreover have "unchanged (s\<lparr>fs_log := L\<rparr>) s2"
  proof -
    have "cache_frame (s\<lparr>fs_log := L\<rparr>) ?t" using b(3) by (simp add: cache_frame_def no_cache_log)
    then have fr: "cache_frame (s\<lparr>fs_log := L\<rparr>) s2" using s2(4) by (rule cache_frame_trans)
    have sup: "super_blocks s1 = super_blocks s" using b(3) by (simp add: cache_frame_sel)
    have "same_contents s1 ?t" by (rule cache_log(5))
    from same_contents_trans [OF b(4) this sup] have a: "same_contents s ?t" .
    have "super_blocks ?t = super_blocks s" using sup by simp
    from same_contents_trans [OF a s2(3) this] have a2: "same_contents s s2" .
    have "same_contents (s\<lparr>fs_log := L\<rparr>) ((s\<lparr>fs_log := L\<rparr>)\<lparr>fs_log := fs_log s\<rparr>)" by (rule cache_log(5))
    then have a3: "same_contents (s\<lparr>fs_log := L\<rparr>) s" by simp
    have "super_blocks s = super_blocks (s\<lparr>fs_log := L\<rparr>)" by simp
    from same_contents_trans [OF a3 a2 this] have "same_contents (s\<lparr>fs_log := L\<rparr>) s2" .
    with fr s2(5) show ?thesis by (simp add: unchanged_def users_kept_def)
  qed
  moreover have "spare (Suc n) s2" by (rule spare_ready_kept [OF sp s2(5,2)])
  moreover have "\<forall>i<chunk. b_data (bufs s1 bp) (off + i) = file_byte s spi rip (unat position + i)" using b(8) c by simp
  ultimately show ?thesis unfolding L_def by blast
qed

text \<open>What a user process has in its memory after the copies of a log.\<close>

fun delivered :: "int \<Rightarrow> int \<Rightarrow> fs_call list \<Rightarrow> (u32 \<Rightarrow> u8) \<Rightarrow> u32 \<Rightarrow> u8" where
  "delivered usr seg [] M = M"
| "delivered usr seg (c # cs) M = delivered usr seg cs
     (case c of Fs_copy_out u g a d n \<Rightarrow> if u = usr \<and> g = seg then (\<lambda>x. if unat (x - a) < n then d (unat (x - a)) else M x) else M
      | _ \<Rightarrow> M)"

lemma delivered_append: "delivered usr seg (p @ q) M = delivered usr seg q (delivered usr seg p M)"
  by (induction p arbitrary: M) auto

lemma advance_request_0 [simp]: "advance_request 0 s = s"
  by (simp add: advance_request_def)

lemma advance_request_sel [simp]:
  "inodes (advance_request c s) = inodes s" "super_blocks (advance_request c s) = super_blocks s"
  "fs_ans (advance_request c s) = fs_ans s" "fs_log (advance_request c s) = fs_log s" "rdwt_err (advance_request c s) = rdwt_err s"
  "spare n (advance_request c s) = spare n s" "same_contents s (advance_request c s)" "filps (advance_request c s) = filps s"
  "m_buffer (fs_m_in (advance_request c s)) = m_buffer (fs_m_in s) + word_of_int c"
  by (simp_all add: advance_request_def m_buffer_def)

lemma m_nbytes_advance:
  assumes "0 \<le> c" "c \<le> m_nbytes (fs_m_in s)"
  shows "m_nbytes (fs_m_in (advance_request c s)) = m_nbytes (fs_m_in s) - c"
proof -
  let ?w = "m_w1 (fs_m_in s)"
  have "?w - word_of_int c = word_of_int (sint ?w - c)" by simp
  then have "sint (?w - word_of_int c) = slong (sint ?w - c)" by (simp only: slong_def)
  also have "\<dots> = sint ?w - c"
    by (rule slong_id) (use assms sint_lt [of ?w] in \<open>simp_all add: m_nbytes_def\<close>)
  finally show ?thesis by (simp add: m_nbytes_def advance_request_def)
qed

lemma m_nbytes_less: "m_nbytes m < 2 ^ 31"
  using sint_lt [of "m_w1 m"] by (simp add: m_nbytes_def)

lemma advance_advance: "advance_request a (advance_request b s) = advance_request (a + b) s"
  by (simp add: advance_request_def algebra_simps)

lemma unchanged_advance:
  assumes "unchanged s s'"
  shows "unchanged (advance_request c (s\<lparr>fs_log := L\<rparr>)) (advance_request c (s'\<lparr>fs_log := L\<rparr>))"
proof -
  have "fs_m_in s' = fs_m_in s" using assms by (simp add: unchanged_def cache_frame_sel)
  then show ?thesis
    using unchanged_log(2) [OF unchanged_log(1) [OF assms, of L]] by (simp add: advance_request_def)
qed

lemma chunk_min:
  assumes "0 < nb" "off < bs"
  shows "min (if min nb (int bs - int off) < 0 then int bs - int off else min nb (int bs - int off)) (int d) =
    int (min (min (nat nb) (bs - off)) d)"
proof -
  have a: "\<not> min nb (int bs - int off) < 0" using assms by simp
  have "int (nat nb) = nb" "int (bs - off) = int bs - int off" using assms by simp_all
  then show ?thesis by (simp only: a if_False of_nat_min)
qed

lemma rw_loop_reads:
  assumes "plain_file s spi rip" "spare (Suc n) s" "64 \<le> Suc n" "\<forall>j. fst (fs_ans s j) = OK" "rdwt_err s = OK"
    "0 \<le> m_nbytes (fs_m_in s)" "pg_r pg = OK" "f_size = i_size (inodes s rip)" "bs = s_block_size (super_blocks s spi)"
    "m = min (nat (m_nbytes (fs_m_in s))) (unat f_size - unat (pg_pos pg))"
  shows "\<exists>L s'. rw_loop rip READING f_size bs usr seg False pg s =
      Some (pg\<lparr>pg_pos := pg_pos pg + of_nat m, pg_cum := pg_cum pg + int m\<rparr>, s') \<and>
    unchanged (advance_request (int m) (s\<lparr>fs_log := fs_log s @ L\<rparr>)) s' \<and> spare (Suc n) s' \<and>
    (\<forall>M. delivered usr seg L M = (\<lambda>x. if unat (x - m_buffer (fs_m_in s)) < m
       then file_byte s spi rip (unat (pg_pos pg) + unat (x - m_buffer (fs_m_in s))) else M x))"
  using assms
proof (induction "nat (m_nbytes (fs_m_in s))" arbitrary: s pg m rule: less_induct)
  case less
  note P = less.prems(1) and sp = less.prems(2) and n = less.prems(3) and ans = less.prems(4) and rd = less.prems(5)
    and nn = less.prems(6) and pr = less.prems(7) and fsz = less.prems(8) and bs = less.prems(9) and m = less.prems(10)
  let ?nb = "m_nbytes (fs_m_in s)" and ?p = "pg_pos pg" and ?buf = "m_buffer (fs_m_in s)"
  have stop: ?case if "rw_loop rip READING f_size bs usr seg False pg s = Some (pg, s)" "m = 0"
    using that sp by (intro exI [of _ "[]"] exI [of _ s]) simp
  have bp: "1 < bs" "bs \<le> MAX_BLOCK_SIZE" using plain_fileD(10,11) [OF P] by (simp_all add: bs)
  show ?case
  proof (cases "?nb = 0 \<or> f_size \<le> ?p")
    case True
    then have "m = 0" using m by (auto simp: word_le_nat_alt)
    moreover have "rw_loop rip READING f_size bs usr seg False pg s = Some (pg, s)"
      using True bp by (subst rw_loop.simps) (auto simp: chunk_size_def Let_def)
    ultimately show ?thesis by (intro stop)
  next
    case False
    define off where "off = unat ?p mod bs"
    define c where "c = min (min (nat ?nb) (bs - off)) (unat f_size - unat ?p)"
    have pos: "?p < f_size" "unat ?p < unat f_size" using False by (simp_all add: word_less_nat_alt word_le_nat_alt not_le)
    have off: "off < bs" using bp by (simp add: off_def)
    have nb: "0 < ?nb" using False nn by simp
    have f32: "unat f_size < 2 ^ LENGTH(32)" by (rule unsigned_less)
    have c: "0 < c" "c \<le> bs - off" "c \<le> nat ?nb" "c \<le> unat f_size - unat ?p" "c \<le> m"
      using pos(2) off nb by (auto simp: c_def m)
    have "unat (f_size - ?p) = unat f_size - unat ?p" by (rule unat_sub) (use pos(1) in simp)
    then have "uint (f_size - ?p) = int (unat f_size - unat ?p)" by (simp only: uint_nat)
    then have cs: "chunk_size READING f_size bs False (pg_partial pg) ?p ?nb = Some (int c)"
      using False chunk_min [OF nb off, of "unat f_size - unat ?p"]
      by (simp only: chunk_size_def Let_def c_def off_def rw_flag.case if_False de_Morgan_disj)
    let ?lft = "word_of_int ?nb :: u32"
    have n31: "nat ?nb < 2 ^ 31" using m_nbytes_less [of "fs_m_in s"] nb by (simp add: nat_less_iff)
    have "?lft = of_nat (nat ?nb)" using nb by simp
    then have lft: "unat ?lft = nat ?nb" by (rule of_nat_inverse [OF sym]) (use n31 in simp)
    then have l: "0 < unat ?lft" "unat ?lft < 2 ^ 31" using nb n31 by simp_all
    from rw_chunk_reads [OF P sp n _ l, of ?p c off ?buf seg usr] pos(1) c(2) obtain D s1 where
      r: "rw_chunk rip ?p off c ?lft READING ?buf seg usr bs s = Some (OK, s1)" "spare (Suc n) s1"
        "unchanged (s\<lparr>fs_log := fs_log s @ [Fs_copy_out usr seg ?buf D c]\<rparr>) s1"
        "\<forall>i<c. D i = file_byte s spi rip (unat ?p + i)"
      using ans by (auto simp: fsz bs off_def)
    let ?t = "s\<lparr>fs_log := fs_log s @ [Fs_copy_out usr seg ?buf D c]\<rparr>"
    have fr: "cache_frame ?t s1" "same_contents ?t s1" using r(3) by (simp_all add: unchanged_def)
    note sel = cache_frame_sel [OF fr(1)] cache_frame_sel2 [OF fr(1)]
    define s2 where "s2 = advance_request (int c) s1"
    define pg2 where "pg2 = pg\<lparr>pg_r := OK, pg_cum := pg_cum pg + int c, pg_pos := ?p + word_of_int (int c)\<rparr>"
    have lp: "rw_loop rip READING f_size bs usr seg False pg s = rw_loop rip READING f_size bs usr seg False pg2 s2"
      using False bp cs r(1) rd sel by (subst rw_loop.simps) (simp add: off_def [symmetric] s2_def pg2_def Let_def)
    have nb2: "m_nbytes (fs_m_in s2) = ?nb - int c"
      unfolding s2_def using c(3) nb by (subst m_nbytes_advance) (simp_all add: sel)
    have "super_blocks s2 = super_blocks s" "inodes s2 = inodes s" by (simp_all add: s2_def sel)
    moreover have "same_contents s s2"
    proof -
      have "same_contents s s1" by (rule same_contents_trans [OF cache_log(5) fr(2)]) simp
      moreover have "super_blocks s1 = super_blocks s" by (simp add: sel)
      ultimately show ?thesis unfolding s2_def by (rule same_contents_trans [OF _ advance_request_sel(7)])
    qed
    ultimately have P2: "plain_file s2 spi rip"
      and fb: "\<And>q. q < unat f_size \<Longrightarrow> file_byte s2 spi rip q = file_byte s spi rip q"
      using plain_file_kept [OF P, of s2] by (simp_all add: fsz)
    have up2: "unat (pg_pos pg2) = unat ?p + c"
    proof -
      have "unat ?p + c < 2 ^ LENGTH(32)" using c(4) pos(2) f32 by linarith
      moreover have "unat (of_nat c :: u32) = c" by (rule of_nat_inverse [OF refl]) (use calculation in simp)
      ultimately show ?thesis using unat_add_lem [of ?p "of_nat c"] by (simp add: pg2_def)
    qed
    have m2: "m - c = min (nat (m_nbytes (fs_m_in s2))) (unat f_size - unat (pg_pos pg2))"
    proof -
      have "nat (?nb - int c) = nat ?nb - c" by (simp add: nat_diff_distrib')
      then show ?thesis unfolding up2 nb2 m by (simp only:) (auto simp: min_def)
    qed
    have buf2: "m_buffer (fs_m_in s2) = ?buf + of_nat c" by (simp add: s2_def sel)
    have small: "nat (m_nbytes (fs_m_in s2)) < nat ?nb" using nb2 c(1) nb by simp
    have IH: "spare (Suc n) s2" "\<forall>j. fst (fs_ans s2 j) = OK" "rdwt_err s2 = OK" "0 \<le> m_nbytes (fs_m_in s2)" "pg_r pg2 = OK"
      "f_size = i_size (inodes s2 rip)" "bs = s_block_size (super_blocks s2 spi)"
      using r(2) ans rd c(3) nb by (simp_all add: s2_def sel pg2_def fsz bs) (use nb2 c(3) nb in \<open>simp add: s2_def\<close>)
    from less.hyps [OF small P2 IH(1) n IH(2-7) m2]
    obtain L s' where ih: "rw_loop rip READING f_size bs usr seg False pg2 s2 =
        Some (pg2\<lparr>pg_pos := pg_pos pg2 + of_nat (m - c), pg_cum := pg_cum pg2 + int (m - c)\<rparr>, s')"
      "unchanged (advance_request (int (m - c)) (s2\<lparr>fs_log := fs_log s2 @ L\<rparr>)) s'" "spare (Suc n) s'"
      "\<forall>M. delivered usr seg L M = (\<lambda>x. if unat (x - m_buffer (fs_m_in s2)) < m - c
         then file_byte s2 spi rip (unat (pg_pos pg2) + unat (x - m_buffer (fs_m_in s2))) else M x)" by blast
    let ?L = "Fs_copy_out usr seg ?buf D c # L"
    have "pg2\<lparr>pg_pos := pg_pos pg2 + of_nat (m - c), pg_cum := pg_cum pg2 + int (m - c)\<rparr> =
      pg\<lparr>pg_pos := ?p + of_nat m, pg_cum := pg_cum pg + int m\<rparr>"
      using pr c(5) by (cases pg) (simp add: pg2_def of_nat_diff)
    moreover have "unchanged (advance_request (int m) (s\<lparr>fs_log := fs_log s @ ?L\<rparr>)) s'"
    proof -
      have "advance_request (int m) (t\<lparr>fs_log := l\<rparr>) = advance_request (int (m - c)) ((advance_request (int c) t)\<lparr>fs_log := l\<rparr>)" for t l
        using c(5) by (simp add: advance_request_def of_nat_diff algebra_simps)
      note eq = this
      have "fs_log s2 @ L = fs_log s @ ?L" by (simp add: s2_def sel)
      with unchanged_trans [OF unchanged_advance [OF r(3), of "int m" "fs_log s @ ?L"], of s'] ih(2)
      show ?thesis by (simp add: s2_def eq)
    qed
    moreover have "delivered usr seg ?L M = (\<lambda>x. if unat (x - ?buf) < m
         then file_byte s spi rip (unat ?p + unat (x - ?buf)) else M x)" for M
    proof
      fix x
      let ?u = "unat (x - ?buf)"
      have c32: "unat (of_nat c :: u32) = c"
        by (rule of_nat_inverse [OF refl]) (use c(4) f32 in simp)
      have m32: "unat ?p + m \<le> unat f_size" using m pos(2) by simp
      have x2: "x - m_buffer (fs_m_in s2) = x - ?buf - of_nat c" by (simp add: buf2)
      show "delivered usr seg ?L M x = (if ?u < m then file_byte s spi rip (unat ?p + ?u) else M x)"
      proof (cases "c \<le> ?u")
        case True
        then have "(of_nat c :: u32) \<le> x - ?buf" using c32 by (simp add: word_le_nat_alt)
        then have "unat (x - ?buf - of_nat c) = ?u - c" by (simp add: unat_sub c32)
        with True c(5) m32 fb [of "unat ?p + ?u"] show ?thesis by (auto simp: ih(4) x2 up2)
      next
        case F: False
        have "\<not> unat (x - ?buf - of_nat c) < m - c"
        proof
          assume a: "unat (x - ?buf - of_nat c) < m - c"
          have "unat (x - ?buf - of_nat c) + c < 2 ^ LENGTH(32)" using a m32 f32 by linarith
          then have "unat ((x - ?buf - of_nat c) + of_nat c) = unat (x - ?buf - of_nat c) + c"
            using unat_add_lem [of "x - ?buf - of_nat c" "of_nat c"] by (simp add: c32)
          with F show False by simp
        qed
        with F c(5) r(4) show ?thesis by (simp add: ih(4) x2)
      qed
    qed
    ultimately show ?thesis using ih(1,3) unfolding lp by (intro exI [of _ ?L] exI [of _ s']) simp
  qed
qed

text \<open>The state after a transfer: the inode keeps what the file consists of, and the cache is as it was.\<close>

lemma finish_read:
  assumes P: "plain_file s spi rip" and r: "pg_r pg = OK" "rdwt_err s = OK" and bs: "0 < bs"
  shows "\<exists>s'. rw_finish READING f rip oflags fs bs pg False s = Some (pg_cum pg, s') \<and>
    plain_file s' spi rip \<and> (\<forall>p<unat (i_size (inodes s rip)). file_byte s' spi rip p = file_byte s spi rip p) \<and>
    i_size (inodes s' rip) = i_size (inodes s rip) \<and> filps s' = (filps s)(f := (filps s f)\<lparr>filp_pos := pg_pos pg\<rparr>) \<and>
    spare m s' = spare m s \<and> fs_log s' = fs_log s"
proof -
  define s2 where "s2 = upd_filp f (\<lambda>fl. fl\<lparr>filp_pos := pg_pos pg\<rparr>) s"
  define s3 where "s3 = plan_read_ahead READING rip (pg_pos pg) bs s2"
  have s3: "s3 = s2 \<or> s3 = s2\<lparr>rdahed_inode := Some rip, rdahedpos := pg_pos pg\<rparr>"
    by (simp add: s3_def plan_read_ahead_def Let_def)
  define s4 where "s4 = upd_inode rip (\<lambda>ip. ip\<lparr>i_seek := False\<rparr>) s3"
  define s5 where "s5 = upd_inode rip (\<lambda>ip. ip\<lparr>i_update := insert ATIME (i_update ip), i_dirt := True\<rparr>) s4"
  define s' where "s' = upd_fproc (fp s5) (\<lambda>p. p\<lparr>fp_cum_io_partial := 0\<rparr>) s5"
  have sel: "bufs s' = bufs s" "buf_hash s' = buf_hash s" "front s' = front s" "rear s' = rear s" "disk s' = disk s"
    "io_ans s' = io_ans s" "super_blocks s' = super_blocks s" "fs_log s' = fs_log s"
    "filps s' = (filps s)(f := (filps s f)\<lparr>filp_pos := pg_pos pg\<rparr>)"
    "inodes s' = (inodes s)(rip := (inodes s rip)\<lparr>i_seek := False, i_update := insert ATIME (i_update (inodes s rip)), i_dirt := True\<rparr>)"
    using s3 by (auto simp: s'_def s5_def s4_def s2_def upd_inode_def upd_filp_def upd_fproc_def)
  have k: "sup_kept spi s s'" using sel(7) by (rule sup_keptI)
  note V = view_core [OF plain_fileD(1) [OF P] k sel(1-6)] and C = core_cong [OF sel(1-6) k]
  have tz: "tree_zone (inodes s' rip) = tree_zone (inodes s rip)" "tree_nodes (inodes s' rip) = tree_nodes (inodes s rip)"
    "tree_ok (inodes s' rip) = tree_ok (inodes s rip)" "max_zones (inodes s' rip) = max_zones (inodes s rip)"
    by (simp_all add: sel(10) fun_eq_iff tree_zone_def tree_nodes_def tree_ok_def single_def double_def max_zones_def Let_def)
  have fz: "file_zone s' rip j = file_zone s rip j" for j
  proof -
    have "i_sp (inodes s' rip) = Some spi" using inode_okD(1) [OF plain_fileD(3) [OF P]] by (simp add: sel(10))
    then show ?thesis using inode_okD(1) [OF plain_fileD(3) [OF P]] by (simp add: file_zone_def tz V(3))
  qed
  have dz: "data_zone s' spi = data_zone s spi" by (simp add: fun_eq_iff zone_kept [OF k])
  have "plain_file s' spi rip"
    using P unfolding plain_file_def file_ok_def inode_ok_def Let_def tz fz sel(7) by (simp add: V dz zone_kept [OF k] sel(10))
  moreover have "file_byte s' spi rip p = file_byte s spi rip p" for p by (simp add: file_byte_def Let_def sel(7) fz C(1))
  moreover have "rw_finish READING f rip oflags fs bs pg False s = Some (pg_cum pg, s')"
  proof -
    have p: "rw_position READING rip fs (pg_pos pg) s = (pg_pos pg, s)"
      using plain_fileD(5) [OF P] by (simp add: rw_position_def Let_def)
    have rd: "rdwt_err s4 = OK" using s3 r(2) by (auto simp: s4_def s2_def upd_filp_def upd_inode_def)
    show ?thesis
      using bs by (simp add: rw_finish_def p s2_def [symmetric] s3_def [symmetric] s4_def [symmetric] s5_def [symmetric]
          s'_def [symmetric] Let_def rd r(1))
  qed
  ultimately show ?thesis using V(4) sel by (intro exI [of _ s']) simp
qed

lemma plain_file_core:
  assumes P: "plain_file s spi rip" and e: "bufs s' = bufs s" "buf_hash s' = buf_hash s" "front s' = front s" "rear s' = rear s"
      "disk s' = disk s" "io_ans s' = io_ans s" "super_blocks s' = super_blocks s" "inodes s' = inodes s"
  shows "plain_file s' spi rip" "p < unat (i_size (inodes s rip)) \<Longrightarrow> file_byte s' spi rip p = file_byte s spi rip p"
    "spare n s' = spare n s"
proof -
  have k: "sup_kept spi s s'" using e(7) by (rule sup_keptI)
  note c = core_cong [OF e(1-6) k]
  have "same_contents s s'" by (simp add: same_contents_def c(1))
  from plain_file_kept [OF P e(8,7) this] show "plain_file s' spi rip"
    "p < unat (i_size (inodes s rip)) \<Longrightarrow> file_byte s' spi rip p = file_byte s spi rip p" by blast+
  show "spare n s' = spare n s" by (rule c(5))
qed

lemma rw_file_reads:
  assumes P: "plain_file s spi rip" and sp: "spare 64 s" and ans: "\<forall>j. fst (fs_ans s j) = OK"
    and f: "filp_ino (filps s f) = Some rip" and nb: "0 \<le> m_nbytes (fs_m_in s)"
    and m: "m = min (nat (m_nbytes (fs_m_in s))) (unat (i_size (inodes s rip)) - unat (filp_pos (filps s f)))"
  shows "\<exists>L s'. rw_file select_callback dev_io READING f usr seg s = Some (int m, s') \<and> fs_log s' = fs_log s @ L \<and>
    (\<forall>M. delivered usr seg L M = (\<lambda>x. if unat (x - m_buffer (fs_m_in s)) < m
       then file_byte s spi rip (unat (filp_pos (filps s f)) + unat (x - m_buffer (fs_m_in s))) else M x)) \<and>
    filps s' = (filps s)(f := (filps s f)\<lparr>filp_pos := filp_pos (filps s f) + of_nat m\<rparr>) \<and>
    plain_file s' spi rip \<and> i_size (inodes s' rip) = i_size (inodes s rip) \<and>
    (\<forall>p<unat (i_size (inodes s rip)). file_byte s' spi rip p = file_byte s spi rip p) \<and> spare 64 s'"
proof -
  let ?ip = "inodes s rip" and ?bs = "s_block_size (super_blocks s spi)" and ?pos = "filp_pos (filps s f)"
  define s1 where "s1 = s\<lparr>rdwt_err := OK\<rparr>"
  define pg where "pg = \<lparr>pg_r = OK, pg_pos = ?pos, pg_cum = 0, pg_partial = 0\<rparr>"
  have core: "plain_file s1 spi rip" "\<And>p. p < unat (i_size ?ip) \<Longrightarrow> file_byte s1 spi rip p = file_byte s spi rip p"
    "spare n s1 = spare n s" for n
    by (rule plain_file_core [OF P]; simp add: s1_def)+
  note D = plain_fileD [OF P]
  have sp1: "spare (Suc 63) s1" using sp core(3) by simp
  have s1: "fs_ans s1 = fs_ans s" "rdwt_err s1 = OK" "fs_m_in s1 = fs_m_in s" "inodes s1 = inodes s" "super_blocks s1 = super_blocks s"
    by (simp_all add: s1_def)
  have pg: "pg_r pg = OK" "pg_pos pg = ?pos" "pg_cum pg = 0" by (simp_all add: pg_def)
  from rw_loop_reads [OF core(1) sp1 _ _ s1(2) _ pg(1), of "i_size ?ip" ?bs m usr seg] ans nb m
  obtain L s2 where
    lp: "rw_loop rip READING (i_size ?ip) ?bs usr seg False pg s1 =
        Some (pg\<lparr>pg_pos := ?pos + of_nat m, pg_cum := int m\<rparr>, s2)"
      "unchanged (advance_request (int m) (s1\<lparr>fs_log := fs_log s1 @ L\<rparr>)) s2" "spare (Suc 63) s2"
      "\<forall>M. delivered usr seg L M = (\<lambda>x. if unat (x - m_buffer (fs_m_in s)) < m
         then file_byte s1 spi rip (unat ?pos + unat (x - m_buffer (fs_m_in s))) else M x)"
    unfolding s1 pg by auto
  let ?t = "advance_request (int m) (s1\<lparr>fs_log := fs_log s1 @ L\<rparr>)"
  have fr: "cache_frame ?t s2" "same_contents ?t s2" using lp(2) by (simp_all add: unchanged_def)
  note sel = cache_frame_sel [OF fr(1)] cache_frame_sel2 [OF fr(1)]
  have t: "plain_file ?t spi rip" "\<And>p. p < unat (i_size ?ip) \<Longrightarrow> file_byte ?t spi rip p = file_byte s spi rip p"
    by (rule plain_file_core [OF P]; simp add: s1_def advance_request_def)+
  have P2: "plain_file s2 spi rip" "\<And>p. p < unat (i_size ?ip) \<Longrightarrow> file_byte s2 spi rip p = file_byte s spi rip p"
    using plain_file_kept [OF t(1) sel(3,1) fr(2)] t(2) by (simp_all add: s1_def)
  have "rdwt_err s2 = OK" "0 < ?bs" using sel D(10) by (simp_all add: s1_def)
  from finish_read [OF P2(1) _ this(1,2), of "pg\<lparr>pg_pos := ?pos + of_nat m, pg_cum := int m\<rparr>" f "filp_flags (filps s f)" "i_size ?ip" 64]
  obtain s' where fin: "rw_finish READING f rip (filp_flags (filps s f)) (i_size ?ip) ?bs
        (pg\<lparr>pg_pos := ?pos + of_nat m, pg_cum := int m\<rparr>) False s2 = Some (int m, s')"
      "plain_file s' spi rip" "\<forall>p<unat (i_size (inodes s2 rip)). file_byte s' spi rip p = file_byte s2 spi rip p"
      "i_size (inodes s' rip) = i_size (inodes s2 rip)"
      "filps s' = (filps s2)(f := (filps s2 f)\<lparr>filp_pos := ?pos + of_nat m\<rparr>)" "spare 64 s' = spare 64 s2" "fs_log s' = fs_log s2"
    by (auto simp: pg_def)
  have "rw_file select_callback dev_io READING f usr seg s = Some (int m, s')"
  proof -
    have bsz: "rw_block_size ?ip s = Some ?bs"
      using D(4,6) inode_okD(1) [OF D(3)] by (simp add: rw_block_size_def)
    have sz: "rw_file_size ?ip = i_size ?ip" using D(6) by (simp add: rw_file_size_def)
    have nc: "i_mode ?ip AND I_TYPE \<noteq> I_CHAR_SPECIAL" using D(4) by simp
    have b: "rw_blocks select_callback READING rip (filp_flags (filps s f)) ?bs usr seg pg s1 =
        Some (Inr (pg\<lparr>pg_pos := ?pos + of_nat m, pg_cum := int m\<rparr>, False), s2)"
      using D(5) lp(1) sz by (simp add: rw_blocks_def s1_def pg_def Let_def)
    have "pg_cum pg = 0" by (simp add: pg_def)
    show ?thesis
      using D(5) nc b fin(1) by (simp add: rw_file_def f bsz Let_def s1_def [symmetric] pg_def [symmetric] sz)
  qed
  moreover have "filps s2 = filps s" "fs_log s2 = fs_log s @ L" "inodes s2 = inodes s" using sel by (simp_all add: s1_def)
  ultimately show ?thesis
    using fin lp(3,4) P2(2) core(2) m
    by (intro exI [of _ L] exI [of _ s']) (auto simp: fun_eq_iff)
qed

subsection \<open>Reading a file\<close>

text \<open>The file descriptor \<open>fd\<close> of the process that is served is the open file \<open>f\<close> on the inode \<open>rip\<close>, with the access \<open>bits\<close>.\<close>

definition open_file :: "fsstate \<Rightarrow> int \<Rightarrow> u16 \<Rightarrow> nat \<Rightarrow> nat \<Rightarrow> bool" where
  "open_file s fd bits f rip \<longleftrightarrow> 0 \<le> fd \<and> fd < int OPEN_MAX \<and> fp_filp (fprocs s (fp s)) (nat fd) = Some f \<and>
     filp_mode (filps s f) AND bits \<noteq> 0 \<and> filp_ino (filps s f) = Some rip"

lemma do_read_spec:
  assumes who: "fs_who s \<noteq> PM_PROC_NR" and f: "open_file s (m_fd (fs_m_in s)) R_BIT f rip" and P: "plain_file s spi rip"
    and sp: "spare 64 s" and ans: "\<forall>j. fst (fs_ans s j) = OK" and b: "0 \<le> bufs_in_use s" and nb: "0 \<le> m_nbytes (fs_m_in s)"
    and m: "m = min (nat (m_nbytes (fs_m_in s))) (unat (i_size (inodes s rip)) - unat (filp_pos (filps s f)))"
  shows "\<exists>L s'. do_read select_callback dev_io s = Some (int m, s') \<and> fs_log s' = fs_log s @ L \<and>
    (\<forall>M. delivered (fs_who s) 1 L M = (\<lambda>x. if unat (x - m_buffer (fs_m_in s)) < m
       then file_byte s spi rip (unat (filp_pos (filps s f)) + unat (x - m_buffer (fs_m_in s))) else M x)) \<and>
    filps s' = (filps s)(f := (filps s f)\<lparr>filp_pos := filp_pos (filps s f) + of_nat m\<rparr>) \<and>
    plain_file s' spi rip \<and> i_size (inodes s' rip) = i_size (inodes s rip) \<and>
    (\<forall>p<unat (i_size (inodes s rip)). file_byte s' spi rip p = file_byte s spi rip p) \<and> spare 64 s'"
proof -
  let ?n = "m_nbytes (fs_m_in s)"
  note F = f [unfolded open_file_def]
  define s1 where "s1 = s\<lparr>err_code := EBADF\<rparr>"
  define s2 where "s2 = s1\<lparr>fs_log := fs_log s @ [Fs_umap (fs_who s) 1 (m_buffer (fs_m_in s)) (nat ?n)]\<rparr>"
  have gf: "get_filp (m_fd (fs_m_in s)) s = (Some f, s1)" using F by (auto simp: get_filp_def Let_def s1_def)
  have tgt: "rw_target s = (fs_who s, 1, s)" using who by (simp add: rw_target_def)
  have umap: "fs_do (Fs_umap (fs_who s) 1 (m_buffer (fs_m_in s)) (nat ?n)) s1 = (fs_ans s (length (fs_log s)), s2)"
    by (simp add: fs_do_def s1_def s2_def)
  have ok: "fst (fs_ans s (length (fs_log s))) = OK" using ans by simp
  show ?thesis
  proof (cases "?n = 0")
    case True
    have core: "plain_file s1 spi rip" "\<And>p. p < unat (i_size (inodes s rip)) \<Longrightarrow> file_byte s1 spi rip p = file_byte s spi rip p"
      "spare 64 s1 = spare 64 s" by (rule plain_file_core [OF P]; simp add: s1_def)+
    have "do_read select_callback dev_io s = Some (0, s1)"
      using F b True tgt gf by (simp add: do_read_def read_write_def s1_def)
    with core sp m True show ?thesis by (intro exI [of _ "[]"] exI [of _ s1]) (simp add: s1_def)
  next
    case False
    have e: "fs_m_in s2 = fs_m_in s" "filps s2 = filps s" "inodes s2 = inodes s" "fs_ans s2 = fs_ans s"
      "fs_log s2 = fs_log s @ [Fs_umap (fs_who s) 1 (m_buffer (fs_m_in s)) (nat ?n)]" by (simp_all add: s1_def s2_def)
    have core: "plain_file s2 spi rip" "\<And>p. p < unat (i_size (inodes s rip)) \<Longrightarrow> file_byte s2 spi rip p = file_byte s spi rip p"
      "spare 64 s2 = spare 64 s" by (rule plain_file_core [OF P]; simp add: s1_def s2_def)+
    have rd: "do_read select_callback dev_io s = rw_file select_callback dev_io READING f (fs_who s) 1 s2"
      using F b False nb tgt gf umap ok by (auto simp: do_read_def read_write_def s1_def Let_def split: prod.split)
    from rw_file_reads [OF core(1), of f m select_callback dev_io "fs_who s" 1] sp ans F nb m core(3)
    obtain L s' where r: "rw_file select_callback dev_io READING f (fs_who s) 1 s2 = Some (int m, s')" "fs_log s' = fs_log s2 @ L"
      "\<forall>M. delivered (fs_who s) 1 L M = (\<lambda>x. if unat (x - m_buffer (fs_m_in s)) < m
       then file_byte s2 spi rip (unat (filp_pos (filps s f)) + unat (x - m_buffer (fs_m_in s))) else M x)"
      "filps s' = (filps s)(f := (filps s f)\<lparr>filp_pos := filp_pos (filps s f) + of_nat m\<rparr>)" "plain_file s' spi rip"
      "i_size (inodes s' rip) = i_size (inodes s rip)" 
      "\<forall>p<unat (i_size (inodes s rip)). file_byte s' spi rip p = file_byte s2 spi rip p" "spare 64 s'"
      unfolding e by blast
    let ?L = "Fs_umap (fs_who s) 1 (m_buffer (fs_m_in s)) (nat ?n) # L"
    have "delivered (fs_who s) 1 ?L M = (\<lambda>x. if unat (x - m_buffer (fs_m_in s)) < m
       then file_byte s spi rip (unat (filp_pos (filps s f)) + unat (x - m_buffer (fs_m_in s))) else M x)" for M
      using r(3) core(2) m by (auto simp: fun_eq_iff)
    with r core(2) show ?thesis by (intro exI [of _ ?L] exI [of _ s']) (simp add: rd e(5))
  qed
qed

text \<open>
  C3. Reading a file. A process reads from a regular file on a well-formed volume, all calls to the kernel
  succeeding. Then \<open>do_read\<close> returns the number of bytes that are left in the file, at most the number
  requested; the copies to the process leave in its buffer exactly the bytes of the file from the file
  position on, zeros where the file has a hole, and nothing else is written; the position is advanced by
  what was read. Blocks that were read ahead and evictions from the cache change no byte of the file.
\<close>

theorem do_read_returns_file:
  assumes "fs_who s \<noteq> PM_PROC_NR" and "open_file s (m_fd (fs_m_in s)) R_BIT f rip" and "plain_file s spi rip"
    and "spare 64 s" and "\<forall>j. fst (fs_ans s j) = OK" and "0 \<le> bufs_in_use s" and "0 \<le> m_nbytes (fs_m_in s)"
    and "m = min (nat (m_nbytes (fs_m_in s))) (unat (i_size (inodes s rip)) - unat (filp_pos (filps s f)))"
  shows "\<exists>L s'. do_read select_callback dev_io s = Some (int m, s') \<and> fs_log s' = fs_log s @ L \<and>
    (\<forall>M. delivered (fs_who s) 1 L M = (\<lambda>x. if unat (x - m_buffer (fs_m_in s)) < m
       then file_byte s spi rip (unat (filp_pos (filps s f)) + unat (x - m_buffer (fs_m_in s))) else M x)) \<and>
    filps s' = (filps s)(f := (filps s f)\<lparr>filp_pos := filp_pos (filps s f) + of_nat m\<rparr>) \<and>
    plain_file s' spi rip \<and> i_size (inodes s' rip) = i_size (inodes s rip) \<and>
    (\<forall>p<unat (i_size (inodes s rip)). file_byte s' spi rip p = file_byte s spi rip p) \<and> spare 64 s'"
  using assms by (rule do_read_spec)

text \<open>A file of 1000 bytes, all of them in a hole, opened at position 950.\<close>

definition demo_open :: fsstate where
  "demo_open = demo_file\<lparr>inodes := (inodes demo_file)(0 := (inodes demo_file 0)\<lparr>i_mode := I_REGULAR, i_size := 1000\<rparr>),
     filps := (\<lambda>_. (filps demo_file 0)\<lparr>filp_mode := R_BIT OR W_BIT, filp_count := 1, filp_ino := Some 0, filp_pos := 950, filp_flags := 0\<rparr>),
     fprocs := (\<lambda>_. (fprocs demo_file 0)\<lparr>fp_filp := (\<lambda>_. Some 0)\<rparr>), fs_who := 7, bufs_in_use := 0,
     fs_ans := (\<lambda>_. (OK, \<lambda>_. 0)), fs_log := [], fs_m_in := demo_msg\<lparr>m_w0 := 3, m_w1 := 100, m_w3 := 4096\<rparr>\<rparr>"

lemma demo_open_sel:
  "bufs demo_open = bufs demo_file" "buf_hash demo_open = buf_hash demo_file" "front demo_open = front demo_file"
  "rear demo_open = rear demo_file" "disk demo_open = disk demo_file" "io_ans demo_open = io_ans demo_file"
  "super_blocks demo_open = super_blocks demo_file"
  "inodes demo_open 0 = (inodes demo_file 0)\<lparr>i_mode := I_REGULAR, i_size := 1000\<rparr>"
  by (simp_all add: demo_open_def)

lemma demo_open_file: "plain_file demo_open 0 0" "spare 64 demo_open" "p < 1000 \<Longrightarrow> file_byte demo_open 0 0 p = 0"
proof -
  have k: "sup_kept 0 demo_file demo_open" by (rule sup_keptI) (rule demo_open_sel(7))
  note v = view_core [OF demo_file_ok(2) k demo_open_sel(1-6)] and e = demo_open_sel(7,8)
  have sel: "s_dev demo_super = 5" "s_zones demo_super = 200" "s_block_size demo_super = 1024"
    "s_log_zone_size demo_super = 0" by (simp_all add: demo_super_def zero_super_def)
  have sb: "super_blocks demo_file 0 = demo_super" by (simp add: demo_file_sel demo_vol_facts(2))
  let ?z = "(fs_zero demo_msg (\<lambda>_ a. if a = 3072 then 1 else 0))\<lparr>super_blocks := (\<lambda>i. if i = 0 then demo_super else zero_super)\<rparr>"
  have z: "\<forall>i<NR_BUFS. b_count (bufs ?z i) = 0" "\<forall>h. buf_hash ?z h = None" by (simp_all add: fs_zero_def zero_buf_def)
  have cnt: "\<forall>i<NR_BUFS. b_count (bufs demo_open i) = 0" using buf_pool_cache(7) [OF z] by (simp add: demo_vol_def demo_open_sel demo_file_sel)
  then have "idle_bufs demo_open = {..<NR_BUFS}" by (auto simp: idle_bufs_def)
  moreover have "cache_ok demo_open" "io_works demo_open" using v(4) [of 2] demo_file_ok(1) by (simp_all add: spare_def)
  ultimately show "spare 64 demo_open" using cnt by (simp add: spare_def NR_BUFS_def)
  have ip: "single (inodes demo_open 0) = 0" "double (inodes demo_open 0) = 0" "i_nindirs (inodes demo_open 0) = 256"
    "i_zone (inodes demo_open 0) = (\<lambda>_. 0)" "i_size (inodes demo_open 0) = 1000" "i_mode (inodes demo_open 0) = I_REGULAR"
    "\<not> i_pipe (inodes demo_open 0)" "i_ndzones (inodes demo_open 0) = 7"
    by (simp_all add: e demo_file_sel(8) single_def double_def zero_inode_def)
  have tn: "tree_nodes (inodes demo_open 0) E = {}" for E by (auto simp: tree_nodes_def ip)
  have "tree_ok (inodes demo_open 0) E U dz" for E U dz by (auto simp: tree_ok_def Let_def tn ip)
  moreover have "in_block demo_open 0 i" if "i < 256" for i
    using inode_okD(4) [OF demo_file_ok(3)] that by (simp add: zone_kept [OF k] demo_file_sel)
  moreover have "i_sp (inodes demo_open 0) = Some 0" "i_dev (inodes demo_open 0) = 5" by (simp_all add: e demo_file_sel(8))
  ultimately have i: "inode_ok demo_open 0 0" by (simp add: inode_ok_def Let_def ip e(1) sb sel)
  have fz: "file_zone demo_open 0 j = 0" for j
    by (simp add: inode_okD(5) [OF i] tree_zone_def Let_def ip ref_def)
  have "max_zones (inodes demo_open 0) = 65799" by (simp add: max_zones_def ip)
  then show "plain_file demo_open 0 0"
    using v(1) i by (simp add: plain_file_def Let_def file_ok_def fz ip e(1) sb sel zone_bytes_def)
  show "file_byte demo_open 0 0 p = 0" by (simp add: file_byte_def Let_def fz)
qed

theorem do_read_returns_file_witness:
  "\<exists>L s'. do_read (\<lambda>_ _. Some) (\<lambda>_ _ _ _ _ _ _ s. Some (0, s)) demo_open = Some (50, s') \<and>
    (\<forall>M x. delivered 7 1 L M x = (if unat (x - 4096) < 50 then 0 else M x)) \<and> filp_pos (filps s' 0) = 1000"
proof -
  have i: "i_size (inodes demo_open 0) = 1000" by (simp add: demo_open_def)
  have n: "m_nbytes (fs_m_in demo_open) = 100" "m_fd (fs_m_in demo_open) = 3" "m_buffer (fs_m_in demo_open) = 4096"
    "fs_who demo_open = 7" "filp_pos (filps demo_open 0) = 950" "bufs_in_use demo_open = 0"
    by (simp_all add: demo_open_def m_nbytes_def m_fd_def m_buffer_def)
  have o: "open_file demo_open 3 R_BIT 0 0" by (simp add: open_file_def demo_open_def)
  have w: "fs_who demo_open \<noteq> PM_PROC_NR" "\<forall>j. fst (fs_ans demo_open j) = OK" by (simp_all add: demo_open_def)
  obtain L s' where "do_read (\<lambda>_ _. Some) (\<lambda>_ _ _ _ _ _ _ s. Some (0, s)) demo_open = Some (int 50, s')"
    "\<forall>M. delivered 7 1 L M = (\<lambda>x. if unat (x - 4096) < 50 then file_byte demo_open 0 0 (unat (950 :: u32) + unat (x - 4096)) else M x)"
    "filps s' = (filps demo_open)(0 := (filps demo_open 0)\<lparr>filp_pos := 950 + of_nat 50\<rparr>)"
    using do_read_returns_file [where m = 50 and select_callback = "\<lambda>_ _. Some" and dev_io = "\<lambda>_ _ _ _ _ _ _ s. Some (0, s)",
        OF w(1) o [folded n(2)] demo_open_file(1,2) w(2)] unfolding n i by auto
  then show ?thesis by (intro exI [of _ L] exI [of _ s']) (auto simp: demo_open_file(3))
qed

end
