(* ===== verification/Spec2Isabelle.thy ===== *)
theory Spec2Isabelle
  imports Kernel_System PM_Alloc FS_Lock FS_Rw
begin

text \<open>
  A verification development for the MINIX 3 sources of this repository: the kernel (\<^verbatim>\<open>src/kernel\<close>), the
  memory allocator of the process manager (\<^verbatim>\<open>src/servers/pm\<close>), and the file system
  (\<^verbatim>\<open>src/servers/fs\<close>).

  The program. The kernel schedules processes, passes messages between them, and performs kernel calls for
  the servers in the system task. The process manager and the file system are processes: each waits for
  a request message, performs it on its own tables, makes kernel calls, and replies. The theories
  follow this structure; a theory holds the definitions of its part first ("Model"), then the lemmas and
  the theorems about them. The paths below are relative to \<^verbatim>\<open>src\<close>.

  \<^bold>\<open>Shared\<close>

  \<^item> \<open>Prelude\<close>: machine integers (\<open>u32\<close>, \<open>u16\<close>, \<open>slong\<close>, \<open>sshort\<close>, \<open>schar\<close>: a value brought into the range of a
    C type), error numbers, lemmas on options, words and lists.
  \<^item> \<open>Chain\<close>: singly linked lists in a heap. \<open>chain nx h xs\<close>: following \<open>nx\<close> from the head \<open>h\<close> visits \<open>xs\<close>
    and ends; the walk, insertion and removal used by the kernel, the timers and the allocator.
  \<^item> \<open>Timers\<close>: \<^verbatim>\<open>lib/timers\<close>, a queue of watchdogs ordered by expiration. Locale \<open>timer_client\<close> states what a
    client with timers in its own state gets from the library; \<open>Kernel_Clock\<close> interprets it (\<open>kt\<close>).
  \<^item> \<open>Sigset\<close>: \<^verbatim>\<open>lib/posix/_sigset.c\<close>.

  \<^bold>\<open>Kernel\<close>

  \<^item> \<open>Kernel_Types\<close>: \<^verbatim>\<open>kernel/proc.h\<close>, \<^verbatim>\<open>priv.h\<close>, \<^verbatim>\<open>type.h\<close>, \<^verbatim>\<open>glo.h\<close>. The record \<open>kstate\<close> has a field for each
    global variable; \<open>procs\<close> is indexed by process number, as \<^verbatim>\<open>proc_addr\<close> does, \<open>k_mem\<close> is physical memory. The copies \<open>phys_copy\<close>, \<open>phys_memset\<close> and
    \<open>cp_mess\<close> of \<^verbatim>\<open>klib386.s\<close> go forward, unit by unit, as the string instructions do; \<open>apart src dst n\<close> says that
    the destination does not start inside the source, and then the destination gets the bytes of the source.
  \<^item> \<open>Kernel_Sched\<close>: \<^verbatim>\<open>enqueue\<close>, \<^verbatim>\<open>dequeue\<close>, \<^verbatim>\<open>sched\<close>, \<^verbatim>\<open>pick_proc\<close>, \<^verbatim>\<open>balance_queues\<close> of \<^verbatim>\<open>proc.c\<close>. \<open>sched_inv\<close>: each
    queue is a chain of exactly the ready processes of its priority, and \<open>next_ptr\<close> the first of the
    highest. \<open>sched_step\<close> is the step relation of blocking, unblocking and requeueing a process. The locale \<open>run_queues\<close> holds the laws of queues as lists, interpreted as \<open>rq\<close>; \<open>enqueue\<close> and \<open>dequeue\<close> refine it.
  \<^item> \<open>Kernel_Ipc\<close>: \<^verbatim>\<open>mini_send\<close>, \<^verbatim>\<open>mini_receive\<close>, \<^verbatim>\<open>mini_notify\<close>, \<^verbatim>\<open>lock_send\<close>, \<^verbatim>\<open>lock_notify\<close>. The invariant \<open>ipc_inv\<close>: caller
    queues are chains of exactly the processes that are blocked sending to their owner, and nobody waits in a
    cycle of senders (so the deadlock check of \<open>mini_send\<close> ends). \<open>told\<close> says what a notification has done: its message
    (\<open>notification\<close>) is in the buffer of the receiver, or its bit is pending. The watchdogs of \<open>Kernel_Clock\<close> and the
    signals of \<open>Kernel_Signal\<close> (\<open>sig_sent\<close>) are specified by it.
  \<^item> \<open>Kernel_Syscall\<close>: the trap gate \<^verbatim>\<open>sys_call\<close>: masks, destinations, message pointers.
  \<^item> \<open>Kernel_Print\<close> (\<^verbatim>\<open>utility.c\<close>), \<open>Kernel_Irq\<close> (\<^verbatim>\<open>i8259.c\<close>, \<^verbatim>\<open>klib386.s\<close> for the masks, \<^verbatim>\<open>do_irqctl.c\<close>), \<open>Kernel_Clock\<close>
    (\<^verbatim>\<open>clock.c\<close> and the calls on timers and times), \<open>Kernel_Mem\<close> (\<^verbatim>\<open>umap_local\<close>, \<^verbatim>\<open>virtual_copy\<close> and the calls on
    memory, descriptors of \<^verbatim>\<open>protect.c\<close>), \<open>Kernel_Procs\<close> (\<^verbatim>\<open>do_fork.c\<close>, \<^verbatim>\<open>do_exec.c\<close>, \<^verbatim>\<open>do_exit.c\<close>, \<^verbatim>\<open>do_newmap.c\<close>, \<^verbatim>\<open>do_privctl.c\<close>,
    \<^verbatim>\<open>do_nice.c\<close>), \<open>Kernel_Signal\<close> (\<^verbatim>\<open>cause_sig\<close>, \<^verbatim>\<open>do_kill.c\<close>, \<^verbatim>\<open>do_getksig.c\<close>, \<^verbatim>\<open>do_endksig.c\<close>, \<^verbatim>\<open>do_sigsend.c\<close>,
    \<^verbatim>\<open>do_sigreturn.c\<close>, \<^verbatim>\<open>do_trace.c\<close>), \<open>Kernel_Devio\<close> (\<^verbatim>\<open>do_devio.c\<close>, \<^verbatim>\<open>do_vdevio.c\<close>, \<^verbatim>\<open>do_sdevio.c\<close>).
  \<^item> \<open>Kernel_System\<close>: the dispatch of kernel calls in \<^verbatim>\<open>system.c\<close>, and the hardware exceptions of \<^verbatim>\<open>exception.c\<close>.

  Kernel calls have the type \<open>kcall\<close>: a request message and a state to a result, the reply and a state.

  \<^bold>\<open>Process manager\<close>

  \<^item> \<open>PM_Types\<close>: \<^verbatim>\<open>mproc.h\<close>, \<^verbatim>\<open>glo.h\<close>; the record \<open>pmstate\<close>.
  \<^item> \<open>PM_Alloc\<close>: \<^verbatim>\<open>alloc.c\<close>. The abstract specification is the set of free clicks \<open>free_clicks\<close>; the list of
    holes is sorted, its holes are separate and never adjacent. \<open>alloc_mem\<close> takes a block out of the set and
    \<open>free_mem\<close> returns it; a request that fits some hole is served.
    Swapping processes out is modelled, bringing them back (\<^verbatim>\<open>swap_in\<close>, \<^verbatim>\<open>swap_off\<close>) is not.

  \<^bold>\<open>File system\<close>

  \<^item> \<open>FS_Types\<close>: \<^verbatim>\<open>buf.h\<close>, \<^verbatim>\<open>inode.h\<close>, \<^verbatim>\<open>super.h\<close>, \<^verbatim>\<open>file.h\<close>, \<^verbatim>\<open>fproc.h\<close>, \<^verbatim>\<open>lock.h\<close>, \<^verbatim>\<open>glo.h\<close>; the record \<open>fsstate\<close>, with the disks
    as byte arrays.
  \<^item> \<open>FS_Cache\<close>, \<open>FS_Buffers\<close>: \<^verbatim>\<open>cache.c\<close>. The contents of a block (\<open>contents\<close>) are those of its buffer if there is one,
    otherwise those of the disk; \<open>cache_ok\<close> is the invariant of the LRU chain, the hash chains and the buffers. Getting and
    releasing blocks, evictions and write-backs change the contents of no block. Locale \<open>block_store\<close> states this as an
    interface, interpreted as \<open>bc\<close>.
  \<^item> \<open>FS_Super\<close>: \<^verbatim>\<open>super.c\<close>, bit maps and super blocks, and zones (\<^verbatim>\<open>alloc_zone\<close>, \<^verbatim>\<open>free_zone\<close>).
  \<^item> \<open>FS_Hold\<close>: operations that hold some buffers while they get and release others; \<open>spare n\<close>: \<open>n\<close> more can be held.
  \<^item> \<open>FS_Map\<close>: which zone holds which part of a file, \<^verbatim>\<open>read_map\<close>, \<^verbatim>\<open>write_map\<close>, \<^verbatim>\<open>new_block\<close>, \<^verbatim>\<open>clear_zone\<close>. The abstract value
    is the function \<open>file_zone\<close> from relative zone numbers to zones; \<open>vol_ok\<close> and \<open>inode_ok\<close> say that volume and inode are well formed.
  \<^item> \<open>FS_Inode\<close>: \<^verbatim>\<open>inode.c\<close>, and \<^verbatim>\<open>truncate\<close> of \<^verbatim>\<open>link.c\<close>; the two layouts of inodes on disk, with a round trip for
    each (\<open>persist\<close>: the fields that exist on the disk).
  \<^item> \<open>FS_Frame\<close>: what these operations leave alone, for every state.
  \<^item> \<open>FS_Pipe\<close>: \<^verbatim>\<open>filedes.c\<close>, \<^verbatim>\<open>pipe.c\<close>: file descriptors, suspension and revival of calls.
  \<^item> \<open>FS_Lock\<close>: \<^verbatim>\<open>lock.c\<close>. The abstract value of the lock table is a set of locked bytes per process and type; \<open>lock_op\<close> refines the
    operations on such sets, errors, answers and waiting included (\<open>lock_spec\<close>).
  \<^item> \<open>FS_Rw\<close>: \<^verbatim>\<open>read.c\<close>, \<^verbatim>\<open>do_write\<close>. The abstract value of a file is \<open>file_byte\<close>; a read delivers exactly its bytes.

  \<^bold>\<open>Conventions.\<close> A pointer into a table is an index, \<open>None\<close> the null pointer. A C function that may panic,
  or whose behaviour is undefined for some arguments (a null pointer, an index out of range, a division by
  zero), returns an option: \<open>None\<close> stands for these outcomes, so a theorem that a call returns also says that
  it does not panic. Error numbers are results, as in the code. Loops over pointers are
  \<open>partial_function (option)\<close>, and the theorems prove that they end; no fuel is used
  (the loop of \<open>alloc_mem\<close> swaps out one process in each round, so it ends). Words have the width of the C type; conversions between signed and
  unsigned are written out.

  \<^bold>\<open>Parameters.\<close> What is not part of these programs is a parameter: the answers of other processes (\<open>pm_answer\<close>, \<open>fs_ans\<close>),
  the completion of disk requests (\<open>io_ans\<close>), input ports (\<open>dev_in\<close>), the kernel calls \<^verbatim>\<open>do_int86\<close>, \<^verbatim>\<open>do_abort\<close>
  and \<^verbatim>\<open>do_getinfo\<close>, \<^verbatim>\<open>dmap_io\<close> and \<^verbatim>\<open>dev_io\<close> of \<^verbatim>\<open>device.c\<close>, \<^verbatim>\<open>select_callback\<close> and \<^verbatim>\<open>select_forget\<close> of \<^verbatim>\<open>select.c\<close>. All theorems hold for every value
  of them; some assume that the calls to the kernel and the disk succeed.

  \<^bold>\<open>Not modelled.\<close> Assembly code and start-up, since their effects are on registers and tables below this level; the debugging calls; the
  calls of the process manager above its allocator; the calls of the file system on path names; device
  drivers, the network server, the library, the boot monitor, the commands and the Rust rewrite.
\<close>

end
